(* ===== verification/Prelude.thy ===== *)
theory Prelude
  imports Main "HOL-Library.Word" "HOL-Library.List_Lexorder" "HOL-Library.Sublist"
begin

text \<open>
  Shared vocabulary of the development: machine integer types, byte strings with the
  order of Rust's \<open>[u8]::cmp\<close> (lexicographic, HOL-Library's list order over unsigned
  bytes), the engine's error values, the \<open>?\<close> operator of Rust as a bind on sums,
  and the generic list and byte lemmas that the components use.
\<close>

unbundle bit_operations_syntax

type_synonym u8 = "8 word"
type_synonym u16 = "16 word"
type_synonym u32 = "32 word"
type_synonym u64 = "64 word"
type_synonym u128 = "128 word"
type_synonym bytes = "8 word list"

named_theorems byte_order \<open>facts about the lexicographic order of byte strings\<close>

section \<open>Errors and results\<close>

text \<open>
  The SQLSTATE classes the modelled code raises (\<open>error.rs\<close>, \<open>sqlstate.rs\<close>); an
  error is the state with its informational message.
\<close>

datatype sqlstate =
    DataCorrupted
  | InvalidDatetimeFormat
  | DatetimeFieldOverflow
  | NumericValueOutOfRange
  | InvalidTextRepresentation
  | DataException
  | SyntaxError
  | DivisionByZero
  | InvalidArgumentForPowerFunction
  | IoError
  | ProgramLimitExceeded

type_synonym engine_error = "sqlstate \<times> string"
type_synonym 'a result = "engine_error + 'a"

text \<open>Rust's \<open>?\<close>: propagate the error, continue with the value.\<close>

fun res_bind :: "'e + 'a \<Rightarrow> ('a \<Rightarrow> 'e + 'b) \<Rightarrow> 'e + 'b" where
  "res_bind (Inl e) f = Inl e"
| "res_bind (Inr a) f = f a"

lemma res_bind_Inr_iff [simp]:
  "res_bind r f = Inr b \<longleftrightarrow> (\<exists>a. r = Inr a \<and> f a = Inr b)"
  by (cases r) auto

lemma res_bind_cong [fundef_cong]:
  "r = r' \<Longrightarrow> (\<And>a. r' = Inr a \<Longrightarrow> f a = g a) \<Longrightarrow> res_bind r f = res_bind r' g"
  by (cases r') auto

text \<open>
  Indexing: \<open>None\<close> is the panic of an index out of range, so that a function whose
  result is \<open>Some\<close> is one that does not panic.
\<close>

definition nth_opt :: "'a list \<Rightarrow> nat \<Rightarrow> 'a option" where
  "nth_opt xs i = (if i < length xs then Some (xs ! i) else None)"

lemma nth_opt_simps [simp]:
  "i < length xs \<Longrightarrow> nth_opt xs i = Some (xs ! i)"
  "length xs \<le> i \<Longrightarrow> nth_opt xs i = None"
  by (auto simp: nth_opt_def)

lemma nth_opt_Some_iff: "nth_opt xs i = Some x \<longleftrightarrow> i < length xs \<and> xs ! i = x"
  by (auto simp: nth_opt_def)

text \<open>\<open>partition_point\<close> of the standard library, on a partitioned slice.\<close>

definition partition_point :: "('a \<Rightarrow> bool) \<Rightarrow> 'a list \<Rightarrow> nat" where
  "partition_point P xs = length (takeWhile P xs)"

text \<open>
  A computation that may panic and may fail: \<open>None\<close> is the panic, \<open>Some (Inl e)\<close> the error.
\<close>

type_synonym 'a io = "'a result option"

definition io_bind :: "('e + 'a) option \<Rightarrow> ('a \<Rightarrow> ('e + 'b) option) \<Rightarrow> ('e + 'b) option" where
  "io_bind x f = (case x of None \<Rightarrow> None | Some (Inl e) \<Rightarrow> Some (Inl e) | Some (Inr a) \<Rightarrow> f a)"

lemma io_bind_simps [simp]:
  "io_bind None f = None" "io_bind (Some (Inl e)) f = Some (Inl e)"
  "io_bind (Some (Inr a)) f = f a"
  by (simp_all add: io_bind_def)

lemma io_bind_cong [fundef_cong]:
  "x = y \<Longrightarrow> (\<And>a. y = Some (Inr a) \<Longrightarrow> f a = g a) \<Longrightarrow> io_bind x f = io_bind y g"
  by (auto simp: io_bind_def split: option.splits sum.splits)

section \<open>Comparisons\<close>

text \<open>\<open>std::cmp::Ordering\<close> and \<open>Ord::cmp\<close>.\<close>

datatype ordering = Less | Equal | Greater

definition cmp :: "'a::linorder \<Rightarrow> 'a \<Rightarrow> ordering" where
  "cmp x y = (if x < y then Less else if x = y then Equal else Greater)"

fun ordering_reverse :: "ordering \<Rightarrow> ordering" where
  "ordering_reverse Less = Greater"
| "ordering_reverse Equal = Equal"
| "ordering_reverse Greater = Less"

lemma cmp_iff [simp]:
  "cmp x y = Less \<longleftrightarrow> x < y" "cmp x y = Equal \<longleftrightarrow> x = y" "cmp x y = Greater \<longleftrightarrow> y < x"
  "Less = cmp x y \<longleftrightarrow> x < y" "Equal = cmp x y \<longleftrightarrow> x = y" "Greater = cmp x y \<longleftrightarrow> y < x"
  by (auto simp: cmp_def)

lemma ordering_reverse_cmp: "ordering_reverse (cmp x y) = cmp y x"
  by (cases x y rule: linorder_cases) (auto simp: cmp_def)

lemma cmp_mono: "(x < y \<longleftrightarrow> u < v) \<Longrightarrow> (x = y \<longleftrightarrow> u = v) \<Longrightarrow> cmp x y = cmp u v"
  by (auto simp: cmp_def)

section \<open>Vectors\<close>

text \<open>\<open>Vec::insert\<close> and \<open>Vec::remove\<close> at a position the vector has.\<close>

definition insert_at :: "nat \<Rightarrow> 'a \<Rightarrow> 'a list \<Rightarrow> 'a list" where
  "insert_at i x xs = take i xs @ x # drop i xs"

definition remove_at :: "nat \<Rightarrow> 'a list \<Rightarrow> 'a list" where
  "remove_at i xs = take i xs @ drop (Suc i) xs"

lemma insert_at_append [simp]: "i = length xs \<Longrightarrow> insert_at i x (xs @ ys) = xs @ x # ys"
  by (simp add: insert_at_def)

lemma remove_at_append [simp]: "i = length xs \<Longrightarrow> remove_at i (xs @ y # ys) = xs @ ys"
  by (simp add: remove_at_def)

lemma length_insert_at [simp]: "i \<le> length xs \<Longrightarrow> length (insert_at i x xs) = Suc (length xs)"
  by (simp add: insert_at_def)

lemma length_remove_at [simp]: "i < length xs \<Longrightarrow> length (remove_at i xs) = length xs - 1"
  by (simp add: remove_at_def)

lemma zip_insert_at:
  "length xs = length ys \<Longrightarrow> zip (insert_at i x xs) (insert_at i y ys) = insert_at i (x, y) (zip xs ys)"
  by (simp add: insert_at_def take_zip drop_zip zip_append)

lemma zip_remove_at:
  "length xs = length ys \<Longrightarrow> zip (remove_at i xs) (remove_at i ys) = remove_at i (zip xs ys)"
  by (simp add: remove_at_def take_zip drop_zip zip_append)

section \<open>Byte strings\<close>

lemma less_append_eq_length [byte_order]:
  fixes a b c d :: "'a::linorder list"
  assumes "length a = length b"
  shows "a @ c < b @ d \<longleftrightarrow> a < b \<or> a = b \<and> c < d"
  using assms by (induction a b rule: list_induct2) auto

text \<open>
  \<open>dless xs ys\<close>: \<open>xs\<close> is below \<open>ys\<close> because of a position both strings have. Unlike the
  plain order it survives any continuation of either string, which is what makes a
  variable-width key body usable inside a longer key.
\<close>

fun dless :: "'a::linorder list \<Rightarrow> 'a list \<Rightarrow> bool" where
  "dless (x # xs) (y # ys) = (x < y \<or> x = y \<and> dless xs ys)"
| "dless xs ys = False"

lemma dless_imp_less [byte_order]: "dless xs ys \<Longrightarrow> xs < ys"
  by (induction xs ys rule: dless.induct) auto

lemma dless_append [byte_order]: "dless xs ys \<Longrightarrow> dless (xs @ u) (ys @ v)"
  by (induction xs ys rule: dless.induct) auto

lemma dless_prepend [byte_order, simp]: "dless (p @ xs) (p @ ys) = dless xs ys"
  by (induction p) auto

lemma dless_same_length:
  "length xs = length ys \<Longrightarrow> dless xs ys = (xs < ys)"
  by (induction xs ys rule: list_induct2) auto

lemma dless_irrefl [simp]: "\<not> dless xs xs"
  by (induction xs) auto

lemma word_not_less_iff: "NOT x < NOT y \<longleftrightarrow> y < (x :: 'a::len word)"
proof -
  have e: "NOT z = - 1 - z" for z :: "'a word"
    by (simp add: not_eq_complement)
  have u: "uint (- 1 - z) = uint (- 1 :: 'a word) - uint z" for z :: "'a word"
    by (rule uint_sub_lem [THEN iffD1]) (metis word_le_def word_n1_ge)
  show ?thesis unfolding e by (auto simp: word_less_def u)
qed

lemma dless_map_NOT [byte_order]:
  "dless (map NOT xs) (map NOT ys) = dless ys (xs :: 'a::len word list)"
  by (induction xs ys rule: dless.induct) (auto simp: word_not_less_iff)

section \<open>Big-endian bytes\<close>

text \<open>\<open>to_be_bytes\<close> of an \<open>n\<close>-byte integer, and the value a big-endian string denotes.\<close>

fun be_bytes :: "nat \<Rightarrow> int \<Rightarrow> bytes" where
  "be_bytes 0 x = []"
| "be_bytes (Suc n) x = be_bytes n (x div 256) @ [word_of_int (x mod 256)]"

definition be_val :: "bytes \<Rightarrow> int" where
  "be_val bs = foldl (\<lambda>u b. u * 256 + uint b) 0 bs"

lemma length_be_bytes [simp]: "length (be_bytes n x) = n"
  by (induction n x rule: be_bytes.induct) auto

lemma be_val_Nil [simp]: "be_val [] = 0"
  by (simp add: be_val_def)

lemma be_val_snoc [simp]: "be_val (bs @ [b]) = be_val bs * 256 + uint b"
  by (simp add: be_val_def)

lemma be_val_bounds: "0 \<le> be_val bs \<and> be_val bs < 256 ^ length bs"
proof (induction bs rule: rev_induct)
  case (snoc b bs)
  have "0 \<le> uint b" "uint b < 256"
    using uint_lt2p [of b] by auto
  then show ?case using snoc by auto
qed simp

lemma uint_word8_of_mod [simp]: "uint (word_of_int (x mod 256) :: u8) = x mod 256"
  by (simp add: uint_word_of_int)

lemma be_val_be_bytes: "be_val (be_bytes n x) = x mod 256 ^ n"
proof (induction n arbitrary: x)
  case (Suc n)
  have "x mod (256 * 256 ^ n) = 256 * (x div 256 mod 256 ^ n) + x mod 256"
    by (simp add: zmod_zmult2_eq)
  then show ?case by (simp add: Suc mult.commute)
qed simp

lemma be_val_be_bytes_id [simp]: "0 \<le> x \<Longrightarrow> x < 256 ^ n \<Longrightarrow> be_val (be_bytes n x) = x"
  by (simp add: be_val_be_bytes)

lemma be_bytes_be_val [simp]: "be_bytes (length bs) (be_val bs) = bs"
proof (induction bs rule: rev_induct)
  case (snoc b bs)
  have b: "0 \<le> uint b" "uint b < 256"
    using uint_lt2p [of b] by auto
  then have "(be_val bs * 256 + uint b) div 256 = be_val bs"
    and "(be_val bs * 256 + uint b) mod 256 = uint b"
    by auto
  with snoc show ?case by simp
qed simp

lemma div256_bounds: "x < 256 ^ Suc n \<Longrightarrow> x div 256 < 256 ^ n" for x :: int
proof -
  assume "x < 256 ^ Suc n"
  moreover have "256 * (x div 256) \<le> x" by simp
  ultimately have "256 * (x div 256) < 256 * 256 ^ n" unfolding power_Suc by linarith
  then show ?thesis by simp
qed

lemma radix_less_iff:
  fixes a b r s :: int
  assumes "0 \<le> r" "r < m" "0 \<le> s" "s < m"
  shows "m * a + r < m * b + s \<longleftrightarrow> a < b \<or> a = b \<and> r < s"
proof -
  have *: "m * c + t < m * d + u" if "c < d" "t < m" "0 \<le> u" for c d t u :: int
  proof -
    have "m * (c + 1) \<le> m * d"
      using that assms by (intro mult_left_mono) auto
    then show ?thesis using that by (simp add: algebra_simps)
  qed
  show ?thesis
    using *[of a b r s] *[of b a s r] assms by (cases a b rule: linorder_cases) auto
qed

lemma be_bytes_inj:
  "0 \<le> x \<Longrightarrow> x < 256 ^ n \<Longrightarrow> 0 \<le> y \<Longrightarrow> y < 256 ^ n \<Longrightarrow> be_bytes n x = be_bytes n y \<longleftrightarrow> x = y"
  by (metis be_val_be_bytes_id)

lemma be_bytes_less_iff [byte_order]:
  assumes "0 \<le> x" "x < 256 ^ n" "0 \<le> y" "y < 256 ^ n"
  shows "be_bytes n x < be_bytes n y \<longleftrightarrow> x < y"
  using assms
proof (induction n arbitrary: x y)
  case (Suc n)
  have b: "0 \<le> x div 256" "x div 256 < 256 ^ n" "0 \<le> y div 256" "y div 256 < 256 ^ n"
    using Suc.prems div256_bounds by (simp_all add: div_int_pos_iff)
  have "(word_of_int (x mod 256) :: u8) < word_of_int (y mod 256) \<longleftrightarrow> x mod 256 < y mod 256"
    by (simp add: word_less_def)
  moreover have "x < y \<longleftrightarrow> x div 256 < y div 256 \<or> x div 256 = y div 256 \<and> x mod 256 < y mod 256"
    using radix_less_iff [of "x mod 256" 256 "y mod 256" "x div 256" "y div 256"] by simp
  ultimately show ?case
    using Suc.IH [OF b] be_bytes_inj [OF b] by (simp add: less_append_eq_length)
qed simp

end
