(* ===== verification/Encoding.thy ===== *)
theory Encoding
  imports Prelude
begin

text \<open>
  Order-preserving key encoding (\<open>impl/rust/src/encoding.rs\<close>, with the key widths of
  \<open>types.rs\<close>). Keys are compared with \<open>memcmp\<close> only, so each body must order like the
  value it encodes, and must keep that order whatever follows it in a composite key.
  The locale \<open>key_codec\<close> states that contract once; the integer, boolean and
  terminated-string bodies interpret it, and the nullable, directed index slots of
  \<open>KeyOrder\<close> are proved over it.
\<close>

unbundle bit_operations_syntax

section \<open>Model\<close>

datatype scalar_type =
    Int16 | Int32 | Int64 | Text | Bool | Decimal | Bytea | Uuid | Timestamp | Timestamptz
  | Interval | Float32 | Float64 | Date | Json | Jsonb | JsonPath

text \<open>\<open>None\<close> is the \<open>unreachable!\<close> arm of the variable-width types.\<close>

fun width_bytes :: "scalar_type \<Rightarrow> nat option" where
  "width_bytes Bool = Some 1"
| "width_bytes Int16 = Some 2"
| "width_bytes Int32 = Some 4"
| "width_bytes Int64 = Some 8"
| "width_bytes Timestamp = Some 8"
| "width_bytes Timestamptz = Some 8"
| "width_bytes Uuid = Some 16"
| "width_bytes Date = Some 4"
| "width_bytes Float32 = Some 4"
| "width_bytes Float64 = Some 8"
| "width_bytes Text = None"
| "width_bytes Decimal = None"
| "width_bytes Bytea = None"
| "width_bytes Interval = None"
| "width_bytes Json = None"
| "width_bytes Jsonb = None"
| "width_bytes JsonPath = None"

text \<open>
  The sign-flip encoding: add the bias \<open>2^(bits-1)\<close> in 128-bit arithmetic and keep the low
  \<open>width\<close> bytes of the sixteen big-endian ones.
\<close>

definition encode_int :: "scalar_type \<Rightarrow> int \<Rightarrow> bytes option" where
  "encode_int ty value = (case width_bytes ty of
     None \<Rightarrow> None
   | Some width \<Rightarrow>
       (let bias = push_bit (width * 8 - 1) (1 :: u128);
            u = (word_of_int value :: u128) + bias;
            be = be_bytes 16 (uint u)
        in Some (drop (length be - width) be)))"

definition decode_int :: "scalar_type \<Rightarrow> bytes \<Rightarrow> int option" where
  "decode_int ty bs = (case width_bytes ty of
     None \<Rightarrow> None
   | Some width \<Rightarrow>
       (let bias = push_bit (width * 8 - 1) (1 :: u128);
            u = foldl (\<lambda>u b. push_bit 8 u OR (ucast b :: u128)) 0 bs
        in Some (sint (word_of_int (sint u - sint bias) :: u64))))"

definition encode_bool :: "bool \<Rightarrow> bytes" where
  "encode_bool v = [if v then 1 else 0]"

fun escape :: "bytes \<Rightarrow> bytes" where
  "escape [] = []"
| "escape (b # bs) = (if b = 0 then b # 0xFF # escape bs else b # escape bs)"

definition encode_terminated :: "bytes \<Rightarrow> bytes" where
  "encode_terminated content = escape content @ [0x00, 0x01]"

fun encode_nullable :: "scalar_type \<Rightarrow> int option \<Rightarrow> bytes option" where
  "encode_nullable ty None = Some [0x01]"
| "encode_nullable ty (Some v) = map_option (\<lambda>b. 0x00 # b) (encode_int ty v)"

record key_order =
  desc :: bool
  nulls_first :: bool

definition ASC :: key_order where
  "ASC = \<lparr>desc = False, nulls_first = False\<rparr>"

definition is_default :: "key_order \<Rightarrow> bool" where
  "is_default ko \<longleftrightarrow> \<not> desc ko \<and> \<not> nulls_first ko"

definition to_byte :: "key_order \<Rightarrow> u8" where
  "to_byte ko = of_bool (desc ko) OR push_bit 1 (of_bool (nulls_first ko))"

definition from_byte :: "u8 \<Rightarrow> key_order option" where
  "from_byte b = (if b AND NOT 3 = 0
     then Some \<lparr>desc = (b AND 1 \<noteq> 0), nulls_first = (b AND 2 \<noteq> 0)\<rparr> else None)"

definition present_tag :: "key_order \<Rightarrow> u8" where
  "present_tag ko = (case (desc ko, nulls_first ko) of
     (False, False) \<Rightarrow> 0x00 | (False, True) \<Rightarrow> 0x01
   | (True, True) \<Rightarrow> 0xFF | (True, False) \<Rightarrow> 0xFE)"

definition null_tag :: "key_order \<Rightarrow> u8" where
  "null_tag ko = (case (desc ko, nulls_first ko) of
     (False, False) \<Rightarrow> 0x01 | (False, True) \<Rightarrow> 0x00
   | (True, True) \<Rightarrow> 0xFE | (True, False) \<Rightarrow> 0xFF)"

definition push_present :: "key_order \<Rightarrow> bytes \<Rightarrow> bytes \<Rightarrow> bytes" where
  "push_present ko out body =
     out @ [present_tag ko] @ (if desc ko then map NOT body else body)"

fun push_slot :: "key_order \<Rightarrow> bytes \<Rightarrow> bytes option \<Rightarrow> bytes" where
  "push_slot ko out (Some b) = push_present ko out b"
| "push_slot ko out None = out @ [null_tag ko]"

definition present_slot :: "key_order \<Rightarrow> bytes \<Rightarrow> bytes" where
  "present_slot ko body = push_present ko [] body"

definition is_null_tag :: "key_order \<Rightarrow> u8 \<Rightarrow> bool" where
  "is_null_tag ko tag \<longleftrightarrow> tag = null_tag ko"

text \<open>
  The composite entry key of an ordered index (\<open>executor/access_encode.rs\<close>,
  \<open>index_entry_key\<close>): one slot per key element, appended to one buffer, each with its own
  order, then the row's storage key. The argument \<open>bodies\<close> is what \<open>index_slot_key\<close> returned
  for each element (\<open>None\<close> for SQL NULL).
\<close>

fun push_slots :: "bytes \<Rightarrow> (key_order \<times> bytes option) list \<Rightarrow> bytes" where
  "push_slots out [] = out"
| "push_slots out ((ko, body) # slots) = push_slots (push_slot ko out body) slots"

definition index_entry_key :: "key_order list \<Rightarrow> bytes option list \<Rightarrow> bytes \<Rightarrow> bytes" where
  "index_entry_key orders bodies storage_key = push_slots [] (zip orders bodies) @ storage_key"

section \<open>The order an index key must have\<close>

text \<open>
  The order SQL asks of one nullable, directed column, and of a list of columns: they
  compare at the first column that differs.
\<close>

definition slot_less :: "key_order \<Rightarrow> 'a::linorder option \<Rightarrow> 'a option \<Rightarrow> bool" where
  "slot_less ko u v = (case (u, v) of
     (None, None) \<Rightarrow> False
   | (None, Some _) \<Rightarrow> nulls_first ko
   | (Some _, None) \<Rightarrow> \<not> nulls_first ko
   | (Some a, Some b) \<Rightarrow> if desc ko then b < a else a < b)"

fun slots_less :: "key_order list \<Rightarrow> 'a::linorder option list \<Rightarrow> 'a option list \<Rightarrow> bool" where
  "slots_less (ko # os) (u # us) (v # vs) = (slot_less ko u v \<or> u = v \<and> slots_less os us vs)"
| "slots_less _ _ _ = False"

lemma slot_less_total: "slot_less ko u v \<or> slot_less ko v u \<or> u = v"
  by (cases u; cases v) (auto simp: slot_less_def)

lemma slot_less_asym: "slot_less ko u v \<Longrightarrow> \<not> slot_less ko v u"
  by (cases u; cases v) (auto simp: slot_less_def split: if_splits)

lemma slots_less_total:
  "length us = length os \<Longrightarrow> length vs = length os
    \<Longrightarrow> slots_less os us vs \<or> slots_less os vs us \<or> us = vs"
proof (induction os arbitrary: us vs)
  case (Cons ko os)
  then obtain u us' v vs' where e: "us = u # us'" "vs = v # vs'"
    by (metis Suc_length_conv)
  then have "slots_less os us' vs' \<or> slots_less os vs' us' \<or> us' = vs'"
    using Cons by simp
  then show ?case using slot_less_total [of ko u v] e by auto
qed simp

lemma push_slot_append: "push_slot ko out b = out @ push_slot ko [] b"
  by (cases b) (auto simp: push_present_def)

lemma push_slots_append: "push_slots out slots = out @ push_slots [] slots"
proof (induction slots arbitrary: out)
  case (Cons s slots)
  obtain ko b where s: "s = (ko, b)" by fastforce
  show ?case
    unfolding s push_slots.simps
    by (subst Cons.IH, subst (2) Cons.IH, subst push_slot_append, simp)
qed simp

section \<open>The contract of a key body\<close>

text \<open>
  What a composite key needs of a body encoder: smaller values differ below at a byte
  both bodies have, so neither body is a prefix of the other.
\<close>

locale key_codec =
  fixes enc :: "'a::linorder \<Rightarrow> bytes"
    and ok :: "'a \<Rightarrow> bool"
  assumes enc_dless: "ok a \<Longrightarrow> ok b \<Longrightarrow> a < b \<Longrightarrow> dless (enc a) (enc b)"
begin

lemma enc_inj: "ok a \<Longrightarrow> ok b \<Longrightarrow> enc a = enc b \<Longrightarrow> a = b"
  by (metis dless_irrefl enc_dless linorder_neqE)

lemma enc_less_iff:
  assumes "ok a" "ok b"
  shows "enc a < enc b \<longleftrightarrow> a < b"
  using assms enc_dless [of a b] enc_dless [of b a]
  by (metis dless_imp_less linorder_neqE order_less_asym order_less_irrefl)

text \<open>Appending anything after two bodies of different values leaves their order.\<close>

lemma enc_append_less_iff:
  assumes "ok a" "ok b"
  shows "enc a @ x < enc b @ y \<longleftrightarrow> a < b \<or> a = b \<and> x < y"
proof (cases a b rule: linorder_cases)
  case less
  with assms show ?thesis by (simp add: dless_append dless_imp_less enc_dless)
next
  case equal
  then show ?thesis by (simp add: less_append_eq_length)
next
  case greater
  with assms have "enc b @ y < enc a @ x" by (simp add: dless_append dless_imp_less enc_dless)
  with greater show ?thesis by auto
qed

text \<open>The slot of a column: the smaller value has the smaller bytes, at a byte both slots have.\<close>

definition slot :: "key_order \<Rightarrow> 'a option \<Rightarrow> bytes" where
  "slot ko v = push_slot ko [] (map_option enc v)"

lemma slot_dless:
  assumes "pred_option ok u" "pred_option ok v" "slot_less ko u v"
  shows "dless (slot ko u) (slot ko v)"
  using assms
  by (cases ko; cases u; cases v; cases "desc ko"; cases "nulls_first ko")
    (auto simp: slot_less_def slot_def push_present_def present_tag_def null_tag_def
      dless_map_NOT enc_dless)

lemma push_slots_Cons:
  "push_slots [] ((ko, map_option enc v) # slots) = slot ko v @ push_slots [] slots"
  by (simp add: slot_def) (rule push_slots_append)

lemma push_slots_dless:
  assumes "slots_less os us vs" "list_all (pred_option ok) us" "list_all (pred_option ok) vs"
  shows "dless (push_slots [] (zip os (map (map_option enc) us)))
           (push_slots [] (zip os (map (map_option enc) vs)))"
  using assms
  by (induction os us vs rule: slots_less.induct)
    (auto simp: push_slots_Cons slot_dless dless_append simp del: push_slots.simps)

lemma index_entry_less_iff:
  assumes "length us = length os" "length vs = length os"
    and ok: "list_all (pred_option ok) us" "list_all (pred_option ok) vs"
  shows "index_entry_key os (map (map_option enc) us) x < index_entry_key os (map (map_option enc) vs) y
     \<longleftrightarrow> slots_less os us vs \<or> us = vs \<and> x < y"
proof -
  have less: "index_entry_key os (map (map_option enc) a) p < index_entry_key os (map (map_option enc) b) q"
    if "slots_less os a b" "list_all (pred_option ok) a" "list_all (pred_option ok) b" for a b p q
    unfolding index_entry_key_def using push_slots_dless [OF that]
    by (simp add: dless_append dless_imp_less)
  have irr: "\<not> slots_less os us us"
    using less [of us us "[]" "[]"] ok by blast
  consider "slots_less os us vs" | "slots_less os vs us" | "us = vs"
    using slots_less_total [OF assms(1,2)] by blast
  then show ?thesis
  proof cases
    case 2
    then show ?thesis
      using less [OF 2 ok(2,1), of y x] less [of us vs "[]" "[]"] less [of vs us "[]" "[]"] ok irr
      by (metis order_less_asym)
  next
    case 3
    with irr show ?thesis by (simp add: index_entry_key_def less_append_eq_length)
  qed (simp add: less ok)
qed

end

section \<open>Integer bodies\<close>

definition in_width :: "nat \<Rightarrow> int \<Rightarrow> bool" where
  "in_width w v \<longleftrightarrow> - (2 ^ (w * 8 - 1)) \<le> v \<and> v < 2 ^ (w * 8 - 1)"

lemma drop_be_bytes: "k \<le> n \<Longrightarrow> drop (n - k) (be_bytes n x) = be_bytes k x"
proof (induction n arbitrary: k x)
  case (Suc n)
  show ?case
  proof (cases k)
    case (Suc j)
    with Suc.prems Suc.IH [of j "x div 256"] show ?thesis by (simp add: Suc_diff_le)
  qed simp
qed simp

lemma pow256: "(256::int) ^ w = 2 ^ (w * 8)"
proof -
  have "(256::int) ^ w = (2 ^ 8) ^ w" by simp
  also have "\<dots> = 2 ^ (w * 8)" by (metis mult.commute power_mult)
  finally show ?thesis .
qed

lemma width_cases: "width_bytes ty = Some w \<Longrightarrow> w \<in> {1, 2, 4, 8, 16}"
  by (cases ty) auto

lemma width_pos: "width_bytes ty = Some w \<Longrightarrow> 0 < w"
  by (auto dest: width_cases)

lemma biased_bounds:
  assumes "in_width w v" "0 < w"
  shows "0 \<le> v + 2 ^ (w * 8 - 1)" "v + 2 ^ (w * 8 - 1) < 256 ^ w"
proof -
  have "(2::int) ^ (w * 8) = 2 * 2 ^ (w * 8 - 1)"
    using assms(2) by (metis One_nat_def Suc_diff_1 mult_pos_pos power_Suc zero_less_numeral)
  then show "0 \<le> v + 2 ^ (w * 8 - 1)" "v + 2 ^ (w * 8 - 1) < 256 ^ w"
    using assms(1) unfolding in_width_def pow256 by auto
qed

lemma push_bit_one_word: "push_bit n (1 :: 'a::len word) = word_of_int (2 ^ n)"
  by (simp add: push_bit_eq_mult)

lemma encode_int_eq:
  assumes w: "width_bytes ty = Some w" and v: "in_width w v"
  shows "encode_int ty v = Some (be_bytes w (v + 2 ^ (w * 8 - 1)))"
proof -
  note b = biased_bounds [OF v width_pos [OF w]]
  have w16: "w \<le> 16" using width_cases [OF w] by auto
  have "(256::int) ^ w \<le> 256 ^ 16" using w16 by (intro power_increasing) auto
  with b have lt: "v + 2 ^ (w * 8 - 1) < 2 ^ 128" by simp
  have "(word_of_int v :: u128) + push_bit (w * 8 - 1) 1 = word_of_int (v + 2 ^ (w * 8 - 1))"
    by (simp only: push_bit_one_word wi_hom_add)
  moreover have "uint (word_of_int (v + 2 ^ (w * 8 - 1)) :: u128) = v + 2 ^ (w * 8 - 1)"
    unfolding uint_word_of_int using b lt by (intro mod_pos_pos_trivial) auto
  ultimately show ?thesis
    using w w16 drop_be_bytes [of w 16] by (simp add: encode_int_def Let_def del: be_bytes.simps)
qed

lemma push_bit_8_or_ucast:
  "push_bit 8 u OR (ucast (b :: u8) :: u128) = u * 256 + ucast b"
proof -
  have "push_bit 8 u AND (ucast b :: u128) = 0"
    by (rule bit_eqI) (auto simp: bit_simps dest: bit_imp_le_length)
  then have "push_bit 8 u OR (ucast b :: u128) = push_bit 8 u + ucast b"
    by (simp add: disjunctive_add_eq_or)
  then show ?thesis by (simp add: push_bit_eq_mult mult.commute)
qed

lemma word_of_int_uint_ucast: "word_of_int (uint (b :: u8)) = (ucast b :: u128)"
  by simp

lemma foldl_be_word:
  "foldl (\<lambda>u b. push_bit 8 u OR (ucast b :: u128)) 0 bs = word_of_int (be_val bs)"
proof (induction bs rule: rev_induct)
  case (snoc b bs)
  have "word_of_int (be_val bs * 256 + uint b)
      = (word_of_int (be_val bs) :: u128) * word_of_int 256 + word_of_int (uint b)"
    by (simp only: wi_hom_add wi_hom_mult)
  then show ?case
    by (simp add: snoc [unfolded push_bit_8_or_ucast] push_bit_8_or_ucast)
qed simp

lemma sint_word_of_int_id:
  assumes "- (2 ^ (LENGTH('a::len) - 1)) \<le> x" "x < 2 ^ (LENGTH('a) - 1)"
  shows "sint (word_of_int x :: 'a word) = x"
  using assms by (simp add: sint_sbintrunc' signed_take_bit_int_eq_self)

lemma decode_int_be_bytes:
  assumes w: "width_bytes ty = Some w" "w \<le> 8" and v: "in_width w v"
  shows "decode_int ty (be_bytes w (v + 2 ^ (w * 8 - 1))) = Some v"
proof -
  let ?x = "v + 2 ^ (w * 8 - 1)"
  note b = biased_bounds [OF v width_pos [OF w(1)]]
  have p: "(2::int) ^ (w * 8 - 1) \<le> 2 ^ 63" using w(2) by (intro power_increasing) auto
  with v have x: "- (2 ^ 127) \<le> ?x" "?x < 2 ^ 127" "- (2 ^ 63) \<le> v" "v < 2 ^ 63"
    unfolding in_width_def by auto
  have "foldl (\<lambda>u b. push_bit 8 u OR (ucast b :: u128)) 0 (be_bytes w ?x) = word_of_int ?x"
    by (simp only: foldl_be_word be_val_be_bytes_id [OF b])
  moreover have "sint (word_of_int ?x :: u128) = ?x"
    using x by (intro sint_word_of_int_id) auto
  moreover have "sint (push_bit (w * 8 - 1) (1 :: u128)) = 2 ^ (w * 8 - 1)"
    unfolding push_bit_one_word using p
    by (intro sint_word_of_int_id) (auto intro: order_trans [of _ 0])
  moreover have "sint (word_of_int v :: u64) = v"
    using x by (intro sint_word_of_int_id) auto
  ultimately show ?thesis
    unfolding decode_int_def w(1) Let_def option.case by (simp only: add_diff_cancel_right')
qed

definition int_body :: "scalar_type \<Rightarrow> int \<Rightarrow> bytes" where
  "int_body ty v = the (encode_int ty v)"

definition int_ok :: "scalar_type \<Rightarrow> int \<Rightarrow> bool" where
  "int_ok ty v = (case width_bytes ty of None \<Rightarrow> False | Some w \<Rightarrow> in_width w v)"

lemma int_okE:
  assumes "int_ok ty v"
  obtains w where "width_bytes ty = Some w" "in_width w v"
    "encode_int ty v = Some (be_bytes w (v + 2 ^ (w * 8 - 1)))"
  using assms encode_int_eq by (auto simp: int_ok_def split: option.splits)

interpretation int_codec: key_codec "int_body ty" "int_ok ty" for ty
proof
  fix a b :: int
  assume "int_ok ty a" "int_ok ty b" and ab: "a < b"
  then obtain w where w: "width_bytes ty = Some w" "in_width w a" "in_width w b"
    "encode_int ty a = Some (be_bytes w (a + 2 ^ (w * 8 - 1)))"
    "encode_int ty b = Some (be_bytes w (b + 2 ^ (w * 8 - 1)))"
    by (auto elim!: int_okE)
  then have "be_bytes w (a + 2 ^ (w * 8 - 1)) < be_bytes w (b + 2 ^ (w * 8 - 1))"
    using biased_bounds [OF w(2) width_pos [OF w(1)]] biased_bounds [OF w(3) width_pos [OF w(1)]]
      ab by (simp add: be_bytes_less_iff)
  then show "dless (int_body ty a) (int_body ty b)"
    using w by (simp add: int_body_def dless_same_length)
qed

section \<open>Boolean and terminated bodies\<close>

interpretation bool_codec: key_codec encode_bool "\<lambda>_. True"
  by unfold_locales (auto simp: encode_bool_def)

lemma encode_terminated_simps:
  "encode_terminated [] = [0, 1]"
  "encode_terminated (b # bs)
    = (if b = 0 then 0 # 0xFF # encode_terminated bs else b # encode_terminated bs)"
  by (auto simp: encode_terminated_def)

lemma u8_pos: "b \<noteq> 0 \<Longrightarrow> 0 < (b :: u8)"
  by (simp add: word_neq_0_conv)

lemma encode_terminated_dless: "a < b \<Longrightarrow> dless (encode_terminated a) (encode_terminated b)"
proof (induction a arbitrary: b)
  case Nil
  then obtain c b' where "b = c # b'" by (cases b) auto
  then show ?case by (auto simp: encode_terminated_simps u8_pos)
next
  case (Cons c a)
  then obtain d b' where b: "b = d # b'" by (cases b) auto
  with Cons.prems consider "c < d" | "c = d" "a < b'" by auto
  then show ?case
  proof cases
    case 1
    then have "d \<noteq> 0" by auto
    with 1 b show ?thesis by (auto simp: encode_terminated_simps u8_pos)
  next
    case 2
    with Cons.IH [of b'] b show ?thesis by (auto simp: encode_terminated_simps)
  qed
qed

interpretation term_codec: key_codec encode_terminated "\<lambda>_. True"
  by unfold_locales (rule encode_terminated_dless)

lemma encode_nullable_slot:
  "int_ok ty v \<Longrightarrow> encode_nullable ty (Some v) = Some (push_slot ASC [] (Some (int_body ty v)))"
  by (auto elim!: int_okE simp: push_present_def present_tag_def ASC_def int_body_def)

section \<open>Properties\<close>

text \<open>
  Integer keys (smallint, int, bigint, date, the timestamps, and every other fixed
  width): for values in the type's range, comparing the encoded bytes is comparing the
  values, whatever bytes follow them in a longer key.
\<close>

theorem encode_int_order:
  assumes "int_ok ty a" "int_ok ty b" "encode_int ty a = Some x" "encode_int ty b = Some y"
  shows "x @ u < y @ v \<longleftrightarrow> a < b \<or> a = b \<and> u < v"
  using int_codec.enc_append_less_iff [OF assms(1,2), of u v] assms(3,4)
  by (simp add: int_body_def)

theorem encode_int_order_witness:
  "([0x7F, 0xFF] :: bytes) @ [9] < [0x80, 0x00] @ [1]"
proof -
  have "int_ok Int16 (-1)" "int_ok Int16 0" "encode_int Int16 (-1) = Some [0x7F, 0xFF]"
    "encode_int Int16 0 = Some [0x80, 0x00]"
    by (simp add: int_ok_def in_width_def, simp add: int_ok_def in_width_def, code_simp, code_simp)
  from encode_int_order [OF this, of "[9]" "[1]"] show ?thesis by simp
qed

text \<open>
  Round trip of integer keys up to eight bytes wide: every value in range encodes to
  exactly the type's width, and decoding those bytes gives the value back.
\<close>

theorem decode_encode_int:
  assumes "width_bytes ty = Some w" "w \<le> 8" "in_width w v"
  shows "\<exists>bs. encode_int ty v = Some bs \<and> length bs = w \<and> decode_int ty bs = Some v"
  using encode_int_eq [OF assms(1,3)] decode_int_be_bytes [OF assms] by simp

theorem decode_encode_int_witness:
  "\<exists>bs. encode_int Int32 (-2147483648) = Some bs \<and> length bs = 4
     \<and> decode_int Int32 bs = Some (-2147483648)"
  by (rule decode_encode_int) (simp_all add: in_width_def)

text \<open>
  C10. Ordered-index entries over terminated bodies (text and bytea keys): for any list of key
  elements with any mix of ascending and descending order and of null placement, the byte
  order of the entry keys is the SQL order of the key values, ties broken by storage key.
\<close>

theorem index_entry_order:
  assumes "length us = length os" "length vs = length os"
  shows "index_entry_key os (map (map_option encode_terminated) us) x
           < index_entry_key os (map (map_option encode_terminated) vs) y
         \<longleftrightarrow> slots_less os us vs \<or> us = vs \<and> x < y"
  using assms by (intro term_codec.index_entry_less_iff) (auto simp: list_all_iff pred_option_def)

theorem index_entry_order_witness:
  "index_entry_key [ASC\<lparr>desc := True\<rparr>, ASC] (map (map_option encode_terminated) [Some [7, 0], None]) [9]
     < index_entry_key [ASC\<lparr>desc := True\<rparr>, ASC] (map (map_option encode_terminated) [Some [7], Some [1]]) [3]
   \<longleftrightarrow> slots_less [ASC\<lparr>desc := True\<rparr>, ASC] [Some [7, 0], None] [Some [7], Some ([1] :: bytes)]
     \<or> [Some [7, 0], None] = [Some [7], Some ([1] :: bytes)] \<and> [9] < ([3] :: bytes)"
  by (rule index_entry_order) simp_all

end
