(* ===== verification/Lz4.thy ===== *)
theory Lz4
  imports Prelude
begin

text \<open>
  The pinned LZ4 block codec (\<open>impl/rust/src/lz4.rs\<close>): the greedy encoder with its
  4096-entry hash table and the bounds-checked decoder. A slice index out of range, and an
  unsigned subtraction below zero, is \<open>None\<close> (a panic); a decoder error is a value of the
  inner result. The decoder's cursor \<open>i\<close> into \<open>comp\<close> (here \<open>block\<close>) is kept as the remaining input
  \<open>comp[i..]\<close>. Shown: the round trip for every input, and that decoding arbitrary bytes
  neither panics nor produces anything but the announced length or a corruption error.
\<close>

unbundle bit_operations_syntax

section \<open>Model\<close>

definition MIN_MATCH :: nat where "MIN_MATCH = 4"
definition MAX_OFFSET :: nat where "MAX_OFFSET = 65535"
definition MFLIMIT :: nat where "MFLIMIT = 12"
definition LAST_LITERALS :: nat where "LAST_LITERALS = 5"
definition HASH_LOG :: nat where "HASH_LOG = 12"
definition HASH_MUL :: u32 where "HASH_MUL = 2654435761"

lemmas lz4_consts = MIN_MATCH_def MAX_OFFSET_def MFLIMIT_def LAST_LITERALS_def HASH_LOG_def

definition le32 :: "bytes \<Rightarrow> nat \<Rightarrow> u32 option" where
  "le32 src p = (if p + 4 \<le> length src
     then Some (ucast (src ! p) OR push_bit 8 (ucast (src ! (p + 1)))
        OR push_bit 16 (ucast (src ! (p + 2))) OR push_bit 24 (ucast (src ! (p + 3))))
     else None)"

definition hash :: "u32 \<Rightarrow> nat" where
  "hash v = unat (drop_bit (32 - HASH_LOG) (v * HASH_MUL))"

function emit_length :: "bytes \<Rightarrow> nat \<Rightarrow> bytes" where
  "emit_length out n =
     (if n \<ge> 255 then emit_length (out @ [255]) (n - 255) else out @ [of_nat n])"
  by pat_completeness auto
termination by (relation "measure snd") auto

definition emit_sequence :: "bytes \<Rightarrow> bytes \<Rightarrow> nat \<Rightarrow> nat \<Rightarrow> bytes option" where
  "emit_sequence out literals offset mlen = (if mlen < MIN_MATCH then None else
     (let lit = length literals;
          ml = mlen - MIN_MATCH;
          out = out @ [push_bit 4 (of_nat (min lit 15)) OR of_nat (min ml 15)];
          out = (if lit \<ge> 15 then emit_length out (lit - 15) else out);
          out = out @ literals;
          off = (of_nat offset :: u16);
          out = out @ [ucast off, ucast (drop_bit 8 off)];
          out = (if ml \<ge> 15 then emit_length out (ml - 15) else out)
      in Some out))"

definition emit_last_literals :: "bytes \<Rightarrow> bytes \<Rightarrow> bytes" where
  "emit_last_literals out literals =
     (let lit = length literals;
          out = out @ [push_bit 4 (of_nat (min lit 15))];
          out = (if lit \<ge> 15 then emit_length out (lit - 15) else out)
      in out @ literals)"

text \<open>The candidate test: \<open>cand >= 0 && p - cand <= MAX_OFFSET && le32 == le32\<close>.\<close>

definition match_at :: "bytes \<Rightarrow> nat \<Rightarrow> int \<Rightarrow> bool option" where
  "match_at src p cand =
     (if cand < 0 then Some False
      else if p < nat cand then None
      else if p - nat cand > MAX_OFFSET then Some False
      else case (le32 src (nat cand), le32 src p) of
             (Some a, Some b) \<Rightarrow> Some (a = b)
           | _ \<Rightarrow> None)"

function match_len :: "bytes \<Rightarrow> nat \<Rightarrow> nat \<Rightarrow> nat \<Rightarrow> nat \<Rightarrow> nat option" where
  "match_len src cand p maxend mlen =
     (if p + mlen < maxend then
        (case (nth_opt src (cand + mlen), nth_opt src (p + mlen)) of
           (Some a, Some b) \<Rightarrow> if a = b then match_len src cand p maxend (mlen + 1) else Some mlen
         | _ \<Rightarrow> None)
      else Some mlen)"
  by pat_completeness auto
termination by (relation "measure (\<lambda>(src, cand, p, maxend, mlen). maxend - (p + mlen))") auto

declare emit_length.simps [simp del] match_len.simps [simp del]

lemma match_len_ge: "match_len src cand p maxend mlen = Some r \<Longrightarrow> mlen \<le> r"
proof (induction src cand p maxend mlen rule: match_len.induct)
  case (1 src cand p maxend mlen)
  from "1.prems" show ?case
    unfolding match_len.simps [of src cand p maxend mlen]
    by (auto split: if_splits option.splits intro: Suc_leD "1.IH" [simplified])
qed

text \<open>The encoder's main loop; it returns the last anchor, the table being dropped.\<close>

function compress_loop ::
  "bytes \<Rightarrow> bytes \<Rightarrow> int list \<Rightarrow> nat \<Rightarrow> nat \<Rightarrow> (bytes \<times> nat) option" where
  "compress_loop src out table anchor p =
     (if int p \<le> int (length src) - int MFLIMIT then
        (case le32 src p of None \<Rightarrow> None
         | Some v \<Rightarrow>
           let h = hash v in
           (case nth_opt table h of None \<Rightarrow> None
            | Some cand \<Rightarrow>
              let table = table[h := int p] in
              (case match_at src p cand of None \<Rightarrow> None
               | Some False \<Rightarrow> compress_loop src out table anchor (p + 1)
               | Some True \<Rightarrow>
                 let cand = nat cand; maxend = length src - LAST_LITERALS in
                 (case match_len src cand p maxend MIN_MATCH of None \<Rightarrow> None
                  | Some mlen \<Rightarrow>
                    (case emit_sequence out (drop anchor (take p src)) (p - cand) mlen of
                       None \<Rightarrow> None
                     | Some out \<Rightarrow> compress_loop src out table (p + mlen) (p + mlen))))))
      else Some (out, anchor))"
  by pat_completeness auto
termination
  by (relation "measure (\<lambda>(src, out, table, anchor, p). length src - p)")
    (auto simp: lz4_consts dest!: match_len_ge)

declare compress_loop.simps [simp del]

definition compress :: "bytes \<Rightarrow> bytes option" where
  "compress src = map_option (\<lambda>(out, anchor). emit_last_literals out (drop anchor src))
     (compress_loop src [] (replicate (2 ^ HASH_LOG) (-1)) 0 0)"

definition corrupt :: "string \<Rightarrow> engine_error" where
  "corrupt msg = (DataCorrupted, msg)"

text \<open>The length-extension loop, shared by literals and matches.\<close>

fun read_length :: "nat \<Rightarrow> bytes \<Rightarrow> (nat \<times> bytes) result" where
  "read_length acc [] = Inl (corrupt ''truncated compressed block'')"
| "read_length acc (b # rest) =
     (if b \<noteq> 255 then Inr (acc + unat b, rest) else read_length (acc + unat b) rest)"

fun copy_match :: "nat \<Rightarrow> nat \<Rightarrow> bytes \<Rightarrow> bytes option" where
  "copy_match pos 0 out = Some out"
| "copy_match pos (Suc k) out =
     (case nth_opt out pos of None \<Rightarrow> None | Some b \<Rightarrow> copy_match (pos + 1) k (out @ [b]))"

lemma read_length_shorter: "read_length acc bs = Inr (n, rest) \<Longrightarrow> length rest < length bs"
  by (induction acc bs rule: read_length.induct) (fastforce split: if_splits)+

text \<open>A nibble and, when it is 15, its extension bytes.\<close>

definition read_count :: "nat \<Rightarrow> bytes \<Rightarrow> (nat \<times> bytes) result" where
  "read_count nib rest = (if nib = 15 then read_length nib rest else Inr (nib, rest))"

lemma read_count_le: "read_count nib bs = Inr (n, rest) \<Longrightarrow> length rest \<le> length bs"
  by (auto simp: read_count_def split: if_splits dest: read_length_shorter)

function decompress_loop :: "nat \<Rightarrow> bytes \<Rightarrow> bytes \<Rightarrow> bytes result option" where
  "decompress_loop raw_len out block =
     (case block of
        [] \<Rightarrow> Some (Inl (corrupt ''truncated compressed block''))
      | token # rest \<Rightarrow>
        let lit = unat (drop_bit 4 token) in
        (case read_count lit rest of
           Inl e \<Rightarrow> Some (Inl e)
         | Inr (lit, rest) \<Rightarrow>
           if length rest < lit then Some (Inl (corrupt ''truncated compressed block''))
           else if length out + lit > raw_len
           then Some (Inl (corrupt ''decompressed length overflow''))
           else
             let out = out @ take lit rest; rest = drop lit rest in
             (case rest of
                [] \<Rightarrow> if length out \<noteq> raw_len
                     then Some (Inl (corrupt ''decompressed length mismatch''))
                     else Some (Inr out)
              | [_] \<Rightarrow> Some (Inl (corrupt ''truncated compressed block''))
              | o0 # o1 # rest \<Rightarrow>
                let offset = unat (ucast o0 OR push_bit 8 (ucast o1) :: u16) in
                if offset = 0 \<or> offset > length out
                then Some (Inl (corrupt ''invalid match offset''))
                else
                  let ml = unat (token AND 15) in
                  (case read_count ml rest of
                     Inl e \<Rightarrow> Some (Inl e)
                   | Inr (ml, rest) \<Rightarrow>
                     let ml = ml + MIN_MATCH in
                     if length out + ml > raw_len
                     then Some (Inl (corrupt ''decompressed length overflow''))
                     else (case copy_match (length out - offset) ml out of
                             None \<Rightarrow> None
                           | Some out \<Rightarrow> decompress_loop raw_len out rest)))))"
  by pat_completeness auto
termination
proof (relation "measure (\<lambda>(raw_len, out, block). length block)", goal_cases)
  case (2 raw_len out block token rest lit x2 lit' rest' out' rest'' o0 x22 o1 rest3 offset ml y ml'
      rest4 ml'' out'')
  have "length rest' \<le> length rest"
    using 2 by (auto dest: read_count_le)
  moreover have "length rest4 \<le> length rest3"
    using 2 by (auto dest: read_count_le)
  moreover have "rest'' = o0 # o1 # rest3" "rest'' = drop lit' rest'" "block = token # rest"
    using 2 by simp_all
  then have "length rest3 < length rest'"
    by (metis length_drop length_Cons diff_le_self lessI less_trans order_less_le_trans)
  ultimately show ?case using 2(1) by simp
qed simp

declare decompress_loop.simps [simp del]

definition decompress :: "bytes \<Rightarrow> nat \<Rightarrow> bytes result option" where
  "decompress block raw_len = decompress_loop raw_len [] block"

section \<open>Lengths and tokens\<close>

lemma emit_length_append: "emit_length out n = out @ emit_length [] n"
proof (induction n arbitrary: out rule: less_induct)
  case (less n)
  show ?case
  proof (cases "255 \<le> n")
    case True
    then have "emit_length (out @ [255]) (n - 255) = out @ emit_length [255] (n - 255)"
      using less [of "n - 255" "out @ [255]"] less [of "n - 255" "[255]"] by simp
    with True show ?thesis
      by (simp add: emit_length.simps [of out n] emit_length.simps [of "[]" n])
  next
    case False
    then show ?thesis by (simp add: emit_length.simps [of out n] emit_length.simps [of "[]" n])
  qed
qed

lemma read_emit_length: "read_length acc (emit_length [] n @ t) = Inr (acc + n, t)"
proof (induction n arbitrary: acc rule: less_induct)
  case (less n)
  show ?case
  proof (cases "255 \<le> n")
    case True
    then have "emit_length [] n = 255 # emit_length [] (n - 255)"
      by (simp add: emit_length.simps [of "[]" n] emit_length_append [of "[255]"])
    with True less [of "n - 255" "acc + 255"] show ?thesis by simp
  next
    case False
    then have "unat (of_nat n :: u8) = n" by (simp add: unat_of_nat)
    moreover from False have "(of_nat n :: u8) \<noteq> 255"
      using \<open>unat (of_nat n :: u8) = n\<close> by auto
    ultimately show ?thesis using False by (simp add: emit_length.simps [of "[]" n])
  qed
qed

definition token :: "nat \<Rightarrow> nat \<Rightarrow> u8" where
  "token a b = push_bit 4 (of_nat a) OR of_nat b"

lemma unat_token:
  assumes "a \<le> 15" "b \<le> 15"
  shows "unat (token a b) = 16 * a + b"
proof -
  have "take_bit 4 b = b" using assms by (simp add: take_bit_nat_eq_self)
  then have b: "(of_nat b :: u8) = take_bit 4 (of_nat b)" by (metis take_bit_of_nat)
  have "push_bit 4 (of_nat a :: u8) AND of_nat b = 0"
    by (subst b, rule bit_eqI) (auto simp: bit_simps)
  then have "token a b = push_bit 4 (of_nat a) + of_nat b"
    by (simp add: token_def disjunctive_add_eq_or)
  also have "\<dots> = of_nat (16 * a + b)" by (simp add: push_bit_eq_mult mult.commute)
  finally show ?thesis using assms by (simp only: unat_of_nat) simp
qed

lemma token_fields:
  assumes "a \<le> 15" "b \<le> 15"
  shows "unat (drop_bit 4 (token a b)) = a" "unat (token a b AND 15) = b"
proof -
  show "unat (drop_bit 4 (token a b)) = a"
    using unat_token [OF assms] assms
    by (simp add: drop_bit_eq_div unat_div)
  have "token a b AND 15 = take_bit 4 (token a b)"
    by (simp add: take_bit_eq_mask mask_eq_exp_minus_1)
  then show "unat (token a b AND 15) = b"
    using unat_token [OF assms] assms by (simp add: take_bit_eq_mod unat_mod)
qed

lemma offset_bytes:
  "d < 65536 \<Longrightarrow> unat (ucast (ucast (of_nat d :: u16) :: u8)
      OR push_bit 8 (ucast (ucast (drop_bit 8 (of_nat d :: u16)) :: u8)) :: u16) = d"
proof -
  assume d: "d < 65536"
  have "ucast (ucast w :: u8) OR push_bit 8 (ucast (ucast (drop_bit 8 w) :: u8)) = w" for w :: u16
    by (rule bit_eqI) (auto simp: bit_simps dest: bit_imp_le_length)
  with d show ?thesis by (simp add: unat_of_nat)
qed

section \<open>Decoding what the encoder emits\<close>

lemma copy_match_prefix:
  assumes "cand < p" "p + mlen \<le> length src"
    and "\<forall>k < mlen. src ! (cand + k) = src ! (p + k)"
  shows "copy_match cand mlen (take p src) = Some (take (p + mlen) src)"
  using assms
proof (induction mlen arbitrary: cand p)
  case (Suc mlen)
  have "src ! cand = src ! p" using Suc.prems(3) by (metis add.right_neutral zero_less_Suc)
  then have "take p src @ [src ! cand] = take (p + 1) src"
    using Suc.prems by (simp add: take_Suc_conv_app_nth)
  moreover have "copy_match (cand + 1) mlen (take (p + 1) src) = Some (take (p + 1 + mlen) src)"
    using Suc.prems by (intro Suc.IH) (auto dest: spec [of _ "Suc _"])
  ultimately show ?case using Suc.prems by simp
qed simp

lemma copy_match_total:
  assumes "pos < length out"
  shows "\<exists>r. copy_match pos ml out = Some r \<and> length r = length out + ml"
  using assms
proof (induction ml arbitrary: pos out)
  case (Suc ml)
  then have "\<exists>r. copy_match (pos + 1) ml (out @ [out ! pos]) = Some r
      \<and> length r = length (out @ [out ! pos]) + ml"
    by (intro Suc.IH) simp
  with Suc.prems show ?case by simp
qed simp

lemma bit_u8_beyond [simp]: "8 \<le> k \<Longrightarrow> \<not> bit (w :: u8) k"
  using bit_imp_le_length [of w k] by auto

lemma le32_eq_bytes:
  assumes "le32 src a = Some v" "le32 src b = Some v" "k < 4"
  shows "src ! (a + k) = src ! (b + k)"
proof -
  have *: "src ! (p + j) = ucast (drop_bit (8 * j) v)" if "le32 src p = Some v" "j < 4" for p j
  proof -
    have v: "v = ucast (src ! p) OR push_bit 8 (ucast (src ! (p + 1)))
        OR push_bit 16 (ucast (src ! (p + 2))) OR push_bit 24 (ucast (src ! (p + 3)))"
      using that(1) by (simp add: le32_def split: if_splits)
    have "j = 0 \<or> j = 1 \<or> j = 2 \<or> j = 3" using that(2) by arith
    then show ?thesis
      unfolding v by (elim disjE) (auto intro!: bit_eqI simp: bit_simps dest: bit_imp_le_length)
  qed
  show ?thesis using * [OF assms(1,3)] * [OF assms(2,3)] by simp
qed

text \<open>The token with its literal run, as both emitters write it, and how it is read back.\<close>

definition lit_part :: "nat \<Rightarrow> bytes \<Rightarrow> bytes" where
  "lit_part mlnib literals = token (min (length literals) 15) mlnib
     # (if length literals \<ge> 15 then emit_length [] (length literals - 15) else []) @ literals"

definition match_part :: "nat \<Rightarrow> nat \<Rightarrow> bytes" where
  "match_part offset mlen =
     [ucast (of_nat offset :: u16), ucast (drop_bit 8 (of_nat offset :: u16))]
     @ (if mlen - 4 \<ge> 15 then emit_length [] (mlen - 4 - 15) else [])"

lemma emit_sequence_eq:
  "4 \<le> mlen \<Longrightarrow> emit_sequence out literals offset mlen
     = Some (out @ lit_part (min (mlen - 4) 15) literals @ match_part offset mlen)"
  by (simp add: emit_sequence_def lit_part_def match_part_def token_def Let_def MIN_MATCH_def
      emit_length_append [of "_ @ _"])

lemma emit_last_literals_eq: "emit_last_literals out literals = out @ lit_part 0 literals"
  by (simp add: emit_last_literals_def lit_part_def token_def Let_def
      emit_length_append [of "_ @ _"])

text \<open>One round of the decoder, from what its two length reads return.\<close>

lemma decompress_last_round:
  assumes "read_count (unat (drop_bit 4 tok)) r = Inr (length L, L)"
    and "length out + length L = raw_len"
  shows "decompress_loop raw_len out (tok # r) = Some (Inr (out @ L))"
  using assms by (simp add: decompress_loop.simps [of raw_len out "tok # r"] Let_def)

lemma decompress_round:
  assumes "read_count (unat (drop_bit 4 tok)) r = Inr (length L, L @ o0 # o1 # u)"
    and "read_count (unat (tok AND 15)) u = Inr (m, t)"
    and "unat (ucast o0 OR push_bit 8 (ucast o1) :: u16) = offset"
    and "0 < offset" "offset \<le> length out + length L"
    and "length out + length L + (m + 4) \<le> raw_len"
    and "copy_match (length out + length L - offset) (m + 4) (out @ L) = Some out'"
  shows "decompress_loop raw_len out (tok # r) = decompress_loop raw_len out' t"
  using assms by (simp add: decompress_loop.simps [of raw_len out "tok # r"] Let_def MIN_MATCH_def)

lemma read_count_emitted:
  "read_count (min m 15) ((if m \<ge> 15 then emit_length [] (m - 15) else []) @ u) = Inr (m, u)"
  by (auto simp: read_count_def read_emit_length min_def)

lemma decode_last:
  assumes "length out + length literals = raw_len"
  shows "decompress_loop raw_len out (lit_part 0 literals) = Some (Inr (out @ literals))"
  unfolding lit_part_def
  using assms token_fields(1) [of "min (length literals) 15" 0]
    read_count_emitted [of "length literals" literals]
  by (intro decompress_last_round) simp_all

lemma decode_sequence:
  assumes "4 \<le> mlen" "0 < offset" "offset \<le> 65535"
    and "offset \<le> length out + length literals"
    and "length out + length literals + mlen \<le> raw_len"
    and copy: "copy_match (length out + length literals - offset) mlen (out @ literals) = Some out'"
  shows "decompress_loop raw_len out
           (lit_part (min (mlen - 4) 15) literals @ match_part offset mlen @ t)
         = decompress_loop raw_len out' t"
proof -
  have nib: "min (length literals) 15 \<le> 15" "min (mlen - 4) 15 \<le> 15" by simp_all
  let ?u = "(if mlen - 4 \<ge> 15 then emit_length [] (mlen - 4 - 15) else []) @ t"
  show ?thesis
    unfolding lit_part_def match_part_def append_Cons append_Nil append_assoc
  proof (rule decompress_round [where u = ?u and m = "mlen - 4" and offset = offset])
    show "unat (ucast (ucast (of_nat offset :: u16) :: u8)
        OR push_bit 8 (ucast (ucast (drop_bit 8 (of_nat offset :: u16)) :: u8)) :: u16) = offset"
      using assms by (intro offset_bytes) simp
  qed (use assms in \<open>simp_all only: token_fields [OF nib] read_count_emitted\<close>, simp_all)
qed

section \<open>The encoder's loop\<close>

lemma match_len_spec:
  assumes "match_len src cand p maxend mlen = Some r"
    and "\<forall>k < mlen. src ! (cand + k) = src ! (p + k)"
  shows "(\<forall>k < r. src ! (cand + k) = src ! (p + k)) \<and> (p + mlen \<le> maxend \<longrightarrow> p + r \<le> maxend)"
  using assms
proof (induction src cand p maxend mlen rule: match_len.induct)
  case (1 src cand p maxend mlen)
  show ?case
  proof (cases "p + mlen < maxend")
    case True
    with "1.prems"(1) obtain a b where ab: "nth_opt src (cand + mlen) = Some a"
      "nth_opt src (p + mlen) = Some b"
      "if a = b then match_len src cand p maxend (mlen + 1) = Some r else mlen = r"
      by (auto simp: match_len.simps [of src cand p maxend mlen] split: option.splits if_splits)
    show ?thesis
    proof (cases "a = b")
      case eq: True
      then have "\<forall>k < mlen + 1. src ! (cand + k) = src ! (p + k)"
        using ab "1.prems"(2) by (auto simp: nth_opt_Some_iff less_Suc_eq)
      with 1 True ab eq show ?thesis by auto
    next
      case False
      with ab True "1.prems"(2) show ?thesis by auto
    qed
  next
    case False
    with "1.prems" show ?thesis by (auto simp: match_len.simps [of src cand p maxend mlen])
  qed
qed

lemma match_len_total:
  "cand \<le> p \<Longrightarrow> maxend \<le> length src \<Longrightarrow> \<exists>r. match_len src cand p maxend mlen = Some r"
proof (induction src cand p maxend mlen rule: match_len.induct)
  case (1 src cand p maxend mlen)
  then show ?case
    by (auto simp: match_len.simps [of src cand p maxend mlen])
qed

lemma hash_bound: "hash v < 2 ^ HASH_LOG"
proof -
  have "unat w < 2 ^ LENGTH(32)" for w :: u32 by (rule unsigned_less)
  then have "unat (drop_bit 20 w) < 2 ^ 12" for w :: u32
    by (simp add: drop_bit_eq_div unat_div div_less_iff_less_mult)
  then show ?thesis by (simp add: hash_def HASH_LOG_def)
qed

text \<open>
  The loop invariant: the table holds only earlier positions, and decoding what was
  emitted so far, followed by any bytes, is decoding those bytes after the source up
  to the anchor.
\<close>

definition loop_inv :: "bytes \<Rightarrow> bytes \<Rightarrow> int list \<Rightarrow> nat \<Rightarrow> nat \<Rightarrow> bool" where
  "loop_inv src out table anchor p \<longleftrightarrow>
     anchor \<le> p \<and> p \<le> length src \<and> length table = 2 ^ HASH_LOG
     \<and> (\<forall>h < length table. table ! h < int p)
     \<and> (\<forall>t. decompress_loop (length src) [] (out @ t)
           = decompress_loop (length src) (take anchor src) t)"

lemma loop_inv_init: "loop_inv src [] (replicate (2 ^ HASH_LOG) (-1)) 0 0"
  by (auto simp: loop_inv_def)

lemma table_update:
  assumes "\<forall>k < length table. table ! k < int p" "p < q"
  shows "\<forall>k < length table. table[h := int p] ! k < int q"
proof (intro allI impI)
  fix k assume "k < length table"
  with assms show "table[h := int p] ! k < int q"
    by (cases "k = h") (auto dest!: spec [of _ k])
qed

lemma loop_inv_skip:
  assumes "loop_inv src out table anchor p" "p < length src"
  shows "loop_inv src out (table[h := int p]) anchor (p + 1)"
  using assms table_update [of table p "p + 1" h] by (auto simp: loop_inv_def)

lemma loop_inv_match:
  assumes inv: "loop_inv src out table anchor p"
    and cand: "cand < p" "p - cand \<le> MAX_OFFSET"
    and mlen: "4 \<le> mlen" "p + mlen \<le> length src" "\<forall>k < mlen. src ! (cand + k) = src ! (p + k)"
  shows "\<exists>out'. emit_sequence out (drop anchor (take p src)) (p - cand) mlen = Some out'
           \<and> loop_inv src out' (table[h := int p]) (p + mlen) (p + mlen)"
proof -
  let ?lits = "drop anchor (take p src)"
  let ?out' = "out @ lit_part (min (mlen - 4) 15) ?lits @ match_part (p - cand) mlen"
  have ap: "anchor \<le> p" "p \<le> length src" using inv by (auto simp: loop_inv_def)
  have pre: "take anchor src @ ?lits = take p src"
    using ap by (metis append_take_drop_id min.absorb1 take_take)
  have len: "length (take anchor src) + length ?lits = p" using ap by simp
  have "decompress_loop (length src) [] (?out' @ t)
      = decompress_loop (length src) (take (p + mlen) src) t" for t
  proof -
    have "decompress_loop (length src) [] (?out' @ t) = decompress_loop (length src)
        (take anchor src) (lit_part (min (mlen - 4) 15) ?lits @ match_part (p - cand) mlen @ t)"
      using inv by (simp add: loop_inv_def)
    also have "\<dots> = decompress_loop (length src) (take (p + mlen) src) t"
      using cand mlen len pre copy_match_prefix [OF cand(1) mlen(2,3)]
      by (intro decode_sequence) (auto simp: MAX_OFFSET_def)
    finally show ?thesis .
  qed
  moreover have "\<forall>k < length table. table[h := int p] ! k < int (p + mlen)"
    using inv mlen by (intro table_update) (auto simp: loop_inv_def)
  ultimately have "loop_inv src ?out' (table[h := int p]) (p + mlen) (p + mlen)"
    using inv mlen by (simp add: loop_inv_def)
  with mlen show ?thesis by (simp add: emit_sequence_eq)
qed

lemma match_at_total:
  assumes "cand < int p" "p + 4 \<le> length src"
  shows "match_at src p cand \<noteq> None"
  using assms by (auto simp: match_at_def le32_def)

lemma match_at_True:
  assumes "match_at src p cand = Some True" "cand < int p"
  shows "nat cand < p" "p - nat cand \<le> MAX_OFFSET"
    "k < 4 \<Longrightarrow> src ! (nat cand + k) = src ! (p + k)"
  using assms le32_eq_bytes [of src "nat cand" _ p k]
  by (auto simp: match_at_def split: if_splits option.splits)

lemma compress_loop_inv:
  assumes "loop_inv src out table anchor p"
  shows "\<exists>out' table' anchor' p'. compress_loop src out table anchor p = Some (out', anchor')
           \<and> loop_inv src out' table' anchor' p'"
  using assms
proof (induction src out table anchor p rule: compress_loop.induct)
  case (1 src out table anchor p)
  note inv = "1.prems"
  show ?case
  proof (cases "int p \<le> int (length src) - int MFLIMIT")
    case True
    then have p4: "p + 4 \<le> length src" "p + 12 \<le> length src" by (auto simp: MFLIMIT_def)
    then obtain v where v: "le32 src p = Some v" by (auto simp: le32_def)
    let ?h = "hash v"
    have h: "?h < length table" using inv hash_bound by (simp add: loop_inv_def)
    obtain cand where cand: "nth_opt table ?h = Some cand" "cand < int p"
      using inv h by (auto simp: loop_inv_def)
    from match_at_total [OF cand(2) p4(1)] consider
      "match_at src p cand = Some False" | "match_at src p cand = Some True"
      by (metis (full_types) not_None_eq)
    then show ?thesis
    proof cases
      case 1
      have "loop_inv src out (table[?h := int p]) anchor (p + 1)"
        using loop_inv_skip [OF inv] p4 by simp
      from "1.IH"(2) [OF True v refl cand(1) refl 1 refl this]
      show ?thesis
        unfolding compress_loop.simps [of src out table anchor p]
        by (simp only: if_P [OF True] v cand option.case Let_def 1 bool.case simp_thms)
    next
      case 2
      note m = match_at_True [OF 2 cand(2)]
      let ?max = "length src - LAST_LITERALS"
      obtain mlen where ml: "match_len src (nat cand) p ?max MIN_MATCH = Some mlen"
        using match_len_total [of "nat cand" p ?max src] m(1) by fastforce
      have "\<forall>k < MIN_MATCH. src ! (nat cand + k) = src ! (p + k)"
        using m(3) by (simp add: MIN_MATCH_def)
      note sp = match_len_spec [OF ml this]
      have "p + MIN_MATCH \<le> ?max" using p4(2) by (simp add: lz4_consts)
      with sp have "p + mlen \<le> ?max" by blast
      then have "p + mlen \<le> length src" by linarith
      moreover have "\<forall>k < mlen. src ! (nat cand + k) = src ! (p + k)" using sp by blast
      moreover have "4 \<le> mlen" using match_len_ge [OF ml] by (simp add: MIN_MATCH_def)
      ultimately obtain out' where o: "emit_sequence out (drop anchor (take p src)) (p - nat cand) mlen
          = Some out'" "loop_inv src out' (table[?h := int p]) (p + mlen) (p + mlen)"
        using loop_inv_match [OF inv m(1,2)] by metis
      from "1.IH"(1) [OF True v refl cand(1) refl 2 refl refl refl ml o]
      show ?thesis
        unfolding compress_loop.simps [of src out table anchor p]
        by (simp only: if_P [OF True] v cand option.case Let_def 2 bool.case simp_thms ml o(1))
    qed
  next
    case False
    with inv show ?thesis by (auto simp: compress_loop.simps [of src out table anchor p])
  qed
qed

section \<open>Properties\<close>

text \<open>
  C9. Round trip: compressing any byte string succeeds, and decompressing the block to the
  string's length gives the string back.
\<close>

theorem decompress_compress:
  "\<exists>block. compress src = Some block \<and> decompress block (length src) = Some (Inr src)"
proof -
  obtain out table anchor p where
    r: "compress_loop src [] (replicate (2 ^ HASH_LOG) (-1)) 0 0 = Some (out, anchor)"
      "loop_inv src out table anchor p"
    using compress_loop_inv [OF loop_inv_init] by metis
  have "decompress_loop (length src) [] (out @ lit_part 0 (drop anchor src))
      = decompress_loop (length src) (take anchor src) (lit_part 0 (drop anchor src))"
    using r(2) by (simp add: loop_inv_def)
  also have "\<dots> = Some (Inr (take anchor src @ drop anchor src))"
    using r(2) by (intro decode_last) (auto simp: loop_inv_def)
  finally show ?thesis
    using r(1) by (simp add: compress_def decompress_def emit_last_literals_eq)
qed

text \<open>
  What a round of the decoder can do: it consumes at least a byte, never panics, and adds
  at most 255 output bytes per input byte consumed.
\<close>

definition decode_ok :: "nat \<Rightarrow> nat \<Rightarrow> bytes result option \<Rightarrow> bool" where
  "decode_ok raw_len budget r = (case r of
     None \<Rightarrow> False
   | Some (Inl e) \<Rightarrow> fst e = DataCorrupted
   | Some (Inr out) \<Rightarrow> length out = raw_len \<and> raw_len \<le> budget)"

lemma read_length_bound:
  "read_length acc bs = Inr (n, rest) \<Longrightarrow> n \<le> acc + 255 * (length bs - length rest)"
proof (induction acc bs rule: read_length.induct)
  case (2 acc b bs)
  have "unat b < 2 ^ LENGTH(8)" by (rule unsigned_less)
  then have b: "unat b \<le> 255" by simp
  show ?case
  proof (cases "b = 255")
    case True
    with 2 have "n \<le> acc + 255 + 255 * (length bs - length rest)" and "length rest < length bs"
      by (auto dest: read_length_shorter)
    then show ?thesis by simp
  next
    case False
    with 2 b show ?thesis by simp
  qed
qed simp

lemma read_count_bound:
  "read_count nib bs = Inr (n, rest)
    \<Longrightarrow> length rest \<le> length bs \<and> n \<le> nib + 255 * (length bs - length rest)"
  by (auto simp: read_count_def split: if_splits dest: read_length_bound read_length_shorter)

lemma read_count_error: "read_count nib bs = Inl e \<Longrightarrow> fst e = DataCorrupted"
proof -
  have "read_length acc bs = Inl e \<Longrightarrow> fst e = DataCorrupted" for acc
    by (induction acc bs rule: read_length.induct) (auto simp: corrupt_def split: if_splits)
  then show "read_count nib bs = Inl e \<Longrightarrow> ?thesis"
    by (auto simp: read_count_def split: if_splits)
qed

lemma nibble_bounds: "unat (drop_bit 4 (t :: u8)) \<le> 15" "unat (t AND 15) \<le> 15"
proof -
  have "unat t < 2 ^ LENGTH(8)" by (rule unsigned_less)
  then show "unat (drop_bit 4 t) \<le> 15" by (simp add: drop_bit_eq_div unat_div)
  have "t AND 15 = take_bit 4 t" by (simp add: take_bit_eq_mask mask_eq_exp_minus_1)
  then show "unat (t AND 15) \<le> 15"
    by (simp add: take_bit_eq_mod unat_mod)
qed

lemma decode_ok_corrupt [simp]: "decode_ok raw_len budget (Some (Inl (corrupt msg)))"
  by (simp add: decode_ok_def corrupt_def)

lemma decode_ok_mono: "decode_ok raw_len m r \<Longrightarrow> m \<le> n \<Longrightarrow> decode_ok raw_len n r"
  by (auto simp: decode_ok_def split: option.splits sum.splits)

text \<open>The match half of a round, after \<open>lit\<close> literals were copied.\<close>

lemma match_round_ok:
  assumes IH: "\<And>out2 m rest4. read_count (unat (tok AND 15 :: u8)) rest3 = Inr (m, rest4)
      \<Longrightarrow> length out1 + (m + 4) \<le> raw_len
      \<Longrightarrow> copy_match (length out1 - offset) (m + 4) out1 = Some out2
      \<Longrightarrow> decode_ok raw_len (length out2 + 255 * length rest4) (decompress_loop raw_len out2 rest4)"
    and off: "0 < offset" "offset \<le> length out1"
  shows "decode_ok raw_len (length out1 + 255 * (length rest3 + 2))
     (case read_count (unat (tok AND 15)) rest3 of
        Inl e \<Rightarrow> Some (Inl e)
      | Inr (ml, rest) \<Rightarrow>
          let ml = ml + MIN_MATCH in
          if length out1 + ml > raw_len
          then Some (Inl (corrupt ''decompressed length overflow''))
          else (case copy_match (length out1 - offset) ml out1 of
                  None \<Rightarrow> None | Some out \<Rightarrow> decompress_loop raw_len out rest))"
proof (cases "read_count (unat (tok AND 15)) rest3")
  case (Inl e)
  then show ?thesis by (simp add: decode_ok_def read_count_error)
next
  case (Inr mr)
  obtain m rest4 where mr: "mr = (m, rest4)" by fastforce
  have m: "length rest4 \<le> length rest3" "m \<le> 15 + 255 * (length rest3 - length rest4)"
    using read_count_bound [OF Inr [unfolded mr]] nibble_bounds(2) [of tok] by auto
  obtain out2 where o2: "copy_match (length out1 - offset) (m + 4) out1 = Some out2"
    "length out2 = length out1 + (m + 4)"
    using copy_match_total [of "length out1 - offset" out1 "m + 4"] off by fastforce
  have "length out2 + 255 * length rest4 \<le> length out1 + 255 * (length rest3 + 2)"
    using m o2(2) by (simp add: diff_mult_distrib2)
  then show ?thesis
    using IH [OF Inr [unfolded mr] _ o2(1)] decode_ok_mono Inr mr o2(1)
    by (cases "length out1 + (m + 4) \<le> raw_len") (auto simp: MIN_MATCH_def Let_def)
qed

lemma decompress_loop_ok:
  "decode_ok raw_len (length out + 255 * length block) (decompress_loop raw_len out block)"
proof (induction raw_len out block rule: decompress_loop.induct)
  case (1 raw_len out block)
  note D = decompress_loop.simps [of raw_len out block]
  show ?case
  proof (cases block)
    case Nil
    then show ?thesis unfolding D by simp
  next
    case (Cons tok rest0)
    show ?thesis
    proof (cases "read_count (unat (drop_bit 4 tok)) rest0")
      case (Inl e)
      with Cons show ?thesis unfolding D by (simp add: Let_def decode_ok_def read_count_error)
    next
      case (Inr lr)
      obtain lit rest where lr: "lr = (lit, rest)" by fastforce
      have b: "length rest \<le> length rest0" using read_count_le [OF Inr [unfolded lr]] .
      consider "length rest < lit" | "raw_len < length out + lit"
        | "lit \<le> length rest" "length out + lit \<le> raw_len" by linarith
      then show ?thesis
      proof cases
        case 3
        let ?out1 = "out @ take lit rest"
        show ?thesis
        proof (cases "drop lit rest" rule: remdups_adj.cases)
          case 1
          with 3 Inr lr b Cons show ?thesis
            unfolding D by (auto simp: Let_def decode_ok_def corrupt_def)
        next
          case (2 x)
          with 3 Inr lr Cons show ?thesis unfolding D by (auto simp: Let_def)
        next
          case (3 o0 o1 rest3)
          note d = this and g = \<open>lit \<le> length rest\<close> \<open>length out + lit \<le> raw_len\<close>
          let ?off = "unat (ucast o0 OR push_bit 8 (ucast o1) :: u16)"
          have len: "length rest = lit + (length rest3 + 2)"
            using d g(1) by (metis append_take_drop_id length_append length_Cons length_take
                min.absorb2 add_2_eq_Suc')
          show ?thesis
          proof (cases "?off = 0 \<or> ?off > length ?out1")
            case True
            with d g Inr lr Cons show ?thesis unfolding D by (auto simp: Let_def)
          next
            case False
            have "decode_ok raw_len (length out2 + 255 * length rest4)
                (decompress_loop raw_len out2 rest4)"
              if "read_count (unat (tok AND 15)) rest3 = Inr (m, rest4)"
                "length ?out1 + (m + 4) \<le> raw_len"
                "copy_match (length ?out1 - ?off) (m + 4) ?out1 = Some out2" for out2 m rest4
              using that g False
              by (intro "1.IH" [OF Cons refl Inr [unfolded lr] refl _ _ refl refl d refl refl _ refl])
                (auto simp: MIN_MATCH_def)
            then have "decode_ok raw_len (length ?out1 + 255 * (length rest3 + 2))
                (decompress_loop raw_len out block)"
              unfolding D using d g Inr lr False Cons
                match_round_ok [where tok = tok and ?rest3.0 = rest3 and ?out1.0 = ?out1
                  and offset = ?off and raw_len = raw_len]
              by (auto simp: Let_def)
            moreover have "length ?out1 + 255 * (length rest3 + 2) \<le> length out + 255 * length block"
              using len b g Cons by simp
            ultimately show ?thesis by (rule decode_ok_mono)
          qed
        qed
      qed (unfold D, use Inr lr Cons in \<open>auto simp: Let_def\<close>)
    qed
  qed
qed

text \<open>
  C27. Decoding is total and safe on arbitrary input: for any block and announced length the
  decoder returns (no index out of range), an error is always data corruption, and a
  success has exactly the announced length, which is at most 255 times the block's, so the
  buffer capacity computed up front, which allows 16 bytes more, is the whole result's.
\<close>

theorem decompress_safe:
  "\<exists>r. decompress block raw_len = Some r
     \<and> (case r of Inl e \<Rightarrow> fst e = DataCorrupted
        | Inr out \<Rightarrow> length out = raw_len \<and> raw_len \<le> 255 * length block
            \<and> min raw_len (255 * length block + 16) = raw_len)"
  using decompress_loop_ok [of raw_len "[]" block]
  by (auto simp: decompress_def decode_ok_def split: option.splits sum.splits)

end
