(* ===== verification/Calendar.thy ===== *)
theory Calendar
  imports Prelude "HOL-Library.Signed_Division"
begin

text \<open>
  The calendar core of \<open>impl/rust/src/timestamp.rs\<close>: leap years, month lengths, the
  civil-to-days conversion and its inverse, and the decomposition of an instant. Rust's
  \<open>/\<close> and \<open>%\<close> on signed integers are the truncating \<open>sdiv\<close> and \<open>smod\<close>; \<open>div_euclid\<close>
  and \<open>rem_euclid\<close> by a positive constant are \<open>div\<close> and \<open>mod\<close>. The numbers are \<open>int\<close>: every
  caller bounds the year by seven digits, so no intermediate value leaves \<open>i64\<close>.
  Shown: days are consecutive along the calendar, and the two conversions are inverse.
\<close>

section \<open>Model\<close>

definition MICROS_PER_SEC :: int where "MICROS_PER_SEC = 1000000"
definition SECS_PER_DAY :: int where "SECS_PER_DAY = 86400"

definition is_leap :: "int \<Rightarrow> bool" where
  "is_leap y \<longleftrightarrow> y smod 4 = 0 \<and> (y smod 100 \<noteq> 0 \<or> y smod 400 = 0)"

definition days_in_month :: "int \<Rightarrow> int \<Rightarrow> int" where
  "days_in_month y month =
     (if month \<in> {1, 3, 5, 7, 8, 10, 12} then 31
      else if month \<in> {4, 6, 9, 11} then 30
      else if month = 2 then (if is_leap y then 29 else 28)
      else 0)"

definition days_from_civil :: "int \<Rightarrow> int \<Rightarrow> int \<Rightarrow> int" where
  "days_from_civil y m d =
     (let y = y - (if m \<le> 2 then 1 else 0);
          era = (if y \<ge> 0 then y else y - 399) sdiv 400;
          yoe = y - era * 400;
          doy = (153 * (m + (if m > 2 then -3 else 9)) + 2) sdiv 5 + (d - 1);
          doe = yoe * 365 + yoe sdiv 4 - yoe sdiv 100 + doy
      in era * 146097 + doe - 719468)"

definition civil_from_days :: "int \<Rightarrow> int \<times> int \<times> int" where
  "civil_from_days z =
     (let z = z + 719468;
          era = (if z \<ge> 0 then z else z - 146096) sdiv 146097;
          doe = z - era * 146097;
          yoe = (doe - doe sdiv 1460 + doe sdiv 36524 - doe sdiv 146096) sdiv 365;
          y = yoe + era * 400;
          doy = doe - (365 * yoe + yoe sdiv 4 - yoe sdiv 100);
          mp = (5 * doy + 2) sdiv 153;
          d = doy - (153 * mp + 2) sdiv 5 + 1;
          m = mp + (if mp < 10 then 3 else -9)
      in (y + (if m \<le> 2 then 1 else 0), m, d))"

definition civil_from_micros :: "int \<Rightarrow> int \<times> int \<times> int \<times> int \<times> int \<times> int \<times> int" where
  "civil_from_micros t =
     (let us = t mod MICROS_PER_SEC;
          secs = t div MICROS_PER_SEC;
          sod = secs mod SECS_PER_DAY;
          days = secs div SECS_PER_DAY;
          (y, mo, d) = civil_from_days days;
          h = sod sdiv 3600;
          mi = (sod smod 3600) sdiv 60;
          s = sod smod 60
      in (y, mo, d, h, mi, s, us))"

section \<open>Truncating division\<close>

lemma sdiv_nonneg [simp]: "0 \<le> a \<Longrightarrow> 0 < b \<Longrightarrow> a sdiv b = a div (b :: int)"
  by (cases "a = 0") (auto simp: signed_divide_int_def)

lemma smod_nonneg [simp]: "0 \<le> a \<Longrightarrow> 0 < b \<Longrightarrow> a smod b = a mod (b :: int)"
  by (cases "a = 0") (auto simp: signed_modulo_int_def sgn_if)

lemma smod_eq_0_iff: "a smod b = 0 \<longleftrightarrow> b dvd (a :: int)"
  by (auto simp: signed_modulo_int_def sgn_if mod_eq_0_iff_dvd)

text \<open>The era computation is floor division: \<open>y - 399\<close> compensates the truncation.\<close>

lemma floor_by_bias:
  assumes "0 < b" "c = b - 1"
  shows "(if a \<ge> 0 then a else a - c) sdiv b = a div (b :: int)"
proof (cases "0 \<le> a")
  case False
  then have "(a - c) sdiv b = - ((b - 1 - a) div b)"
    using assms by (simp add: signed_divide_int_def sgn_if)
  moreover have "(b - 1 - a) div b = - (a div b)"
  proof (rule int_div_pos_eq)
    show "b - 1 - a = b * - (a div b) + (b - 1 - a mod b)"
      by (simp add: algebra_simps minus_mod_eq_mult_div [symmetric])
    show "0 \<le> b - 1 - a mod b" "b - 1 - a mod b < b"
      using assms pos_mod_bound [of b a] pos_mod_sign [of b a] by linarith+
  qed
  ultimately show ?thesis using False by simp
qed (use assms in simp)

lemma era_floor: "(if y \<ge> 0 then y else y - 399) sdiv 400 = y div (400 :: int)"
  by (rule floor_by_bias) simp_all

lemma day_era_floor: "(if z \<ge> 0 then z else z - 146096) sdiv 146097 = z div (146097 :: int)"
  by (rule floor_by_bias) simp_all

lemma is_leap_dvd: "is_leap y \<longleftrightarrow> 4 dvd y \<and> (\<not> 100 dvd y \<or> 400 dvd y)"
  by (simp add: is_leap_def smod_eq_0_iff)

section \<open>Closed form\<close>

definition month_offset :: "int \<Rightarrow> int" where
  "month_offset m = (153 * (m + (if m > 2 then -3 else 9)) + 2) div 5"

definition march_year :: "int \<Rightarrow> int \<Rightarrow> int" where
  "march_year y m = y - (if m \<le> 2 then 1 else 0)"

definition year_days :: "int \<Rightarrow> int" where
  "year_days y = 365 * y + y div 4 - y div 100 + y div 400"

lemma days_from_civil_closed:
  assumes "1 \<le> m" "m \<le> 12"
  shows "days_from_civil y m d
     = year_days (march_year y m) + month_offset m + (d - 1) - 719468"
proof -
  define Y where "Y = march_year y m"
  define q where "q = Y div 400"
  define r where "r = Y - q * 400"
  have r: "0 \<le> r" "r < 400" by (simp_all add: r_def q_def minus_div_mult_eq_mod)
  have Y: "Y = r + 400 * q" by (simp add: r_def)
  have "Y div 4 = 100 * q + r div 4" "Y div 100 = 4 * q + r div 100"
    unfolding Y by simp_all
  then have "year_days Y = q * 146097 + r * 365 + r div 4 - r div 100"
    using Y r by (simp add: year_days_def)
  moreover have "(153 * (m + (if m > 2 then -3 else 9)) + 2) sdiv 5 = month_offset m"
    unfolding month_offset_def using assms by (intro sdiv_nonneg) auto
  ultimately show ?thesis
    unfolding days_from_civil_def Let_def march_year_def [symmetric] era_floor
      Y_def [symmetric] q_def [symmetric] r_def [symmetric]
    using r by simp
qed

section \<open>The calendar as a succession of days\<close>

text \<open>The reference calendar: valid dates and the day after a date.\<close>

definition valid_date :: "int \<times> int \<times> int \<Rightarrow> bool" where
  "valid_date c = (case c of (y, m, d) \<Rightarrow>
     1 \<le> m \<and> m \<le> 12 \<and> 1 \<le> d \<and> d \<le> days_in_month y m)"

definition next_day :: "int \<times> int \<times> int \<Rightarrow> int \<times> int \<times> int" where
  "next_day c = (case c of (y, m, d) \<Rightarrow>
     if d < days_in_month y m then (y, m, d + 1)
     else if m < 12 then (y, m + 1, 1) else (y + 1, 1, 1))"

definition prev_day :: "int \<times> int \<times> int \<Rightarrow> int \<times> int \<times> int" where
  "prev_day c = (case c of (y, m, d) \<Rightarrow>
     if 1 < d then (y, m, d - 1)
     else if 1 < m then (y, m - 1, days_in_month y (m - 1)) else (y - 1, 12, 31))"

lemma month_cases:
  assumes "1 \<le> m" "m \<le> (12 :: int)"
  obtains "m = 1" | "m = 2" | "m = 3" | "m = 4" | "m = 5" | "m = 6"
    | "m = 7" | "m = 8" | "m = 9" | "m = 10" | "m = 11" | "m = 12"
proof -
  have "m = 1 \<or> m = 2 \<or> m = 3 \<or> m = 4 \<or> m = 5 \<or> m = 6 \<or> m = 7 \<or> m = 8 \<or> m = 9 \<or> m = 10
    \<or> m = 11 \<or> m = 12"
    using assms by presburger
  then show ?thesis using that by blast
qed

lemma div_step: "0 < k \<Longrightarrow> y div k - (y - 1) div k = of_bool (k dvd y)" for y k :: int
proof -
  assume k: "0 < k"
  define q where "q = y div k"
  define r where "r = y mod k"
  have y: "y = k * q + r" "0 \<le> r" "r < k" using k by (simp_all add: q_def r_def)
  show ?thesis
  proof (cases "r = 0")
    case True
    have "(y - 1) div k = q - 1"
      using True y k by (intro int_div_pos_eq [where r = "k - 1"]) (auto simp: algebra_simps)
    moreover have "k dvd y" using True by (simp add: r_def dvd_eq_mod_eq_0)
    ultimately show ?thesis by (simp add: q_def)
  next
    case False
    have "(y - 1) div k = q"
      using False y by (intro int_div_pos_eq [where r = "r - 1"]) auto
    moreover from False have "\<not> k dvd y" by (simp add: r_def dvd_eq_mod_eq_0)
    ultimately show ?thesis by (simp add: q_def)
  qed
qed

lemma year_days_step: "year_days y = year_days (y - 1) + (if is_leap y then 366 else 365)"
proof -
  have "year_days y - year_days (y - 1)
      = 365 + of_bool (4 dvd y) - of_bool (100 dvd y) + of_bool (400 dvd y)"
    unfolding year_days_def
    by (simp add: div_step [symmetric])
  moreover have "100 dvd y \<Longrightarrow> 4 dvd y" "400 dvd y \<Longrightarrow> 100 dvd y"
    by (auto elim!: dvd_trans [rotated])
  ultimately show ?thesis
    by (cases "4 dvd y"; cases "100 dvd y"; cases "400 dvd y") (simp_all add: is_leap_dvd)
qed

text \<open>Days are consecutive: the day after a valid date has the next day number.\<close>

lemma days_next_day:
  assumes "valid_date (y, m, d)"
  shows "(case next_day (y, m, d) of (y', m', d') \<Rightarrow> days_from_civil y' m' d')
     = days_from_civil y m d + 1"
proof -
  have m: "1 \<le> m" "m \<le> 12" "1 \<le> d" "d \<le> days_in_month y m"
    using assms by (auto simp: valid_date_def)
  have ys: "year_days y = year_days (y - 1) + (if is_leap y then 366 else 365)"
    by (rule year_days_step)
  show ?thesis
  proof (cases "d < days_in_month y m")
    case True
    then show ?thesis using m by (simp add: next_day_def days_from_civil_closed)
  next
    case False
    with m have "d = days_in_month y m" by simp
    then show ?thesis
      using m(1,2) ys
      by (cases rule: month_cases [OF m(1,2)])
        (simp_all add: next_day_def days_from_civil_closed days_in_month_def march_year_def
          month_offset_def)
  qed
qed

lemma days_in_month_range: "1 \<le> m \<Longrightarrow> m \<le> 12 \<Longrightarrow> 28 \<le> days_in_month y m \<and> days_in_month y m \<le> 31"
  by (cases rule: month_cases [of m]) (simp_all add: days_in_month_def)

lemma valid_next_day: "valid_date (y, m, d) \<Longrightarrow> valid_date (next_day (y, m, d))"
  using days_in_month_range [of m y] days_in_month_range [of "m + 1" y]
    days_in_month_range [of 1 "y + 1"]
  by (auto simp: valid_date_def next_day_def)

lemma valid_prev_day: "valid_date (y, m, d) \<Longrightarrow> valid_date (prev_day (y, m, d))"
  using days_in_month_range [of m y] days_in_month_range [of "m - 1" y]
  by (auto simp: valid_date_def prev_day_def days_in_month_def [of _ 12])

lemma next_prev_day: "valid_date (y, m, d) \<Longrightarrow> next_day (prev_day (y, m, d)) = (y, m, d)"
  by (auto simp: valid_date_def prev_day_def next_day_def days_in_month_def [of _ 12])

lemma days_surj: "\<exists>y m d. valid_date (y, m, d) \<and> days_from_civil y m d = z"
proof (induction z rule: int_induct [where k = 0])
  case base
  have "valid_date (1970, 1, 1) \<and> days_from_civil 1970 1 1 = 0" by code_simp
  then show ?case by blast
next
  case (step1 i)
  then obtain y m d where v: "valid_date (y, m, d)" "days_from_civil y m d = i" by blast
  obtain y' m' d' where n: "next_day (y, m, d) = (y', m', d')" by (metis prod_cases3)
  with days_next_day [OF v(1)] valid_next_day [OF v(1)] v(2) show ?case by auto
next
  case (step2 i)
  then obtain y m d where v: "valid_date (y, m, d)" "days_from_civil y m d = i" by blast
  obtain y' m' d' where p: "prev_day (y, m, d) = (y', m', d')" by (metis prod_cases3)
  with valid_prev_day [OF v(1)] have v': "valid_date (y', m', d')" by simp
  with days_next_day [OF v'] next_prev_day [OF v(1)] p v(2) show ?case by auto
qed

section \<open>The inverse conversion\<close>

text \<open>
  The position of a valid date in its March-based year: at most 365, and 365 only for the
  29th of February.
\<close>

lemma month_offset_range:
  assumes "valid_date (y, m, d)"
  shows "0 \<le> month_offset m + (d - 1)" "month_offset m + (d - 1) \<le> 365"
    "month_offset m + (d - 1) = 365 \<Longrightarrow> march_year y m = y - 1 \<and> is_leap y"
proof -
  have m: "1 \<le> m" "m \<le> 12" "1 \<le> d" "d \<le> days_in_month y m"
    using assms by (auto simp: valid_date_def)
  show "0 \<le> month_offset m + (d - 1)" "month_offset m + (d - 1) \<le> 365"
    "month_offset m + (d - 1) = 365 \<Longrightarrow> march_year y m = y - 1 \<and> is_leap y"
    using m(3,4)
    by (cases rule: month_cases [OF m(1,2)];
        simp add: month_offset_def days_in_month_def march_year_def split: if_splits)+
qed

text \<open>Recovering the month and the day from the position in the year.\<close>

lemma month_day_of_doy:
  assumes "valid_date (y, m, d)"
  defines "doy \<equiv> month_offset m + (d - 1)"
  defines "mp \<equiv> (5 * doy + 2) div 153"
  shows "mp = m + (if m > 2 then -3 else 9)" "doy - (153 * mp + 2) div 5 + 1 = d"
    "mp + (if mp < 10 then 3 else -9) = m"
proof -
  have m: "1 \<le> m" "m \<le> 12" "1 \<le> d" "d \<le> days_in_month y m"
    using assms by (auto simp: valid_date_def)
  show mp: "mp = m + (if m > 2 then -3 else 9)"
    using m(3,4) unfolding mp_def doy_def
    by (cases rule: month_cases [OF m(1,2)];
        simp add: month_offset_def days_in_month_def split: if_splits)
  show "doy - (153 * mp + 2) div 5 + 1 = d"
    unfolding mp doy_def by (simp add: month_offset_def)
  show "mp + (if mp < 10 then 3 else -9) = m"
    unfolding mp using m(1,2) by auto
qed

text \<open>
  Recovering the year of the era: \<open>yoe\<close> in 0..399, \<open>doy\<close> at most 365 and 365 only when the
  leap day ends that year.
\<close>

lemma year_of_era:
  fixes yoe doy :: int
  assumes y: "0 \<le> yoe" "yoe < 400" and d: "0 \<le> doy" "doy \<le> 365"
    and leap: "doy = 365 \<Longrightarrow> 4 dvd (yoe + 1) \<and> (\<not> 100 dvd (yoe + 1) \<or> 400 dvd (yoe + 1))"
  defines "doe \<equiv> yoe * 365 + yoe div 4 - yoe div 100 + doy"
  shows "0 \<le> doe" "doe \<le> 146096"
    "(doe - doe div 1460 + doe div 36524 - doe div 146096) div 365 = yoe"
proof -
  define c where "c = yoe div 100"
  define q where "q = yoe mod 100 div 4"
  define r where "r = yoe mod 4"
  have "yoe mod 100 mod 4 = r" by (simp add: r_def mod_mod_cancel)
  then have yoe: "yoe = 100 * c + 4 * q + r"
    unfolding c_def q_def by (metis add.assoc mult_div_mod_eq)
  have b: "0 \<le> c" "c \<le> 3" "0 \<le> q" "q \<le> 24" "0 \<le> r" "r \<le> 3"
    using y by (auto simp: c_def q_def r_def)
  have yoe4: "yoe div 4 = 25 * c + q" unfolding yoe using b by simp
  have doe: "doe = 36524 * c + 1461 * q + 365 * r + doy"
    unfolding doe_def yoe4 c_def [symmetric] using yoe by simp
  have l: "doy = 365 \<Longrightarrow> r = 3 \<and> (q < 24 \<or> c = 3)"
  proof -
    assume "doy = 365"
    with leap have L: "4 dvd (yoe + 1)" "\<not> 100 dvd (yoe + 1) \<or> 400 dvd (yoe + 1)" by auto
    from L(1) have "4 dvd (r + 1)" unfolding yoe by presburger
    then have "r = 3" using b by presburger
    moreover have "c = 3" if "\<not> q < 24"
    proof -
      have "q = 24" using that b by simp
      then have "yoe + 1 = 100 * (c + 1)" using yoe \<open>r = 3\<close> by simp
      with L(2) have "400 dvd (100 * (c + 1))" by simp
      then have "4 dvd (c + 1)" by presburger
      then show ?thesis using b by presburger
    qed
    ultimately show ?thesis by blast
  qed
  show "0 \<le> doe" using doe b d by simp
  show hi: "doe \<le> 146096" using doe b d l by (cases "doy = 365") auto
  have cent: "doe div 36524 - doe div 146096 = c"
  proof (cases "doe = 146096")
    case True
    then have "c = 3" using doe b d l by (cases "doy = 365"; cases "c = 3") auto
    with True show ?thesis by simp
  next
    case False
    then have "doe < 146096" using hi by simp
    moreover have "1461 * q + 365 * r + doy < 36524"
      using b d l doe False by (cases "doy = 365"; cases "c = 3") auto
    ultimately show ?thesis
      using doe b d by (simp add: int_div_pos_eq [where q = c and r = "1461 * q + 365 * r + doy"]
          div_pos_pos_trivial)
  qed
  define s where "s = 24 * c + q + 365 * r + doy"
  have s: "0 \<le> s" "s < 2920" "s \<ge> 1460 \<Longrightarrow> doy \<ge> 1" "doy = 365 \<Longrightarrow> s \<ge> 1460"
    using b d l by (auto simp: s_def)
  have "doe = s + 1460 * (25 * c + q)" using doe by (simp add: s_def)
  then have quart: "doe div 1460 = 25 * c + q + s div 1460" by simp
  have s1: "s div 1460 = (if s \<ge> 1460 then 1 else 0)"
    using s by (auto intro: int_div_pos_eq [where r = "s - 1460"])
  show "(doe - doe div 1460 + doe div 36524 - doe div 146096) div 365 = yoe"
  proof (rule int_div_pos_eq)
    let ?x = "24 * c + q + doy + c - (25 * c + q + s div 1460)"
    show "doe - doe div 1460 + doe div 36524 - doe div 146096 = 365 * yoe + ?x"
      using cent quart doe yoe by simp
    show "0 \<le> ?x" "?x < 365" using s s1 d by (cases "doy = 365"; simp)+
  qed
qed

lemma leap_mod_400: "is_leap (y + 400 * q) = is_leap y"
proof -
  have "4 dvd 400 * q" "100 dvd 400 * q" "400 dvd 400 * q"
    by (rule dvd_mult2, simp)+
  then show ?thesis by (simp add: is_leap_dvd dvd_add_left_iff)
qed

lemma civil_from_days_from_civil:
  assumes v: "valid_date (y, m, d)"
  shows "civil_from_days (days_from_civil y m d) = (y, m, d)"
proof -
  have m: "1 \<le> m" "m \<le> 12" using v by (auto simp: valid_date_def)
  define Y where "Y = march_year y m"
  define q where "q = Y div 400"
  define r where "r = Y mod 400"
  define doy where "doy = month_offset m + (d - 1)"
  define doe where "doe = r * 365 + r div 4 - r div 100 + doy"
  have r: "0 \<le> r" "r < 400" "Y = r + 400 * q" by (simp_all add: r_def q_def)
  have "Y div 4 = 100 * q + r div 4" "Y div 100 = 4 * q + r div 100"
    unfolding r(3) by simp_all
  then have "year_days Y = q * 146097 + (r * 365 + r div 4 - r div 100)"
    using r by (simp add: year_days_def)
  then have z: "days_from_civil y m d + 719468 = 146097 * q + doe"
    using days_from_civil_closed [OF m] by (simp add: Y_def [symmetric] doy_def doe_def)
  note mo = month_offset_range [OF v, folded doy_def Y_def]
  have "4 dvd (r + 1) \<and> (\<not> 100 dvd (r + 1) \<or> 400 dvd (r + 1))" if "doy = 365"
  proof -
    have "r + 1 + 400 * q = y" using mo(3) [OF that] r(3) by linarith
    then have "is_leap (r + 1 + 400 * q)" using mo(3) [OF that] by simp
    then have "is_leap (r + 1)" by (simp only: leap_mod_400)
    then show ?thesis by (simp only: is_leap_dvd)
  qed
  note ye = year_of_era [OF r(1,2) mo(1,2) this, folded doe_def]
  have era: "(146097 * q + doe) div 146097 = q" using ye by (intro int_div_pos_eq) auto
  have mp: "0 \<le> (5 * doy + 2) div 153" using mo by simp
  note md = month_day_of_doy [OF v, folded doy_def]
  have sd: "(5 * doy + 2) sdiv 153 = (5 * doy + 2) div 153"
    "(153 * ((5 * doy + 2) div 153) + 2) sdiv 5 = (153 * ((5 * doy + 2) div 153) + 2) div 5"
    using mo(1) mp by simp_all
  have yoe: "(doe - doe sdiv 1460 + doe sdiv 36524 - doe sdiv 146096) sdiv 365 = r"
  proof -
    have "0 \<le> doe - doe div 1460 + doe div 36524 - doe div 146096"
      using ye(1) zdiv_mono2 [of doe 36524 146096] by (auto simp: div_le_dividend
          intro: order_trans [of _ "doe - doe div 1460"])
    then show ?thesis using ye by simp
  qed
  have doy: "doe - (365 * r + r sdiv 4 - r sdiv 100) = doy"
    using r by (simp add: doe_def)
  have "civil_from_days (days_from_civil y m d) = (r + q * 400 + (if m \<le> 2 then 1 else 0), m, d)"
    unfolding civil_from_days_def Let_def z day_era_floor era add_diff_cancel_left' mult.commute [of q]
      yoe doy sd md(2,3) ..
  then show ?thesis using r(3) by (simp add: Y_def march_year_def)
qed

section \<open>Properties\<close>

text \<open>
  C28. Day numbers follow the calendar: 1970-01-01 is day 0, and the civil date after any
  valid date (by month lengths and leap years) has the next day number. The conversion is
  therefore the one that counts days.
\<close>

theorem days_from_civil_counts:
  "days_from_civil 1970 1 1 = 0
   \<and> (\<forall>y m d. valid_date (y, m, d) \<longrightarrow>
        (case next_day (y, m, d) of (y', m', d') \<Rightarrow> days_from_civil y' m' d')
          = days_from_civil y m d + 1)"
proof
  show "days_from_civil 1970 1 1 = 0" by code_simp
qed (simp add: days_next_day)

theorem days_from_civil_counts_witness:
  "valid_date (2000, 2, 29) \<and> days_from_civil 2000 3 1 = days_from_civil 2000 2 29 + 1"
proof -
  have v: "valid_date (2000, 2, 29)" by code_simp
  have "next_day (2000, 2, 29) = (2000, 3, 1)" by code_simp
  with conjunct2 [OF days_from_civil_counts] v show ?thesis by fastforce
qed

text \<open>
  The two conversions are inverse on the whole proleptic calendar: every valid date is
  recovered from its day number, and every day number has a valid date that converts back.
\<close>

theorem civil_days_inverse:
  "(\<forall>y m d. valid_date (y, m, d) \<longrightarrow> civil_from_days (days_from_civil y m d) = (y, m, d))
   \<and> (\<forall>z. valid_date (civil_from_days z)
        \<and> (case civil_from_days z of (y, m, d) \<Rightarrow> days_from_civil y m d) = z)"
proof (intro conjI allI impI)
  fix z
  obtain y m d where "valid_date (y, m, d)" "days_from_civil y m d = z"
    using days_surj by blast
  with civil_from_days_from_civil
  show "valid_date (civil_from_days z)"
    "(case civil_from_days z of (y, m, d) \<Rightarrow> days_from_civil y m d) = z"
    by auto
qed (rule civil_from_days_from_civil)

theorem civil_days_inverse_witness:
  "valid_date (-4, 2, 29) \<and> civil_from_days (days_from_civil (-4) 2 29) = (-4, 2, 29)"
proof -
  have v: "valid_date (-4, 2, 29)" by code_simp
  with conjunct1 [OF civil_days_inverse] show ?thesis by blast
qed

end
