(* ===== verification/Digits.thy ===== *)
theory Digits
  imports Prelude
begin

text \<open>
  Decimal digit strings, shared by the datetime and the decimal text: Rust's
  \<open>is_ascii_digit\<close>, its integer formats \<open>{}\<close> and \<open>{:0w}\<close>, and the value a digit string
  denotes. Shown: formatting and reading digits are inverse, and the lengths of the formats.
\<close>

section \<open>Model\<close>

definition is_digit :: "char \<Rightarrow> bool" where
  "is_digit c \<longleftrightarrow> (48 :: nat) \<le> of_char c \<and> of_char c \<le> (57 :: nat)"

definition digit_val :: "char \<Rightarrow> int" where
  "digit_val c = int (of_char c) - 48"

text \<open>Rust's \<open>{:0w}\<close> format of a non-negative integer.\<close>

definition digit_char :: "nat \<Rightarrow> char" where
  "digit_char n = char_of (48 + n)"

fun dec_str :: "nat \<Rightarrow> string" where
  "dec_str n = (if n < 10 then [digit_char n] else dec_str (n div 10) @ [digit_char (n mod 10)])"

declare dec_str.simps [simp del]

definition pad :: "nat \<Rightarrow> int \<Rightarrow> string" where
  "pad w n = replicate (w - length (dec_str (nat n))) (CHR ''0'') @ dec_str (nat n)"

section \<open>Values of digit strings\<close>

definition all_digits :: "string \<Rightarrow> bool" where
  "all_digits s = list_all is_digit s"

definition dval_from :: "int \<Rightarrow> string \<Rightarrow> int" where
  "dval_from v s = foldl (\<lambda>v c. v * 10 + digit_val c) v s"

lemma dval_simps [simp]:
  "dval_from v [] = v" "dval_from v (c # s) = dval_from (v * 10 + digit_val c) s"
  "dval_from v (s @ t) = dval_from (dval_from v s) t"
  by (simp_all add: dval_from_def)

lemma all_digits_simps [simp]:
  "all_digits []" "all_digits (c # s) = (is_digit c \<and> all_digits s)"
  "all_digits (s @ t) = (all_digits s \<and> all_digits t)"
  by (auto simp: all_digits_def)

lemma digit_char [simp]:
  assumes "n < 10"
  shows "is_digit (digit_char n)" "digit_val (digit_char n) = int n"
  using assms by (simp_all add: is_digit_def digit_val_def digit_char_def)

lemma is_digit_0 [simp]: "is_digit (CHR ''0'')" "digit_val (CHR ''0'') = 0"
  by (simp_all add: is_digit_def digit_val_def)

lemma not_digit_punct [simp]:
  "\<not> is_digit (CHR ''-'')" "\<not> is_digit (CHR ''+'')" "\<not> is_digit (CHR '':'')"
  "\<not> is_digit (CHR ''.'')" "\<not> is_digit (CHR '' '')" "\<not> is_digit (CHR ''T'')"
  by (simp_all add: is_digit_def)

lemma digit_val_range: "is_digit c \<Longrightarrow> 0 \<le> digit_val c \<and> digit_val c \<le> 9"
  by (simp add: is_digit_def digit_val_def)

lemma dval_mono: "all_digits s \<Longrightarrow> 0 \<le> v \<Longrightarrow> v \<le> dval_from v s"
proof (induction s arbitrary: v)
  case (Cons c s)
  then have "0 \<le> digit_val c" using digit_val_range by simp
  then have "v \<le> v * 10 + digit_val c" using Cons.prems by simp
  also have "\<dots> \<le> dval_from (v * 10 + digit_val c) s"
    using Cons \<open>0 \<le> digit_val c\<close> by (intro Cons.IH) simp_all
  finally show ?case by simp
qed simp

lemma dec_str_ok: "all_digits (dec_str n) \<and> dec_str n \<noteq> [] \<and> dval_from 0 (dec_str n) = int n"
proof (induction n rule: dec_str.induct)
  case (1 n)
  show ?case
  proof (cases "n < 10")
    case True
    then show ?thesis by (simp add: dec_str.simps [of n])
  next
    case False
    have "int n = int (n div 10) * 10 + int (n mod 10)"
      by (metis div_mult_mod_eq of_nat_add of_nat_mult of_nat_numeral)
    with 1 False show ?thesis by (simp add: dec_str.simps [of n])
  qed
qed

lemma zeros_digits [simp]:
  "all_digits (replicate k (CHR ''0''))" "dval_from 0 (replicate k (CHR ''0'')) = 0"
  by (induction k) simp_all

lemma pad_digits [simp]: "all_digits (pad w n)" "pad w n \<noteq> []"
  by (simp_all add: pad_def dec_str_ok)

lemma pad_val [simp]: "0 \<le> n \<Longrightarrow> dval_from 0 (pad w n) = n"
  by (simp add: pad_def dec_str_ok)

lemma length_dec_str: "n < 10 ^ k \<Longrightarrow> 0 < k \<Longrightarrow> length (dec_str n) \<le> k"
proof (induction k arbitrary: n)
  case (Suc k)
  show ?case
  proof (cases "n < 10")
    case False
    then have "k \<noteq> 0" using Suc.prems by (cases k) auto
    moreover have "n div 10 < 10 ^ k" using Suc.prems by (simp add: less_mult_imp_div_less mult.commute)
    ultimately show ?thesis using Suc False by (simp add: dec_str.simps [of n])
  qed (simp add: dec_str.simps [of n])
qed simp

lemma length_pad: "0 \<le> n \<Longrightarrow> n < 10 ^ w \<Longrightarrow> 0 < w \<Longrightarrow> length (pad w n) = w"
  using length_dec_str [of "nat n" w] by (simp add: pad_def nat_less_iff)

lemma dval_from_shift: "dval_from v s = v * 10 ^ length s + dval_from 0 s"
proof (induction s arbitrary: v)
  case (Cons c s)
  have "dval_from (v * 10 + digit_val c) s = (v * 10 + digit_val c) * 10 ^ length s + dval_from 0 s"
    by (rule Cons.IH)
  also have "\<dots> = v * 10 ^ length (c # s) + (digit_val c * 10 ^ length s + dval_from 0 s)"
    by (simp add: algebra_simps)
  also have "digit_val c * 10 ^ length s + dval_from 0 s = dval_from (digit_val c) s"
    by (rule Cons.IH [symmetric])
  finally show ?case by simp
qed simp

lemma dval_bounds: "all_digits s \<Longrightarrow> 0 \<le> dval_from 0 s \<and> dval_from 0 s < 10 ^ length s"
proof (induction s rule: rev_induct)
  case (snoc c s)
  then show ?case using digit_val_range [of c] by simp
qed simp

lemma digit_char_val: "is_digit c \<Longrightarrow> digit_char (nat (digit_val c)) = c"
proof -
  assume c: "is_digit c"
  define n :: nat where "n = of_char c"
  have "48 + nat (int n - 48) = n" using c unfolding is_digit_def n_def [symmetric] by linarith
  then have "digit_char (nat (digit_val c)) = char_of n"
    by (simp only: digit_char_def digit_val_def n_def)
  then show ?thesis by (simp add: n_def)
qed

lemma digit_val_inj:
  assumes "is_digit c" "is_digit d"
  shows "digit_val c = digit_val d \<longleftrightarrow> c = d"
  by (metis digit_char_val [OF assms(1)] digit_char_val [OF assms(2)])

lemma digit_val_0_iff: "is_digit c \<Longrightarrow> digit_val c = 0 \<longleftrightarrow> c = CHR ''0''"
  using digit_val_inj [of c "CHR ''0''"] by simp

text \<open>Two digit strings of one length are ordered as their values; in particular the value determines them.\<close>

lemma dval_less_iff:
  assumes "length s = length t" "all_digits s" "all_digits t"
  shows "dval_from 0 s < dval_from 0 t \<longleftrightarrow> map digit_val s < map digit_val t"
  using assms
proof (induction s t rule: list_induct2)
  case (Cons c s d t)
  have s: "dval_from 0 (c # s) = digit_val c * 10 ^ length s + dval_from 0 s"
    "dval_from 0 (d # t) = digit_val d * 10 ^ length s + dval_from 0 t"
    by (simp_all add: Cons.hyps dval_from_shift [of "digit_val c" s] dval_from_shift [of "digit_val d" t])
  have b: "0 \<le> dval_from 0 s" "dval_from 0 s < 10 ^ length s" "0 \<le> dval_from 0 t" "dval_from 0 t < 10 ^ length s"
    using dval_bounds [of s] dval_bounds [of t] Cons.prems Cons.hyps by simp_all
  have key: "x * p + a < y * p + b" if "x < y" "a < p" "0 \<le> b" "0 \<le> p" for x y a b p :: int
  proof -
    have "x * p + a < (x + 1) * p" using that by (simp add: algebra_simps)
    also have "\<dots> \<le> y * p" using that by (intro mult_right_mono) simp_all
    finally show ?thesis using that by simp
  qed
  show ?case
  proof (cases "digit_val c" "digit_val d" rule: linorder_cases)
    case less
    have "dval_from 0 (c # s) < dval_from 0 (d # t)"
      unfolding s by (rule key [OF less b(2,3)]) simp
    with less show ?thesis by simp
  next
    case equal
    then have "dval_from 0 (c # s) < dval_from 0 (d # t) \<longleftrightarrow> dval_from 0 s < dval_from 0 t"
      unfolding s by simp
    with equal Cons.IH Cons.prems show ?thesis by simp
  next
    case greater
    have "dval_from 0 (d # t) < dval_from 0 (c # s)"
      unfolding s by (rule key [OF greater b(4,1)]) simp
    with greater show ?thesis by simp
  qed
qed simp

lemma dval_eqD:
  assumes "length s = length t" "all_digits s" "all_digits t" "dval_from 0 s = dval_from 0 t"
  shows "s = t"
proof -
  have "\<not> map digit_val s < map digit_val t" "\<not> map digit_val t < map digit_val s"
    using dval_less_iff [OF assms(1-3)] dval_less_iff [OF assms(1) [symmetric] assms(3,2)] assms(4)
    by simp_all
  then have "map digit_val s = map digit_val t" by simp
  moreover have "inj_on digit_val (set s \<union> set t)"
    using assms(2,3) by (intro inj_onI) (auto simp: all_digits_def list_all_iff digit_val_inj)
  ultimately show ?thesis using inj_on_map_eq_map by blast
qed

text \<open>A digit string without a leading zero is what \<open>{}\<close> prints for its value.\<close>

lemma dval_pos: "all_digits s \<Longrightarrow> s \<noteq> [] \<Longrightarrow> hd s \<noteq> CHR ''0'' \<Longrightarrow> 0 < dval_from 0 s"
proof (cases s)
  case (Cons c t)
  assume a: "all_digits s" "hd s \<noteq> CHR ''0''"
  then have "0 < digit_val c" using Cons digit_val_range [of c] digit_val_0_iff [of c] by auto
  moreover have "digit_val c \<le> dval_from (digit_val c) t" using a Cons digit_val_range by (intro dval_mono) auto
  ultimately show ?thesis using Cons by simp
qed simp

lemma dec_str_unique:
  assumes "all_digits s" "s \<noteq> []" "hd s \<noteq> CHR ''0'' \<or> length s = 1"
  shows "dec_str (nat (dval_from 0 s)) = s"
  using assms
proof (induction s rule: rev_induct)
  case (snoc c s)
  have c: "0 \<le> digit_val c" "digit_val c \<le> 9" using snoc.prems digit_val_range by simp_all
  show ?case
  proof (cases "s = []")
    case True
    then show ?thesis using snoc.prems c digit_char_val [of c] by (simp add: dec_str.simps)
  next
    case False
    define v where "v = dval_from 0 s"
    have hd: "hd s \<noteq> CHR ''0''" and s: "all_digits s" using snoc.prems False by auto
    have v: "0 < v" unfolding v_def by (rule dval_pos [OF s False hd])
    have n: "nat (dval_from 0 (s @ [c])) = nat v * 10 + nat (digit_val c)"
      using v c by (simp add: v_def nat_add_distrib nat_mult_distrib)
    have "dec_str (nat v) = s" unfolding v_def using snoc.IH s False hd by simp
    moreover have "digit_char (nat (digit_val c)) = c" using snoc.prems by (simp add: digit_char_val)
    moreover have "\<not> nat v * 10 + nat (digit_val c) < 10" using v by linarith
    ultimately show ?thesis unfolding n
      using c by (subst dec_str.simps) simp
  qed
qed simp

lemma dec_str_0 [simp]: "dec_str 0 = ''0''"
  using digit_char_val [of "CHR ''0''"] by (simp add: dec_str.simps)

lemma hd_dec_str: "0 < n \<Longrightarrow> hd (dec_str n) \<noteq> CHR ''0''"
proof (induction n rule: dec_str.induct)
  case (1 n)
  show ?case
  proof (cases "n < 10")
    case True
    then have "digit_val (digit_char n) \<noteq> 0" using 1 by simp
    then have "digit_char n \<noteq> CHR ''0''" by auto
    then show ?thesis using True by (simp add: dec_str.simps [of n])
  next
    case False
    then show ?thesis using 1 dec_str_ok [of "n div 10"] by (simp add: dec_str.simps [of n])
  qed
qed

lemma dec_str_length_bounds: "0 < n \<Longrightarrow> 10 ^ (length (dec_str n) - 1) \<le> n \<and> n < 10 ^ length (dec_str n)"
proof (induction n rule: dec_str.induct)
  case (1 n)
  show ?case
  proof (cases "n < 10")
    case True
    then show ?thesis using 1 by (simp add: dec_str.simps [of n])
  next
    case False
    define l where "l = length (dec_str (n div 10))"
    have l: "0 < l" using dec_str_ok [of "n div 10"] by (simp add: l_def)
    have h: "10 ^ (l - 1) \<le> n div 10" "n div 10 < 10 ^ l" using 1 False by (simp_all add: l_def)
    have "10 ^ l = 10 ^ (l - 1) * (10::nat)" using l by (cases l) simp_all
    also have "\<dots> \<le> n div 10 * 10" using h(1) by (rule mult_le_mono1)
    also have "\<dots> \<le> n" by simp
    finally have "10 ^ l \<le> n" .
    moreover have "n < (n div 10 + 1) * 10" by simp
    then have "n < 10 ^ l * 10" using h(2) by linarith
    moreover have "length (dec_str n) = l + 1" using False by (simp add: dec_str.simps [of n] l_def)
    ultimately show ?thesis by simp
  qed
qed

end
