(* ===== verification/Datetime.thy ===== *)
theory Datetime
  imports Calendar Digits
begin

text \<open>
  Text input and output of the datetime types: \<open>timestamp.rs\<close> (parsing, rendering, typmod
  rounding) and \<open>date.rs\<close>. A Rust \<open>&str\<close> is the \<open>string\<close> of its bytes; the cursor \<open>i\<close> into the
  bytes is kept as the remaining input. Checked \<open>i64\<close> arithmetic is written out with
  \<open>i64_opt\<close>. Not modelled: \<open>make_timestamp\<close> (binary floating point) and the entry points that
  consult a time zone. Shown: rendering any date or timestamp gives a text that parses back to
  the same value.
\<close>

section \<open>Model: text primitives\<close>

definition I64_MIN :: int where "I64_MIN = - (2 ^ 63)"
definition I64_MAX :: int where "I64_MAX = 2 ^ 63 - 1"
definition I32_MIN :: int where "I32_MIN = - (2 ^ 31)"
definition I32_MAX :: int where "I32_MAX = 2 ^ 31 - 1"

lemmas int_limits = I64_MIN_def I64_MAX_def I32_MIN_def I32_MAX_def

definition i64_opt :: "int \<Rightarrow> int option" where
  "i64_opt x = (if I64_MIN \<le> x \<and> x \<le> I64_MAX then Some x else None)"

definition invalid_format :: "string \<Rightarrow> engine_error" where
  "invalid_format detail = (InvalidDatetimeFormat, detail)"

definition field_overflow :: "string \<Rightarrow> engine_error" where
  "field_overflow detail = (DatetimeFieldOverflow, detail)"

definition is_ws :: "char \<Rightarrow> bool" where
  "is_ws c \<longleftrightarrow> c \<in> {CHR '' '', CHR 0x09, CHR 0x0A, CHR 0x0C, CHR 0x0D}"

definition trim_ascii_ws :: "string \<Rightarrow> string" where
  "trim_ascii_ws s = rev (dropWhile is_ws (rev (dropWhile is_ws s)))"

definition to_ascii_lowercase :: "string \<Rightarrow> string" where
  "to_ascii_lowercase s =
     map (\<lambda>c. if (65 :: nat) \<le> of_char c \<and> of_char c \<le> (90 :: nat)
               then char_of (of_char c + (32 :: nat)) else c) s"

definition ends_with :: "string \<Rightarrow> string \<Rightarrow> bool" where
  "ends_with s suf \<longleftrightarrow> length suf \<le> length s \<and> drop (length s - length suf) s = suf"

fun read_uint_loop :: "int \<Rightarrow> string \<Rightarrow> (int \<times> string) result" where
  "read_uint_loop v [] = Inr (v, [])"
| "read_uint_loop v (c # cs) =
     (if is_digit c then
        (case Option.bind (i64_opt (v * 10)) (\<lambda>v. i64_opt (v + digit_val c)) of
           None \<Rightarrow> Inl (field_overflow ''numeric field too large'')
         | Some v \<Rightarrow> read_uint_loop v cs)
      else Inr (v, c # cs))"

definition read_uint :: "string \<Rightarrow> (int \<times> string) result" where
  "read_uint b = res_bind (read_uint_loop 0 b) (\<lambda>(v, rest).
     if length rest = length b then Inl (invalid_format ''expected a number'')
     else Inr (v, rest))"

fun expect :: "char \<Rightarrow> string \<Rightarrow> string result" where
  "expect c (x # rest) =
     (if x = c then Inr rest else Inl (invalid_format (''expected '' @ [CHR 0x27, c, CHR 0x27])))"
| "expect c [] = Inl (invalid_format (''expected '' @ [CHR 0x27, c, CHR 0x27]))"

definition read_frac :: "string \<Rightarrow> (int \<times> string) result" where
  "read_frac b =
     (let digits = takeWhile is_digit b; rest = dropWhile is_digit b in
      if digits = [] then Inl (invalid_format (''expected fractional digits after '' @ [CHR 0x27, CHR ''.'', CHR 0x27]))
      else
        let us = foldl (\<lambda>us k. us * 10 + (if k < length digits then digit_val (digits ! k) else 0))
                   0 [0..<6];
            us = (if length digits > 6 \<and> digit_val (digits ! 6) \<ge> 5 then us + 1 else us)
        in Inr (us, rest))"

section \<open>Model: datetime literals\<close>

text \<open>
  The blocks \<open>parse_wall\<close> and \<open>parse_date\<close> share word for word: the era suffix, the date
  fields, the optional time and the optional offset.
\<close>

definition split_era :: "string \<Rightarrow> bool \<times> string" where
  "split_era s =
     (let low = to_ascii_lowercase s in
      if ends_with low '' bc'' then (True, trim_ascii_ws (take (length s - 3) s))
      else if ends_with low '' ad'' then (False, trim_ascii_ws (take (length s - 3) s))
      else (False, s))"

definition date_part :: "string \<Rightarrow> ((int \<times> int \<times> int) \<times> string) result" where
  "date_part b =
     res_bind (read_uint b) (\<lambda>(year, b).
     res_bind (expect (CHR ''-'') b) (\<lambda>b.
     res_bind (read_uint b) (\<lambda>(month, b).
     res_bind (expect (CHR ''-'') b) (\<lambda>b.
     res_bind (read_uint b) (\<lambda>(day, b). Inr ((year, month, day), b))))))"

definition time_part :: "string \<Rightarrow> ((int \<times> int \<times> int \<times> int) \<times> string) result" where
  "time_part b =
     (if b \<noteq> [] \<and> hd b \<in> {CHR '' '', CHR ''T'', CHR ''t''} then
        res_bind (read_uint (tl b)) (\<lambda>(hour, b).
        res_bind (expect (CHR '':'') b) (\<lambda>b.
        res_bind (read_uint b) (\<lambda>(minute, b).
        if b \<noteq> [] \<and> hd b = CHR '':'' then
          res_bind (read_uint (tl b)) (\<lambda>(second, b).
          if b \<noteq> [] \<and> hd b = CHR ''.'' then
            res_bind (read_frac (tl b)) (\<lambda>(micro, b). Inr ((hour, minute, second, micro), b))
          else Inr ((hour, minute, second, 0), b))
        else Inr ((hour, minute, 0, 0), b))))
      else Inr ((0, 0, 0, 0), b))"

definition offset_part :: "string \<Rightarrow> string \<Rightarrow> (int option \<times> string) result" where
  "offset_part type_name b =
     (if b = [] then Inr (None, b)
      else if hd b \<in> {CHR ''Z'', CHR ''z''} then Inr (Some 0, tl b)
      else if hd b \<in> {CHR ''+'', CHR ''-''} then
        let sign = (if hd b = CHR ''-'' then -1 else 1) in
        res_bind (read_uint (tl b)) (\<lambda>(oh, b).
        res_bind
          (if b \<noteq> [] \<and> hd b = CHR '':'' then
             res_bind (read_uint (tl b)) (\<lambda>(om, b).
             if b \<noteq> [] \<and> hd b = CHR '':'' then
               res_bind (read_uint (tl b)) (\<lambda>(os, b). Inr (om, os, b))
             else Inr (om, 0, b))
           else Inr (0, 0, b)) (\<lambda>(om, os, b).
        if oh > 15 \<or> om > 59 \<or> os > 59
        then Inl (field_overflow ''time zone offset out of range'')
        else Inr (Some (sign * (oh * 3600 + om * 60 + os)), b)))
      else Inl (invalid_format (''invalid input syntax for type '' @ type_name)))"

datatype wall = Infinity int | Finite int "int option"

definition NEG_INFINITY :: int where "NEG_INFINITY = I64_MIN"
definition POS_INFINITY :: int where "POS_INFINITY = I64_MAX"

definition finite_instant :: "int \<Rightarrow> int result" where
  "finite_instant micros =
     (if micros = NEG_INFINITY \<or> micros = POS_INFINITY
      then Inl (field_overflow ''value out of range'') else Inr micros)"

definition apply_utc_offset :: "int \<Rightarrow> int \<Rightarrow> int result" where
  "apply_utc_offset wall offset_secs =
     (case Option.bind (i64_opt (offset_secs * MICROS_PER_SEC)) (\<lambda>x. i64_opt (wall - x)) of
        None \<Rightarrow> Inl (field_overflow ''value out of range'')
      | Some micros \<Rightarrow> finite_instant micros)"

text \<open>The field checks and the assembly of the instant, after the text is consumed.\<close>

definition wall_fields ::
  "bool \<Rightarrow> int \<times> int \<times> int \<Rightarrow> int \<times> int \<times> int \<times> int \<Rightarrow> int option \<Rightarrow> wall result" where
  "wall_fields bc ymd hms offset_secs =
     (case (ymd, hms) of ((year, month, day), (hour, minute, second, micro)) \<Rightarrow>
      if \<not> (1 \<le> year \<and> year \<le> 999999) then Inl (field_overflow ''year out of range'')
      else if \<not> (1 \<le> month \<and> month \<le> 12) then Inl (field_overflow ''month out of range'')
      else
        let astro = (if bc then 1 - year else year) in
        if day < 1 \<or> day > days_in_month astro month
        then Inl (field_overflow ''day out of range for month'')
        else
          let extra_day = (hour = 24 \<and> minute = 0 \<and> second = 0 \<and> micro = 0) in
          if hour > 23 \<and> \<not> extra_day then Inl (field_overflow ''hour out of range'')
          else if minute > 59 then Inl (field_overflow ''minute out of range'')
          else if second > 59 then Inl (field_overflow ''second out of range'')
          else
            let hour_part = (if extra_day then 0 else hour);
                days = days_from_civil astro month day
            in case (if extra_day then i64_opt (days + 1) else Some days) of
                 None \<Rightarrow> Inl (field_overflow ''value out of range'')
               | Some days \<Rightarrow>
                 (case Option.bind (i64_opt (days * SECS_PER_DAY))
                         (\<lambda>s. i64_opt (s + (hour_part * 3600 + minute * 60 + second))) of
                    None \<Rightarrow> Inl (field_overflow ''value out of range'')
                  | Some secs \<Rightarrow>
                    (case i64_opt (secs * MICROS_PER_SEC + micro) of
                       None \<Rightarrow> Inl (field_overflow ''value out of range'')
                     | Some micros \<Rightarrow> Inr (Finite micros offset_secs))))"

definition parse_wall :: "string \<Rightarrow> string \<Rightarrow> wall result" where
  "parse_wall input type_name =
     (let s = trim_ascii_ws input; low = to_ascii_lowercase s in
      if low = ''infinity'' \<or> low = ''+infinity'' then Inr (Infinity POS_INFINITY)
      else if low = ''-infinity'' then Inr (Infinity NEG_INFINITY)
      else
        let (bc, body) = split_era s in
        res_bind (date_part body) (\<lambda>(ymd, b).
        res_bind (time_part b) (\<lambda>(hms, b).
        res_bind (offset_part type_name b) (\<lambda>(offset_secs, b).
        if b \<noteq> [] then Inl (invalid_format (''invalid input syntax for type '' @ type_name))
        else wall_fields bc ymd hms offset_secs))))"

definition parse :: "string \<Rightarrow> string \<Rightarrow> int result" where
  "parse input type_name = res_bind (parse_wall input type_name) (\<lambda>w.
     case w of Infinity sentinel \<Rightarrow> Inr sentinel | Finite micros _ \<Rightarrow> finite_instant micros)"

definition parse_timestamp :: "string \<Rightarrow> int result" where
  "parse_timestamp s = parse s ''timestamp''"

datatype timestamptz_input = Instant int | Local int

definition parse_timestamptz_input :: "string \<Rightarrow> timestamptz_input result" where
  "parse_timestamptz_input s = res_bind (parse_wall s ''timestamptz'') (\<lambda>w.
     case w of
       Infinity sentinel \<Rightarrow> Inr (Instant sentinel)
     | Finite micros (Some off) \<Rightarrow>
         res_bind (apply_utc_offset micros off) (\<lambda>m. Inr (Instant m))
     | Finite micros None \<Rightarrow> Inr (Local micros))"

definition DATE_NEG_INFINITY :: int where "DATE_NEG_INFINITY = I32_MIN"
definition DATE_POS_INFINITY :: int where "DATE_POS_INFINITY = I32_MAX"
definition MIN_FINITE :: int where "MIN_FINITE = I32_MIN + 1"
definition MAX_FINITE :: int where "MAX_FINITE = I32_MAX - 1"

definition date_clock_special :: "string \<Rightarrow> (int \<times> bool) option" where
  "date_clock_special input =
     (let w = to_ascii_lowercase (trim_ascii_ws input) in
      if w = ''epoch'' then Some (0, True)
      else if w = ''now'' \<or> w = ''today'' then Some (0, False)
      else if w = ''tomorrow'' then Some (1, False)
      else if w = ''yesterday'' then Some (-1, False)
      else None)"

definition date_clock_is_relative :: "string \<Rightarrow> bool" where
  "date_clock_is_relative input =
     (case date_clock_special input of Some (_, False) \<Rightarrow> True | _ \<Rightarrow> False)"

definition make_date :: "int \<Rightarrow> int \<Rightarrow> int \<Rightarrow> int result" where
  "make_date year month day =
     (let err = Inl (field_overflow ''date field value out of range'') in
      if year = 0 \<or> \<not> (-9999999 \<le> year \<and> year \<le> 9999999) then err
      else
        let bc = year < 0; mag = \<bar>year\<bar> in
        if \<not> (1 \<le> month \<and> month \<le> 12) then err
        else
          let astro = (if bc then 1 - mag else mag) in
          if day < 1 \<or> day > days_in_month astro month then err
          else
            let days = days_from_civil astro month day in
            if \<not> (MIN_FINITE \<le> days \<and> days \<le> MAX_FINITE) then err else Inr days)"

definition date_fields ::
  "bool \<Rightarrow> int \<times> int \<times> int \<Rightarrow> int \<times> int \<times> int \<times> int \<Rightarrow> int result" where
  "date_fields bc ymd hms =
     (case (ymd, hms) of ((year, month, day), (hour, minute, second, micro)) \<Rightarrow>
      if \<not> (1 \<le> year \<and> year \<le> 9999999) then Inl (field_overflow ''year out of range'')
      else if \<not> (1 \<le> month \<and> month \<le> 12) then Inl (field_overflow ''month out of range'')
      else
        let astro = (if bc then 1 - year else year) in
        if day < 1 \<or> day > days_in_month astro month
        then Inl (field_overflow ''day out of range for month'')
        else
          let allow24 = (hour = 24 \<and> minute = 0 \<and> second = 0 \<and> micro = 0) in
          if hour > 23 \<and> \<not> allow24 then Inl (field_overflow ''hour out of range'')
          else if minute > 59 then Inl (field_overflow ''minute out of range'')
          else if second > 59 then Inl (field_overflow ''second out of range'')
          else
            let days = days_from_civil astro month day in
            if \<not> (MIN_FINITE \<le> days \<and> days \<le> MAX_FINITE)
            then Inl (field_overflow ''date out of range'') else Inr days)"

definition parse_date :: "string \<Rightarrow> int result" where
  "parse_date input =
     (let s = trim_ascii_ws input; low = to_ascii_lowercase s in
      if low = ''infinity'' \<or> low = ''+infinity'' then Inr DATE_POS_INFINITY
      else if low = ''-infinity'' then Inr DATE_NEG_INFINITY
      else if low = ''epoch'' then Inr 0
      else
        let (bc, body) = split_era s in
        res_bind (date_part body) (\<lambda>(ymd, b).
        res_bind (time_part b) (\<lambda>(hms, b).
        res_bind (offset_part ''date'' b) (\<lambda>(_, b).
        if b \<noteq> [] then Inl (invalid_format ''invalid input syntax for type date'')
        else date_fields bc ymd hms))))"

section \<open>Model: rounding and rendering\<close>

definition PG_EPOCH_MICROS :: int where "PG_EPOCH_MICROS = 946684800 * MICROS_PER_SEC"
definition MAX_TIMESTAMP_PRECISION :: nat where "MAX_TIMESTAMP_PRECISION = 6"

definition adjust_timestamp_for_typmod :: "int \<Rightarrow> nat \<Rightarrow> int result" where
  "adjust_timestamp_for_typmod micros precision =
     (if micros = NEG_INFINITY \<or> micros = POS_INFINITY \<or> precision \<ge> MAX_TIMESTAMP_PRECISION
      then Inr micros
      else
        let scale = 10 ^ (MAX_TIMESTAMP_PRECISION - precision);
            offset = scale sdiv 2;
            t = micros - PG_EPOCH_MICROS;
            rounded = (if t \<ge> 0 then (t + offset) sdiv scale * scale
                       else - ((- t + offset) sdiv scale * scale))
        in case i64_opt (rounded + PG_EPOCH_MICROS) of
             None \<Rightarrow> Inl (field_overflow ''timestamp out of range'')
           | Some m \<Rightarrow> (case finite_instant m of
                          Inl _ \<Rightarrow> Inl (field_overflow ''timestamp out of range'')
                        | Inr m \<Rightarrow> Inr m))"


definition trim_end_zeros :: "string \<Rightarrow> string" where
  "trim_end_zeros s = rev (dropWhile (\<lambda>c. c = CHR ''0'') (rev s))"

definition render_offset :: "bool \<Rightarrow> int \<Rightarrow> string" where
  "render_offset xsd utoff =
     (let sign = (if utoff < 0 then CHR ''-'' else CHR ''+'');
          a = \<bar>utoff\<bar>;
          h = a div 3600; mi = a div 60 mod 60; s = a mod 60
      in sign # pad 2 h
         @ (if s \<noteq> 0 then CHR '':'' # pad 2 mi @ CHR '':'' # pad 2 s
            else if mi \<noteq> 0 \<or> xsd then CHR '':'' # pad 2 mi else []))"

definition render_styled :: "int \<Rightarrow> int option \<Rightarrow> bool \<Rightarrow> string" where
  "render_styled micros offset xsd =
     (if micros = NEG_INFINITY then ''-infinity''
      else if micros = POS_INFINITY then ''infinity''
      else
        let (y, mo, d, h, mi, s, us) = civil_from_micros micros;
            (displayed, era) = (if y \<le> 0 then (1 - y, '' BC'') else (y, ''''));
            sep = (if xsd then CHR ''T'' else CHR '' '')
        in pad 4 displayed @ CHR ''-'' # pad 2 mo @ CHR ''-'' # pad 2 d @ sep
             # pad 2 h @ CHR '':'' # pad 2 mi @ CHR '':'' # pad 2 s
           @ (if us \<noteq> 0 then CHR ''.'' # trim_end_zeros (pad 6 us) else [])
           @ (case offset of None \<Rightarrow> [] | Some utoff \<Rightarrow> render_offset xsd utoff)
           @ era)"

definition render :: "int \<Rightarrow> int option \<Rightarrow> string" where
  "render micros offset = render_styled micros offset False"

definition render_timestamp :: "int \<Rightarrow> string" where
  "render_timestamp micros = render micros None"

definition render_timestamptz :: "int \<Rightarrow> string" where
  "render_timestamptz micros = render micros (Some 0)"

definition render_timestamp_xsd :: "int \<Rightarrow> string" where
  "render_timestamp_xsd micros = render_styled micros None True"

definition render_date :: "int \<Rightarrow> string" where
  "render_date days =
     (if days = DATE_NEG_INFINITY then ''-infinity''
      else if days = DATE_POS_INFINITY then ''infinity''
      else
        let (y, mo, d) = civil_from_days days;
            (displayed, era) = (if y \<le> 0 then (1 - y, '' BC'') else (y, ''''))
        in pad 4 displayed @ CHR ''-'' # pad 2 mo @ CHR ''-'' # pad 2 d @ era)"

section \<open>Reading digits\<close>

definition no_digit_next :: "string \<Rightarrow> bool" where
  "no_digit_next s \<longleftrightarrow> s = [] \<or> \<not> is_digit (hd s)"

lemma no_digit_next_simps [simp]: "no_digit_next []" "no_digit_next (c # s) = (\<not> is_digit c)"
  by (simp_all add: no_digit_next_def)

lemma read_uint_loop_digits:
  assumes "all_digits s" "0 \<le> v" "dval_from v s \<le> I64_MAX" "no_digit_next rest"
  shows "read_uint_loop v (s @ rest) = Inr (dval_from v s, rest)"
  using assms
proof (induction s arbitrary: v)
  case Nil
  then show ?case by (cases rest) simp_all
next
  case (Cons c s)
  have c: "0 \<le> digit_val c" "is_digit c" using Cons.prems digit_val_range by auto
  have "v * 10 + digit_val c \<le> dval_from (v * 10 + digit_val c) s"
    using Cons.prems c by (intro dval_mono) simp_all
  then have "i64_opt (v * 10) = Some (v * 10)"
    "i64_opt (v * 10 + digit_val c) = Some (v * 10 + digit_val c)"
    using Cons.prems c by (simp_all add: i64_opt_def I64_MIN_def)
  with c Cons show ?case by simp
qed

lemma read_uint_digits:
  assumes "s \<noteq> []" "all_digits s" "dval_from 0 s \<le> I64_MAX" "no_digit_next rest"
  shows "read_uint (s @ rest) = Inr (dval_from 0 s, rest)"
  using assms by (simp add: read_uint_def read_uint_loop_digits)

lemma read_uint_pad [simp]:
  "0 \<le> n \<Longrightarrow> n \<le> I64_MAX \<Longrightarrow> no_digit_next rest \<Longrightarrow> read_uint (pad w n @ rest) = Inr (n, rest)"
  by (simp add: read_uint_digits)

section \<open>Fractions\<close>

lemma trim_end_zeros_split:
  "\<exists>k. s = trim_end_zeros s @ replicate k (CHR ''0'')"
proof -
  let ?z = "takeWhile (\<lambda>c. c = CHR ''0'') (rev s)"
  have "\<forall>c \<in> set ?z. c = CHR ''0''" by (auto dest: set_takeWhileD)
  then have z: "?z = replicate (length ?z) (CHR ''0'')"
    by (simp add: replicate_length_same)
  have "s = rev (?z @ dropWhile (\<lambda>c. c = CHR ''0'') (rev s))"
    by (simp only: takeWhile_dropWhile_id rev_rev_ident)
  also have "\<dots> = trim_end_zeros s @ rev ?z" by (simp only: trim_end_zeros_def rev_append)
  also have "rev ?z = replicate (length ?z) (CHR ''0'')" by (metis z rev_replicate)
  finally show ?thesis by blast
qed

lemma foldl_digits_upt:
  "foldl (\<lambda>us k. us * 10 + (if k < length ds then digit_val (ds ! k) else 0)) 0
     [0..<length ds + m] = dval_from 0 (ds @ replicate m (CHR ''0''))"
proof (induction m)
  case 0
  show ?case
  proof (induction ds rule: rev_induct)
    case (snoc d ds)
    have "foldl (\<lambda>us k. us * 10 + (if k < length (ds @ [d]) then digit_val ((ds @ [d]) ! k) else 0)) 0
        [0..<length ds]
      = foldl (\<lambda>us k. us * 10 + (if k < length ds then digit_val (ds ! k) else 0)) 0 [0..<length ds]"
      by (intro foldl_cong) (auto simp: nth_append)
    then show ?case using snoc by simp
  qed simp
next
  case (Suc m)
  then show ?case by (simp add: replicate_append_same [symmetric])
qed

lemma takeWhile_digits: "all_digits s \<Longrightarrow> no_digit_next rest \<Longrightarrow> takeWhile is_digit (s @ rest) = s"
  by (cases rest) (auto simp: all_digits_def list_all_iff takeWhile_append2)

lemma dropWhile_digits: "all_digits s \<Longrightarrow> no_digit_next rest \<Longrightarrow> dropWhile is_digit (s @ rest) = rest"
  by (cases rest) (auto simp: all_digits_def list_all_iff dropWhile_append2)

lemma read_frac_micros:
  assumes "0 < us" "us < 10 ^ 6" "no_digit_next rest"
  shows "read_frac (trim_end_zeros (pad 6 us) @ rest) = Inr (us, rest)"
proof -
  let ?t = "trim_end_zeros (pad 6 us)"
  obtain k where k: "pad 6 us = ?t @ replicate k (CHR ''0'')" using trim_end_zeros_split by blast
  have us: "dval_from 0 (pad 6 us) = us" using assms by simp
  have "length (pad 6 us) = 6" using assms by (intro length_pad) simp_all
  with k have l: "length ?t + k = 6" by (metis length_append length_replicate)
  have d: "all_digits ?t" using pad_digits(1) [of 6 us] k by (metis all_digits_simps(3))
  have ne: "?t \<noteq> []" 
  proof
    assume "?t = []"
    then have "dval_from 0 (pad 6 us) = 0" using k by (metis append_Nil zeros_digits(2))
    with us assms show False by simp
  qed
  have "foldl (\<lambda>us k. us * 10 + (if k < length ?t then digit_val (?t ! k) else 0)) 0 [0..<6] = us"
    using foldl_digits_upt [of ?t k] l k us by simp
  moreover have "\<not> length ?t > 6" using l by simp
  ultimately show ?thesis
    using ne by (simp add: read_frac_def takeWhile_digits dropWhile_digits d assms(3) Let_def)
qed

section \<open>Eras\<close>

lemma digit_not_ws: "is_digit c \<Longrightarrow> \<not> is_ws c"
  by (auto simp: is_digit_def is_ws_def)

lemma lower_digit:
  "is_digit c \<Longrightarrow> to_ascii_lowercase (c # s) = c # to_ascii_lowercase s"
  by (simp add: to_ascii_lowercase_def is_digit_def)

lemma lower_append: "to_ascii_lowercase (s @ t) = to_ascii_lowercase s @ to_ascii_lowercase t"
  by (simp add: to_ascii_lowercase_def)

lemma trim_id:
  assumes "s \<noteq> []" "\<not> is_ws (hd s)" "\<not> is_ws (last s)"
  shows "trim_ascii_ws s = s"
proof -
  have "dropWhile is_ws s = s" using assms by (cases s) auto
  moreover have "dropWhile is_ws (rev s) = rev s"
    using assms by (cases s rule: rev_cases) auto
  ultimately show ?thesis by (simp add: trim_ascii_ws_def)
qed

lemma lower_last_digit:
  assumes "s \<noteq> []" "is_digit (last s)"
  shows "last (to_ascii_lowercase s) = last s"
  using assms by (cases s rule: rev_cases) (simp_all add: to_ascii_lowercase_def is_digit_def)

lemma ends_with_last: "ends_with s suf \<Longrightarrow> suf \<noteq> [] \<Longrightarrow> last s = last suf"
  unfolding ends_with_def by (metis last_drop drop_eq_Nil2 not_le_imp_less)

lemma digit_not_bcad: "is_digit c \<Longrightarrow> c \<noteq> CHR ''c'' \<and> c \<noteq> CHR ''d''"
  by (auto simp: is_digit_def)

definition era_text :: "bool \<Rightarrow> string" where
  "era_text bc = (if bc then '' BC'' else [])"

text \<open>A text that starts and ends with a digit, followed by its era.\<close>

lemma era_roundtrip:
  assumes s: "s \<noteq> []" "is_digit (hd s)" "is_digit (last s)"
  shows "split_era (s @ era_text bc) = (bc, s)"
    "trim_ascii_ws (s @ era_text bc) = s @ era_text bc"
    "hd (to_ascii_lowercase (s @ era_text bc)) = hd s"
    "to_ascii_lowercase (s @ era_text bc) \<noteq> []"
proof -
  have t: "trim_ascii_ws s = s" using s by (intro trim_id) (auto dest: digit_not_ws)
  have "\<not> ends_with (to_ascii_lowercase s) '' bc''" "\<not> ends_with (to_ascii_lowercase s) '' ad''"
    using ends_with_last [of "to_ascii_lowercase s"] lower_last_digit [OF s(1,3)]
      digit_not_bcad [OF s(3)] by fastforce+
  moreover have "ends_with (to_ascii_lowercase (s @ '' BC'')) '' bc''"
  proof -
    have "to_ascii_lowercase '' BC'' = '' bc''" by code_simp
    then show ?thesis by (simp add: lower_append ends_with_def)
  qed
  ultimately show "split_era (s @ era_text bc) = (bc, s)"
    by (simp add: split_era_def era_text_def t)
  show "trim_ascii_ws (s @ era_text bc) = s @ era_text bc"
    using s by (intro trim_id) (auto simp: era_text_def is_ws_def is_digit_def)
  show "hd (to_ascii_lowercase (s @ era_text bc)) = hd s"
    using s by (cases s) (simp_all add: lower_digit)
  show "to_ascii_lowercase (s @ era_text bc) \<noteq> []"
    using s by (simp add: to_ascii_lowercase_def)
qed

lemma digit_text_not_word:
  assumes "is_digit (hd s)" "w \<noteq> []" "\<not> is_digit (hd w)"
  shows "s \<noteq> w"
  using assms by auto

section \<open>Fields\<close>

definition date_text :: "int \<Rightarrow> int \<Rightarrow> int \<Rightarrow> string" where
  "date_text y m d = pad 4 y @ CHR ''-'' # pad 2 m @ CHR ''-'' # pad 2 d"

definition time_text :: "int \<Rightarrow> int \<Rightarrow> int \<Rightarrow> int \<Rightarrow> string" where
  "time_text h mi s us = pad 2 h @ CHR '':'' # pad 2 mi @ CHR '':'' # pad 2 s
     @ (if us \<noteq> 0 then CHR ''.'' # trim_end_zeros (pad 6 us) else [])"

lemma date_part_text:
  assumes "0 \<le> y" "y \<le> I64_MAX" "0 \<le> m" "m \<le> 12" "0 \<le> d" "d \<le> 31" "no_digit_next rest"
  shows "date_part (date_text y m d @ rest) = Inr ((y, m, d), rest)"
  using assms by (simp add: date_part_def date_text_def I64_MAX_def)

lemma time_part_text:
  assumes "0 \<le> h" "h < 24" "0 \<le> mi" "mi < 60" "0 \<le> s" "s < 60" "0 \<le> us" "us < 1000000"
    "no_digit_next rest" "rest = [] \<or> hd rest \<in> {CHR ''+'', CHR ''-''}"
    "sep \<in> {CHR '' '', CHR ''T'', CHR ''t''}"
  shows "time_part (sep # time_text h mi s us @ rest) = Inr ((h, mi, s, us), rest)"
proof -
  have "rest = [] \<or> hd rest \<noteq> CHR ''.''" using assms(10) by auto
  moreover have "us \<noteq> 0 \<Longrightarrow> read_frac (trim_end_zeros (pad 6 us) @ rest) = Inr (us, rest)"
    using assms by (intro read_frac_micros) simp_all
  ultimately show ?thesis
    using assms by (auto simp: time_part_def time_text_def I64_MAX_def)
qed

text \<open>The day number and the civil fields of a finite date or instant, and their ranges.\<close>

lemma civil_from_days_ok:
  assumes "civil_from_days z = (y, m, d)"
  shows "valid_date (y, m, d)" "days_from_civil y m d = z"
proof -
  obtain y' m' d' where *: "valid_date (y', m', d')" "days_from_civil y' m' d' = z"
    using days_surj by blast
  with civil_from_days_from_civil assms have "(y', m', d') = (y, m, d)" by metis
  with * show "valid_date (y, m, d)" "days_from_civil y m d = z" by auto
qed

lemma valid_dateD:
  assumes "valid_date (y, m, d)"
  shows "1 \<le> m" "m \<le> 12" "1 \<le> d" "d \<le> days_in_month y m" "d \<le> 31"
  using assms days_in_month_range [of m y] by (auto simp: valid_date_def)

text \<open>A coarse estimate of the year of a day number, enough for the field width.\<close>

lemma year_days_estimate:
  fixes y :: int
  shows "0 \<le> y \<Longrightarrow> 365 * y \<le> year_days y + 1" "y < 0 \<Longrightarrow> year_days y \<le> 365 * y + 2"
proof -
  have *: "k * (y div k) \<le> y \<and> y < k * (y div k) + k" if "0 < k" for k
    using that mult_div_mod_eq [of k y] pos_mod_bound [of k y] pos_mod_sign [of k y] by linarith
  show "0 \<le> y \<Longrightarrow> 365 * y \<le> year_days y + 1" "y < 0 \<Longrightarrow> year_days y \<le> 365 * y + 2"
    unfolding year_days_def using * [of 4] * [of 100] * [of 400] by linarith+
qed

lemma year_estimate:
  assumes v: "valid_date (y, m, d)" and z: "days_from_civil y m d = z"
  shows "365 * \<bar>y\<bar> \<le> \<bar>z\<bar> + 720000"
proof -
  have "z = year_days (march_year y m) + (month_offset m + (d - 1)) - 719468"
    using z days_from_civil_closed [OF valid_dateD(1,2) [OF v]] by simp
  moreover have "march_year y m \<le> y" "y \<le> march_year y m + 1" by (auto simp: march_year_def)
  ultimately show ?thesis
    using month_offset_range(1,2) [OF v] year_days_estimate [of "march_year y m"] by linarith
qed

text \<open>The era the renderers print and the parsers read back.\<close>

lemma displayed_year:
  "(if y \<le> 0 then (1 - y, '' BC'') else (y, ''''))
     = (if y \<le> 0 then 1 - y else y, era_text (y \<le> 0))"
  by (simp add: era_text_def)

lemma pad_ends: "is_digit (hd (pad w n))" "is_digit (last (pad w n))"
  using pad_digits [of w n] by (auto simp: all_digits_def list_all_iff)

lemma date_text_ends:
  "date_text y m d \<noteq> []" "is_digit (hd (date_text y m d))" "is_digit (last (date_text y m d))"
  by (simp_all add: date_text_def pad_ends)

lemma render_date_text:
  assumes "d \<noteq> DATE_NEG_INFINITY" "d \<noteq> DATE_POS_INFINITY" "civil_from_days d = (y, mo, dd)"
  shows "render_date d = date_text (if y \<le> 0 then 1 - y else y) mo dd @ era_text (y \<le> 0)"
  using assms by (simp add: render_date_def displayed_year date_text_def)

lemma parse_render_date:
  assumes "I32_MIN \<le> z" "z \<le> I32_MAX"
  shows "parse_date (render_date z) = Inr z"
proof (cases "z = DATE_NEG_INFINITY \<or> z = DATE_POS_INFINITY")
  case True
  have "parse_date (render_date DATE_NEG_INFINITY) = Inr DATE_NEG_INFINITY"
    "parse_date (render_date DATE_POS_INFINITY) = Inr DATE_POS_INFINITY"
    by code_simp+
  with True show ?thesis by auto
next
  case False
  obtain y m d where c: "civil_from_days z = (y, m, d)" by (metis prod_cases3)
  note ok = civil_from_days_ok [OF c]
  note v = valid_dateD [OF ok(1)]
  define Y where "Y = (if y \<le> 0 then 1 - y else y)"
  let ?s = "date_text Y m d"
  have Y: "1 \<le> Y" "Y \<le> 9999999" "(if y \<le> 0 then 1 - Y else Y) = y"
    using year_estimate [OF ok] assms by (auto simp: Y_def int_limits)
  have r: "render_date z = ?s @ era_text (y \<le> 0)"
    using render_date_text [OF _ _ c] False by (simp add: Y_def)
  note e = era_roundtrip [OF date_text_ends, where bc = "y \<le> 0"]
  let ?low = "to_ascii_lowercase (?s @ era_text (y \<le> 0))"
  have "is_digit (hd ?low)" using e(3) date_text_ends(2) by simp
  then have low: "?low \<noteq> ''infinity''" "?low \<noteq> ''+infinity''" "?low \<noteq> ''-infinity''" "?low \<noteq> ''epoch''"
    by (auto simp: is_digit_def)
  have "date_part ?s = Inr ((Y, m, d), [])"
    using date_part_text [of Y m d "[]"] v Y by (simp add: I64_MAX_def)
  moreover have "date_fields (y \<le> 0) (Y, m, d) (0, 0, 0, 0) = Inr z"
    using v Y ok False assms
    by (simp add: date_fields_def Let_def MIN_FINITE_def MAX_FINITE_def
        DATE_NEG_INFINITY_def DATE_POS_INFINITY_def)
  ultimately show ?thesis
    by (simp add: parse_date_def r e(1,2) low Let_def time_part_def offset_part_def)
qed

lemma civil_from_micros_ok:
  assumes "civil_from_micros t = (y, mo, d, h, mi, s, us)"
  shows "valid_date (y, mo, d)" "0 \<le> h" "h < 24" "0 \<le> mi" "mi < 60" "0 \<le> s" "s < 60"
    "0 \<le> us" "us < 1000000"
    "t = (days_from_civil y mo d * 86400 + (h * 3600 + mi * 60 + s)) * 1000000 + us"
proof -
  define secs where "secs = t div 1000000"
  define sod where "sod = secs mod 86400"
  define days where "days = secs div 86400"
  have sod: "0 \<le> sod" "sod < 86400" by (simp_all add: sod_def)
  have m: "0 \<le> sod mod 3600" "sod mod 3600 < 3600" by simp_all
  have c: "civil_from_days days = (y, mo, d)" "us = t mod 1000000" "h = sod div 3600"
    "mi = sod mod 3600 div 60" "s = sod mod 60"
    using assms sod
    by (simp_all add: civil_from_micros_def Let_def MICROS_PER_SEC_def SECS_PER_DAY_def
        days_def sod_def secs_def split: prod.splits)
  show "valid_date (y, mo, d)" using civil_from_days_ok [OF c(1)] by simp
  show "0 \<le> h" "h < 24" "0 \<le> mi" "mi < 60" "0 \<le> s" "s < 60" "0 \<le> us" "us < 1000000"
    using sod m unfolding c by (simp_all add: div_int_pos_iff)
  have "sod mod 3600 mod 60 = sod mod 60" by (simp add: mod_mod_cancel)
  then have "sod = h * 3600 + mi * 60 + s"
    unfolding c using mult_div_mod_eq [of 3600 sod] mult_div_mod_eq [of 60 "sod mod 3600"]
    by linarith
  moreover have "secs = days * 86400 + sod" by (simp add: days_def sod_def)
  moreover have "t = secs * 1000000 + us" by (simp add: secs_def c(2))
  ultimately show "t = (days_from_civil y mo d * 86400 + (h * 3600 + mi * 60 + s)) * 1000000 + us"
    using civil_from_days_ok(2) [OF c(1)] by simp
qed

lemma render_text:
  assumes "t \<noteq> NEG_INFINITY" "t \<noteq> POS_INFINITY" "civil_from_micros t = (y, mo, d, h, mi, s, us)"
  shows "render_styled t offset xsd =
     date_text (if y \<le> 0 then 1 - y else y) mo d @ (if xsd then CHR ''T'' else CHR '' '')
       # time_text h mi s us @ (case offset of None \<Rightarrow> [] | Some utoff \<Rightarrow> render_offset xsd utoff)
       @ era_text (y \<le> 0)"
  using assms by (simp add: render_styled_def displayed_year date_text_def time_text_def)

lemma trim_end_zeros_last:
  assumes "0 < us" "us < 1000000"
  shows "trim_end_zeros (pad 6 us) \<noteq> []" "is_digit (last (trim_end_zeros (pad 6 us)))"
proof -
  obtain k where k: "pad 6 us = trim_end_zeros (pad 6 us) @ replicate k (CHR ''0'')"
    using trim_end_zeros_split by blast
  then show ne: "trim_end_zeros (pad 6 us) \<noteq> []"
    using assms pad_val [of us 6] zeros_digits(2) by (metis append_Nil less_le)
  have "all_digits (trim_end_zeros (pad 6 us))"
    using pad_digits(1) [of 6 us] k by (metis all_digits_simps(3))
  with ne show "is_digit (last (trim_end_zeros (pad 6 us)))"
    by (auto simp: all_digits_def list_all_iff)
qed

lemma time_text_ends:
  assumes "0 \<le> us" "us < 1000000"
  shows "time_text h mi s us \<noteq> []" "is_digit (last (time_text h mi s us))"
  using assms trim_end_zeros_last [of us] by (auto simp: time_text_def pad_ends)

text \<open>The printed UTC offset, in both styles.\<close>

lemma utc_offset_text:
  "render_offset False 0 = ''+00''" "render_offset True 0 = ''+00:00''"
  by code_simp+

lemma offset_part_utc:
  "offset_part ty (render_offset xsd 0) = Inr (Some 0, [])"
proof -
  have "read_uint ''00'' = Inr (0, [])" "read_uint ''00:00'' = Inr (0, '':00'')" by code_simp+
  then show ?thesis by (cases xsd) (simp_all add: utc_offset_text offset_part_def)
qed

lemma utc_offset_ends:
  "render_offset xsd 0 \<noteq> []" "hd (render_offset xsd 0) = CHR ''+''"
  "is_digit (last (render_offset xsd 0))" "no_digit_next (render_offset xsd 0)"
  by (cases xsd; simp add: utc_offset_text)+

text \<open>What \<open>parse_wall\<close> makes of a rendered instant: the instant and the printed offset.\<close>

lemma micros_bound:
  assumes "t = (z * 86400 + w) * 1000000 + us" "I64_MIN < t" "t < I64_MAX"
    "0 \<le> us" "us < 1000000" "0 \<le> w" "w < 86400"
  shows "\<bar>z\<bar> \<le> 106751992"
  using assms unfolding int_limits by (simp add: abs_le_iff)

lemma wall_fields_ok:
  assumes "t = (days_from_civil y mo d * 86400 + (h * 3600 + mi * 60 + s)) * 1000000 + us"
    and t: "I64_MIN < t" "t < I64_MAX" and v: "valid_date (y, mo, d)"
    and tod: "0 \<le> h" "h < 24" "0 \<le> mi" "mi < 60" "0 \<le> s" "s < 60" "0 \<le> us" "us < 1000000"
    and Y: "1 \<le> Y" "Y \<le> 999999" "(if bc then 1 - Y else Y) = y"
  shows "wall_fields bc (Y, mo, d) (h, mi, s, us) offset = Inr (Finite t offset)"
proof -
  define z where "z = days_from_civil y mo d"
  let ?w = "h * 3600 + mi * 60 + s"
  have w: "0 \<le> ?w" "?w < 86400" using tod by auto
  have e: "t = (z * 86400 + ?w) * 1000000 + us" using assms(1) by (simp only: z_def)
  have z: "\<bar>z\<bar> \<le> 106751992" by (rule micros_bound [OF e t tod(7,8) w])
  have i: "i64_opt (z * 86400) = Some (z * 86400)" "i64_opt (z * 86400 + ?w) = Some (z * 86400 + ?w)"
    using z w unfolding i64_opt_def int_limits by auto
  have "i64_opt ((z * 86400 + ?w) * 1000000 + us) = Some t"
    unfolding e [symmetric] using t by (simp add: i64_opt_def)
  note i = i this
  have g: "\<not> h > 23" "\<not> mi > 59" "\<not> s > 59" "h \<noteq> 24" using tod by auto
  show ?thesis
    using valid_dateD [OF v] Y(1,2) g
    unfolding wall_fields_def Let_def prod.case Y(3) z_def [symmetric] MICROS_PER_SEC_def SECS_PER_DAY_def
    by (simp del: distrib_right_numeral add: i)
qed

lemma low_digit_words:
  assumes "is_digit (hd low)"
  shows "low \<noteq> ''infinity''" "low \<noteq> ''+infinity''" "low \<noteq> ''-infinity''" "low \<noteq> ''epoch''"
  using assms by (auto simp: is_digit_def)

lemma parse_wall_text:
  assumes bd: "body \<noteq> []" "is_digit (hd body)" "is_digit (last body)"
    and p: "date_part body = Inr (ymd, b)" "time_part b = Inr (hms, b')"
      "offset_part ty b' = Inr (offset, [])"
  shows "parse_wall (body @ era_text bc) ty = wall_fields bc ymd hms offset"
proof -
  note e = era_roundtrip [OF bd, of bc]
  have "is_digit (hd (to_ascii_lowercase (body @ era_text bc)))" using e(3) bd by simp
  note low = low_digit_words [OF this]
  show ?thesis by (simp add: parse_wall_def e(1,2) low Let_def p)
qed

lemma parse_wall_render:
  assumes t: "I64_MIN < t" "t < I64_MAX"
    and offset: "offset \<in> {None, Some 0}"
  shows "parse_wall (render_styled t offset xsd) ty = Inr (Finite t offset)"
proof -
  obtain y mo d h mi s us where c: "civil_from_micros t = (y, mo, d, h, mi, s, us)"
    by (cases "civil_from_micros t") (rule that)
  note ok = civil_from_micros_ok [OF c]
  note v = valid_dateD [OF ok(1)]
  define Y where "Y = (if y \<le> 0 then 1 - y else y)"
  define z where "z = days_from_civil y mo d"
  define off where "off = (case offset of None \<Rightarrow> [] | Some utoff \<Rightarrow> render_offset xsd utoff)"
  define sep where "sep = (if xsd then CHR ''T'' else CHR '' '')"
  define body where "body = date_text Y mo d @ sep # time_text h mi s us @ off"
  have z: "\<bar>z\<bar> \<le> 106751992"
    unfolding z_def by (rule micros_bound [OF ok(10) t ok(8,9)]) (use ok(2-7) in linarith)+
  have Y: "1 \<le> Y" "Y \<le> 999999" "(if y \<le> 0 then 1 - Y else Y) = y"
    using year_estimate [OF ok(1) z_def [symmetric]] z by (auto simp: Y_def)
  have off: "off = [] \<or> off \<noteq> [] \<and> hd off = CHR ''+''" "no_digit_next off"
    "off \<noteq> [] \<Longrightarrow> is_digit (last off)"
    using offset utc_offset_ends [of xsd] by (auto simp: off_def)
  have op: "offset_part ty off = Inr (offset, [])"
  proof (cases offset)
    case None
    then show ?thesis by (simp add: off_def offset_part_def)
  next
    case (Some u)
    then show ?thesis using offset offset_part_utc [of ty xsd] by (simp add: off_def)
  qed
  have r: "render_styled t offset xsd = body @ era_text (y \<le> 0)"
  proof -
    have "t \<noteq> NEG_INFINITY" "t \<noteq> POS_INFINITY"
      using t by (simp_all add: NEG_INFINITY_def POS_INFINITY_def)
    from render_text [OF this c, of offset xsd] show ?thesis
      by (simp add: body_def Y_def off_def sep_def)
  qed
  have bd: "body \<noteq> []" "is_digit (hd body)" "is_digit (last body)"
    using off time_text_ends [OF ok(8,9)] by (auto simp: body_def date_text_ends)
  have dp: "date_part body = Inr ((Y, mo, d), sep # time_text h mi s us @ off)"
    unfolding body_def using v Y by (intro date_part_text) (auto simp: I64_MAX_def sep_def)
  have tp: "time_part (sep # time_text h mi s us @ off) = Inr ((h, mi, s, us), off)"
    by (rule time_part_text [OF ok(2-9) off(2)]) (use off(1) in \<open>auto simp: sep_def\<close>)
  show ?thesis
    unfolding r parse_wall_text [OF bd dp tp op]
    by (rule wall_fields_ok [OF ok(10) t ok(1-9) Y])
qed

section \<open>Rounding\<close>

text \<open>The reference: nearest multiple of the unit, ties away from the origin.\<close>

definition round_unit :: "nat \<Rightarrow> int" where
  "round_unit p = 10 ^ (MAX_TIMESTAMP_PRECISION - p)"

definition nearest_multiple :: "int \<Rightarrow> int \<Rightarrow> int \<Rightarrow> bool" where
  "nearest_multiple u t r \<longleftrightarrow>
     u dvd r \<and> 2 * \<bar>r - t\<bar> \<le> u \<and> (2 * \<bar>r - t\<bar> = u \<longrightarrow> \<bar>t\<bar> < \<bar>r\<bar>)"

lemma round_half_away:
  assumes u: "0 < u" "u = 2 * half" "0 \<le> t"
  shows "nearest_multiple u t ((t + half) div u * u)"
    "nearest_multiple u (- t) (- ((t + half) div u * u))"
proof -
  define r where "r = (t + half) div u * u"
  have "r + (t + half) mod u = t + half" by (simp add: r_def)
  moreover have "0 \<le> (t + half) mod u" "(t + half) mod u < u" using u by simp_all
  moreover have "0 \<le> r" using u by (auto simp: r_def div_int_pos_iff)
  ultimately have r: "r \<le> t + half" "t + half < r + u" "0 \<le> r" by linarith+
  have d: "u dvd r" by (simp add: r_def)
  show "nearest_multiple u t ((t + half) div u * u)"
    "nearest_multiple u (- t) (- ((t + half) div u * u))"
    unfolding r_def [symmetric] nearest_multiple_def using d r u(2,3) by auto
qed

lemma adjust_eq:
  assumes t: "I64_MIN < t" "t < I64_MAX"
  obtains r where "nearest_multiple (round_unit p) (t - PG_EPOCH_MICROS) r"
    "adjust_timestamp_for_typmod t p =
       (if I64_MIN < r + PG_EPOCH_MICROS \<and> r + PG_EPOCH_MICROS < I64_MAX
        then Inr (r + PG_EPOCH_MICROS) else Inl (field_overflow ''timestamp out of range''))"
proof (cases "p < MAX_TIMESTAMP_PRECISION")
  case False
  then show ?thesis
    using t by (intro that [of "t - PG_EPOCH_MICROS"])
      (auto simp: nearest_multiple_def round_unit_def adjust_timestamp_for_typmod_def)
next
  case True
  define u where "u = round_unit p"
  have u: "0 < u" "u = 2 * (u div 2)"
    using True by (auto simp: u_def round_unit_def)
  then have s: "u sdiv 2 = u div 2" by simp
  define x where "x = t - PG_EPOCH_MICROS"
  define r where "r = (if x \<ge> 0 then (x + u div 2) div u * u else - ((- x + u div 2) div u * u))"
  have "nearest_multiple u x r"
    using round_half_away [OF u, of x] round_half_away [OF u, of "- x"] by (auto simp: r_def)
  moreover have "(if x \<ge> 0 then (x + u div 2) sdiv u * u else - ((- x + u div 2) sdiv u * u)) = r"
    using u by (auto simp: r_def)
  then have "adjust_timestamp_for_typmod t p =
    (case i64_opt (r + PG_EPOCH_MICROS) of None \<Rightarrow> Inl (field_overflow ''timestamp out of range'')
     | Some m \<Rightarrow> (case finite_instant m of Inl _ \<Rightarrow> Inl (field_overflow ''timestamp out of range'')
         | Inr m \<Rightarrow> Inr m))"
    using True t unfolding adjust_timestamp_for_typmod_def round_unit_def [symmetric] u_def [symmetric]
      x_def [symmetric] Let_def s
    by (simp add: NEG_INFINITY_def POS_INFINITY_def)
  ultimately show ?thesis
    using that [of r] unfolding u_def x_def
    by (auto simp: i64_opt_def finite_instant_def NEG_INFINITY_def POS_INFINITY_def int_limits)
qed

section \<open>Properties\<close>

text \<open>
  C21. Every \<open>date\<close> value survives its text: rendering any day number of \<open>i32\<close>, the two
  infinities included, and parsing the result gives the same day number.
\<close>

theorem parse_date_render_date:
  "I32_MIN \<le> z \<Longrightarrow> z \<le> I32_MAX \<Longrightarrow> parse_date (render_date z) = Inr z"
  by (rule parse_render_date)

theorem parse_date_render_date_witness:
  "I32_MIN \<le> - 719529 \<and> parse_date (render_date (- 719529)) = Inr (- 719529)"
  using parse_date_render_date [of "- 719529"] by (simp add: int_limits)

text \<open>
  C33. Every instant survives its text: for each \<open>i64\<close> value, \<open>timestamp\<close> output in either
  style parses back to the value, and \<open>timestamptz\<close> output, which prints the UTC offset,
  parses back as that instant and never as a local reading.
\<close>

theorem parse_render_timestamp:
  assumes "I64_MIN \<le> t" "t \<le> I64_MAX"
  shows "parse_timestamp (render_timestamp t) = Inr t
    \<and> parse_timestamp (render_timestamp_xsd t) = Inr t
    \<and> parse_timestamptz_input (render_timestamptz t) = Inr (Instant t)"
proof (cases "I64_MIN < t \<and> t < I64_MAX")
  case True
  then have "finite_instant t = Inr t" "i64_opt t = Some t"
    by (auto simp: finite_instant_def NEG_INFINITY_def POS_INFINITY_def i64_opt_def)
  moreover have "i64_opt 0 = Some 0" by (simp add: i64_opt_def int_limits)
  ultimately show ?thesis using True
    by (simp add: parse_timestamp_def render_timestamp_def render_timestamp_xsd_def render_def
        parse_def parse_wall_render parse_timestamptz_input_def render_timestamptz_def
        apply_utc_offset_def)
next
  case False
  then consider "t = NEG_INFINITY" | "t = POS_INFINITY"
    using assms by (auto simp: NEG_INFINITY_def POS_INFINITY_def)
  then show ?thesis by cases (simp only:, code_simp)+
qed

theorem parse_render_timestamp_witness:
  "parse_timestamp (render_timestamp (- 1)) = Inr (- 1)
   \<and> parse_timestamptz_input (render_timestamptz (- 1)) = Inr (Instant (- 1))"
  using parse_render_timestamp [of "- 1"] by (simp add: int_limits)

text \<open>
  C22. Rounding to a \<open>timestamp(p)\<close> precision: the result is a multiple of the precision's
  unit counted from 2000-01-01, at most half a unit away, and on a tie the one farther from
  that epoch. The rounding fails, with a datetime overflow, only for an instant within half a
  unit of the limits of the type.
\<close>

theorem adjust_typmod_nearest:
  assumes "I64_MIN < t" "t < I64_MAX"
  shows "case adjust_timestamp_for_typmod t p of
      Inr r \<Rightarrow> nearest_multiple (round_unit p) (t - PG_EPOCH_MICROS) (r - PG_EPOCH_MICROS)
        \<and> I64_MIN < r \<and> r < I64_MAX
    | Inl e \<Rightarrow> fst e = DatetimeFieldOverflow
        \<and> (2 * (I64_MAX - t) \<le> round_unit p \<or> 2 * (t - I64_MIN) \<le> round_unit p)"
proof -
  let ?in = "\<lambda>r. I64_MIN < r + PG_EPOCH_MICROS \<and> r + PG_EPOCH_MICROS < I64_MAX"
  obtain r where n: "nearest_multiple (round_unit p) (t - PG_EPOCH_MICROS) r"
    and a: "adjust_timestamp_for_typmod t p =
       (if ?in r then Inr (r + PG_EPOCH_MICROS)
        else Inl (field_overflow ''timestamp out of range''))"
    by (rule adjust_eq [OF assms])
  show ?thesis
  proof (cases "?in r")
    case True
    then show ?thesis using n a by simp
  next
    case False
    have "2 * \<bar>r - (t - PG_EPOCH_MICROS)\<bar> \<le> round_unit p"
      using n by (simp add: nearest_multiple_def)
    then have "2 * (r - (t - PG_EPOCH_MICROS)) \<le> round_unit p
        \<and> 2 * (t - PG_EPOCH_MICROS - r) \<le> round_unit p"
      by (simp add: abs_if split: if_splits)
    then have "2 * (I64_MAX - t) \<le> round_unit p \<or> 2 * (t - I64_MIN) \<le> round_unit p"
      using False by auto
    then show ?thesis using a False by (auto simp: field_overflow_def)
  qed
qed

theorem adjust_typmod_nearest_witness:
  "adjust_timestamp_for_typmod 486475200500000 0 = Inr 486475200000000
   \<and> nearest_multiple (round_unit 0) (486475200500000 - PG_EPOCH_MICROS)
       (486475200000000 - PG_EPOCH_MICROS)"
proof -
  have a: "adjust_timestamp_for_typmod 486475200500000 0 = Inr 486475200000000" by code_simp
  show ?thesis using adjust_typmod_nearest [of 486475200500000 0] by (simp add: a int_limits)
qed
end
