(* ===== verification/Pmap.thy ===== *)
theory Pmap
  imports Prelude
begin

text \<open>
  The copy-on-write B+tree of \<open>impl/rust/src/pmap.rs\<close>: the node type, the split rules, point
  lookup, insert and delete. A row is a type parameter \<open>'r\<close>. \<open>Arc::get_mut\<close> is an oracle
  \<open>own\<close> on the path of a node from the root: the values say nothing about sharing, so every
  theorem holds for all oracles. A mutation returns the node as it is left behind (also when it
  fails) with the outcome; \<open>None\<close> is a panic (\<open>unreachable!\<close>, \<open>expect\<close>, an index out of range).
  The leaf source is a parameter: what a page faults to, or its error. A packed leaf is what
  its accessors return, with a row that may fail to decode. Sizes are natural numbers: page
  payloads are far below \<open>usize\<close>.
\<close>

section \<open>Page capacity and leaf sizes\<close>

record cap =
  cap_c :: nat
  cap_tag :: nat

definition ptr :: "cap \<Rightarrow> nat" where
  "ptr cp = 4 + cap_tag cp"

record leaf_shape =
  sh_fixed :: nat
  sh_var :: nat

definition shape_k :: "leaf_shape \<Rightarrow> nat" where
  "shape_k sh = sh_fixed sh + sh_var sh"

definition div_ceil :: "nat \<Rightarrow> nat \<Rightarrow> nat" where
  "div_ceil n d = (n + d - 1) div d"

definition leaf_overhead :: "nat \<Rightarrow> leaf_shape \<Rightarrow> nat" where
  "leaf_overhead n sh = 4 * n + 4 * (shape_k sh + 1) + sh_fixed sh * (1 + div_ceil n 8)
     + sh_var sh * (1 + 4 * n)"

definition RECORD_MAX_RESERVE :: nat where "RECORD_MAX_RESERVE = 12"

definition record_max :: "nat \<Rightarrow> nat \<Rightarrow> nat" where
  "record_max cp k = (cp - (RECORD_MAX_RESERVE + 16 * k)) div 2"

section \<open>Nodes\<close>

type_synonym key = bytes

record page_ref =
  pr_page :: nat
  pr_tag :: bytes

definition NONE :: page_ref where
  "NONE = \<lparr> pr_page = 0, pr_tag = replicate 16 0 \<rparr>"

definition dirty :: "page_ref \<Rightarrow> bool" where
  "dirty p \<longleftrightarrow> pr_page p = 0"

datatype 'r packed_leaf =
  PackedLeaf (pk_keys: "key list") (pk_rows: "'r result list") (pk_weights: "nat list")

datatype 'r leaf_form =
    Decoded "key list" "'r list" "nat list"
  | Packed "'r packed_leaf"

datatype 'r node =
    Leaf page_ref "'r leaf_form"
  | Interior page_ref "key list" "'r child list"
and 'r child =
    Resident "'r node"
  | OnDisk page_ref

type_synonym 'r leaf_source = "(page_ref \<Rightarrow> 'r packed_leaf result) option"

definition new_leaf :: "key list \<Rightarrow> 'r list \<Rightarrow> nat list \<Rightarrow> 'r node" where
  "new_leaf ks vs ws = Leaf NONE (Decoded ks vs ws)"

definition new_interior :: "key list \<Rightarrow> 'r child list \<Rightarrow> 'r node" where
  "new_interior ks cs = Interior NONE ks cs"

definition leaf_loaded_packed :: "'r packed_leaf \<Rightarrow> page_ref \<Rightarrow> 'r node" where
  "leaf_loaded_packed pl p = Leaf p (Packed pl)"

fun page_ref_of :: "'r node \<Rightarrow> page_ref" where
  "page_ref_of (Leaf p _) = p"
| "page_ref_of (Interior p _ _) = p"

fun is_leaf :: "'r node \<Rightarrow> bool" where
  "is_leaf (Leaf _ _) = True"
| "is_leaf (Interior _ _ _) = False"

text \<open>The accessor seam of a leaf: keys, weights, one row, all parts.\<close>

fun leaf_keys :: "'r leaf_form \<Rightarrow> key list" where
  "leaf_keys (Decoded ks vs ws) = ks"
| "leaf_keys (Packed pl) = pk_keys pl"

fun leaf_weights :: "'r leaf_form \<Rightarrow> nat list" where
  "leaf_weights (Decoded ks vs ws) = ws"
| "leaf_weights (Packed pl) = pk_weights pl"

fun leaf_row_at :: "'r leaf_form \<Rightarrow> nat \<Rightarrow> 'r io" where
  "leaf_row_at (Decoded ks vs ws) i = map_option Inr (nth_opt vs i)"
| "leaf_row_at (Packed pl) i = nth_opt (pk_rows pl) i"

fun res_all :: "('e + 'a) list \<Rightarrow> 'e + 'a list" where
  "res_all [] = Inr []"
| "res_all (r # rs) = res_bind r (\<lambda>a. res_bind (res_all rs) (\<lambda>as. Inr (a # as)))"

fun decoded_parts :: "'r leaf_form \<Rightarrow> (key list \<times> 'r list \<times> nat list) result" where
  "decoded_parts (Decoded ks vs ws) = Inr (ks, vs, ws)"
| "decoded_parts (Packed pl) =
     res_bind (res_all (pk_rows pl)) (\<lambda>vs. Inr (pk_keys pl, vs, pk_weights pl))"

definition leaf_payload :: "nat list \<Rightarrow> leaf_shape \<Rightarrow> nat" where
  "leaf_payload ws sh = sum_list ws + leaf_overhead (length ws) sh"

definition interior_payload :: "cap \<Rightarrow> key list \<Rightarrow> nat" where
  "interior_payload cp ks = ptr cp * (length ks + 1) + 4 * length ks + sum_list (map length ks)"

fun node_payload :: "cap \<Rightarrow> leaf_shape \<Rightarrow> 'r node \<Rightarrow> nat" where
  "node_payload cp sh (Leaf _ lf) = leaf_payload (leaf_weights lf) sh"
| "node_payload cp sh (Interior _ ks _) = interior_payload cp ks"

text \<open>
  The binary search of a leaf: \<open>Inr i\<close> when the key sits at \<open>i\<close>, \<open>Inl i\<close> for its slot. Every
  probe is below \<open>hi\<close>, so it is in range.
\<close>

function search_loop :: "key list \<Rightarrow> key \<Rightarrow> nat \<Rightarrow> nat \<Rightarrow> nat + nat" where
  "search_loop ks key lo hi =
     (if lo < hi then
        let mid = (lo + hi) div 2 in
        if ks ! mid < key then search_loop ks key (mid + 1) hi
        else if key < ks ! mid then search_loop ks key lo mid
        else Inr mid
      else Inl lo)"
  by auto
termination by (relation "measure (\<lambda>(_, _, lo, hi). hi - lo)") auto

declare search_loop.simps [simp del]

definition search :: "key list \<Rightarrow> key \<Rightarrow> nat + nat" where
  "search ks key = search_loop ks key 0 (length ks)"

definition child_slot :: "key list \<Rightarrow> key \<Rightarrow> nat" where
  "child_slot ks key = partition_point (\<lambda>k. k \<le> key) ks"

definition load_leaf :: "'r leaf_source \<Rightarrow> page_ref \<Rightarrow> 'r node io" where
  "load_leaf src p =
     (case src of None \<Rightarrow> None
      | Some s \<Rightarrow> Some (res_bind (s p) (\<lambda>pl. Inr (leaf_loaded_packed pl p))))"

fun resolve :: "'r leaf_source \<Rightarrow> 'r child \<Rightarrow> 'r node io" where
  "resolve src (Resident n) = Some (Inr n)"
| "resolve src (OnDisk p) = load_leaf src p"

definition child :: "'r child list \<Rightarrow> nat \<Rightarrow> 'r leaf_source \<Rightarrow> 'r node io" where
  "child cs i src = (case nth_opt cs i of None \<Rightarrow> None | Some c \<Rightarrow> resolve src c)"

section \<open>Splitting\<close>

datatype 'r ins = Kept | Whole "'r node" | Split "'r node" key "'r node"

text \<open>The last element of a list up to which the payload fits: the loops with \<open>break\<close>.\<close>

fun scan_fit :: "(nat \<Rightarrow> nat) \<Rightarrow> nat \<Rightarrow> nat option \<Rightarrow> nat list \<Rightarrow> nat option" where
  "scan_fit f cap_bytes best [] = best"
| "scan_fit f cap_bytes best (m # ms) =
     (if f m \<le> cap_bytes then scan_fit f cap_bytes (Some m) ms else best)"

definition split_point ::
  "nat \<Rightarrow> nat \<Rightarrow> nat \<Rightarrow> nat \<Rightarrow> bool \<Rightarrow> (nat \<Rightarrow> nat) \<Rightarrow> (nat \<Rightarrow> nat) \<Rightarrow> nat option" where
  "split_point m_lo m_hi payload cap_bytes right_edge leftpayload rightpayload =
     (case scan_fit leftpayload cap_bytes None [m_lo..<Suc m_hi] of
        None \<Rightarrow> None
      | Some m_max \<Rightarrow>
        (case scan_fit rightpayload cap_bytes None (rev [m_lo..<Suc m_hi]) of
           None \<Rightarrow> None
         | Some m_min \<Rightarrow>
           if m_min > m_max then None
           else if right_edge then Some m_max
           else
             let m_balanced =
               (case find (\<lambda>m. 2 * leftpayload m \<ge> payload) [m_lo..<Suc m_hi] of
                  None \<Rightarrow> m_max | Some m \<Rightarrow> m)
             in Some (max (min m_balanced m_max) m_min)))"

definition leaf_split_point ::
  "nat list \<Rightarrow> cap \<Rightarrow> leaf_shape \<Rightarrow> nat option \<Rightarrow> nat option" where
  "leaf_split_point ws cp sh edited =
     (let n = length ws; payload = sum_list ws + leaf_overhead n sh in
      if payload \<le> cap_c cp \<or> n < 2 then None
      else
        let total = sum_list ws;
            leftpayload = (\<lambda>m. sum_list (take m ws) + leaf_overhead m sh);
            rightpayload = (\<lambda>m. (total - sum_list (take m ws)) + leaf_overhead (n - m) sh);
            right_edge = (edited = Some (n - 1))
        in split_point 1 (n - 1) payload (cap_c cp) right_edge leftpayload rightpayload)"

definition build_leaf ::
  "key list \<Rightarrow> 'r list \<Rightarrow> nat list \<Rightarrow> cap \<Rightarrow> leaf_shape \<Rightarrow> nat option \<Rightarrow> 'r ins" where
  "build_leaf ks vs ws cp sh edited =
     (case leaf_split_point ws cp sh edited of
        None \<Rightarrow> Whole (new_leaf ks vs ws)
      | Some m \<Rightarrow>
          Split (new_leaf (take m ks) (take m vs) (take m ws)) (hd (drop m ks))
            (new_leaf (drop m ks) (drop m vs) (drop m ws)))"

definition build_interior ::
  "key list \<Rightarrow> 'r child list \<Rightarrow> cap \<Rightarrow> nat option \<Rightarrow> 'r ins option" where
  "build_interior ks cs cp edited =
     (let n = length ks; payload = interior_payload cp ks in
      if payload \<le> cap_c cp \<or> n < 2 then Some (Whole (new_interior ks cs))
      else
        let m = (if n = 2 then Some 1
           else
             let total = sum_list (map length ks); p = ptr cp;
                 prefix = (\<lambda>m. sum_list (map length (take m ks)));
                 leftpayload = (\<lambda>m. (p + 4) * m + p + prefix m);
                 rightpayload = (\<lambda>m. (p + 4) * (n - 1 - m) + p + (total - prefix (m + 1)));
                 right_edge = (edited = Some (n - 1))
             in split_point 1 (n - 2) payload (cap_c cp) right_edge leftpayload rightpayload)
        in map_option (\<lambda>m.
             Split (new_interior (take m ks) (take (m + 1) cs)) (ks ! m)
               (new_interior (drop (m + 1) ks) (drop (m + 1) cs))) m)"

section \<open>Lookup\<close>

text \<open>
  A node's position is the path of child indices from the root, innermost first. A faulted
  leaf has no children, so the descent below it is the leaf case.
\<close>

lemma resident_child_smaller [termination_simp]:
  "nth_opt cs i = Some (Resident n) \<Longrightarrow> size n < Suc (size_list size cs)"
  "Resident n \<in> set cs \<Longrightarrow> size n < Suc (size_list size cs)"
proof -
  show *: "Resident n \<in> set cs \<Longrightarrow> size n < Suc (size_list size cs)" for n
    using size_list_estimation' [of "Resident n" cs "size n" size] by fastforce
  show "nth_opt cs i = Some (Resident n) \<Longrightarrow> size n < Suc (size_list size cs)"
    by (rule *) (metis nth_mem nth_opt_Some_iff)
qed

definition leaf_get :: "'r leaf_form \<Rightarrow> key \<Rightarrow> nat \<Rightarrow> ('r option \<times> nat \<times> nat) io" where
  "leaf_get lf key nodes =
     (case search (leaf_keys lf) key of
        Inr i \<Rightarrow> io_bind (leaf_row_at lf i) (\<lambda>r. Some (Inr (Some r, nodes, 1)))
      | Inl _ \<Rightarrow> Some (Inr (None, nodes, 0)))"

fun get_loop :: "'r leaf_source \<Rightarrow> key \<Rightarrow> nat \<Rightarrow> 'r node \<Rightarrow> ('r option \<times> nat \<times> nat) io" where
  "get_loop src key nodes (Leaf p lf) = leaf_get lf key nodes"
| "get_loop src key nodes (Interior p ks cs) =
     (case nth_opt cs (child_slot ks key) of
        None \<Rightarrow> None
      | Some (Resident n) \<Rightarrow> get_loop src key (nodes + 1) n
      | Some (OnDisk p) \<Rightarrow>
          io_bind (load_leaf src p) (\<lambda>n. case n of
            Leaf _ lf \<Rightarrow> leaf_get lf key (nodes + 1) | Interior _ _ _ \<Rightarrow> None))"

record 'r pmap =
  root :: "'r node option"
  pm_count :: "int option"

definition pmap_new :: "'r pmap" where
  "pmap_new = \<lparr> root = None, pm_count = Some 0 \<rparr>"

definition is_empty :: "'r pmap \<Rightarrow> bool" where
  "is_empty m \<longleftrightarrow> root m = None"

definition get_counted :: "'r pmap \<Rightarrow> key \<Rightarrow> 'r leaf_source \<Rightarrow> ('r option \<times> nat \<times> nat) io" where
  "get_counted m key src =
     (case root m of None \<Rightarrow> Some (Inr (None, 0, 0)) | Some n \<Rightarrow> get_loop src key 1 n)"

definition pmap_get :: "'r pmap \<Rightarrow> key \<Rightarrow> 'r leaf_source \<Rightarrow> 'r option io" where
  "pmap_get m key src = io_bind (get_counted m key src) (\<lambda>(r, _, _). Some (Inr r))"

section \<open>Insert\<close>

text \<open>
  The edit of a leaf's vectors at the place \<open>search\<close> found: the position, the row replaced,
  the new vectors.
\<close>

definition edit_leaf :: "nat + nat \<Rightarrow> key list \<Rightarrow> 'r list \<Rightarrow> nat list \<Rightarrow> key \<Rightarrow> 'r \<Rightarrow> nat
    \<Rightarrow> (nat \<times> 'r option \<times> key list \<times> 'r list \<times> nat list) option" where
  "edit_leaf found ks vs ws key val w =
     (case found of
        Inr i \<Rightarrow> (if i < length vs \<and> i < length ws
                  then Some (i, Some (vs ! i), ks, vs[i := val], ws[i := w]) else None)
      | Inl i \<Rightarrow> (if i \<le> length ks \<and> i \<le> length vs \<and> i \<le> length ws
                  then Some (i, None, insert_at i key ks, insert_at i val vs, insert_at i w ws)
                  else None))"

type_synonym 'r ins_outcome = "('r node \<times> ('r option \<times> 'r ins) result) option"

definition leaf_insert :: "bool \<Rightarrow> page_ref \<Rightarrow> 'r leaf_form \<Rightarrow> key \<Rightarrow> 'r \<Rightarrow> nat
    \<Rightarrow> cap \<Rightarrow> leaf_shape \<Rightarrow> 'r ins_outcome" where
  "leaf_insert unique p lf key val w cp sh =
     (let found = search (leaf_keys lf) key in
      if dirty p \<and> unique then
        (case lf of
           Packed _ \<Rightarrow> None
         | Decoded ks vs ws \<Rightarrow>
             (case edit_leaf found ks vs ws key val w of
                None \<Rightarrow> None
              | Some (i, old, ks, vs, ws) \<Rightarrow>
                  if leaf_payload ws sh \<le> cap_c cp \<or> length ks < 2
                  then Some (Leaf p (Decoded ks vs ws), Inr (old, Kept))
                  else Some (Leaf p (Decoded [] [] []),
                         Inr (old, build_leaf ks vs ws cp sh (Some i)))))
      else
        (case decoded_parts lf of
           Inl e \<Rightarrow> Some (Leaf p lf, Inl e)
         | Inr (ks, vs, ws) \<Rightarrow>
             (case edit_leaf found ks vs ws key val w of
                None \<Rightarrow> None
              | Some (i, old, ks, vs, ws) \<Rightarrow>
                  Some (Leaf p lf, Inr (old, build_leaf ks vs ws cp sh (Some i))))))"

text \<open>What the parent does with the outcome for child \<open>i\<close>: edited in place, or path-copied.\<close>

definition absorb_in_place ::
  "page_ref \<Rightarrow> key list \<Rightarrow> 'r child list \<Rightarrow> nat \<Rightarrow> 'r option \<times> 'r ins \<Rightarrow> cap \<Rightarrow> 'r ins_outcome" where
  "absorb_in_place p ks cs i sub cp =
     (case sub of
        (old, Kept) \<Rightarrow> Some (Interior p ks cs, Inr (old, Kept))
      | (old, Whole c) \<Rightarrow> Some (Interior p ks (cs[i := Resident c]), Inr (old, Kept))
      | (old, Split left sep right) \<Rightarrow>
          (let ks = insert_at i sep ks;
               cs = insert_at (i + 1) (Resident right) (cs[i := Resident left])
           in if interior_payload cp ks \<le> cap_c cp \<or> length ks < 2
              then Some (Interior p ks cs, Inr (old, Kept))
              else map_option (\<lambda>ins. (Interior p [] [], Inr (old, ins)))
                     (build_interior ks cs cp (Some i))))"

definition absorb_copy ::
  "page_ref \<Rightarrow> key list \<Rightarrow> 'r child list \<Rightarrow> nat \<Rightarrow> 'r node \<times> 'r option \<times> 'r ins \<Rightarrow> cap
     \<Rightarrow> 'r ins_outcome" where
  "absorb_copy p ks cs i sub cp =
     (case sub of
        (c, old, Kept) \<Rightarrow>
          Some (Interior p ks cs, Inr (old, Whole (new_interior ks (cs[i := Resident c]))))
      | (_, old, Whole c) \<Rightarrow>
          Some (Interior p ks cs, Inr (old, Whole (new_interior ks (cs[i := Resident c]))))
      | (_, old, Split left sep right) \<Rightarrow>
          map_option (\<lambda>ins. (Interior p ks cs, Inr (old, ins)))
            (build_interior (insert_at i sep ks)
               (insert_at (i + 1) (Resident right) (cs[i := Resident left])) cp (Some i)))"

text \<open>
  Below a path-copied node nothing is uniquely owned: the local clone of the child's \<open>Arc\<close>
  is a second reference.
\<close>

fun node_insert :: "(nat list \<Rightarrow> bool) \<Rightarrow> nat list \<Rightarrow> 'r node \<Rightarrow> key \<Rightarrow> 'r \<Rightarrow> nat \<Rightarrow> 'r leaf_source
    \<Rightarrow> cap \<Rightarrow> leaf_shape \<Rightarrow> 'r ins_outcome" where
  "node_insert own path (Leaf p lf) key val w src cp sh =
     leaf_insert (own path) p lf key val w cp sh"
| "node_insert own path (Interior p ks cs) key val w src cp sh =
     (let i = child_slot ks key in
      case nth_opt cs i of
        None \<Rightarrow> None
      | Some (Resident c) \<Rightarrow>
          if dirty p \<and> own path then
            (case node_insert own (i # path) c key val w src cp sh of
               None \<Rightarrow> None
             | Some (c, Inl e) \<Rightarrow> Some (Interior p ks (cs[i := Resident c]), Inl e)
             | Some (c, Inr sub) \<Rightarrow> absorb_in_place p ks (cs[i := Resident c]) i sub cp)
          else
            (case node_insert (\<lambda>_. False) (i # path) c key val w src cp sh of
               None \<Rightarrow> None
             | Some (c, Inl e) \<Rightarrow> Some (Interior p ks cs, Inl e)
             | Some (c, Inr sub) \<Rightarrow> absorb_copy p ks cs i (c, sub) cp)
      | Some (OnDisk q) \<Rightarrow>
          (case load_leaf src q of
             None \<Rightarrow> None
           | Some (Inl e) \<Rightarrow> Some (Interior p ks cs, Inl e)
           | Some (Inr (Interior _ _ _)) \<Rightarrow> None
           | Some (Inr (Leaf q lf)) \<Rightarrow>
             (case leaf_insert (own (i # path)) q lf key val w cp sh of
                None \<Rightarrow> None
              | Some (c, Inl e) \<Rightarrow> Some (Interior p ks cs, Inl e)
              | Some (c, Inr (old, ins)) \<Rightarrow>
                  if dirty p \<and> own path
                  then absorb_in_place p ks cs i (old, case ins of Kept \<Rightarrow> Whole c | _ \<Rightarrow> ins) cp
                  else absorb_copy p ks cs i (c, old, ins) cp)))"

definition count_add :: "int option \<Rightarrow> int option option" where
  "count_add n = (case n of None \<Rightarrow> Some None
     | Some x \<Rightarrow> if x + 1 < 2 ^ 63 then Some (Some (x + 1)) else None)"

definition count_sub :: "int option \<Rightarrow> int option option" where
  "count_sub n = (case n of None \<Rightarrow> Some None
     | Some x \<Rightarrow> if - (2 ^ 63) \<le> x - 1 then Some (Some (x - 1)) else None)"

definition pmap_insert :: "(nat list \<Rightarrow> bool) \<Rightarrow> 'r pmap \<Rightarrow> key \<Rightarrow> 'r \<Rightarrow> nat \<Rightarrow> cap \<Rightarrow> leaf_shape
    \<Rightarrow> 'r leaf_source \<Rightarrow> ('r pmap \<times> 'r option result) option" where
  "pmap_insert own m key val w cp sh src =
     (let counted = (\<lambda>m old. case old of
              None \<Rightarrow> map_option (\<lambda>n. (m\<lparr> pm_count := n \<rparr>, Inr None)) (count_add (pm_count m))
            | Some _ \<Rightarrow> Some (m, Inr old))
      in case root m of
        None \<Rightarrow> counted (m\<lparr> root := Some (new_leaf [key] [val] [w]) \<rparr>) None
      | Some r \<Rightarrow>
          (case node_insert own [] r key val w src cp sh of
             None \<Rightarrow> None
           | Some (r, Inl e) \<Rightarrow> Some (m\<lparr> root := Some r \<rparr>, Inl e)
           | Some (r, Inr (old, Kept)) \<Rightarrow> counted (m\<lparr> root := Some r \<rparr>) old
           | Some (_, Inr (old, Whole n)) \<Rightarrow> counted (m\<lparr> root := Some n \<rparr>) old
           | Some (_, Inr (old, Split left sep right)) \<Rightarrow>
               counted (m\<lparr> root := Some (new_interior [sep] [Resident left, Resident right]) \<rparr>) old))"

section \<open>Remove\<close>

definition underfull :: "cap \<Rightarrow> leaf_shape \<Rightarrow> 'r node \<Rightarrow> bool" where
  "underfull cp sh n \<longleftrightarrow> node_payload cp sh n < cap_c cp div 2"

datatype 'r LeafParts = Take | Copy "key list \<times> 'r list \<times> nat list"

text \<open>
  \<open>leaf_parts\<close> and \<open>into_parts\<close> of a merge operand: its slot in the parent, whether the slot
  is uniquely owned, and the operand itself (the resident leaf or the faulted one).
\<close>

definition leaf_parts :: "bool \<Rightarrow> 'r child \<Rightarrow> 'r leaf_form \<Rightarrow> 'r LeafParts result" where
  "leaf_parts unique slot lf =
     (case slot of
        Resident n \<Rightarrow> if dirty (page_ref_of n) \<and> unique then Inr Take
                      else res_bind (decoded_parts lf) (\<lambda>parts. Inr (Copy parts))
      | OnDisk _ \<Rightarrow> res_bind (decoded_parts lf) (\<lambda>parts. Inr (Copy parts)))"

definition into_parts :: "'r leaf_form \<Rightarrow> 'r LeafParts \<Rightarrow> key list \<times> 'r list \<times> nat list" where
  "into_parts lf parts =
     (case parts of
        Copy p \<Rightarrow> p
      | Take \<Rightarrow> (case lf of Decoded ks vs ws \<Rightarrow> (ks, vs, ws) | Packed _ \<Rightarrow> ([], [], [])))"

type_synonym 'r parent = "key list \<times> 'r child list"

definition parent_with :: "cap \<Rightarrow> key list \<Rightarrow> nat \<Rightarrow> nat \<Rightarrow> nat" where
  "parent_with cp ks j sep_len = interior_payload cp ks - length (ks ! j) + sep_len"

text \<open>The pre-check of a leaf merge: abandon when the new separator would overflow the parent.\<close>

definition leaf_merge_abandoned ::
  "cap \<Rightarrow> leaf_shape \<Rightarrow> key list \<Rightarrow> nat \<Rightarrow> 'r leaf_form \<Rightarrow> 'r leaf_form \<Rightarrow> bool" where
  "leaf_merge_abandoned cp sh ks j lf rf =
     (case leaf_split_point (leaf_weights lf @ leaf_weights rf) cp sh None of
        None \<Rightarrow> False
      | Some m \<Rightarrow>
          let sep_len = (if m < length (leaf_keys lf) then length (leaf_keys lf ! m)
                         else length (leaf_keys rf ! (m - length (leaf_keys lf))))
          in parent_with cp ks j sep_len > cap_c cp)"

definition place_merged :: "key list \<Rightarrow> 'r child list \<Rightarrow> nat \<Rightarrow> 'r ins \<Rightarrow> 'r parent option" where
  "place_merged ks cs j merged =
     (case merged of
        Kept \<Rightarrow> None
      | Whole m \<Rightarrow> Some (remove_at j ks, remove_at (j + 1) (cs[j := Resident m]))
      | Split left sep right \<Rightarrow>
          Some (ks[j := sep], cs[j := Resident left, j + 1 := Resident right]))"

definition merge_leaves :: "(nat list \<Rightarrow> bool) \<Rightarrow> nat list \<Rightarrow> key list \<Rightarrow> 'r child list \<Rightarrow> nat
    \<Rightarrow> 'r leaf_form \<Rightarrow> 'r leaf_form \<Rightarrow> cap \<Rightarrow> leaf_shape \<Rightarrow> 'r parent io" where
  "merge_leaves tk path ks cs j lf rf cp sh =
     (if leaf_merge_abandoned cp sh ks j lf rf then Some (Inr (ks, cs))
      else
        case leaf_parts (tk (j # path)) (cs ! j) lf of
          Inl e \<Rightarrow> Some (Inl e)
        | Inr lparts \<Rightarrow>
          (case leaf_parts (tk (Suc j # path)) (cs ! Suc j) rf of
             Inl e \<Rightarrow> Some (Inl e)
           | Inr rparts \<Rightarrow>
             (case (into_parts lf lparts, into_parts rf rparts) of
                ((mkeys, mvals, mweights), (rkeys, rvals, rweights)) \<Rightarrow>
                  map_option Inr (place_merged ks cs j
                    (build_leaf (mkeys @ rkeys) (mvals @ rvals) (mweights @ rweights) cp sh None)))))"

definition merge_interiors :: "key list \<Rightarrow> 'r child list \<Rightarrow> nat
    \<Rightarrow> 'r parent \<Rightarrow> 'r parent \<Rightarrow> cap \<Rightarrow> 'r parent io" where
  "merge_interiors ks cs j left right cp =
     (case (left, right) of ((lks, lcs), (rks, rcs)) \<Rightarrow>
        (case build_interior (lks @ ks ! j # rks) (lcs @ rcs) cp None of
           None \<Rightarrow> Some (Inr (ks, cs))
         | Some ins \<Rightarrow>
             if (case ins of Split _ sep _ \<Rightarrow> parent_with cp ks j (length sep) > cap_c cp
                   | _ \<Rightarrow> False)
             then Some (Inr (ks, cs))
             else map_option Inr (place_merged ks cs j ins)))"

definition merge_at :: "(nat list \<Rightarrow> bool) \<Rightarrow> nat list \<Rightarrow> key list \<Rightarrow> 'r child list \<Rightarrow> nat
    \<Rightarrow> 'r leaf_source \<Rightarrow> cap \<Rightarrow> leaf_shape \<Rightarrow> 'r parent io" where
  "merge_at tk path ks cs j src cp sh =
     io_bind (child cs j src) (\<lambda>left.
     io_bind (child cs (j + 1) src) (\<lambda>right.
     case (left, right) of
       (Leaf _ lf, Leaf _ rf) \<Rightarrow> merge_leaves tk path ks cs j lf rf cp sh
     | (Interior _ lks lcs, Interior _ rks rcs) \<Rightarrow>
         merge_interiors ks cs j (lks, lcs) (rks, rcs) cp
     | _ \<Rightarrow> None))"

definition rebalance_child :: "(nat list \<Rightarrow> bool) \<Rightarrow> nat list \<Rightarrow> key list \<Rightarrow> 'r child list \<Rightarrow> nat
    \<Rightarrow> 'r leaf_source \<Rightarrow> cap \<Rightarrow> leaf_shape \<Rightarrow> 'r parent io" where
  "rebalance_child tk path ks cs i src cp sh =
     (case nth_opt cs i of
        Some (Resident c) \<Rightarrow>
          if \<not> underfull cp sh c then Some (Inr (ks, cs))
          else if length cs < 2 then Some (Inr (ks, cs))
          else merge_at tk path ks cs (if i + 1 < length cs then i else i - 1) src cp sh
      | _ \<Rightarrow> None)"

type_synonym 'r rem_outcome = "('r node \<times> 'r option result) option"

definition leaf_remove :: "bool \<Rightarrow> page_ref \<Rightarrow> 'r leaf_form \<Rightarrow> key \<Rightarrow> 'r rem_outcome" where
  "leaf_remove unique p lf key =
     (case search (leaf_keys lf) key of
        Inl _ \<Rightarrow> Some (Leaf p lf, Inr None)
      | Inr i \<Rightarrow>
          if dirty p \<and> unique then
            (case lf of
               Packed _ \<Rightarrow> None
             | Decoded ks vs ws \<Rightarrow>
                 if i < length vs \<and> i < length ws
                 then Some (Leaf p (Decoded (remove_at i ks) (remove_at i vs) (remove_at i ws)),
                        Inr (Some (vs ! i)))
                 else None)
          else
            (case decoded_parts lf of
               Inl e \<Rightarrow> Some (Leaf p lf, Inl e)
             | Inr (ks, vs, ws) \<Rightarrow>
                 if i < length vs \<and> i < length ws
                 then Some (new_leaf (remove_at i ks) (remove_at i vs) (remove_at i ws),
                        Inr (Some (vs ! i)))
                 else None))"

text \<open>
  After the child's removal the in-place parent is edited by \<open>rebalance_child\<close>, which changes
  nothing when it fails; the child itself has already been replaced then. The path-copied
  parent is a fresh node that is dropped when the rebalance fails.
\<close>

definition rebalance_in_place :: "(nat list \<Rightarrow> bool) \<Rightarrow> nat list \<Rightarrow> page_ref \<Rightarrow> key list
    \<Rightarrow> 'r child list \<Rightarrow> nat \<Rightarrow> 'r \<Rightarrow> 'r leaf_source \<Rightarrow> cap \<Rightarrow> leaf_shape \<Rightarrow> 'r rem_outcome" where
  "rebalance_in_place tk path p ks cs i removed src cp sh =
     (case rebalance_child tk path ks cs i src cp sh of
        None \<Rightarrow> None
      | Some (Inl e) \<Rightarrow> Some (Interior p ks cs, Inl e)
      | Some (Inr (ks, cs)) \<Rightarrow> Some (Interior p ks cs, Inr (Some removed)))"

definition rebalance_copy :: "(nat list \<Rightarrow> bool) \<Rightarrow> nat list \<Rightarrow> page_ref \<Rightarrow> key list
    \<Rightarrow> 'r child list \<Rightarrow> nat \<Rightarrow> 'r node \<Rightarrow> 'r \<Rightarrow> 'r leaf_source \<Rightarrow> cap \<Rightarrow> leaf_shape
    \<Rightarrow> 'r rem_outcome" where
  "rebalance_copy tk path p ks cs i c removed src cp sh =
     (case rebalance_child tk path ks (cs[i := Resident c]) i src cp sh of
        None \<Rightarrow> None
      | Some (Inl e) \<Rightarrow> Some (Interior p ks cs, Inl e)
      | Some (Inr (ks, cs)) \<Rightarrow> Some (new_interior ks cs, Inr (Some removed)))"

text \<open>
  A second oracle \<open>tk\<close> says which merge operands are uniquely owned: also below a path-copied
  node the fresh parent holds the only reference to the child just rebuilt.
\<close>

fun node_remove :: "(nat list \<Rightarrow> bool) \<Rightarrow> (nat list \<Rightarrow> bool) \<Rightarrow> nat list \<Rightarrow> 'r node \<Rightarrow> key \<Rightarrow> 'r leaf_source
    \<Rightarrow> cap \<Rightarrow> leaf_shape \<Rightarrow> 'r rem_outcome" where
  "node_remove own tk path (Leaf p lf) key src cp sh = leaf_remove (own path) p lf key"
| "node_remove own tk path (Interior p ks cs) key src cp sh =
     (let i = child_slot ks key in
      case nth_opt cs i of
        None \<Rightarrow> None
      | Some (Resident c) \<Rightarrow>
          if dirty p \<and> own path then
            (case node_remove own tk (i # path) c key src cp sh of
               None \<Rightarrow> None
             | Some (c, Inl e) \<Rightarrow> Some (Interior p ks (cs[i := Resident c]), Inl e)
             | Some (c, Inr None) \<Rightarrow> Some (Interior p ks (cs[i := Resident c]), Inr None)
             | Some (c, Inr (Some r)) \<Rightarrow>
                 rebalance_in_place tk path p ks (cs[i := Resident c]) i r src cp sh)
          else
            (case node_remove (\<lambda>_. False) tk (i # path) c key src cp sh of
               None \<Rightarrow> None
             | Some (c, Inl e) \<Rightarrow> Some (Interior p ks cs, Inl e)
             | Some (c, Inr None) \<Rightarrow> Some (Interior p ks cs, Inr None)
             | Some (c, Inr (Some r)) \<Rightarrow> rebalance_copy tk path p ks cs i c r src cp sh)
      | Some (OnDisk q) \<Rightarrow>
          (case load_leaf src q of
             None \<Rightarrow> None
           | Some (Inl e) \<Rightarrow> Some (Interior p ks cs, Inl e)
           | Some (Inr (Interior _ _ _)) \<Rightarrow> None
           | Some (Inr (Leaf q lf)) \<Rightarrow>
             (case leaf_remove (own (i # path)) q lf key of
                None \<Rightarrow> None
              | Some (c, Inl e) \<Rightarrow> Some (Interior p ks cs, Inl e)
              | Some (c, Inr None) \<Rightarrow> Some (Interior p ks cs, Inr None)
              | Some (c, Inr (Some r)) \<Rightarrow>
                  if dirty p \<and> own path
                  then rebalance_in_place tk path p ks (cs[i := Resident c]) i r src cp sh
                  else rebalance_copy tk path p ks cs i c r src cp sh)))"

text \<open>The key vector of a node, empty for a packed leaf.\<close>

fun keys_vec :: "'r node \<Rightarrow> key list" where
  "keys_vec (Leaf _ (Decoded ks _ _)) = ks"
| "keys_vec (Leaf _ (Packed _)) = []"
| "keys_vec (Interior _ ks _) = ks"

definition pmap_remove :: "(nat list \<Rightarrow> bool) \<Rightarrow> (nat list \<Rightarrow> bool) \<Rightarrow> 'r pmap \<Rightarrow> key \<Rightarrow> cap \<Rightarrow> leaf_shape
    \<Rightarrow> 'r leaf_source \<Rightarrow> ('r pmap \<times> 'r option result) option" where
  "pmap_remove own tk m key cp sh src =
     (case root m of
        None \<Rightarrow> Some (m, Inr None)
      | Some r \<Rightarrow>
          (case node_remove own tk [] r key src cp sh of
             None \<Rightarrow> None
           | Some (r, Inl e) \<Rightarrow> Some (m\<lparr> root := Some r \<rparr>, Inl e)
           | Some (r, Inr None) \<Rightarrow> Some (m\<lparr> root := Some r \<rparr>, Inr None)
           | Some (r, Inr (Some row)) \<Rightarrow>
               (let new_root =
                  (if keys_vec r = [] then
                     (case r of
                        Leaf _ _ \<Rightarrow> Some (Inr None)
                      | Interior _ _ cs \<Rightarrow> io_bind (child cs 0 src) (\<lambda>n. Some (Inr (Some n))))
                   else Some (Inr (Some r)))
                in case new_root of
                     None \<Rightarrow> None
                   | Some (Inl e) \<Rightarrow> Some (m\<lparr> root := Some r \<rparr>, Inl e)
                   | Some (Inr nr) \<Rightarrow>
                       map_option (\<lambda>n. (m\<lparr> root := nr, pm_count := n \<rparr>, Inr (Some row)))
                         (count_sub (pm_count m)))))"

end
