(* ===== verification/Sorted_Assoc.thy ===== *)
theory Sorted_Assoc
  imports Prelude
begin

text \<open>
  The reference semantics of an ordered map: a list of key/value pairs with strictly ascending
  keys, its update and its deletion, related to \<open>map_of\<close>.
\<close>

section \<open>Sorted association lists\<close>

fun upd_list :: "'a::linorder \<Rightarrow> 'b \<Rightarrow> ('a \<times> 'b) list \<Rightarrow> ('a \<times> 'b) list" where
  "upd_list k v [] = [(k, v)]"
| "upd_list k v ((a, b) # ps) =
     (if k < a then (k, v) # (a, b) # ps else if k = a then (k, v) # ps
      else (a, b) # upd_list k v ps)"

definition del_list :: "'a \<Rightarrow> ('a \<times> 'b) list \<Rightarrow> ('a \<times> 'b) list" where
  "del_list k ps = filter (\<lambda>p. fst p \<noteq> k) ps"

definition sorted_keys :: "('a::linorder \<times> 'b) list \<Rightarrow> bool" where
  "sorted_keys ps \<longleftrightarrow> sorted_wrt (<) (map fst ps)"

lemma sorted_keys_simps [simp]:
  "sorted_keys []" "sorted_keys (p # ps) \<longleftrightarrow> (\<forall>q \<in> set ps. fst p < fst q) \<and> sorted_keys ps"
  "sorted_keys (ps @ qs) \<longleftrightarrow>
     sorted_keys ps \<and> sorted_keys qs \<and> (\<forall>p \<in> set ps. \<forall>q \<in> set qs. fst p < fst q)"
  by (auto simp: sorted_keys_def sorted_wrt_append)

lemma upd_list_right:
  "\<forall>p \<in> set ps. fst p < k \<Longrightarrow> upd_list k v (ps @ qs) = ps @ upd_list k v qs"
  by (induction ps) auto

lemma upd_list_left:
  "\<forall>q \<in> set qs. k < fst q \<Longrightarrow> upd_list k v (ps @ qs) = upd_list k v ps @ qs"
proof (induction ps)
  case Nil
  then show ?case by (cases qs) auto
qed auto

lemma upd_list_mid:
  assumes "\<forall>p \<in> set ps. fst p < k" "\<forall>q \<in> set qs. k < fst q"
  shows "upd_list k v (ps @ xs @ qs) = ps @ upd_list k v xs @ qs"
  using assms by (simp add: upd_list_right upd_list_left)

lemma set_upd_list: "set (upd_list k v ps) \<subseteq> insert (k, v) (set ps)"
  by (induction k v ps rule: upd_list.induct) auto

lemma sorted_upd_list: "sorted_keys ps \<Longrightarrow> sorted_keys (upd_list k v ps)"
  by (induction k v ps rule: upd_list.induct) (use set_upd_list in fastforce)+

lemma map_of_upd_list: "sorted_keys ps \<Longrightarrow> map_of (upd_list k v ps) = (map_of ps)(k \<mapsto> v)"
  by (induction k v ps rule: upd_list.induct) (auto simp: fun_upd_twist)

lemma map_of_del_list: "map_of (del_list k ps) = (map_of ps)(k := None)"
  by (induction ps) (auto simp: del_list_def)

lemma sorted_del_list: "sorted_keys ps \<Longrightarrow> sorted_keys (del_list k ps)"
  by (induction ps) (auto simp: del_list_def)

lemma del_list_append: "del_list k (ps @ qs) = del_list k ps @ del_list k qs"
  by (simp add: del_list_def)

lemma del_list_id: "\<forall>p \<in> set ps. fst p \<noteq> k \<Longrightarrow> del_list k ps = ps"
  by (simp add: del_list_def)

lemma map_of_outside: "(\<And>p. p \<in> set ps \<Longrightarrow> fst p \<noteq> k) \<Longrightarrow> map_of ps k = None"
  by (induction ps) auto

lemma map_of_append_out:
  fixes k :: "'a::linorder"
  assumes "\<forall>p \<in> set ps. fst p < k" "\<forall>q \<in> set qs. k < fst q"
  shows "map_of (ps @ xs @ qs) k = map_of xs k"
proof -
  have "map_of ps k = None" by (rule map_of_outside) (use assms(1) in fastforce)
  moreover have "map_of qs k = None" by (rule map_of_outside) (use assms(2) in fastforce)
  ultimately show ?thesis by (simp add: map_add_def split: option.splits)
qed

lemma del_list_below:
  fixes k :: "'a::linorder"
  shows "\<forall>p \<in> set ps. fst p < k \<Longrightarrow> del_list k ps = ps" "\<forall>p \<in> set ps. k < fst p \<Longrightarrow> del_list k ps = ps"
  by (induction ps) (auto simp: del_list_def)

lemma del_list_mid:
  fixes k :: "'a::linorder"
  assumes "\<forall>p \<in> set ps. fst p < k" "\<forall>q \<in> set qs. k < fst q"
  shows "del_list k (ps @ xs @ qs) = ps @ del_list k xs @ qs"
  by (simp add: del_list_append del_list_below(1) [OF assms(1)] del_list_below(2) [OF assms(2)])

lemma length_upd_list:
  "sorted_keys ps \<Longrightarrow>
     length (upd_list k v ps) = (if map_of ps k = None then Suc (length ps) else length ps)"
proof (induction k v ps rule: upd_list.induct)
  case (2 k v a b ps)
  have "map_of ps k = None" if "k < a"
    using 2 that by (intro map_of_outside) (auto dest!: bspec)
  then show ?case using 2 by auto
qed simp

lemma length_del_list:
  "sorted_keys ps \<Longrightarrow> map_of ps k = Some v \<Longrightarrow> Suc (length (del_list k ps)) = length ps"
proof (induction ps)
  case (Cons p ps)
  show ?case
  proof (cases "fst p = k")
    case True
    then have "del_list k ps = ps" using Cons.prems(1) by (intro del_list_below) auto
    then show ?thesis using True by (simp add: del_list_def)
  qed (use Cons in \<open>auto simp: del_list_def\<close>)
qed simp

end
