(* ===== verification/Pmap_Split.thy ===== *)
theory Pmap_Split
  imports Pmap Sorted_Assoc
begin

text \<open>
  The binary search of a leaf and the size arithmetic of the B+tree: whatever split point is
  chosen, both sides fit the page; a leaf of records within \<open>RECORD_MAX\<close> and an interior node
  that received one separator always have a split point.
\<close>

section \<open>Binary search\<close>

lemma search_loop_correct:
  assumes "sorted_wrt (<) ks" "hi \<le> length ks" "lo \<le> hi"
    "\<forall>j < lo. ks ! j < key" "\<forall>j. hi \<le> j \<and> j < length ks \<longrightarrow> key < ks ! j"
  shows "case search_loop ks key lo hi of
      Inr i \<Rightarrow> i < length ks \<and> ks ! i = key
    | Inl i \<Rightarrow> i \<le> length ks \<and> (\<forall>j < i. ks ! j < key)
        \<and> (\<forall>j. i \<le> j \<and> j < length ks \<longrightarrow> key < ks ! j)"
  using assms
proof (induction ks key lo hi rule: search_loop.induct)
  case (1 ks key lo hi)
  show ?case
  proof (cases "lo < hi")
    case False
    then have "lo = hi" using 1 by simp
    with 1 False show ?thesis by (simp add: search_loop.simps [of ks key hi hi])
  next
    case True
    define mid where "mid = (lo + hi) div 2"
    have mid: "lo \<le> mid" "mid < hi" using True by (auto simp: mid_def)
    have mono: "i < j \<Longrightarrow> j < length ks \<Longrightarrow> ks ! i < ks ! j" for i j
      using "1.prems"(1) by (simp add: sorted_wrt_iff_nth_less)
    consider "ks ! mid < key" | "key < ks ! mid" | "ks ! mid = key" by fastforce
    then show ?thesis
    proof cases
      case 1
      have "ks ! j < key" if "j < mid + 1" for j
      proof (cases "j = mid")
        case False
        then have "ks ! j < ks ! mid" using mono [of j mid] that mid "1.prems"(2) by simp
        then show ?thesis using 1 by (rule order.strict_trans)
      qed (use 1 in simp)
      with "1.IH"(1) [OF True mid_def] "1.prems" 1 mid show ?thesis
        by (simp add: search_loop.simps [of ks key lo hi] mid_def [symmetric] True Let_def)
    next
      case 2
      then have "\<not> ks ! mid < key" by auto
      have "key < ks ! j" if "mid \<le> j" "j < length ks" for j
      proof (cases "j = mid")
        case False
        then have "ks ! mid < ks ! j" using mono [of mid j] that by simp
        with 2 show ?thesis by (rule order.strict_trans)
      qed (use 2 in simp)
      with "1.IH"(2) [OF True mid_def \<open>\<not> ks ! mid < key\<close>] "1.prems" 2 mid show ?thesis
        by (simp add: \<open>\<not> ks ! mid < key\<close> search_loop.simps [of ks key lo hi] mid_def [symmetric] True Let_def)
    next
      case 3
      then show ?thesis using mid "1.prems"(2)
        by (simp add: search_loop.simps [of ks key lo hi] mid_def [symmetric] True Let_def)
    qed
  qed
qed

lemma search_correct:
  assumes "sorted_wrt (<) ks"
  shows "case search ks key of
      Inr i \<Rightarrow> i < length ks \<and> ks ! i = key
    | Inl i \<Rightarrow> i \<le> length ks \<and> (\<forall>j < i. ks ! j < key)
        \<and> (\<forall>j. i \<le> j \<and> j < length ks \<longrightarrow> key < ks ! j)"
  unfolding search_def by (rule search_loop_correct) (use assms in auto)

lemma search_Inr:
  assumes "sorted_wrt (<) ks" "search ks key = Inr i"
  obtains ls rs where "ks = ls @ key # rs" "length ls = i"
    "\<forall>k \<in> set ls. k < key" "\<forall>k \<in> set rs. key < k"
proof -
  have i: "i < length ks" "ks ! i = key" using search_correct [OF assms(1), of key] assms(2) by auto
  then have e: "ks = take i ks @ key # drop (Suc i) ks" using id_take_nth_drop [of i ks] by metis
  then have "sorted_wrt (<) (take i ks @ key # drop (Suc i) ks)" using assms(1) by simp
  then show ?thesis
    using i by (intro that [OF e]) (auto simp: sorted_wrt_append)
qed

lemma search_Inl:
  assumes "sorted_wrt (<) ks" "search ks key = Inl i"
  obtains ls rs where "ks = ls @ rs" "length ls = i"
    "\<forall>k \<in> set ls. k < key" "\<forall>k \<in> set rs. key < k"
proof -
  have i: "i \<le> length ks" "\<forall>j < i. ks ! j < key" "\<forall>j. i \<le> j \<and> j < length ks \<longrightarrow> key < ks ! j"
    using search_correct [OF assms(1), of key] assms(2) by auto
  then show ?thesis
    by (intro that [of "take i ks" "drop i ks"]) (auto simp: in_set_conv_nth)
qed

lemma search_member:
  assumes "sorted_wrt (<) ks" "key \<in> set ks"
  obtains i where "search ks key = Inr i"
proof (cases "search ks key")
  case (Inl i)
  obtain ls rs where "ks = ls @ rs" "\<forall>k \<in> set ls. k < key" "\<forall>k \<in> set rs. key < k"
    by (rule search_Inl [OF assms(1) Inl])
  then show ?thesis using assms(2) by auto
qed

lemma search_absent:
  assumes "sorted_wrt (<) ks" "key \<notin> set ks"
  obtains i where "search ks key = Inl i"
proof (cases "search ks key")
  case (Inr i)
  obtain ls rs where "ks = ls @ key # rs" by (rule search_Inr [OF assms(1) Inr])
  then show ?thesis using assms(2) by auto
qed

section \<open>The split decision\<close>

lemma scan_up:
  assumes "a < b" "f a \<le> c"
  shows "\<exists>m. scan_fit f c best [a..<b] = Some m \<and> a \<le> m \<and> m < b \<and> f m \<le> c
    \<and> (Suc m < b \<longrightarrow> c < f (Suc m))"
  using assms
proof (induction "b - a" arbitrary: a best)
  case (Suc n)
  show ?case
  proof (cases "Suc a < b \<and> f (Suc a) \<le> c")
    case True
    then obtain m where "scan_fit f c (Some a) [Suc a..<b] = Some m" "Suc a \<le> m" "m < b" "f m \<le> c"
      "Suc m < b \<longrightarrow> c < f (Suc m)"
      using Suc.hyps(1) [of "Suc a" "Some a"] Suc.hyps(2) by (metis Suc_diff_Suc Suc_inject Suc_lessD)
    then show ?thesis using Suc.prems by (auto simp: upt_conv_Cons)
  next
    case False
    then have "scan_fit f c (Some a) [Suc a..<b] = Some a"
      by (cases "Suc a < b") (auto simp: upt_conv_Cons)
    then show ?thesis using Suc.prems False by (auto simp: upt_conv_Cons)
  qed
qed simp

lemma scan_up_None: "a < b \<Longrightarrow> c < f a \<Longrightarrow> scan_fit f c None [a..<b] = None"
  by (simp add: upt_conv_Cons)

lemma scan_down:
  assumes "a \<le> b" "f b \<le> c"
  shows "\<exists>m. scan_fit f c best (rev [a..<Suc b]) = Some m \<and> a \<le> m \<and> m \<le> b \<and> f m \<le> c
    \<and> (a < m \<longrightarrow> c < f (m - 1))"
  using assms
proof (induction b arbitrary: best)
  case (Suc b)
  show ?case
  proof (cases "a \<le> b \<and> f b \<le> c")
    case True
    then show ?thesis using Suc.IH [of "Some (Suc b)"] Suc.prems by fastforce
  next
    case False
    then have "scan_fit f c (Some (Suc b)) (rev [a..<Suc b]) = Some (Suc b)"
      by (cases "a \<le> b") auto
    then show ?thesis using Suc.prems False by auto
  qed
qed simp

lemma scan_down_None: "a \<le> b \<Longrightarrow> c < f b \<Longrightarrow> scan_fit f c None (rev [a..<Suc b]) = None"
  by simp

lemma find_upt_range: "find P [a..<b] = Some m \<Longrightarrow> a \<le> m \<and> m < b"
  by (auto simp: find_Some_iff)

text \<open>Whatever point is chosen, both sides fit.\<close>

lemma split_point_sound:
  assumes s: "split_point lo hi pl c re L R = Some m" and "lo \<le> hi"
    and L: "\<And>i j. lo \<le> i \<Longrightarrow> i \<le> j \<Longrightarrow> j \<le> hi \<Longrightarrow> L i \<le> L j"
    and R: "\<And>i j. lo \<le> i \<Longrightarrow> i \<le> j \<Longrightarrow> j \<le> hi \<Longrightarrow> R j \<le> R i"
  shows "lo \<le> m" "m \<le> hi" "L m \<le> c" "R m \<le> c"
proof -
  have "L lo \<le> c" using s \<open>lo \<le> hi\<close> scan_up_None [of lo "Suc hi" c L]
    by (cases "L lo \<le> c") (auto simp: split_point_def)
  then obtain mx where mx: "scan_fit L c None [lo..<Suc hi] = Some mx" "lo \<le> mx" "mx \<le> hi" "L mx \<le> c"
    using scan_up [of lo "Suc hi" L c None] \<open>lo \<le> hi\<close> by auto
  have "R hi \<le> c" using s mx(1) \<open>lo \<le> hi\<close> scan_down_None [of lo hi c R]
    by (cases "R hi \<le> c") (auto simp: split_point_def)
  then obtain mn where mn: "scan_fit R c None (rev [lo..<Suc hi]) = Some mn" "lo \<le> mn" "mn \<le> hi" "R mn \<le> c"
    using scan_down [of lo hi R c None] \<open>lo \<le> hi\<close> by auto
  have "mn \<le> mx" "mn \<le> m" "m \<le> mx"
    using s unfolding split_point_def mx(1) mn(1) option.case Let_def
    by (auto split: if_splits option.splits)
  then show "lo \<le> m" "m \<le> hi" "L m \<le> c" "R m \<le> c"
    using mx mn L [of m mx] R [of mn m] by auto
qed

lemma split_point_exists:
  assumes "lo \<le> hi" "L lo \<le> c" "R hi \<le> c"
    and R: "\<And>i j. lo \<le> i \<Longrightarrow> i \<le> j \<Longrightarrow> j \<le> hi \<Longrightarrow> R j \<le> R i"
    and ex: "\<And>m. lo \<le> m \<Longrightarrow> m < hi \<Longrightarrow> c < L (Suc m) \<Longrightarrow> R m \<le> c"
  shows "split_point lo hi pl c re L R \<noteq> None"
proof -
  obtain mx where mx: "scan_fit L c None [lo..<Suc hi] = Some mx" "lo \<le> mx" "mx \<le> hi"
    "mx < hi \<longrightarrow> c < L (Suc mx)"
    using scan_up [of lo "Suc hi" L c None] assms(1,2) by auto
  obtain mn where mn: "scan_fit R c None (rev [lo..<Suc hi]) = Some mn" "lo \<le> mn" "mn \<le> hi"
    "lo < mn \<longrightarrow> c < R (mn - 1)"
    using scan_down [of lo hi R c None] assms(1,3) by auto
  have "mn \<le> mx"
  proof (rule ccontr)
    assume "\<not> mn \<le> mx"
    then have "mx \<le> mn - 1" "mn - 1 \<le> hi" "mx < hi" "lo < mn" using mx(2) mn(3) by linarith+
    then have "R mx \<le> c" "R (mn - 1) \<le> R mx" "lo < mn"
      using ex [of mx] mx(2,4) R [of mx "mn - 1"] by auto
    with mn(4) show False by simp
  qed
  then show ?thesis by (simp add: split_point_def mx(1) mn(1) Let_def del: upt_Suc)
qed

section \<open>Leaves fit\<close>

text \<open>A record as the storage layer plans it: the key is part of it, and \<open>RECORD_MAX\<close> bounds it.\<close>

definition rec_fits :: "cap \<Rightarrow> leaf_shape \<Rightarrow> nat \<Rightarrow> bool" where
  "rec_fits cp sh w \<longleftrightarrow> 2 * w + RECORD_MAX_RESERVE + 16 * shape_k sh \<le> cap_c cp"

lemma rec_fits_record_max:
  "RECORD_MAX_RESERVE + 16 * shape_k sh \<le> cap_c cp \<Longrightarrow>
     rec_fits cp sh w \<longleftrightarrow> w \<le> record_max (cap_c cp) (shape_k sh)"
  by (auto simp: rec_fits_def record_max_def)

lemma div_ceil_8: "n \<le> 8 * div_ceil n 8" "8 * div_ceil n 8 \<le> n + 7"
  by (auto simp: div_ceil_def)

lemma div_ceil_mono: "a \<le> b \<Longrightarrow> div_ceil a 8 \<le> div_ceil b 8"
  by (auto simp: div_ceil_def intro: div_le_mono)

lemma div_ceil_pairs:
  assumes "a + b \<le> x + y + 1"
  shows "div_ceil a 8 + div_ceil b 8 \<le> div_ceil x 8 + div_ceil y 8 + 1"
  using assms div_ceil_8 [of a] div_ceil_8 [of b] div_ceil_8 [of x] div_ceil_8 [of y] by linarith

lemma leaf_overhead_mono: "a \<le> b \<Longrightarrow> leaf_overhead a sh \<le> leaf_overhead b sh"
  unfolding leaf_overhead_def by (intro add_mono mult_le_mono div_ceil_mono) auto

text \<open>The overhead of two leaves against that of two others with one entry less.\<close>

lemma leaf_overhead_pairs:
  assumes "a + b = x + y + d" "d \<le> 1"
  shows "leaf_overhead a sh + leaf_overhead b sh
    \<le> leaf_overhead x sh + leaf_overhead y sh + d * (4 + 4 * sh_var sh) + sh_fixed sh"
proof -
  let ?f = "sh_fixed sh" and ?v = "sh_var sh"
  have "?f * (div_ceil a 8 + div_ceil b 8) \<le> ?f * (div_ceil x 8 + div_ceil y 8 + 1)"
    using assms by (intro mult_le_mono2 div_ceil_pairs) simp
  moreover have "a * (?v * 4) + b * (?v * 4) = x * (?v * 4) + y * (?v * 4) + d * (?v * 4)"
    using assms(1) by (metis distrib_right)
  ultimately show ?thesis
    using assms(1) unfolding leaf_overhead_def by (simp add: algebra_simps)
qed

lemma leaf_overhead_small:
  "leaf_overhead (Suc 0) sh = 8 + 6 * sh_fixed sh + 9 * sh_var sh"
  "leaf_overhead 2 sh = 12 + 6 * sh_fixed sh + 13 * sh_var sh"
  by (simp_all add: leaf_overhead_def shape_k_def div_ceil_def)

lemma rec_fits_pair:
  assumes "rec_fits cp sh v" "rec_fits cp sh w"
  shows "v + w + leaf_overhead 2 sh + sh_fixed sh \<le> cap_c cp" "w + leaf_overhead (Suc 0) sh \<le> cap_c cp"
    "leaf_overhead 0 sh \<le> cap_c cp"
  using assms leaf_overhead_mono [of 0 2 sh]
  by (auto simp: rec_fits_def leaf_overhead_small RECORD_MAX_RESERVE_def shape_k_def)

lemma sum_take_mono: "i \<le> j \<Longrightarrow> sum_list (take i ws) \<le> sum_list (take j (ws :: nat list))"
  by (metis le_add1 min.absorb1 sum_list_append take_add take_take le_iff_add)

lemma sum_take_le: "sum_list (take i ws) \<le> sum_list (ws :: nat list)"
  by (metis append_take_drop_id le_add1 sum_list_append)

lemma sum_take_Suc:
  "m < length ws \<Longrightarrow> sum_list (take (Suc m) ws) = sum_list (take m ws) + ws ! (m :: nat)"
  for ws :: "nat list"
  by (simp add: take_Suc_conv_app_nth)

lemma sum_drop: "sum_list (drop m ws) = sum_list ws - sum_list (take m (ws :: nat list))"
  by (metis add_diff_cancel_left' append_take_drop_id sum_list_append)

text \<open>
  The payload bound under which a leaf of records within \<open>RECORD_MAX\<close> always splits into two
  leaves that fit.
\<close>

definition splittable :: "cap \<Rightarrow> leaf_shape \<Rightarrow> nat list \<Rightarrow> bool" where
  "splittable cp sh ws \<longleftrightarrow> (\<forall>a b w. a + b = Suc (length ws) \<longrightarrow> rec_fits cp sh w \<longrightarrow>
     sum_list ws + w + leaf_overhead a sh + leaf_overhead b sh \<le> 2 * cap_c cp)"

lemma leaf_split_point_ok:
  assumes fit: "\<forall>w \<in> set ws. rec_fits cp sh w" and z: "rec_fits cp sh 0"
    and s: "splittable cp sh ws"
  shows "case leaf_split_point ws cp sh edited of
      None \<Rightarrow> leaf_payload ws sh \<le> cap_c cp
    | Some m \<Rightarrow> 1 \<le> m \<and> m < length ws \<and> leaf_payload (take m ws) sh \<le> cap_c cp
        \<and> leaf_payload (drop m ws) sh \<le> cap_c cp"
proof (cases "leaf_payload ws sh \<le> cap_c cp \<or> length ws < 2")
  case True
  moreover have "leaf_payload ws sh \<le> cap_c cp" if "length ws < 2"
  proof -
    from that consider "ws = []" | w where "ws = [w]" by (cases ws; cases "tl ws") auto
    then show ?thesis
      using fit z rec_fits_pair(2,3) [of cp sh 0] by cases (auto simp: leaf_payload_def)
  qed
  ultimately show ?thesis
    by (auto simp: leaf_split_point_def leaf_payload_def Let_def)
next
  case False
  define n where "n = length ws"
  define L where "L = (\<lambda>m. sum_list (take m ws) + leaf_overhead m sh)"
  define R where "R = (\<lambda>m. (sum_list ws - sum_list (take m ws)) + leaf_overhead (n - m) sh)"
  have n: "2 \<le> n" using False by (simp add: n_def)
  have w: "rec_fits cp sh (ws ! i)" if "i < n" for i using fit that by (simp add: n_def)
  have e: "leaf_split_point ws cp sh edited = split_point 1 (n - 1)
      (leaf_payload ws sh) (cap_c cp) (edited = Some (n - 1)) L R"
    using False by (auto simp: leaf_split_point_def leaf_payload_def n_def L_def R_def Let_def)
  have Lm: "L i \<le> L j" if "i \<le> j" for i j
    using that by (auto simp: L_def intro: add_mono sum_take_mono leaf_overhead_mono)
  have Rm: "R j \<le> R i" if "i \<le> j" for i j
    using that by (auto simp: R_def intro!: add_mono diff_le_mono2 sum_take_mono leaf_overhead_mono)
  have "ws \<noteq> []" using n by (auto simp: n_def)
  then have L1: "L 1 \<le> cap_c cp"
    using rec_fits_pair(2) [OF w w, of 0 0] n sum_take_Suc [of 0 ws] by (simp add: L_def n_def)
  have R1: "R (n - 1) \<le> cap_c cp"
  proof -
    have "sum_list ws = sum_list (take (n - 1) ws) + ws ! (n - 1)"
      using sum_take_Suc [of "n - 1" ws] n by (simp add: n_def)
    then show ?thesis
      using rec_fits_pair(2) [OF w w, of "n - 1" "n - 1"] n by (simp add: R_def)
  qed
  have ex: "R m \<le> cap_c cp" if "1 \<le> m" "m < n - 1" "cap_c cp < L (Suc m)" for m
  proof -
    have "sum_list ws + ws ! m + leaf_overhead (Suc m) sh + leaf_overhead (n - m) sh \<le> 2 * cap_c cp"
      using s w [of m] that by (auto simp: splittable_def n_def)
    moreover have "sum_list (take (Suc m) ws) = sum_list (take m ws) + ws ! m"
      using that by (intro sum_take_Suc) (simp add: n_def)
    moreover have "sum_list (take m ws) \<le> sum_list ws" by (rule sum_take_le)
    ultimately show ?thesis using that(3) unfolding L_def R_def by linarith
  qed
  have "split_point 1 (n - 1) (leaf_payload ws sh) (cap_c cp) (edited = Some (n - 1)) L R \<noteq> None"
    using n by (intro split_point_exists L1 R1 Rm ex) auto
  then obtain m where m: "leaf_split_point ws cp sh edited = Some m" using e by auto
  note snd = split_point_sound [OF m [unfolded e] _ Lm Rm]
  have "1 \<le> m" "m \<le> n - 1" "L m \<le> cap_c cp" "R m \<le> cap_c cp" using snd n by simp_all
  then show ?thesis
    using n by (auto simp: m leaf_payload_def L_def R_def sum_drop n_def min_def)
qed


lemma splittable_insert:
  assumes w: "rec_fits cp sh w" and "sum_list ws \<le> S + w" "S + leaf_overhead (length ws - 1) sh \<le> cap_c cp"
    "ws \<noteq> []"
  shows "splittable cp sh ws"
  unfolding splittable_def
proof (intro allI impI)
  fix a b v
  assume ab: "a + b = Suc (length ws)" and v: "rec_fits cp sh v"
  have "a + b = (length ws - 1) + 2 + 0" using ab assms(4) by (cases ws) auto
  from leaf_overhead_pairs [OF this, of sh] rec_fits_pair(1) [OF w v]
  show "sum_list ws + v + leaf_overhead a sh + leaf_overhead b sh \<le> 2 * cap_c cp"
    using assms(2,3) by simp
qed

lemma splittable_merge:
  assumes "2 * leaf_payload us sh \<le> cap_c cp" "leaf_payload vs sh \<le> cap_c cp"
    "ws = us @ vs \<or> ws = vs @ us"
  shows "splittable cp sh ws"
  unfolding splittable_def
proof (intro allI impI)
  fix a b w
  assume ab: "a + b = Suc (length ws)" and w: "rec_fits cp sh w"
  have "a + b = length us + length vs + 1" using ab assms(3) by auto
  from leaf_overhead_pairs [OF this, of sh] w assms
  show "sum_list ws + w + leaf_overhead a sh + leaf_overhead b sh \<le> 2 * cap_c cp"
    by (auto simp: rec_fits_def leaf_payload_def shape_k_def RECORD_MAX_RESERVE_def)
qed

section \<open>Interior nodes fit\<close>

text \<open>The minimum fan-out: an interior node with one separator fits.\<close>

definition sep_fits :: "cap \<Rightarrow> key \<Rightarrow> bool" where
  "sep_fits cp k \<longleftrightarrow> 2 * ptr cp + 4 + length k \<le> cap_c cp"

lemma interior_payload_simps [simp]:
  "interior_payload cp [] = ptr cp"
  "interior_payload cp (k # ks) = ptr cp + 4 + length k + interior_payload cp ks"
  "interior_payload cp (ks @ ls) = interior_payload cp ks + (ptr cp + 4) * length ls
     + sum_list (map length ls)"
  by (simp_all add: interior_payload_def algebra_simps)

lemma interior_payload_append_le:
  "interior_payload cp xs \<le> interior_payload cp (xs @ ys)"
  "interior_payload cp ys \<le> interior_payload cp (xs @ ys)"
  by (simp_all add: interior_payload_def add_mult_distrib2)

lemma interior_payload_mono:
  assumes "i \<le> j"
  shows "interior_payload cp (take i ks) \<le> interior_payload cp (take j ks)"
  using interior_payload_append_le(1) [of cp "take i ks" "take (j - i) (drop i ks)"]
    take_add [of i "j - i" ks] assms by simp

lemma interior_payload_drop_mono:
  assumes "i \<le> j"
  shows "interior_payload cp (drop j ks) \<le> interior_payload cp (drop i ks)"
proof -
  have "drop j ks = drop (j - i) (drop i ks)" using assms by simp
  then have "drop i ks = take (j - i) (drop i ks) @ drop j ks" by (metis append_take_drop_id)
  then show ?thesis using interior_payload_append_le(2) by metis
qed

text \<open>The split parameters of \<open>build_interior\<close> are the payloads of the two sides.\<close>

lemma build_interior_split:
  assumes "2 < length ks" "cap_c cp < interior_payload cp ks"
  shows "build_interior ks cs cp edited = map_option (\<lambda>m.
      Split (new_interior (take m ks) (take (m + 1) cs)) (ks ! m)
        (new_interior (drop (m + 1) ks) (drop (m + 1) cs)))
    (split_point 1 (length ks - 2) (interior_payload cp ks) (cap_c cp)
      (edited = Some (length ks - 1)) (\<lambda>m. (ptr cp + 4) * m + ptr cp + sum_list (map length (take m ks)))
      (\<lambda>m. (ptr cp + 4) * (length ks - 1 - m) + ptr cp
         + (sum_list (map length ks) - sum_list (map length (take (m + 1) ks)))))"
  using assms by (simp add: build_interior_def Let_def)

lemma left_payload:
  "m \<le> length ks \<Longrightarrow>
     (ptr cp + 4) * m + ptr cp + sum_list (map length (take m ks)) = interior_payload cp (take m ks)"
  by (simp add: interior_payload_def algebra_simps)

lemma right_payload:
  assumes "m < length ks"
  shows "(ptr cp + 4) * (length ks - 1 - m) + ptr cp
      + (sum_list (map length ks) - sum_list (map length (take (m + 1) ks)))
    = interior_payload cp (drop (m + 1) ks)"
proof -
  have "sum_list (map length ks) = sum_list (map length (take (m + 1) ks)) + sum_list (map length (drop (m + 1) ks))"
    by (metis append_take_drop_id map_append sum_list_append)
  then show ?thesis using assms by (simp add: interior_payload_def algebra_simps)
qed

lemma interior_payload_split:
  assumes "m < length ks"
  shows "interior_payload cp ks
    = interior_payload cp (take m ks) + 4 + length (ks ! m) + interior_payload cp (drop (Suc m) ks)"
proof -
  have "ks = take m ks @ ks ! m # drop (Suc m) ks" by (rule id_take_nth_drop [OF assms])
  then have "interior_payload cp ks = interior_payload cp (take m ks @ ks ! m # drop (Suc m) ks)" by simp
  then show ?thesis by (simp add: interior_payload_def algebra_simps)
qed

definition interior_split :: "cap \<Rightarrow> key list \<Rightarrow> 'r child list \<Rightarrow> 'r ins \<Rightarrow> nat \<Rightarrow> bool" where
  "interior_split cp ks cs ins m \<longleftrightarrow> 1 \<le> m \<and> m < length ks
     \<and> ins = Split (new_interior (take m ks) (take (m + 1) cs)) (ks ! m)
          (new_interior (drop (m + 1) ks) (drop (m + 1) cs))
     \<and> interior_payload cp (take m ks) \<le> cap_c cp
     \<and> interior_payload cp (drop (m + 1) ks) \<le> cap_c cp"

lemma one_sep_fits: "sep_fits cp k \<Longrightarrow> interior_payload cp [k] \<le> cap_c cp"
  by (simp add: sep_fits_def)

lemma build_interior_sound:
  assumes b: "build_interior ks cs cp edited = Some ins"
    and fit: "\<forall>k \<in> set ks. sep_fits cp k" and p: "ptr cp \<le> cap_c cp"
  shows "ins = Whole (new_interior ks cs) \<and> interior_payload cp ks \<le> cap_c cp
    \<or> (\<exists>m. interior_split cp ks cs ins m)"
proof (cases "interior_payload cp ks \<le> cap_c cp \<or> length ks < 2")
  case True
  moreover have "interior_payload cp ks \<le> cap_c cp" if "length ks < 2"
  proof -
    from that consider "ks = []" | k where "ks = [k]" by (cases ks; cases "tl ks") auto
    then show ?thesis using fit p one_sep_fits by cases auto
  qed
  ultimately show ?thesis using b by (auto simp: build_interior_def Let_def)
next
  case False
  show ?thesis
  proof (cases "length ks = 2")
    case True
    then obtain k l where ks: "ks = [k, l]" by (auto simp: length_Suc_conv numeral_2_eq_2)
    have "ins = Split (new_interior [k] (take (Suc 1) cs)) l (new_interior [] (drop (Suc 1) cs))"
      using b False unfolding ks by (simp add: build_interior_def)
    then have "interior_split cp ks cs ins 1"
      using fit p one_sep_fits [of cp k] unfolding interior_split_def ks by simp
    then show ?thesis by blast
  next
    case len: False
    let ?n = "length ks"
    define L where "L = (\<lambda>m. (ptr cp + 4) * m + ptr cp + sum_list (map length (take m ks)))"
    define R where "R = (\<lambda>m. (ptr cp + 4) * (?n - 1 - m) + ptr cp
       + (sum_list (map length ks) - sum_list (map length (take (m + 1) ks))))"
    have n: "2 < ?n" "cap_c cp < interior_payload cp ks" using len False by simp_all
    obtain m where m: "split_point 1 (?n - 2) (interior_payload cp ks) (cap_c cp)
        (edited = Some (?n - 1)) L R = Some m"
      "ins = Split (new_interior (take m ks) (take (m + 1) cs)) (ks ! m)
          (new_interior (drop (m + 1) ks) (drop (m + 1) cs))"
      using b unfolding build_interior_split [OF n] L_def [symmetric] R_def [symmetric]
        map_option_eq_Some by blast
    have L: "L i = interior_payload cp (take i ks)" if "i \<le> ?n - 2" for i
      unfolding L_def using that by (intro left_payload) simp
    have R: "R i = interior_payload cp (drop (i + 1) ks)" if "i \<le> ?n - 2" for i
      unfolding R_def using that n by (intro right_payload) simp
    have lo: "1 \<le> ?n - 2" using n by simp
    have Lm: "L i \<le> L j" if "1 \<le> i" "i \<le> j" "j \<le> ?n - 2" for i j
      using that L [of i] L [of j] interior_payload_mono [of i j cp ks] by simp
    have Rm: "R j \<le> R i" if "1 \<le> i" "i \<le> j" "j \<le> ?n - 2" for i j
      using that R [of i] R [of j] interior_payload_drop_mono [of "i + 1" "j + 1" cp ks] by simp
    have "1 \<le> m \<and> m \<le> ?n - 2 \<and> L m \<le> cap_c cp \<and> R m \<le> cap_c cp"
      using split_point_sound [OF m(1) lo Lm Rm] by blast
    then have "interior_split cp ks cs ins m"
      using m(2) L [of m] R [of m] lo by (auto simp: interior_split_def)
    then show ?thesis by blast
  qed
qed

text \<open>A node that fitted before one more separator came in can always be split.\<close>

lemma build_interior_exists:
  assumes fit: "\<forall>k \<in> set ks. sep_fits cp k" and s: "sep_fits cp s"
    and pl: "interior_payload cp ks \<le> cap_c cp + ptr cp + 4 + length s"
  shows "build_interior ks cs cp edited \<noteq> None"
proof (cases "interior_payload cp ks \<le> cap_c cp \<or> length ks \<le> 2")
  case True
  then show ?thesis by (auto simp: build_interior_def Let_def)
next
  case False
  let ?n = "length ks"
  have n: "2 < ?n" using False by simp
  let ?L = "\<lambda>m. (ptr cp + 4) * m + ptr cp + sum_list (map length (take m ks))"
  let ?R = "\<lambda>m. (ptr cp + 4) * (?n - 1 - m) + ptr cp
         + (sum_list (map length ks) - sum_list (map length (take (m + 1) ks)))"
  have k: "sep_fits cp (ks ! i)" if "i < ?n" for i using fit that by simp
  have L: "?L m = interior_payload cp (take m ks)" if "m \<le> ?n - 2" for m
    using that by (intro left_payload) simp
  have R: "?R m = interior_payload cp (drop (m + 1) ks)" if "m \<le> ?n - 2" for m
    using that n by (intro right_payload) simp
  have "split_point 1 (?n - 2) (interior_payload cp ks) (cap_c cp) (edited = Some (?n - 1)) ?L ?R \<noteq> None"
  proof (rule split_point_exists)
    show "1 \<le> ?n - 2" using n by simp
    have "take 1 ks = [ks ! 0]" "ks \<noteq> []" using n by (cases ks; auto)+
    then show "?L 1 \<le> cap_c cp" using L [of 1] n one_sep_fits [OF k [of 0]] by auto
    have "drop (?n - 2 + 1) ks = [ks ! (?n - 1)]"
      using n Cons_nth_drop_Suc [of "?n - 1" ks] by (simp add: Suc_diff_Suc numeral_2_eq_2)
    moreover have "?n - 1 < ?n" using n by simp
    ultimately show "?R (?n - 2) \<le> cap_c cp"
      using R [of "?n - 2"] one_sep_fits [OF k [of "?n - 1"]] by simp
  next
    fix i j assume "1 \<le> i" "i \<le> j" "j \<le> ?n - 2"
    then show "?R j \<le> ?R i" unfolding R [OF \<open>j \<le> ?n - 2\<close>] R [OF le_trans [OF \<open>i \<le> j\<close> \<open>j \<le> ?n - 2\<close>]]
      by (intro interior_payload_drop_mono) simp
  next
    fix m assume m: "1 \<le> m" "m < ?n - 2" "cap_c cp < ?L (Suc m)"
    have a: "cap_c cp < interior_payload cp (take (Suc m) ks)" using m(2,3) L [of "Suc m"] by simp
    have b: "interior_payload cp ks = interior_payload cp (take (Suc m) ks) + 4 + length (ks ! Suc m)
        + interior_payload cp (drop (Suc (Suc m)) ks)"
      using m n by (intro interior_payload_split) simp
    have "drop (Suc m) ks = ks ! Suc m # drop (Suc (Suc m)) ks"
      using m n by (intro Cons_nth_drop_Suc [symmetric]) simp
    then have d: "interior_payload cp (drop (Suc m) ks)
        = ptr cp + 4 + length (ks ! Suc m) + interior_payload cp (drop (Suc (Suc m)) ks)" by simp
    have "interior_payload cp (drop (Suc m) ks) \<le> cap_c cp"
      using a b d pl s unfolding sep_fits_def by linarith
    then show "?R m \<le> cap_c cp" using R [of m] m(2) by simp
  qed
  then show ?thesis using build_interior_split [of ks cp cs edited] False n by simp
qed

end
