(* ===== verification/Pmap_Inv.thy ===== *)
theory Pmap_Inv
  imports Pmap_Split
begin

text \<open>
  The contents of a B+tree and its invariant: keys strictly ascending, every separator with
  \<open>left < separator \<le> right\<close>, all leaves at one depth, every node within its page, a dirty leaf
  decoded. The leaf source is part of it: every page the tree points to faults to a leaf.
  Shown here: lookup returns what the contents say.
\<close>

section \<open>Contents and invariant\<close>

text \<open>The rows a node holds, in key order: what its leaves decode to.\<close>

definition leaf_entries :: "'r leaf_form \<Rightarrow> (key \<times> 'r) list" where
  "leaf_entries lf = (case decoded_parts lf of Inr (ks, vs, ws) \<Rightarrow> zip ks vs | Inl _ \<Rightarrow> [])"

fun node_entries :: "'r leaf_source \<Rightarrow> 'r node \<Rightarrow> (key \<times> 'r) list" where
  "node_entries src (Leaf p lf) = leaf_entries lf"
| "node_entries src (Interior p ks cs) = concat (map (\<lambda>c. case c of
     Resident n \<Rightarrow> node_entries src n
   | OnDisk q \<Rightarrow> (case load_leaf src q of
        Some (Inr (Leaf _ lf)) \<Rightarrow> leaf_entries lf | _ \<Rightarrow> [])) cs)"

definition child_entries :: "'r leaf_source \<Rightarrow> 'r child \<Rightarrow> (key \<times> 'r) list" where
  "child_entries src c = (case resolve src c of Some (Inr n) \<Rightarrow> node_entries src n | _ \<Rightarrow> [])"

lemma load_leaf_is_leaf: "load_leaf src q = Some (Inr n) \<Longrightarrow> \<exists>pl. n = Leaf q (Packed pl)"
  by (auto simp: load_leaf_def leaf_loaded_packed_def split: option.splits)

lemma interior_entries [simp]:
  "node_entries src (Interior p ks cs) = concat (map (child_entries src) cs)"
proof -
  have "(case c of Resident n \<Rightarrow> node_entries src n
     | OnDisk q \<Rightarrow> (case load_leaf src q of Some (Inr (Leaf _ lf)) \<Rightarrow> leaf_entries lf | _ \<Rightarrow> []))
    = child_entries src c" for c
    by (auto simp: child_entries_def split: child.splits option.splits sum.splits node.splits
        dest: load_leaf_is_leaf)
  from map_cong [OF refl this] show ?thesis unfolding node_entries.simps(2) by (rule arg_cong)
qed

declare node_entries.simps(2) [simp del]

text \<open>Key intervals: \<open>lo\<close> inclusive, \<open>hi\<close> exclusive, \<open>None\<close> unbounded.\<close>

definition in_range :: "key option \<Rightarrow> key option \<Rightarrow> key \<Rightarrow> bool" where
  "in_range lo hi k \<longleftrightarrow> (case lo of None \<Rightarrow> True | Some l \<Rightarrow> l \<le> k)
     \<and> (case hi of None \<Rightarrow> True | Some h \<Rightarrow> k < h)"

definition nonempty_range :: "key option \<Rightarrow> key option \<Rightarrow> bool" where
  "nonempty_range lo hi \<longleftrightarrow> (case (lo, hi) of (Some l, Some h) \<Rightarrow> l < h | _ \<Rightarrow> True)"

text \<open>
  \<open>separated P lo hi ks cs\<close>: the children \<open>cs\<close> satisfy \<open>P\<close> on the consecutive intervals that
  the separators \<open>ks\<close> cut \<open>[lo, hi)\<close> into.
\<close>

fun separated :: "(key option \<Rightarrow> key option \<Rightarrow> 'c \<Rightarrow> bool) \<Rightarrow> key option \<Rightarrow> key option
    \<Rightarrow> key list \<Rightarrow> 'c list \<Rightarrow> bool" where
  "separated P lo hi [] [c] = (nonempty_range lo hi \<and> P lo hi c)"
| "separated P lo hi (k # ks) (c # cs) =
     (nonempty_range lo (Some k) \<and> P lo (Some k) c \<and> separated P (Some k) hi ks cs)"
| "separated P lo hi _ _ = False"

lemma separated_length: "separated P lo hi ks cs \<Longrightarrow> length cs = Suc (length ks)"
  by (induction P lo hi ks cs rule: separated.induct) auto

lemma separated_range: "separated P lo hi ks cs \<Longrightarrow> nonempty_range lo hi"
  by (induction P lo hi ks cs rule: separated.induct)
    (auto simp: nonempty_range_def split: option.splits)

lemma separated_mono:
  "separated P lo hi ks cs \<Longrightarrow> (\<And>lo hi c. c \<in> set cs \<Longrightarrow> P lo hi c \<Longrightarrow> Q lo hi c) \<Longrightarrow>
     separated Q lo hi ks cs"
  by (induction P lo hi ks cs rule: separated.induct) auto

lemma separated_append:
  "length cl = Suc (length ls) \<Longrightarrow>
     separated P lo hi (ls @ k # rs) (cl @ cr) \<longleftrightarrow>
       separated P lo (Some k) ls cl \<and> separated P (Some k) hi rs cr"
proof (induction ls arbitrary: lo cl)
  case Nil
  then obtain c where "cl = [c]" by (cases cl) auto
  then show ?case by simp
next
  case (Cons l ls)
  then obtain c cl' where "cl = c # cl'" "length cl' = Suc (length ls)" by (cases cl) auto
  then show ?case using Cons.IH by simp
qed

lemma separated_cut:
  assumes "separated P lo hi ks cs" "m < length ks"
  shows "separated P lo (Some (ks ! m)) (take m ks) (take (Suc m) cs)"
    "separated P (Some (ks ! m)) hi (drop (Suc m) ks) (drop (Suc m) cs)"
proof -
  have l: "length (take (Suc m) cs) = Suc (length (take m ks))"
    using separated_length [OF assms(1)] assms(2) by simp
  have "ks = take m ks @ ks ! m # drop (Suc m) ks" using id_take_nth_drop [OF assms(2)] .
  then have "separated P lo hi (take m ks @ ks ! m # drop (Suc m) ks) (take (Suc m) cs @ drop (Suc m) cs)"
    using assms(1) by simp
  with separated_append [OF l, of P lo hi]
  show "separated P lo (Some (ks ! m)) (take m ks) (take (Suc m) cs)"
    "separated P (Some (ks ! m)) hi (drop (Suc m) ks) (drop (Suc m) cs)" by blast+
qed

text \<open>The child at position \<open>i\<close>, with its interval and its neighbours.\<close>

definition range_lo :: "key option \<Rightarrow> key list \<Rightarrow> nat \<Rightarrow> key option" where
  "range_lo lo ks i = (if i = 0 then lo else Some (ks ! (i - 1)))"

definition range_hi :: "key option \<Rightarrow> key list \<Rightarrow> nat \<Rightarrow> key option" where
  "range_hi hi ks i = (if i < length ks then Some (ks ! i) else hi)"

lemma range_Cons [simp]:
  "range_lo lo ks 0 = lo" "range_lo lo (k # ks) (Suc j) = range_lo (Some k) ks j"
  "range_hi hi [] j = hi" "range_hi hi (k # ks) 0 = Some k"
  "range_hi hi (k # ks) (Suc j) = range_hi hi ks j"
  by (auto simp: range_lo_def range_hi_def nth_Cons')

lemma separated_nth:
  "separated P lo hi ks cs \<Longrightarrow> i < length cs \<Longrightarrow>
     P (range_lo lo ks i) (range_hi hi ks i) (cs ! i) \<and> nonempty_range (range_lo lo ks i) (range_hi hi ks i)"
proof (induction P lo hi ks cs arbitrary: i rule: separated.induct)
  case (2 P lo hi k ks c cs)
  then show ?case by (cases i) auto
qed auto

lemma separated_update:
  "separated P lo hi ks cs \<Longrightarrow> P (range_lo lo ks i) (range_hi hi ks i) c \<Longrightarrow>
     separated P lo hi ks (cs[i := c])"
proof (induction P lo hi ks cs arbitrary: i rule: separated.induct)
  case (1 P lo hi c)
  then show ?case by (cases i) auto
next
  case (2 P lo hi k ks d cs)
  then show ?case by (cases i) auto
qed auto

lemma separated_insert:
  assumes "separated P lo hi ks cs" "i < length cs"
    "P (range_lo lo ks i) (Some s) l" "P (Some s) (range_hi hi ks i) r"
    "nonempty_range (range_lo lo ks i) (Some s)" "nonempty_range (Some s) (range_hi hi ks i)"
  shows "separated P lo hi (insert_at i s ks) (insert_at (Suc i) r (cs[i := l]))"
  using assms
proof (induction P lo hi ks cs arbitrary: i rule: separated.induct)
  case (2 P lo hi k ks d cs)
  then show ?case by (cases i) (auto simp: insert_at_def)
qed (auto simp: insert_at_def)

lemma child_slot_le: "child_slot ks key \<le> length ks"
  by (simp add: child_slot_def partition_point_def length_takeWhile_le)

lemma child_slot_range:
  assumes "in_range lo hi key"
  shows "in_range (range_lo lo ks (child_slot ks key)) (range_hi hi ks (child_slot ks key)) key"
proof -
  let ?i = "length (takeWhile (\<lambda>k. k \<le> key) ks)"
  have "ks ! (?i - 1) \<le> key" if "?i \<noteq> 0"
  proof -
    have "takeWhile (\<lambda>k. k \<le> key) ks ! (?i - 1) \<in> set (takeWhile (\<lambda>k. k \<le> key) ks)"
      using that by (intro nth_mem) simp
    then have "takeWhile (\<lambda>k. k \<le> key) ks ! (?i - 1) \<le> key" by (metis set_takeWhileD)
    then show ?thesis using that by (simp add: takeWhile_nth)
  qed
  moreover have "key < ks ! ?i" if "?i < length ks"
    using nth_length_takeWhile [OF that] by simp
  ultimately show ?thesis
    using assms by (auto simp: child_slot_def partition_point_def range_lo_def range_hi_def in_range_def
        split: option.splits)
qed

text \<open>Entries of a separated list of children: sorted, in range, and split around a child.\<close>

lemma in_range_weaken:
  "in_range lo (Some k) x \<Longrightarrow> nonempty_range (Some k) hi \<Longrightarrow> in_range lo hi x"
  "in_range (Some k) hi x \<Longrightarrow> nonempty_range lo (Some k) \<Longrightarrow> in_range lo hi x"
  by (auto simp: in_range_def nonempty_range_def split: option.splits)

definition entries_in :: "key option \<Rightarrow> key option \<Rightarrow> (key \<times> 'r) list \<Rightarrow> bool" where
  "entries_in lo hi ps \<longleftrightarrow> sorted_keys ps \<and> (\<forall>p \<in> set ps. in_range lo hi (fst p))"

lemma entries_inD:
  "entries_in lo hi ps \<Longrightarrow> sorted_keys ps"
  "entries_in lo hi ps \<Longrightarrow> p \<in> set ps \<Longrightarrow> in_range lo hi (fst p)"
  "entries_in lo (Some k) ps \<Longrightarrow> p \<in> set ps \<Longrightarrow> fst p < k"
  "entries_in (Some k) hi ps \<Longrightarrow> p \<in> set ps \<Longrightarrow> k \<le> fst p"
  by (auto simp: entries_in_def in_range_def)

lemma entries_in_append:
  assumes "entries_in lo (Some k) ps" "entries_in (Some k) hi qs"
    "nonempty_range lo (Some k)" "nonempty_range (Some k) hi"
  shows "entries_in lo hi (ps @ qs)"
proof -
  have "fst p < fst q" if "p \<in> set ps" "q \<in> set qs" for p q
  proof -
    have "fst p < k" "k \<le> fst q" using assms(1,2) that by (auto simp: entries_in_def in_range_def)
    then show ?thesis by (rule order.strict_trans2)
  qed
  moreover have "in_range lo hi (fst p)" if "p \<in> set ps \<union> set qs" for p
    using assms that in_range_weaken unfolding entries_in_def by blast
  ultimately show ?thesis using assms(1,2) by (simp add: entries_in_def)
qed

lemma separated_entries:
  assumes "separated P lo hi ks cs" "\<And>lo hi c. P lo hi c \<Longrightarrow> entries_in lo hi (E c)"
  shows "entries_in lo hi (concat (map E cs))"
  using assms
proof (induction P lo hi ks cs rule: separated.induct)
  case (2 P lo hi k ks c cs)
  then have "nonempty_range (Some k) hi" using separated_range by auto
  then show ?case using 2 entries_in_append [of lo k "E c" hi "concat (map E cs)"] by auto
qed auto

lemma separated_around:
  assumes s: "separated P lo hi ks cs" and i: "i < length cs"
    and E: "\<And>lo hi c. P lo hi c \<Longrightarrow> entries_in lo hi (E c)"
    and k: "in_range (range_lo lo ks i) (range_hi hi ks i) key"
  shows "\<forall>p \<in> set (concat (map E (take i cs))). fst p < key"
    "\<forall>p \<in> set (concat (map E (drop (Suc i) cs))). key < fst p"
proof -
  show "\<forall>p \<in> set (concat (map E (take i cs))). fst p < key"
  proof (cases i)
    case (Suc j)
    have j: "j < length ks" using i Suc separated_length [OF s] by simp
    have *: "entries_in lo (Some (ks ! j)) (concat (map E (take (Suc j) cs)))"
      using separated_entries [OF separated_cut(1) [OF s j] E] .
    have "ks ! j \<le> key" using k Suc by (auto simp: range_lo_def in_range_def)
    then show ?thesis unfolding Suc by (intro ballI order.strict_trans2 [OF entries_inD(3) [OF *]])
  qed simp
  show "\<forall>p \<in> set (concat (map E (drop (Suc i) cs))). key < fst p"
  proof (cases "i < length ks")
    case True
    have *: "entries_in (Some (ks ! i)) hi (concat (map E (drop (Suc i) cs)))"
      using separated_entries [OF separated_cut(2) [OF s True] E] .
    have "key < ks ! i" using k True by (auto simp: range_hi_def in_range_def)
    then show ?thesis by (intro ballI order.strict_trans2 [OF _ entries_inD(4) [OF *]])
  next
    case False
    then show ?thesis using i separated_length [OF s] by simp
  qed
qed

text \<open>The invariant.\<close>

definition rec_wf :: "cap \<Rightarrow> leaf_shape \<Rightarrow> key \<Rightarrow> nat \<Rightarrow> bool" where
  "rec_wf cp sh k w \<longleftrightarrow> length k \<le> w \<and> rec_fits cp sh w"

definition parts_wf :: "cap \<Rightarrow> leaf_shape \<Rightarrow> key option \<Rightarrow> key option \<Rightarrow> key list \<Rightarrow> 'r list
    \<Rightarrow> nat list \<Rightarrow> bool" where
  "parts_wf cp sh lo hi ks vs ws \<longleftrightarrow> length vs = length ks \<and> list_all2 (rec_wf cp sh) ks ws
     \<and> sorted_wrt (<) ks \<and> (\<forall>k \<in> set ks. in_range lo hi k) \<and> leaf_payload ws sh \<le> cap_c cp"

definition leaf_wf :: "cap \<Rightarrow> leaf_shape \<Rightarrow> key option \<Rightarrow> key option \<Rightarrow> page_ref \<Rightarrow> 'r leaf_form
    \<Rightarrow> bool" where
  "leaf_wf cp sh lo hi p lf \<longleftrightarrow>
     (case lf of Decoded _ _ _ \<Rightarrow> dirty p \<longrightarrow> p = NONE | Packed _ \<Rightarrow> \<not> dirty p)
     \<and> (case decoded_parts lf of Inr (ks, vs, ws) \<Rightarrow> parts_wf cp sh lo hi ks vs ws | Inl _ \<Rightarrow> False)"

fun node_wf :: "'r leaf_source \<Rightarrow> cap \<Rightarrow> leaf_shape \<Rightarrow> nat \<Rightarrow> key option \<Rightarrow> key option \<Rightarrow> 'r node
    \<Rightarrow> bool" where
  "node_wf src cp sh 0 lo hi n =
     (case n of Leaf p lf \<Rightarrow> leaf_wf cp sh lo hi p lf | Interior _ _ _ \<Rightarrow> False)"
| "node_wf src cp sh (Suc h) lo hi n =
     (case n of
        Leaf _ _ \<Rightarrow> False
      | Interior p ks cs \<Rightarrow> (dirty p \<longrightarrow> p = NONE) \<and> (\<forall>k \<in> set ks. sep_fits cp k)
          \<and> interior_payload cp ks \<le> cap_c cp
          \<and> separated (\<lambda>lo hi c. case resolve src c of
               Some (Inr n) \<Rightarrow> node_wf src cp sh h lo hi n | _ \<Rightarrow> False) lo hi ks cs)"

definition child_wf :: "'r leaf_source \<Rightarrow> cap \<Rightarrow> leaf_shape \<Rightarrow> nat \<Rightarrow> key option \<Rightarrow> key option
    \<Rightarrow> 'r child \<Rightarrow> bool" where
  "child_wf src cp sh h lo hi c =
     (case resolve src c of Some (Inr n) \<Rightarrow> node_wf src cp sh h lo hi n | _ \<Rightarrow> False)"

lemma child_wf_iff:
  "child_wf src cp sh h lo hi c \<longleftrightarrow> (\<exists>n. resolve src c = Some (Inr n) \<and> node_wf src cp sh h lo hi n)"
  by (auto simp: child_wf_def split: option.splits sum.splits)

lemma child_wf_Resident [simp]:
  "child_wf src cp sh h lo hi (Resident n) = node_wf src cp sh h lo hi n"
  by (simp add: child_wf_def)

lemma node_wf_Suc:
  "node_wf src cp sh (Suc h) lo hi n \<longleftrightarrow> (\<exists>p ks cs. n = Interior p ks cs \<and> (dirty p \<longrightarrow> p = NONE)
     \<and> (\<forall>k \<in> set ks. sep_fits cp k) \<and> interior_payload cp ks \<le> cap_c cp
     \<and> separated (child_wf src cp sh h) lo hi ks cs)"
  by (simp add: child_wf_def [abs_def] split: node.splits)

lemma node_wf_0: "node_wf src cp sh 0 lo hi n \<longleftrightarrow> (\<exists>p lf. n = Leaf p lf \<and> leaf_wf cp sh lo hi p lf)"
  by (simp split: node.splits)

declare node_wf.simps [simp del]

lemma leaf_wf_parts:
  assumes "leaf_wf cp sh lo hi p lf"
  obtains ks vs ws where "decoded_parts lf = Inr (ks, vs, ws)" "parts_wf cp sh lo hi ks vs ws"
    "leaf_keys lf = ks" "leaf_weights lf = ws" "leaf_entries lf = zip ks vs"
proof -
  obtain ks vs ws where d: "decoded_parts lf = Inr (ks, vs, ws)" "parts_wf cp sh lo hi ks vs ws"
    using assms by (auto simp: leaf_wf_def split: sum.splits)
  moreover have "leaf_keys lf = ks" "leaf_weights lf = ws" using d(1) by (cases lf; auto)+
  ultimately show ?thesis using that by (simp add: leaf_entries_def)
qed

lemma parts_entries_in: "parts_wf cp sh lo hi ks vs ws \<Longrightarrow> entries_in lo hi (zip ks vs)"
  by (auto simp: parts_wf_def entries_in_def sorted_keys_def set_zip)

lemma node_wf_entries: "node_wf src cp sh h lo hi n \<Longrightarrow> entries_in lo hi (node_entries src n)"
proof (induction h arbitrary: lo hi n)
  case 0
  then obtain p lf where n: "n = Leaf p lf" "leaf_wf cp sh lo hi p lf" by (auto simp: node_wf_0)
  from n(2) show ?case by (rule leaf_wf_parts) (auto simp: n(1) intro: parts_entries_in)
next
  case (Suc h)
  then obtain p ks cs where n: "n = Interior p ks cs" "separated (child_wf src cp sh h) lo hi ks cs"
    by (auto simp: node_wf_Suc)
  have "entries_in lo hi (child_entries src c)" if "child_wf src cp sh h lo hi c" for lo hi c
    using that Suc.IH by (auto simp: child_wf_iff child_entries_def)
  from separated_entries [OF n(2) this] show ?case unfolding n(1) interior_entries .
qed

lemma child_wf_entries: "child_wf src cp sh h lo hi c \<Longrightarrow> entries_in lo hi (child_entries src c)"
  unfolding child_wf_iff child_entries_def by (auto intro: node_wf_entries)

text \<open>An interior node as its descent for \<open>key\<close> sees it.\<close>

lemma descent:
  assumes s: "separated (child_wf src cp sh h) lo hi ks cs" and k: "in_range lo hi key"
  defines "i \<equiv> child_slot ks key"
  obtains c n where "nth_opt cs i = Some c" "i < length cs" "i \<le> length ks" "c = cs ! i" "resolve src c = Some (Inr n)"
    "node_wf src cp sh h (range_lo lo ks i) (range_hi hi ks i) n"
    "in_range (range_lo lo ks i) (range_hi hi ks i) key"
    "concat (map (child_entries src) cs) = concat (map (child_entries src) (take i cs))
       @ node_entries src n @ concat (map (child_entries src) (drop (Suc i) cs))"
    "\<forall>p \<in> set (concat (map (child_entries src) (take i cs))). fst p < key"
    "\<forall>p \<in> set (concat (map (child_entries src) (drop (Suc i) cs))). key < fst p"
proof -
  have i: "i < length cs" "i \<le> length ks"
    using child_slot_le [of ks key] separated_length [OF s] by (auto simp: i_def)
  have r: "in_range (range_lo lo ks i) (range_hi hi ks i) key"
    unfolding i_def by (rule child_slot_range [OF k])
  have "child_wf src cp sh h (range_lo lo ks i) (range_hi hi ks i) (cs ! i)"
    using separated_nth [OF s i(1)] by simp
  then obtain n where n: "resolve src (cs ! i) = Some (Inr n)"
    "node_wf src cp sh h (range_lo lo ks i) (range_hi hi ks i) n" by (auto simp: child_wf_iff)
  have "cs = take i cs @ cs ! i # drop (Suc i) cs" by (rule id_take_nth_drop [OF i(1)])
  then have "map (child_entries src) cs = map (child_entries src) (take i cs) @ child_entries src (cs ! i)
      # map (child_entries src) (drop (Suc i) cs)" by (metis list.simps(9) map_append)
  then have "concat (map (child_entries src) cs) = concat (map (child_entries src) (take i cs))
       @ node_entries src n @ concat (map (child_entries src) (drop (Suc i) cs))"
    using n(1) by (simp add: child_entries_def)
  moreover have "\<forall>p \<in> set (concat (map (child_entries src) (take i cs))). fst p < key"
    "\<forall>p \<in> set (concat (map (child_entries src) (drop (Suc i) cs))). key < fst p"
    by (rule separated_around [OF s i(1) _ r], rule child_wf_entries, assumption)+
  ultimately show ?thesis
    using that [OF nth_opt_simps(1) [OF i(1)] i refl n r] by blast
qed

section \<open>Lookup\<close>

lemma leaf_row_at_wf:
  assumes "leaf_wf cp sh lo hi p lf" "decoded_parts lf = Inr (ks, vs, ws)" "i < length ks"
  shows "leaf_row_at lf i = Some (Inr (vs ! i))"
proof -
  have len: "length vs = length ks" using assms(1,2) by (simp add: leaf_wf_def parts_wf_def)
  show ?thesis
  proof (cases lf)
    case (Packed pk)
    have "res_all rs = Inr xs \<Longrightarrow> length xs = length rs \<and> (\<forall>i < length rs. rs ! i = Inr (xs ! i))"
      for rs :: "'a result list" and xs
      by (induction rs arbitrary: xs) (auto simp: nth_Cons split: nat.splits)
    then show ?thesis using assms len Packed by fastforce
  qed (use assms len in simp)
qed

lemma leaf_get_wf:
  assumes lf: "leaf_wf cp sh lo hi p lf"
  shows "leaf_get lf key nodes = Some (Inr (map_of (leaf_entries lf) key, nodes,
    of_bool (map_of (leaf_entries lf) key \<noteq> None)))"
proof -
  obtain ks vs ws where d: "decoded_parts lf = Inr (ks, vs, ws)" "parts_wf cp sh lo hi ks vs ws"
    "leaf_keys lf = ks" "leaf_entries lf = zip ks vs"
    using leaf_wf_parts [OF lf] by metis
  have s: "sorted_wrt (<) ks" and len: "length vs = length ks" using d(2) by (auto simp: parts_wf_def)
  show ?thesis
  proof (cases "key \<in> set ks")
    case True
    then obtain i where i: "search ks key = Inr i" by (rule search_member [OF s])
    then have ik: "i < length ks" "ks ! i = key" using search_correct [OF s, of key] by auto
    have "distinct ks" using s by (simp add: strict_sorted_iff)
    then have "map_of (zip ks vs) key = Some (vs ! i)"
      using ik len by (metis map_of_zip_nth)
    then show ?thesis
      using leaf_row_at_wf [OF lf d(1) ik(1)] by (simp add: leaf_get_def d(3,4) i)
  next
    case False
    then obtain i where i: "search ks key = Inl i" by (rule search_absent [OF s])
    have "map_of (zip ks vs) key = None" using False len by simp
    then show ?thesis by (simp add: leaf_get_def d(3,4) i)
  qed
qed

lemma get_loop_wf:
  assumes "node_wf src cp sh h lo hi n" "in_range lo hi key"
  shows "get_loop src key nodes n = Some (Inr (map_of (node_entries src n) key, nodes + h,
    of_bool (map_of (node_entries src n) key \<noteq> None)))"
  using assms
proof (induction h arbitrary: lo hi n nodes)
  case 0
  then obtain p lf where n: "n = Leaf p lf" "leaf_wf cp sh lo hi p lf" by (auto simp: node_wf_0)
  show ?case using leaf_get_wf [OF n(2)] by (simp add: n(1))
next
  case (Suc h)
  then obtain p ks cs where n: "n = Interior p ks cs" "separated (child_wf src cp sh h) lo hi ks cs"
    by (auto simp: node_wf_Suc)
  define i where "i = child_slot ks key"
  obtain c m where c: "nth_opt cs i = Some c" "resolve src c = Some (Inr m)"
    "node_wf src cp sh h (range_lo lo ks i) (range_hi hi ks i) m"
    "in_range (range_lo lo ks i) (range_hi hi ks i) key"
    "concat (map (child_entries src) cs) = concat (map (child_entries src) (take i cs))
       @ node_entries src m @ concat (map (child_entries src) (drop (Suc i) cs))"
    "\<forall>p \<in> set (concat (map (child_entries src) (take i cs))). fst p < key"
    "\<forall>p \<in> set (concat (map (child_entries src) (drop (Suc i) cs))). key < fst p"
    using descent [OF n(2) Suc.prems(2)] unfolding i_def by metis
  have e: "map_of (node_entries src n) key = map_of (node_entries src m) key"
    unfolding n(1) interior_entries c(5) by (rule map_of_append_out [OF c(6,7)])
  note IH = Suc.IH [OF c(3,4), of "nodes + 1"]
  show ?case
  proof (cases c)
    case (Resident r)
    then show ?thesis unfolding e using c(1,2) IH by (simp add: n(1) i_def)
  next
    case (OnDisk q)
    then have l: "load_leaf src q = Some (Inr m)" using c(2) by simp
    then obtain pl where m: "m = Leaf q (Packed pl)" using load_leaf_is_leaf by blast
    show ?thesis unfolding e using c(1) IH l by (simp add: n(1) i_def OnDisk m)
  qed
qed

section \<open>The map\<close>

definition pmap_entries :: "'r leaf_source \<Rightarrow> 'r pmap \<Rightarrow> (key \<times> 'r) list" where
  "pmap_entries src m = (case root m of None \<Rightarrow> [] | Some n \<Rightarrow> node_entries src n)"

definition pmap_wf :: "'r leaf_source \<Rightarrow> cap \<Rightarrow> leaf_shape \<Rightarrow> 'r pmap \<Rightarrow> bool" where
  "pmap_wf src cp sh m \<longleftrightarrow>
     (case root m of None \<Rightarrow> True | Some n \<Rightarrow> \<exists>h. node_wf src cp sh h None None n)
     \<and> (case pm_count m of None \<Rightarrow> True | Some x \<Rightarrow> x = int (length (pmap_entries src m)))"

lemma in_range_None [simp]: "in_range None None k"
  by (simp add: in_range_def)

lemma nonempty_range_None [simp]: "nonempty_range None x" "nonempty_range x None"
  by (auto simp: nonempty_range_def split: option.splits)

lemma pmap_wf_sorted: "pmap_wf src cp sh m \<Longrightarrow> sorted_keys (pmap_entries src m)"
  by (auto simp: pmap_wf_def pmap_entries_def split: option.splits
      dest!: node_wf_entries entries_inD(1))

end
