(* ===== verification/Scan_Loop.thy ===== *)
theory Scan_Loop
  imports Prelude
begin

text \<open>
  Loops of the scans: a body that edits a state, may fail, may panic and says whether to go on.
  The state is returned with the error, because the callers observe it. Shown here: how a loop
  splits over concatenated inputs, and that projections, counters and invariants of the body
  carry over to the loop.
\<close>

type_synonym ('s, 'a) prog = "'s \<Rightarrow> ('s \<times> 'a result) option"

definition st_bind :: "('s \<times> ('e + 'a)) option \<Rightarrow> ('a \<Rightarrow> 's \<Rightarrow> ('s \<times> ('e + 'b)) option)
    \<Rightarrow> ('s \<times> ('e + 'b)) option" where
  "st_bind x f = (case x of
      None \<Rightarrow> None | Some (s, Inl e) \<Rightarrow> Some (s, Inl e) | Some (s, Inr a) \<Rightarrow> f a s)"

lemma st_bind_simps [simp]:
  "st_bind None f = None" "st_bind (Some (s, Inl e)) f = Some (s, Inl e)"
  "st_bind (Some (s, Inr a)) f = f a s"
  by (simp_all add: st_bind_def)

lemma st_bind_cong [fundef_cong]:
  "x = y \<Longrightarrow> (\<And>s a. y = Some (s, Inr a) \<Longrightarrow> f a s = g a s) \<Longrightarrow> st_bind x f = st_bind y g"
  by (auto simp: st_bind_def split: option.splits sum.splits)

fun for_while :: "('i \<Rightarrow> ('s, bool) prog) \<Rightarrow> 'i list \<Rightarrow> ('s, bool) prog" where
  "for_while f [] s = Some (s, Inr True)"
| "for_while f (i # is) s =
     st_bind (f i s) (\<lambda>go s. if go then for_while f is s else Some (s, Inr False))"

lemma for_while_cong [fundef_cong]:
  assumes "xs = ys" "s = t" "\<And>i s. i \<in> set ys \<Longrightarrow> f i s = g i s"
  shows "for_while f xs s = for_while g ys t"
  unfolding assms(1,2) using assms(3)
  by (induction ys arbitrary: t) (auto intro!: arg_cong [where f = "st_bind _"] ext simp: fun_eq_iff)

lemma for_while_append:
  "for_while f (xs @ ys) s =
     st_bind (for_while f xs s) (\<lambda>go s. if go then for_while f ys s else Some (s, Inr False))"
proof (induction xs arbitrary: s)
  case (Cons x xs)
  show ?case
  proof (cases "f x s")
    case (Some p)
    then obtain t r where p: "f x s = Some (t, r)" by (cases p) auto
    show ?thesis using Cons p by (cases r) auto
  qed simp
qed simp

lemma for_while_concat: "for_while f (concat xss) s = for_while (for_while f) xss s"
proof (induction xss arbitrary: s)
  case (Cons xs xss)
  have "(\<lambda>s. for_while f (concat xss) s) = for_while (for_while f) xss"
    by (intro ext Cons)
  then show ?case by (simp add: for_while_append cong: if_cong)
qed simp

lemma for_while_map: "for_while f (map g xs) s = for_while (\<lambda>x. f (g x)) xs s"
  by (induction xs arbitrary: s) (auto cong: if_cong)

text \<open>A projection of the state that the body projects is respected by the loop.\<close>

definition projects :: "('s \<Rightarrow> 't) \<Rightarrow> ('s, 'a) prog \<Rightarrow> ('t, 'a) prog \<Rightarrow> bool" where
  "projects v f g \<longleftrightarrow> (\<forall>s. map_option (apfst v) (f s) = g (v s))"

lemma projectsD: "projects v f g \<Longrightarrow> map_option (apfst v) (f s) = g (v s)"
  by (simp add: projects_def)

lemma for_while_projects:
  "(\<And>i. i \<in> set xs \<Longrightarrow> projects v (f i) (g i)) \<Longrightarrow> projects v (for_while f xs) (for_while g xs)"
proof (induction xs)
  case (Cons i xs)
  have IH: "map_option (apfst v) (for_while f xs t) = for_while g xs (v t)" for t
    using Cons by (auto simp: projects_def)
  show ?case unfolding projects_def
  proof
    fix s
    have h: "map_option (apfst v) (f i s) = g i (v s)" using Cons.prems by (auto simp: projects_def)
    show "map_option (apfst v) (for_while f (i # xs) s) = for_while g (i # xs) (v s)"
    proof (cases "f i s")
      case (Some p)
      then obtain t r where p: "f i s = Some (t, r)" by (cases p) auto
      then have "g i (v s) = Some (v t, r)" using h by auto
      then show ?thesis using p IH by (cases r) auto
    qed (use h in auto)
  qed
qed (simp add: projects_def)

text \<open>A counter the body raises by a fixed amount per position.\<close>

lemma for_while_count:
  fixes c :: "'s \<Rightarrow> nat"
  assumes "\<And>i s t. i \<in> set xs \<Longrightarrow> f i s = Some (t, Inr True) \<Longrightarrow> c t = c s + k i"
  shows "for_while f xs s = Some (t, Inr True) \<Longrightarrow> c t = c s + sum_list (map k xs)"
  using assms
proof (induction xs arbitrary: s)
  case (Cons i xs)
  then obtain u where u: "f i s = Some (u, Inr True)" "for_while f xs u = Some (t, Inr True)"
    by (auto simp: st_bind_def split: option.splits sum.splits if_splits)
  have "c u = c s + k i" using u(1) Cons.prems(2) by simp
  moreover have "c t = c u + sum_list (map k xs)" using Cons.IH [OF u(2)] Cons.prems(2) by simp
  ultimately show ?case by simp
qed simp

lemma for_while_total:
  "(\<And>i s. i \<in> set xs \<Longrightarrow> f i s = Some (u i s, Inr True)) \<Longrightarrow> for_while f xs s = Some (fold u xs s, Inr True)"
  by (induction xs arbitrary: s) auto

lemma fold_push: "fold (\<lambda>i out. out @ E i) xs out = out @ concat (map E xs)"
  by (induction xs arbitrary: out) auto

lemma fold_push_count:
  "fold (\<lambda>i (out, k). (out @ E i, k + (c i :: nat))) xs (out, k) = (out @ concat (map E xs), k + sum_list (map c xs))"
  by (induction xs arbitrary: out k) auto

lemma fold_count: "fold (\<lambda>i k. k + (c i :: nat)) xs k = k + sum_list (map c xs)"
  by (induction xs arbitrary: k) auto

lemma for_while_invariant:
  assumes "\<And>i s t r. i \<in> set xs \<Longrightarrow> P s \<Longrightarrow> f i s = Some (t, r) \<Longrightarrow> P t"
  shows "P s \<Longrightarrow> for_while f xs s = Some (t, r) \<Longrightarrow> P t"
  using assms
proof (induction xs arbitrary: s)
  case (Cons i xs)
  obtain u q where u: "f i s = Some (u, q)" using Cons.prems(2) by (cases "f i s") auto
  have pu: "P u" using Cons.prems(1,3) u by (metis list.set_intros(1))
  show ?case
  proof (cases q)
    case (Inl e)
    then show ?thesis using Cons.prems(2) u pu by simp
  next
    case (Inr go)
    show ?thesis
    proof (cases go)
      case True
      then have "for_while f xs u = Some (t, r)" using Cons.prems(2) u Inr by simp
      then show ?thesis using Cons.IH [OF pu] Cons.prems(3) by (meson list.set_intros(2))
    next
      case False
      then show ?thesis using Cons.prems(2) u Inr pu by simp
    qed
  qed
qed simp

lemma projects_ident: "projects (\<lambda>x. x) f g \<longleftrightarrow> f = g"
proof -
  have "map_option (apfst (\<lambda>x. x)) y = y" for y :: "('c \<times> 'd result) option" by (cases y) auto
  then show ?thesis by (auto simp: projects_def)
qed

lemma projects_shift: "projects v f g \<Longrightarrow> (\<And>s. v (u s) = v s) \<Longrightarrow> projects v (\<lambda>s. f (u s)) g"
  by (simp add: projects_def)


end
