(* ===== verification/Pmap_Scan.thy ===== *)
theory Pmap_Scan
  imports Pmap_Inv Scan_Loop
begin

text \<open>
  The scans of \<open>pmap.rs\<close>: key bounds and the windows they cut out of a node, the collecting,
  folding and visiting walks in both directions, the read-ahead hints, and the node counts the
  cost model charges. A visitor is a function of its own state; \<open>Ok(())\<close> of the walks without
  early stop is \<open>Inr True\<close>. Hints are recorded in the read-ahead state: they have no effect on
  what a page faults to.
\<close>

section \<open>Bounds\<close>

record key_bound =
  kb_lo :: "key option"
  kb_lo_inc :: bool
  kb_hi :: "key option"
  kb_hi_inc :: bool

definition unbounded :: key_bound where
  "unbounded = \<lparr> kb_lo = None, kb_lo_inc = False, kb_hi = None, kb_hi_inc = False \<rparr>"

definition child_window :: "key_bound \<Rightarrow> key list \<Rightarrow> nat \<times> nat" where
  "child_window b ks =
     (let a = (case kb_lo b of None \<Rightarrow> 0 | Some lo \<Rightarrow> partition_point (\<lambda>k. k \<le> lo) ks);
          z = (case kb_hi b of
                 None \<Rightarrow> length ks
               | Some hi \<Rightarrow> if kb_hi_inc b then partition_point (\<lambda>k. k \<le> hi) ks
                            else partition_point (\<lambda>k. k < hi) ks)
      in (a, max z a))"

function lower_bound_loop :: "key list \<Rightarrow> key \<Rightarrow> bool \<Rightarrow> nat \<Rightarrow> nat \<Rightarrow> nat" where
  "lower_bound_loop ks key inclusive lo hi =
     (if lo < hi then
        let mid = (lo + hi) div 2;
            before = (if inclusive then ks ! mid < key else ks ! mid \<le> key)
        in if before then lower_bound_loop ks key inclusive (mid + 1) hi
           else lower_bound_loop ks key inclusive lo mid
      else lo)"
  by auto
termination by (relation "measure (\<lambda>(_, _, _, lo, hi). hi - lo)") auto

declare lower_bound_loop.simps [simp del]

definition lower_bound :: "key list \<Rightarrow> key \<Rightarrow> bool \<Rightarrow> nat" where
  "lower_bound ks key inclusive = lower_bound_loop ks key inclusive 0 (length ks)"

definition entry_window :: "key_bound \<Rightarrow> key list \<Rightarrow> nat \<times> nat" where
  "entry_window b ks =
     (let a = (case kb_lo b of None \<Rightarrow> 0 | Some lo \<Rightarrow> lower_bound ks lo (kb_lo_inc b));
          z = (case kb_hi b of None \<Rightarrow> length ks | Some hi \<Rightarrow> lower_bound ks hi (\<not> kb_hi_inc b))
      in (a, max z a))"

text \<open>The position loops: a window, walked upwards or downwards.\<close>

definition entry_positions :: "bool \<Rightarrow> key_bound \<Rightarrow> key list \<Rightarrow> nat list" where
  "entry_positions reverse b ks = (case entry_window b ks of (ef, el) \<Rightarrow>
     if reverse then rev [ef..<el] else [ef..<el])"

definition child_positions :: "bool \<Rightarrow> key_bound \<Rightarrow> key list \<Rightarrow> nat list" where
  "child_positions reverse b ks = (case child_window b ks of (cf, cl) \<Rightarrow>
     if reverse then rev [cf..<Suc cl] else [cf..<Suc cl])"

section \<open>Walks\<close>

text \<open>One record of a leaf, and one child: a resident node, or the leaf its page faults to.\<close>

definition leaf_pair :: "'r leaf_form \<Rightarrow> nat \<Rightarrow> (key \<times> 'r) io" where
  "leaf_pair lf i = (case nth_opt (leaf_keys lf) i of
      None \<Rightarrow> None | Some k \<Rightarrow> io_bind (leaf_row_at lf i) (\<lambda>r. Some (Inr (k, r))))"

definition with_io :: "'a io \<Rightarrow> ('a \<Rightarrow> ('s, 'b) prog) \<Rightarrow> ('s, 'b) prog" where
  "with_io x f s = (case x of None \<Rightarrow> None | Some (Inl e) \<Rightarrow> Some (s, Inl e) | Some (Inr a) \<Rightarrow> f a s)"

lemma with_io_simps [simp]:
  "with_io None f s = None" "with_io (Some (Inl e)) f s = Some (s, Inl e)"
  "with_io (Some (Inr a)) f s = f a s"
  by (simp_all add: with_io_def)

definition with_child :: "'r leaf_source \<Rightarrow> 'r child list \<Rightarrow> nat \<Rightarrow> ('r node \<Rightarrow> ('s, 'a) prog)
    \<Rightarrow> ('r leaf_form \<Rightarrow> ('s, 'a) prog) \<Rightarrow> ('s, 'a) prog" where
  "with_child src cs i f g s =
     (case nth_opt cs i of
        None \<Rightarrow> None
      | Some (Resident n) \<Rightarrow> f n s
      | Some (OnDisk q) \<Rightarrow> with_io (load_leaf src q) (\<lambda>n. case n of
          Leaf _ lf \<Rightarrow> g lf | Interior _ _ _ \<Rightarrow> (\<lambda>_. None)) s)"

lemma with_child_cong [fundef_cong]:
  "src = src' \<Longrightarrow> cs = cs' \<Longrightarrow> i = i' \<Longrightarrow> s = s'
    \<Longrightarrow> (\<And>n. nth_opt cs' i' = Some (Resident n) \<Longrightarrow> f n s' = f' n s') \<Longrightarrow> g = g'
    \<Longrightarrow> with_child src cs i f g s = with_child src' cs' i' f' g' s'"
  by (auto simp: with_child_def split: option.splits child.splits)

lemma with_child_is_child:
  assumes "\<And>q lf s. g lf s = f (Leaf q lf) s"
  shows "with_child src cs i f g s = with_io (child cs i src) f s"
  using assms
  by (auto simp: with_child_def child_def with_io_def split: option.splits child.splits sum.splits node.splits
      dest: load_leaf_is_leaf)

definition push_pair :: "'r leaf_form \<Rightarrow> nat \<Rightarrow> ((key \<times> 'r) list, bool) prog" where
  "push_pair lf i = with_io (leaf_pair lf i) (\<lambda>kr out. Some (out @ [kr], Inr True))"

definition collect_leaf :: "'r leaf_form \<Rightarrow> ((key \<times> 'r) list, bool) prog" where
  "collect_leaf lf = for_while (push_pair lf) [0..<length (leaf_keys lf)]"

lemma nth_child_smaller [termination_simp]:
  "i < length cs \<Longrightarrow> cs ! i = Resident n \<Longrightarrow> size n < Suc (size_list size cs)"
  using resident_child_smaller(1) [of cs i n] by simp

fun collect :: "'r leaf_source \<Rightarrow> 'r node \<Rightarrow> ((key \<times> 'r) list, bool) prog" where
  "collect src (Leaf p lf) out = collect_leaf lf out"
| "collect src (Interior p ks cs) out =
     for_while (\<lambda>i. with_child src cs i (collect src) collect_leaf) [0..<length cs] out"

definition pmap_iter :: "'r pmap \<Rightarrow> 'r leaf_source \<Rightarrow> ((key \<times> 'r) list \<times> bool result) option" where
  "pmap_iter m src = (case root m of None \<Rightarrow> Some ([], Inr True) | Some n \<Rightarrow> collect src n [])"

text \<open>\<open>collect_range\<close>: the state is \<open>out\<close> and \<open>nodes\<close>.\<close>

definition collect_range_leaf :: "key_bound \<Rightarrow> 'r leaf_form \<Rightarrow> ((key \<times> 'r) list \<times> nat, bool) prog" where
  "collect_range_leaf b lf = (\<lambda>(out, nodes). for_while
     (\<lambda>i. with_io (leaf_pair lf i) (\<lambda>kr (out, nodes). Some ((out @ [kr], nodes), Inr True)))
     (entry_positions False b (leaf_keys lf)) (out, nodes + 1))"

fun collect_range :: "key_bound \<Rightarrow> 'r leaf_source \<Rightarrow> 'r node \<Rightarrow> ((key \<times> 'r) list \<times> nat, bool) prog" where
  "collect_range b src (Leaf p lf) s = collect_range_leaf b lf s"
| "collect_range b src (Interior p ks cs) s =
     for_while (\<lambda>i. with_child src cs i (collect_range b src) (collect_range_leaf b))
       (child_positions False b ks) (fst s, snd s + 1)"

definition range_entries_counted :: "'r pmap \<Rightarrow> key_bound \<Rightarrow> 'r leaf_source \<Rightarrow> ((key \<times> 'r) list \<times> nat) io" where
  "range_entries_counted m b src = (case root m of
      None \<Rightarrow> Some (Inr ([], 0))
    | Some n \<Rightarrow> map_option (\<lambda>(s, r). res_bind r (\<lambda>_. Inr s)) (collect_range b src n ([], 0)))"

definition range_entries :: "'r pmap \<Rightarrow> key_bound \<Rightarrow> 'r leaf_source \<Rightarrow> (key \<times> 'r) list io" where
  "range_entries m b src = io_bind (range_entries_counted m b src) (\<lambda>p. Some (Inr (fst p)))"

text \<open>\<open>fold_walk\<close>: the state is the visitor's, \<open>row_count\<close> and \<open>nodes\<close>, kept on an error too.\<close>

definition fold_leaf :: "key_bound \<Rightarrow> ('r leaf_form \<Rightarrow> nat \<Rightarrow> ('s, unit) prog) \<Rightarrow> 'r leaf_form
    \<Rightarrow> ('s \<times> nat \<times> nat, bool) prog" where
  "fold_leaf b visit lf = (\<lambda>(s, row_count, nodes). for_while
     (\<lambda>i (s, row_count, nodes). case visit lf i s of
        None \<Rightarrow> None
      | Some (s, Inl e) \<Rightarrow> Some ((s, row_count, nodes), Inl e)
      | Some (s, Inr _) \<Rightarrow> Some ((s, row_count + 1, nodes), Inr True))
     (entry_positions False b (leaf_keys lf)) (s, row_count, nodes + 1))"

fun fold_walk :: "key_bound \<Rightarrow> 'r leaf_source \<Rightarrow> ('r leaf_form \<Rightarrow> nat \<Rightarrow> ('s, unit) prog) \<Rightarrow> 'r node
    \<Rightarrow> ('s \<times> nat \<times> nat, bool) prog" where
  "fold_walk b src visit (Leaf p lf) s = fold_leaf b visit lf s"
| "fold_walk b src visit (Interior p ks cs) s =
     for_while (\<lambda>i. with_child src cs i (fold_walk b src visit) (fold_leaf b visit))
       (child_positions False b ks) (fst s, fst (snd s), snd (snd s) + 1)"

definition fold_scan :: "'r pmap \<Rightarrow> key_bound \<Rightarrow> 'r leaf_source
    \<Rightarrow> ('r leaf_form \<Rightarrow> nat \<Rightarrow> ('s, unit) prog) \<Rightarrow> 's \<Rightarrow> (('s \<times> nat \<times> nat) \<times> bool result) option" where
  "fold_scan m b src visit s = (case root m of
      None \<Rightarrow> Some ((s, 0, 0), Inr True) | Some n \<Rightarrow> fold_walk b src visit n (s, 0, 0))"

section \<open>Read-ahead\<close>

definition READ_AHEAD_MAX :: nat where "READ_AHEAD_MAX = 64"
definition USIZE_MAX :: nat where "USIZE_MAX = 2 ^ 64 - 1"

text \<open>The window, and the hints sent to the source (a hint has no other effect).\<close>

record read_ahead =
  ra_window :: nat
  ra_hints :: "page_ref list list"

definition read_ahead_new :: read_ahead where
  "read_ahead_new = \<lparr> ra_window = 1, ra_hints = [] \<rparr>"

definition page_of :: "'r child list \<Rightarrow> nat \<Rightarrow> page_ref list" where
  "page_of cs i = (case cs ! i of OnDisk p \<Rightarrow> [p] | Resident _ \<Rightarrow> [])"

definition hint :: "bool \<Rightarrow> 'r child list \<Rightarrow> nat list \<Rightarrow> read_ahead \<Rightarrow> (nat \<times> read_ahead) option" where
  "hint prefetches cs positions ra =
     (if \<not> prefetches then Some (USIZE_MAX, ra)
      else let taken = take (ra_window ra) positions in
        if \<exists>i \<in> set taken. length cs \<le> i then None
        else let pages = concat (map (page_of cs) taken); covered = max (length taken) 1 in
          if pages = [] then Some (covered, ra)
          else let ra = ra\<lparr> ra_window := min (ra_window ra * 2) READ_AHEAD_MAX \<rparr> in
            Some (covered, if length pages > 1 then ra\<lparr> ra_hints := ra_hints ra @ [pages] \<rparr> else ra))"

text \<open>
  The streaming walks. The loop over children carries \<open>hinted\<close>; the rest of the positions is
  what is left to visit. \<open>hinted\<close> is at least 1 when it is decremented.
\<close>

definition visit_leaf :: "bool \<Rightarrow> key_bound \<Rightarrow> (key \<times> 'r \<Rightarrow> ('s, bool) prog) \<Rightarrow> 'r leaf_form
    \<Rightarrow> (read_ahead \<times> 's, bool) prog" where
  "visit_leaf reverse b visit lf = for_while
     (\<lambda>i (ra, s). map_option (\<lambda>(s, r). ((ra, s), r)) (with_io (leaf_pair lf i) visit s))
     (entry_positions reverse b (leaf_keys lf))"

definition hinted_step :: "bool \<Rightarrow> 'r child list \<Rightarrow> nat list \<Rightarrow> (read_ahead \<times> 's, bool) prog
    \<Rightarrow> (nat \<times> read_ahead \<times> 's, bool) prog" where
  "hinted_step prefetches cs rest descend = (\<lambda>(hinted, ra, s).
     case (if hinted = 0 then hint prefetches cs rest ra else Some (hinted, ra)) of
       None \<Rightarrow> None
     | Some (hinted, ra) \<Rightarrow> map_option (\<lambda>(t, r). ((hinted - 1, t), r)) (descend (ra, s)))"

lemma hinted_step_cong [fundef_cong]:
  "p = p' \<Longrightarrow> cs = cs' \<Longrightarrow> rest = rest' \<Longrightarrow> x = x' \<Longrightarrow> (\<And>t. f t = f' t)
    \<Longrightarrow> hinted_step p cs rest f x = hinted_step p' cs' rest' f' x'"
  by (auto simp: hinted_step_def split: option.splits prod.splits)

text \<open>The non-empty suffixes of a list: at each position, what is left to visit.\<close>

fun tails :: "'a list \<Rightarrow> 'a list list" where
  "tails [] = []"
| "tails (x # xs) = (x # xs) # tails xs"

fun walk_range :: "bool \<Rightarrow> bool \<Rightarrow> key_bound \<Rightarrow> 'r leaf_source \<Rightarrow> (key \<times> 'r \<Rightarrow> ('s, bool) prog) \<Rightarrow> 'r node
    \<Rightarrow> (read_ahead \<times> 's, bool) prog" where
  "walk_range reverse pf b src visit (Leaf p lf) s = visit_leaf reverse b visit lf s"
| "walk_range reverse pf b src visit (Interior p ks cs) s =
     map_option (\<lambda>((hinted, t), r). (t, r))
       (for_while (\<lambda>rest. hinted_step pf cs rest
           (with_child src cs (hd rest) (walk_range reverse pf b src visit) (visit_leaf reverse b visit)))
         (tails (child_positions reverse b ks)) (0, s))"

text \<open>The two directions, and the map operations over them.\<close>

definition walk_range_visit :: "bool \<Rightarrow> key_bound \<Rightarrow> 'r leaf_source \<Rightarrow> (key \<times> 'r \<Rightarrow> ('s, bool) prog) \<Rightarrow> 'r node
    \<Rightarrow> (read_ahead \<times> 's, bool) prog" where
  "walk_range_visit = walk_range False"

definition walk_range_visit_rev :: "bool \<Rightarrow> key_bound \<Rightarrow> 'r leaf_source \<Rightarrow> (key \<times> 'r \<Rightarrow> ('s, bool) prog) \<Rightarrow> 'r node
    \<Rightarrow> (read_ahead \<times> 's, bool) prog" where
  "walk_range_visit_rev = walk_range True"

definition run_visit :: "((read_ahead \<times> 's) \<times> bool result) option \<Rightarrow> ('s \<times> unit result) option" where
  "run_visit = map_option (\<lambda>((ra, s), r). (s, res_bind r (\<lambda>_. Inr ())))"

definition scan_range :: "'r pmap \<Rightarrow> key_bound \<Rightarrow> 'r leaf_source \<Rightarrow> bool \<Rightarrow> (key \<times> 'r \<Rightarrow> ('s, bool) prog)
    \<Rightarrow> ('s, unit) prog" where
  "scan_range m b src pf visit s = (case root m of
      None \<Rightarrow> Some (s, Inr ())
    | Some n \<Rightarrow> run_visit (walk_range_visit pf b src visit n (read_ahead_new, s)))"

definition scan_range_rev :: "'r pmap \<Rightarrow> key_bound \<Rightarrow> 'r leaf_source \<Rightarrow> bool \<Rightarrow> (key \<times> 'r \<Rightarrow> ('s, bool) prog)
    \<Rightarrow> ('s, unit) prog" where
  "scan_range_rev m b src pf visit s = (case root m of
      None \<Rightarrow> Some (s, Inr ())
    | Some n \<Rightarrow> run_visit (walk_range_visit_rev pf b src visit n (read_ahead_new, s)))"


section \<open>Node counts\<close>

fun overlap_count :: "key_bound \<Rightarrow> 'r node \<Rightarrow> nat option" where
  "overlap_count b (Leaf p lf) = Some 1"
| "overlap_count b (Interior p ks cs) =
     map_option fst (for_while (\<lambda>i total. case nth_opt cs i of
         None \<Rightarrow> None
       | Some (Resident n) \<Rightarrow> map_option (\<lambda>c. (total + c, Inr True)) (overlap_count b n)
       | Some (OnDisk _) \<Rightarrow> Some (total + 1, Inr True)) (child_positions False b ks) 1)"

definition overlap_node_count :: "'r pmap \<Rightarrow> key_bound \<Rightarrow> nat option" where
  "overlap_node_count m b = (case root m of None \<Rightarrow> Some 0 | Some n \<Rightarrow> overlap_count b n)"

fun count_nodes :: "'r node \<Rightarrow> nat" where
  "count_nodes (Leaf p lf) = 1"
| "count_nodes (Interior p ks cs) =
     (case cs of
        [] \<Rightarrow> 1
      | OnDisk _ # _ \<Rightarrow> 1 + length cs
      | Resident (Leaf _ _) # _ \<Rightarrow> 1 + length cs
      | Resident (Interior _ _ _) # _ \<Rightarrow>
          1 + sum_list (map (\<lambda>c. case c of Resident n \<Rightarrow> count_nodes n | OnDisk _ \<Rightarrow> 1) cs))"

definition node_count :: "'r pmap \<Rightarrow> nat" where
  "node_count m = (case root m of None \<Rightarrow> 0 | Some n \<Rightarrow> count_nodes n)"

fun height_loop :: "nat \<Rightarrow> 'r node \<Rightarrow> nat" where
  "height_loop acc (Leaf p lf) = acc + 1"
| "height_loop acc (Interior p ks cs) =
     (case cs of
        [] \<Rightarrow> acc + 1
      | OnDisk _ # _ \<Rightarrow> acc + 1 + 1
      | Resident n # _ \<Rightarrow> height_loop (acc + 1) n)"

definition height :: "'r pmap \<Rightarrow> nat" where
  "height m = (case root m of None \<Rightarrow> 0 | Some n \<Rightarrow> height_loop 0 n)"


end
