(* ===== verification/Pmap_Update.thy ===== *)
theory Pmap_Update
  imports Pmap_Inv
begin

text \<open>
  Insert and delete: each never panics on a well-formed tree, keeps the invariant, and is the
  update or deletion of one key on the contents, whichever nodes are uniquely owned.
\<close>

section \<open>Insert keeps the invariant\<close>

text \<open>A page capacity under which a record within \<open>RECORD_MAX\<close> always has a home.\<close>

definition cap_wf :: "cap \<Rightarrow> leaf_shape \<Rightarrow> bool" where
  "cap_wf cp sh \<longleftrightarrow> rec_fits cp sh 0 \<and> 2 * (2 * ptr cp + 4) \<le> cap_c cp + RECORD_MAX_RESERVE"

lemma cap_wfD:
  assumes "cap_wf cp sh"
  shows "rec_fits cp sh 0" "ptr cp \<le> cap_c cp" "rec_wf cp sh k w \<Longrightarrow> sep_fits cp k"
  using assms by (auto simp: cap_wf_def rec_fits_def rec_wf_def sep_fits_def RECORD_MAX_RESERVE_def)

definition parts_pre :: "cap \<Rightarrow> leaf_shape \<Rightarrow> key option \<Rightarrow> key option \<Rightarrow> key list \<Rightarrow> 'r list
    \<Rightarrow> nat list \<Rightarrow> bool" where
  "parts_pre cp sh lo hi ks vs ws \<longleftrightarrow> length vs = length ks \<and> list_all2 (rec_wf cp sh) ks ws
     \<and> sorted_wrt (<) ks \<and> (\<forall>k \<in> set ks. in_range lo hi k)"

lemma parts_wf_pre:
  "parts_wf cp sh lo hi ks vs ws \<longleftrightarrow> parts_pre cp sh lo hi ks vs ws \<and> leaf_payload ws sh \<le> cap_c cp"
  by (auto simp: parts_wf_def parts_pre_def)

lemma parts_pre_len:
  "parts_pre cp sh lo hi ks vs ws \<Longrightarrow> length vs = length ks \<and> length ws = length ks"
  by (auto simp: parts_pre_def dest: list_all2_lengthD)

lemma parts_pre_rec: "parts_pre cp sh lo hi ks vs ws \<Longrightarrow> \<forall>w \<in> set ws. rec_fits cp sh w"
  by (auto simp: parts_pre_def rec_wf_def list_all2_conv_all_nth in_set_conv_nth)

definition ins_wf :: "'r leaf_source \<Rightarrow> cap \<Rightarrow> leaf_shape \<Rightarrow> nat \<Rightarrow> key option \<Rightarrow> key option
    \<Rightarrow> 'r ins \<Rightarrow> (key \<times> 'r) list \<Rightarrow> bool" where
  "ins_wf src cp sh h lo hi ins es = (case ins of
      Kept \<Rightarrow> False
    | Whole n \<Rightarrow> node_wf src cp sh h lo hi n \<and> node_entries src n = es
    | Split l s r \<Rightarrow> node_wf src cp sh h lo (Some s) l \<and> node_wf src cp sh h (Some s) hi r
        \<and> nonempty_range lo (Some s) \<and> nonempty_range (Some s) hi \<and> sep_fits cp s
        \<and> node_entries src l @ node_entries src r = es)"

lemma leaf_wf_new: "leaf_wf cp sh lo hi NONE (Decoded ks vs ws) = parts_wf cp sh lo hi ks vs ws"
  by (simp add: leaf_wf_def)

lemma node_wf_new_leaf:
  "node_wf src cp sh 0 lo hi (new_leaf ks vs ws) = parts_wf cp sh lo hi ks vs ws"
  by (auto simp: node_wf_0 new_leaf_def leaf_wf_new)

lemma entries_new_leaf [simp]: "node_entries src (new_leaf ks vs ws) = zip ks vs"
  by (simp add: new_leaf_def leaf_entries_def)

lemma parts_pre_split:
  assumes "parts_pre cp sh lo hi ks vs ws" "1 \<le> m" "m < length ks"
  shows "parts_pre cp sh lo (Some (ks ! m)) (take m ks) (take m vs) (take m ws)"
    "parts_pre cp sh (Some (ks ! m)) hi (drop m ks) (drop m vs) (drop m ws)"
    "nonempty_range lo (Some (ks ! m))" "nonempty_range (Some (ks ! m)) hi"
proof -
  have s: "ks ! i < ks ! j" if "i < j" "j < length ks" for i j
    using assms(1) that by (auto simp: parts_pre_def sorted_wrt_iff_nth_less)
  have r: "in_range lo hi (ks ! i)" if "i < length ks" for i
    using assms(1) that by (auto simp: parts_pre_def)
  have "in_range lo (Some (ks ! m)) k" if k: "k \<in> set (take m ks)" for k
  proof -
    obtain i where i: "i < m" "k = ks ! i" using k assms(3) by (auto simp: in_set_conv_nth)
    then have "k < ks ! m" "in_range lo hi k" using s [of i m] r [of i] assms(3) by auto
    then show ?thesis by (simp add: in_range_def)
  qed
  then show "parts_pre cp sh lo (Some (ks ! m)) (take m ks) (take m vs) (take m ws)"
    using assms(1) by (auto simp: parts_pre_def sorted_wrt_take list_all2_takeI)
  have "in_range (Some (ks ! m)) hi k" if k: "k \<in> set (drop m ks)" for k
  proof -
    obtain i where i: "m + i < length ks" "k = ks ! (m + i)"
      using k by (metis in_set_conv_nth length_drop less_diff_conv add.commute nth_drop less_imp_le assms(3))
    then have "ks ! m \<le> k" using s [of m "m + i"] by (cases "i = 0") auto
    then show ?thesis using r [OF i(1)] i(2) by (simp add: in_range_def)
  qed
  then show "parts_pre cp sh (Some (ks ! m)) hi (drop m ks) (drop m vs) (drop m ws)"
    using assms(1) by (auto simp: parts_pre_def sorted_wrt_drop list_all2_dropI)
  have "0 < length ks" using assms(2,3) by linarith
  then have "in_range lo hi (ks ! 0)" "ks ! 0 < ks ! m" using r [of 0] s [of 0 m] assms(2,3) by simp_all
  then show "nonempty_range lo (Some (ks ! m))"
    by (auto simp: nonempty_range_def in_range_def split: option.splits intro: order.strict_trans1)
  show "nonempty_range (Some (ks ! m)) hi"
    using r [OF assms(3)] by (auto simp: nonempty_range_def in_range_def split: option.splits)
qed

lemma build_leaf_wf:
  assumes p: "parts_pre cp sh lo hi ks vs ws" and c: "cap_wf cp sh" and s: "splittable cp sh ws"
  shows "ins_wf src cp sh 0 lo hi (build_leaf ks vs ws cp sh edited) (zip ks vs)"
proof (cases "leaf_split_point ws cp sh edited")
  case None
  then show ?thesis
    using leaf_split_point_ok [OF parts_pre_rec [OF p] cap_wfD(1) [OF c] s, of edited] p
    by (simp add: build_leaf_def ins_wf_def node_wf_new_leaf parts_wf_pre)
next
  case (Some m)
  note len = parts_pre_len [OF p]
  have m: "1 \<le> m" "m < length ks" "leaf_payload (take m ws) sh \<le> cap_c cp"
    "leaf_payload (drop m ws) sh \<le> cap_c cp"
    using leaf_split_point_ok [OF parts_pre_rec [OF p] cap_wfD(1) [OF c] s, of edited] Some len by auto
  have hd: "hd (drop m ks) = ks ! m" using m(2) by (simp add: hd_drop_conv_nth)
  have "rec_wf cp sh (ks ! m) (ws ! m)" using p m(2) by (auto simp: parts_pre_def list_all2_conv_all_nth)
  then have "sep_fits cp (ks ! m)" by (rule cap_wfD(3) [OF c])
  moreover have "zip (take m ks) (take m vs) @ zip (drop m ks) (drop m vs) = zip ks vs"
    by (metis append_take_drop_id take_zip drop_zip)
  ultimately show ?thesis
    using parts_pre_split [OF p m(1,2)] m(3,4)
    by (simp add: build_leaf_def Some ins_wf_def node_wf_new_leaf parts_wf_pre hd)
qed


lemma same_length_split:
  assumes "length xs = length (ls @ y # rs)"
  obtains l x r where "xs = l @ x # r" "length l = length ls" "length r = length rs"
proof -
  have i: "length ls < length xs" using assms by simp
  show ?thesis
    by (rule that [OF id_take_nth_drop [OF i]]) (use assms in auto)
qed

lemma same_length_append:
  assumes "length xs = length (ls @ rs)"
  obtains l r where "xs = l @ r" "length l = length ls" "length r = length rs"
  by (rule that [of "take (length ls) xs" "drop (length ls) xs"]) (use assms in auto)

lemma edit_leaf_ok:
  assumes p: "parts_wf cp sh lo hi ks vs ws" and k: "in_range lo hi key" and w: "rec_wf cp sh key w"
  obtains i ks' vs' ws' where
    "edit_leaf (search ks key) ks vs ws key val w = Some (i, map_of (zip ks vs) key, ks', vs', ws')"
    "zip ks' vs' = upd_list key val (zip ks vs)" "parts_pre cp sh lo hi ks' vs' ws'"
    "splittable cp sh ws'" "ks' \<noteq> []"
proof -
  have pre: "parts_pre cp sh lo hi ks vs ws" and pl: "leaf_payload ws sh \<le> cap_c cp"
    using p by (auto simp: parts_wf_pre)
  note len = parts_pre_len [OF pre]
  have s: "sorted_wrt (<) ks" and r: "\<forall>k \<in> set ks. in_range lo hi k" and l2: "list_all2 (rec_wf cp sh) ks ws"
    using pre by (auto simp: parts_pre_def)
  have wf: "rec_fits cp sh w" using w by (simp add: rec_wf_def)
  show ?thesis
  proof (cases "search ks key")
    case (Inr i)
    obtain ls rs where ks: "ks = ls @ key # rs" "length ls = i" "\<forall>k \<in> set ls. k < key" "\<forall>k \<in> set rs. key < k"
      by (rule search_Inr [OF s Inr])
    obtain lv v rv where vs: "vs = lv @ v # rv" "length lv = length ls" "length rv = length rs"
      by (rule same_length_split [of vs ls key rs]) (use len ks in auto)
    obtain lw x rw where ws: "ws = lw @ x # rw" "length lw = length ls" "length rw = length rs"
      by (rule same_length_split [of ws ls key rs]) (use len ks in auto)
    have z: "\<forall>p \<in> set (zip ls lv). fst p < key" "\<forall>p \<in> set (zip rs rv). key < fst p"
      using ks(3,4) by (auto dest: set_zip_leftD)
    have zz: "zip ks vs = zip ls lv @ [(key, v)] @ zip rs rv" using ks vs by simp
    have "map_of (zip ks vs) key = Some v" unfolding zz map_of_append_out [OF z] by simp
    then have e: "edit_leaf (search ks key) ks vs ws key val w
        = Some (i, map_of (zip ks vs) key, ks, lv @ val # rv, lw @ w # rw)"
    proof -
      have "vs ! i = v" "vs[i := val] = lv @ val # rv" "ws[i := w] = lw @ w # rw" "i < length vs" "i < length ws"
        unfolding vs(1) ws(1) ks(2) [symmetric] vs(2) [symmetric]
        by (simp_all add: nth_append list_update_append vs(2) ws(2))
      with \<open>map_of (zip ks vs) key = Some v\<close> Inr show ?thesis by (simp add: edit_leaf_def)
    qed
    show ?thesis
    proof (rule that [OF e])
      show "zip ks (lv @ val # rv) = upd_list key val (zip ks vs)"
        unfolding zz upd_list_mid [OF z] using ks vs by simp
      show "parts_pre cp sh lo hi ks (lv @ val # rv) (lw @ w # rw)"
        using pre w unfolding parts_pre_def ks(1) ws(1) vs(1)
        by (auto simp: list_all2_append ws(2,3))
      show "splittable cp sh (lw @ w # rw)"
      proof (rule splittable_insert [OF wf, where S = "sum_list lw + sum_list rw"])
        show "sum_list lw + sum_list rw + leaf_overhead (length (lw @ w # rw) - 1) sh \<le> cap_c cp"
          using pl leaf_overhead_mono [of "length lw + length rw" "length ws" sh]
          unfolding leaf_payload_def ws(1) by simp
      qed simp_all
      show "ks \<noteq> []" using ks by simp
    qed
  next
    case (Inl i)
    obtain ls rs where ks: "ks = ls @ rs" "length ls = i" "\<forall>k \<in> set ls. k < key" "\<forall>k \<in> set rs. key < k"
      by (rule search_Inl [OF s Inl])
    obtain lv rv where vs: "vs = lv @ rv" "length lv = length ls" "length rv = length rs"
      by (rule same_length_append [of vs ls rs]) (use len ks in auto)
    obtain lw rw where ws: "ws = lw @ rw" "length lw = length ls" "length rw = length rs"
      by (rule same_length_append [of ws ls rs]) (use len ks in auto)
    have z: "\<forall>p \<in> set (zip ls lv). fst p < key" "\<forall>p \<in> set (zip rs rv). key < fst p"
      using ks(3,4) by (auto dest: set_zip_leftD)
    have zz: "zip ks vs = zip ls lv @ [] @ zip rs rv" using ks vs by simp
    have "map_of (zip ks vs) key = None" unfolding zz map_of_append_out [OF z] by simp
    then have e: "edit_leaf (search ks key) ks vs ws key val w
        = Some (i, map_of (zip ks vs) key, ls @ key # rs, lv @ val # rv, lw @ w # rw)"
    proof -
      have "insert_at i key ks = ls @ key # rs" "insert_at i val vs = lv @ val # rv"
        "insert_at i w ws = lw @ w # rw" "i \<le> length ks" "i \<le> length vs" "i \<le> length ws"
        unfolding ks(1) vs(1) ws(1) using ks(2) vs(2) ws(2) by simp_all
      with \<open>map_of (zip ks vs) key = None\<close> Inl show ?thesis by (simp add: edit_leaf_def)
    qed
    show ?thesis
    proof (rule that [OF e])
      show "zip (ls @ key # rs) (lv @ val # rv) = upd_list key val (zip ks vs)"
        unfolding zz upd_list_mid [OF z] using ks vs by simp
      show "parts_pre cp sh lo hi (ls @ key # rs) (lv @ val # rv) (lw @ w # rw)"
        using pre w k ks(3,4) unfolding parts_pre_def ks(1) ws(1) vs(1)
        by (auto simp: list_all2_append ws(2,3) vs(2,3) sorted_wrt_append)
      show "splittable cp sh (lw @ w # rw)"
        by (rule splittable_insert [OF wf, where S = "sum_list ws"])
          (use pl in \<open>simp_all add: leaf_payload_def ws(1)\<close>)
    qed simp
  qed
qed

text \<open>What an edit amounts to once \<open>Kept\<close> is read as the node left behind.\<close>

definition settle :: "'r node \<Rightarrow> 'r ins \<Rightarrow> 'r ins" where
  "settle n ins = (case ins of Kept \<Rightarrow> Whole n | _ \<Rightarrow> ins)"

lemma settle_simps [simp]:
  "settle n Kept = Whole n" "settle n (Whole m) = Whole m" "settle n (Split l s r) = Split l s r"
  by (simp_all add: settle_def)

lemma build_leaf_not_kept [simp]: "build_leaf ks vs ws cp sh e \<noteq> Kept"
  by (simp add: build_leaf_def split: option.splits)

lemma settle_build_leaf [simp]:
  "settle n (build_leaf ks vs ws cp sh e) = build_leaf ks vs ws cp sh e"
  by (cases "build_leaf ks vs ws cp sh e") (simp_all add: settle_def)

lemma build_leaf_fits:
  "leaf_payload ws sh \<le> cap_c cp \<or> length ws < 2 \<Longrightarrow>
     build_leaf ks vs ws cp sh e = Whole (new_leaf ks vs ws)"
  by (auto simp: build_leaf_def leaf_split_point_def leaf_payload_def Let_def)

lemma leaf_insert_settles:
  assumes lf: "leaf_wf cp sh lo hi p lf" and d: "decoded_parts lf = Inr (ks, vs, ws)"
    and e: "edit_leaf (search ks key) ks vs ws key val w = Some (i, old, ks', vs', ws')"
    and len: "length ws' = length ks'"
  shows "\<exists>n ins. leaf_insert u p lf key val w cp sh = Some (n, Inr (old, ins))
    \<and> settle n ins = build_leaf ks' vs' ws' cp sh (Some i)"
proof -
  have k: "leaf_keys lf = ks" using d by (cases lf) auto
  show ?thesis
  proof (cases "dirty p \<and> u")
    case True
    then have lf: "lf = Decoded ks vs ws" "p = NONE"
      using lf d by (auto simp: leaf_wf_def split: leaf_form.splits)
    show ?thesis
      using True e len k build_leaf_fits [of ws' sh cp ks' vs' "Some i"]
      by (auto simp: leaf_insert_def lf new_leaf_def)
  next
    case False
    then show ?thesis using e d k by (auto simp: leaf_insert_def)
  qed
qed

text \<open>The parent's share of an insert, for a settled outcome of child \<open>i\<close>.\<close>

definition lift_ins :: "key list \<Rightarrow> 'r child list \<Rightarrow> nat \<Rightarrow> cap \<Rightarrow> 'r ins \<Rightarrow> 'r ins option" where
  "lift_ins ks cs i cp ins = (case ins of
      Kept \<Rightarrow> None
    | Whole c \<Rightarrow> Some (Whole (new_interior ks (cs[i := Resident c])))
    | Split l s r \<Rightarrow> build_interior (insert_at i s ks)
        (insert_at (i + 1) (Resident r) (cs[i := Resident l])) cp (Some i))"

lemma build_interior_not_kept: "build_interior ks cs cp e \<noteq> Some Kept"
  by (auto simp: build_interior_def Let_def split: if_splits)

lemma settle_build_interior:
  "build_interior ks cs cp e = Some ins \<Longrightarrow> settle n ins = ins"
  using build_interior_not_kept by (cases ins) auto

lemma absorb_copy_settles:
  assumes "lift_ins ks cs i cp (settle c ins) = Some j"
  shows "\<exists>n ins'. absorb_copy p ks cs i (c, old, ins) cp = Some (n, Inr (old, ins')) \<and> settle n ins' = j"
  using assms by (cases ins) (auto simp: absorb_copy_def lift_ins_def intro: settle_build_interior)

lemma absorb_in_place_split:
  assumes "build_interior ks cs cp e = Some j" "p = NONE"
  shows "\<exists>n ins'. (if interior_payload cp ks \<le> cap_c cp \<or> length ks < 2
      then Some (Interior p ks cs, Inr (old, Kept))
      else map_option (\<lambda>ins. (Interior p [] [], Inr (old, ins))) (build_interior ks cs cp e))
    = Some (n, Inr (old, ins')) \<and> settle n ins' = j"
  using assms settle_build_interior [OF assms(1)]
  by (auto simp: build_interior_def new_interior_def Let_def)

lemma absorb_in_place_settles:
  assumes "lift_ins ks cs i cp (settle c ins) = Some j" "p = NONE"
  shows "\<exists>n ins'. absorb_in_place p ks (cs[i := Resident c]) i (old, ins) cp
      = Some (n, Inr (old, ins')) \<and> settle n ins' = j"
    "\<exists>n ins'. absorb_in_place p ks cs i (old, settle c ins) cp
      = Some (n, Inr (old, ins')) \<and> settle n ins' = j"
proof -
  show "\<exists>n ins'. absorb_in_place p ks (cs[i := Resident c]) i (old, ins) cp
      = Some (n, Inr (old, ins')) \<and> settle n ins' = j"
  proof (cases ins)
    case (Split l s r)
    with assms(1) have "build_interior (insert_at i s ks)
        (insert_at (i + 1) (Resident r) (cs[i := Resident l])) cp (Some i) = Some j"
      by (simp add: lift_ins_def)
    from absorb_in_place_split [OF this assms(2)] show ?thesis
      by (simp only: absorb_in_place_def Split settle_simps Let_def prod.case ins.case
          list_update_overwrite)
  qed (use assms in \<open>auto simp: absorb_in_place_def lift_ins_def new_interior_def\<close>)
  show "\<exists>n ins'. absorb_in_place p ks cs i (old, settle c ins) cp
      = Some (n, Inr (old, ins')) \<and> settle n ins' = j"
  proof (cases ins)
    case (Split l s r)
    with assms(1) have "build_interior (insert_at i s ks)
        (insert_at (i + 1) (Resident r) (cs[i := Resident l])) cp (Some i) = Some j"
      by (simp add: lift_ins_def)
    from absorb_in_place_split [OF this assms(2)] show ?thesis
      by (simp only: absorb_in_place_def Split settle_simps Let_def prod.case ins.case
          list_update_overwrite)
  qed (use assms in \<open>auto simp: absorb_in_place_def lift_ins_def new_interior_def\<close>)
qed

lemma interior_payload_insert_at:
  assumes "i \<le> length ks"
  shows "interior_payload cp (insert_at i s ks) = interior_payload cp ks + ptr cp + 4 + length s"
proof -
  have "sum_list (map length (take i ks)) + sum_list (map length (drop i ks)) = sum_list (map length ks)"
    by (metis append_take_drop_id map_append sum_list_append)
  then show ?thesis using assms by (simp add: interior_payload_def insert_at_def algebra_simps)
qed

lemma insert_update:
  "i < length cs \<Longrightarrow> insert_at (Suc i) r (cs[i := l]) = take i cs @ l # r # drop (Suc i) cs"
  by (simp add: insert_at_def upd_conv_take_nth_drop)

lemma build_interior_wf:
  assumes b: "build_interior ks cs cp e = Some ins"
    and s: "separated (child_wf src cp sh h) lo hi ks cs" and fit: "\<forall>k \<in> set ks. sep_fits cp k"
    and c: "cap_wf cp sh"
  shows "ins_wf src cp sh (Suc h) lo hi ins (concat (map (child_entries src) cs))"
proof -
  consider "ins = Whole (new_interior ks cs)" "interior_payload cp ks \<le> cap_c cp"
    | m where "interior_split cp ks cs ins m"
    using build_interior_sound [OF b fit cap_wfD(2) [OF c]] by blast
  then show ?thesis
  proof cases
    case 1
    then show ?thesis using s fit by (simp add: ins_wf_def node_wf_Suc new_interior_def)
  next
    case (2 m)
    then have m: "m < length ks" "ins = Split (new_interior (take m ks) (take (Suc m) cs)) (ks ! m)
        (new_interior (drop (Suc m) ks) (drop (Suc m) cs))"
      "interior_payload cp (take m ks) \<le> cap_c cp" "interior_payload cp (drop (Suc m) ks) \<le> cap_c cp"
      by (auto simp: interior_split_def)
    note cut = separated_cut [OF s m(1)]
    have "concat (map (child_entries src) (take (Suc m) cs)) @ concat (map (child_entries src) (drop (Suc m) cs))
        = concat (map (child_entries src) cs)"
      by (metis append_take_drop_id concat_append map_append)
    moreover have "\<forall>k \<in> set (take m ks). sep_fits cp k" "\<forall>k \<in> set (drop (Suc m) ks). sep_fits cp k"
      using fit by (auto dest: in_set_takeD in_set_dropD)
    ultimately show ?thesis
      using m cut fit separated_range [OF cut(1)] separated_range [OF cut(2)]
      by (simp add: ins_wf_def node_wf_Suc new_interior_def)
  qed
qed

lemma child_entries_Resident [simp]: "child_entries src (Resident n) = node_entries src n"
  by (simp add: child_entries_def)

lemma lift_ins_wf:
  assumes s: "separated (child_wf src cp sh h) lo hi ks cs" and i: "i < length cs" "i \<le> length ks"
    and fit: "\<forall>k \<in> set ks. sep_fits cp k" "interior_payload cp ks \<le> cap_c cp" and c: "cap_wf cp sh"
    and ins: "ins_wf src cp sh h (range_lo lo ks i) (range_hi hi ks i) ins es"
  obtains j where "lift_ins ks cs i cp ins = Some j"
    "ins_wf src cp sh (Suc h) lo hi j (concat (map (child_entries src) (take i cs)) @ es
       @ concat (map (child_entries src) (drop (Suc i) cs)))"
proof (cases ins)
  case Kept
  then show ?thesis using ins by (simp add: ins_wf_def)
next
  case (Whole n)
  then have n: "node_wf src cp sh h (range_lo lo ks i) (range_hi hi ks i) n" "node_entries src n = es"
    using ins by (auto simp: ins_wf_def)
  have "separated (child_wf src cp sh h) lo hi ks (cs[i := Resident n])"
    using s n by (intro separated_update) simp_all
  then show ?thesis
    using that [of "Whole (new_interior ks (cs[i := Resident n]))"] Whole n fit i
    by (simp add: lift_ins_def ins_wf_def node_wf_Suc new_interior_def upd_conv_take_nth_drop)
next
  case (Split l k r)
  then have n: "node_wf src cp sh h (range_lo lo ks i) (Some k) l"
    "node_wf src cp sh h (Some k) (range_hi hi ks i) r" "sep_fits cp k"
    "nonempty_range (range_lo lo ks i) (Some k)" "nonempty_range (Some k) (range_hi hi ks i)"
    "es = node_entries src l @ node_entries src r"
    using ins by (auto simp: ins_wf_def)
  let ?ks = "insert_at i k ks" and ?cs = "insert_at (Suc i) (Resident r) (cs[i := Resident l])"
  have sep: "separated (child_wf src cp sh h) lo hi ?ks ?cs"
    using s i n by (intro separated_insert) simp_all
  have f: "\<forall>k \<in> set ?ks. sep_fits cp k"
    using fit(1) n(3) by (auto simp: insert_at_def dest: in_set_takeD in_set_dropD)
  have "interior_payload cp ?ks \<le> cap_c cp + ptr cp + 4 + length k"
    using interior_payload_insert_at [OF i(2), of cp k] fit(2) by simp
  from build_interior_exists [OF f n(3) this]
  obtain j where j: "build_interior ?ks ?cs cp (Some i) = Some j" by blast
  show ?thesis
    using that [of j] build_interior_wf [OF j sep f c] j Split i n(6)
    by (simp add: lift_ins_def insert_update)
qed

lemma node_insert_wf:
  assumes "node_wf src cp sh h lo hi n" "in_range lo hi key" "rec_wf cp sh key w" "cap_wf cp sh"
  shows "\<exists>j. (\<forall>own path. \<exists>n' ins. node_insert own path n key val w src cp sh
        = Some (n', Inr (map_of (node_entries src n) key, ins)) \<and> settle n' ins = j)
      \<and> ins_wf src cp sh h lo hi j (upd_list key val (node_entries src n))"
  using assms
proof (induction h arbitrary: lo hi n)
  case 0
  then obtain p lf where n: "n = Leaf p lf" "leaf_wf cp sh lo hi p lf" by (auto simp: node_wf_0)
  obtain ks vs ws where d: "decoded_parts lf = Inr (ks, vs, ws)" "parts_wf cp sh lo hi ks vs ws"
    "leaf_entries lf = zip ks vs"
    using leaf_wf_parts [OF n(2)] by metis
  obtain i ks' vs' ws' where
    e: "edit_leaf (search ks key) ks vs ws key val w = Some (i, map_of (zip ks vs) key, ks', vs', ws')"
      "zip ks' vs' = upd_list key val (zip ks vs)" "parts_pre cp sh lo hi ks' vs' ws'"
      "splittable cp sh ws'"
    by (rule edit_leaf_ok [OF d(2) 0(2,3)])
  have "length ws' = length ks'" using parts_pre_len [OF e(3)] by simp
  note st = leaf_insert_settles [OF n(2) d(1) e(1) this]
  show ?case
  proof (intro exI [of _ "build_leaf ks' vs' ws' cp sh (Some i)"] conjI allI)
    show "\<exists>n' ins. node_insert own path n key val w src cp sh
        = Some (n', Inr (map_of (node_entries src n) key, ins))
        \<and> settle n' ins = build_leaf ks' vs' ws' cp sh (Some i)" for own path
      using st [of "own path"] by (simp add: n(1) d(3))
    show "ins_wf src cp sh 0 lo hi (build_leaf ks' vs' ws' cp sh (Some i))
        (upd_list key val (node_entries src n))"
      using build_leaf_wf [OF e(3) 0(4) e(4), of src "Some i"] by (simp add: n(1) d(3) e(2))
  qed
next
  case (Suc h)
  then obtain p ks cs where n: "n = Interior p ks cs" "dirty p \<longrightarrow> p = NONE"
    "\<forall>k \<in> set ks. sep_fits cp k" "interior_payload cp ks \<le> cap_c cp"
    "separated (child_wf src cp sh h) lo hi ks cs"
    by (auto simp: node_wf_Suc)
  define i where "i = child_slot ks key"
  obtain c m where c: "nth_opt cs i = Some c" "i < length cs" "i \<le> length ks" "c = cs ! i" "resolve src c = Some (Inr m)"
    "node_wf src cp sh h (range_lo lo ks i) (range_hi hi ks i) m"
    "in_range (range_lo lo ks i) (range_hi hi ks i) key"
    "concat (map (child_entries src) cs) = concat (map (child_entries src) (take i cs))
       @ node_entries src m @ concat (map (child_entries src) (drop (Suc i) cs))"
    "\<forall>p \<in> set (concat (map (child_entries src) (take i cs))). fst p < key"
    "\<forall>p \<in> set (concat (map (child_entries src) (drop (Suc i) cs))). key < fst p"
    using descent [OF n(5) Suc.prems(2)] unfolding i_def by metis
  let ?es = "node_entries src n"
  have old: "map_of ?es key = map_of (node_entries src m) key"
    unfolding n(1) interior_entries c(8) by (rule map_of_append_out [OF c(9,10)])
  have upd: "upd_list key val ?es = concat (map (child_entries src) (take i cs))
       @ upd_list key val (node_entries src m) @ concat (map (child_entries src) (drop (Suc i) cs))"
    unfolding n(1) interior_entries c(8) by (rule upd_list_mid [OF c(9,10)])
  from Suc.IH [OF c(6,7) Suc.prems(3,4)] obtain j where
    j: "\<And>own path. \<exists>n' ins. node_insert own path m key val w src cp sh
        = Some (n', Inr (map_of (node_entries src m) key, ins)) \<and> settle n' ins = j"
      "ins_wf src cp sh h (range_lo lo ks i) (range_hi hi ks i) j (upd_list key val (node_entries src m))"
    by blast
  obtain j' where j': "lift_ins ks cs i cp j = Some j'"
    "ins_wf src cp sh (Suc h) lo hi j' (upd_list key val ?es)"
    by (rule lift_ins_wf [OF n(5) c(2,3) n(3,4) Suc.prems(4) j(2)]) (simp add: upd)
  have "\<exists>n' ins. node_insert own path n key val w src cp sh
      = Some (n', Inr (map_of ?es key, ins)) \<and> settle n' ins = j'" for own path
  proof (cases c)
    case (Resident m')
    then have m: "m' = m" using c(5) by simp
    show ?thesis
    proof (cases "dirty p \<and> own path")
      case True
      obtain n' ins where ni: "node_insert own (i # path) m key val w src cp sh
          = Some (n', Inr (map_of (node_entries src m) key, ins))" "settle n' ins = j"
        using j(1) by blast
      from absorb_in_place_settles(1) [of ks cs i cp n' ins j' p] True n(2) j'(1) ni show ?thesis
        unfolding old by (simp add: n(1) i_def [symmetric] c(1) Resident m Let_def)
    next
      case False
      obtain n' ins where ni: "node_insert (\<lambda>_. False) (i # path) m key val w src cp sh
          = Some (n', Inr (map_of (node_entries src m) key, ins))" "settle n' ins = j"
        using j(1) by blast
      from absorb_copy_settles [of ks cs i cp n' ins j' p] j'(1) ni show ?thesis
        unfolding old using False by (auto simp: n(1) i_def [symmetric] c(1) Resident m Let_def)
    qed
  next
    case (OnDisk q)
    then have l: "load_leaf src q = Some (Inr m)" using c(5) by simp
    then obtain pl where m: "m = Leaf q (Packed pl)" using load_leaf_is_leaf by blast
    obtain n' ins where ni: "leaf_insert (own (i # path)) q (Packed pl) key val w cp sh
        = Some (n', Inr (map_of (node_entries src m) key, ins))" "settle n' ins = j"
      using j(1) [of own "i # path"] unfolding m by auto
    have ni': "(case ins of Kept \<Rightarrow> Whole n' | _ \<Rightarrow> ins) = settle n' ins" by (simp add: settle_def)
    show ?thesis
    proof (cases "dirty p \<and> own path")
      case True
      from absorb_in_place_settles(2) [of ks cs i cp n' ins j' p] True n(2) j'(1) ni show ?thesis
        unfolding old by (simp add: n(1) i_def [symmetric] c(1) OnDisk l Let_def ni' m)
    next
      case False
      from absorb_copy_settles [of ks cs i cp n' ins j' p] j'(1) ni show ?thesis
        unfolding old using False by (auto simp: n(1) i_def [symmetric] c(1) OnDisk l Let_def m)
    qed
  qed
  with j'(2) show ?case by blast
qed

section \<open>Remove keeps the invariant\<close>

lemma separated_merge:
  "separated P lo hi ks cs \<Longrightarrow> j < length ks \<Longrightarrow> P (range_lo lo ks j) (range_hi hi ks (Suc j)) m \<Longrightarrow>
     separated P lo hi (remove_at j ks) (remove_at (Suc j) (cs[j := m]))"
proof (induction P lo hi ks cs arbitrary: j rule: separated.induct)
  case (2 P lo hi k ks c cs)
  show ?case
  proof (cases j)
    case 0
    then obtain d cs' where cs: "cs = d # cs'" using 2 by (cases cs) auto
    show ?thesis
    proof (cases ks)
      case Nil
      then show ?thesis using 0 2 cs by (cases cs')
          (auto simp: remove_at_def nonempty_range_def split: option.splits)
    next
      case (Cons k' ks')
      then show ?thesis using 0 2 cs
        by (auto simp: remove_at_def nonempty_range_def split: option.splits)
    qed
  next
    case (Suc i)
    then show ?thesis using 2 by (auto simp: remove_at_def)
  qed
qed auto

lemma separated_replace:
  "separated P lo hi ks cs \<Longrightarrow> j < length ks \<Longrightarrow> P (range_lo lo ks j) (Some s) l \<Longrightarrow>
     P (Some s) (range_hi hi ks (Suc j)) r \<Longrightarrow> nonempty_range (range_lo lo ks j) (Some s) \<Longrightarrow>
     nonempty_range (Some s) (range_hi hi ks (Suc j)) \<Longrightarrow>
     separated P lo hi (ks[j := s]) (cs[j := l, Suc j := r])"
proof (induction P lo hi ks cs arbitrary: j rule: separated.induct)
  case (2 P lo hi k ks c cs)
  show ?case
  proof (cases j)
    case 0
    then obtain d cs' where cs: "cs = d # cs'" using 2 by (cases cs) auto
    show ?thesis
    proof (cases ks)
      case Nil
      then show ?thesis using 0 2 cs by (cases cs') auto
    next
      case (Cons k' ks')
      then show ?thesis using 0 2 cs by auto
    qed
  next
    case (Suc i)
    then show ?thesis using 2 by auto
  qed
qed auto

lemma sum_list_remove_at:
  "j < length ks \<Longrightarrow> sum_list (map length ks) = sum_list (map length (remove_at j ks)) + length (ks ! j)"
proof -
  assume "j < length ks"
  from id_take_nth_drop [OF this] have "sum_list (map length ks)
      = sum_list (map length (take j ks @ ks ! j # drop (Suc j) ks))" by metis
  then show ?thesis by (simp add: remove_at_def)
qed

lemma interior_payload_remove_at:
  "j < length ks \<Longrightarrow> interior_payload cp (remove_at j ks) \<le> interior_payload cp ks"
  using sum_list_remove_at [of j ks]
  by (simp add: interior_payload_def add_mono mult_le_mono2)

lemma interior_payload_replace:
  assumes "j < length ks"
  shows "interior_payload cp (ks[j := s]) = parent_with cp ks j (length s)"
proof -
  have "sum_list (map length (ks[j := s])) = sum_list (map length (remove_at j ks)) + length s"
    using assms by (simp add: upd_conv_take_nth_drop remove_at_def)
  then show ?thesis
    using sum_list_remove_at [OF assms] by (simp add: interior_payload_def parent_with_def)
qed

text \<open>The parent side of the invariant, and what a rebalance keeps of it.\<close>

definition parent_wf :: "'r leaf_source \<Rightarrow> cap \<Rightarrow> leaf_shape \<Rightarrow> nat \<Rightarrow> key option \<Rightarrow> key option
    \<Rightarrow> (key \<times> 'r) list \<Rightarrow> 'r parent \<Rightarrow> bool" where
  "parent_wf src cp sh h lo hi es p = (case p of (ks, cs) \<Rightarrow>
     separated (child_wf src cp sh h) lo hi ks cs \<and> (\<forall>k \<in> set ks. sep_fits cp k)
     \<and> interior_payload cp ks \<le> cap_c cp \<and> concat (map (child_entries src) cs) = es)"

lemma node_wf_parent:
  "node_wf src cp sh (Suc h) lo hi (Interior p ks cs) \<longleftrightarrow>
     (dirty p \<longrightarrow> p = NONE) \<and> parent_wf src cp sh h lo hi (node_entries src (Interior p ks cs)) (ks, cs)"
  by (auto simp: node_wf_Suc parent_wf_def)

lemma take_nth2_drop:
  "Suc j < length cs \<Longrightarrow> cs = take j cs @ cs ! j # cs ! Suc j # drop (Suc (Suc j)) cs"
  by (metis Cons_nth_drop_Suc Suc_lessD append_take_drop_id)

lemma place_merged_wf:
  assumes p: "parent_wf src cp sh h lo hi es (ks, cs)" and j: "j < length ks"
    and ins: "ins_wf src cp sh h (range_lo lo ks j) (range_hi hi ks (Suc j)) ins
      (child_entries src (cs ! j) @ child_entries src (cs ! Suc j))"
    and fit: "\<And>l s r. ins = Split l s r \<Longrightarrow> parent_with cp ks j (length s) \<le> cap_c cp"
  obtains par where "place_merged ks cs j ins = Some par" "parent_wf src cp sh h lo hi es par"
proof -
  have s: "separated (child_wf src cp sh h) lo hi ks cs" and f: "\<forall>k \<in> set ks. sep_fits cp k"
    and pl: "interior_payload cp ks \<le> cap_c cp" and es: "concat (map (child_entries src) cs) = es"
    using p by (auto simp: parent_wf_def)
  have jc: "Suc j < length cs" using separated_length [OF s] j by simp
  let ?E = "\<lambda>cs. concat (map (child_entries src) cs)"
  have E: "es = ?E (take j cs) @ (child_entries src (cs ! j) @ child_entries src (cs ! Suc j))
      @ ?E (drop (Suc (Suc j)) cs)"
    unfolding es [symmetric] by (subst take_nth2_drop [OF jc]) simp
  show ?thesis
  proof (cases ins)
    case Kept
    then show ?thesis using ins by (simp add: ins_wf_def)
  next
    case (Whole m)
    let ?cs = "remove_at (Suc j) (cs[j := Resident m])"
    have "?cs = take j cs @ Resident m # drop (Suc (Suc j)) cs"
      using jc by (simp add: remove_at_def upd_conv_take_nth_drop)
    then have "?E ?cs = es" using E ins Whole by (simp add: ins_wf_def)
    moreover have "separated (child_wf src cp sh h) lo hi (remove_at j ks) ?cs"
      using ins Whole by (intro separated_merge [OF s j]) (simp add: ins_wf_def)
    moreover have "\<forall>k \<in> set (remove_at j ks). sep_fits cp k"
      using f by (auto simp: remove_at_def dest: in_set_takeD in_set_dropD)
    ultimately have "parent_wf src cp sh h lo hi es (remove_at j ks, ?cs)"
      using interior_payload_remove_at [OF j, of cp] pl by (simp add: parent_wf_def)
    then show ?thesis using that Whole by (simp add: place_merged_def)
  next
    case (Split l s' r)
    let ?cs = "cs[j := Resident l, Suc j := Resident r]"
    have "?cs = take j cs @ Resident l # Resident r # drop (Suc (Suc j)) cs"
    proof -
      have d: "drop (Suc j) cs = cs ! Suc j # drop (Suc (Suc j)) cs"
        using jc by (rule Cons_nth_drop_Suc [symmetric])
      have "cs[j := Resident l] = take j cs @ Resident l # cs ! Suc j # drop (Suc (Suc j)) cs"
        using jc upd_conv_take_nth_drop [of j cs "Resident l"] d by simp
      then show ?thesis using jc by (simp add: list_update_append)
    qed
    then have "?E ?cs = es" using E ins Split by (simp add: ins_wf_def)
    moreover have "separated (child_wf src cp sh h) lo hi (ks[j := s']) ?cs"
      using ins Split by (intro separated_replace [OF s j]) (simp_all add: ins_wf_def)
    moreover have "\<forall>k \<in> set (ks[j := s']). sep_fits cp k"
      using f ins Split by (auto simp: ins_wf_def dest!: set_update_subset_insert [THEN subsetD])
    ultimately have "parent_wf src cp sh h lo hi es (ks[j := s'], ?cs)"
      using fit [OF Split] interior_payload_replace [OF j, of cp s'] by (simp add: parent_wf_def)
    then show ?thesis using that Split by (simp add: place_merged_def)
  qed
qed


text \<open>Taking an operand's vectors and copying them is the same.\<close>

lemma leaf_parts_same:
  assumes "leaf_wf cp sh lo hi p lf" "decoded_parts lf = Inr parts" "resolve src slot = Some (Inr (Leaf p lf))"
  obtains lp where "leaf_parts u slot lf = Inr lp" "into_parts lf lp = parts"
proof (cases "leaf_parts u slot lf = Inr Take")
  case True
  then have "dirty p" using assms(2,3) by (cases slot) (auto simp: leaf_parts_def split: if_splits)
  then have "into_parts lf Take = parts"
    using assms(1,2) by (auto simp: leaf_wf_def into_parts_def split: leaf_form.splits)
  with True that show ?thesis by blast
next
  case False
  then have "leaf_parts u slot lf = Inr (Copy parts)"
    using assms(2) by (auto simp: leaf_parts_def split: child.splits)
  then show ?thesis using that [of "Copy parts"] by (simp add: into_parts_def)
qed

lemma parts_pre_append:
  assumes l: "parts_pre cp sh lo (Some s) lks lvs lws" and r: "parts_pre cp sh (Some s) hi rks rvs rws"
    and ne: "nonempty_range lo (Some s)" "nonempty_range (Some s) hi"
  shows "parts_pre cp sh lo hi (lks @ rks) (lvs @ rvs) (lws @ rws)"
proof -
  have "x < y" if "x \<in> set lks" "y \<in> set rks" for x y
  proof -
    have "x < s" "s \<le> y" using l r that by (auto simp: parts_pre_def in_range_def)
    then show ?thesis by (rule order.strict_trans2)
  qed
  moreover have "in_range lo hi x" if "x \<in> set lks \<union> set rks" for x
    using l r that in_range_weaken ne unfolding parts_pre_def by blast
  ultimately show ?thesis
    using l r by (auto simp: parts_pre_def sorted_wrt_append list_all2_appendI)
qed

lemma underfull_leaf: "underfull cp sh (Leaf p lf) \<Longrightarrow> 2 * leaf_payload (leaf_weights lf) sh \<le> cap_c cp"
  by (simp add: underfull_def)

lemma merge_leaves_wf:
  assumes p: "parent_wf src cp sh 0 lo hi es (ks, cs)" and j: "j < length ks" and c: "cap_wf cp sh"
    and l: "resolve src (cs ! j) = Some (Inr (Leaf pl lf))"
    and r: "resolve src (cs ! Suc j) = Some (Inr (Leaf pr rf))"
    and u: "underfull cp sh (Leaf pl lf) \<or> underfull cp sh (Leaf pr rf)"
  shows "\<exists>par. (\<forall>tk path. merge_leaves tk path ks cs j lf rf cp sh = Some (Inr par))
    \<and> parent_wf src cp sh 0 lo hi es par"
proof (cases "leaf_merge_abandoned cp sh ks j lf rf")
  case True
  then show ?thesis using p by (auto simp: merge_leaves_def)
next
  case False
  have s: "separated (child_wf src cp sh 0) lo hi ks cs" using p by (simp add: parent_wf_def)
  have jc: "j < length cs" "Suc j < length cs" using separated_length [OF s] j by simp_all
  have mid: "range_hi hi ks j = Some (ks ! j)" "range_lo lo ks (Suc j) = Some (ks ! j)"
    using j by (simp_all add: range_hi_def range_lo_def)
  have lw: "leaf_wf cp sh (range_lo lo ks j) (Some (ks ! j)) pl lf" "nonempty_range (range_lo lo ks j) (Some (ks ! j))"
    using separated_nth [OF s jc(1)] l by (auto simp: child_wf_iff node_wf_0 mid)
  have rw: "leaf_wf cp sh (Some (ks ! j)) (range_hi hi ks (Suc j)) pr rf"
    "nonempty_range (Some (ks ! j)) (range_hi hi ks (Suc j))"
    using separated_nth [OF s jc(2)] r by (auto simp: child_wf_iff node_wf_0 mid)
  obtain lks lvs lws where L: "decoded_parts lf = Inr (lks, lvs, lws)"
    "parts_wf cp sh (range_lo lo ks j) (Some (ks ! j)) lks lvs lws" "leaf_keys lf = lks" "leaf_weights lf = lws"
    "leaf_entries lf = zip lks lvs"
    by (rule leaf_wf_parts [OF lw(1)])
  obtain rks rvs rws where R: "decoded_parts rf = Inr (rks, rvs, rws)"
    "parts_wf cp sh (Some (ks ! j)) (range_hi hi ks (Suc j)) rks rvs rws" "leaf_keys rf = rks" "leaf_weights rf = rws"
    "leaf_entries rf = zip rks rvs"
    by (rule leaf_wf_parts [OF rw(1)])
  have pre: "parts_pre cp sh (range_lo lo ks j) (range_hi hi ks (Suc j)) (lks @ rks) (lvs @ rvs) (lws @ rws)"
    using L(2) R(2) lw(2) rw(2) by (intro parts_pre_append) (simp_all add: parts_wf_pre)
  have len: "length lks = length lvs" "length lws = length lks"
    using L(2) parts_pre_len unfolding parts_wf_pre by metis+
  have "splittable cp sh (lws @ rws)"
    using u underfull_leaf L R splittable_merge unfolding parts_wf_pre by metis
  let ?ins = "build_leaf (lks @ rks) (lvs @ rvs) (lws @ rws) cp sh None"
  have ins: "ins_wf src cp sh 0 (range_lo lo ks j) (range_hi hi ks (Suc j)) ?ins
      (child_entries src (cs ! j) @ child_entries src (cs ! Suc j))"
    using build_leaf_wf [OF pre c \<open>splittable cp sh (lws @ rws)\<close>, of src None] l r L(5) R(5) len
    by (simp add: child_entries_def)
  have "parent_with cp ks j (length sp) \<le> cap_c cp" if sp: "?ins = Split x sp y" for x sp y
  proof -
    obtain m where m: "leaf_split_point (lws @ rws) cp sh None = Some m" "sp = hd (drop m (lks @ rks))"
      using sp by (auto simp: build_leaf_def split: option.splits)
    have "m < length (lws @ rws)"
      using leaf_split_point_ok [OF parts_pre_rec [OF pre] cap_wfD(1) [OF c] \<open>splittable cp sh (lws @ rws)\<close>, of None] m(1)
      by auto
    then have "sp = (lks @ rks) ! m"
      using m(2) parts_pre_len [OF pre] hd_drop_conv_nth [of m "lks @ rks"] by simp
    with m(1) False show ?thesis
      by (simp add: leaf_merge_abandoned_def L(3,4) R(3,4) nth_append split: if_splits)
  qed
  then obtain par where par: "place_merged ks cs j ?ins = Some par" "parent_wf src cp sh 0 lo hi es par"
    using place_merged_wf [OF p j ins] by metis
  have "merge_leaves tk path ks cs j lf rf cp sh = Some (Inr par)" for tk path
  proof -
    obtain lp where lp: "leaf_parts (tk (j # path)) (cs ! j) lf = Inr lp" "into_parts lf lp = (lks, lvs, lws)"
      by (rule leaf_parts_same [OF lw(1) L(1) l])
    obtain rp where rp: "leaf_parts (tk (Suc j # path)) (cs ! Suc j) rf = Inr rp"
      "into_parts rf rp = (rks, rvs, rws)"
      by (rule leaf_parts_same [OF rw(1) R(1) r])
    show ?thesis using False lp rp par(1) by (simp add: merge_leaves_def)
  qed
  with par(2) show ?thesis by blast
qed


lemma merge_interiors_wf:
  assumes p: "parent_wf src cp sh (Suc h) lo hi es (ks, cs)" and j: "j < length ks" and c: "cap_wf cp sh"
    and l: "resolve src (cs ! j) = Some (Inr (Interior pl lks lcs))"
    and r: "resolve src (cs ! Suc j) = Some (Inr (Interior pr rks rcs))"
  shows "\<exists>par. merge_interiors ks cs j (lks, lcs) (rks, rcs) cp = Some (Inr par)
    \<and> parent_wf src cp sh (Suc h) lo hi es par"
proof -
  have s: "separated (child_wf src cp sh (Suc h)) lo hi ks cs" and f: "\<forall>k \<in> set ks. sep_fits cp k"
    using p by (simp_all add: parent_wf_def)
  have jc: "j < length cs" "Suc j < length cs" using separated_length [OF s] j by simp_all
  have mid: "range_hi hi ks j = Some (ks ! j)" "range_lo lo ks (Suc j) = Some (ks ! j)"
    using j by (simp_all add: range_hi_def range_lo_def)
  have L: "separated (child_wf src cp sh h) (range_lo lo ks j) (Some (ks ! j)) lks lcs"
    "\<forall>k \<in> set lks. sep_fits cp k"
    using separated_nth [OF s jc(1)] l by (auto simp: child_wf_iff node_wf_Suc mid)
  have R: "separated (child_wf src cp sh h) (Some (ks ! j)) (range_hi hi ks (Suc j)) rks rcs"
    "\<forall>k \<in> set rks. sep_fits cp k"
    using separated_nth [OF s jc(2)] r by (auto simp: child_wf_iff node_wf_Suc mid)
  have m: "separated (child_wf src cp sh h) (range_lo lo ks j) (range_hi hi ks (Suc j))
      (lks @ ks ! j # rks) (lcs @ rcs)"
    using separated_append [OF separated_length [OF L(1)]] L(1) R(1) by blast
  have mf: "\<forall>k \<in> set (lks @ ks ! j # rks). sep_fits cp k" using L(2) R(2) f j by auto
  show ?thesis
  proof (cases "build_interior (lks @ ks ! j # rks) (lcs @ rcs) cp None")
    case None
    then show ?thesis using p by (simp add: merge_interiors_def)
  next
    case (Some ins)
    have ins: "ins_wf src cp sh (Suc h) (range_lo lo ks j) (range_hi hi ks (Suc j)) ins
        (child_entries src (cs ! j) @ child_entries src (cs ! Suc j))"
      using build_interior_wf [OF Some m mf c] l r by (simp add: child_entries_def)
    show ?thesis
    proof (cases "\<exists>x sp y. ins = Split x sp y \<and> parent_with cp ks j (length sp) > cap_c cp")
      case True
      then show ?thesis using p Some by (auto simp: merge_interiors_def)
    next
      case False
      then have "\<And>x sp y. ins = Split x sp y \<Longrightarrow> parent_with cp ks j (length sp) \<le> cap_c cp"
        by (metis not_le)
      then obtain par where "place_merged ks cs j ins = Some par" "parent_wf src cp sh (Suc h) lo hi es par"
        using place_merged_wf [OF p j ins] by metis
      moreover from this have "merge_interiors ks cs j (lks, lcs) (rks, rcs) cp = Some (Inr par)"
        using Some False by (auto simp: merge_interiors_def split: ins.splits)
      ultimately show ?thesis by blast
    qed
  qed
qed

lemma rebalance_child_wf:
  assumes p: "parent_wf src cp sh h lo hi es (ks, cs)" and i: "i < length cs" and c: "cap_wf cp sh"
    and res: "cs ! i = Resident n"
  shows "\<exists>par. (\<forall>tk path. rebalance_child tk path ks cs i src cp sh = Some (Inr par))
    \<and> parent_wf src cp sh h lo hi es par"
proof (cases "underfull cp sh n \<and> 2 \<le> length cs")
  case False
  then have "\<forall>tk path. rebalance_child tk path ks cs i src cp sh = Some (Inr (ks, cs))"
    using i res by (auto simp: rebalance_child_def)
  then show ?thesis using p by blast
next
  case True
  define j where "j = (if i + 1 < length cs then i else i - 1)"
  have s: "separated (child_wf src cp sh h) lo hi ks cs" using p by (simp add: parent_wf_def)
  have jc: "j < length ks" "j < length cs" "Suc j < length cs" "i = j \<or> i = Suc j"
    using separated_length [OF s] i True by (auto simp: j_def)
  obtain l where l: "resolve src (cs ! j) = Some (Inr l)" "node_wf src cp sh h (range_lo lo ks j) (range_hi hi ks j) l"
    using separated_nth [OF s jc(2)] by (auto simp: child_wf_iff)
  obtain r where r: "resolve src (cs ! Suc j) = Some (Inr r)"
    "node_wf src cp sh h (range_lo lo ks (Suc j)) (range_hi hi ks (Suc j)) r"
    using separated_nth [OF s jc(3)] by (auto simp: child_wf_iff)
  have u: "underfull cp sh l \<or> underfull cp sh r" using True jc(4) res l r by auto
  have reb: "rebalance_child tk path ks cs i src cp sh = merge_at tk path ks cs j src cp sh" for tk path
    using True i res by (simp add: rebalance_child_def j_def)
  have ch: "child cs j src = Some (Inr l)" "child cs (Suc j) src = Some (Inr r)"
    using l r jc by (simp_all add: child_def)
  show ?thesis
  proof (cases h)
    case 0
    then obtain pl lf pr rf where n: "l = Leaf pl lf" "r = Leaf pr rf" using l r by (auto simp: node_wf_0)
    from merge_leaves_wf [OF p [unfolded 0] jc(1) c l(1) [unfolded n] r(1) [unfolded n] u [unfolded n]]
    show ?thesis by (simp add: reb merge_at_def ch n 0)
  next
    case (Suc h')
    then obtain pl lks lcs pr rks rcs where n: "l = Interior pl lks lcs" "r = Interior pr rks rcs"
      using l r by (auto simp: node_wf_Suc)
    from merge_interiors_wf [OF p [unfolded Suc] jc(1) c l(1) [unfolded n] r(1) [unfolded n]]
    show ?thesis by (auto simp: reb merge_at_def ch n Suc)
  qed
qed


lemma leaf_payload_remove_at:
  assumes "i < length ws"
  shows "leaf_payload (remove_at i ws) sh \<le> leaf_payload ws sh"
proof -
  from id_take_nth_drop [OF assms] have "sum_list ws = sum_list (take i ws @ ws ! i # drop (Suc i) ws)"
    by metis
  then have "sum_list (remove_at i ws) \<le> sum_list ws" by (simp add: remove_at_def)
  then show ?thesis
    using assms leaf_overhead_mono [of "length ws - 1" "length ws" sh] by (simp add: leaf_payload_def)
qed

lemma leaf_remove_absent:
  assumes "leaf_wf cp sh lo hi p lf" "map_of (leaf_entries lf) key = None"
  shows "leaf_remove u p lf key = Some (Leaf p lf, Inr None)"
proof -
  obtain ks vs ws where d: "parts_wf cp sh lo hi ks vs ws" "leaf_keys lf = ks" "leaf_entries lf = zip ks vs"
    using leaf_wf_parts [OF assms(1)] by metis
  have s: "sorted_wrt (<) ks" "length vs = length ks" using d(1) by (auto simp: parts_wf_def)
  have "key \<notin> set ks" using assms(2) d(3) s by simp
  then obtain i where "search ks key = Inl i" by (rule search_absent [OF s(1)])
  then show ?thesis by (simp add: leaf_remove_def d(2))
qed

lemma leaf_remove_present:
  assumes lf: "leaf_wf cp sh lo hi p lf" and v: "map_of (leaf_entries lf) key = Some v"
  obtains ks vs ws where "\<forall>u. leaf_remove u p lf key = Some (new_leaf ks vs ws, Inr (Some v))"
    "parts_wf cp sh lo hi ks vs ws" "zip ks vs = del_list key (leaf_entries lf)"
proof -
  obtain ks vs ws where d: "decoded_parts lf = Inr (ks, vs, ws)" "parts_wf cp sh lo hi ks vs ws"
    "leaf_keys lf = ks" "leaf_entries lf = zip ks vs"
    using leaf_wf_parts [OF lf] by metis
  have pre: "parts_pre cp sh lo hi ks vs ws" and pl: "leaf_payload ws sh \<le> cap_c cp"
    using d(2) by (auto simp: parts_wf_pre)
  note len = parts_pre_len [OF pre]
  have s: "sorted_wrt (<) ks" using d(2) by (auto simp: parts_wf_def)
  have "(key, v) \<in> set (zip ks vs)" using v d(4) by (auto dest: map_of_SomeD)
  then have "key \<in> set ks" by (rule set_zip_leftD)
  then obtain i where i: "search ks key = Inr i" by (rule search_member [OF s])
  obtain ls rs where ks: "ks = ls @ key # rs" "length ls = i" "\<forall>k \<in> set ls. k < key" "\<forall>k \<in> set rs. key < k"
    by (rule search_Inr [OF s i])
  obtain lv x rv where vs: "vs = lv @ x # rv" "length lv = length ls" "length rv = length rs"
    by (rule same_length_split [of vs ls key rs]) (use len ks in auto)
  obtain lw y rw where ws: "ws = lw @ y # rw" "length lw = length ls" "length rw = length rs"
    by (rule same_length_split [of ws ls key rs]) (use len ks in auto)
  have z: "\<forall>p \<in> set (zip ls lv). fst p < key" "\<forall>p \<in> set (zip rs rv). key < fst p"
    using ks(3,4) by (auto dest: set_zip_leftD)
  have zz: "zip ks vs = zip ls lv @ [(key, x)] @ zip rs rv" using ks vs by simp
  have x: "x = v" using v unfolding d(4) zz map_of_append_out [OF z] by simp
  have rem: "remove_at i ks = ls @ rs" "remove_at i vs = lv @ rv" "remove_at i ws = lw @ rw"
    "vs ! i = v" "i < length vs" "i < length ws"
    unfolding ks(1) vs(1) ws(1) using ks(2) vs(2) ws(2) x by (simp_all add: nth_append)
  show ?thesis
  proof (rule that)
    have "leaf_remove u p lf key = Some (new_leaf (ls @ rs) (lv @ rv) (lw @ rw), Inr (Some v))" for u
    proof (cases lf)
      case (Decoded a b c)
      then have "lf = Decoded ks vs ws" "dirty p \<longrightarrow> p = NONE" using lf d(1) by (auto simp: leaf_wf_def)
      then show ?thesis by (simp add: leaf_remove_def i rem new_leaf_def)
    next
      case (Packed pk)
      then have "\<not> dirty p" using lf by (simp add: leaf_wf_def)
      then show ?thesis by (simp add: leaf_remove_def d(1,3) i rem)
    qed
    then show "\<forall>u. leaf_remove u p lf key
        = Some (new_leaf (ls @ rs) (lv @ rv) (lw @ rw), Inr (Some v))" by blast
    show "parts_wf cp sh lo hi (ls @ rs) (lv @ rv) (lw @ rw)"
      using pre leaf_payload_remove_at [OF rem(6), of sh] pl ws(2,3) vs(2,3)
      unfolding parts_wf_pre parts_pre_def rem(3)
      by (auto simp: ks(1) vs(1) ws(1) list_all2_append sorted_wrt_append)
    show "zip (ls @ rs) (lv @ rv) = del_list key (leaf_entries lf)"
      unfolding d(4) zz del_list_mid [OF z] using vs(2) by (simp add: del_list_def)
  qed
qed

lemma node_remove_absent:
  assumes "node_wf src cp sh h lo hi n" "in_range lo hi key" "map_of (node_entries src n) key = None"
  shows "node_remove own tk path n key src cp sh = Some (n, Inr None)"
  using assms
proof (induction h arbitrary: lo hi n own path)
  case 0
  then obtain p lf where n: "n = Leaf p lf" "leaf_wf cp sh lo hi p lf" by (auto simp: node_wf_0)
  then show ?case using leaf_remove_absent [OF n(2)] 0(3) by simp
next
  case (Suc h)
  then obtain p ks cs where n: "n = Interior p ks cs" "separated (child_wf src cp sh h) lo hi ks cs"
    by (auto simp: node_wf_Suc)
  define i where "i = child_slot ks key"
  obtain c m where c: "nth_opt cs i = Some c" "i < length cs" "c = cs ! i" "resolve src c = Some (Inr m)"
    "node_wf src cp sh h (range_lo lo ks i) (range_hi hi ks i) m"
    "in_range (range_lo lo ks i) (range_hi hi ks i) key"
    "concat (map (child_entries src) cs) = concat (map (child_entries src) (take i cs))
       @ node_entries src m @ concat (map (child_entries src) (drop (Suc i) cs))"
    "\<forall>p \<in> set (concat (map (child_entries src) (take i cs))). fst p < key"
    "\<forall>p \<in> set (concat (map (child_entries src) (drop (Suc i) cs))). key < fst p"
    using descent [OF n(2) Suc.prems(2)] unfolding i_def by metis
  have "map_of (node_entries src m) key = None"
    using Suc.prems(3) unfolding n(1) interior_entries c(7) map_of_append_out [OF c(8,9)] .
  note IH = Suc.IH [OF c(5,6) this]
  show ?case
  proof (cases c)
    case (Resident m')
    then have "m' = m" "cs[i := Resident m] = cs" using c(2,3,4) by (auto simp: list_update_same_conv)
    then show ?thesis by (simp add: n(1) i_def [symmetric] c(1) Resident IH Let_def)
  next
    case (OnDisk q)
    then have l: "load_leaf src q = Some (Inr m)" using c(4) by simp
    then obtain pl where m: "m = Leaf q (Packed pl)" using load_leaf_is_leaf by blast
    have "leaf_remove (own (i # path)) q (Packed pl) key = Some (m, Inr None)"
      using IH [of own "i # path"] m by simp
    then show ?thesis by (simp add: n(1) i_def [symmetric] c(1) OnDisk l m Let_def)
  qed
qed

lemma node_remove_present:
  assumes "node_wf src cp sh h lo hi n" "in_range lo hi key" "cap_wf cp sh"
    "map_of (node_entries src n) key = Some v"
  shows "\<exists>n'. (\<forall>own tk path. node_remove own tk path n key src cp sh = Some (n', Inr (Some v)))
    \<and> node_wf src cp sh h lo hi n' \<and> page_ref_of n' = NONE
    \<and> (case n' of Leaf _ (Packed _) \<Rightarrow> False | _ \<Rightarrow> True)
    \<and> node_entries src n' = del_list key (node_entries src n)"
  using assms
proof (induction h arbitrary: lo hi n)
  case 0
  then obtain p lf where n: "n = Leaf p lf" "leaf_wf cp sh lo hi p lf" by (auto simp: node_wf_0)
  have v: "map_of (leaf_entries lf) key = Some v" using 0(4) n by simp
  obtain ks vs ws where "\<forall>u. leaf_remove u p lf key = Some (new_leaf ks vs ws, Inr (Some v))"
    "parts_wf cp sh lo hi ks vs ws" "zip ks vs = del_list key (leaf_entries lf)"
    by (rule leaf_remove_present [OF n(2) v]) 
  then show ?case
    by (intro exI [of _ "new_leaf ks vs ws"]) (simp add: n(1) node_wf_new_leaf, simp add: new_leaf_def)
next
  case (Suc h)
  then obtain p ks cs where n: "n = Interior p ks cs" "dirty p \<longrightarrow> p = NONE"
    "\<forall>k \<in> set ks. sep_fits cp k" "interior_payload cp ks \<le> cap_c cp"
    "separated (child_wf src cp sh h) lo hi ks cs"
    by (auto simp: node_wf_Suc)
  define i where "i = child_slot ks key"
  obtain c m where c: "nth_opt cs i = Some c" "i < length cs" "c = cs ! i" "resolve src c = Some (Inr m)"
    "node_wf src cp sh h (range_lo lo ks i) (range_hi hi ks i) m"
    "in_range (range_lo lo ks i) (range_hi hi ks i) key"
    "concat (map (child_entries src) cs) = concat (map (child_entries src) (take i cs))
       @ node_entries src m @ concat (map (child_entries src) (drop (Suc i) cs))"
    "\<forall>p \<in> set (concat (map (child_entries src) (take i cs))). fst p < key"
    "\<forall>p \<in> set (concat (map (child_entries src) (drop (Suc i) cs))). key < fst p"
    using descent [OF n(5) Suc.prems(2)] unfolding i_def by metis
  let ?es = "del_list key (node_entries src n)"
  have v: "map_of (node_entries src m) key = Some v"
    using Suc.prems(4) unfolding n(1) interior_entries c(7) map_of_append_out [OF c(8,9)] .
  have del: "?es = concat (map (child_entries src) (take i cs))
       @ del_list key (node_entries src m) @ concat (map (child_entries src) (drop (Suc i) cs))"
    unfolding n(1) interior_entries c(7) by (rule del_list_mid [OF c(8,9)])
  from Suc.IH [OF c(5,6) Suc.prems(3) v] obtain m' where
    m': "\<And>own tk path. node_remove own tk path m key src cp sh = Some (m', Inr (Some v))"
      "node_wf src cp sh h (range_lo lo ks i) (range_hi hi ks i) m'"
      "node_entries src m' = del_list key (node_entries src m)" by blast
  let ?cs = "cs[i := Resident m']"
  have "separated (child_wf src cp sh h) lo hi ks ?cs"
    using n(5) m'(2) by (intro separated_update) simp_all
  moreover have "concat (map (child_entries src) ?cs) = ?es"
    using c(2) by (simp add: upd_conv_take_nth_drop m'(3) del)
  ultimately have "parent_wf src cp sh h lo hi ?es (ks, ?cs)" using n(3,4) by (simp add: parent_wf_def)
  moreover have "i < length ?cs" "?cs ! i = Resident m'" using c(2) by simp_all
  ultimately obtain par where
    par: "\<And>tk path. rebalance_child tk path ks ?cs i src cp sh = Some (Inr par)"
      "parent_wf src cp sh h lo hi ?es par"
    using rebalance_child_wf [OF _ _ Suc.prems(3)] by blast
  obtain ks' cs' where p': "par = (ks', cs')" by (cases par)
  have "node_remove own tk path n key src cp sh = Some (new_interior ks' cs', Inr (Some v))" for own tk path
  proof (cases c)
    case (Resident r)
    then have "r = m" using c(4) by simp
    then show ?thesis using n(2)
      by (simp add: n(1) i_def [symmetric] c(1) Resident m'(1) Let_def rebalance_in_place_def
          rebalance_copy_def par(1) p' new_interior_def)
  next
    case (OnDisk q)
    then have l: "load_leaf src q = Some (Inr m)" using c(4) by simp
    then obtain pl where m: "m = Leaf q (Packed pl)" using load_leaf_is_leaf by blast
    have "leaf_remove (own (i # path)) q (Packed pl) key = Some (m', Inr (Some v))"
      using m'(1) [of own tk "i # path"] m by simp
    then show ?thesis using n(2)
      by (simp add: n(1) i_def [symmetric] c(1) OnDisk l m Let_def rebalance_in_place_def
          rebalance_copy_def par(1) p' new_interior_def)
  qed
  moreover have "node_wf src cp sh (Suc h) lo hi (new_interior ks' cs')"
    "node_entries src (new_interior ks' cs') = ?es"
    using par(2) p' by (auto simp: new_interior_def node_wf_parent parent_wf_def)
  ultimately show ?case by (intro exI [of _ "new_interior ks' cs'"]) (simp add: new_interior_def)
qed

definition ins_root :: "'r ins \<Rightarrow> 'r node option" where
  "ins_root ins = (case ins of Kept \<Rightarrow> None | Whole n \<Rightarrow> Some n
     | Split l s r \<Rightarrow> Some (new_interior [s] [Resident l, Resident r]))"

lemma ins_root_wf:
  assumes "ins_wf src cp sh h None None ins es" "cap_wf cp sh"
  obtains n h' where "ins_root ins = Some n" "node_wf src cp sh h' None None n" "node_entries src n = es"
proof (cases ins)
  case (Split l s r)
  have "interior_payload cp [s] \<le> cap_c cp" using assms Split by (simp add: ins_wf_def sep_fits_def)
  then have "node_wf src cp sh (Suc h) None None (new_interior [s] [Resident l, Resident r])"
    using assms Split by (simp add: ins_wf_def node_wf_Suc new_interior_def del: interior_payload_simps)
  moreover have "node_entries src (new_interior [s] [Resident l, Resident r]) = es"
    using assms Split by (simp add: ins_wf_def new_interior_def)
  ultimately show ?thesis using that Split by (auto simp: ins_root_def)
qed (use assms that in \<open>auto simp: ins_wf_def ins_root_def\<close>)

lemma pmap_insert_wf:
  assumes m: "pmap_wf src cp sh m" and c: "cap_wf cp sh" and r: "rec_wf cp sh key w"
    and len: "int (length (pmap_entries src m)) + 1 < 2 ^ 63"
  shows "\<exists>m'. (\<forall>own. pmap_insert own m key val w cp sh src
        = Some (m', Inr (map_of (pmap_entries src m) key)))
      \<and> pmap_wf src cp sh m' \<and> pmap_entries src m' = upd_list key val (pmap_entries src m)"
proof -
  let ?es = "pmap_entries src m" and ?old = "map_of (pmap_entries src m) key"
  obtain n h where n: "node_wf src cp sh h None None n" "node_entries src n = upd_list key val ?es"
    "\<And>own. pmap_insert own m key val w cp sh src =
       (case ?old of
          None \<Rightarrow> map_option (\<lambda>x. (m\<lparr> root := Some n, pm_count := x \<rparr>, Inr None)) (count_add (pm_count m))
        | Some _ \<Rightarrow> Some (m\<lparr> root := Some n \<rparr>, Inr ?old))"
  proof (cases "root m")
    case None
    have "leaf_payload [w] sh \<le> cap_c cp"
      using r rec_fits_pair(2) [of cp sh w w] by (simp add: rec_wf_def leaf_payload_def)
    then have "node_wf src cp sh 0 None None (new_leaf [key] [val] [w])"
      using r by (simp add: node_wf_new_leaf parts_wf_def)
    then show ?thesis
      using that [of 0 "new_leaf [key] [val] [w]"] None by (simp add: pmap_entries_def pmap_insert_def)
  next
    case (Some r')
    then obtain h where h: "node_wf src cp sh h None None r'" using m by (auto simp: pmap_wf_def)
    have es: "?es = node_entries src r'" using Some by (simp add: pmap_entries_def)
    from node_insert_wf [OF h _ r c, of val] obtain j where
      j: "\<And>own path. \<exists>n' ins. node_insert own path r' key val w src cp sh
          = Some (n', Inr (?old, ins)) \<and> settle n' ins = j"
        "ins_wf src cp sh h None None j (upd_list key val ?es)"
      unfolding es by auto
    obtain n h' where n: "ins_root j = Some n" "node_wf src cp sh h' None None n"
      "node_entries src n = upd_list key val ?es"
      by (rule ins_root_wf [OF j(2) c])
    have "pmap_insert own m key val w cp sh src =
       (case ?old of
          None \<Rightarrow> map_option (\<lambda>x. (m\<lparr> root := Some n, pm_count := x \<rparr>, Inr None)) (count_add (pm_count m))
        | Some _ \<Rightarrow> Some (m\<lparr> root := Some n \<rparr>, Inr ?old))" for own
    proof -
      obtain n' ins where "node_insert own [] r' key val w src cp sh = Some (n', Inr (?old, ins))"
        "settle n' ins = j" using j(1) by blast
      then show ?thesis using Some n(1)
        by (cases ins) (auto simp: pmap_insert_def ins_root_def split: option.splits)
    qed
    with n that show ?thesis by blast
  qed
  have ent: "pmap_entries src (m\<lparr> root := Some n, pm_count := x \<rparr>) = upd_list key val ?es"
    "pmap_entries src (m\<lparr> root := Some n \<rparr>) = upd_list key val ?es" for x
    using n(2) by (simp_all add: pmap_entries_def)
  note L = length_upd_list [OF pmap_wf_sorted [OF m], of key val]
  show ?thesis
  proof (cases ?old)
    case None
    obtain x where x: "count_add (pm_count m) = Some x"
      "case x of None \<Rightarrow> True | Some y \<Rightarrow> y = int (length ?es) + 1"
      using m len by (auto simp: count_add_def pmap_wf_def split: option.splits)
    have "pmap_wf src cp sh (m\<lparr> root := Some n, pm_count := x \<rparr>)"
      using n(1,2) x(2) L None unfolding pmap_wf_def ent by (auto split: option.splits)
    then show ?thesis
      using n(3) None x(1) ent by (intro exI [of _ "m\<lparr> root := Some n, pm_count := x \<rparr>"]) simp
  next
    case (Some y)
    have "pmap_wf src cp sh (m\<lparr> root := Some n \<rparr>)"
      using n(1,2) m L Some unfolding pmap_wf_def ent by (auto split: option.splits)
    then show ?thesis using n(3) Some ent by (intro exI [of _ "m\<lparr> root := Some n \<rparr>"]) simp
  qed
qed


lemma pmap_remove_wf:
  assumes m: "pmap_wf src cp sh m" and c: "cap_wf cp sh"
  shows "\<exists>m'. (\<forall>own tk. pmap_remove own tk m key cp sh src
        = Some (m', Inr (map_of (pmap_entries src m) key)))
      \<and> pmap_wf src cp sh m' \<and> pmap_entries src m' = del_list key (pmap_entries src m)"
proof (cases "root m")
  case None
  then show ?thesis
    using m by (intro exI [of _ m]) (simp add: pmap_remove_def pmap_entries_def del_list_def)
next
  case (Some r)
  let ?es = "pmap_entries src m" and ?old = "map_of (pmap_entries src m) key"
  obtain h where h: "node_wf src cp sh h None None r" using m Some by (auto simp: pmap_wf_def)
  have es: "?es = node_entries src r" using Some by (simp add: pmap_entries_def)
  show ?thesis
  proof (cases ?old)
    case None
    then have "del_list key ?es = ?es" by (intro del_list_id) (force simp: map_of_eq_None_iff)
    moreover have "pmap_remove own tk m key cp sh src = Some (m, Inr None)" for own tk
      using node_remove_absent [OF h _ None [unfolded es]] Some by (simp add: pmap_remove_def)
    ultimately show ?thesis using m None by (intro exI [of _ m]) simp
  next
    case v: (Some v)
    from node_remove_present [OF h _ c v [unfolded es]] obtain r' where
      r': "\<And>own tk path. node_remove own tk path r key src cp sh = Some (r', Inr (Some v))"
        "node_wf src cp sh h None None r'" "case r' of Leaf _ (Packed _) \<Rightarrow> False | _ \<Rightarrow> True"
        "node_entries src r' = del_list key ?es"
      unfolding es by auto
    define new_root where "new_root = (if keys_vec r' = [] then
        (case r' of Leaf _ _ \<Rightarrow> Some (Inr None)
         | Interior _ _ cs \<Rightarrow> io_bind (child cs 0 src) (\<lambda>n. Some (Inr (Some n))))
      else Some (Inr (Some r')))"
    obtain nr where nr: "new_root = Some (Inr nr)"
      "case nr of None \<Rightarrow> del_list key ?es = []
       | Some n \<Rightarrow> (\<exists>h. node_wf src cp sh h None None n) \<and> node_entries src n = del_list key ?es"
    proof (cases "keys_vec r' = []")
      case False
      then show ?thesis using that [of "Some r'"] r' by (auto simp: new_root_def)
    next
      case True
      show ?thesis
      proof (cases r')
        case (Leaf p lf)
        then obtain vs ws where "lf = Decoded [] vs ws" using True r'(3) by (cases lf) auto
        then have "del_list key ?es = []" using r'(4) Leaf by (simp add: leaf_entries_def)
        then show ?thesis using that [of None] True Leaf by (simp add: new_root_def)
      next
        case (Interior p ks cs)
        then obtain h' where "separated (child_wf src cp sh h') None None [] cs"
          using r'(2) True by (cases h) (auto simp: node_wf_0 node_wf_Suc)
        then obtain c0 where c0: "cs = [c0]" "child_wf src cp sh h' None None c0"
          by (cases cs; cases "tl cs") auto
        then obtain n where "resolve src c0 = Some (Inr n)" "node_wf src cp sh h' None None n"
          by (auto simp: child_wf_iff)
        then show ?thesis
          using that [of "Some n"] True Interior c0 r'(4)
          by (auto simp: new_root_def child_def child_entries_def)
      qed
    qed
    obtain x where x: "count_sub (pm_count m) = Some x"
      "case x of None \<Rightarrow> True | Some y \<Rightarrow> y = int (length ?es) - 1"
      using m by (auto simp: count_sub_def pmap_wf_def split: option.splits)
    let ?m = "m\<lparr> root := nr, pm_count := x \<rparr>"
    have ent: "pmap_entries src ?m = del_list key ?es"
      using nr(2) by (auto simp: pmap_entries_def split: option.splits)
    have "pmap_wf src cp sh ?m"
      using nr(2) x(2) length_del_list [OF pmap_wf_sorted [OF m] v] unfolding pmap_wf_def ent
      by (auto split: option.splits)
    moreover have "pmap_remove own tk m key cp sh src = Some (?m, Inr (Some v))" for own tk
      using Some r'(1) nr(1) x(1) by (simp add: pmap_remove_def new_root_def Let_def)
    ultimately show ?thesis using ent v by (intro exI [of _ ?m]) simp
  qed
qed

section \<open>Errors\<close>

text \<open>A failed insert leaves the node it was called on unchanged.\<close>

lemma leaf_insert_error: "leaf_insert u p lf key val w cp sh = Some (n', Inl e) \<Longrightarrow> n' = Leaf p lf"
  by (auto simp: leaf_insert_def Let_def split: if_splits leaf_form.splits option.splits sum.splits)

lemma absorb_no_error:
  "absorb_in_place p ks cs i sub cp \<noteq> Some (n', Inl e)"
  "absorb_copy p ks cs i csub cp \<noteq> Some (n', Inl e)"
  by (auto simp: absorb_in_place_def absorb_copy_def Let_def split: prod.splits ins.splits if_splits)

lemma node_insert_error:
  "node_insert own path n key val w src cp sh = Some (n', Inl e) \<Longrightarrow> n' = n"
proof (induction own path n key val w src cp sh arbitrary: n' rule: node_insert.induct)
  case (1 own path p lf key val w src cp sh)
  then show ?case by (simp add: leaf_insert_error)
next
  case (2 own path p ks cs key val w src cp sh)
  define i where "i = child_slot ks key"
  show ?case
  proof (cases "nth_opt cs i")
    case None
    then show ?thesis using 2 by (simp add: i_def)
  next
    case (Some c)
    show ?thesis
    proof (cases c)
      case (OnDisk q)
      then show ?thesis
        using "2.prems" Some by (auto simp: i_def [symmetric] Let_def absorb_no_error
            split: option.splits sum.splits node.splits prod.splits if_splits)
    next
      case (Resident r)
      have r: "cs[i := Resident r] = cs" using Some Resident by (auto simp: nth_opt_Some_iff list_update_same_conv)
      show ?thesis
        using "2.prems" Some Resident r "2.IH"(1) [OF i_def Some Resident] "2.IH"(2) [OF i_def Some Resident]
        by (auto simp: i_def [symmetric] Let_def absorb_no_error
            split: option.splits sum.splits prod.splits if_splits)
    qed
  qed
qed

section \<open>Concrete trees\<close>

text \<open>
  A page of one-byte index keys: two per leaf, one separator per interior node.
\<close>

definition tiny_cap :: cap where "tiny_cap = \<lparr> cap_c = 14, cap_tag = 0 \<rparr>"
definition index_shape :: leaf_shape where "index_shape = \<lparr> sh_fixed = 0, sh_var = 0 \<rparr>"

lemma tiny_cap_wf: "cap_wf tiny_cap index_shape" "length k \<le> 1 \<Longrightarrow> rec_wf tiny_cap index_shape k 1"
  by (simp_all add: cap_wf_def rec_fits_def rec_wf_def tiny_cap_def index_shape_def shape_k_def ptr_def
      RECORD_MAX_RESERVE_def)

section \<open>Properties\<close>

text \<open>
  C1. Insert: on a well-formed tree with a record the page admits, for every pattern of node
  ownership, the call returns (no panic, no error) the row it replaced; the tree stays
  well-formed and its contents are the old ones with the key bound to the new row.
\<close>

theorem pmap_insert_correct:
  assumes "pmap_wf src cp sh m" "cap_wf cp sh" "rec_wf cp sh key w"
    "int (length (pmap_entries src m)) + 1 < 2 ^ 63"
  shows "\<exists>m'. pmap_insert own m key val w cp sh src = Some (m', Inr (map_of (pmap_entries src m) key))
    \<and> pmap_wf src cp sh m'
    \<and> pmap_entries src m' = upd_list key val (pmap_entries src m)
    \<and> map_of (pmap_entries src m') = (map_of (pmap_entries src m))(key \<mapsto> val)"
  using pmap_insert_wf [OF assms, of val] map_of_upd_list [OF pmap_wf_sorted [OF assms(1)]] by fastforce

lemma pmap_new_wf [simp]: "pmap_wf src cp sh pmap_new" "pmap_entries src pmap_new = []"
  by (simp_all add: pmap_wf_def pmap_new_def pmap_entries_def)

theorem pmap_insert_correct_witness:
  "\<exists>m'. pmap_insert (\<lambda>_. True) pmap_new [1] (7 :: nat) 1 tiny_cap index_shape None = Some (m', Inr None)
    \<and> pmap_entries None m' = [([1], 7)]"
  using pmap_insert_correct [of None tiny_cap index_shape pmap_new "[1]" 1 "\<lambda>_. True" 7] tiny_cap_wf
  by fastforce

text \<open>
  C2. Remove: on a well-formed tree the call returns the row the key had, or nothing when it is
  absent; the tree stays well-formed and its contents are the old ones without the key.
\<close>

theorem pmap_remove_correct:
  assumes "pmap_wf src cp sh m" "cap_wf cp sh"
  shows "\<exists>m'. pmap_remove own tk m key cp sh src = Some (m', Inr (map_of (pmap_entries src m) key))
    \<and> pmap_wf src cp sh m'
    \<and> pmap_entries src m' = del_list key (pmap_entries src m)
    \<and> map_of (pmap_entries src m') = (map_of (pmap_entries src m))(key := None)"
  using pmap_remove_wf [OF assms, of key] map_of_del_list [of key "pmap_entries src m"] by fastforce

definition two_rows :: "nat pmap" where
  "two_rows = \<lparr> root = Some (new_leaf [[1], [2]] [10, 20] [1, 1]), pm_count = Some 2 \<rparr>"

lemma two_rows_wf:
  "pmap_wf src tiny_cap index_shape two_rows" "pmap_entries src two_rows = [([1], 10), ([2], 20)]"
proof -
  have "parts_wf tiny_cap index_shape None None [[1], [2]] [10 :: nat, 20] [1, 1]"
    using tiny_cap_wf(2) by (auto simp: parts_wf_def leaf_payload_def leaf_overhead_def shape_k_def
        tiny_cap_def index_shape_def div_ceil_def)
  then have "node_wf src tiny_cap index_shape 0 None None (new_leaf [[1], [2]] [10 :: nat, 20] [1, 1])"
    by (simp add: node_wf_new_leaf)
  then show "pmap_wf src tiny_cap index_shape two_rows" "pmap_entries src two_rows = [([1], 10), ([2], 20)]"
    by (auto simp: pmap_wf_def pmap_entries_def two_rows_def)
qed

theorem pmap_remove_correct_witness:
  "\<exists>m'. pmap_remove (\<lambda>_. False) (\<lambda>_. False) two_rows [1] tiny_cap index_shape None = Some (m', Inr (Some 10))
    \<and> pmap_entries None m' = [([2], 20)]"
  using pmap_remove_correct [of None tiny_cap index_shape two_rows "\<lambda>_. False" "\<lambda>_. False" "[1]"]
    tiny_cap_wf two_rows_wf by (auto simp: del_list_def)

text \<open>
  Editing in place and path-copying are the same: on a well-formed tree the resulting map
  of an insert or a remove does not depend on which nodes are uniquely owned.
\<close>

theorem ownership_irrelevant:
  assumes "pmap_wf src cp sh m" "cap_wf cp sh" "rec_wf cp sh key w"
    "int (length (pmap_entries src m)) + 1 < 2 ^ 63"
  shows "pmap_insert own m key val w cp sh src = pmap_insert own' m key val w cp sh src
    \<and> pmap_remove own tk m key cp sh src = pmap_remove own' tk' m key cp sh src"
  using pmap_insert_wf [OF assms, of val] pmap_remove_wf [OF assms(1,2), of key] by fastforce

theorem ownership_irrelevant_witness:
  "pmap_insert (\<lambda>_. True) two_rows [3] 30 1 tiny_cap index_shape None
     = pmap_insert (\<lambda>_. False) two_rows [3] 30 1 tiny_cap index_shape None"
  using ownership_irrelevant [of None tiny_cap index_shape two_rows "[3]" 1 "\<lambda>_. True" 30 "\<lambda>_. False"]
    tiny_cap_wf two_rows_wf by simp

text \<open>
  A failed insert (a leaf that cannot be faulted or decoded) leaves the map exactly as it
  was, whatever the tree and the ownership of its nodes.
\<close>

theorem pmap_insert_error_unchanged:
  "pmap_insert own m key val w cp sh src = Some (m', Inl e) \<Longrightarrow> m' = m"
  by (auto simp: pmap_insert_def Let_def split: option.splits prod.splits sum.splits ins.splits
      dest!: node_insert_error)

definition half_paged :: "nat pmap" where
  "half_paged = \<lparr> root = Some (Interior NONE [[2]]
     [Resident (new_leaf [[1]] [10] [1]), OnDisk \<lparr> pr_page = 5, pr_tag = [] \<rparr>]), pm_count = Some 2 \<rparr>"

definition broken_source :: "nat leaf_source" where
  "broken_source = Some (\<lambda>_. Inl (IoError, ''read failed''))"

theorem pmap_insert_error_unchanged_witness:
  "pmap_insert (\<lambda>_. True) half_paged [3] 30 1 tiny_cap index_shape broken_source
     = Some (half_paged, Inl (IoError, ''read failed''))"
proof -
  have r: "pmap_insert (\<lambda>_. True) half_paged [3] 30 1 tiny_cap index_shape broken_source
      = Some (\<lparr> root = root half_paged, pm_count = Some 2 \<rparr>, Inl (IoError, ''read failed''))" by code_simp
  with pmap_insert_error_unchanged [OF r] show ?thesis by simp
qed

section \<open>Two divergences\<close>

text \<open>
  The payload of the smallest page of a file (256 bytes) and index keys of the greatest length it admits.
\<close>

definition small_page :: cap where "small_page = \<lparr> cap_c = 240, cap_tag = 0 \<rparr>"

definition long_key :: "u8 \<Rightarrow> key" where "long_key b = b # replicate 113 0"

lemma long_key_admitted: "cap_wf small_page index_shape" "rec_wf small_page index_shape (long_key b) 114"
  by (simp_all add: cap_wf_def rec_fits_def rec_wf_def small_page_def index_shape_def shape_k_def ptr_def
      RECORD_MAX_RESERVE_def long_key_def)

fun insert_all :: "key list \<Rightarrow> nat pmap \<Rightarrow> nat pmap option" where
  "insert_all [] m = Some m"
| "insert_all (k # ks) m =
     (case pmap_insert (\<lambda>_. True) m k (length ks) 114 small_page index_shape None of
        Some (m, Inr _) \<Rightarrow> insert_all ks m | _ \<Rightarrow> None)"

fun remove_all :: "key list \<Rightarrow> nat pmap \<Rightarrow> nat pmap option" where
  "remove_all [] m = Some m"
| "remove_all (k # ks) m =
     (case pmap_remove (\<lambda>_. True) (\<lambda>_. True) m k small_page index_shape None of
        Some (m, Inr _) \<Rightarrow> remove_all ks m | _ \<Rightarrow> None)"

text \<open>
  A drained map is not always \<open>is_empty\<close>: with separators so long that an interior node holds
  one, inserting five keys and removing them all leaves a root that is an empty leaf.
\<close>

lemma drained_map_keeps_root:
  "Option.bind (insert_all (map long_key [1, 2, 3, 4, 5]) pmap_new) (remove_all (map long_key [5, 4, 3, 2, 1]))
     = Some \<lparr> root = Some (new_leaf [] [] []), pm_count = Some 0 \<rparr>"
  by code_simp

lemma drained_map_not_is_empty:
  "\<exists>m. Option.bind (insert_all (map long_key [1, 2, 3, 4, 5]) pmap_new) (remove_all (map long_key [5, 4, 3, 2, 1]))
       = Some m \<and> pmap_entries None m = [] \<and> \<not> is_empty m"
  unfolding drained_map_keeps_root
  by (simp add: pmap_entries_def is_empty_def)

text \<open>
  A remove that edits in place and then cannot fault the sibling to merge with reports an error,
  but the row is gone and the count still includes it.
\<close>

lemma failed_remove_loses_row:
  "\<exists>m'. pmap_remove (\<lambda>_. True) (\<lambda>_. True) half_paged [1] small_page index_shape broken_source
       = Some (m', Inl (IoError, ''read failed''))
     \<and> pmap_entries broken_source half_paged = [([1], 10)]
     \<and> pmap_entries broken_source m' = [] \<and> pm_count m' = pm_count half_paged"
proof -
  have "pmap_remove (\<lambda>_. True) (\<lambda>_. True) half_paged [1] small_page index_shape broken_source
    = Some (\<lparr> root = Some (Interior NONE [[2]]
        [Resident (new_leaf [] [] []), OnDisk \<lparr> pr_page = 5, pr_tag = [] \<rparr>]), pm_count = Some 2 \<rparr>,
        Inl (IoError, ''read failed''))" by code_simp
  then show ?thesis
    by (auto simp: pmap_entries_def half_paged_def child_entries_def load_leaf_def broken_source_def)
qed

end
