(* ===== verification/Pmap_Scan_Correct.thy ===== *)
theory Pmap_Scan_Correct
  imports Pmap_Scan Pmap_Update
begin

text \<open>
  The scans are right: on a well-formed tree every walk is the loop of its visitor over the
  records the bound admits, in key order or its reverse, whatever the read-ahead does; the
  nodes counted during a walk are those the cost model charges.
\<close>

section \<open>Windows\<close>

text \<open>A prefix-closed test on an ascending list.\<close>

definition below :: "('a::linorder \<Rightarrow> bool) \<Rightarrow> bool" where
  "below P \<longleftrightarrow> (\<forall>x y. x \<le> y \<longrightarrow> P y \<longrightarrow> P x)"

lemma below_intros [intro, simp]: "below (\<lambda>k. k < (x::'a::linorder))" "below (\<lambda>k. k \<le> (x::'a::linorder))"
  by (auto simp: below_def intro: order.strict_trans1 order.trans)

lemma below_takeWhile:
  fixes f :: "'b \<Rightarrow> 'a::linorder"
  assumes "sorted_wrt (\<lambda>x y. f x < f y) zs" "below P"
  shows "takeWhile (\<lambda>z. P (f z)) zs = filter (\<lambda>z. P (f z)) zs"
  using assms(1)
proof (induction zs)
  case (Cons z zs)
  show ?case
  proof (cases "P (f z)")
    case False
    have "\<not> P (f x)" if "x \<in> set zs" for x
    proof -
      have "f z \<le> f x" using that Cons.prems by (auto intro: order.strict_implies_order)
      then show ?thesis using assms(2) False unfolding below_def by blast
    qed
    then show ?thesis using False by (simp add: filter_False)
  qed (use Cons in simp)
qed simp

lemma lower_bound_loop:
  assumes "sorted_wrt (<) ks" "hi \<le> length ks" "lo \<le> hi"
    "\<forall>i < lo. (if inc then ks ! i < key else ks ! i \<le> key)"
    "\<forall>i. hi \<le> i \<longrightarrow> i < length ks \<longrightarrow> \<not> (if inc then ks ! i < key else ks ! i \<le> key)"
  shows "lower_bound_loop ks key inc lo hi
    = length (takeWhile (\<lambda>k. if inc then k < key else k \<le> key) ks)"
  using assms
proof (induction ks key inc lo hi rule: lower_bound_loop.induct)
  case (1 ks key inc lo hi)
  let ?B = "\<lambda>k. if inc then k < key else k \<le> key"
  have b: "below ?B" by (cases inc) auto
  have mono: "ks ! i \<le> ks ! j" if "i \<le> j" "j < length ks" for i j
    using 1(3) that by (metis order.order_iff_strict sorted_wrt_nth_less)
  show ?case
  proof (cases "lo < hi")
    case True
    define mid where "mid = (lo + hi) div 2"
    have m: "lo \<le> mid" "mid < hi" "mid < length ks" using True 1(4) by (auto simp: mid_def)
    show ?thesis
    proof (cases "?B (ks ! mid)")
      case B: True
      have "\<forall>i < mid + 1. ?B (ks ! i)"
      proof (intro allI impI)
        fix i assume "i < mid + 1"
        then have "ks ! i \<le> ks ! mid" using mono m by simp
        then show "?B (ks ! i)" using B b unfolding below_def by blast
      qed
      then have "lower_bound_loop ks key inc (mid + 1) hi = length (takeWhile ?B ks)"
        using 1(1) [OF True mid_def refl] B 1(3-) m by auto
      then show ?thesis using True B by (subst lower_bound_loop.simps) (simp add: mid_def [symmetric] Let_def)
    next
      case B: False
      have "\<forall>i. mid \<le> i \<longrightarrow> i < length ks \<longrightarrow> \<not> ?B (ks ! i)"
      proof (intro allI impI notI)
        fix i assume "mid \<le> i" "i < length ks" "?B (ks ! i)"
        then show False using mono [of mid i] B b unfolding below_def by blast
      qed
      then have "lower_bound_loop ks key inc lo mid = length (takeWhile ?B ks)"
        using 1(2) [OF True mid_def refl] B 1(3-) m by auto
      then show ?thesis using True B by (subst lower_bound_loop.simps) (simp add: mid_def [symmetric] Let_def)
    qed
  next
    case False
    then have e: "lo = hi" using 1(5) by simp
    have "length (takeWhile ?B ks) = lo"
    proof (cases "lo < length ks")
      case True
      have "takeWhile ?B ks = take lo ks"
        by (rule takeWhile_eq_take_P_nth) (use 1(4-) True e in auto)
      then show ?thesis using True by simp
    next
      case l: False
      then have "\<forall>k \<in> set ks. ?B k" using 1(6) 1(4) e by (metis in_set_conv_nth le_antisym not_le)
      then show ?thesis using l 1(4) e by (simp add: takeWhile_eq_all_conv [THEN iffD2])
    qed
    then show ?thesis using False by (subst lower_bound_loop.simps) simp
  qed
qed

lemma lower_bound_takeWhile:
  "sorted_wrt (<) ks \<Longrightarrow> lower_bound ks key inc = length (takeWhile (\<lambda>k. if inc then k < key else k \<le> key) ks)"
  unfolding lower_bound_def by (rule lower_bound_loop) auto

text \<open>What a bound admits.\<close>

definition in_bound :: "key_bound \<Rightarrow> key \<Rightarrow> bool" where
  "in_bound b k \<longleftrightarrow>
     (case kb_lo b of None \<Rightarrow> True | Some lo \<Rightarrow> if kb_lo_inc b then lo \<le> k else lo < k)
     \<and> (case kb_hi b of None \<Rightarrow> True | Some hi \<Rightarrow> if kb_hi_inc b then k \<le> hi else k < hi)"

lemma in_bound_unbounded [simp]: "in_bound unbounded k"
  by (simp add: in_bound_def unbounded_def)

lemma map_nth_upt: "n \<le> length xs \<Longrightarrow> map (nth xs) [m..<n] = drop m (take n xs)"
  by (rule nth_equalityI) auto

lemma filter_window:
  fixes f :: "'b \<Rightarrow> 'a::linorder"
  assumes s: "sorted_wrt (\<lambda>x y. f x < f y) zs" and P: "below P" and Q: "below Q"
    and m: "m = length (takeWhile (\<lambda>z. P (f z)) zs)" and n: "n = length (takeWhile (\<lambda>z. Q (f z)) zs)"
  shows "map (nth zs) [m..<max n m] = filter (\<lambda>z. \<not> P (f z) \<and> Q (f z)) zs"
proof -
  have tm: "take m zs = filter (\<lambda>z. P (f z)) zs" unfolding m below_takeWhile [OF s P, symmetric]
    by (rule takeWhile_eq_take [symmetric])
  have tn: "take n zs = filter (\<lambda>z. Q (f z)) zs" unfolding n below_takeWhile [OF s Q, symmetric]
    by (rule takeWhile_eq_take [symmetric])
  have le: "n \<le> length zs" "m \<le> length zs" by (auto simp: m n length_takeWhile_le)
  have dm: "\<not> P (f z)" if "z \<in> set (drop m zs)" for z
  proof
    assume "P (f z)"
    have "filter (\<lambda>z. P (f z)) (take m zs) = take m zs" unfolding tm by simp
    moreover have "filter (\<lambda>z. P (f z)) zs
        = filter (\<lambda>z. P (f z)) (take m zs) @ filter (\<lambda>z. P (f z)) (drop m zs)"
      unfolding filter_append [symmetric] append_take_drop_id ..
    ultimately have "filter (\<lambda>z. P (f z)) (drop m zs) = []" unfolding tm [symmetric] by simp
    then show False using that \<open>P (f z)\<close> by (simp add: filter_empty_conv)
  qed
  have e: "filter (\<lambda>z. \<not> P (f z) \<and> Q (f z)) zs = filter (\<lambda>z. \<not> P (f z)) (take n zs)"
    unfolding tn by (simp add: conj_commute)
  have up: "map (nth zs) [m..<n] = drop m (take n zs)" by (rule map_nth_upt [OF le(1)])
  show ?thesis
  proof (cases "n \<le> m")
    case True
    have "set (take n zs) \<subseteq> set (take m zs)" using True by (rule set_take_subset_set_take)
    then have "\<forall>z \<in> set (take n zs). P (f z)" unfolding tm by auto
    then have "filter (\<lambda>z. \<not> P (f z)) (take n zs) = []" by (simp only: filter_empty_conv not_not)
    then show ?thesis unfolding e using True by (simp add: max_def)
  next
    case False
    have "take m (take n zs) = take m zs" using False by simp
    then have t: "take m zs @ drop m (take n zs) = take n zs"
      using append_take_drop_id [of m "take n zs"] by (rule subst)
    have "filter (\<lambda>z. \<not> P (f z)) (take m zs) = []" unfolding tm by simp
    moreover have "filter (\<lambda>z. \<not> P (f z)) (drop m (take n zs)) = drop m (take n zs)"
    proof (rule filter_True, rule ballI)
      fix z assume "z \<in> set (drop m (take n zs))"
      then have "z \<in> set (drop m zs)" unfolding drop_take by (rule in_set_takeD)
      then show "\<not> P (f z)" by (rule dm)
    qed
    ultimately have "filter (\<lambda>z. \<not> P (f z)) (take m zs @ drop m (take n zs)) = drop m (take n zs)"
      by (simp only: filter_append append_Nil)
    then have "filter (\<lambda>z. \<not> P (f z)) (take n zs) = drop m (take n zs)" by (simp only: t)
    then show ?thesis unfolding e up [symmetric] using False by (simp add: max_def)
  qed
qed


lemma upt_join: "i \<le> j \<Longrightarrow> j \<le> k \<Longrightarrow> [i..<k] = [i..<j] @ [j..<k]"
  using upt_add_eq_append [of i j "k - j"] by simp

lemma takeWhile_False: "takeWhile (\<lambda>_. False) xs = []"
  by (cases xs) auto

text \<open>The entry window holds exactly the records the bound admits.\<close>

lemma entry_positions_filter:
  assumes s: "sorted_wrt (<) ks" and l: "length vs = length ks"
  shows "map (nth (zip ks vs)) (entry_positions False b ks) = filter (\<lambda>p. in_bound b (fst p)) (zip ks vs)"
proof -
  let ?z = "zip ks vs"
  have sz: "sorted_wrt (\<lambda>x y. fst x < fst y) ?z"
    using s l by (simp add: sorted_wrt_iff_nth_less)
  have tw: "length (takeWhile P ks) = length (takeWhile (\<lambda>z. P (fst z)) ?z)" for P
  proof -
    have "takeWhile P (map fst ?z) = map fst (takeWhile (\<lambda>z. P (fst z)) ?z)"
      by (simp add: takeWhile_map comp_def del: map_fst_zip)
    then show ?thesis using l by (metis length_map map_fst_zip)
  qed
  define P where "P = (\<lambda>k. case kb_lo b of None \<Rightarrow> False | Some lo \<Rightarrow> if kb_lo_inc b then k < lo else k \<le> lo)"
  define Q where "Q = (\<lambda>k. case kb_hi b of None \<Rightarrow> True | Some hi \<Rightarrow> if kb_hi_inc b then k \<le> hi else k < hi)"
  have bl: "below P" "below Q"
    by (auto simp: P_def Q_def below_def split: option.splits intro: order.strict_trans1 order.trans)
  have w: "entry_window b ks = (length (takeWhile P ks), max (length (takeWhile Q ks)) (length (takeWhile P ks)))"
    by (cases "kb_lo b"; cases "kb_hi b"; cases "kb_lo_inc b"; cases "kb_hi_inc b")
      (simp_all add: entry_window_def P_def Q_def lower_bound_takeWhile [OF s] takeWhile_False
        takeWhile_eq_all_conv [THEN iffD2] Let_def)
  have "filter (\<lambda>p. in_bound b (fst p)) ?z = filter (\<lambda>z. \<not> P (fst z) \<and> Q (fst z)) ?z"
    by (rule filter_cong) (auto simp: in_bound_def P_def Q_def not_less not_le split: option.splits)
  then show ?thesis
    using filter_window [OF sz bl tw tw] by (simp add: entry_positions_def w)
qed

text \<open>The child window misses no child with an entry in the bound.\<close>

lemma child_window_bounds:
  "child_window b ks = (cf, cl) \<Longrightarrow> cf \<le> cl \<and> cl \<le> length ks"
  by (auto simp: child_window_def Let_def partition_point_def length_takeWhile_le split: option.splits if_splits)

lemma separated_sorted: "separated P lo hi ks cs \<Longrightarrow> sorted_wrt (<) ks \<and> (\<forall>k \<in> set ks. nonempty_range lo (Some k))"
proof (induction P lo hi ks cs rule: separated.induct)
  case (2 P lo hi k ks c cs)
  then show ?case
    by (auto simp: nonempty_range_def split: option.splits intro: order.strict_trans)
qed auto

lemma child_window_outside:
  assumes s: "sorted_wrt (<) ks" and w: "child_window b ks = (cf, cl)"
    and i: "i < cf \<or> cl < i" "i \<le> length ks"
    and k: "in_range (range_lo lo ks i) (range_hi hi ks i) key"
  shows "\<not> in_bound b key"
proof -
  have lt: "P (ks ! j)" if "j < length (takeWhile P ks)" for P j
    using that by (metis nth_mem set_takeWhileD takeWhile_nth)
  have ge: "\<not> P (ks ! length (takeWhile P ks))" if "length (takeWhile P ks) < length ks" for P
    using nth_length_takeWhile [OF that] .
  from i(1) show ?thesis
  proof
    assume i: "i < cf"
    then obtain l where l: "kb_lo b = Some l" "cf = length (takeWhile (\<lambda>k. k \<le> l) ks)"
      using w by (auto simp: child_window_def Let_def partition_point_def split: option.splits)
    then have "ks ! i \<le> l" using lt i by metis
    moreover have "i < length ks" using i l(2) length_takeWhile_le [of "\<lambda>k. k \<le> l" ks] by linarith
    then have "key < ks ! i" using k by (simp add: range_hi_def in_range_def)
    ultimately have "key < l" by (rule order.strict_trans2 [rotated])
    then show ?thesis using l(1) by (auto simp: in_bound_def)
  next
    assume i': "cl < i"
    define Q where "Q = (\<lambda>h k. if kb_hi_inc b then k \<le> h else k < (h::key))"
    have "cl \<ge> length ks" if "kb_hi b = None"
      using w that by (auto simp: child_window_def Let_def)
    then obtain h where h: "kb_hi b = Some h" "length (takeWhile (Q h) ks) \<le> cl"
      using w i' i(2) by (auto simp: child_window_def Let_def partition_point_def Q_def split: option.splits)
    define z where "z = length (takeWhile (Q h) ks)"
    have "\<not> Q h (ks ! z)" using ge [of "Q h"] h(2) i' i(2) by (simp add: z_def)
    moreover have "ks ! z \<le> ks ! (i - 1)"
    proof -
      have "z \<le> i - 1" "i - 1 < length ks" using h(2) i' i(2) by (auto simp: z_def)
      then show ?thesis using sorted_wrt_nth_less [OF s, of z "i - 1"] by (cases "z = i - 1") auto
    qed
    moreover have "ks ! (i - 1) \<le> key" using k i' by (auto simp: range_lo_def in_range_def)
    moreover have "below (Q h)" by (cases "kb_hi_inc b") (simp_all add: Q_def)
    ultimately have "\<not> Q h key" unfolding below_def by (metis order.trans)
    then show ?thesis using h(1) by (simp add: in_bound_def Q_def)
  qed
qed

lemma child_positions_filter:
  assumes s: "separated P lo hi ks cs" and E: "\<And>lo hi c. P lo hi c \<Longrightarrow> entries_in lo hi (E c)"
  shows "concat (map (\<lambda>i. filter (\<lambda>p. in_bound b (fst p)) (E (cs ! i))) (child_positions False b ks))
      = filter (\<lambda>p. in_bound b (fst p)) (concat (map E cs))"
proof -
  obtain cf cl where w: "child_window b ks = (cf, cl)" by fastforce
  let ?F = "\<lambda>i. filter (\<lambda>p. in_bound b (fst p)) (E (cs ! i))"
  have len: "length cs = Suc (length ks)" by (rule separated_length [OF s])
  have bd: "cf \<le> cl" "cl \<le> length ks" using child_window_bounds [OF w] by auto
  have out: "?F i = []" if "i < cf \<or> cl < i" "i < length cs" for i
  proof -
    have e: "entries_in (range_lo lo ks i) (range_hi hi ks i) (E (cs ! i))"
      using separated_nth [OF s that(2)] E by blast
    have "\<not> in_bound b (fst p)" if "p \<in> set (E (cs ! i))" for p
      by (rule child_window_outside [OF separated_sorted [OF s, THEN conjunct1] w \<open>i < cf \<or> cl < i\<close>])
        (use \<open>i < length cs\<close> len entries_inD(2) [OF e that] in auto)
    then show ?thesis by (simp add: filter_empty_conv)
  qed
  have m: "map E cs = map (\<lambda>i. E (cs ! i)) [0..<length cs]"
    by (rule nth_equalityI) auto
  have sp: "[0..<length cs] = [0..<cf] @ [cf..<Suc cl] @ [Suc cl..<length cs]"
  proof -
    have "[0..<length cs] = [0..<cf] @ [cf..<length cs]"
      by (rule upt_join) (use bd len in auto)
    moreover have "[cf..<length cs] = [cf..<Suc cl] @ [Suc cl..<length cs]"
      by (rule upt_join) (use bd len in auto)
    ultimately show ?thesis by simp
  qed
  have "filter (\<lambda>p. in_bound b (fst p)) (concat (map E cs)) = concat (map ?F [0..<length cs])"
    by (simp only: m filter_concat map_map comp_def)
  also have "\<dots> = concat (map ?F [0..<cf]) @ concat (map ?F [cf..<Suc cl]) @ concat (map ?F [Suc cl..<length cs])"
    by (simp only: sp map_append concat_append)
  moreover have "concat (map ?F [0..<cf]) = []" "concat (map ?F [Suc cl..<length cs]) = []"
    using out bd len by auto
  ultimately show ?thesis unfolding child_positions_def w by simp
qed

lemma child_positions_lt:
  "separated P lo hi ks cs \<Longrightarrow> i \<in> set (child_positions reverse b ks) \<Longrightarrow> i < length cs"
  using separated_length [of P lo hi ks cs] child_window_bounds [of b ks]
  by (cases "child_window b ks") (simp add: child_positions_def del: upt_Suc split: if_splits)

section \<open>Walks over a well-formed tree\<close>

lemma leaf_pair_wf:
  assumes "leaf_wf cp sh lo hi p lf" "decoded_parts lf = Inr (ks, vs, ws)" "i < length ks"
  shows "leaf_pair lf i = Some (Inr (zip ks vs ! i))"
proof -
  have "leaf_keys lf = ks" using assms(2) by (cases lf) auto
  moreover have "length vs = length ks" using assms(1,2) by (simp add: leaf_wf_def parts_wf_def)
  ultimately show ?thesis using leaf_row_at_wf [OF assms] assms(3) by (simp add: leaf_pair_def)
qed

definition ovl_child :: "key_bound \<Rightarrow> 'r child \<Rightarrow> nat" where
  "ovl_child b c = (case c of Resident n \<Rightarrow> the (overlap_count b n) | OnDisk _ \<Rightarrow> 1)"

lemma child_resolved_count:
  assumes "resolve src c = Some (Inr n)"
  shows "ovl_child b c = the (overlap_count b n)"
  using assms by (cases c) (auto simp: ovl_child_def dest: load_leaf_is_leaf)

lemma with_child_wf:
  assumes "child_wf src cp sh h lo hi (cs ! i)" "i < length cs"
  obtains n where "node_wf src cp sh h lo hi n" "child_entries src (cs ! i) = node_entries src n"
    "\<And>b. ovl_child b (cs ! i) = the (overlap_count b n)"
    "\<And>f g s. (\<forall>q lf. g lf = f (Leaf q lf)) \<Longrightarrow> with_child src cs i f g s = f n s"
proof -
  obtain n where n: "resolve src (cs ! i) = Some (Inr n)" "node_wf src cp sh h lo hi n"
    using assms(1) by (auto simp: child_wf_iff)
  show ?thesis
  proof (rule that [OF n(2)])
    show "child_entries src (cs ! i) = node_entries src n" using n(1) by (simp add: child_entries_def)
    show "ovl_child b (cs ! i) = the (overlap_count b n)" for b by (rule child_resolved_count [OF n(1)])
    fix f :: "'a node \<Rightarrow> ('x, 'y) prog" and g s assume "\<forall>q lf. g lf = f (Leaf q lf)"
    then have "with_child src cs i f g s = with_io (child cs i src) f s"
      by (intro with_child_is_child) auto
    then show "with_child src cs i f g s = f n s" using n(1) assms(2) by (simp add: child_def)
  qed
qed

lemma entry_positions_lt:
  assumes "sorted_wrt (<) ks" "i \<in> set (entry_positions reverse b ks)"
  shows "i < length ks"
proof -
  have "snd (entry_window b ks) \<le> length ks"
    by (auto simp: entry_window_def Let_def lower_bound_takeWhile [OF assms(1)] length_takeWhile_le split: option.splits)
  then show ?thesis
    using assms(2) by (cases "entry_window b ks") (simp add: entry_positions_def split: if_splits)
qed

lemma collect_Leaf: "collect src (Leaf q lf) = collect_leaf lf"
  by (intro ext) simp

lemma collect_wf:
  "node_wf src cp sh h lo hi n \<Longrightarrow> collect src n out = Some (out @ node_entries src n, Inr True)"
proof (induction h arbitrary: lo hi n out)
  case 0
  then obtain p lf where n: "n = Leaf p lf" "leaf_wf cp sh lo hi p lf" by (auto simp: node_wf_0)
  obtain ks vs ws where d: "decoded_parts lf = Inr (ks, vs, ws)" "parts_wf cp sh lo hi ks vs ws"
    "leaf_keys lf = ks" "leaf_entries lf = zip ks vs" using leaf_wf_parts [OF n(2)] by metis
  have len: "length (zip ks vs) = length ks" using d(2) by (simp add: parts_wf_def)
  have "collect_leaf lf out = Some (fold (\<lambda>i out. out @ [zip ks vs ! i]) [0..<length ks] out, Inr True)"
    unfolding collect_leaf_def d(3)
    by (rule for_while_total) (simp add: push_pair_def leaf_pair_wf [OF n(2) d(1)])
  moreover have "map (nth (zip ks vs)) [0..<length ks] = zip ks vs" using len map_nth by metis
  ultimately show ?case by (simp add: n(1) d(4) fold_push)
next
  case (Suc h)
  then obtain p ks cs where n: "n = Interior p ks cs" "separated (child_wf src cp sh h) lo hi ks cs"
    by (auto simp: node_wf_Suc)
  have "with_child src cs i (collect src) collect_leaf out = Some (out @ child_entries src (cs ! i), Inr True)"
    if "i < length cs" for i out
  proof -
    have "child_wf src cp sh h (range_lo lo ks i) (range_hi hi ks i) (cs ! i)"
      using separated_nth [OF n(2) that] by simp
    from with_child_wf [OF this that] Suc.IH collect_Leaf show ?thesis by metis
  qed
  then have "for_while (\<lambda>i. with_child src cs i (collect src) collect_leaf) [0..<length cs] out
      = Some (fold (\<lambda>i out. out @ child_entries src (cs ! i)) [0..<length cs] out, Inr True)"
    by (intro for_while_total) auto
  moreover have "map (\<lambda>i. child_entries src (cs ! i)) [0..<length cs] = map (child_entries src) cs"
    by (rule nth_equalityI) auto
  ultimately show ?case by (simp add: n(1) fold_push)
qed

text \<open>The nodes a bounded walk enters.\<close>

lemma overlap_count_step:
  assumes s: "separated (child_wf src cp sh h) lo hi ks cs"
    and IH: "\<And>lo hi n. node_wf src cp sh h lo hi n \<Longrightarrow> \<exists>c. overlap_count b n = Some c"
  shows "overlap_count b (Interior p ks cs)
    = Some (1 + sum_list (map (\<lambda>i. ovl_child b (cs ! i)) (child_positions False b ks)))"
proof -
  let ?f = "\<lambda>i total. case nth_opt cs i of
         None \<Rightarrow> None
       | Some (Resident n) \<Rightarrow> map_option (\<lambda>c. (total + c, Inr True :: bool result)) (overlap_count b n)
       | Some (OnDisk _) \<Rightarrow> Some (total + 1, Inr True)"
  have "?f i t = Some (t + ovl_child b (cs ! i), Inr True)"
    if "i \<in> set (child_positions False b ks)" for i t
  proof -
    have i: "i < length cs" using child_positions_lt [OF s that] .
    have w: "child_wf src cp sh h (range_lo lo ks i) (range_hi hi ks i) (cs ! i)"
      using separated_nth [OF s i] by simp
    show ?thesis
    proof (cases "cs ! i")
      case (Resident n)
      then obtain c where "overlap_count b n = Some c" using w IH by fastforce
      then show ?thesis using i Resident by (simp add: ovl_child_def)
    next
      case (OnDisk q)
      then show ?thesis using i by (simp add: ovl_child_def)
    qed
  qed
  then have "for_while ?f (child_positions False b ks) 1
      = Some (fold (\<lambda>i t. t + ovl_child b (cs ! i)) (child_positions False b ks) 1, Inr True)"
    by (rule for_while_total)
  then show ?thesis by (simp add: fold_count)
qed

lemma overlap_count_wf: "node_wf src cp sh h lo hi n \<Longrightarrow> \<exists>c. overlap_count b n = Some c"
proof (induction h arbitrary: lo hi n)
  case (Suc h)
  then show ?case using overlap_count_step [OF _ Suc.IH] by (fastforce simp: node_wf_Suc)
qed (auto simp: node_wf_0)

lemma overlap_count_interior:
  "separated (child_wf src cp sh h) lo hi ks cs \<Longrightarrow> overlap_count b (Interior p ks cs)
    = Some (1 + sum_list (map (\<lambda>i. ovl_child b (cs ! i)) (child_positions False b ks)))"
  by (rule overlap_count_step) (auto intro: overlap_count_wf)

lemma child_filter:
  "separated (child_wf src cp sh h) lo hi ks cs \<Longrightarrow>
    concat (map (\<lambda>i. filter (\<lambda>p. in_bound b (fst p)) (child_entries src (cs ! i))) (child_positions False b ks))
      = filter (\<lambda>p. in_bound b (fst p)) (concat (map (child_entries src) cs))"
  by (erule child_positions_filter) (rule child_wf_entries)

lemma collect_range_Leaf: "collect_range b src (Leaf q lf) = collect_range_leaf b lf"
  by (intro ext) simp

lemma collect_range_wf:
  "node_wf src cp sh h lo hi n \<Longrightarrow> collect_range b src n (out, k)
    = Some ((out @ filter (\<lambda>p. in_bound b (fst p)) (node_entries src n), k + the (overlap_count b n)), Inr True)"
proof (induction h arbitrary: lo hi n out k)
  case 0
  then obtain p lf where n: "n = Leaf p lf" "leaf_wf cp sh lo hi p lf" by (auto simp: node_wf_0)
  obtain ks vs ws where d: "decoded_parts lf = Inr (ks, vs, ws)" "parts_wf cp sh lo hi ks vs ws"
    "leaf_keys lf = ks" "leaf_entries lf = zip ks vs" using leaf_wf_parts [OF n(2)] by metis
  have s: "sorted_wrt (<) ks" "length vs = length ks" using d(2) by (auto simp: parts_wf_def)
  have "collect_range_leaf b lf (out, k)
      = Some (fold (\<lambda>i (out, k). (out @ [zip ks vs ! i], k + 0)) (entry_positions False b ks) (out, k + 1), Inr True)"
    unfolding collect_range_leaf_def d(3) prod.case
    by (rule for_while_total)
      (use entry_positions_lt [OF s(1)] in \<open>auto simp: leaf_pair_wf [OF n(2) d(1)]\<close>)
  then show ?case
    unfolding fold_push_count using entry_positions_filter [OF s, of b] by (simp add: n(1) d(4))
next
  case (Suc h)
  then obtain p ks cs where n: "n = Interior p ks cs" "separated (child_wf src cp sh h) lo hi ks cs"
    by (auto simp: node_wf_Suc)
  let ?E = "\<lambda>i. filter (\<lambda>p. in_bound b (fst p)) (child_entries src (cs ! i))"
  have "with_child src cs i (collect_range b src) (collect_range_leaf b) (out, k)
      = Some ((out @ ?E i, k + ovl_child b (cs ! i)), Inr True)"
    if "i \<in> set (child_positions False b ks)" for i out k
  proof -
    have i: "i < length cs" using child_positions_lt [OF n(2) that] .
    have w: "child_wf src cp sh h (range_lo lo ks i) (range_hi hi ks i) (cs ! i)"
      using separated_nth [OF n(2) i] by simp
    from with_child_wf [OF this i] obtain m where m: "node_wf src cp sh h (range_lo lo ks i) (range_hi hi ks i) m"
      "child_entries src (cs ! i) = node_entries src m" "ovl_child b (cs ! i) = the (overlap_count b m)"
      "with_child src cs i (collect_range b src) (collect_range_leaf b) (out, k) = collect_range b src m (out, k)"
      using collect_range_Leaf by metis
    show ?thesis using Suc.IH [OF m(1)] by (simp add: m(2-))
  qed
  then have "for_while (\<lambda>i. with_child src cs i (collect_range b src) (collect_range_leaf b))
        (child_positions False b ks) (out, k + 1)
      = Some (fold (\<lambda>i (out, k). (out @ ?E i, k + ovl_child b (cs ! i))) (child_positions False b ks) (out, k + 1), Inr True)"
    by (intro for_while_total) auto
  then show ?case
    unfolding fold_push_count child_filter [OF n(2)] n(1) overlap_count_interior [OF n(2)] by simp
qed


text \<open>Every node counted, and the two shortcuts of the code.\<close>

fun all_nodes :: "'r node \<Rightarrow> nat" where
  "all_nodes (Leaf p lf) = 1"
| "all_nodes (Interior p ks cs) =
     1 + sum_list (map (\<lambda>c. case c of Resident n \<Rightarrow> all_nodes n | OnDisk _ \<Rightarrow> 1) cs)"

lemma child_node_kind:
  assumes "separated (child_wf src cp sh h) lo hi ks cs" "c \<in> set cs"
  shows "(case c of OnDisk q \<Rightarrow> h = 0 | Resident n \<Rightarrow> \<exists>lo hi. node_wf src cp sh h lo hi n)"
proof -
  obtain i where i: "i < length cs" "cs ! i = c" using assms(2) by (auto simp: in_set_conv_nth)
  have w: "child_wf src cp sh h (range_lo lo ks i) (range_hi hi ks i) c"
    using separated_nth [OF assms(1) i(1)] i(2) by simp
  show ?thesis
  proof (cases c)
    case (OnDisk q)
    then obtain n where "load_leaf src q = Some (Inr n)" "node_wf src cp sh h (range_lo lo ks i) (range_hi hi ks i) n"
      using w by (auto simp: child_wf_iff)
    then show ?thesis using OnDisk by (cases h) (auto simp: node_wf_Suc dest: load_leaf_is_leaf)
  qed (use w in auto)
qed

lemma count_nodes_wf: "node_wf src cp sh h lo hi n \<Longrightarrow> count_nodes n = all_nodes n"
proof (induction h arbitrary: lo hi n)
  case (Suc h)
  then obtain p ks cs where n: "n = Interior p ks cs" "separated (child_wf src cp sh h) lo hi ks cs"
    by (auto simp: node_wf_Suc)
  note kind = child_node_kind [OF n(2)]
  obtain c cs' where cs: "cs = c # cs'" using separated_length [OF n(2)] by (cases cs) auto
  have eq: "(case d of Resident n \<Rightarrow> count_nodes n | OnDisk _ \<Rightarrow> 1) = (case d of Resident n \<Rightarrow> all_nodes n | OnDisk _ \<Rightarrow> 1)"
    if "d \<in> set cs" for d using kind [OF that] Suc.IH by (cases d) auto
  show ?case
  proof (cases h)
    case 0
    have "(case d of Resident n \<Rightarrow> all_nodes n | OnDisk _ \<Rightarrow> 1) = 1" if "d \<in> set cs" for d
      using kind [OF that] 0 by (cases d) (auto simp: node_wf_0)
    then have "map (\<lambda>c. case c of Resident n \<Rightarrow> all_nodes n | OnDisk _ \<Rightarrow> 1) cs = replicate (length cs) 1"
      by (intro nth_equalityI) auto
    then have "all_nodes n = 1 + length cs" unfolding n(1) all_nodes.simps by (simp only: sum_list_replicate) simp
    moreover have "count_nodes n = 1 + length cs"
      using kind [of c] 0 by (cases c) (auto simp: n(1) cs node_wf_0)
    ultimately show ?thesis by simp
  next
    case (Suc h')
    then obtain q ks' cs'' where c: "c = Resident (Interior q ks' cs'')"
      using kind [of c] by (cases c) (auto simp: cs node_wf_Suc)
    have "count_nodes n = 1 + sum_list (map (\<lambda>c. case c of Resident n \<Rightarrow> count_nodes n | OnDisk _ \<Rightarrow> 1) cs)"
      by (simp only: n(1) count_nodes.simps cs c list.case child.case node.case)
    moreover have "map (\<lambda>c. case c of Resident n \<Rightarrow> count_nodes n | OnDisk _ \<Rightarrow> 1) cs
        = map (\<lambda>c. case c of Resident n \<Rightarrow> all_nodes n | OnDisk _ \<Rightarrow> 1) cs" by (rule map_cong [OF refl eq])
    ultimately show ?thesis by (simp only: n(1) all_nodes.simps)
  qed
qed (auto simp: node_wf_0)

lemma height_loop_wf: "node_wf src cp sh h lo hi n \<Longrightarrow> height_loop acc n = acc + h + 1"
proof (induction h arbitrary: lo hi n acc)
  case (Suc h)
  then obtain p ks cs where n: "n = Interior p ks cs" "separated (child_wf src cp sh h) lo hi ks cs"
    by (auto simp: node_wf_Suc)
  obtain c cs' where cs: "cs = c # cs'" using separated_length [OF n(2)] by (cases cs) auto
  show ?case using child_node_kind [OF n(2), of c] Suc.IH by (cases c) (auto simp: n(1) cs)
qed (auto simp: node_wf_0)

lemma overlap_unbounded: "node_wf src cp sh h lo hi n \<Longrightarrow> overlap_count unbounded n = Some (all_nodes n)"
proof (induction h arbitrary: lo hi n)
  case (Suc h)
  then obtain p ks cs where n: "n = Interior p ks cs" "separated (child_wf src cp sh h) lo hi ks cs"
    by (auto simp: node_wf_Suc)
  have "child_positions False unbounded ks = [0..<length cs]"
    using separated_length [OF n(2)] by (simp add: child_positions_def child_window_def unbounded_def del: upt_Suc)
  moreover have "map (\<lambda>i. ovl_child unbounded (cs ! i)) [0..<length cs] = map (ovl_child unbounded) cs"
    by (rule nth_equalityI) auto
  moreover have "ovl_child unbounded c = (case c of Resident n \<Rightarrow> all_nodes n | OnDisk _ \<Rightarrow> 1)" if "c \<in> set cs" for c
    using child_node_kind [OF n(2) that] Suc.IH by (cases c) (auto simp: ovl_child_def)
  ultimately show ?case
    unfolding n(1) overlap_count_interior [OF n(2)] by (simp cong: map_cong)
qed (auto simp: node_wf_0)

section \<open>The visiting walks\<close>

definition in_direction :: "bool \<Rightarrow> 'a list \<Rightarrow> 'a list" where
  "in_direction reverse xs = (if reverse then rev xs else xs)"

definition bounded :: "key_bound \<Rightarrow> (key \<times> 'r) list \<Rightarrow> (key \<times> 'r) list" where
  "bounded b ps = filter (\<lambda>p. in_bound b (fst p)) ps"

lemma entry_positions_direction:
  "entry_positions reverse b ks = in_direction reverse (entry_positions False b ks)"
  by (simp add: entry_positions_def in_direction_def split: prod.splits)

lemma child_positions_direction:
  "child_positions reverse b ks = in_direction reverse (child_positions False b ks)"
  by (simp add: child_positions_def in_direction_def split: prod.splits)

lemma map_in_direction: "map f (in_direction reverse xs) = in_direction reverse (map f xs)"
  by (simp add: in_direction_def rev_map)

lemma concat_in_direction:
  "concat (map (\<lambda>x. in_direction reverse (f x)) (in_direction reverse xs)) = in_direction reverse (concat (map f xs))"
  by (simp add: in_direction_def rev_concat rev_map comp_def)

lemma in_direction_False [simp]: "in_direction False xs = xs"
  by (simp add: in_direction_def)

text \<open>A leaf and an interior node, as every walk sees them.\<close>

lemma leaf_walk:
  assumes lf: "leaf_wf cp sh lo hi p lf"
    and step: "\<And>i kr. leaf_pair lf i = Some (Inr kr) \<Longrightarrow> projects v (f i) (g kr)"
  shows "projects v (for_while f (entry_positions reverse b (leaf_keys lf)))
    (for_while g (in_direction reverse (bounded b (leaf_entries lf))))"
proof -
  obtain ks vs ws where d: "decoded_parts lf = Inr (ks, vs, ws)" "parts_wf cp sh lo hi ks vs ws"
    "leaf_keys lf = ks" "leaf_entries lf = zip ks vs" using leaf_wf_parts [OF lf] by metis
  have s: "sorted_wrt (<) ks" "length vs = length ks" using d(2) by (auto simp: parts_wf_def)
  let ?is = "entry_positions reverse b ks"
  have "projects v (for_while f ?is) (for_while (\<lambda>i. g (zip ks vs ! i)) ?is)"
    by (rule for_while_projects, rule step, rule leaf_pair_wf [OF lf d(1)])
      (rule entry_positions_lt [OF s(1)])
  moreover have "for_while (\<lambda>i. g (zip ks vs ! i)) ?is t = for_while g (in_direction reverse (bounded b (zip ks vs))) t" for t
    unfolding bounded_def entry_positions_filter [OF s, symmetric] map_in_direction [symmetric]
      entry_positions_direction [symmetric] for_while_map ..
  ultimately show ?thesis unfolding d(3,4) projects_def by simp
qed

lemma interior_walk:
  assumes s: "separated (child_wf src cp sh h) lo hi ks cs"
    and step: "\<And>i. i < length cs \<Longrightarrow> i \<in> set (child_positions reverse b ks) \<Longrightarrow>
      projects v (f i) (for_while g (in_direction reverse (bounded b (child_entries src (cs ! i)))))"
  shows "projects v (for_while f (child_positions reverse b ks))
    (for_while g (in_direction reverse (bounded b (concat (map (child_entries src) cs)))))"
proof -
  let ?E = "\<lambda>i. bounded b (child_entries src (cs ! i))"
  have "projects v (for_while f (child_positions reverse b ks))
      (for_while (\<lambda>i. for_while g (in_direction reverse (?E i))) (child_positions reverse b ks))"
    by (rule for_while_projects, rule step) (auto intro: child_positions_lt [OF s])
  moreover have "for_while (\<lambda>i. for_while g (in_direction reverse (?E i))) (child_positions reverse b ks) t
      = for_while g (in_direction reverse (bounded b (concat (map (child_entries src) cs)))) t" for t
  proof -
    have "in_direction reverse (bounded b (concat (map (child_entries src) cs)))
        = concat (map (\<lambda>i. in_direction reverse (?E i)) (child_positions reverse b ks))"
      unfolding child_positions_direction [of reverse] concat_in_direction bounded_def child_filter [OF s] ..
    then show ?thesis by (simp add: for_while_concat for_while_map)
  qed
  ultimately show ?thesis unfolding projects_def by simp
qed

text \<open>The columnar walk: what the visitor reads of a record is its key and row.\<close>

definition reads_pair :: "('r leaf_form \<Rightarrow> nat \<Rightarrow> ('s, unit) prog) \<Rightarrow> (key \<times> 'r \<Rightarrow> ('s, unit) prog) \<Rightarrow> bool" where
  "reads_pair visit g \<longleftrightarrow> (\<forall>lf i kr s. leaf_pair lf i = Some (Inr kr) \<longrightarrow> visit lf i s = g kr s)"

definition counted_visit :: "('i \<Rightarrow> ('s, unit) prog) \<Rightarrow> 'i \<Rightarrow> ('s \<times> nat, bool) prog" where
  "counted_visit g kr = (\<lambda>(s, n). case g kr s of
      None \<Rightarrow> None | Some (s, Inl e) \<Rightarrow> Some ((s, n), Inl e) | Some (s, Inr _) \<Rightarrow> Some ((s, n + 1), Inr True))"

definition drop_nodes :: "'s \<times> nat \<times> nat \<Rightarrow> 's \<times> nat" where
  "drop_nodes = (\<lambda>(s, row_count, nodes). (s, row_count))"

lemma fold_walk_Leaf: "fold_walk b src visit (Leaf q lf) = fold_leaf b visit lf"
  by (intro ext) simp

lemma fold_leaf_projects:
  assumes "leaf_wf cp sh lo hi p lf" "reads_pair visit g"
  shows "projects drop_nodes (fold_leaf b visit lf) (for_while (counted_visit g) (bounded b (leaf_entries lf)))"
proof -
  let ?f = "\<lambda>i (s, row_count, nodes). case visit lf i s of
        None \<Rightarrow> None
      | Some (s, Inl e) \<Rightarrow> Some ((s, row_count, nodes), Inl e)
      | Some (s, Inr _) \<Rightarrow> Some ((s, row_count + 1, nodes), Inr True)"
  have "projects drop_nodes (?f i) (counted_visit g kr)" if "leaf_pair lf i = Some (Inr kr)" for i kr
  proof -
    have "visit lf i s = g kr s" for s using assms(2) that unfolding reads_pair_def by blast
    then show ?thesis
      by (auto simp: projects_def drop_nodes_def counted_visit_def split: option.splits sum.splits)
  qed
  from leaf_walk [OF assms(1) this, where reverse = False and b = b]
  have "projects drop_nodes (for_while ?f (entry_positions False b (leaf_keys lf)))
      (for_while (counted_visit g) (bounded b (leaf_entries lf)))" by simp
  from projects_shift [OF this, where u = "\<lambda>(s, rc, nodes). (s, rc, nodes + 1)"]
  show ?thesis unfolding fold_leaf_def by (simp add: drop_nodes_def split_def)
qed

lemma fold_walk_projects:
  assumes "reads_pair visit g"
  shows "node_wf src cp sh h lo hi n \<Longrightarrow> projects drop_nodes (fold_walk b src visit n)
    (for_while (counted_visit g) (bounded b (node_entries src n)))"
proof (induction h arbitrary: lo hi n)
  case 0
  then show ?case
    using fold_leaf_projects [OF _ assms] by (auto simp: node_wf_0 fold_walk_Leaf)
next
  case (Suc h)
  then obtain p ks cs where n: "n = Interior p ks cs" "separated (child_wf src cp sh h) lo hi ks cs"
    by (auto simp: node_wf_Suc)
  let ?f = "\<lambda>i. with_child src cs i (fold_walk b src visit) (fold_leaf b visit)"
  have "projects drop_nodes (?f i) (for_while (counted_visit g) (in_direction False (bounded b (child_entries src (cs ! i)))))"
    if "i < length cs" for i
  proof -
    have "child_wf src cp sh h (range_lo lo ks i) (range_hi hi ks i) (cs ! i)"
      using separated_nth [OF n(2) that] by simp
    from with_child_wf [OF this that] obtain m where m: "node_wf src cp sh h (range_lo lo ks i) (range_hi hi ks i) m"
      "child_entries src (cs ! i) = node_entries src m" "?f i = fold_walk b src visit m"
      using fold_walk_Leaf by (metis ext)
    show ?thesis using Suc.IH [OF m(1)] by (simp add: m(2,3))
  qed
  then have "projects drop_nodes (for_while ?f (child_positions False b ks))
      (for_while (counted_visit g) (in_direction False (bounded b (concat (map (child_entries src) cs)))))"
    by (intro interior_walk [OF n(2)]) auto
  then have "projects drop_nodes (for_while ?f (child_positions False b ks))
      (for_while (counted_visit g) (bounded b (node_entries src n)))" by (simp add: n(1))
  from projects_shift [OF this, where u = "\<lambda>s. (fst s, fst (snd s), snd (snd s) + 1)"]
  show ?case by (simp add: n(1) drop_nodes_def split_def)
qed

lemma fold_leaf_nodes:
  "fold_leaf b visit lf s = Some (t, Inr True) \<Longrightarrow> snd (snd t) = snd (snd s) + 1"
proof -
  let ?f = "\<lambda>i (s, row_count, nodes). case visit lf i s of
        None \<Rightarrow> None
      | Some (s, Inl e) \<Rightarrow> Some ((s, row_count, nodes), Inl e)
      | Some (s, Inr _) \<Rightarrow> Some ((s, row_count + 1, nodes), Inr True)"
  assume "fold_leaf b visit lf s = Some (t, Inr True)"
  then have "for_while ?f (entry_positions False b (leaf_keys lf)) (fst s, fst (snd s), snd (snd s) + 1) = Some (t, Inr True)"
    by (simp add: fold_leaf_def split_def)
  from for_while_count [OF _ this, where c = "\<lambda>s. snd (snd s)" and k = "\<lambda>_. 0"]
  show ?thesis by (force simp: split_def split: option.splits sum.splits)
qed

lemma fold_walk_nodes:
  "node_wf src cp sh h lo hi n \<Longrightarrow> fold_walk b src visit n s = Some (t, Inr True) \<Longrightarrow>
     snd (snd t) = snd (snd s) + the (overlap_count b n)"
proof (induction h arbitrary: lo hi n s t)
  case 0
  then show ?case by (auto simp: node_wf_0 dest!: fold_leaf_nodes)
next
  case (Suc h)
  then obtain p ks cs where n: "n = Interior p ks cs" "separated (child_wf src cp sh h) lo hi ks cs"
    by (auto simp: node_wf_Suc)
  let ?f = "\<lambda>i. with_child src cs i (fold_walk b src visit) (fold_leaf b visit)"
  have "snd (snd t) = snd (snd s) + ovl_child b (cs ! i)"
    if "i \<in> set (child_positions False b ks)" "?f i s = Some (t, Inr True)" for i s t
  proof -
    have i: "i < length cs" using child_positions_lt [OF n(2) that(1)] .
    have "child_wf src cp sh h (range_lo lo ks i) (range_hi hi ks i) (cs ! i)"
      using separated_nth [OF n(2) i] by simp
    from with_child_wf [OF this i] obtain m where m: "node_wf src cp sh h (range_lo lo ks i) (range_hi hi ks i) m"
      "ovl_child b (cs ! i) = the (overlap_count b m)" "?f i s = fold_walk b src visit m s"
      using fold_walk_Leaf by metis
    show ?thesis using Suc.IH [OF m(1)] that(2) by (simp add: m(2,3))
  qed
  from for_while_count [OF this] Suc.prems(2) show ?case
    unfolding n(1) overlap_count_interior [OF n(2)] by fastforce
qed

section \<open>Read-ahead is invisible\<close>

lemma tails_hd: "map hd (tails xs) = xs"
  by (induction xs) auto

lemma tails_mem: "rest \<in> set (tails xs) \<Longrightarrow> rest \<noteq> [] \<and> set rest \<subseteq> set xs"
  by (induction xs) auto

lemma tails_hd_mem: "rest \<in> set (tails xs) \<Longrightarrow> hd rest \<in> set xs"
  using tails_mem [of rest xs] by (meson hd_in_set subsetD)

lemma hint_total: "\<forall>i \<in> set positions. i < length cs \<Longrightarrow> \<exists>k ra'. hint pf cs positions ra = Some (k, ra')"
proof -
  assume a: "\<forall>i \<in> set positions. i < length cs"
  then have "\<not> (\<exists>i \<in> set (take (ra_window ra) positions). length cs \<le> i)"
    by (meson in_set_takeD not_le)
  then show ?thesis by (auto simp: hint_def Let_def)
qed

lemma hinted_step_projects:
  fixes descend :: "(read_ahead \<times> 's, bool) prog"
  assumes "\<forall>i \<in> set rest. i < length cs" "projects snd descend g"
  shows "projects (\<lambda>x. snd (snd x)) (hinted_step pf cs rest descend) g"
  unfolding projects_def
proof
  fix x :: "nat \<times> read_ahead \<times> 's"
  obtain hinted ra s where x: "x = (hinted, ra, s)" by (cases x)
  obtain k ra' where k: "(if hinted = 0 then hint pf cs rest ra else Some (hinted, ra)) = Some (k, ra')"
    using hint_total [OF assms(1), of pf ra] by (cases "hinted = 0") auto
  have "map_option (apfst snd) (descend (ra', s)) = g s" using projectsD [OF assms(2)] by fastforce
  moreover have "map_option (apfst (\<lambda>x. snd (snd x))) (hinted_step pf cs rest descend x)
      = map_option (apfst snd) (descend (ra', s))"
    unfolding x hinted_step_def prod.case k option.case
    by (simp add: option.map_comp comp_def apfst_def map_prod_def split_def)
  ultimately show "map_option (apfst (\<lambda>x. snd (snd x))) (hinted_step pf cs rest descend x) = g (snd (snd x))"
    by (simp add: x)
qed

lemma walk_range_Leaf: "walk_range reverse pf b src visit (Leaf q lf) = visit_leaf reverse b visit lf"
  by (intro ext) simp

lemma visit_leaf_projects:
  assumes "leaf_wf cp sh lo hi p lf"
  shows "projects snd (visit_leaf reverse b visit lf)
    (for_while visit (in_direction reverse (bounded b (leaf_entries lf))))"
  unfolding visit_leaf_def
  by (rule leaf_walk [OF assms])
    (auto simp: projects_def option.map_comp comp_def apfst_def map_prod_def split_def intro: option.map_ident)

lemma walk_range_projects:
  "node_wf src cp sh h lo hi n \<Longrightarrow> projects snd (walk_range reverse pf b src visit n)
    (for_while visit (in_direction reverse (bounded b (node_entries src n))))"
proof (induction h arbitrary: lo hi n)
  case 0
  then show ?case by (auto simp: node_wf_0 walk_range_Leaf intro: visit_leaf_projects)
next
  case (Suc h)
  then obtain p ks cs where n: "n = Interior p ks cs" "separated (child_wf src cp sh h) lo hi ks cs"
    by (auto simp: node_wf_Suc)
  let ?is = "child_positions reverse b ks"
  let ?d = "\<lambda>i. with_child src cs i (walk_range reverse pf b src visit) (visit_leaf reverse b visit)"
  let ?g = "\<lambda>i. for_while visit (in_direction reverse (bounded b (child_entries src (cs ! i))))"
  have d: "projects snd (?d i) (?g i)" if "i < length cs" for i
  proof -
    have "child_wf src cp sh h (range_lo lo ks i) (range_hi hi ks i) (cs ! i)"
      using separated_nth [OF n(2) that] by simp
    from with_child_wf [OF this that] obtain m where m: "node_wf src cp sh h (range_lo lo ks i) (range_hi hi ks i) m"
      "child_entries src (cs ! i) = node_entries src m" "\<forall>t. ?d i t = walk_range reverse pf b src visit m t"
      using walk_range_Leaf by metis
    show ?thesis using Suc.IH [OF m(1)] by (simp add: m(2,3) projects_def)
  qed
  have lt: "i < length cs" if "i \<in> set ?is" for i using child_positions_lt [OF n(2) that] .
  have 1: "projects (\<lambda>x. snd (snd x)) (for_while (\<lambda>rest. hinted_step pf cs rest (?d (hd rest))) (tails ?is))
      (for_while (\<lambda>rest. ?g (hd rest)) (tails ?is))"
  proof (rule for_while_projects, rule hinted_step_projects)
    fix rest assume r: "rest \<in> set (tails ?is)"
    then show "\<forall>i \<in> set rest. i < length cs" using tails_mem lt by blast
    show "projects snd (?d (hd rest)) (?g (hd rest))" using d lt tails_hd_mem [OF r] by blast
  qed
  have "for_while (\<lambda>rest. ?g (hd rest)) (tails ?is) s = for_while ?g ?is s" for s
    using for_while_map [where f = ?g and g = hd and xs = "tails ?is" and s = s] by (simp only: tails_hd)
  moreover have "projects (\<lambda>x. x) (for_while ?g ?is)
      (for_while visit (in_direction reverse (bounded b (concat (map (child_entries src) cs)))))"
    by (rule interior_walk [OF n(2)]) (simp add: projects_ident)
  ultimately have e: "for_while (\<lambda>rest. ?g (hd rest)) (tails ?is) s
      = for_while visit (in_direction reverse (bounded b (node_entries src n))) s" for s
    by (simp add: projects_ident n(1))
  show ?case unfolding projects_def
  proof
    fix s
    show "map_option (apfst snd) (walk_range reverse pf b src visit n s)
        = for_while visit (in_direction reverse (bounded b (node_entries src n))) (snd s)"
      using projectsD [OF 1, of "(0, s)"] e
      by (simp add: n(1) option.map_comp comp_def apfst_def map_prod_def split_def)
  qed
qed

text \<open>Bounds of the read-ahead: the window stays in [1, 64] and every hint names 2 to 64 pages.\<close>

definition ahead_ok :: "read_ahead \<Rightarrow> bool" where
  "ahead_ok ra \<longleftrightarrow> 1 \<le> ra_window ra \<and> ra_window ra \<le> READ_AHEAD_MAX
     \<and> (\<forall>h \<in> set (ra_hints ra). 2 \<le> length h \<and> length h \<le> READ_AHEAD_MAX)"

lemma page_of_le: "length (page_of cs i) \<le> 1"
  by (simp add: page_of_def split: child.splits)

lemma concat_page_of_le: "length (concat (map (page_of cs) is)) \<le> length is"
proof (induction "is")
  case (Cons i "is")
  then show ?case using page_of_le [of cs i] by simp
qed simp

lemma hint_ok:
  assumes "ahead_ok ra" "hint pf cs positions ra = Some (k, ra')"
  shows "ahead_ok ra' \<and> 1 \<le> k"
proof -
  have "length (concat (map (page_of cs) (take (ra_window ra) positions))) \<le> READ_AHEAD_MAX"
    using concat_page_of_le [of cs "take (ra_window ra) positions"] assms(1) by (simp add: ahead_ok_def)
  then show ?thesis
    using assms by (auto simp: hint_def Let_def ahead_ok_def READ_AHEAD_MAX_def USIZE_MAX_def split: if_splits)
qed


lemma visit_leaf_ok:
  "ahead_ok (fst s) \<Longrightarrow> visit_leaf reverse b visit lf s = Some (t, r) \<Longrightarrow> ahead_ok (fst t)"
  unfolding visit_leaf_def
  by (erule for_while_invariant [where P = "\<lambda>s. ahead_ok (fst s)", rotated])
    (auto split: prod.splits)

lemma hinted_step_ok:
  assumes d: "\<And>u t r. ahead_ok (fst u) \<Longrightarrow> descend u = Some (t, r) \<Longrightarrow> ahead_ok (fst t)"
    and x: "ahead_ok (fst (snd x))" "hinted_step pf cs rest descend x = Some (y, r)"
  shows "ahead_ok (fst (snd y))"
proof -
  obtain hinted ra s where xe: "x = (hinted, ra, s)" by (cases x)
  let ?h = "if hinted = 0 then hint pf cs rest ra else Some (hinted, ra)"
  obtain k ra' where k: "?h = Some (k, ra')" using x(2) by (cases ?h) (auto simp: xe hinted_step_def)
  have "ahead_ok ra'" using k x(1) hint_ok [of ra pf cs rest k ra'] by (auto simp: xe split: if_splits)
  moreover obtain t where "descend (ra', s) = Some (t, r)" "y = (k - 1, t)"
    using x(2) unfolding xe hinted_step_def prod.case k option.case by (auto split: prod.splits)
  ultimately show ?thesis using d [of "(ra', s)" t r] by simp
qed

lemma with_child_ok:
  assumes "with_child src cs i f g u = Some (t, r)" "P u"
    "\<And>n. nth_opt cs i = Some (Resident n) \<Longrightarrow> f n u = Some (t, r) \<Longrightarrow> P t"
    "\<And>lf. g lf u = Some (t, r) \<Longrightarrow> P t"
  shows "P t"
  using assms
  by (auto simp: with_child_def with_io_def split: option.splits child.splits sum.splits node.splits)

lemma walk_range_ok:
  "ahead_ok (fst s) \<Longrightarrow> walk_range reverse pf b src visit n s = Some (t, r) \<Longrightarrow> ahead_ok (fst t)"
proof (induction reverse pf b src visit n s arbitrary: t r rule: walk_range.induct)
  case (2 reverse pf b src visit p ks cs s)
  let ?d = "\<lambda>i. with_child src cs i (walk_range reverse pf b src visit) (visit_leaf reverse b visit)"
  obtain hn where w: "for_while (\<lambda>rest. hinted_step pf cs rest (?d (hd rest))) (tails (child_positions reverse b ks)) (0, s)
      = Some ((hn, t), r)" using 2(3) by auto
  have d: "ahead_ok (fst t)"
    if "rest \<in> set (tails (child_positions reverse b ks))" "ahead_ok (fst u)" "?d (hd rest) u = Some (t, r)" for rest u t r
    by (rule with_child_ok [where P = "\<lambda>t. ahead_ok (fst t)", OF that(3,2)])
      (use 2(1) that visit_leaf_ok in blast)+
  have "ahead_ok (fst (snd (hn, t)))"
  proof (rule for_while_invariant [where P = "\<lambda>x. ahead_ok (fst (snd x))", OF _ _ w])
    show "ahead_ok (fst (snd y))" if "rest \<in> set (tails (child_positions reverse b ks))"
      "ahead_ok (fst (snd x))" "hinted_step pf cs rest (?d (hd rest)) x = Some (y, r)" for rest x y r
      by (rule hinted_step_ok [OF d [OF that(1)] that(2,3)])
  qed (use 2(2) in simp)
  then show ?case by simp
qed (auto intro: visit_leaf_ok)

section \<open>Properties\<close>

text \<open>A two-level sample: a resident leaf and a leaf on page 5, with the source that has it.\<close>

definition paged_leaf :: "nat packed_leaf" where
  "paged_leaf = PackedLeaf [[3], [4]] [Inr 30, Inr 40] [1, 1]"

definition paged_source :: "nat leaf_source" where
  "paged_source = Some (\<lambda>p. if pr_page p = 5 then Inr paged_leaf else Inl (IoError, ''no such page''))"

definition paged_map :: "nat pmap" where
  "paged_map = \<lparr> root = Some (Interior NONE [[3]]
     [Resident (new_leaf [[1], [2]] [10, 20] [1, 1]), OnDisk \<lparr> pr_page = 5, pr_tag = [] \<rparr>]), pm_count = Some 4 \<rparr>"

lemma sample_leaf_wf:
  "leaf_wf tiny_cap index_shape None (Some [3]) NONE (Decoded [[1], [2]] [10 :: nat, 20] [1, 1])"
  "leaf_wf tiny_cap index_shape (Some [3]) None \<lparr> pr_page = 5, pr_tag = [] \<rparr> (Packed paged_leaf)"
  "leaf_wf tiny_cap index_shape (Some [3]) None \<lparr> pr_page = 5, pr_tag = [] \<rparr> (Decoded [[3], [4]] [30 :: nat, 40] [1, 1])"
proof -
  have k3: "[1] < ([3] :: key)" "[2] < ([3] :: key)" "[1] < ([2] :: key)" "[3] \<le> ([3] :: key)"
    "[3] \<le> ([4] :: key)" "[3] < ([4] :: key)"
    by (simp_all add: word_less_nat_alt)
  note defs = leaf_wf_def parts_wf_def rec_wf_def rec_fits_def in_range_def tiny_cap_def index_shape_def
    leaf_payload_def leaf_overhead_def shape_k_def ptr_def RECORD_MAX_RESERVE_def paged_leaf_def dirty_def
  show "leaf_wf tiny_cap index_shape None (Some [3]) NONE (Decoded [[1], [2]] [10 :: nat, 20] [1, 1])"
    "leaf_wf tiny_cap index_shape (Some [3]) None \<lparr> pr_page = 5, pr_tag = [] \<rparr> (Packed paged_leaf)"
    "leaf_wf tiny_cap index_shape (Some [3]) None \<lparr> pr_page = 5, pr_tag = [] \<rparr> (Decoded [[3], [4]] [30 :: nat, 40] [1, 1])"
    using k3 by (simp_all add: defs)
qed

lemma paged_source_page:
  "load_leaf paged_source \<lparr> pr_page = 5, pr_tag = [] \<rparr>
     = Some (Inr (Leaf \<lparr> pr_page = 5, pr_tag = [] \<rparr> (Packed paged_leaf)))"
  by (simp add: load_leaf_def paged_source_def leaf_loaded_packed_def)

lemma paged_map_wf:
  "pmap_wf paged_source tiny_cap index_shape paged_map"
  "pmap_entries paged_source paged_map = [([1], 10), ([2], 20), ([3], 30), ([4], 40)]"
proof -
  show e: "pmap_entries paged_source paged_map = [([1], 10), ([2], 20), ([3], 30), ([4], 40)]"
    by (simp add: pmap_entries_def paged_map_def child_entries_def paged_source_page new_leaf_def leaf_entries_def
        paged_leaf_def)
  have "node_wf paged_source tiny_cap index_shape (Suc 0) None None (the (root paged_map))"
    using sample_leaf_wf(1,2) by (simp add: node_wf_Suc paged_map_def child_wf_iff paged_source_page new_leaf_def
        node_wf_0 sep_fits_def tiny_cap_def ptr_def interior_payload_def)
  then show "pmap_wf paged_source tiny_cap index_shape paged_map"
    using e by (auto simp: pmap_wf_def paged_map_def)
qed

definition middle :: key_bound where
  "middle = \<lparr> kb_lo = Some [2], kb_lo_inc = True, kb_hi = Some [4], kb_hi_inc = False \<rparr>"

lemma bounded_middle: "bounded middle [([1], 10), ([2], 20), ([3], 30), ([4], 40 :: nat)] = [([2], 20), ([3], 30)]"
  by (simp add: bounded_def in_bound_def middle_def word_less_nat_alt word_le_nat_alt)

lemma bounded_scan_wf:
  assumes "pmap_wf src cp sh m"
  shows "\<exists>c. overlap_node_count m b = Some c
    \<and> range_entries_counted m b src = Some (Inr (bounded b (pmap_entries src m), c))
    \<and> range_entries m b src = Some (Inr (bounded b (pmap_entries src m)))
    \<and> pmap_iter m src = Some (pmap_entries src m, Inr True)"
proof (cases "root m")
  case None
  then show ?thesis
    by (simp add: overlap_node_count_def range_entries_counted_def range_entries_def pmap_iter_def
        pmap_entries_def bounded_def)
next
  case (Some n)
  then obtain h where w: "node_wf src cp sh h None None n" using assms by (auto simp: pmap_wf_def)
  obtain c where c: "overlap_count b n = Some c" using overlap_count_wf [OF w] by blast
  show ?thesis
    using collect_range_wf [OF w, of b "[]" 0] collect_wf [OF w, of "[]"]
    by (simp add: Some c overlap_node_count_def range_entries_counted_def range_entries_def pmap_iter_def
        pmap_entries_def bounded_def)
qed

text \<open>
  C8. A bounded scan of a well-formed tree returns exactly the records the bound admits, in key
  order, without panic or error, and reports the node count \<open>overlap_node_count\<close> computes from
  the resident separators alone; the full walk returns all records.
\<close>

theorem bounded_scan:
  assumes "pmap_wf src cp sh m"
  shows "\<exists>c. overlap_node_count m b = Some c
    \<and> range_entries_counted m b src = Some (Inr (bounded b (pmap_entries src m), c))
    \<and> range_entries m b src = Some (Inr (bounded b (pmap_entries src m)))
    \<and> pmap_iter m src = Some (pmap_entries src m, Inr True)"
  by (rule bounded_scan_wf [OF assms])

theorem bounded_scan_witness:
  "range_entries paged_map middle paged_source = Some (Inr [([2], 20), ([3], 30)])"
  using bounded_scan [OF paged_map_wf(1), of middle] by (auto simp: paged_map_wf(2) bounded_middle)

lemma counts_wf:
  assumes "pmap_wf src cp sh m"
  shows "node_count m = (case root m of None \<Rightarrow> 0 | Some n \<Rightarrow> all_nodes n)
    \<and> overlap_node_count m unbounded = Some (node_count m)
    \<and> get_counted m key src = Some (Inr (map_of (pmap_entries src m) key, height m,
        of_bool (key \<in> fst ` set (pmap_entries src m))))"
proof (cases "root m")
  case None
  then show ?thesis
    by (simp add: node_count_def overlap_node_count_def get_counted_def height_def pmap_entries_def)
next
  case (Some n)
  then obtain h where w: "node_wf src cp sh h None None n" using assms by (auto simp: pmap_wf_def)
  have "map_of (node_entries src n) key \<noteq> None \<longleftrightarrow> key \<in> fst ` set (node_entries src n)"
    by (simp add: map_of_eq_None_iff)
  then show ?thesis
    using count_nodes_wf [OF w] overlap_unbounded [OF w] height_loop_wf [OF w, of 0] get_loop_wf [OF w, of key 1]
    by (simp add: Some node_count_def overlap_node_count_def get_counted_def height_def pmap_entries_def)
qed

text \<open>
  C26. The cost counts: the leaf-skipping \<open>node_count\<close> is the number of nodes of the tree and what
  an unbounded scan is charged; a point lookup returns the row of the key and visits \<open>height\<close>
  nodes.
\<close>

theorem node_count_exact:
  assumes "pmap_wf src cp sh m"
  shows "node_count m = (case root m of None \<Rightarrow> 0 | Some n \<Rightarrow> all_nodes n)
    \<and> overlap_node_count m unbounded = Some (node_count m)
    \<and> get_counted m key src = Some (Inr (map_of (pmap_entries src m) key, height m,
        of_bool (key \<in> fst ` set (pmap_entries src m))))"
  by (rule counts_wf [OF assms])

theorem node_count_exact_witness:
  "node_count paged_map = 3 \<and> get_counted paged_map [3] paged_source = Some (Inr (Some 30, 2, 1))"
  using node_count_exact [OF paged_map_wf(1), of "[3]"]
  by (simp add: paged_map_wf(2) new_leaf_def) (simp add: paged_map_def height_def new_leaf_def)

lemma scan_range_wf:
  assumes "pmap_wf src cp sh m"
  shows "scan_range m b src pf visit s
      = map_option (\<lambda>(s, r). (s, res_bind r (\<lambda>_. Inr ()))) (for_while visit (bounded b (pmap_entries src m)) s)
    \<and> scan_range_rev m b src pf visit s
      = map_option (\<lambda>(s, r). (s, res_bind r (\<lambda>_. Inr ()))) (for_while visit (rev (bounded b (pmap_entries src m))) s)"
proof (cases "root m")
  case None
  then show ?thesis by (simp add: scan_range_def scan_range_rev_def pmap_entries_def bounded_def)
next
  case (Some n)
  then obtain h where w: "node_wf src cp sh h None None n" using assms by (auto simp: pmap_wf_def)
  have e: "run_visit x = map_option (\<lambda>(s, r). (s, res_bind r (\<lambda>_. Inr ()))) (map_option (apfst snd) x)" for x :: "((read_ahead \<times> 'c) \<times> bool result) option"
    by (simp add: run_visit_def option.map_comp comp_def apfst_def map_prod_def split_def)
  have "map_option (apfst snd) (walk_range reverse pf b src visit n (read_ahead_new, s))
      = for_while visit (in_direction reverse (bounded b (node_entries src n))) s" for reverse
    using projectsD [OF walk_range_projects [OF w]] by fastforce
  then show ?thesis
    by (simp add: Some e scan_range_def scan_range_rev_def walk_range_visit_def walk_range_visit_rev_def
        pmap_entries_def in_direction_def)
qed

text \<open>
  A streaming scan runs the visitor over the admitted records in key order, or in the reverse
  order, until it stops or fails: for every visitor and state the outcome is the loop over that
  list, and prefetching changes nothing.
\<close>

theorem scan_range_visits:
  assumes "pmap_wf src cp sh m"
  shows "scan_range m b src pf visit s
      = map_option (\<lambda>(s, r). (s, res_bind r (\<lambda>_. Inr ()))) (for_while visit (bounded b (pmap_entries src m)) s)
    \<and> scan_range_rev m b src pf visit s
      = map_option (\<lambda>(s, r). (s, res_bind r (\<lambda>_. Inr ()))) (for_while visit (rev (bounded b (pmap_entries src m))) s)"
  by (rule scan_range_wf [OF assms])

theorem scan_range_visits_witness:
  "scan_range_rev paged_map unbounded paged_source True
     (\<lambda>kr s. Some (s @ [snd kr], Inr (snd kr \<noteq> 30))) [] = Some ([40, 30], Inr ())"
  using scan_range_visits [OF paged_map_wf(1), of unbounded True "\<lambda>kr s. Some (s @ [snd kr], Inr (snd kr \<noteq> 30))" "[]"]
  by (simp add: paged_map_wf(2) bounded_def)

text \<open>
  C27. The columnar fold: the visitor runs over the admitted records in order; the row count is the
  number of records it accepted, kept when it fails, and on success the node count is the one
  \<open>overlap_node_count\<close> charges.
\<close>

theorem fold_scan_visits:
  assumes "pmap_wf src cp sh m" "reads_pair visit g"
  shows "map_option (apfst drop_nodes) (fold_scan m b src visit s)
      = for_while (counted_visit g) (bounded b (pmap_entries src m)) (s, 0)
    \<and> (\<forall>t n k. fold_scan m b src visit s = Some ((t, n, k), Inr True) \<longrightarrow> overlap_node_count m b = Some k)"
proof (cases "root m")
  case None
  then show ?thesis by (simp add: fold_scan_def pmap_entries_def bounded_def overlap_node_count_def drop_nodes_def)
next
  case (Some r)
  then obtain h where w: "node_wf src cp sh h None None r" using assms by (auto simp: pmap_wf_def)
  obtain c where c: "overlap_count b r = Some c" using overlap_count_wf [OF w] by blast
  have "k = c" if "fold_walk b src visit r (s, 0, 0) = Some ((t, n, k), Inr True)" for t n k
    using fold_walk_nodes [OF w that] by (simp add: c)
  moreover have "map_option (apfst drop_nodes) (fold_walk b src visit r (s, 0, 0))
      = for_while (counted_visit g) (bounded b (node_entries src r)) (s, 0)"
    using projectsD [OF fold_walk_projects [OF assms(2) w], of b "(s, 0, 0)"] by (simp add: drop_nodes_def)
  ultimately show ?thesis by (simp add: Some c fold_scan_def pmap_entries_def overlap_node_count_def)
qed

text \<open>A sum over the rows, refusing 30.\<close>

definition sum_visit :: "key \<times> nat \<Rightarrow> (nat, unit) prog" where
  "sum_visit kr s = (if snd kr = 30 then Some (s, Inl (NumericValueOutOfRange, ''refused'')) else Some (s + snd kr, Inr ()))"

theorem fold_scan_visits_witness:
  "map_option (apfst drop_nodes) (fold_scan paged_map unbounded paged_source (\<lambda>lf i. with_io (leaf_pair lf i) sum_visit) 0)
     = Some ((30, 2), Inl (NumericValueOutOfRange, ''refused''))"
proof -
  have "reads_pair (\<lambda>lf i. with_io (leaf_pair lf i) sum_visit) sum_visit" by (simp add: reads_pair_def)
  from fold_scan_visits [OF paged_map_wf(1) this, of unbounded 0] show ?thesis
    by (simp add: paged_map_wf(2) bounded_def counted_visit_def sum_visit_def numeral_2_eq_2)
qed

text \<open>
  Read-ahead stays within its window: whatever the tree, every hint a scan sends names at least
  2 and at most 64 pages, and a hint always covers the descent it is asked for.
\<close>

theorem read_ahead_bounded:
  assumes "walk_range reverse pf b src visit n (read_ahead_new, s) = Some ((ra, t), r)"
  shows "(\<forall>h \<in> set (ra_hints ra). 2 \<le> length h \<and> length h \<le> READ_AHEAD_MAX)
    \<and> (\<forall>pf cs positions k ra'. hint pf cs positions ra = Some (k, ra') \<longrightarrow> 1 \<le> k)"
proof -
  have "ahead_ok ra" using walk_range_ok [OF _ assms] by (simp add: ahead_ok_def read_ahead_new_def READ_AHEAD_MAX_def)
  then show ?thesis using hint_ok unfolding ahead_ok_def by blast
qed

text \<open>Three leaves on pages 5, 6 and 7: the second hint names two of them.\<close>

definition wide_node :: "nat node" where
  "wide_node = Interior NONE [[2], [3]] (map (\<lambda>p. OnDisk \<lparr> pr_page = p, pr_tag = [] \<rparr>) [5, 6, 7])"

definition wide_source :: "nat leaf_source" where
  "wide_source = Some (\<lambda>p. Inr (PackedLeaf [[word_of_nat (pr_page p - 4)]] [Inr (pr_page p)] [1]))"

theorem read_ahead_bounded_witness:
  "\<exists>ra t. walk_range False True unbounded wide_source (\<lambda>kr s. Some (s + snd kr, Inr True)) wide_node (read_ahead_new, 0)
       = Some ((ra, t), Inr True) \<and> t = 18 \<and> map (map pr_page) (ra_hints ra) = [[6, 7]]
     \<and> (\<forall>h \<in> set (ra_hints ra). 2 \<le> length h \<and> length h \<le> READ_AHEAD_MAX)"
proof -
  have w: "walk_range False True unbounded wide_source (\<lambda>kr s. Some (s + snd kr, Inr True)) wide_node (read_ahead_new, 0)
      = Some ((\<lparr> ra_window = 4, ra_hints = [[\<lparr> pr_page = 6, pr_tag = [] \<rparr>, \<lparr> pr_page = 7, pr_tag = [] \<rparr>]] \<rparr>, 18), Inr True)"
    by code_simp
  then show ?thesis using read_ahead_bounded [OF w] by auto
qed

end
