(* ===== verification/Pmap_Cursor.thy ===== *)
theory Pmap_Cursor
  imports Pmap_Scan_Correct
begin

text \<open>
  The pull cursor of \<open>pmap.rs\<close> (\<open>RangeCursor\<close>) and the residency flip after a commit
  (\<open>demote_clean_leaves\<close>). The contract of a pull cursor is the locale \<open>pull_cursor\<close>; the two
  pull operations of the code are its interpretations.
\<close>

section \<open>The pull cursor\<close>

record 'r scan_frame =
  sf_node :: "'r node"
  sf_is_leaf :: bool
  sf_lo :: nat
  sf_hi :: nat
  sf_hinted :: nat

fun node_children :: "'r node \<Rightarrow> 'r child list" where
  "node_children (Leaf _ _) = []"
| "node_children (Interior _ _ cs) = cs"

fun scan_frame_new :: "'r node \<Rightarrow> key_bound \<Rightarrow> 'r scan_frame" where
  "scan_frame_new (Leaf p lf) b = (case entry_window b (leaf_keys lf) of (lo, hi) \<Rightarrow>
     \<lparr> sf_node = Leaf p lf, sf_is_leaf = True, sf_lo = lo, sf_hi = hi, sf_hinted = 0 \<rparr>)"
| "scan_frame_new (Interior p ks cs) b = (case child_window b ks of (cf, cl) \<Rightarrow>
     \<lparr> sf_node = Interior p ks cs, sf_is_leaf = False, sf_lo = cf, sf_hi = cl + 1, sf_hinted = 0 \<rparr>)"

record 'r range_cursor =
  rc_stack :: "'r scan_frame list"
  rc_bound :: key_bound
  rc_reverse :: bool
  rc_ahead :: read_ahead

definition range_cursor_of :: "'r pmap \<Rightarrow> key_bound \<Rightarrow> bool \<Rightarrow> 'r range_cursor" where
  "range_cursor_of m b reverse =
     \<lparr> rc_stack = (case root m of None \<Rightarrow> [] | Some n \<Rightarrow> [scan_frame_new n b]),
       rc_bound = b, rc_reverse = reverse, rc_ahead = read_ahead_new \<rparr>"

text \<open>The weight of what a frame still has to visit: the measure of the loop.\<close>

fun node_weight :: "'r node \<Rightarrow> nat" where
  "node_weight (Leaf p lf) = 1"
| "node_weight (Interior p ks cs) =
     1 + sum_list (map (\<lambda>c. case c of Resident n \<Rightarrow> 1 + node_weight n | OnDisk _ \<Rightarrow> 2) cs)"

definition slot_weight :: "'r child list \<Rightarrow> nat \<Rightarrow> nat" where
  "slot_weight cs i = (case nth_opt cs i of
      None \<Rightarrow> 0 | Some (Resident n) \<Rightarrow> 1 + node_weight n | Some (OnDisk _) \<Rightarrow> 2)"

definition frame_weight :: "'r scan_frame \<Rightarrow> nat" where
  "frame_weight fr = 1 + (if sf_is_leaf fr then 0
     else (\<Sum>i \<in> {sf_lo fr..<sf_hi fr}. slot_weight (node_children (sf_node fr)) i))"

lemma slot_weights_le: "(\<Sum>i \<in> {a..<z}. slot_weight cs i)
    \<le> sum_list (map (\<lambda>c. case c of Resident n \<Rightarrow> 1 + node_weight n | OnDisk _ \<Rightarrow> 2) cs)"
proof -
  have "(\<Sum>i \<in> {a..<z}. slot_weight cs i) = (\<Sum>i \<in> {a..<z} \<inter> {..<length cs}. slot_weight cs i)"
    by (rule sum.mono_neutral_right) (auto simp: slot_weight_def nth_opt_def split: if_splits)
  also have "\<dots> \<le> (\<Sum>i \<in> {..<length cs}. slot_weight cs i)" by (rule sum_mono2) auto
  also have "\<dots> = sum_list (map (\<lambda>c. case c of Resident n \<Rightarrow> 1 + node_weight n | OnDisk _ \<Rightarrow> 2) cs)"
    unfolding sum_list_sum_nth
    by (rule sum.cong) (auto simp: slot_weight_def atLeast0LessThan split: child.splits)
  finally show ?thesis .
qed

lemma frame_new_weight: "frame_weight (scan_frame_new n b) \<le> node_weight n"
proof (cases n)
  case (Interior p ks cs)
  obtain cf cl where w: "child_window b ks = (cf, cl)" by fastforce
  show ?thesis
    unfolding Interior scan_frame_new.simps w prod.case frame_weight_def node_weight.simps
    using slot_weights_le [of cs cf "cl + 1"] by (simp only: scan_frame.simps node_children.simps if_False)
qed (auto simp: frame_weight_def split: prod.splits)

lemma child_weight:
  assumes "child cs i src = Some (Inr n)"
  shows "frame_weight (scan_frame_new n b) < slot_weight cs i"
proof -
  obtain c where c: "nth_opt cs i = Some c" "resolve src c = Some (Inr n)"
    using assms by (auto simp: child_def split: option.splits)
  show ?thesis
  proof (cases c)
    case (Resident m)
    then show ?thesis using c frame_new_weight [of n b] by (simp add: slot_weight_def)
  next
    case (OnDisk q)
    then obtain pl where "n = Leaf q (Packed pl)" using c load_leaf_is_leaf by fastforce
    then show ?thesis using c OnDisk frame_new_weight [of n b] by (simp add: slot_weight_def)
  qed
qed

definition taken_frame :: "bool \<Rightarrow> 'r scan_frame \<Rightarrow> nat \<times> 'r scan_frame" where
  "taken_frame reverse fr =
     (if reverse then (sf_hi fr - 1, fr\<lparr> sf_hi := sf_hi fr - 1 \<rparr>)
      else (sf_lo fr, fr\<lparr> sf_lo := sf_lo fr + 1 \<rparr>))"

lemma taken_frame_weight:
  assumes "taken_frame reverse fr = (p, fr')" "sf_lo fr < sf_hi fr" "\<not> sf_is_leaf fr"
  shows "frame_weight fr = frame_weight fr' + slot_weight (node_children (sf_node fr)) p"
proof (cases reverse)
  case True
  then have "{sf_lo fr..<sf_hi fr} = insert p {sf_lo fr..<sf_hi fr'}" "p \<notin> {sf_lo fr..<sf_hi fr'}"
    using assms by (auto simp: taken_frame_def)
  then show ?thesis using assms True by (auto simp: frame_weight_def taken_frame_def)
next
  case False
  then have "{sf_lo fr..<sf_hi fr} = insert p {sf_lo fr'..<sf_hi fr}" "p \<notin> {sf_lo fr'..<sf_hi fr}"
    using assms by (auto simp: taken_frame_def)
  then show ?thesis using assms False by (auto simp: frame_weight_def taken_frame_def)
qed

definition frame_hint :: "bool \<Rightarrow> bool \<Rightarrow> 'r scan_frame \<Rightarrow> nat \<Rightarrow> read_ahead \<Rightarrow> (nat \<times> read_ahead) option" where
  "frame_hint reverse pf fr p ra =
     (if sf_hinted fr = 0
      then hint pf (node_children (sf_node fr))
        (if reverse then rev [sf_lo fr..<Suc p] else [p..<sf_hi fr]) ra
      else Some (sf_hinted fr, ra))"

function advance_loop :: "bool \<Rightarrow> bool \<Rightarrow> key_bound \<Rightarrow> 'r leaf_source \<Rightarrow> ('r node \<Rightarrow> nat \<Rightarrow> 'a io)
    \<Rightarrow> 'r scan_frame list \<Rightarrow> read_ahead
    \<Rightarrow> (('r scan_frame list \<times> read_ahead) \<times> 'a option result) option" where
  "advance_loop reverse pf b src emit [] ra = Some (([], ra), Inr None)"
| "advance_loop reverse pf b src emit (fr # st) ra =
     (if sf_hi fr \<le> sf_lo fr then advance_loop reverse pf b src emit st ra
      else case taken_frame reverse fr of (p, fr1) \<Rightarrow>
        if sf_is_leaf fr then
          (case emit (sf_node fr) p of
             None \<Rightarrow> None | Some r \<Rightarrow> Some ((fr1 # st, ra), res_bind r (\<lambda>x. Inr (Some x))))
        else
          (case frame_hint reverse pf fr1 p ra of
             None \<Rightarrow> None
           | Some (hinted, ra) \<Rightarrow>
               (case child (node_children (sf_node fr)) p src of
                  None \<Rightarrow> None
                | Some (Inl e) \<Rightarrow> Some ((fr1\<lparr> sf_hinted := hinted - 1 \<rparr> # st, ra), Inl e)
                | Some (Inr ch) \<Rightarrow> advance_loop reverse pf b src emit
                    (scan_frame_new ch b # fr1\<lparr> sf_hinted := hinted - 1 \<rparr> # st) ra)))"
  by pat_completeness auto
termination
proof (relation "measure (\<lambda>(_, _, _, _, _, st, _). sum_list (map frame_weight st))", goal_cases)
  case (2 reverse pf b src emit fr st ra)
  then show ?case by (simp add: frame_weight_def)
next
  case (3 reverse pf b src emit fr st ra p fr1 h hinted ra' c ch)
  then have "frame_weight (scan_frame_new ch b) < slot_weight (node_children (sf_node fr)) p"
    by (intro child_weight) simp
  moreover have "frame_weight fr = frame_weight fr1 + slot_weight (node_children (sf_node fr)) p"
    by (rule taken_frame_weight) (use 3 in auto)
  moreover have "frame_weight (fr1\<lparr> sf_hinted := h \<rparr>) = frame_weight fr1" for h
    by (simp add: frame_weight_def)
  ultimately show ?case by simp
qed simp

definition advance :: "bool \<Rightarrow> 'r leaf_source \<Rightarrow> ('r node \<Rightarrow> nat \<Rightarrow> 'a io) \<Rightarrow> 'r range_cursor
    \<Rightarrow> ('r range_cursor \<times> 'a option result) option" where
  "advance pf src emit c = map_option (\<lambda>((st, ra), r). (c\<lparr> rc_stack := st, rc_ahead := ra \<rparr>, r))
     (advance_loop (rc_reverse c) pf (rc_bound c) src emit (rc_stack c) (rc_ahead c))"

fun emit_pair :: "'r node \<Rightarrow> nat \<Rightarrow> (key \<times> 'r) io" where
  "emit_pair (Leaf p lf) i = leaf_pair lf i"
| "emit_pair (Interior p ks cs) i = None"

fun emit_row :: "'r node \<Rightarrow> nat \<Rightarrow> 'r io" where
  "emit_row (Leaf p lf) i = leaf_row_at lf i"
| "emit_row (Interior p ks cs) i = None"

definition cursor_next :: "bool \<Rightarrow> 'r leaf_source \<Rightarrow> 'r range_cursor
    \<Rightarrow> ('r range_cursor \<times> (key \<times> 'r) option result) option" where
  "cursor_next pf src = advance pf src emit_pair"

definition next_row :: "bool \<Rightarrow> 'r leaf_source \<Rightarrow> 'r range_cursor
    \<Rightarrow> ('r range_cursor \<times> 'r option result) option" where
  "next_row pf src = advance pf src emit_row"


text \<open>What a cursor still has to deliver.\<close>

definition frame_pending :: "bool \<Rightarrow> key_bound \<Rightarrow> 'r leaf_source \<Rightarrow> 'r scan_frame \<Rightarrow> (key \<times> 'r) list" where
  "frame_pending reverse b src fr = in_direction reverse (case sf_node fr of
      Leaf p lf \<Rightarrow> map (nth (leaf_entries lf)) [sf_lo fr..<sf_hi fr]
    | Interior p ks cs \<Rightarrow> concat (map (\<lambda>i. bounded b (child_entries src (cs ! i))) [sf_lo fr..<sf_hi fr]))"

definition frame_wf :: "'r leaf_source \<Rightarrow> cap \<Rightarrow> leaf_shape \<Rightarrow> 'r scan_frame \<Rightarrow> bool" where
  "frame_wf src cp sh fr \<longleftrightarrow> (case sf_node fr of
      Leaf p lf \<Rightarrow> sf_is_leaf fr \<and> (\<exists>lo hi. leaf_wf cp sh lo hi p lf) \<and> sf_hi fr \<le> length (leaf_entries lf)
    | Interior p ks cs \<Rightarrow> \<not> sf_is_leaf fr \<and> sf_hi fr \<le> length cs
        \<and> (\<exists>h lo hi. separated (child_wf src cp sh h) lo hi ks cs))"

lemma scan_frame_new_wf:
  assumes "node_wf src cp sh h lo hi n"
  shows "frame_wf src cp sh (scan_frame_new n b)
    \<and> frame_pending reverse b src (scan_frame_new n b) = in_direction reverse (bounded b (node_entries src n))"
proof (cases h)
  case 0
  then obtain p lf where n: "n = Leaf p lf" "leaf_wf cp sh lo hi p lf" using assms by (auto simp: node_wf_0)
  obtain ks vs ws where d: "decoded_parts lf = Inr (ks, vs, ws)" "parts_wf cp sh lo hi ks vs ws"
    "leaf_keys lf = ks" "leaf_entries lf = zip ks vs" using leaf_wf_parts [OF n(2)] by metis
  have s: "sorted_wrt (<) ks" "length vs = length ks" using d(2) by (auto simp: parts_wf_def)
  obtain a z where w: "entry_window b ks = (a, z)" by fastforce
  have e: "map (nth (zip ks vs)) [a..<z] = bounded b (zip ks vs)"
    using entry_positions_filter [OF s, of b] by (simp add: entry_positions_def w bounded_def)
  have "z \<le> length ks"
  proof (cases "a < z")
    case True
    then have "z - 1 \<in> set (entry_positions False b ks)" by (auto simp: entry_positions_def w)
    then show ?thesis using entry_positions_lt [OF s(1)] by fastforce
  next
    case False
    have "snd (entry_window b ks) \<le> length ks"
      by (auto simp: entry_window_def Let_def lower_bound_takeWhile [OF s(1)] length_takeWhile_le split: option.splits)
    then show ?thesis by (simp add: w)
  qed
  then show ?thesis
    using n(2) s(2) e by (auto simp: n(1) d(3,4) w frame_wf_def frame_pending_def)
next
  case (Suc h')
  then obtain p ks cs where n: "n = Interior p ks cs" "separated (child_wf src cp sh h') lo hi ks cs"
    using assms by (auto simp: node_wf_Suc)
  obtain cf cl where w: "child_window b ks = (cf, cl)" by fastforce
  have "cl < length cs" using child_window_bounds [OF w] separated_length [OF n(2)] by simp
  moreover have "concat (map (\<lambda>i. bounded b (child_entries src (cs ! i))) [cf..<Suc cl])
      = bounded b (concat (map (child_entries src) cs))"
    using child_filter [OF n(2), of b] by (simp add: child_positions_def w bounded_def del: upt_Suc)
  ultimately show ?thesis
    using n(2) by (auto simp: n(1) w frame_wf_def frame_pending_def simp del: upt_Suc)
qed

definition stack_pending :: "bool \<Rightarrow> key_bound \<Rightarrow> 'r leaf_source \<Rightarrow> 'r scan_frame list \<Rightarrow> (key \<times> 'r) list" where
  "stack_pending reverse b src st = concat (map (frame_pending reverse b src) st)"

text \<open>Taking the next position of a frame: the pending rows at that position, then the rest.\<close>

lemma upt_ends: "a < z \<Longrightarrow> [a..<z] = a # [Suc a..<z]" "a < z \<Longrightarrow> [a..<z] = [a..<z - 1] @ [z - 1]"
proof -
  assume "a < z"
  then show "[a..<z] = a # [Suc a..<z]" by (rule upt_conv_Cons)
  show "[a..<z] = [a..<z - 1] @ [z - 1]"
    using \<open>a < z\<close> upt_Suc_append [of a "z - 1"] by (cases z) auto
qed

lemma take_position:
  assumes "sf_lo fr < sf_hi fr" "taken_frame reverse fr = (p, fr1)"
  shows "sf_lo fr \<le> p \<and> p < sf_hi fr \<and> sf_node fr1 = sf_node fr \<and> sf_is_leaf fr1 = sf_is_leaf fr
    \<and> sf_hi fr1 \<le> sf_hi fr \<and> sf_hinted fr1 = sf_hinted fr
    \<and> frame_pending reverse b src fr = (case sf_node fr of
        Leaf q lf \<Rightarrow> [leaf_entries lf ! p]
      | Interior q ks cs \<Rightarrow> in_direction reverse (bounded b (child_entries src (cs ! p))))
      @ frame_pending reverse b src fr1"
proof (cases reverse)
  case True
  then have e: "p = sf_hi fr - 1" "fr1 = fr\<lparr> sf_hi := sf_hi fr - 1 \<rparr>" using assms(2) by (auto simp: taken_frame_def)
  have u: "[sf_lo fr..<sf_hi fr] = [sf_lo fr..<sf_hi fr - 1] @ [sf_hi fr - 1]"
    using upt_ends(2) [OF assms(1)] .
  show ?thesis using assms(1) unfolding frame_pending_def u
    by (cases "sf_node fr") (auto simp: e True in_direction_def)
next
  case False
  then have e: "p = sf_lo fr" "fr1 = fr\<lparr> sf_lo := sf_lo fr + 1 \<rparr>" using assms(2) by (auto simp: taken_frame_def)
  have u: "[sf_lo fr..<sf_hi fr] = sf_lo fr # [Suc (sf_lo fr)..<sf_hi fr]"
    using upt_ends(1) [OF assms(1)] .
  show ?thesis using assms(1) unfolding frame_pending_def u
    by (cases "sf_node fr") (auto simp: e False in_direction_def)
qed

lemma frame_hint_total:
  assumes "frame_wf src cp sh fr" "\<not> sf_is_leaf fr" "p < sf_hi fr" "taken_frame reverse fr = (p, fr1)"
  shows "\<exists>k ra'. frame_hint reverse pf fr1 p ra = Some (k, ra')"
proof -
  have "sf_hi fr \<le> length (node_children (sf_node fr))"
    using assms(1,2) by (cases "sf_node fr") (auto simp: frame_wf_def)
  moreover have "sf_node fr1 = sf_node fr" "sf_hi fr1 \<le> sf_hi fr"
    using assms(4) by (auto simp: taken_frame_def split: if_splits)
  ultimately have "\<forall>i \<in> set (if reverse then rev [sf_lo fr1..<Suc p] else [p..<sf_hi fr1]). i < length (node_children (sf_node fr1))"
    using assms(3) by auto
  from hint_total [OF this, of pf ra] show ?thesis unfolding frame_hint_def by (cases "sf_hinted fr1 = 0") auto
qed

definition emits :: "cap \<Rightarrow> leaf_shape \<Rightarrow> ('r node \<Rightarrow> nat \<Rightarrow> 'a io) \<Rightarrow> (key \<times> 'r \<Rightarrow> 'a) \<Rightarrow> bool" where
  "emits cp sh emit out \<longleftrightarrow> (\<forall>lo hi p lf i. leaf_wf cp sh lo hi p lf \<longrightarrow> i < length (leaf_entries lf) \<longrightarrow>
     emit (Leaf p lf) i = Some (Inr (out (leaf_entries lf ! i))))"

lemma emits_pair: "emits cp sh emit_pair (\<lambda>kr. kr)"
proof -
  have "leaf_pair lf i = Some (Inr (leaf_entries lf ! i))"
    if w: "leaf_wf cp sh lo hi p lf" and i: "i < length (leaf_entries lf)" for lo hi p i and lf :: "'a leaf_form"
  proof -
    obtain ks vs ws where d: "decoded_parts lf = Inr (ks, vs, ws)" "leaf_entries lf = zip ks vs"
      using leaf_wf_parts [OF w] by metis
    show ?thesis using leaf_pair_wf [OF w d(1), of i] i by (simp add: d(2))
  qed
  then show ?thesis by (simp add: emits_def)
qed

lemma emits_row: "emits cp sh emit_row snd"
proof -
  have "leaf_row_at lf i = Some (Inr (snd (leaf_entries lf ! i)))"
    if w: "leaf_wf cp sh lo hi p lf" and i: "i < length (leaf_entries lf)" for lo hi p i and lf :: "'a leaf_form"
  proof -
    obtain ks vs ws where d: "decoded_parts lf = Inr (ks, vs, ws)" "leaf_entries lf = zip ks vs"
      using leaf_wf_parts [OF w] by metis
    show ?thesis using leaf_row_at_wf [OF w d(1), of i] i by (simp add: d(2))
  qed
  then show ?thesis by (simp add: emits_def)
qed

lemma advance_loop_wf:
  assumes "emits cp sh emit out" "\<forall>fr \<in> set st. frame_wf src cp sh fr"
  shows "\<exists>st' ra'. advance_loop reverse pf b src emit st ra
      = Some ((st', ra'), Inr (case stack_pending reverse b src st of [] \<Rightarrow> None | x # _ \<Rightarrow> Some (out x)))
    \<and> (\<forall>fr \<in> set st'. frame_wf src cp sh fr)
    \<and> stack_pending reverse b src st' = tl (stack_pending reverse b src st)"
  using assms
proof (induction reverse pf b src emit st ra rule: advance_loop.induct)
  case (1 reverse pf b src emit ra)
  then show ?case by (simp add: stack_pending_def)
next
  case (2 reverse pf b src emit fr st ra)
  show ?case
  proof (cases "sf_hi fr \<le> sf_lo fr")
    case True
    then have "frame_pending reverse b src fr = []"
      by (auto simp: frame_pending_def in_direction_def split: node.splits)
    then have "stack_pending reverse b src (fr # st) = stack_pending reverse b src st" by (simp add: stack_pending_def)
    then show ?thesis using 2(1) [OF True 2(3)] 2(4) True by simp
  next
    case ne: False
    then have lt: "sf_lo fr < sf_hi fr" by simp
    obtain p fr1 where t: "taken_frame reverse fr = (p, fr1)" by fastforce
    note tp = take_position [OF lt t, of b src]
    have fr: "frame_wf src cp sh fr" using 2(4) by simp
    have fr1: "frame_wf src cp sh (fr1\<lparr> sf_hinted := k \<rparr>)" "frame_wf src cp sh fr1" for k
      using fr tp by (auto simp: frame_wf_def split: node.splits)
    show ?thesis
    proof (cases "sf_node fr")
      case (Leaf q lf)
      then obtain lo hi where lf: "sf_is_leaf fr" "leaf_wf cp sh lo hi q lf" "p < length (leaf_entries lf)"
        using fr tp by (auto simp: frame_wf_def)
      have "emit (sf_node fr) p = Some (Inr (out (leaf_entries lf ! p)))"
        using 2(3) lf(2,3) unfolding emits_def Leaf by blast
      then show ?thesis using ne t lf(1) tp 2(4) fr1 by (auto simp: Leaf stack_pending_def)
    next
      case (Interior q ks cs)
      then obtain h lo hi where cs: "\<not> sf_is_leaf fr" "p < length cs" "separated (child_wf src cp sh h) lo hi ks cs"
        using fr tp by (auto simp: frame_wf_def)
      obtain k ra' where k: "frame_hint reverse pf fr1 p ra = Some (k, ra')"
        using frame_hint_total [OF fr cs(1) _ t] tp by blast
      obtain n where n: "resolve src (cs ! p) = Some (Inr n)" "node_wf src cp sh h (range_lo lo ks p) (range_hi hi ks p) n"
        using separated_nth [OF cs(3,2)] by (auto simp: child_wf_iff)
      have ch: "child (node_children (sf_node fr)) p src = Some (Inr n)"
        using n(1) cs(2) by (simp add: child_def Interior)
      let ?st = "scan_frame_new n b # fr1\<lparr> sf_hinted := k - 1 \<rparr> # st"
      note new = scan_frame_new_wf [OF n(2), of b reverse]
      have fp: "frame_pending reverse b src (fr1\<lparr> sf_hinted := x \<rparr>) = frame_pending reverse b src fr1" for x
        by (simp add: frame_pending_def split: node.splits)
      have "child_entries src (cs ! p) = node_entries src n" using n(1) by (simp add: child_entries_def)
      then have "stack_pending reverse b src ?st = stack_pending reverse b src (fr # st)"
        using tp new by (simp add: stack_pending_def Interior fp)
      moreover have "\<forall>fr \<in> set ?st. frame_wf src cp sh fr" using new fr1 2(4) by auto
      moreover have "advance_loop reverse pf b src emit (fr # st) ra = advance_loop reverse pf b src emit ?st ra'"
        using ne t cs(1) k ch by simp
      ultimately show ?thesis
        using 2(2) [OF ne t [symmetric] cs(1) k refl ch refl 2(3)] by simp
    qed
  qed
qed

section \<open>The contract of a pull cursor\<close>

text \<open>Pull until the end, at most \<open>n\<close> times.\<close>

fun pull :: "('c \<Rightarrow> ('c \<times> 'a option result) option) \<Rightarrow> nat \<Rightarrow> 'c \<Rightarrow> ('c \<times> 'a list) option" where
  "pull nxt 0 c = Some (c, [])"
| "pull nxt (Suc n) c = (case nxt c of
      Some (c, Inr (Some x)) \<Rightarrow> map_option (\<lambda>(c, xs). (c, x # xs)) (pull nxt n c)
    | Some (c, Inr None) \<Rightarrow> Some (c, [])
    | _ \<Rightarrow> None)"

locale pull_cursor =
  fixes nxt :: "'c \<Rightarrow> ('c \<times> 'a option result) option"
    and ok :: "'c \<Rightarrow> bool"
    and pending :: "'c \<Rightarrow> 'a list"
  assumes nxt_pending: "ok c \<Longrightarrow> \<exists>c'. nxt c = Some (c', Inr (case pending c of [] \<Rightarrow> None | x # _ \<Rightarrow> Some x))
      \<and> ok c' \<and> pending c' = tl (pending c)"
begin

lemma pull_pending:
  "ok c \<Longrightarrow> \<exists>c'. pull nxt n c = Some (c', take n (pending c)) \<and> ok c' \<and> pending c' = drop n (pending c)"
proof (induction n arbitrary: c)
  case (Suc n)
  obtain c1 where c1: "nxt c = Some (c1, Inr (case pending c of [] \<Rightarrow> None | x # _ \<Rightarrow> Some x))"
    "ok c1" "pending c1 = tl (pending c)" using nxt_pending [OF Suc.prems] by blast
  show ?case
  proof (cases "pending c")
    case Nil
    then show ?thesis using c1 by simp
  next
    case (Cons x xs)
    then show ?thesis using c1 Suc.IH [OF c1(2)] by auto
  qed
qed simp

lemma exhausted: "ok c \<Longrightarrow> pending c = [] \<Longrightarrow> \<exists>c'. nxt c = Some (c', Inr None) \<and> ok c' \<and> pending c' = []"
  using nxt_pending [of c] by auto

end

definition cursor_ok :: "'r leaf_source \<Rightarrow> cap \<Rightarrow> leaf_shape \<Rightarrow> 'r range_cursor \<Rightarrow> bool" where
  "cursor_ok src cp sh c \<longleftrightarrow> (\<forall>fr \<in> set (rc_stack c). frame_wf src cp sh fr)"

definition cursor_pending :: "'r leaf_source \<Rightarrow> 'r range_cursor \<Rightarrow> (key \<times> 'r) list" where
  "cursor_pending src c = stack_pending (rc_reverse c) (rc_bound c) src (rc_stack c)"

lemma advance_wf:
  assumes "emits cp sh emit out" "cursor_ok src cp sh c"
  shows "\<exists>c'. advance pf src emit c = Some (c', Inr (case map out (cursor_pending src c) of [] \<Rightarrow> None | x # _ \<Rightarrow> Some x))
    \<and> cursor_ok src cp sh c' \<and> map out (cursor_pending src c') = tl (map out (cursor_pending src c))"
proof -
  obtain st' ra' where s: "advance_loop (rc_reverse c) pf (rc_bound c) src emit (rc_stack c) (rc_ahead c)
      = Some ((st', ra'), Inr (case stack_pending (rc_reverse c) (rc_bound c) src (rc_stack c) of
          [] \<Rightarrow> None | x # _ \<Rightarrow> Some (out x)))"
    "\<forall>fr \<in> set st'. frame_wf src cp sh fr"
    "stack_pending (rc_reverse c) (rc_bound c) src st' = tl (stack_pending (rc_reverse c) (rc_bound c) src (rc_stack c))"
    using advance_loop_wf [OF assms(1)] assms(2) unfolding cursor_ok_def by metis
  then show ?thesis
    by (cases "stack_pending (rc_reverse c) (rc_bound c) src (rc_stack c)")
      (auto simp: advance_def cursor_ok_def cursor_pending_def)
qed

interpretation pairs: pull_cursor "cursor_next pf src" "cursor_ok src cp sh" "cursor_pending src"
  for pf :: bool and src :: "'r leaf_source" and cp :: cap and sh :: leaf_shape
  by unfold_locales (use advance_wf [OF emits_pair] in \<open>simp add: cursor_next_def\<close>)

interpretation rows: pull_cursor "next_row pf src" "cursor_ok src cp sh" "\<lambda>c. map snd (cursor_pending src c)"
  for pf :: bool and src :: "'r leaf_source" and cp :: cap and sh :: leaf_shape
  by unfold_locales (use advance_wf [OF emits_row] in \<open>simp add: next_row_def\<close>)

lemma range_cursor_wf:
  assumes "pmap_wf src cp sh m"
  shows "cursor_ok src cp sh (range_cursor_of m b reverse)
    \<and> cursor_pending src (range_cursor_of m b reverse) = in_direction reverse (bounded b (pmap_entries src m))"
proof (cases "root m")
  case None
  then show ?thesis
    by (simp add: cursor_ok_def cursor_pending_def range_cursor_of_def stack_pending_def pmap_entries_def
        bounded_def in_direction_def)
next
  case (Some n)
  then obtain h where "node_wf src cp sh h None None n" using assms by (auto simp: pmap_wf_def)
  from scan_frame_new_wf [OF this, of b reverse] show ?thesis
    by (simp add: Some cursor_ok_def cursor_pending_def range_cursor_of_def stack_pending_def pmap_entries_def)
qed


section \<open>Demotion\<close>

text \<open>
  The post-commit residency flip. A clean resident leaf becomes its page reference; the source
  then faults the same records, which is what the commit that assigned the page has written.
\<close>

fun demote :: "'r node \<Rightarrow> 'r node option" where
  "demote (Leaf p lf) = None"
| "demote (Interior p ks cs) =
     (let ds = map (\<lambda>c. case c of
          OnDisk q \<Rightarrow> (False, OnDisk q)
        | Resident (Leaf q lf) \<Rightarrow> if pr_page q \<noteq> 0 then (True, OnDisk q) else (False, Resident (Leaf q lf))
        | Resident (Interior q ks' cs') \<Rightarrow> (case demote (Interior q ks' cs') of
             Some r \<Rightarrow> (True, Resident r) | None \<Rightarrow> (False, Resident (Interior q ks' cs')))) cs
      in if \<exists>d \<in> set ds. fst d then Some (Interior p ks (map snd ds)) else None)"

declare demote.simps(2) [simp del]

definition demote_clean_leaves :: "'r pmap \<Rightarrow> 'r pmap" where
  "demote_clean_leaves m = (case root m of
      None \<Rightarrow> m
    | Some n \<Rightarrow> (case demote n of None \<Rightarrow> m | Some r \<Rightarrow> m\<lparr> root := Some r \<rparr>))"

fun resident_bytes :: "'r node \<Rightarrow> nat" where
  "resident_bytes (Leaf p lf) = sum_list (leaf_weights lf)"
| "resident_bytes (Interior p ks cs) =
     sum_list (map (\<lambda>c. case c of Resident n \<Rightarrow> resident_bytes n | OnDisk _ \<Rightarrow> 0) cs)"

definition resident_record_bytes :: "'r pmap \<Rightarrow> nat" where
  "resident_record_bytes m = (case root m of None \<Rightarrow> 0 | Some n \<Rightarrow> resident_bytes n)"

text \<open>The source has every clean leaf the tree holds: faulting its page gives the same records.\<close>

fun persisted :: "'r leaf_source \<Rightarrow> 'r node \<Rightarrow> bool" where
  "persisted src (Leaf p lf) \<longleftrightarrow> (\<not> dirty p \<longrightarrow>
     (\<exists>pl. load_leaf src p = Some (Inr (Leaf p (Packed pl))) \<and> decoded_parts (Packed pl) = decoded_parts lf))"
| "persisted src (Interior p ks cs) \<longleftrightarrow> (\<forall>n. Resident n \<in> set cs \<longrightarrow> persisted src n)"

definition same_child :: "'r leaf_source \<Rightarrow> cap \<Rightarrow> leaf_shape \<Rightarrow> nat \<Rightarrow> 'r child \<Rightarrow> 'r child \<Rightarrow> bool" where
  "same_child src cp sh h c d \<longleftrightarrow> child_entries src d = child_entries src c
     \<and> (\<forall>lo hi. child_wf src cp sh h lo hi c \<longrightarrow> child_wf src cp sh h lo hi d)"

definition demote_child :: "'r child \<Rightarrow> 'r child" where
  "demote_child c = (case c of
      OnDisk q \<Rightarrow> OnDisk q
    | Resident (Leaf q lf) \<Rightarrow> if pr_page q \<noteq> 0 then OnDisk q else Resident (Leaf q lf)
    | Resident (Interior q ks' cs') \<Rightarrow> (case demote (Interior q ks' cs') of
             Some r \<Rightarrow> Resident r | None \<Rightarrow> Resident (Interior q ks' cs')))"

lemma demote_child_snd:
  "snd (case c of
          OnDisk q \<Rightarrow> (False, OnDisk q)
        | Resident (Leaf q lf) \<Rightarrow> if pr_page q \<noteq> 0 then (True, OnDisk q) else (False, Resident (Leaf q lf))
        | Resident (Interior q ks' cs') \<Rightarrow> (case demote (Interior q ks' cs') of
             Some r \<Rightarrow> (True, Resident r) | None \<Rightarrow> (False, Resident (Interior q ks' cs')))) = demote_child c"
proof (cases c)
  case (Resident n)
  show ?thesis
  proof (cases n)
    case (Interior q ks cs)
    show ?thesis unfolding demote_child_def Resident Interior child.case node.case
      by (cases "demote (Interior q ks cs)") (simp_all only: option.case snd_conv)
  qed (simp add: demote_child_def Resident)
qed (simp add: demote_child_def)

lemma demote_Interior:
  assumes "demote (Interior p ks cs) = Some r"
  shows "r = Interior p ks (map demote_child cs)"
  using assms
  by (subst (asm) demote.simps(2))
    (simp only: Let_def map_map comp_def demote_child_snd option.inject option.distinct split: if_splits)

lemma separated_map:
  "separated P lo hi ks cs \<Longrightarrow> (\<And>c lo hi. c \<in> set cs \<Longrightarrow> P lo hi c \<Longrightarrow> P lo hi (f c)) \<Longrightarrow>
     separated P lo hi ks (map f cs)"
  by (induction P lo hi ks cs rule: separated.induct) auto

lemma demote_child_step:
  assumes w: "child_wf src cp sh h lo hi c" and p: "\<And>m. c = Resident m \<Longrightarrow> persisted src m"
    and IH: "\<And>lo hi n r. node_wf src cp sh h lo hi n \<Longrightarrow> persisted src n \<Longrightarrow> demote n = Some r \<Longrightarrow>
      node_wf src cp sh h lo hi r \<and> node_entries src r = node_entries src n"
  shows "child_wf src cp sh h lo hi (demote_child c) \<and> child_entries src (demote_child c) = child_entries src c"
proof (cases c)
  case (OnDisk q)
  then show ?thesis using w by (simp add: demote_child_def)
next
  case (Resident m)
  then have m: "node_wf src cp sh h lo hi m" "persisted src m" using w p by auto
  show ?thesis
  proof (cases m)
    case (Leaf q lf)
    then have h: "h = 0" and lf: "leaf_wf cp sh lo hi q lf"
      using m(1) by (cases h; auto simp: node_wf_0 node_wf_Suc)+
    show ?thesis
    proof (cases "pr_page q \<noteq> 0")
      case True
      then obtain pl where pl: "load_leaf src q = Some (Inr (Leaf q (Packed pl)))"
        "decoded_parts (Packed pl) = decoded_parts lf" using m(2) by (auto simp: Leaf dirty_def)
      have "leaf_wf cp sh lo hi q (Packed pl)"
        using lf True unfolding leaf_wf_def pl(2) by (simp add: dirty_def)
      moreover have "leaf_entries (Packed pl) = leaf_entries lf" by (simp only: leaf_entries_def pl(2))
      ultimately show ?thesis
        using True pl(1) by (simp add: demote_child_def Resident Leaf child_wf_iff node_wf_0 h child_entries_def)
    qed (use w in \<open>simp add: demote_child_def Resident Leaf\<close>)
  next
    case (Interior q ks' cs')
    show ?thesis
    proof (cases "demote m")
      case None
      then show ?thesis using w by (simp add: demote_child_def Resident Interior)
    next
      case (Some r')
      then have "demote_child c = Resident r'" by (simp add: demote_child_def Resident Interior)
      then show ?thesis using IH [OF m Some] by (simp add: child_entries_def Resident)
    qed
  qed
qed

lemma demote_wf:
  "node_wf src cp sh h lo hi n \<Longrightarrow> persisted src n \<Longrightarrow> demote n = Some r \<Longrightarrow>
     node_wf src cp sh h lo hi r \<and> node_entries src r = node_entries src n"
proof (induction h arbitrary: lo hi n r)
  case 0
  then show ?case by (auto simp: node_wf_0)
next
  case (Suc h)
  then obtain p ks cs where n: "n = Interior p ks cs" "separated (child_wf src cp sh h) lo hi ks cs"
    "dirty p \<longrightarrow> p = NONE" "\<forall>k \<in> set ks. sep_fits cp k" "interior_payload cp ks \<le> cap_c cp"
    by (auto simp: node_wf_Suc)
  have r: "r = Interior p ks (map demote_child cs)" using Suc.prems(3) demote_Interior by (simp add: n(1))
  have step: "child_wf src cp sh h lo hi (demote_child c) \<and> child_entries src (demote_child c) = child_entries src c"
    if c: "c \<in> set cs" "child_wf src cp sh h lo hi c" for c lo hi
    by (rule demote_child_step [OF c(2) _ Suc.IH]) (use Suc.prems(2) c(1) in \<open>auto simp: n(1)\<close>)
  have "separated (child_wf src cp sh h) lo hi ks (map demote_child cs)"
    by (rule separated_map [OF n(2)]) (use step in blast)
  moreover have "map (child_entries src) (map demote_child cs) = map (child_entries src) cs"
  proof (rule nth_equalityI)
    fix i assume "i < length (map (child_entries src) (map demote_child cs))"
    then have i: "i < length cs" by simp
    then have "child_wf src cp sh h (range_lo lo ks i) (range_hi hi ks i) (cs ! i)"
      using separated_nth [OF n(2)] by blast
    then show "map (child_entries src) (map demote_child cs) ! i = map (child_entries src) cs ! i"
      using step [OF nth_mem [OF i]] i by simp
  qed simp
  ultimately show ?case using n(3-) by (simp add: r n(1) node_wf_Suc del: map_map)
qed

section \<open>Properties\<close>

text \<open>
  C23. The pull cursor refines the list of admitted records, forwards or backwards: pulling \<open>n\<close> times
  returns the first \<open>n\<close> of them (all, when there are fewer, and then the end), for \<open>next\<close> and for
  the row-only \<open>next_row\<close>; no pull panics or runs forever.
\<close>

theorem cursor_refines_scan:
  assumes "pmap_wf src cp sh m" "rs = (if reverse then rev else id) (bounded b (pmap_entries src m))"
  shows "\<exists>c' d'. pull (cursor_next pf src) n (range_cursor_of m b reverse) = Some (c', take n rs)
    \<and> pull (next_row pf src) n (range_cursor_of m b reverse) = Some (d', map snd (take n rs))
    \<and> (length rs \<le> n \<longrightarrow> (\<exists>c''. cursor_next pf src c' = Some (c'', Inr None)))"
proof -
  define c where "c = range_cursor_of m b reverse"
  have ok: "cursor_ok src cp sh c" and p: "cursor_pending src c = rs"
    using range_cursor_wf [OF assms(1), of b reverse] by (auto simp: c_def assms(2) in_direction_def)
  obtain c' where c': "pull (cursor_next pf src) n c = Some (c', take n rs)" "cursor_ok src cp sh c'"
    "cursor_pending src c' = drop n rs"
    using pairs.pull_pending [OF ok, of pf n] p by auto
  obtain d' where "pull (next_row pf src) n c = Some (d', map snd (take n rs))"
    using rows.pull_pending [OF ok, of pf n] p by (auto simp: take_map)
  moreover have "\<exists>c''. cursor_next pf src c' = Some (c'', Inr None)" if "length rs \<le> n"
    using pairs.exhausted [OF c'(2), of pf] c'(3) that by auto
  ultimately show ?thesis using c'(1) unfolding c_def by blast
qed

theorem cursor_refines_scan_witness:
  "\<exists>c'. pull (cursor_next True paged_source) 3 (range_cursor_of paged_map unbounded True)
     = Some (c', [([4], 40), ([3], 30), ([2], 20)])"
  using cursor_refines_scan [OF paged_map_wf(1) refl, where pf = True and n = 3 and b = unbounded and reverse = True]
  by (auto simp: paged_map_wf(2) bounded_def)

text \<open>
  The residency flip keeps the map: when the source has every clean leaf of the tree, replacing
  the resident clean leaves by their pages leaves the invariant, the contents and the row count.
\<close>

theorem demote_keeps_map:
  assumes "pmap_wf src cp sh m" "case root m of None \<Rightarrow> True | Some n \<Rightarrow> persisted src n"
  shows "pmap_wf src cp sh (demote_clean_leaves m)
    \<and> pmap_entries src (demote_clean_leaves m) = pmap_entries src m
    \<and> pm_count (demote_clean_leaves m) = pm_count m"
proof (cases "Option.bind (root m) demote")
  case None
  then have "demote_clean_leaves m = m"
    by (cases "root m") (auto simp: demote_clean_leaves_def split: option.splits)
  then show ?thesis using assms(1) by simp
next
  case (Some r)
  then obtain n where n: "root m = Some n" "demote n = Some r" by (cases "root m") auto
  obtain h where w: "node_wf src cp sh h None None n" using assms(1) n(1) by (auto simp: pmap_wf_def)
  have "demote_clean_leaves m = m\<lparr> root := Some r \<rparr>" by (simp add: demote_clean_leaves_def n)
  then show ?thesis
    using demote_wf [OF w _ n(2)] assms n(1) by (auto simp: pmap_wf_def pmap_entries_def split: option.splits)
qed

text \<open>The sample tree right after the commit that wrote its second leaf to page 5.\<close>

definition committed_map :: "nat pmap" where
  "committed_map = \<lparr> root = Some (Interior NONE [[3]]
     [Resident (new_leaf [[1], [2]] [10, 20] [1, 1]),
      Resident (Leaf \<lparr> pr_page = 5, pr_tag = [] \<rparr> (Decoded [[3], [4]] [30, 40] [1, 1]))]), pm_count = Some 4 \<rparr>"

lemma committed_map_wf:
  "pmap_wf paged_source tiny_cap index_shape committed_map"
  "pmap_entries paged_source committed_map = [([1], 10), ([2], 20), ([3], 30), ([4], 40)]"
proof -
  show e: "pmap_entries paged_source committed_map = [([1], 10), ([2], 20), ([3], 30), ([4], 40)]"
    by (simp add: pmap_entries_def committed_map_def child_entries_def new_leaf_def leaf_entries_def)
  have "node_wf paged_source tiny_cap index_shape (Suc 0) None None (the (root committed_map))"
    using sample_leaf_wf(1,3) by (simp add: node_wf_Suc committed_map_def new_leaf_def node_wf_0 sep_fits_def
        tiny_cap_def ptr_def interior_payload_def)
  then show "pmap_wf paged_source tiny_cap index_shape committed_map"
    using e by (auto simp: pmap_wf_def committed_map_def)
qed

lemma committed_map_demotes: "demote_clean_leaves committed_map = paged_map"
  unfolding demote_clean_leaves_def committed_map_def paged_map_def
  by (simp add: demote.simps(2) [of NONE "[[3]]"] new_leaf_def) (simp add: NONE_def)

lemma committed_map_persisted: "persisted paged_source (the (root committed_map))"
proof -
  have "persisted paged_source (new_leaf [[1], [2]] [10, 20] [1, 1])" by (simp add: new_leaf_def dirty_def NONE_def)
  moreover have "persisted paged_source (Leaf \<lparr> pr_page = 5, pr_tag = [] \<rparr> (Decoded [[3], [4]] [30, 40] [1, 1]))"
    unfolding persisted.simps paged_source_page by (auto simp: paged_leaf_def)
  ultimately show ?thesis by (auto simp: committed_map_def)
qed

theorem demote_keeps_map_witness:
  "demote_clean_leaves committed_map = paged_map
    \<and> pmap_entries paged_source (demote_clean_leaves committed_map) = [([1], 10), ([2], 20), ([3], 30), ([4], 40)]"
proof -
  have "root committed_map = Some (the (root committed_map))" by (simp add: committed_map_def)
  then have "case root committed_map of None \<Rightarrow> True | Some n \<Rightarrow> persisted paged_source n"
    using committed_map_persisted by (metis option.simps(5))
  from demote_keeps_map [OF committed_map_wf(1) this] show ?thesis
    by (simp add: committed_map_wf(2) committed_map_demotes)
qed

end
