(* ===== verification/Buffer_Pool.thy ===== *)
theory Buffer_Pool
  imports Prelude
begin

text \<open>
  The bounded page cache of \<open>impl/rust/src/bufferpool.rs\<close>: the CLOCK state, the single-flight loads
  that run outside its lock, and the operations that drop pages. A page id is a natural number
  and a cached value a type parameter. Each critical section under the pool mutex is one
  function; \<open>None\<close> is a panic. Shown here: the sweep ends and finds the CLOCK victim, and every
  operation keeps the index, the slots and the hand in agreement.
\<close>

section \<open>The CLOCK state\<close>

record 'v slot =
  sl_page :: nat
  sl_value :: 'v
  sl_referenced :: bool

record 'v pool_state =
  ps_capacity :: nat
  ps_slots :: "'v slot list"
  ps_index :: "nat \<rightharpoonup> nat"
  ps_hand :: nat
  ps_loading :: "nat \<rightharpoonup> nat"

definition pool_new :: "nat \<Rightarrow> 'v pool_state" where
  "pool_new capacity = \<lparr> ps_capacity = max capacity 1, ps_slots = [], ps_index = Map.empty,
     ps_hand = 0, ps_loading = Map.empty \<rparr>"

definition referenced_count :: "'v slot list \<Rightarrow> nat" where
  "referenced_count ss = length (filter sl_referenced ss)"

lemma referenced_clear:
  "i < length ss \<Longrightarrow> sl_referenced (ss ! i) \<Longrightarrow>
     Suc (referenced_count (ss[i := (ss ! i)\<lparr> sl_referenced := False \<rparr>])) = referenced_count ss"
proof (induction ss arbitrary: i)
  case (Cons s ss)
  then show ?case by (cases i) (auto simp: referenced_count_def)
qed simp

function evict_loop :: "'v slot list \<Rightarrow> nat \<Rightarrow> ('v slot list \<times> nat \<times> nat) option" where
  "evict_loop ss hand =
     (if hand < length ss then
        if sl_referenced (ss ! hand)
        then evict_loop (ss[hand := (ss ! hand)\<lparr> sl_referenced := False \<rparr>]) ((hand + 1) mod length ss)
        else Some (ss, (hand + 1) mod length ss, hand)
      else None)"
  by auto
termination
  by (relation "measure (\<lambda>(ss, hand). referenced_count ss)")
    (auto dest: referenced_clear [where i = hand and ss = ss for hand ss])

declare evict_loop.simps [simp del]

text \<open>\<open>None\<close>: the remainder by zero, or the index, panics. The hand has moved past the victim.\<close>

definition evict_slot :: "'v pool_state \<Rightarrow> ('v pool_state \<times> nat) option" where
  "evict_slot p = map_option (\<lambda>(ss, hand, i). (p\<lparr> ps_slots := ss, ps_hand := hand \<rparr>, i))
     (evict_loop (ps_slots p) (ps_hand p))"

definition pool_insert :: "nat \<Rightarrow> 'v \<Rightarrow> 'v pool_state \<Rightarrow> 'v pool_state option" where
  "pool_insert page v p =
     (let new = \<lparr> sl_page = page, sl_value = v, sl_referenced = False \<rparr> in
      if length (ps_slots p) < ps_capacity p
      then Some (p\<lparr> ps_index := (ps_index p)(page \<mapsto> length (ps_slots p)), ps_slots := ps_slots p @ [new] \<rparr>)
      else (case evict_slot p of
          None \<Rightarrow> None
        | Some (p, victim) \<Rightarrow>
            (case nth_opt (ps_slots p) victim of
               None \<Rightarrow> None
             | Some old \<Rightarrow> Some (p\<lparr> ps_index := ((ps_index p)(sl_page old := None))(page \<mapsto> victim),
                   ps_slots := (ps_slots p)[victim := new] \<rparr>))))"

definition swap :: "nat \<Rightarrow> nat \<Rightarrow> 'a list \<Rightarrow> 'a list" where
  "swap i j xs = xs[i := xs ! j, j := xs ! i]"

definition state_invalidate :: "nat \<Rightarrow> 'v pool_state \<Rightarrow> 'v pool_state option" where
  "state_invalidate page p =
     (case ps_index p page of
        None \<Rightarrow> Some p
      | Some i \<Rightarrow>
          if length (ps_slots p) = 0 \<or> length (ps_slots p) \<le> i then None
          else
            let p = p\<lparr> ps_index := (ps_index p)(page := None) \<rparr>;
                z = length (ps_slots p) - 1;
                p = (if i \<noteq> z
                     then let ss = swap i z (ps_slots p)
                          in p\<lparr> ps_slots := ss, ps_index := (ps_index p)(sl_page (ss ! i) \<mapsto> i) \<rparr>
                     else p);
                ss = butlast (ps_slots p)
            in Some (p\<lparr> ps_slots := ss, ps_hand := (if ss = [] then 0 else ps_hand p mod length ss) \<rparr>))"

text \<open>The shrinking loop; \<open>None\<close> is a panic or a loop that does not end.\<close>

partial_function (option) shrink :: "'v pool_state \<Rightarrow> 'v pool_state option" where
  "shrink p =
     (if ps_capacity p < length (ps_slots p)
      then Option.bind (evict_slot p) (\<lambda>(p, victim).
             Option.bind (nth_opt (ps_slots p) victim) (\<lambda>s.
               Option.bind (state_invalidate (sl_page s) p) shrink))
      else Some p)"

definition state_set_capacity :: "nat \<Rightarrow> 'v pool_state \<Rightarrow> 'v pool_state option" where
  "state_set_capacity capacity p = shrink (p\<lparr> ps_capacity := max capacity 1 \<rparr>)"

section \<open>The CLOCK sweep\<close>

lemma cycle_ne:
  assumes "hand < (n :: nat)" "j < n - 1"
  shows "(hand + Suc j) mod n \<noteq> hand"
proof
  assume e: "(hand + Suc j) mod n = hand"
  show False
  proof (cases "hand + Suc j < n")
    case True
    then show False using e by simp
  next
    case False
    then have "(hand + Suc j) mod n = hand + Suc j - n"
      using assms by (subst le_mod_geq) (simp_all add: mod_less)
    then show False using e assms(2) False by linarith
  qed
qed

lemma evict_loop_at:
  assumes "k < length ss" "hand < length ss"
    "\<forall>j < k. sl_referenced (ss ! ((hand + j) mod length ss))"
    "\<not> sl_referenced (ss ! ((hand + k) mod length ss))"
  shows "\<exists>ss'. evict_loop ss hand = Some (ss', (hand + k + 1) mod length ss, (hand + k) mod length ss)
    \<and> length ss' = length ss
    \<and> (\<forall>i < length ss. ss' ! i = (if \<exists>j < k. i = (hand + j) mod length ss
          then (ss ! i)\<lparr> sl_referenced := False \<rparr> else ss ! i))"
  using assms
proof (induction k arbitrary: ss hand)
  case 0
  then show ?case by (subst evict_loop.simps) simp
next
  case (Suc k)
  let ?n = "length ss"
  let ?h = "(hand + 1) mod ?n"
  let ?ss = "ss[hand := (ss ! hand)\<lparr> sl_referenced := False \<rparr>]"
  have n: "0 < ?n" "hand mod ?n = hand" using Suc.prems(2) by auto
  have sh: "(?h + j) mod ?n = (hand + Suc j) mod ?n" for j
    using mod_add_left_eq [of "hand + 1" ?n j] by simp
  have ne: "(hand + Suc j) mod ?n \<noteq> hand" if "j < ?n - 1" for j using cycle_ne [OF Suc.prems(2) that] .
  have h: "sl_referenced (ss ! hand)" using Suc.prems(3) n by force
  have "\<exists>ss'. evict_loop ?ss ?h = Some (ss', (?h + k + 1) mod length ?ss, (?h + k) mod length ?ss)
    \<and> length ss' = length ?ss
    \<and> (\<forall>i < length ?ss. ss' ! i = (if \<exists>j < k. i = (?h + j) mod length ?ss
          then (?ss ! i)\<lparr> sl_referenced := False \<rparr> else ?ss ! i))"
  proof (rule Suc.IH)
    show "\<forall>j < k. sl_referenced (?ss ! ((?h + j) mod length ?ss))"
    proof (intro allI impI)
      fix j assume "j < k"
      then have "sl_referenced (ss ! ((hand + Suc j) mod ?n))" "(hand + Suc j) mod ?n \<noteq> hand"
        using Suc.prems(1,3) ne [of j] by auto
      then show "sl_referenced (?ss ! ((?h + j) mod length ?ss))"
        unfolding length_list_update sh by (metis nth_list_update_neq)
    qed
    show "\<not> sl_referenced (?ss ! ((?h + k) mod length ?ss))"
    proof -
      have "(hand + Suc k) mod ?n \<noteq> hand" using ne [of k] Suc.prems(1) by simp
      then show ?thesis unfolding length_list_update sh using Suc.prems(4) by (metis nth_list_update_neq)
    qed
  qed (use Suc.prems(1) n(1) in simp_all)
  then obtain ss' where ss': "evict_loop ?ss ?h = Some (ss', (?h + k + 1) mod ?n, (?h + k) mod ?n)"
    "length ss' = ?n" "\<forall>i < ?n. ss' ! i = (if \<exists>j < k. i = (?h + j) mod ?n
          then (?ss ! i)\<lparr> sl_referenced := False \<rparr> else ?ss ! i)" by auto
  have "evict_loop ss hand = Some (ss', (hand + Suc k + 1) mod ?n, (hand + Suc k) mod ?n)"
    using ss'(1) sh [of "k + 1"] sh [of k] h Suc.prems(2) by (subst evict_loop.simps) simp
  moreover have "ss' ! i = (if \<exists>j < Suc k. i = (hand + j) mod ?n then (ss ! i)\<lparr> sl_referenced := False \<rparr> else ss ! i)"
    if "i < ?n" for i
  proof -
    have ex: "(\<exists>j < Suc k. i = (hand + j) mod ?n) \<longleftrightarrow> i = hand \<or> (\<exists>j < k. i = (?h + j) mod ?n)"
      unfolding sh Ex_less_Suc2 using n(2) by simp
    show ?thesis unfolding ex ss'(3) [rule_format, OF that] using that by (cases "i = hand") auto
  qed
  ultimately show ?case using ss'(2) by blast
qed


text \<open>The victim: the first unreferenced slot from the hand on, or the slot at the hand.\<close>

definition clock_victim :: "'v slot list \<Rightarrow> nat \<Rightarrow> nat" where
  "clock_victim ss hand =
     (case find (\<lambda>k. \<not> sl_referenced (ss ! ((hand + k) mod length ss))) [0..<length ss] of
        None \<Rightarrow> hand | Some k \<Rightarrow> (hand + k) mod length ss)"

definition unref :: "'v slot \<Rightarrow> nat \<times> 'v" where
  "unref s = (sl_page s, sl_value s)"

lemma unref_clear [simp]: "unref (s\<lparr> sl_referenced := r \<rparr>) = unref s"
  by (simp add: unref_def)

lemma evict_loop_spec:
  assumes "hand < length ss"
  shows "\<exists>ss'. evict_loop ss hand = Some (ss', (clock_victim ss hand + 1) mod length ss, clock_victim ss hand)
    \<and> map unref ss' = map unref ss \<and> clock_victim ss hand < length ss
    \<and> (\<forall>i < length ss. sl_referenced (ss' ! i) \<longrightarrow> sl_referenced (ss ! i))"
proof (cases "find (\<lambda>k. \<not> sl_referenced (ss ! ((hand + k) mod length ss))) [0..<length ss]")
  case None
  let ?n = "length ss"
  let ?ss = "ss[hand := (ss ! hand)\<lparr> sl_referenced := False \<rparr>]"
  have r: "sl_referenced (ss ! ((hand + k) mod ?n))" if "k < ?n" for k
    using None that by (simp add: find_None_iff)
  have n: "0 < ?n" using assms by linarith
  have h: "sl_referenced (ss ! hand)" using r [OF n] assms by simp
  let ?h = "(hand + 1) mod ?n"
  have sh: "(?h + j) mod ?n = (hand + Suc j) mod ?n" for j
    using mod_add_left_eq [of "hand + 1" ?n j] by simp
  have last: "(?h + (?n - 1)) mod ?n = hand"
  proof -
    have "hand + Suc (?n - 1) = hand + ?n" using n by simp
    then show ?thesis unfolding sh using assms by simp
  qed
  have all: "sl_referenced (ss ! i)" if "i < ?n" for i
  proof (cases "hand \<le> i")
    case True
    then show ?thesis using r [of "i - hand"] that by simp
  next
    case False
    then have "hand + (i + ?n - hand) = i + ?n" using assms by linarith
    then have "(hand + (i + ?n - hand)) mod ?n = i" using that by simp
    then show ?thesis using r [of "i + ?n - hand"] False that assms by simp
  qed
  have "\<exists>ss'. evict_loop ?ss ?h = Some (ss', (?h + (?n - 1) + 1) mod length ?ss, (?h + (?n - 1)) mod length ?ss)
    \<and> length ss' = length ?ss
    \<and> (\<forall>i < length ?ss. ss' ! i = (if \<exists>j < ?n - 1. i = (?h + j) mod length ?ss
          then (?ss ! i)\<lparr> sl_referenced := False \<rparr> else ?ss ! i))"
  proof (rule evict_loop_at)
    show "\<forall>j < ?n - 1. sl_referenced (?ss ! ((?h + j) mod length ?ss))"
    proof (intro allI impI)
      fix j assume j: "j < ?n - 1"
      have "sl_referenced (ss ! ((hand + Suc j) mod ?n))" by (rule r) (use j in simp)
      then show "sl_referenced (?ss ! ((?h + j) mod length ?ss))"
        unfolding length_list_update sh using cycle_ne [OF assms j] by (metis nth_list_update_neq)
    qed
    show "\<not> sl_referenced (?ss ! ((?h + (?n - 1)) mod length ?ss))"
      unfolding length_list_update last using assms by simp
  qed (use n in auto)
  then obtain ss' where ss': "evict_loop ?ss ?h = Some (ss', (?h + (?n - 1) + 1) mod ?n, hand)" "length ss' = ?n"
    "\<forall>i < ?n. ss' ! i = (if \<exists>j < ?n - 1. i = (?h + j) mod ?n then (?ss ! i)\<lparr> sl_referenced := False \<rparr> else ?ss ! i)"
    unfolding length_list_update last by blast
  have "?h + (?n - 1) + 1 = ?h + ?n" using n by linarith
  then have "(?h + (?n - 1) + 1) mod ?n = (hand + 1) mod ?n" by (simp only: mod_add_self2 mod_mod_trivial)
  then have "evict_loop ss hand = Some (ss', (hand + 1) mod ?n, hand)"
    using ss'(1) h assms by (subst evict_loop.simps) simp
  moreover have "map unref ss' = map unref ss"
  proof (rule nth_equalityI)
    fix i assume "i < length (map unref ss')"
    then show "map unref ss' ! i = map unref ss ! i" using ss'(2,3) by (cases "i = hand") auto
  qed (use ss'(2) in simp)
  moreover have "clock_victim ss hand = hand" by (simp add: clock_victim_def None)
  ultimately show ?thesis using assms all by simp
next
  case (Some k)
  then have k: "k < length ss" "\<not> sl_referenced (ss ! ((hand + k) mod length ss))"
    "\<forall>j < k. sl_referenced (ss ! ((hand + j) mod length ss))"
    by (auto simp: find_Some_iff)
  from evict_loop_at [OF k(1) assms k(3,2)] obtain ss' where ss':
    "evict_loop ss hand = Some (ss', (hand + k + 1) mod length ss, (hand + k) mod length ss)"
    "length ss' = length ss"
    "\<forall>i < length ss. ss' ! i = (if \<exists>j < k. i = (hand + j) mod length ss
          then (ss ! i)\<lparr> sl_referenced := False \<rparr> else ss ! i)" by blast
  have v: "clock_victim ss hand = (hand + k) mod length ss" by (simp add: clock_victim_def Some)
  have "map unref ss' = map unref ss"
    by (rule nth_equalityI) (use ss'(2,3) in auto)
  moreover have "((hand + k) mod length ss + 1) mod length ss = (hand + k + 1) mod length ss"
    by (simp add: mod_Suc_eq)
  moreover have "\<forall>i < length ss. sl_referenced (ss' ! i) \<longrightarrow> sl_referenced (ss ! i)" using ss'(3) by auto
  moreover have "(hand + k) mod length ss < length ss" using assms by (intro mod_less_divisor) linarith
  ultimately show ?thesis using ss'(1) unfolding v by auto
qed

section \<open>The pool as a bounded map\<close>

text \<open>
  The shape: the index names exactly the slots, the hand is on a slot (or the pool is empty).
\<close>

definition pool_shape :: "'v pool_state \<Rightarrow> bool" where
  "pool_shape p \<longleftrightarrow>
     (\<forall>page i. ps_index p page = Some i \<longleftrightarrow> i < length (ps_slots p) \<and> sl_page (ps_slots p ! i) = page)
     \<and> (if ps_slots p = [] then ps_hand p = 0 else ps_hand p < length (ps_slots p))
     \<and> 1 \<le> ps_capacity p"

definition pool_lookup :: "'v pool_state \<Rightarrow> nat \<rightharpoonup> 'v" where
  "pool_lookup p page = map_option (\<lambda>i. sl_value (ps_slots p ! i)) (ps_index p page)"

lemma shapeD:
  assumes "pool_shape p"
  shows "ps_index p page = Some i \<longleftrightarrow> i < length (ps_slots p) \<and> sl_page (ps_slots p ! i) = page"
    and "ps_slots p \<noteq> [] \<Longrightarrow> ps_hand p < length (ps_slots p)" and "1 \<le> ps_capacity p"
  using assms by (auto simp: pool_shape_def split: if_splits)

lemma shape_inj:
  assumes "pool_shape p" "i < length (ps_slots p)" "j < length (ps_slots p)"
    "sl_page (ps_slots p ! i) = sl_page (ps_slots p ! j)"
  shows "i = j"
proof -
  have "ps_index p (sl_page (ps_slots p ! i)) = Some i" "ps_index p (sl_page (ps_slots p ! i)) = Some j"
    using shapeD(1) [OF assms(1)] assms(2-) by auto
  then show ?thesis by simp
qed

lemma unref_nth:
  assumes "map unref ss = map unref ss'" "i < length ss"
  shows "sl_page (ss ! i) = sl_page (ss' ! i) \<and> sl_value (ss ! i) = sl_value (ss' ! i)"
proof -
  have "length ss = length ss'" using assms(1) map_eq_imp_length_eq by blast
  then have "unref (ss ! i) = unref (ss' ! i)" using assms by (metis nth_map)
  then show ?thesis by (simp add: unref_def)
qed

lemma lookup_iff:
  assumes "pool_shape p"
  shows "pool_lookup p q = Some v \<longleftrightarrow>
    (\<exists>j < length (ps_slots p). sl_page (ps_slots p ! j) = q \<and> sl_value (ps_slots p ! j) = v)"
  using shapeD(1) [OF assms, of q] by (auto simp: pool_lookup_def)

lemma evict_slot_wf:
  assumes "pool_shape p" "ps_slots p \<noteq> []"
  obtains p' v where "evict_slot p = Some (p', v)" "pool_shape p'" "pool_lookup p' = pool_lookup p"
    "length (ps_slots p') = length (ps_slots p)" "v < length (ps_slots p)"
    "ps_index p' = ps_index p" "ps_capacity p' = ps_capacity p" "ps_loading p' = ps_loading p"
    "v = clock_victim (ps_slots p) (ps_hand p)"
proof -
  let ?v = "clock_victim (ps_slots p) (ps_hand p)"
  obtain ss' where ss': "evict_loop (ps_slots p) (ps_hand p) = Some (ss', (?v + 1) mod length (ps_slots p), ?v)"
    "map unref ss' = map unref (ps_slots p)" "?v < length (ps_slots p)"
    using evict_loop_spec [OF shapeD(2) [OF assms]] by blast
  have len: "length ss' = length (ps_slots p)" using ss'(2) map_eq_imp_length_eq by blast
  let ?p = "p\<lparr> ps_slots := ss', ps_hand := (?v + 1) mod length (ps_slots p) \<rparr>"
  have u: "sl_page (ss' ! i) = sl_page (ps_slots p ! i) \<and> sl_value (ss' ! i) = sl_value (ps_slots p ! i)"
    if "i < length (ps_slots p)" for i using unref_nth [OF ss'(2)] that len by simp
  have "ss' \<noteq> []" using len assms(2) by auto
  moreover have "(?v + 1) mod length (ps_slots p) < length (ps_slots p)" using assms(2) by simp
  ultimately have "pool_shape ?p"
    using shapeD(1,3) [OF assms(1)] u len unfolding pool_shape_def by auto
  moreover have "pool_lookup ?p = pool_lookup p"
  proof
    fix page
    show "pool_lookup ?p page = pool_lookup p page"
      using u shapeD(1) [OF assms(1), of page] by (cases "ps_index p page") (auto simp: pool_lookup_def)
  qed
  ultimately show ?thesis using that [of ?p ?v] ss'(1,3) len by (simp add: evict_slot_def)
qed

lemma state_invalidate_wf:
  assumes s: "pool_shape p"
  obtains p' where "state_invalidate page p = Some p'" "pool_shape p'"
    "pool_lookup p' = (pool_lookup p)(page := None)"
    "length (ps_slots p') = length (ps_slots p) - of_bool (ps_index p page \<noteq> None)"
    "ps_capacity p' = ps_capacity p" "ps_loading p' = ps_loading p"
proof (cases "ps_index p page")
  case None
  then have "(pool_lookup p)(page := None) = pool_lookup p" by (auto simp: pool_lookup_def)
  then show ?thesis using that [of p] s None by (simp add: state_invalidate_def)
next
  case (Some i)
  let ?ss = "ps_slots p"
  define n where "n = length ?ss"
  have i: "i < n" "sl_page (?ss ! i) = page" using shapeD(1) [OF s] Some by (auto simp: n_def)
  define ss where "ss = butlast (if i \<noteq> n - 1 then swap i (n - 1) ?ss else ?ss)"
  define ix where "ix = (if i \<noteq> n - 1 then ((ps_index p)(page := None))(sl_page (?ss ! (n - 1)) \<mapsto> i)
      else (ps_index p)(page := None))"
  define p' where "p' = p\<lparr> ps_index := ix, ps_slots := ss, ps_hand := (if ss = [] then 0 else ps_hand p mod length ss) \<rparr>"
  have len: "length ss = n - 1" by (simp add: ss_def swap_def n_def)
  have nth: "ss ! j = (if j = i then ?ss ! (n - 1) else ?ss ! j)" if "j < n - 1" for j
    using that i(1) by (auto simp: ss_def nth_butlast swap_def nth_list_update n_def)
  have ne: "?ss \<noteq> []" using i(1) by (auto simp: n_def)
  have inv: "state_invalidate page p = Some p'"
    using Some i(1) ne
    by (auto simp: state_invalidate_def p'_def ix_def ss_def n_def Let_def swap_def nth_list_update)
  have idx: "ix q = Some j \<longleftrightarrow> j < n - 1 \<and> sl_page (ss ! j) = q" for q j
  proof (cases "i = n - 1")
    case True
    have "ix q = Some j \<longleftrightarrow> q \<noteq> page \<and> j < n \<and> sl_page (?ss ! j) = q"
      using True shapeD(1) [OF s] by (auto simp: ix_def n_def)
    also have "\<dots> \<longleftrightarrow> j < n - 1 \<and> sl_page (ss ! j) = q"
    proof
      assume a: "q \<noteq> page \<and> j < n \<and> sl_page (?ss ! j) = q"
      then have "j \<noteq> n - 1" using i(2) True by auto
      then show "j < n - 1 \<and> sl_page (ss ! j) = q" using a nth [of j] True by auto
    next
      assume a: "j < n - 1 \<and> sl_page (ss ! j) = q"
      then have q: "sl_page (?ss ! j) = q" using nth [of j] True by simp
      have "q \<noteq> page" using shape_inj [OF s, of i j] i a q True by (auto simp: n_def)
      then show "q \<noteq> page \<and> j < n \<and> sl_page (?ss ! j) = q" using a q by linarith
    qed
    finally show ?thesis .
  next
    case False
    let ?q = "sl_page (?ss ! (n - 1))"
    have lt: "n - 1 < n" "i < n - 1" using i(1) False by auto
    have qp: "?q \<noteq> page" using shape_inj [OF s, of i "n - 1"] i lt by (auto simp: n_def)
    show ?thesis
    proof (cases "q = ?q")
      case True
      have "j = i" if "j < n - 1" "sl_page (ss ! j) = ?q"
        using that nth [of j] shape_inj [OF s, of j "n - 1"] lt by (auto simp: n_def split: if_splits)
      then show ?thesis using True False nth [of i] lt(2) by (auto simp: ix_def)
    next
      case qn: False
      then have "ix q = Some j \<longleftrightarrow> q \<noteq> page \<and> j < n \<and> sl_page (?ss ! j) = q"
        using False shapeD(1) [OF s] by (auto simp: ix_def n_def)
      also have "\<dots> \<longleftrightarrow> j < n - 1 \<and> sl_page (ss ! j) = q"
      proof
        assume a: "q \<noteq> page \<and> j < n \<and> sl_page (?ss ! j) = q"
        then have "j \<noteq> n - 1" "j \<noteq> i" using i(2) qn by auto
        then show "j < n - 1 \<and> sl_page (ss ! j) = q" using a nth [of j] by auto
      next
        assume a: "j < n - 1 \<and> sl_page (ss ! j) = q"
        then have q: "j \<noteq> i" "sl_page (?ss ! j) = q" using nth [of j] qn by (auto split: if_splits)
        have "j < n" using a by linarith
        then have "q \<noteq> page" using shape_inj [OF s, of i j] i q by (auto simp: n_def)
        then show "q \<noteq> page \<and> j < n \<and> sl_page (?ss ! j) = q" using a q by linarith
      qed
      finally show ?thesis .
    qed
  qed
  have sh': "pool_shape p'"
  proof -
    have "ps_hand p mod length ss < length ss" if "ss \<noteq> []" using that by simp
    then show ?thesis using idx len shapeD(3) [OF s] unfolding pool_shape_def by (simp add: p'_def)
  qed
  have "pool_lookup p' q = Some v \<longleftrightarrow> ((pool_lookup p)(page := None)) q = Some v" for q v
  proof -
    have "pool_lookup p' q = Some v \<longleftrightarrow> (\<exists>j < n - 1. sl_page (ss ! j) = q \<and> sl_value (ss ! j) = v)"
      using lookup_iff [OF sh'] len by (simp add: p'_def)
    also have "\<dots> \<longleftrightarrow> q \<noteq> page \<and> (\<exists>j < n. sl_page (?ss ! j) = q \<and> sl_value (?ss ! j) = v)"
    proof (intro iffI conjI notI; (elim exE conjE)?)
      fix j assume j: "j < n - 1" "sl_page (ss ! j) = q" "sl_value (ss ! j) = v"
      show "\<exists>j < n. sl_page (?ss ! j) = q \<and> sl_value (?ss ! j) = v"
        using j nth [OF j(1)] i(1) by (cases "j = i") (auto intro: exI [of _ "n - 1"] exI [of _ j])
      assume "q = page"
      moreover have "ix q = Some j" using idx j by blast
      moreover have "ix page = None"
        using shape_inj [OF s, of i "n - 1"] i by (auto simp: ix_def n_def)
      ultimately show False by simp
    next
      fix j assume q: "q \<noteq> page" and j: "j < n" "sl_page (?ss ! j) = q" "sl_value (?ss ! j) = v"
      then have "j \<noteq> i" using i(2) by auto
      show "\<exists>j < n - 1. sl_page (ss ! j) = q \<and> sl_value (ss ! j) = v"
      proof (cases "j = n - 1")
        case True
        then have "i < n - 1" using i(1) \<open>j \<noteq> i\<close> by linarith
        then show ?thesis using nth [of i] j True by auto
      next
        case False
        then have "j < n - 1" using j(1) by linarith
        then show ?thesis using nth [of j] j \<open>j \<noteq> i\<close> by auto
      qed
    qed
    also have "\<dots> \<longleftrightarrow> ((pool_lookup p)(page := None)) q = Some v"
      using lookup_iff [OF s, of q v] by (simp add: n_def)
    finally show ?thesis .
  qed
  then have "pool_lookup p' q = ((pool_lookup p)(page := None)) q" for q
    by (metis not_Some_eq)
  then have lk: "pool_lookup p' = (pool_lookup p)(page := None)" by (rule ext)
  show ?thesis
    by (rule that [OF inv sh' lk]) (use len Some in \<open>auto simp: p'_def n_def\<close>)
qed

lemma pool_insert_wf:
  assumes s: "pool_shape p" and l: "length (ps_slots p) \<le> ps_capacity p" and f: "ps_index p page = None"
  obtains p' where "pool_insert page v p = Some p'" "pool_shape p'" "length (ps_slots p') \<le> ps_capacity p'"
    "pool_lookup p' page = Some v" "\<forall>q. q \<noteq> page \<longrightarrow> pool_lookup p' q = None \<or> pool_lookup p' q = pool_lookup p q"
    "ps_capacity p' = ps_capacity p" "ps_loading p' = ps_loading p"
proof -
  let ?new = "\<lparr> sl_page = page, sl_value = v, sl_referenced = False \<rparr>"
  have fresh: "sl_page (ps_slots p ! j) \<noteq> page" if "j < length (ps_slots p)" for j
    using shapeD(1) [OF s, of page] f that by auto
  show ?thesis
  proof (cases "length (ps_slots p) < ps_capacity p")
    case True
    let ?p = "p\<lparr> ps_index := (ps_index p)(page \<mapsto> length (ps_slots p)), ps_slots := ps_slots p @ [?new] \<rparr>"
    have "(ps_index ?p q = Some j) = (j < length (ps_slots ?p) \<and> sl_page (ps_slots ?p ! j) = q)" for q j
      using shapeD(1) [OF s, of q j] fresh [of j] by (auto simp: nth_append less_Suc_eq)
    then have sh: "pool_shape ?p" using shapeD(2,3) [OF s] s unfolding pool_shape_def by (auto split: if_splits)
    have "pool_lookup ?p q = pool_lookup p q" if "q \<noteq> page" for q
      using that shapeD(1) [OF s, of q] by (cases "ps_index p q") (auto simp: pool_lookup_def nth_append)
    then show ?thesis using that [of ?p] True sh by (simp add: pool_insert_def pool_lookup_def)
  next
    case False
    then have ne: "ps_slots p \<noteq> []" using shapeD(3) [OF s] by auto
    obtain p1 w where e: "evict_slot p = Some (p1, w)" "pool_shape p1" "pool_lookup p1 = pool_lookup p"
      "length (ps_slots p1) = length (ps_slots p)" "w < length (ps_slots p)" "ps_index p1 = ps_index p"
      "ps_capacity p1 = ps_capacity p" "ps_loading p1 = ps_loading p"
      by (rule evict_slot_wf [OF s ne])
    let ?o = "sl_page (ps_slots p1 ! w)"
    let ?p = "p1\<lparr> ps_index := ((ps_index p1)(?o := None))(page \<mapsto> w), ps_slots := (ps_slots p1)[w := ?new] \<rparr>"
    have w: "w < length (ps_slots p1)" using e(4,5) by simp
    have fresh1: "sl_page (ps_slots p1 ! j) \<noteq> page" if "j < length (ps_slots p1)" for j
      using shapeD(1) [OF e(2), of page] f e(6) that by auto
    have "(ps_index ?p q = Some j) = (j < length (ps_slots ?p) \<and> sl_page (ps_slots ?p ! j) = q)" for q j
    proof (cases "q = page")
      case True
      then show ?thesis using w fresh1 [of j] by (auto simp: nth_list_update)
    next
      case qp: False
      show ?thesis
      proof (cases "j = w")
        case True
        then show ?thesis using qp w shapeD(1) [OF e(2), of q w] by auto
      next
        case False
        then show ?thesis using qp w shapeD(1) [OF e(2), of q j] shape_inj [OF e(2) w, of j]
          by (auto simp: nth_list_update)
      qed
    qed
    moreover have "ps_slots ?p \<noteq> []" "ps_hand ?p < length (ps_slots ?p)"
    proof -
      have "ps_slots p1 \<noteq> []" using w by auto
      then show "ps_slots ?p \<noteq> []" "ps_hand ?p < length (ps_slots ?p)" using shapeD(2) [OF e(2)] by auto
    qed
    ultimately have sh: "pool_shape ?p" using shapeD(3) [OF e(2)] unfolding pool_shape_def by simp
    have "pool_lookup ?p q = None \<or> pool_lookup ?p q = pool_lookup p q" if "q \<noteq> page" for q
    proof (cases "ps_index p1 q")
      case None
      then show ?thesis using that by (simp add: pool_lookup_def)
    next
      case (Some j)
      then have "sl_page (ps_slots p1 ! j) = q" using shapeD(1) [OF e(2), of q j] by simp
      then show ?thesis using that Some unfolding e(3) [symmetric]
        by (cases "j = w") (auto simp: pool_lookup_def)
    qed
    moreover have "pool_lookup ?p page = Some v" using w by (simp add: pool_lookup_def)
    moreover have "pool_insert page v p = Some ?p" using False e(1) w by (simp add: pool_insert_def)
    ultimately show ?thesis using that [of ?p] sh l e(4,7,8) by auto
  qed
qed

lemma shrink_wf:
  "pool_shape p \<Longrightarrow> \<exists>p'. shrink p = Some p' \<and> pool_shape p' \<and> length (ps_slots p') \<le> ps_capacity p'
     \<and> (\<forall>q. pool_lookup p' q = None \<or> pool_lookup p' q = pool_lookup p q)
     \<and> ps_capacity p' = ps_capacity p \<and> ps_loading p' = ps_loading p"
proof (induction "length (ps_slots p)" arbitrary: p rule: less_induct)
  case less
  show ?case
  proof (cases "ps_capacity p < length (ps_slots p)")
    case True
    then have ne: "ps_slots p \<noteq> []" by auto
    obtain p1 w where e: "evict_slot p = Some (p1, w)" "pool_shape p1" "pool_lookup p1 = pool_lookup p"
      "length (ps_slots p1) = length (ps_slots p)" "w < length (ps_slots p)" "ps_index p1 = ps_index p"
      "ps_capacity p1 = ps_capacity p" "ps_loading p1 = ps_loading p"
      by (rule evict_slot_wf [OF less.prems ne])
    let ?o = "sl_page (ps_slots p1 ! w)"
    have o: "ps_index p1 ?o = Some w" using shapeD(1) [OF e(2)] e(4,5) by simp
    obtain p2 where i: "state_invalidate ?o p1 = Some p2" "pool_shape p2" "pool_lookup p2 = (pool_lookup p1)(?o := None)"
      "length (ps_slots p2) = length (ps_slots p1) - of_bool (ps_index p1 ?o \<noteq> None)"
      "ps_capacity p2 = ps_capacity p1" "ps_loading p2 = ps_loading p1"
      by (rule state_invalidate_wf [OF e(2)])
    have "length (ps_slots p2) < length (ps_slots p)" using i(4) e(4,5) o by simp
    from less.hyps [OF this i(2)] obtain p' where p': "shrink p2 = Some p'" "pool_shape p'"
      "length (ps_slots p') \<le> ps_capacity p'" "\<forall>q. pool_lookup p' q = None \<or> pool_lookup p' q = pool_lookup p2 q"
      "ps_capacity p' = ps_capacity p2" "ps_loading p' = ps_loading p2" by blast
    have "shrink p = Some p'" using True e(1,4,5) i(1) p'(1) by (subst shrink.simps) simp
    moreover have "pool_lookup p' q = None \<or> pool_lookup p' q = pool_lookup p q" for q
      using p'(4) i(3) e(3) by (metis fun_upd_apply)
    ultimately show ?thesis using p'(2,3,5,6) i(5,6) e(7,8) by simp
  next
    case False
    then have "shrink p = Some p" by (subst shrink.simps) simp
    then show ?thesis using less.prems False by auto
  qed
qed

end
