(* ===== verification/Pool_Flights.thy ===== *)
theory Pool_Flights
  imports Buffer_Pool
begin

text \<open>
  Concurrent use of the page cache: the two critical sections of \<open>get_or_load\<close> with the load between
  them, followers of a load in flight, and commits that rewrite a page and invalidate it. The
  interleavings are a step relation; the invariants are shown for every reachable state. At the
  end the faulting and read-ahead entry points of \<open>paging.rs\<close>.
\<close>

section \<open>Single-flight loads\<close>

record 'v load_flight =
  fl_result :: "'v result option"
  fl_invalidated :: bool

definition load_flight_new :: "'v load_flight" where
  "load_flight_new = \<lparr> fl_result = None, fl_invalidated = False \<rparr>"

definition flight_wait :: "'v load_flight \<Rightarrow> 'v result option" where
  "flight_wait f = fl_result f"

definition flight_complete :: "'v result \<Rightarrow> 'v load_flight \<Rightarrow> 'v load_flight" where
  "flight_complete r f = f\<lparr> fl_result := Some r \<rparr>"

definition flight_invalidate :: "'v load_flight \<Rightarrow> 'v load_flight" where
  "flight_invalidate f = f\<lparr> fl_invalidated := True \<rparr>"

text \<open>The flights are heap cells: \<open>ps_loading\<close> and the callers hold their addresses.\<close>

record 'v buffer_pool =
  bp_state :: "'v pool_state"
  bp_flights :: "nat \<Rightarrow> 'v load_flight"
  bp_next :: nat

definition buffer_pool_new :: "nat \<Rightarrow> 'v buffer_pool" where
  "buffer_pool_new capacity =
     \<lparr> bp_state = pool_new capacity, bp_flights = (\<lambda>_. load_flight_new), bp_next = 0 \<rparr>"

datatype 'v entry = Hit 'v | Follow nat | Lead nat

definition get_enter :: "nat \<Rightarrow> 'v buffer_pool \<Rightarrow> ('v buffer_pool \<times> 'v entry) option" where
  "get_enter page bp =
     (let st = bp_state bp in
      case ps_index st page of
        Some i \<Rightarrow>
          (case nth_opt (ps_slots st) i of
             None \<Rightarrow> None
           | Some s \<Rightarrow> Some (bp\<lparr> bp_state := st\<lparr> ps_slots := (ps_slots st)[i := s\<lparr> sl_referenced := True \<rparr>] \<rparr> \<rparr>,
               Hit (sl_value s)))
      | None \<Rightarrow>
          (case ps_loading st page of
             Some f \<Rightarrow> Some (bp, Follow f)
           | None \<Rightarrow>
               let f = bp_next bp in
               Some (\<lparr> bp_state = st\<lparr> ps_loading := (ps_loading st)(page \<mapsto> f) \<rparr>,
                       bp_flights = (bp_flights bp)(f := load_flight_new), bp_next = f + 1 \<rparr>, Lead f)))"

definition get_publish :: "nat \<Rightarrow> nat \<Rightarrow> 'v result \<Rightarrow> 'v buffer_pool \<Rightarrow> 'v buffer_pool option" where
  "get_publish page f result bp =
     (let st = bp_state bp; is_current = (ps_loading st page = Some f) in
      case (if fl_invalidated (bp_flights bp f) then Some st
            else case result of Inr v \<Rightarrow> pool_insert page v st | Inl _ \<Rightarrow> Some st) of
        None \<Rightarrow> None
      | Some st \<Rightarrow> Some (bp\<lparr>
          bp_state := (if is_current then st\<lparr> ps_loading := (ps_loading st)(page := None) \<rparr> else st),
          bp_flights := (bp_flights bp)(f := flight_complete result (bp_flights bp f)) \<rparr>))"

definition bp_contains :: "nat \<Rightarrow> 'v buffer_pool \<Rightarrow> bool" where
  "bp_contains page bp \<longleftrightarrow> ps_index (bp_state bp) page \<noteq> None \<or> ps_loading (bp_state bp) page \<noteq> None"

definition bp_resident :: "'v buffer_pool \<Rightarrow> nat" where
  "bp_resident bp = length (ps_slots (bp_state bp))"

definition bp_set_capacity :: "nat \<Rightarrow> 'v buffer_pool \<Rightarrow> 'v buffer_pool option" where
  "bp_set_capacity capacity bp =
     map_option (\<lambda>st. bp\<lparr> bp_state := st \<rparr>) (state_set_capacity capacity (bp_state bp))"

definition bp_invalidate :: "nat \<Rightarrow> 'v buffer_pool \<Rightarrow> 'v buffer_pool option" where
  "bp_invalidate page bp =
     (case state_invalidate page (bp_state bp) of
        None \<Rightarrow> None
      | Some st \<Rightarrow>
          (case ps_loading st page of
             None \<Rightarrow> Some (bp\<lparr> bp_state := st \<rparr>)
           | Some f \<Rightarrow> Some (bp\<lparr> bp_state := st\<lparr> ps_loading := (ps_loading st)(page := None) \<rparr>,
               bp_flights := (bp_flights bp)(f := flight_invalidate (bp_flights bp f)) \<rparr>)))"

definition bp_invalidate_all :: "'v buffer_pool \<Rightarrow> 'v buffer_pool" where
  "bp_invalidate_all bp =
     (let st = bp_state bp in bp\<lparr>
        bp_state := st\<lparr> ps_slots := [], ps_index := Map.empty, ps_hand := 0, ps_loading := Map.empty \<rparr>,
        bp_flights := (\<lambda>f. if f \<in> ran (ps_loading st) then flight_invalidate (bp_flights bp f)
                           else bp_flights bp f) \<rparr>)"

section \<open>Callers, commits and invalidations\<close>

text \<open>
  A call of \<open>get_or_load\<close> between its critical sections. The flag of a call is a ghost: the page
  was not awaiting invalidation when the call began and has not been rewritten since.
\<close>

datatype 'v phase =
    Leading nat nat
  | Loaded nat nat "'v result"
  | Waiting nat nat
  | Returned nat "'v result"

fun phase_page :: "'v phase \<Rightarrow> nat" where
  "phase_page (Leading p f) = p"
| "phase_page (Loaded p f r) = p"
| "phase_page (Waiting p f) = p"
| "phase_page (Returned p r) = p"

fun entry_phase :: "nat \<Rightarrow> 'v entry \<Rightarrow> 'v phase" where
  "entry_phase page (Hit v) = Returned page (Inr v)"
| "entry_phase page (Follow f) = Waiting page f"
| "entry_phase page (Lead f) = Leading page f"

record 'v sys =
  sy_pool :: "'v buffer_pool"
  sy_disk :: "nat \<Rightarrow> 'v"
  sy_stale :: "nat set"
  sy_calls :: "nat \<rightharpoonup> 'v phase \<times> bool"

definition rewritten :: "nat \<Rightarrow> (nat \<rightharpoonup> 'v phase \<times> bool) \<Rightarrow> (nat \<rightharpoonup> 'v phase \<times> bool)" where
  "rewritten page calls = (\<lambda>t. map_option (\<lambda>(ph, fr). (ph, fr \<and> phase_page ph \<noteq> page)) (calls t))"

inductive step :: "'v sys \<Rightarrow> 'v sys \<Rightarrow> bool" where
  call: "sy_calls s t = None \<Longrightarrow> get_enter page (sy_pool s) = Some (bp, e) \<Longrightarrow>
    step s (s\<lparr> sy_pool := bp, sy_calls := (sy_calls s)(t \<mapsto> (entry_phase page e, page \<notin> sy_stale s)) \<rparr>)"
| read: "sy_calls s t = Some (Leading page f, fr) \<Longrightarrow> r = Inr (sy_disk s page) \<or> (\<exists>e. r = Inl e) \<Longrightarrow>
    step s (s\<lparr> sy_calls := (sy_calls s)(t \<mapsto> (Loaded page f r, fr)) \<rparr>)"
| publish: "sy_calls s t = Some (Loaded page f r, fr) \<Longrightarrow> get_publish page f r (sy_pool s) = Some bp \<Longrightarrow>
    step s (s\<lparr> sy_pool := bp, sy_calls := (sy_calls s)(t \<mapsto> (Returned page r, fr)) \<rparr>)"
| wake: "sy_calls s t = Some (Waiting page f, fr) \<Longrightarrow> flight_wait (bp_flights (sy_pool s) f) = Some r \<Longrightarrow>
    step s (s\<lparr> sy_calls := (sy_calls s)(t \<mapsto> (Returned page r, fr)) \<rparr>)"
| return: "sy_calls s t = Some (Returned page r, fr) \<Longrightarrow> step s (s\<lparr> sy_calls := (sy_calls s)(t := None) \<rparr>)"
| commit_write: "step s (s\<lparr> sy_disk := (sy_disk s)(page := v), sy_stale := insert page (sy_stale s),
    sy_calls := rewritten page (sy_calls s) \<rparr>)"
| invalidate: "bp_invalidate page (sy_pool s) = Some bp \<Longrightarrow>
    step s (s\<lparr> sy_pool := bp, sy_stale := sy_stale s - {page} \<rparr>)"
| invalidate_all: "step s (s\<lparr> sy_pool := bp_invalidate_all (sy_pool s), sy_stale := {} \<rparr>)"
| set_capacity: "bp_set_capacity n (sy_pool s) = Some bp \<Longrightarrow> step s (s\<lparr> sy_pool := bp \<rparr>)"

definition sys_init :: "nat \<Rightarrow> (nat \<Rightarrow> 'v) \<Rightarrow> 'v sys" where
  "sys_init capacity disk = \<lparr> sy_pool = buffer_pool_new capacity, sy_disk = disk, sy_stale = {},
     sy_calls = Map.empty \<rparr>"

inductive reachable :: "nat \<Rightarrow> (nat \<Rightarrow> 'v) \<Rightarrow> 'v sys \<Rightarrow> bool" for capacity disk where
  init: "reachable capacity disk (sys_init capacity disk)"
| more: "reachable capacity disk s \<Longrightarrow> step s s' \<Longrightarrow> reachable capacity disk s'"

section \<open>The invariant\<close>

definition leads :: "'v sys \<Rightarrow> nat \<Rightarrow> nat \<Rightarrow> nat \<Rightarrow> bool" where
  "leads s t p f \<longleftrightarrow> (\<exists>fr. sy_calls s t = Some (Leading p f, fr) \<or> (\<exists>r. sy_calls s t = Some (Loaded p f r, fr)))"

abbreviation pstate :: "'v sys \<Rightarrow> 'v pool_state" where "pstate s \<equiv> bp_state (sy_pool s)"
abbreviation flight :: "'v sys \<Rightarrow> nat \<Rightarrow> 'v load_flight" where "flight s \<equiv> bp_flights (sy_pool s)"

definition pool_ok :: "'v sys \<Rightarrow> bool" where
  "pool_ok s \<longleftrightarrow> pool_shape (pstate s) \<and> length (ps_slots (pstate s)) \<le> ps_capacity (pstate s)"

definition cache_ok :: "'v sys \<Rightarrow> bool" where
  "cache_ok s \<longleftrightarrow> (\<forall>p v. pool_lookup (pstate s) p = Some v \<longrightarrow> p \<notin> sy_stale s \<longrightarrow> v = sy_disk s p)"

definition loading_ok :: "'v sys \<Rightarrow> bool" where
  "loading_ok s \<longleftrightarrow> (\<forall>p f. ps_loading (pstate s) p = Some f \<longrightarrow>
     f < bp_next (sy_pool s) \<and> \<not> fl_invalidated (flight s f) \<and> fl_result (flight s f) = None
     \<and> ps_index (pstate s) p = None \<and> (\<exists>t. leads s t p f))"

definition leaders_ok :: "'v sys \<Rightarrow> bool" where
  "leaders_ok s \<longleftrightarrow> (\<forall>t p f. leads s t p f \<longrightarrow> f < bp_next (sy_pool s) \<and> fl_result (flight s f) = None
     \<and> (\<not> fl_invalidated (flight s f) \<longrightarrow> ps_loading (pstate s) p = Some f))"

definition single_leader :: "'v sys \<Rightarrow> bool" where
  "single_leader s \<longleftrightarrow> (\<forall>t t' p p' f. leads s t p f \<longrightarrow> leads s t' p' f \<longrightarrow> t = t' \<and> p = p')"

definition waiters_ok :: "'v sys \<Rightarrow> bool" where
  "waiters_ok s \<longleftrightarrow> (\<forall>t p f fr. sy_calls s t = Some (Waiting p f, fr) \<longrightarrow> f < bp_next (sy_pool s)
     \<and> (fl_result (flight s f) = None \<longrightarrow> (\<exists>t'. leads s t' p f)))"

definition loaded_ok :: "'v sys \<Rightarrow> bool" where
  "loaded_ok s \<longleftrightarrow> (\<forall>t p f v fr. sy_calls s t = Some (Loaded p f (Inr v), fr) \<longrightarrow>
     fr \<or> p \<notin> sy_stale s \<and> ps_loading (pstate s) p = Some f \<longrightarrow> v = sy_disk s p)"

definition joined_ok :: "'v sys \<Rightarrow> bool" where
  "joined_ok s \<longleftrightarrow> (\<forall>t t' p f v fr. sy_calls s t = Some (Loaded p f (Inr v), fr) \<longrightarrow>
     sy_calls s t' = Some (Waiting p f, True) \<longrightarrow> v = sy_disk s p)"

definition published_ok :: "'v sys \<Rightarrow> bool" where
  "published_ok s \<longleftrightarrow> (\<forall>t p f v. sy_calls s t = Some (Waiting p f, True) \<longrightarrow>
     fl_result (flight s f) = Some (Inr v) \<longrightarrow> v = sy_disk s p)"

definition returned_ok :: "'v sys \<Rightarrow> bool" where
  "returned_ok s \<longleftrightarrow> (\<forall>t p v. sy_calls s t = Some (Returned p (Inr v), True) \<longrightarrow> v = sy_disk s p)"

lemma get_enter_cases:
  assumes s: "pool_shape (bp_state bp)"
  obtains (hit) bp' v where "get_enter page bp = Some (bp', Hit v)" "pool_lookup (bp_state bp) page = Some v"
      "pool_shape (bp_state bp')" "pool_lookup (bp_state bp') = pool_lookup (bp_state bp)"
      "length (ps_slots (bp_state bp')) = length (ps_slots (bp_state bp))"
      "ps_index (bp_state bp') = ps_index (bp_state bp)" "ps_loading (bp_state bp') = ps_loading (bp_state bp)"
      "ps_capacity (bp_state bp') = ps_capacity (bp_state bp)" "bp_flights bp' = bp_flights bp" "bp_next bp' = bp_next bp"
    | (follow) f where "get_enter page bp = Some (bp, Follow f)" "ps_loading (bp_state bp) page = Some f"
    | (lead) "get_enter page bp = Some (\<lparr> bp_state = (bp_state bp)\<lparr> ps_loading := (ps_loading (bp_state bp))(page \<mapsto> bp_next bp) \<rparr>,
          bp_flights = (bp_flights bp)(bp_next bp := load_flight_new), bp_next = bp_next bp + 1 \<rparr>, Lead (bp_next bp))"
      "ps_index (bp_state bp) page = None" "ps_loading (bp_state bp) page = None"
proof (cases "ps_index (bp_state bp) page")
  case None
  show ?thesis
  proof (cases "ps_loading (bp_state bp) page")
    case None': None
    then show ?thesis using that(3) None by (simp add: get_enter_def Let_def)
  next
    case (Some f)
    then show ?thesis using that(2) None by (simp add: get_enter_def Let_def)
  qed
next
  case (Some i)
  let ?st = "bp_state bp"
  have i: "i < length (ps_slots ?st)" using shapeD(1) [OF s] Some by simp
  let ?st' = "?st\<lparr> ps_slots := (ps_slots ?st)[i := (ps_slots ?st ! i)\<lparr> sl_referenced := True \<rparr>] \<rparr>"
  have pg: "sl_page (ps_slots ?st' ! j) = sl_page (ps_slots ?st ! j)" "sl_value (ps_slots ?st' ! j) = sl_value (ps_slots ?st ! j)"
    if "j < length (ps_slots ?st)" for j using that by (cases "j = i"; simp)+
  have sh: "pool_shape ?st'" using s pg unfolding pool_shape_def by auto
  have lk: "pool_lookup ?st' = pool_lookup ?st"
  proof
    fix q
    show "pool_lookup ?st' q = pool_lookup ?st q"
      using pg shapeD(1) [OF s, of q] by (cases "ps_index ?st q") (auto simp: pool_lookup_def)
  qed
  have e: "get_enter page bp = Some (bp\<lparr> bp_state := ?st' \<rparr>, Hit (sl_value (ps_slots ?st ! i)))"
    using Some i by (simp add: get_enter_def Let_def)
  show ?thesis
    by (rule that(1) [OF e]) (use sh lk Some in \<open>auto simp: pool_lookup_def\<close>)
qed

fun phase_leads :: "'v phase \<Rightarrow> nat \<Rightarrow> nat \<Rightarrow> bool" where
  "phase_leads (Leading p f) p' f' \<longleftrightarrow> p = p' \<and> f = f'"
| "phase_leads (Loaded p f r) p' f' \<longleftrightarrow> p = p' \<and> f = f'"
| "phase_leads (Waiting p f) p' f' \<longleftrightarrow> False"
| "phase_leads (Returned p r) p' f' \<longleftrightarrow> False"

lemma leads_iff: "leads s t p f \<longleftrightarrow> (\<exists>ph fr. sy_calls s t = Some (ph, fr) \<and> phase_leads ph p f)"
proof -
  have "phase_leads ph p f \<longleftrightarrow> ph = Leading p f \<or> (\<exists>r. ph = Loaded p f r)" for ph :: "'a phase"
    by (cases ph) auto
  then show ?thesis unfolding leads_def by auto
qed

lemma leads_update:
  "leads (s\<lparr> sy_calls := (sy_calls s)(t \<mapsto> (ph, fr)) \<rparr>) t' p f
     \<longleftrightarrow> (if t' = t then phase_leads ph p f else leads s t' p f)"
  "leads (s\<lparr> sy_pool := bp, sy_calls := (sy_calls s)(t \<mapsto> (ph, fr)) \<rparr>) t' p f
     \<longleftrightarrow> (if t' = t then phase_leads ph p f else leads s t' p f)"
  "leads (s\<lparr> sy_calls := (sy_calls s)(t := None) \<rparr>) t' p f \<longleftrightarrow> t' \<noteq> t \<and> leads s t' p f"
  "leads (s\<lparr> sy_pool := bp \<rparr>) t' p f \<longleftrightarrow> leads s t' p f"
  "leads (s\<lparr> sy_pool := bp, sy_stale := S \<rparr>) t' p f \<longleftrightarrow> leads s t' p f"
  "leads (s\<lparr> sy_disk := d, sy_stale := S, sy_calls := rewritten q (sy_calls s) \<rparr>) t' p f \<longleftrightarrow> leads s t' p f"
  by (auto simp: leads_iff rewritten_def)

definition sys_inv :: "'v sys \<Rightarrow> bool" where
  "sys_inv s \<longleftrightarrow> pool_ok s \<and> cache_ok s \<and> loading_ok s \<and> leaders_ok s \<and> single_leader s \<and> waiters_ok s
     \<and> loaded_ok s \<and> joined_ok s \<and> published_ok s \<and> returned_ok s"

lemma sys_invD:
  assumes "sys_inv s"
  shows "pool_ok s" "cache_ok s" "loading_ok s" "leaders_ok s" "single_leader s" "waiters_ok s"
    "loaded_ok s" "joined_ok s" "published_ok s" "returned_ok s"
  using assms by (simp_all add: sys_inv_def)

lemma sys_invI:
  assumes "pool_ok s" "cache_ok s" "loading_ok s" "leaders_ok s" "single_leader s" "waiters_ok s"
    "loaded_ok s" "joined_ok s" "published_ok s" "returned_ok s"
  shows "sys_inv s"
  using assms by (simp add: sys_inv_def)

lemma inv_init: "sys_inv (sys_init capacity disk)"
  by (auto simp: sys_inv_def sys_init_def pool_ok_def cache_ok_def loading_ok_def leaders_ok_def single_leader_def
      waiters_ok_def loaded_ok_def joined_ok_def published_ok_def returned_ok_def
      leads_def buffer_pool_new_def pool_new_def pool_shape_def pool_lookup_def)

text \<open>
  A step of one call that leaves the pool alone: the leaders stay, and only that call's own
  values have to be checked.
\<close>

lemma inv_local:
  assumes i: "sys_inv s" and s': "s' = s\<lparr> sy_calls := (sy_calls s)(t := c) \<rparr>"
    and l: "\<And>p f. leads s' t p f \<longleftrightarrow> leads s t p f"
    and w: "\<And>p f fr. c \<noteq> Some (Waiting p f, fr)"
    and ld: "\<And>p f v fr. c = Some (Loaded p f (Inr v), fr) \<Longrightarrow> v = sy_disk s p"
    and rt: "\<And>p v. c = Some (Returned p (Inr v), True) \<Longrightarrow> v = sy_disk s p"
  shows "sys_inv s'"
proof -
  have ls: "leads s' t' p f \<longleftrightarrow> leads s t' p f" for t' p f
    using l by (cases "t' = t") (auto simp: leads_iff s')
  note d = sys_invD [OF i]
  show ?thesis
  proof (rule sys_invI)
    show "pool_ok s'" "cache_ok s'" using d(1,2) by (auto simp: s' pool_ok_def cache_ok_def)
    show "loading_ok s'" using d(3) unfolding loading_ok_def ls by (simp add: s')
    show "leaders_ok s'" using d(4) unfolding leaders_ok_def ls by (simp add: s')
    show "single_leader s'" using d(5) unfolding single_leader_def ls .
    show "waiters_ok s'" using d(6) w unfolding waiters_ok_def ls by (auto simp: s')
    show "loaded_ok s'" using d(7) ld unfolding loaded_ok_def by (auto simp: s')
    show "joined_ok s'" using d(8) ld w unfolding joined_ok_def by (auto simp: s')
    show "published_ok s'" using d(9) w unfolding published_ok_def by (auto simp: s')
    show "returned_ok s'" using d(10) rt unfolding returned_ok_def by (auto simp: s')
  qed
qed

lemma inv_read:
  assumes "sys_inv s" "sy_calls s t = Some (Leading page f, fr)" "r = Inr (sy_disk s page) \<or> (\<exists>e. r = Inl e)"
  shows "sys_inv (s\<lparr> sy_calls := (sy_calls s)(t \<mapsto> (Loaded page f r, fr)) \<rparr>)"
  by (rule inv_local [OF assms(1) refl]) (use assms(2,3) in \<open>auto simp: leads_iff\<close>)

lemma inv_return:
  assumes "sys_inv s" "sy_calls s t = Some (Returned page r, fr)"
  shows "sys_inv (s\<lparr> sy_calls := (sy_calls s)(t := None) \<rparr>)"
  by (rule inv_local [OF assms(1) refl]) (use assms(2) in \<open>auto simp: leads_iff\<close>)

lemma inv_wake:
  assumes "sys_inv s" "sy_calls s t = Some (Waiting page f, fr)" "flight_wait (flight s f) = Some r"
  shows "sys_inv (s\<lparr> sy_calls := (sy_calls s)(t \<mapsto> (Returned page r, fr)) \<rparr>)"
proof (rule inv_local [OF assms(1) refl])
  show "v = sy_disk s p" if "Some (Returned page r, fr) = Some (Returned p (Inr v), True)" for p v
    using sys_invD(9) [OF assms(1)] assms(2,3) that by (auto simp: published_ok_def flight_wait_def)
qed (use assms(2) in \<open>auto simp: leads_iff\<close>)

lemma inv_commit_write:
  assumes "sys_inv s"
  shows "sys_inv (s\<lparr> sy_disk := (sy_disk s)(page := v), sy_stale := insert page (sy_stale s),
    sy_calls := rewritten page (sy_calls s) \<rparr>)" (is "sys_inv ?s")
proof -
  have c: "sy_calls ?s t = Some (ph, fr) \<longleftrightarrow>
      (\<exists>fr'. sy_calls s t = Some (ph, fr') \<and> fr = (fr' \<and> phase_page ph \<noteq> page))" for t ph fr
    by (auto simp: rewritten_def)
  note d = sys_invD [OF assms]
  show ?thesis
  proof (rule sys_invI)
    show "pool_ok ?s" "cache_ok ?s" using d(1,2) by (auto simp: pool_ok_def cache_ok_def)
    show "loading_ok ?s" using d(3) unfolding loading_ok_def leads_update by simp
    show "leaders_ok ?s" using d(4) unfolding leaders_ok_def leads_update by simp
    show "single_leader ?s" using d(5) unfolding single_leader_def leads_update .
    show "waiters_ok ?s" using d(6) unfolding waiters_ok_def leads_update c by auto
    show "loaded_ok ?s" using d(7) unfolding loaded_ok_def c by auto
    show "joined_ok ?s" using d(8) unfolding joined_ok_def c by fastforce
    show "published_ok ?s" using d(9) unfolding published_ok_def c by fastforce
    show "returned_ok ?s" using d(10) unfolding returned_ok_def c by auto
  qed
qed

lemma lookup_None_iff: "pool_lookup p q = None \<longleftrightarrow> ps_index p q = None"
  by (simp add: pool_lookup_def)

text \<open>A pool operation that only drops pages and detaches loads.\<close>

lemma inv_drop:
  assumes i: "sys_inv s" and s': "s' = s\<lparr> sy_pool := bp, sy_stale := S \<rparr>"
    and sh: "pool_shape (bp_state bp)" "length (ps_slots (bp_state bp)) \<le> ps_capacity (bp_state bp)"
    and lk: "\<And>p v. pool_lookup (bp_state bp) p = Some v \<Longrightarrow> pool_lookup (pstate s) p = Some v \<and> (p \<in> sy_stale s \<longrightarrow> p \<in> S)"
    and ld: "\<And>p f. ps_loading (bp_state bp) p = Some f \<Longrightarrow> ps_loading (pstate s) p = Some f
        \<and> \<not> fl_invalidated (bp_flights bp f) \<and> (p \<in> sy_stale s \<longrightarrow> p \<in> S)"
    and fl: "\<And>f. fl_result (bp_flights bp f) = fl_result (flight s f)" "bp_next bp = bp_next (sy_pool s)"
      "\<And>p f. \<not> fl_invalidated (bp_flights bp f) \<Longrightarrow> \<not> fl_invalidated (flight s f)"
      "\<And>p f. ps_loading (pstate s) p = Some f \<Longrightarrow> \<not> fl_invalidated (bp_flights bp f) \<Longrightarrow> ps_loading (bp_state bp) p = Some f"
  shows "sys_inv s'"
proof -
  note d = sys_invD [OF i]
  have ls: "leads s' t p f \<longleftrightarrow> leads s t p f" for t p f unfolding s' leads_update ..
  show ?thesis
  proof (rule sys_invI)
    show "pool_ok s'" using sh by (simp add: s' pool_ok_def)
    show "cache_ok s'" using d(2) lk unfolding cache_ok_def by (auto simp: s')
    show "loading_ok s'"
      unfolding loading_ok_def ls
    proof (intro allI impI)
      fix p f assume "ps_loading (pstate s') p = Some f"
      then have p: "ps_loading (pstate s) p = Some f" "\<not> fl_invalidated (bp_flights bp f)" using ld by (auto simp: s')
      then have o: "f < bp_next (sy_pool s)" "fl_result (flight s f) = None" "ps_index (pstate s) p = None" "\<exists>t. leads s t p f"
        using d(3) unfolding loading_ok_def by blast+
      then have "pool_lookup (bp_state bp) p = None" using lk [of p] by (cases "pool_lookup (bp_state bp) p") (auto simp: pool_lookup_def)
      then show "f < bp_next (sy_pool s') \<and> \<not> fl_invalidated (flight s' f) \<and> fl_result (flight s' f) = None
          \<and> ps_index (pstate s') p = None \<and> (\<exists>t. leads s t p f)"
        using o p fl by (simp add: s' lookup_None_iff)
    qed
    show "leaders_ok s'" using d(4) fl unfolding leaders_ok_def ls by (auto simp: s')
    show "single_leader s'" using d(5) unfolding single_leader_def ls .
    show "waiters_ok s'" using d(6) fl unfolding waiters_ok_def ls by (simp add: s')
    show "loaded_ok s'" using d(7) ld unfolding loaded_ok_def s' by (simp; blast)
    show "joined_ok s'" using d(8) unfolding joined_ok_def by (simp add: s')
    show "published_ok s'" using d(9) fl unfolding published_ok_def by (simp add: s')
    show "returned_ok s'" using d(10) unfolding returned_ok_def by (simp add: s')
  qed
qed

lemma inv_shape: "sys_inv s \<Longrightarrow> pool_shape (pstate s)" "sys_inv s \<Longrightarrow> length (ps_slots (pstate s)) \<le> ps_capacity (pstate s)"
  by (auto simp: sys_inv_def pool_ok_def)

text \<open>A page being loaded names its flight alone.\<close>

lemma loading_inj:
  assumes "sys_inv s" "ps_loading (pstate s) p = Some f" "ps_loading (pstate s) q = Some f"
  shows "p = q"
  using sys_invD(3,5) [OF assms(1)] assms(2,3) unfolding loading_ok_def single_leader_def by blast

lemma inv_set_capacity:
  assumes "sys_inv s" "bp_set_capacity n (sy_pool s) = Some bp"
  shows "sys_inv (s\<lparr> sy_pool := bp \<rparr>)"
proof -
  let ?p = "(pstate s)\<lparr> ps_capacity := max n 1 \<rparr>"
  have lk: "pool_lookup ?p = pool_lookup (pstate s)" by (intro ext) (simp add: pool_lookup_def)
  have "pool_shape ?p" using inv_shape(1) [OF assms(1)] by (simp add: pool_shape_def)
  from shrink_wf [OF this] obtain st where st: "shrink ?p = Some st" "pool_shape st"
    "length (ps_slots st) \<le> ps_capacity st" "\<And>q. pool_lookup st q = None \<or> pool_lookup st q = pool_lookup (pstate s) q"
    "ps_loading st = ps_loading (pstate s)" unfolding lk by auto
  have bp: "bp = (sy_pool s)\<lparr> bp_state := st \<rparr>"
    using assms(2) st(1) by (simp add: bp_set_capacity_def state_set_capacity_def)
  show ?thesis
  proof (rule inv_drop [OF assms(1), where S = "sy_stale s" and bp = bp])
    show "pool_lookup (pstate s) p = Some v \<and> (p \<in> sy_stale s \<longrightarrow> p \<in> sy_stale s)"
      if "pool_lookup (bp_state bp) p = Some v" for p v using st(4) [of p] that by (simp add: bp)
    show "ps_loading (pstate s) p = Some f \<and> \<not> fl_invalidated (bp_flights bp f) \<and> (p \<in> sy_stale s \<longrightarrow> p \<in> sy_stale s)"
      if "ps_loading (bp_state bp) p = Some f" for p f
      using that st(5) sys_invD(3) [OF assms(1)] by (simp add: bp loading_ok_def)
  qed (use st in \<open>auto simp: bp\<close>)
qed

lemma inv_invalidate:
  assumes "sys_inv s" "bp_invalidate page (sy_pool s) = Some bp"
  shows "sys_inv (s\<lparr> sy_pool := bp, sy_stale := sy_stale s - {page} \<rparr>)"
proof -
  obtain st where st: "state_invalidate page (pstate s) = Some st" "pool_shape st"
    "pool_lookup st = (pool_lookup (pstate s))(page := None)"
    "length (ps_slots st) = length (ps_slots (pstate s)) - of_bool (ps_index (pstate s) page \<noteq> None)"
    "ps_capacity st = ps_capacity (pstate s)" "ps_loading st = ps_loading (pstate s)"
    by (rule state_invalidate_wf [OF inv_shape(1) [OF assms(1)]])
  have len: "length (ps_slots st) \<le> ps_capacity st" using st(4,5) inv_shape(2) [OF assms(1)] by simp
  have nf: "\<not> fl_invalidated (flight s f)" if "ps_loading (pstate s) p = Some f" for p f
    using sys_invD(3) [OF assms(1)] that by (simp add: loading_ok_def)
  show ?thesis
  proof (cases "ps_loading (pstate s) page")
    case None
    then have bp: "bp = (sy_pool s)\<lparr> bp_state := st \<rparr>" using assms(2) st(1,6) by (simp add: bp_invalidate_def)
    show ?thesis
      by (rule inv_drop [OF assms(1) refl]) (use st len None nf in \<open>auto simp: bp split: if_splits\<close>)
  next
    case (Some f)
    then have bp: "bp = (sy_pool s)\<lparr> bp_state := st\<lparr> ps_loading := (ps_loading st)(page := None) \<rparr>,
        bp_flights := (flight s)(f := flight_invalidate (flight s f)) \<rparr>"
      using assms(2) st(1,6) by (simp add: bp_invalidate_def)
    have ne: "f' \<noteq> f" if "ps_loading (pstate s) p = Some f'" "p \<noteq> page" for p f'
      using loading_inj [OF assms(1)] that Some by blast
    have lk: "pool_lookup (bp_state bp) = pool_lookup st" by (intro ext) (simp add: bp pool_lookup_def)
    have sh: "pool_shape (bp_state bp)" using st(2) by (simp add: bp pool_shape_def)
    show ?thesis
    proof (rule inv_drop [OF assms(1) refl sh])
      show "length (ps_slots (bp_state bp)) \<le> ps_capacity (bp_state bp)" using len by (simp add: bp)
      show "pool_lookup (pstate s) p = Some v \<and> (p \<in> sy_stale s \<longrightarrow> p \<in> sy_stale s - {page})"
        if "pool_lookup (bp_state bp) p = Some v" for p v using that st(3) by (auto simp: lk split: if_splits)
      show "ps_loading (pstate s) p = Some g \<and> \<not> fl_invalidated (bp_flights bp g) \<and> (p \<in> sy_stale s \<longrightarrow> p \<in> sy_stale s - {page})"
        if "ps_loading (bp_state bp) p = Some g" for p g
        using that st(6) ne [of p g] nf [of p g] by (auto simp: bp split: if_splits)
      show "ps_loading (bp_state bp) p = Some g" if "ps_loading (pstate s) p = Some g" "\<not> fl_invalidated (bp_flights bp g)" for p g
        using that st(6) Some by (auto simp: bp flight_invalidate_def split: if_splits)
    qed (auto simp: bp flight_invalidate_def split: if_splits)
  qed
qed

lemma inv_invalidate_all:
  assumes "sys_inv s"
  shows "sys_inv (s\<lparr> sy_pool := bp_invalidate_all (sy_pool s), sy_stale := {} \<rparr>)"
proof (rule inv_drop [OF assms refl])
  show "pool_shape (bp_state (bp_invalidate_all (sy_pool s)))"
    using shapeD(3) [OF inv_shape(1) [OF assms]] by (simp add: bp_invalidate_all_def Let_def pool_shape_def)
  show "ps_loading (bp_state (bp_invalidate_all (sy_pool s))) p = Some f"
    if "ps_loading (pstate s) p = Some f" "\<not> fl_invalidated (bp_flights (bp_invalidate_all (sy_pool s)) f)" for p f
    using that by (auto simp: bp_invalidate_all_def Let_def flight_invalidate_def ran_def split: if_splits)
qed (auto simp: bp_invalidate_all_def Let_def flight_invalidate_def pool_lookup_def split: if_splits)

lemma inv_publish_total:
  assumes i: "sys_inv s" and c: "sy_calls s t = Some (Loaded page f r, fr)"
  obtains st where "get_publish page f r (sy_pool s) = Some ((sy_pool s)\<lparr> bp_state := st,
      bp_flights := (flight s)(f := flight_complete r (flight s f)) \<rparr>)"
    "pool_shape st" "length (ps_slots st) \<le> ps_capacity st"
    "\<And>q. pool_lookup st q = None \<or> pool_lookup st q = pool_lookup (pstate s) q
       \<or> q = page \<and> ps_loading (pstate s) page = Some f \<and> (\<exists>v. r = Inr v \<and> pool_lookup st q = Some v)"
    "ps_loading st = (if ps_loading (pstate s) page = Some f then (ps_loading (pstate s))(page := None) else ps_loading (pstate s))"
proof (cases "fl_invalidated (flight s f)")
  case True
  then have n: "ps_loading (pstate s) page \<noteq> Some f" using sys_invD(3) [OF i] by (auto simp: loading_ok_def)
  show ?thesis
    by (rule that [of "pstate s"]) (use True n inv_shape [OF i] in \<open>auto simp: get_publish_def Let_def\<close>)
next
  case False
  have "leads s t page f" using c by (auto simp: leads_def)
  then have l: "ps_loading (pstate s) page = Some f" using sys_invD(4) [OF i] False by (auto simp: leaders_ok_def)
  then have ix: "ps_index (pstate s) page = None" using sys_invD(3) [OF i] by (auto simp: loading_ok_def)
  have sh0: "pool_shape (st\<lparr> ps_loading := L \<rparr>) = pool_shape st" "pool_lookup (st\<lparr> ps_loading := L \<rparr>) = pool_lookup st"
    for st :: "'a pool_state" and L by (auto simp: pool_shape_def pool_lookup_def [abs_def])
  show ?thesis
  proof (cases r)
    case (Inl e)
    show ?thesis
      by (rule that [of "(pstate s)\<lparr> ps_loading := (ps_loading (pstate s))(page := None) \<rparr>"])
        (use False l Inl inv_shape [OF i] in \<open>auto simp: get_publish_def Let_def sh0\<close>)
  next
    case (Inr v)
    obtain st where st: "pool_insert page v (pstate s) = Some st" "pool_shape st" "length (ps_slots st) \<le> ps_capacity st"
      "pool_lookup st page = Some v" "\<forall>q. q \<noteq> page \<longrightarrow> pool_lookup st q = None \<or> pool_lookup st q = pool_lookup (pstate s) q"
      "ps_capacity st = ps_capacity (pstate s)" "ps_loading st = ps_loading (pstate s)"
      by (rule pool_insert_wf [where v = v, OF inv_shape [OF i] ix])
    let ?st = "st\<lparr> ps_loading := (ps_loading st)(page := None) \<rparr>"
    show ?thesis
    proof (rule that [of ?st])
      show "get_publish page f r (sy_pool s) = Some ((sy_pool s)\<lparr> bp_state := ?st,
          bp_flights := (flight s)(f := flight_complete r (flight s f)) \<rparr>)"
        using False l Inr st(1,7) by (simp add: get_publish_def Let_def)
      show "pool_lookup ?st q = None \<or> pool_lookup ?st q = pool_lookup (pstate s) q
         \<or> q = page \<and> ps_loading (pstate s) page = Some f \<and> (\<exists>v. r = Inr v \<and> pool_lookup ?st q = Some v)" for q
        unfolding sh0 using st(4,5) l Inr by (cases "q = page") auto
    qed (use st l in \<open>auto simp: sh0\<close>)
  qed
qed

lemma inv_publish:
  assumes i: "sys_inv s" and c: "sy_calls s t = Some (Loaded page f r, fr)"
    and p: "get_publish page f r (sy_pool s) = Some bp"
  shows "sys_inv (s\<lparr> sy_pool := bp, sy_calls := (sy_calls s)(t \<mapsto> (Returned page r, fr)) \<rparr>)" (is "sys_inv ?s")
proof -
  obtain st where bp: "bp = (sy_pool s)\<lparr> bp_state := st, bp_flights := (flight s)(f := flight_complete r (flight s f)) \<rparr>"
    and st: "pool_shape st" "length (ps_slots st) \<le> ps_capacity st"
    "\<And>q. pool_lookup st q = None \<or> pool_lookup st q = pool_lookup (pstate s) q
       \<or> q = page \<and> ps_loading (pstate s) page = Some f \<and> (\<exists>v. r = Inr v \<and> pool_lookup st q = Some v)"
    "ps_loading st = (if ps_loading (pstate s) page = Some f then (ps_loading (pstate s))(page := None) else ps_loading (pstate s))"
    using inv_publish_total [OF i c] p by (metis option.inject)
  note d = sys_invD [OF i]
  have lt: "leads s t page f" using c by (auto simp: leads_def)
  have own: "t' = t \<and> q = page" if "leads s t' q f" for t' q using d(5) lt that unfolding single_leader_def by blast
  have ls: "leads ?s t' q g \<longleftrightarrow> t' \<noteq> t \<and> leads s t' q g" for t' q g unfolding leads_update by simp
  have ne: "g \<noteq> f" if "leads ?s t' q g" for t' q g using that own unfolding ls by blast
  have fl: "flight ?s g = (if g = f then flight_complete r (flight s f) else flight s g)" for g by (simp add: bp)
  have cur: "v = sy_disk s page" if "r = Inr v" "fr \<or> page \<notin> sy_stale s \<and> ps_loading (pstate s) page = Some f" for v
    using d(7) c that unfolding loaded_ok_def by blast
  show ?thesis
  proof (rule sys_invI)
    show "pool_ok ?s" using st by (simp add: pool_ok_def bp)
    show "cache_ok ?s"
      unfolding cache_ok_def
    proof (intro allI impI)
      fix q v assume q: "pool_lookup (pstate ?s) q = Some v" "q \<notin> sy_stale ?s"
      from st(3) [of q] show "v = sy_disk ?s q"
        using q d(2) cur unfolding cache_ok_def by (auto simp: bp)
    qed
    have lo: "ps_loading (pstate s) q = Some g \<and> g \<noteq> f \<and> q \<noteq> page \<or> ps_loading (pstate s) q = Some g \<and> g \<noteq> f"
      if "ps_loading st q = Some g" for q g
    proof -
      have l: "ps_loading (pstate s) q = Some g" using that st(4) by (auto split: if_splits)
      have "g \<noteq> f"
      proof
        assume g: "g = f"
        then have "\<exists>t'. leads s t' q f" using d(3) l unfolding loading_ok_def by blast
        then have "q = page" using own by blast
        then show False using that st(4) l g by simp
      qed
      then show ?thesis using l by blast
    qed
    show "loading_ok ?s"
      unfolding loading_ok_def
    proof (intro allI impI)
      fix q g assume "ps_loading (pstate ?s) q = Some g"
      then have a: "ps_loading st q = Some g" by (simp add: bp)
      then have l: "ps_loading (pstate s) q = Some g" "g \<noteq> f" using lo by blast+
      then have o: "g < bp_next (sy_pool s)" "\<not> fl_invalidated (flight s g)" "fl_result (flight s g) = None"
        "ps_index (pstate s) q = None" "\<exists>t'. leads s t' q g" using d(3) unfolding loading_ok_def by blast+
      obtain t' where t': "leads s t' q g" using o(5) by blast
      have "t' \<noteq> t" using t' l(2) c by (auto simp: leads_iff)
      moreover have "pool_lookup st q = None"
        using st(3) [of q] o(4) a st(4) l by (auto simp: pool_lookup_def split: if_splits)
      ultimately show "g < bp_next (sy_pool ?s) \<and> \<not> fl_invalidated (flight ?s g) \<and> fl_result (flight ?s g) = None
          \<and> ps_index (pstate ?s) q = None \<and> (\<exists>t. leads ?s t q g)"
        using o(1-3) t' l(2) unfolding ls fl by (auto simp: bp lookup_None_iff)
    qed
    show "leaders_ok ?s"
      unfolding leaders_ok_def
    proof (intro allI impI)
      fix t' q g assume a: "leads ?s t' q g"
      then have g: "g \<noteq> f" "leads s t' q g" using ne by (auto simp: ls)
      then have o: "g < bp_next (sy_pool s)" "fl_result (flight s g) = None"
        "\<not> fl_invalidated (flight s g) \<Longrightarrow> ps_loading (pstate s) q = Some g" using d(4) unfolding leaders_ok_def by blast+
      then show "g < bp_next (sy_pool ?s) \<and> fl_result (flight ?s g) = None
          \<and> (\<not> fl_invalidated (flight ?s g) \<longrightarrow> ps_loading (pstate ?s) q = Some g)"
        using g(1) st(4) unfolding fl by (cases "fl_invalidated (flight s g)") (auto simp: bp)
    qed
    show "single_leader ?s" using d(5) unfolding single_leader_def ls by blast
    show "waiters_ok ?s"
      unfolding waiters_ok_def
    proof (intro allI impI)
      fix t' q g fr' assume "sy_calls ?s t' = Some (Waiting q g, fr')"
      then have w: "sy_calls s t' = Some (Waiting q g, fr')" by (auto split: if_splits)
      then have o: "g < bp_next (sy_pool s)" "fl_result (flight s g) = None \<Longrightarrow> \<exists>t'. leads s t' q g"
        using d(6) unfolding waiters_ok_def by blast+
      have "\<exists>u. leads ?s u q g" if "fl_result (flight ?s g) = None"
      proof -
        have "g \<noteq> f" "fl_result (flight s g) = None" using that unfolding fl by (auto simp: flight_complete_def split: if_splits)
        then obtain u where "leads s u q g" using o(2) by blast
        moreover have "u \<noteq> t" using calculation \<open>g \<noteq> f\<close> c by (auto simp: leads_iff)
        ultimately show ?thesis unfolding ls by blast
      qed
      then show "g < bp_next (sy_pool ?s) \<and> (fl_result (flight ?s g) = None \<longrightarrow> (\<exists>u. leads ?s u q g))"
        using o(1) by (simp add: bp)
    qed
    show "loaded_ok ?s"
      unfolding loaded_ok_def
    proof (intro allI impI)
      fix t' q g v fr' assume a: "sy_calls ?s t' = Some (Loaded q g (Inr v), fr')"
        "fr' \<or> q \<notin> sy_stale ?s \<and> ps_loading (pstate ?s) q = Some g"
      then have "sy_calls s t' = Some (Loaded q g (Inr v), fr')" by (auto split: if_splits)
      moreover have "fr' \<or> q \<notin> sy_stale s \<and> ps_loading (pstate s) q = Some g" using a(2) lo by (auto simp: bp)
      ultimately show "v = sy_disk ?s q" using d(7) unfolding loaded_ok_def by auto
    qed
    show "joined_ok ?s" using d(8) unfolding joined_ok_def by (auto split: if_splits)
    show "published_ok ?s"
      unfolding published_ok_def
    proof (intro allI impI)
      fix t' q g v assume a: "sy_calls ?s t' = Some (Waiting q g, True)" "fl_result (flight ?s g) = Some (Inr v)"
      then have w: "sy_calls s t' = Some (Waiting q g, True)" by (auto split: if_splits)
      show "v = sy_disk ?s q"
      proof (cases "g = f")
        case True
        have "fl_result (flight s f) = None" using d(4) lt unfolding leaders_ok_def by blast
        then have "\<exists>u. leads s u q f" using d(6) w True unfolding waiters_ok_def by blast
        then have "q = page" using own by blast
        moreover have "r = Inr v" using a(2) True unfolding fl by (simp add: flight_complete_def)
        ultimately have "sy_calls s t = Some (Loaded q f (Inr v), fr)" "sy_calls s t' = Some (Waiting q f, True)"
          using c w True by auto
        then have "v = sy_disk s q" using d(8) unfolding joined_ok_def by blast
        then show ?thesis by simp
      next
        case False
        then show ?thesis using d(9) w a(2) unfolding published_ok_def fl by auto
      qed
    qed
    show "returned_ok ?s"
      using d(10) cur unfolding returned_ok_def by auto
  qed
qed


lemma inv_call:
  assumes i: "sys_inv s" and t: "sy_calls s t = None" and e: "get_enter page (sy_pool s) = Some (bp, e)"
  shows "sys_inv (s\<lparr> sy_pool := bp, sy_calls := (sy_calls s)(t \<mapsto> (entry_phase page e, page \<notin> sy_stale s)) \<rparr>)"
    (is "sys_inv ?s")
proof -
  note d = sys_invD [OF i]
  have nl: "\<not> leads s t p f" for p f using t by (simp add: leads_iff)
  from inv_shape(1) [OF i] show ?thesis
  proof (cases rule: get_enter_cases [where page = page])
    case (hit bp' v)
    then have be: "bp = bp'" "e = Hit v" using e by auto
    let ?m = "s\<lparr> sy_pool := bp \<rparr>"
    have m: "sys_inv ?m"
      by (rule inv_drop [OF i, where S = "sy_stale s" and bp = bp])
        (use hit(3-) be inv_shape(2) [OF i] d(3) in \<open>auto simp: loading_ok_def\<close>)
    have "?s = ?m\<lparr> sy_calls := (sy_calls ?m)(t \<mapsto> (Returned page (Inr v), page \<notin> sy_stale s)) \<rparr>"
      by (simp add: be)
    from m this show ?thesis
    proof (rule inv_local)
      show "leads ?s t p f = leads ?m t p f" for p f using nl by (simp add: be leads_update)
      show "v' = sy_disk ?m p" if "Some (Returned page (Inr v), page \<notin> sy_stale s) = Some (Returned p (Inr v'), True)" for p v'
        using that d(2) hit(2) unfolding cache_ok_def by auto
    qed auto
  next
    case (follow f)
    then have be: "bp = sy_pool s" "e = Follow f" using e by auto
    have ls: "leads ?s t' p g \<longleftrightarrow> leads s t' p g" for t' p g unfolding leads_update using nl by (simp add: be)
    have o: "f < bp_next (sy_pool s)" "fl_result (flight s f) = None" "\<exists>t. leads s t page f"
      using d(3) follow(2) unfolding loading_ok_def by blast+
    show ?thesis
    proof (rule sys_invI)
      show "pool_ok ?s" "cache_ok ?s" using d(1,2) by (auto simp: be pool_ok_def cache_ok_def)
      show "loading_ok ?s" using d(3) unfolding loading_ok_def ls by (simp add: be)
      show "leaders_ok ?s" using d(4) unfolding leaders_ok_def ls by (simp add: be)
      show "single_leader ?s" using d(5) unfolding single_leader_def ls .
      show "waiters_ok ?s" using d(6) o unfolding waiters_ok_def ls by (auto simp: be split: if_splits)
      show "loaded_ok ?s" using d(7) unfolding loaded_ok_def by (auto simp: be split: if_splits)
      show "joined_ok ?s"
        unfolding joined_ok_def
      proof (intro allI impI)
        fix t1 t2 p g v fr assume a: "sy_calls ?s t1 = Some (Loaded p g (Inr v), fr)" "sy_calls ?s t2 = Some (Waiting p g, True)"
        have l: "sy_calls s t1 = Some (Loaded p g (Inr v), fr)" using a(1) by (auto simp: be split: if_splits)
        show "v = sy_disk ?s p"
        proof (cases "t2 = t")
          case True
          then have "p = page" "g = f" "page \<notin> sy_stale s" using a(2) by (auto simp: be)
          then show ?thesis using d(7) l follow(2) unfolding loaded_ok_def by auto
        next
          case False
          then have "sy_calls s t2 = Some (Waiting p g, True)" using a(2) by simp
          then have "v = sy_disk s p" using d(8) l unfolding joined_ok_def by blast
          then show ?thesis by simp
        qed
      qed
      show "published_ok ?s" using d(9) o unfolding published_ok_def by (auto simp: be split: if_splits)
      show "returned_ok ?s" using d(10) unfolding returned_ok_def by (auto simp: be split: if_splits)
    qed
  next
    case lead
    let ?f = "bp_next (sy_pool s)"
    have be: "bp = \<lparr> bp_state = (pstate s)\<lparr> ps_loading := (ps_loading (pstate s))(page \<mapsto> ?f) \<rparr>,
        bp_flights = (flight s)(?f := load_flight_new), bp_next = ?f + 1 \<rparr>" "e = Lead ?f" using lead(1) e by auto
    have ls: "leads ?s t' p g \<longleftrightarrow> (if t' = t then p = page \<and> g = ?f else leads s t' p g)" for t' p g
      unfolding leads_update by (auto simp: be)
    have lt: "g < ?f" if "leads s t' p g" for t' p g using d(4) that unfolding leaders_ok_def by blast
    have ltl: "g < ?f" if "ps_loading (pstate s) p = Some g" for p g using d(3) that unfolding loading_ok_def by blast
    have ltw: "g < ?f" if "sy_calls s t' = Some (Waiting p g, fr)" for t' p g fr using d(6) that unfolding waiters_ok_def by blast
    have lk: "pool_lookup (pstate ?s) = pool_lookup (pstate s)" by (intro ext) (simp add: be pool_lookup_def)
    have fl: "flight ?s g = flight s g" if "g < ?f" for g using that by (simp add: be)
    have fn: "flight ?s ?f = load_flight_new" by (simp add: be)
    show ?thesis
    proof (rule sys_invI)
      show "pool_ok ?s" using d(1) by (simp add: be pool_ok_def pool_shape_def)
      show "cache_ok ?s" using d(2) unfolding cache_ok_def lk by (simp add: be)
      show "loading_ok ?s"
        unfolding loading_ok_def
      proof (intro allI impI)
        fix p g assume a: "ps_loading (pstate ?s) p = Some g"
        show "g < bp_next (sy_pool ?s) \<and> \<not> fl_invalidated (flight ?s g) \<and> fl_result (flight ?s g) = None
            \<and> ps_index (pstate ?s) p = None \<and> (\<exists>t. leads ?s t p g)"
        proof (cases "p = page")
          case True
          then have "g = ?f" using a by (simp add: be)
          moreover have "leads ?s t page ?f" unfolding ls by simp
          ultimately show ?thesis using True lead(2) by (auto simp: be load_flight_new_def)
        next
          case False
          then have l: "ps_loading (pstate s) p = Some g" using a by (simp add: be)
          then obtain t' where "leads s t' p g" "\<not> fl_invalidated (flight s g)" "fl_result (flight s g) = None" "ps_index (pstate s) p = None"
            using d(3) unfolding loading_ok_def by blast
          moreover have "t' \<noteq> t" using calculation(1) nl by blast
          ultimately have "leads ?s t' p g" unfolding ls by simp
          then show ?thesis using ltl [OF l] fl [OF ltl [OF l]] \<open>\<not> fl_invalidated (flight s g)\<close>
              \<open>fl_result (flight s g) = None\<close> \<open>ps_index (pstate s) p = None\<close> by (auto simp: be)
        qed
      qed
      show "leaders_ok ?s"
        unfolding leaders_ok_def
      proof (intro allI impI)
        fix t' p g assume a: "leads ?s t' p g"
        show "g < bp_next (sy_pool ?s) \<and> fl_result (flight ?s g) = None
            \<and> (\<not> fl_invalidated (flight ?s g) \<longrightarrow> ps_loading (pstate ?s) p = Some g)"
        proof (cases "t' = t")
          case True
          then show ?thesis using a unfolding ls by (simp add: be load_flight_new_def)
        next
          case False
          then have l: "leads s t' p g" using a unfolding ls by simp
          have o: "fl_result (flight s g) = None" "\<not> fl_invalidated (flight s g) \<Longrightarrow> ps_loading (pstate s) p = Some g"
            using d(4) l unfolding leaders_ok_def by blast+
          have "p \<noteq> page" if "\<not> fl_invalidated (flight s g)" using o(2) [OF that] lead(3) by auto
          then show ?thesis using o lt [OF l] fl [OF lt [OF l]] by (auto simp: be)
        qed
      qed
      show "single_leader ?s" using d(5) lt unfolding single_leader_def ls by (auto split: if_splits; blast)
      show "waiters_ok ?s"
        unfolding waiters_ok_def
      proof (intro allI impI)
        fix t' p g fr assume "sy_calls ?s t' = Some (Waiting p g, fr)"
        then have w: "sy_calls s t' = Some (Waiting p g, fr)" by (auto simp: be split: if_splits)
        have "fl_result (flight s g) = None \<longrightarrow> (\<exists>u. leads s u p g)" using d(6) w unfolding waiters_ok_def by blast
        moreover have "leads ?s u p g" if "leads s u p g" for u using that nl unfolding ls by auto
        ultimately show "g < bp_next (sy_pool ?s) \<and> (fl_result (flight ?s g) = None \<longrightarrow> (\<exists>t'. leads ?s t' p g))"
          using ltw [OF w] fl [OF ltw [OF w]] by (auto simp: be)
      qed
      show "loaded_ok ?s"
        unfolding loaded_ok_def
      proof (intro allI impI)
        fix t' p g v fr assume a: "sy_calls ?s t' = Some (Loaded p g (Inr v), fr)" "fr \<or> p \<notin> sy_stale ?s \<and> ps_loading (pstate ?s) p = Some g"
        then have l: "sy_calls s t' = Some (Loaded p g (Inr v), fr)" by (auto simp: be split: if_splits)
        then have "leads s t' p g" by (auto simp: leads_def)
        then have "g < ?f" by (rule lt)
        then have "fr \<or> p \<notin> sy_stale s \<and> ps_loading (pstate s) p = Some g" using a(2) by (auto simp: be split: if_splits)
        then show "v = sy_disk ?s p" using d(7) l unfolding loaded_ok_def by auto
      qed
      show "joined_ok ?s" using d(8) unfolding joined_ok_def by (auto simp: be split: if_splits)
      show "published_ok ?s"
        unfolding published_ok_def
      proof (intro allI impI)
        fix t' p g v assume a: "sy_calls ?s t' = Some (Waiting p g, True)" "fl_result (flight ?s g) = Some (Inr v)"
        then have w: "sy_calls s t' = Some (Waiting p g, True)" by (auto simp: be split: if_splits)
        show "v = sy_disk ?s p" using d(9) w a(2) fl [OF ltw [OF w]] unfolding published_ok_def by auto
      qed
      show "returned_ok ?s" using d(10) unfolding returned_ok_def by (auto simp: be split: if_splits)
    qed
  qed
qed

lemma inv_step: "step s s' \<Longrightarrow> sys_inv s \<Longrightarrow> sys_inv s'"
proof (induction rule: step.induct)
  case (call s t page bp e)
  then show ?case by (intro inv_call)
next
  case (read s t page f fr r)
  then show ?case by (intro inv_read)
next
  case (publish s t page f r fr bp)
  then show ?case by (intro inv_publish)
next
  case (wake s t page f fr r)
  then show ?case by (intro inv_wake)
next
  case (return s t page r fr)
  then show ?case by (intro inv_return)
next
  case (commit_write s page v)
  then show ?case by (rule inv_commit_write)
next
  case (invalidate page s bp)
  then show ?case by (intro inv_invalidate)
next
  case (invalidate_all s)
  then show ?case by (rule inv_invalidate_all)
next
  case (set_capacity n s bp)
  then show ?case by (intro inv_set_capacity)
qed

lemma inv_reachable: "reachable capacity disk s \<Longrightarrow> sys_inv s"
  by (induction rule: reachable.induct) (auto intro: inv_init inv_step)

section \<open>Running a schedule\<close>

text \<open>An executable form of the steps, to exhibit interleavings.\<close>

datatype event =
    ECall nat nat | ERead nat | EPublish nat | EWake nat | EWrite nat nat | EInvalidate nat | ECapacity nat

fun run_event :: "event \<Rightarrow> nat sys \<Rightarrow> nat sys option" where
  "run_event (ECall t page) s = (case (sy_calls s t, get_enter page (sy_pool s)) of
     (None, Some (bp, e)) \<Rightarrow>
       Some (s\<lparr> sy_pool := bp, sy_calls := (sy_calls s)(t \<mapsto> (entry_phase page e, page \<notin> sy_stale s)) \<rparr>)
   | _ \<Rightarrow> None)"
| "run_event (ERead t) s = (case sy_calls s t of
     Some (Leading page f, fr) \<Rightarrow>
       Some (s\<lparr> sy_calls := (sy_calls s)(t \<mapsto> (Loaded page f (Inr (sy_disk s page)), fr)) \<rparr>)
   | _ \<Rightarrow> None)"
| "run_event (EPublish t) s = (case sy_calls s t of
     Some (Loaded page f r, fr) \<Rightarrow> map_option (\<lambda>bp.
       s\<lparr> sy_pool := bp, sy_calls := (sy_calls s)(t \<mapsto> (Returned page r, fr)) \<rparr>) (get_publish page f r (sy_pool s))
   | _ \<Rightarrow> None)"
| "run_event (EWake t) s = (case sy_calls s t of
     Some (Waiting page f, fr) \<Rightarrow> map_option (\<lambda>r.
       s\<lparr> sy_calls := (sy_calls s)(t \<mapsto> (Returned page r, fr)) \<rparr>) (flight_wait (flight s f))
   | _ \<Rightarrow> None)"
| "run_event (EWrite page v) s = Some (s\<lparr> sy_disk := (sy_disk s)(page := v), sy_stale := insert page (sy_stale s),
    sy_calls := rewritten page (sy_calls s) \<rparr>)"
| "run_event (EInvalidate page) s = map_option (\<lambda>bp. s\<lparr> sy_pool := bp, sy_stale := sy_stale s - {page} \<rparr>)
     (bp_invalidate page (sy_pool s))"
| "run_event (ECapacity n) s = map_option (\<lambda>bp. s\<lparr> sy_pool := bp \<rparr>) (bp_set_capacity n (sy_pool s))"

fun run :: "event list \<Rightarrow> nat sys \<Rightarrow> nat sys option" where
  "run [] s = Some s"
| "run (e # es) s = Option.bind (run_event e s) (run es)"

lemma run_event_step: "run_event e s = Some s' \<Longrightarrow> step s s'"
  by (cases e) (auto split: option.splits prod.splits phase.splits intro: step.intros)

lemma run_reachable: "reachable capacity disk s \<Longrightarrow> run es s = Some s' \<Longrightarrow> reachable capacity disk s'"
proof (induction es arbitrary: s)
  case (Cons e es)
  then show ?case by (auto simp: bind_eq_Some_conv dest: run_event_step intro: reachable.more)
qed simp

text \<open>A load that overlaps the commit that rewrites its page, then a fresh load of the page.\<close>

definition race :: "event list" where
  "race = [ECall 0 7, ERead 0, EWrite 7 70, EInvalidate 7, EPublish 0, ECall 1 7, ERead 1, ECall 2 7, EPublish 1]"

definition race_end :: "nat sys" where
  "race_end = the (run race (sys_init 1 (\<lambda>p. p)))"

lemma race_runs: "run race (sys_init 1 (\<lambda>p. p)) = Some race_end"
  "sy_calls race_end 0 = Some (Returned 7 (Inr 7), False)" "sy_calls race_end 1 = Some (Returned 7 (Inr 70), True)"
  "sy_calls race_end 2 = Some (Waiting 7 1, True)"
  "pool_lookup (pstate race_end) 7 = Some 70" "sy_stale race_end = {}" "sy_disk race_end 7 = 70"
  "flight_wait (flight race_end 1) = Some (Inr 70)"
proof -
  have "run race (sys_init 1 (\<lambda>p. p)) \<noteq> None" by code_simp
  then show "run race (sys_init 1 (\<lambda>p. p)) = Some race_end" by (auto simp: race_end_def)
qed (unfold race_end_def, code_simp+)

lemma race_reachable: "reachable 1 (\<lambda>p. p) race_end"
  using run_reachable [OF reachable.init race_runs(1)] .

section \<open>Properties\<close>

text \<open>
  C29. Whatever the interleaving of callers, loads, commits, invalidations and capacity changes: the
  pool never holds more pages than its capacity, the index names exactly the slots, the hand is
  on a slot, no page is cached twice, and none of the critical sections panics.
\<close>

theorem pool_stays_bounded:
  assumes "reachable capacity disk s"
  shows "bp_resident (sy_pool s) \<le> ps_capacity (pstate s) \<and> pool_shape (pstate s)
    \<and> distinct (map sl_page (ps_slots (pstate s)))
    \<and> get_enter page (sy_pool s) \<noteq> None \<and> bp_invalidate page (sy_pool s) \<noteq> None \<and> bp_set_capacity n (sy_pool s) \<noteq> None
    \<and> (\<forall>t f r fr. sy_calls s t = Some (Loaded page f r, fr) \<longrightarrow> get_publish page f r (sy_pool s) \<noteq> None)"
proof -
  note i = inv_reachable [OF assms]
  have sh: "pool_shape (pstate s)" by (rule inv_shape(1) [OF i])
  have "distinct (map sl_page (ps_slots (pstate s)))"
    unfolding distinct_conv_nth using shape_inj [OF sh] by auto
  moreover have "get_enter page (sy_pool s) \<noteq> None" using sh by (cases rule: get_enter_cases [where page = page]) auto
  moreover have "bp_invalidate page (sy_pool s) \<noteq> None"
  proof -
    obtain st where "state_invalidate page (pstate s) = Some st" using state_invalidate_wf [OF sh] by blast
    then show ?thesis by (simp add: bp_invalidate_def split: option.splits)
  qed
  moreover have "bp_set_capacity n (sy_pool s) \<noteq> None"
  proof -
    have "pool_shape ((pstate s)\<lparr> ps_capacity := max n 1 \<rparr>)" using sh by (simp add: pool_shape_def)
    from shrink_wf [OF this] show ?thesis by (auto simp: bp_set_capacity_def state_set_capacity_def)
  qed
  moreover have "get_publish page f r (sy_pool s) \<noteq> None" if "sy_calls s t = Some (Loaded page f r, fr)" for t f r fr
    by (rule inv_publish_total [OF i that]) simp
  ultimately show ?thesis using inv_shape(2) [OF i] sh by (auto simp: bp_resident_def)
qed

theorem pool_stays_bounded_witness:
  "bp_resident (sy_pool race_end) \<le> ps_capacity (pstate race_end) \<and> bp_set_capacity 3 (sy_pool race_end) \<noteq> None"
  using pool_stays_bounded [OF race_reachable] by blast

text \<open>
  C6. No stale page: a cached page that is not awaiting invalidation holds what is on disk, although
  loads run outside the lock and may overlap the commit that rewrites their page; and a call holds the
  disk content of the page it returns, provided that the page was not awaiting invalidation when the call
  began (rewritten, but not yet dropped from the pool) and was not rewritten since. A call that begins
  between a commit's write of a page and its invalidation may return the page from before the write.
\<close>

theorem no_stale_page:
  assumes "reachable capacity disk s"
  shows "(\<forall>page v. pool_lookup (pstate s) page = Some v \<longrightarrow> page \<notin> sy_stale s \<longrightarrow> v = sy_disk s page)
    \<and> (\<forall>t page v. sy_calls s t = Some (Returned page (Inr v), True) \<longrightarrow> v = sy_disk s page)"
  using sys_invD(2,10) [OF inv_reachable [OF assms]] by (simp add: cache_ok_def returned_ok_def)

theorem no_stale_page_witness:
  "pool_lookup (pstate race_end) 7 = Some 70 \<and> sy_disk race_end 7 = 70"
  using no_stale_page [OF race_reachable] race_runs(5,6) by auto

text \<open>
  Single flight: at most one load per page can still be joined or cached; and no waiter is
  orphaned: while its flight has no result, exactly one call is loading for it, and that call's
  publication is enabled once its read is done.
\<close>

theorem single_flight:
  assumes "reachable capacity disk s"
  shows "(\<forall>t t' page f f'. leads s t page f \<longrightarrow> leads s t' page f' \<longrightarrow>
        \<not> fl_invalidated (flight s f) \<longrightarrow> \<not> fl_invalidated (flight s f') \<longrightarrow> t = t' \<and> f = f')
    \<and> (\<forall>t page f fr. sy_calls s t = Some (Waiting page f, fr) \<longrightarrow> flight_wait (flight s f) = None \<longrightarrow>
        (\<exists>!t'. leads s t' page f))"
proof -
  note d = sys_invD [OF inv_reachable [OF assms]]
  have "t = t' \<and> f = f'" if "leads s t page f" "leads s t' page f'" "\<not> fl_invalidated (flight s f)"
    "\<not> fl_invalidated (flight s f')" for t t' page f f'
  proof -
    have "f = f'" using d(4) that unfolding leaders_ok_def by (metis option.inject)
    then show ?thesis using d(5) that unfolding single_leader_def by blast
  qed
  moreover have "\<exists>!t'. leads s t' page f" if "sy_calls s t = Some (Waiting page f, fr)" "flight_wait (flight s f) = None" for t page f fr
    using d(5,6) that unfolding single_leader_def waiters_ok_def flight_wait_def by blast
  ultimately show ?thesis by blast
qed

theorem single_flight_witness:
  "\<exists>s. run [ECall 0 7, ECall 1 7] (sys_init 1 (\<lambda>p. p)) = Some s \<and> sy_calls s 1 = Some (Waiting 7 0, True)
     \<and> (\<exists>!t'. leads s t' 7 0)"
proof -
  let ?r = "run [ECall 0 7, ECall 1 7] (sys_init 1 (\<lambda>p. p))"
  have "?r \<noteq> None" by code_simp
  then obtain s where s: "?r = Some s" by blast
  have "map_option (\<lambda>s. (sy_calls s 1, flight_wait (flight s 0))) ?r = Some (Some (Waiting 7 0, True), None)" by code_simp
  then have "sy_calls s 1 = Some (Waiting 7 0, True)" "flight_wait (flight s 0) = None" using s by auto
  moreover have "\<exists>!t'. leads s t' 7 0"
    using single_flight [OF run_reachable [OF reachable.init s]] calculation by blast
  ultimately show ?thesis using s by (intro exI [of _ s] conjI)
qed

text \<open>
  C36. A waiting call always gets its result: from every reachable state in which a call waits there
  is a continuation in which it returns, of at most three steps (read, publish, wake).
\<close>

theorem waiter_can_return:
  assumes "reachable capacity disk s" "sy_calls s t = Some (Waiting page f, fr)"
  shows "\<exists>s' r. step\<^sup>*\<^sup>* s s' \<and> sy_calls s' t = Some (Returned page r, fr)"
proof -
  have wake: "\<exists>s' r. step\<^sup>*\<^sup>* u s' \<and> sy_calls s' t = Some (Returned page r, fr)"
    if "sy_calls u t = Some (Waiting page f, fr)" "fl_result (flight u f) = Some r" for u r
    using step.wake [OF that(1), of r] that(2)
    by (intro exI conjI) (rule r_into_rtranclp, simp add: flight_wait_def, simp)
  have publish: "\<exists>s' r. step\<^sup>*\<^sup>* u s' \<and> sy_calls s' t = Some (Returned page r, fr)"
    if u: "reachable capacity disk u" "sy_calls u t = Some (Waiting page f, fr)"
      and l: "sy_calls u t' = Some (Loaded page f r, fr')" for u t' r fr'
  proof -
    obtain st where p: "get_publish page f r (sy_pool u) = Some ((sy_pool u)\<lparr> bp_state := st,
      bp_flights := (flight u)(f := flight_complete r (flight u f)) \<rparr>)" (is "_ = Some ?bp")
      by (rule inv_publish_total [OF inv_reachable [OF u(1)] l])
    let ?u = "u\<lparr> sy_pool := ?bp, sy_calls := (sy_calls u)(t' \<mapsto> (Returned page r, fr')) \<rparr>"
    have "t \<noteq> t'" using u(2) l by auto
    then have "sy_calls ?u t = Some (Waiting page f, fr)" "fl_result (flight ?u f) = Some r"
      using u(2) by (auto simp: flight_complete_def)
    from wake [OF this] step.publish [OF l p] show ?thesis by (meson converse_rtranclp_into_rtranclp)
  qed
  show ?thesis
  proof (cases "fl_result (flight s f)")
    case (Some r)
    then show ?thesis using wake assms(2) by blast
  next
    case None
    then obtain t' where "leads s t' page f"
      using sys_invD(6) [OF inv_reachable [OF assms(1)]] assms(2) unfolding waiters_ok_def by blast
    then obtain fr' where "sy_calls s t' = Some (Leading page f, fr') \<or> (\<exists>r. sy_calls s t' = Some (Loaded page f r, fr'))"
      unfolding leads_def by blast
    then show ?thesis
    proof
      assume l: "sy_calls s t' = Some (Leading page f, fr')"
      let ?r = "Inr (sy_disk s page)"
      let ?u = "s\<lparr> sy_calls := (sy_calls s)(t' \<mapsto> (Loaded page f ?r, fr')) \<rparr>"
      have st: "step s ?u" by (rule step.read [OF l]) simp
      have "t \<noteq> t'" using assms(2) l by auto
      then have "sy_calls ?u t = Some (Waiting page f, fr)" "sy_calls ?u t' = Some (Loaded page f ?r, fr')"
        using assms(2) by auto
      from publish [OF reachable.more [OF assms(1) st] this] st show ?thesis
        by (meson converse_rtranclp_into_rtranclp)
    next
      assume "\<exists>r. sy_calls s t' = Some (Loaded page f r, fr')"
      then show ?thesis using publish assms by blast
    qed
  qed
qed

theorem waiter_can_return_witness:
  "\<exists>s' r. step\<^sup>*\<^sup>* race_end s' \<and> sy_calls s' 2 = Some (Returned 7 r, True)"
  using waiter_can_return [OF race_reachable race_runs(4)] .

text \<open>
  C37. CLOCK: the sweep ends and evicts the first page from the hand on whose reference bit is clear,
  or the page at the hand when every bit is set; it changes no page, and leaves the hand behind
  the victim.
\<close>

theorem clock_sweep:
  assumes "hand < length ss"
  shows "\<exists>ss'. evict_loop ss hand = Some (ss', (clock_victim ss hand + 1) mod length ss, clock_victim ss hand)
    \<and> map unref ss' = map unref ss
    \<and> clock_victim ss hand < length ss
    \<and> ((\<forall>s \<in> set ss. sl_referenced s) \<longrightarrow> clock_victim ss hand = hand)
    \<and> ((\<exists>s \<in> set ss. \<not> sl_referenced s) \<longrightarrow> \<not> sl_referenced (ss ! clock_victim ss hand))"
proof -
  let ?P = "\<lambda>k. \<not> sl_referenced (ss ! ((hand + k) mod length ss))"
  have lt: "(hand + k) mod length ss < length ss" for k using assms by (intro mod_less_divisor) linarith
  have "clock_victim ss hand = hand" if "\<forall>s \<in> set ss. sl_referenced s"
  proof -
    have "find ?P [0..<length ss] = None" using that lt by (simp add: find_None_iff)
    then show ?thesis by (simp add: clock_victim_def)
  qed
  moreover have "\<not> sl_referenced (ss ! clock_victim ss hand)" if m: "s \<in> set ss" "\<not> sl_referenced s" for s
  proof -
    obtain i where i: "i < length ss" "ss ! i = s" using m(1) by (auto simp: in_set_conv_nth)
    have "\<exists>k < length ss. (hand + k) mod length ss = i"
    proof (cases "hand \<le> i")
      case True
      then show ?thesis using i(1) by (intro exI [of _ "i - hand"]) simp
    next
      case False
      then have "hand + (i + length ss - hand) = i + length ss" using assms by linarith
      then show ?thesis using i(1) False assms by (intro exI [of _ "i + length ss - hand"]) auto
    qed
    then obtain k where "find ?P [0..<length ss] = Some k \<and> ?P k"
      using m(2) i(2) by (cases "find ?P [0..<length ss]") (auto simp: find_None_iff find_Some_iff)
    then show ?thesis by (simp add: clock_victim_def)
  qed
  ultimately show ?thesis using evict_loop_spec [OF assms] by blast
qed

theorem clock_sweep_witness:
  "\<exists>ss' h. evict_loop [\<lparr> sl_page = 4, sl_value = True, sl_referenced = False \<rparr>,
      \<lparr> sl_page = 5, sl_value = True, sl_referenced = True \<rparr>] 1 = Some (ss', h, 0)"
proof -
  have "clock_victim [\<lparr> sl_page = 4, sl_value = True, sl_referenced = False \<rparr>,
      \<lparr> sl_page = 5, sl_value = True, sl_referenced = True \<rparr>] 1 = 0" by code_simp
  then show ?thesis
    using clock_sweep [of 1 "[\<lparr> sl_page = 4, sl_value = True, sl_referenced = False \<rparr>,
      \<lparr> sl_page = 5, sl_value = True, sl_referenced = True \<rparr>]"] by auto
qed

section \<open>Faults and read-ahead\<close>

text \<open>
  The page cache in front of the pager (\<open>paging.rs\<close>). A call that runs alone: the two critical
  sections with the load's result between them. The batched store read, the decoding of a block
  and the check of a leaf's column shape are parameters.
\<close>

definition get_or_load :: "nat \<Rightarrow> 'v result \<Rightarrow> 'v buffer_pool \<Rightarrow> ('v buffer_pool \<times> 'v result) option" where
  "get_or_load page loaded bp =
     (case get_enter page bp of
        None \<Rightarrow> None
      | Some (bp, Hit v) \<Rightarrow> Some (bp, Inr v)
      | Some (bp, Follow f) \<Rightarrow> map_option (\<lambda>r. (bp, r)) (flight_wait (bp_flights bp f))
      | Some (bp, Lead f) \<Rightarrow> map_option (\<lambda>bp. (bp, loaded)) (get_publish page f loaded bp))"

definition cache_leaves :: "nat \<Rightarrow> nat \<Rightarrow> nat" where
  "cache_leaves cache_bytes page_size = max (cache_bytes div max page_size 1) 1"

definition fault_leaf :: "('v \<Rightarrow> bool) \<Rightarrow> nat \<Rightarrow> 'v result \<Rightarrow> 'v buffer_pool \<Rightarrow> ('v buffer_pool \<times> 'v result) option" where
  "fault_leaf shape_ok page loaded bp =
     map_option (\<lambda>(bp, r). (bp, res_bind r (\<lambda>v. if shape_ok v then Inr v
        else Inl (DataCorrupted, ''leaf page belongs to a different tree'')))) (get_or_load page loaded bp)"

fun admit_blocks :: "(nat \<Rightarrow> 'b \<Rightarrow> 'v result) \<Rightarrow> (nat \<times> 'b) list \<Rightarrow> 'v buffer_pool \<Rightarrow> 'v buffer_pool option" where
  "admit_blocks decode [] bp = Some bp"
| "admit_blocks decode ((page, block) # bs) bp =
     Option.bind (get_or_load page (decode page block) bp) (\<lambda>(bp, _). admit_blocks decode bs bp)"

definition prefetch_missing :: "nat list \<Rightarrow> 'v buffer_pool \<Rightarrow> nat list" where
  "prefetch_missing pages bp =
     take (max (ps_capacity (bp_state bp) div 4) 1) (filter (\<lambda>p. \<not> bp_contains p bp) pages)"

definition prefetch_leaves :: "bool \<Rightarrow> (nat list \<Rightarrow> 'b list result) \<Rightarrow> (nat \<Rightarrow> 'b \<Rightarrow> 'v result) \<Rightarrow> nat list
    \<Rightarrow> 'v buffer_pool \<Rightarrow> 'v buffer_pool option" where
  "prefetch_leaves batches read_blocks decode pages bp =
     (if \<not> batches then Some bp
      else let missing = prefetch_missing pages bp in
        if length missing < 2 then Some bp
        else case read_blocks missing of
            Inl _ \<Rightarrow> Some bp
          | Inr blocks \<Rightarrow> admit_blocks decode (zip missing blocks) bp)"

text \<open>A call that runs alone, on a pool with no load in flight.\<close>

definition quiet :: "'v buffer_pool \<Rightarrow> bool" where
  "quiet bp \<longleftrightarrow> pool_shape (bp_state bp) \<and> length (ps_slots (bp_state bp)) \<le> ps_capacity (bp_state bp)
     \<and> ps_loading (bp_state bp) = Map.empty"

lemma get_or_load_quiet:
  assumes q: "quiet bp"
  shows "\<exists>bp'. quiet bp' \<and> ps_capacity (bp_state bp') = ps_capacity (bp_state bp)
    \<and> get_or_load page loaded bp = Some (bp', case pool_lookup (bp_state bp) page of Some v \<Rightarrow> Inr v | None \<Rightarrow> loaded)
    \<and> (\<forall>v. loaded = Inr v \<longrightarrow> pool_lookup (bp_state bp') page
         = (case pool_lookup (bp_state bp) page of Some u \<Rightarrow> Some u | None \<Rightarrow> Some v))"
proof -
  have s: "pool_shape (bp_state bp)" and l: "length (ps_slots (bp_state bp)) \<le> ps_capacity (bp_state bp)"
    and e: "ps_loading (bp_state bp) = Map.empty" using q by (auto simp: quiet_def)
  from s show ?thesis
  proof (cases rule: get_enter_cases [where page = page])
    case (hit bp' v)
    then have "quiet bp'" using l e by (simp add: quiet_def)
    then show ?thesis using hit by (intro exI [of _ bp']) (simp add: get_or_load_def)
  next
    case (follow f)
    then show ?thesis using e by simp
  next
    case lead
    let ?f = "bp_next bp"
    let ?st = "(bp_state bp)\<lparr> ps_loading := (ps_loading (bp_state bp))(page \<mapsto> ?f) \<rparr>"
    let ?bp = "\<lparr> bp_state = ?st, bp_flights = (bp_flights bp)(?f := load_flight_new), bp_next = ?f + 1 \<rparr>"
    have lk: "pool_lookup (st\<lparr> ps_loading := L \<rparr>) = pool_lookup st" "pool_shape (st\<lparr> ps_loading := L \<rparr>) = pool_shape st"
      for st :: "'a pool_state" and L by (auto simp: pool_lookup_def [abs_def] pool_shape_def)
    have n: "pool_lookup (bp_state bp) page = None" using lead(2) by (simp add: pool_lookup_def)
    have g: "get_or_load page loaded bp = map_option (\<lambda>bp. (bp, loaded)) (get_publish page ?f loaded ?bp)"
      using lead(1) by (simp add: get_or_load_def)
    show ?thesis
    proof (cases loaded)
      case (Inl x)
      let ?r = "?bp\<lparr> bp_state := ?st\<lparr> ps_loading := Map.empty \<rparr>, bp_flights := (bp_flights bp)(?f := flight_complete loaded load_flight_new) \<rparr>"
      have "get_publish page ?f loaded ?bp = Some ?r"
        using Inl e by (simp add: get_publish_def load_flight_new_def)
      then show ?thesis using g n Inl s l by (intro exI [of _ ?r]) (simp add: quiet_def lk)
    next
      case (Inr v)
      have ix: "ps_index ?st page = None" "pool_shape ?st" "length (ps_slots ?st) \<le> ps_capacity ?st"
        using lead(2) s l by (auto simp: lk)
      obtain st where st: "pool_insert page v ?st = Some st" "pool_shape st" "length (ps_slots st) \<le> ps_capacity st"
        "pool_lookup st page = Some v"
        "\<forall>q. q \<noteq> page \<longrightarrow> pool_lookup st q = None \<or> pool_lookup st q = pool_lookup ?st q"
        "ps_capacity st = ps_capacity ?st" "ps_loading st = ps_loading ?st"
        by (rule pool_insert_wf [where v = v, OF ix(2,3,1)])
      let ?r = "?bp\<lparr> bp_state := st\<lparr> ps_loading := Map.empty \<rparr>, bp_flights := (bp_flights bp)(?f := flight_complete loaded load_flight_new) \<rparr>"
      have "get_publish page ?f loaded ?bp = Some ?r"
        using Inr e st(1,7) by (simp add: get_publish_def load_flight_new_def)
      then show ?thesis using g n Inr st by (intro exI [of _ ?r]) (simp add: quiet_def lk)
    qed
  qed
qed

lemma admit_blocks_quiet:
  "quiet bp \<Longrightarrow> \<exists>bp'. quiet bp' \<and> admit_blocks decode bs bp = Some bp'
     \<and> ps_capacity (bp_state bp') = ps_capacity (bp_state bp)"
proof (induction bs arbitrary: bp)
  case (Cons b bs)
  obtain page block where b: "b = (page, block)" by (cases b)
  obtain bp1 r where "quiet bp1" "get_or_load page (decode page block) bp = Some (bp1, r)"
    "ps_capacity (bp_state bp1) = ps_capacity (bp_state bp)"
    using get_or_load_quiet [OF Cons.prems] by blast
  then show ?case using Cons.IH [of bp1] b by auto
qed simp

text \<open>
  A fault on a pool with no load in flight: a resident page is returned without a read, any
  other page is what the read gives, cached when it decodes; a page of another tree's shape is an
  error; the pool stays within its capacity. Read-ahead asks for at most a quarter of the
  capacity, only for pages that are not resident, and keeps the pool well-formed.
\<close>

theorem fault_and_prefetch:
  assumes "quiet bp"
  shows "(\<exists>bp'. quiet bp' \<and> fault_leaf shape_ok page loaded bp = Some (bp',
        case (case pool_lookup (bp_state bp) page of Some v \<Rightarrow> Inr v | None \<Rightarrow> loaded) of
          Inr v \<Rightarrow> (if shape_ok v then Inr v else Inl (DataCorrupted, ''leaf page belongs to a different tree''))
        | Inl e \<Rightarrow> Inl e))
    \<and> (\<exists>bp'. quiet bp' \<and> prefetch_leaves batches read_blocks decode pages bp = Some bp')
    \<and> length (prefetch_missing pages bp) \<le> max (ps_capacity (bp_state bp) div 4) 1
    \<and> (\<forall>p \<in> set (prefetch_missing pages bp). pool_lookup (bp_state bp) p = None)"
proof -
  obtain bp1 where "quiet bp1"
    "get_or_load page loaded bp = Some (bp1, case pool_lookup (bp_state bp) page of Some v \<Rightarrow> Inr v | None \<Rightarrow> loaded)"
    using get_or_load_quiet [OF assms] by blast
  then have "\<exists>bp'. quiet bp' \<and> fault_leaf shape_ok page loaded bp = Some (bp',
        case (case pool_lookup (bp_state bp) page of Some v \<Rightarrow> Inr v | None \<Rightarrow> loaded) of
          Inr v \<Rightarrow> (if shape_ok v then Inr v else Inl (DataCorrupted, ''leaf page belongs to a different tree''))
        | Inl e \<Rightarrow> Inl e)"
    by (auto simp: fault_leaf_def split: option.splits sum.splits)
  moreover have "\<exists>bp'. quiet bp' \<and> prefetch_leaves batches read_blocks decode pages bp = Some bp'"
    using assms admit_blocks_quiet [OF assms, of decode]
    by (auto simp: prefetch_leaves_def Let_def split: sum.splits)
  moreover have "pool_lookup (bp_state bp) p = None" if "p \<in> set (prefetch_missing pages bp)" for p
    using in_set_takeD [OF that [unfolded prefetch_missing_def]] by (auto simp: bp_contains_def pool_lookup_def)
  ultimately show ?thesis by (auto simp: prefetch_missing_def)
qed

lemma quiet_new: "quiet (buffer_pool_new capacity)"
  by (simp add: quiet_def buffer_pool_new_def pool_new_def pool_shape_def)

theorem fault_and_prefetch_witness:
  "\<exists>bp'. fault_leaf (\<lambda>v. v < 10) 3 (Inr 30) (buffer_pool_new 8 :: nat buffer_pool)
     = Some (bp', Inl (DataCorrupted, ''leaf page belongs to a different tree''))"
proof -
  have "pool_lookup (bp_state (buffer_pool_new 8 :: nat buffer_pool)) 3 = None"
    by (simp add: buffer_pool_new_def pool_new_def pool_lookup_def)
  then show ?thesis
    using fault_and_prefetch [OF quiet_new [of 8], of "\<lambda>v. v < (10 :: nat)" 3 "Inr 30" False
      "\<lambda>_. Inr ([] :: nat list)" "\<lambda>_ _. Inr 0" "[]"] by auto
qed

fun touch_all :: "nat list \<Rightarrow> nat buffer_pool \<Rightarrow> nat buffer_pool option" where
  "touch_all [] bp = Some bp"
| "touch_all (p # ps) bp = Option.bind (get_or_load p (Inr p) bp) (\<lambda>(bp, _). touch_all ps bp)"

lemma two_stages:
  "map_option f t = Some x \<Longrightarrow> map_option f (Option.bind t g) = Some y \<Longrightarrow>
     \<exists>a b. t = Some a \<and> f a = x \<and> g a = Some b \<and> f b = y"
  by (cases t) auto

text \<open>
  Read-ahead can evict the leaf the scan is on: in a pool of eight leaves of which all others
  have been used twice, reading ahead two pages evicts the leaf just faulted.
\<close>

theorem prefetch_can_evict_current:
  "\<exists>bp bp'. touch_all ([1, 2, 3, 4, 5, 6, 7] @ [1, 2, 3, 4, 5, 6, 7] @ [8]) (buffer_pool_new 8) = Some bp
    \<and> pool_lookup (bp_state bp) 8 = Some 8
    \<and> prefetch_leaves True (\<lambda>ps. Inr ps) (\<lambda>p b. Inr b) [9, 10] bp = Some bp'
    \<and> pool_lookup (bp_state bp') 8 = None"
proof -
  let ?t = "touch_all ([1, 2, 3, 4, 5, 6, 7] @ [1, 2, 3, 4, 5, 6, 7] @ [8]) (buffer_pool_new 8)"
  let ?p = "Option.bind ?t (prefetch_leaves True (\<lambda>ps. Inr ps) (\<lambda>p b. Inr b) [9, 10])"
  have "map_option (\<lambda>bp. pool_lookup (bp_state bp) 8) ?t = Some (Some 8)" by code_simp
  moreover have "map_option (\<lambda>bp. pool_lookup (bp_state bp) 8) ?p = Some None" by code_simp
  ultimately show ?thesis by (rule two_stages)
qed

end
