(* ===== verification/Table_Store.thy ===== *)
theory Table_Store
  imports Pmap_Cursor
begin

text \<open>
  One table's rows (\<open>storage.rs\<close>): the ordered map with its page capacity and column types, the
  synthetic row ids, the accounting of the bytes written since the last publication, the scans
  with their cost blocks, and the cursors that own a snapshot. The record codec of \<open>format.rs\<close> and
  what a page faults to are arguments; a row is a type parameter. Shown here: the invariant, and
  what each write does to an abstract store of sorted association lists.
\<close>

section \<open>The store\<close>

text \<open>
  A database's shared paging, as the store uses it: what a page faults to under the table's
  column types, and whether reads are batched.
\<close>

record ('c, 'r) shared_paging =
  sp_fault_leaf :: "page_ref \<Rightarrow> 'c list \<Rightarrow> 'r packed_leaf result"
  sp_batches_reads :: bool

text \<open>
  The functions of the record codec (\<open>format.rs\<close>) the store calls: planned size and stored bytes
  of a record, the pages and slabs reading it costs, and which columns can spill.
\<close>

record ('c, 'r) codec =
  record_footprint :: "'c list \<Rightarrow> key \<Rightarrow> 'r \<Rightarrow> cap \<Rightarrow> nat \<times> nat"
  record_scan_units :: "'c list \<Rightarrow> key \<Rightarrow> 'r \<Rightarrow> cap \<Rightarrow> bool list \<Rightarrow> nat \<times> nat"
  any_spillable_masked :: "'c list \<Rightarrow> bool list \<Rightarrow> bool"
  fixed_value_width :: "'c \<Rightarrow> nat option"

definition leaf_shape_of :: "('c, 'r) codec \<Rightarrow> 'c list \<Rightarrow> leaf_shape" where
  "leaf_shape_of cd cols =
     (let fixed = length (filter (\<lambda>t. fixed_value_width cd t \<noteq> None) cols)
      in \<lparr> sh_fixed = fixed, sh_var = length cols - fixed \<rparr>)"

text \<open>A staged entry is the row \<open>[Int(n)]\<close>, kept as \<open>n\<close>.\<close>

record ('c, 'r) table_store =
  ts_rows :: "'r pmap"
  ts_next_rowid :: int
  ts_cap :: cap
  ts_col_types :: "'c list"
  ts_shape :: leaf_shape
  ts_paging :: "('c, 'r) shared_paging option"
  ts_staged :: int
  ts_staged_keys :: "int pmap"
  ts_net :: bool

text \<open>Which nodes of the two maps are uniquely owned, and which merge operands: see \<open>Pmap\<close>.\<close>

record owners =
  ow_rows :: "nat list \<Rightarrow> bool"
  ow_rows_merge :: "nat list \<Rightarrow> bool"
  ow_keys :: "nat list \<Rightarrow> bool"
  ow_keys_merge :: "nat list \<Rightarrow> bool"

definition make_src :: "('c, 'r) shared_paging option \<Rightarrow> 'c list \<Rightarrow> 'r leaf_source" where
  "make_src paging cols = map_option (\<lambda>p page. sp_fault_leaf p page cols) paging"

definition store_src :: "('c, 'r) table_store \<Rightarrow> 'r leaf_source" where
  "store_src s = make_src (ts_paging s) (ts_col_types s)"

definition prefetches :: "('c, 'r) table_store \<Rightarrow> bool" where
  "prefetches s = (case ts_paging s of None \<Rightarrow> False | Some p \<Rightarrow> sp_batches_reads p)"

definition table_store_new :: "('c, 'r) codec \<Rightarrow> cap \<Rightarrow> 'c list \<Rightarrow> ('c, 'r) table_store" where
  "table_store_new cd cp cols =
     \<lparr> ts_rows = pmap_new, ts_next_rowid = 0, ts_cap = cp, ts_col_types = cols,
       ts_shape = leaf_shape_of cd cols, ts_paging = None, ts_staged = 0,
       ts_staged_keys = pmap_new, ts_net = False \<rparr>"

definition truncated :: "('c, 'r) table_store \<Rightarrow> ('c, 'r) table_store" where
  "truncated s =
     \<lparr> ts_rows = pmap_new, ts_next_rowid = ts_next_rowid s, ts_cap = ts_cap s, ts_col_types = ts_col_types s,
       ts_shape = ts_shape s, ts_paging = ts_paging s, ts_staged = 0,
       ts_staged_keys = pmap_new, ts_net = ts_net s \<rparr>"

section \<open>Staging\<close>

text \<open>\<open>i64\<close> arithmetic: a plain operation panics on overflow, \<open>saturating_add\<close> stops at the ends.\<close>

definition i64_ok :: "int \<Rightarrow> bool" where
  "i64_ok x \<longleftrightarrow> - (2 ^ 63) \<le> x \<and> x < 2 ^ 63"

definition saturating_add :: "int \<Rightarrow> int \<Rightarrow> int" where
  "saturating_add a b = max (- (2 ^ 63)) (min (2 ^ 63 - 1) (a + b))"

text \<open>The casts \<open>as u32\<close> and \<open>as i64\<close>.\<close>

definition weight :: "('c, 'r) codec \<Rightarrow> ('c, 'r) table_store \<Rightarrow> key \<Rightarrow> 'r \<Rightarrow> nat \<times> int" where
  "weight cd s key row =
     (case record_footprint cd (ts_col_types s) key row (ts_cap s) of
        (sz, stored) \<Rightarrow> (sz mod 2 ^ 32, (int stored + 2 ^ 63) mod 2 ^ 64 - 2 ^ 63))"

definition STAGED_KEYS_CAP :: nat where "STAGED_KEYS_CAP = 512"

definition staged_cap :: cap where
  "staged_cap = \<lparr> cap_c = STAGED_KEYS_CAP, cap_tag = 0 \<rparr>"

definition staged_shape :: leaf_shape where
  "staged_shape = \<lparr> sh_fixed = 0, sh_var = 0 \<rparr>"

definition staged_of :: "int option \<Rightarrow> int" where
  "staged_of entry = (case entry of Some n \<Rightarrow> n | None \<Rightarrow> 0)"

definition stage :: "owners \<Rightarrow> key \<Rightarrow> int \<Rightarrow> (('c, 'r) table_store, unit) prog" where
  "stage ow key stored s =
     (if \<not> ts_net s then Some (s\<lparr> ts_staged := saturating_add (ts_staged s) stored \<rparr>, Inr ())
      else
        (case pmap_insert (ow_keys ow) (ts_staged_keys s) key stored (length key + 8) staged_cap staged_shape None of
           None \<Rightarrow> None
         | Some (m, Inl e) \<Rightarrow> Some (s\<lparr> ts_staged_keys := m \<rparr>, Inl e)
         | Some (m, Inr old) \<Rightarrow>
             let v = saturating_add (ts_staged s) stored - staged_of old in
             if i64_ok v then Some (s\<lparr> ts_staged_keys := m, ts_staged := v \<rparr>, Inr ()) else None))"

definition unstage :: "owners \<Rightarrow> key \<Rightarrow> (('c, 'r) table_store, unit) prog" where
  "unstage ow key s =
     (if is_empty (ts_staged_keys s) then Some (s, Inr ())
      else
        (case pmap_remove (ow_keys ow) (ow_keys_merge ow) (ts_staged_keys s) key staged_cap staged_shape None of
           None \<Rightarrow> None
         | Some (m, Inl e) \<Rightarrow> Some (s\<lparr> ts_staged_keys := m \<rparr>, Inl e)
         | Some (m, Inr old) \<Rightarrow>
             let v = ts_staged s - staged_of old in
             if i64_ok v then Some (s\<lparr> ts_staged_keys := m, ts_staged := v \<rparr>, Inr ()) else None))"

definition set_net_staging :: "bool \<Rightarrow> ('c, 'r) table_store \<Rightarrow> ('c, 'r) table_store" where
  "set_net_staging net s = s\<lparr> ts_net := net \<rparr>"

definition has_staged_keys :: "('c, 'r) table_store \<Rightarrow> bool" where
  "has_staged_keys s \<longleftrightarrow> \<not> is_empty (ts_staged_keys s)"

definition has_staging :: "('c, 'r) table_store \<Rightarrow> bool" where
  "has_staging s \<longleftrightarrow> ts_staged s \<noteq> 0 \<or> \<not> is_empty (ts_staged_keys s)"

definition clear_staged :: "('c, 'r) table_store \<Rightarrow> ('c, 'r) table_store" where
  "clear_staged s = s\<lparr> ts_staged := 0, ts_staged_keys := pmap_new \<rparr>"

definition forget_staged_keys :: "('c, 'r) table_store \<Rightarrow> ('c, 'r) table_store" where
  "forget_staged_keys s = s\<lparr> ts_staged_keys := pmap_new \<rparr>"

section \<open>Rows\<close>

definition rows_insert :: "owners \<Rightarrow> key \<Rightarrow> 'r \<Rightarrow> nat \<Rightarrow> (('c, 'r) table_store, 'r option) prog" where
  "rows_insert ow key row w s =
     map_option (\<lambda>(m, r). (s\<lparr> ts_rows := m \<rparr>, r))
       (pmap_insert (ow_rows ow) (ts_rows s) key row w (ts_cap s) (ts_shape s) (store_src s))"

definition store_insert :: "('c, 'r) codec \<Rightarrow> owners \<Rightarrow> key \<Rightarrow> 'r \<Rightarrow> (('c, 'r) table_store, bool) prog" where
  "store_insert cd ow key row s =
     (case weight cd s key row of (w, stored) \<Rightarrow>
        with_io (pmap_get (ts_rows s) key (store_src s)) (\<lambda>old s.
          if old \<noteq> None then Some (s, Inr False)
          else st_bind (stage ow key stored s) (\<lambda>_ s.
               st_bind (rows_insert ow key row w s) (\<lambda>_ s. Some (s, Inr True)))) s)"

definition store_replace :: "('c, 'r) codec \<Rightarrow> owners \<Rightarrow> key \<Rightarrow> 'r \<Rightarrow> (('c, 'r) table_store, unit) prog" where
  "store_replace cd ow key row s =
     (case weight cd s key row of (w, stored) \<Rightarrow>
        st_bind (stage ow key stored s) (\<lambda>_ s.
        st_bind (rows_insert ow key row w s) (\<lambda>_ s. Some (s, Inr ()))))"

definition rows_remove :: "owners \<Rightarrow> key \<Rightarrow> (('c, 'r) table_store, 'r option) prog" where
  "rows_remove ow key s =
     map_option (\<lambda>(m, r). (s\<lparr> ts_rows := m \<rparr>, r))
       (pmap_remove (ow_rows ow) (ow_rows_merge ow) (ts_rows s) key (ts_cap s) (ts_shape s) (store_src s))"

definition store_remove :: "owners \<Rightarrow> key \<Rightarrow> (('c, 'r) table_store, bool) prog" where
  "store_remove ow key s =
     st_bind (rows_remove ow key s) (\<lambda>r s.
       if r \<noteq> None then st_bind (unstage ow key s) (\<lambda>_ s. Some (s, Inr True))
       else Some (s, Inr False))"

definition alloc_rowid :: "('c, 'r) table_store \<Rightarrow> (('c, 'r) table_store \<times> int) option" where
  "alloc_rowid s =
     (let r = ts_next_rowid s in
      if i64_ok (r + 1) then Some (s\<lparr> ts_next_rowid := r + 1 \<rparr>, r) else None)"

definition bump_rowid_to :: "int \<Rightarrow> ('c, 'r) table_store \<Rightarrow> ('c, 'r) table_store" where
  "bump_rowid_to n s = (if n > ts_next_rowid s then s\<lparr> ts_next_rowid := n \<rparr> else s)"

definition store_get :: "('c, 'r) table_store \<Rightarrow> key \<Rightarrow> 'r option io" where
  "store_get s key = pmap_get (ts_rows s) key (store_src s)"

section \<open>Scans\<close>

definition finished :: "('s \<times> 'a result) option \<Rightarrow> 's io" where
  "finished = map_option (\<lambda>(s, r). res_bind r (\<lambda>_. Inr s))"

definition iter_entries :: "('c, 'r) table_store \<Rightarrow> (key \<times> 'r) list io" where
  "iter_entries s = finished (pmap_iter (ts_rows s) (store_src s))"

definition iter_in_key_order :: "('c, 'r) table_store \<Rightarrow> 'r list io" where
  "iter_in_key_order s = io_bind (finished (pmap_iter (ts_rows s) (store_src s))) (\<lambda>es. Some (Inr (map snd es)))"

definition store_range_entries :: "('c, 'r) table_store \<Rightarrow> key_bound \<Rightarrow> (key \<times> 'r) list io" where
  "store_range_entries s b = range_entries (ts_rows s) b (store_src s)"

definition store_scan_range :: "('c, 'r) table_store \<Rightarrow> key_bound \<Rightarrow> (key \<times> 'r \<Rightarrow> ('s, bool) prog) \<Rightarrow> ('s, unit) prog" where
  "store_scan_range s b visit = scan_range (ts_rows s) b (store_src s) (prefetches s) visit"

definition store_scan_range_rev :: "('c, 'r) table_store \<Rightarrow> key_bound \<Rightarrow> (key \<times> 'r \<Rightarrow> ('s, bool) prog) \<Rightarrow> ('s, unit) prog" where
  "store_scan_range_rev s b visit = scan_range_rev (ts_rows s) b (store_src s) (prefetches s) visit"

text \<open>The closure of the cost walks: add the units of one record to \<open>pages\<close> and \<open>slabs\<close>.\<close>

definition add_units :: "('c, 'r) codec \<Rightarrow> ('c, 'r) table_store \<Rightarrow> bool list \<Rightarrow> key \<times> 'r \<Rightarrow> nat \<times> nat \<Rightarrow> nat \<times> nat" where
  "add_units cd s touched = (\<lambda>(k, row) (pages, slabs).
     case record_scan_units cd (ts_col_types s) k row (ts_cap s) touched of (p, d) \<Rightarrow> (pages + p, slabs + d))"

definition scan_units :: "('c, 'r) codec \<Rightarrow> ('c, 'r) table_store \<Rightarrow> bool list \<Rightarrow> (nat \<times> nat) io" where
  "scan_units cd s touched =
     (let pages = node_count (ts_rows s) in
      if any_spillable_masked cd (ts_col_types s) touched
      then finished (store_scan_range s unbounded (\<lambda>kr u. Some (add_units cd s touched kr u, Inr True)) (pages, 0))
      else Some (Inr (pages, 0)))"

definition overlap_scan_units :: "('c, 'r) codec \<Rightarrow> ('c, 'r) table_store \<Rightarrow> key_bound \<Rightarrow> bool list \<Rightarrow> (nat \<times> nat) io" where
  "overlap_scan_units cd s b touched =
     (case overlap_node_count (ts_rows s) b of
        None \<Rightarrow> None
      | Some pages \<Rightarrow>
          if any_spillable_masked cd (ts_col_types s) touched
          then finished (store_scan_range s b (\<lambda>kr u. Some (add_units cd s touched kr u, Inr True)) (pages, 0))
          else Some (Inr (pages, 0)))"

definition range_scan_with_units ::
  "('c, 'r) codec \<Rightarrow> ('c, 'r) table_store \<Rightarrow> key_bound \<Rightarrow> bool list \<Rightarrow> ((key \<times> 'r) list \<times> nat \<times> nat) io" where
  "range_scan_with_units cd s b touched =
     io_bind (range_entries_counted (ts_rows s) b (store_src s)) (\<lambda>(entries, pages).
       Some (Inr (entries,
         if any_spillable_masked cd (ts_col_types s) touched then fold (add_units cd s touched) entries (pages, 0)
         else (pages, 0))))"

definition scan_with_units ::
  "('c, 'r) codec \<Rightarrow> ('c, 'r) table_store \<Rightarrow> bool list \<Rightarrow> ((key \<times> 'r) list \<times> nat \<times> nat) io" where
  "scan_with_units cd s touched = range_scan_with_units cd s unbounded touched"

definition get_with_units ::
  "('c, 'r) codec \<Rightarrow> ('c, 'r) table_store \<Rightarrow> key \<Rightarrow> bool list \<Rightarrow> ('r option \<times> nat \<times> nat) io" where
  "get_with_units cd s key touched =
     io_bind (get_counted (ts_rows s) key (store_src s)) (\<lambda>(row, pages, _).
       Some (Inr (row,
         case row of
           Some r \<Rightarrow>
             if any_spillable_masked cd (ts_col_types s) touched
             then (case record_scan_units cd (ts_col_types s) key r (ts_cap s) touched of (p, d) \<Rightarrow> (pages + p, d))
             else (pages, 0)
         | None \<Rightarrow> (pages, 0))))"

definition point_node_count :: "('c, 'r) table_store \<Rightarrow> nat" where
  "point_node_count s = height (ts_rows s)"

section \<open>Cursors\<close>

record ('c, 'r) store_cursor =
  sc_store :: "('c, 'r) table_store"
  sc_cursor :: "'r range_cursor"

definition store_scan :: "('c, 'r) table_store \<Rightarrow> key_bound \<Rightarrow> bool \<Rightarrow> ('c, 'r) store_cursor" where
  "store_scan s b reverse = \<lparr> sc_store = s, sc_cursor = range_cursor_of (ts_rows s) b reverse \<rparr>"

definition store_scan_next :: "(('c, 'r) store_cursor, (key \<times> 'r) option) prog" where
  "store_scan_next c = map_option (\<lambda>(rc, r). (c\<lparr> sc_cursor := rc \<rparr>, r))
     (cursor_next (prefetches (sc_store c)) (store_src (sc_store c)) (sc_cursor c))"

definition store_scan_next_row :: "(('c, 'r) store_cursor, 'r option) prog" where
  "store_scan_next_row c = map_option (\<lambda>(rc, r). (c\<lparr> sc_cursor := rc \<rparr>, r))
     (next_row (prefetches (sc_store c)) (store_src (sc_store c)) (sc_cursor c))"

datatype 'r point_state = Deferred key | Prefetched "'r option" | Done

record ('c, 'r) point_scan =
  pt_store :: "('c, 'r) table_store"
  pt_state :: "'r point_state"

definition point_scan_deferred :: "('c, 'r) table_store \<Rightarrow> key \<Rightarrow> ('c, 'r) point_scan" where
  "point_scan_deferred s key = \<lparr> pt_store = s, pt_state = Deferred key \<rparr>"

definition point_scan_prefetched :: "('c, 'r) table_store \<Rightarrow> 'r option \<Rightarrow> ('c, 'r) point_scan" where
  "point_scan_prefetched s row = \<lparr> pt_store = s, pt_state = Prefetched row \<rparr>"

definition point_next_row :: "(('c, 'r) point_scan, 'r option) prog" where
  "point_next_row c =
     (let state = pt_state c; c = c\<lparr> pt_state := Done \<rparr> in
      case state of
        Deferred key \<Rightarrow> map_option (\<lambda>r. (c, r)) (store_get (pt_store c) key)
      | Prefetched row \<Rightarrow> Some (c, Inr row)
      | Done \<Rightarrow> Some (c, Inr None))"

section \<open>Invariant\<close>

definition row_entries :: "('c, 'r) table_store \<Rightarrow> (key \<times> 'r) list" where
  "row_entries s = pmap_entries (store_src s) (ts_rows s)"

definition staged_entries :: "('c, 'r) table_store \<Rightarrow> (key \<times> int) list" where
  "staged_entries s = pmap_entries None (ts_staged_keys s)"

text \<open>
  The recorded versions are part of the balance: their bytes never exceed it, so returning one
  cannot make it negative.
\<close>

definition store_wf :: "('c, 'r) table_store \<Rightarrow> bool" where
  "store_wf s \<longleftrightarrow> pmap_wf (store_src s) (ts_cap s) (ts_shape s) (ts_rows s) \<and> cap_wf (ts_cap s) (ts_shape s)
     \<and> pmap_wf None staged_cap staged_shape (ts_staged_keys s) \<and> (\<forall>p \<in> set (staged_entries s). 0 \<le> snd p)
     \<and> sum_list (map snd (staged_entries s)) \<le> ts_staged s \<and> ts_staged s < 2 ^ 63 \<and> 0 \<le> ts_next_rowid s"

text \<open>Room for \<open>n\<close> more operations before a 64-bit counter overflows.\<close>

definition room :: "('c, 'r) table_store \<Rightarrow> nat \<Rightarrow> bool" where
  "room s n \<longleftrightarrow> int n < 2 ^ 62 \<and> int (length (row_entries s)) + int n < 2 ^ 63
     \<and> int (length (staged_entries s)) + int n < 2 ^ 63 \<and> ts_staged s + int n * 2 ^ 32 < 2 ^ 63
     \<and> ts_next_rowid s + int n < 2 ^ 63"

text \<open>
  A record the store can take: planned within the page's \<open>RECORD_MAX\<close>, below 4 GiB, and with a
  key the staged-key map can hold when it is recorded there.
\<close>

definition staged_key_ok :: "key \<Rightarrow> bool" where
  "staged_key_ok key \<longleftrightarrow> length key \<le> 242"

definition small :: "('c, 'r) codec \<Rightarrow> ('c, 'r) table_store \<Rightarrow> key \<Rightarrow> 'r \<Rightarrow> bool" where
  "small cd s key row \<longleftrightarrow> rec_wf (ts_cap s) (ts_shape s) key (fst (weight cd s key row))
     \<and> 0 \<le> snd (weight cd s key row) \<and> snd (weight cd s key row) < 2 ^ 32
     \<and> (ts_net s \<longrightarrow> staged_key_ok key)"

lemma staged_cap_wf: "cap_wf staged_cap staged_shape" "staged_key_ok key \<Longrightarrow> rec_wf staged_cap staged_shape key (length key + 8)"
  by (simp_all add: cap_wf_def rec_wf_def rec_fits_def staged_cap_def staged_shape_def STAGED_KEYS_CAP_def shape_k_def
      ptr_def RECORD_MAX_RESERVE_def staged_key_ok_def)

lemma store_wfD:
  assumes "store_wf s"
  shows "pmap_wf (store_src s) (ts_cap s) (ts_shape s) (ts_rows s)" "cap_wf (ts_cap s) (ts_shape s)"
    "pmap_wf None staged_cap staged_shape (ts_staged_keys s)"
    "sorted_keys (row_entries s)" "sorted_keys (staged_entries s)"
    "0 \<le> sum_list (map snd (staged_entries s))" "sum_list (map snd (staged_entries s)) \<le> ts_staged s"
    "0 \<le> ts_next_rowid s" "ts_staged s < 2 ^ 63"
proof -
  show "0 \<le> sum_list (map snd (staged_entries s))" using assms by (intro sum_list_nonneg) (auto simp: store_wf_def)
qed (use assms pmap_wf_sorted in \<open>auto simp: store_wf_def row_entries_def staged_entries_def\<close>)

lemma sum_upd_list:
  "sorted_keys ps \<Longrightarrow> sum_list (map snd (upd_list k v ps)) = sum_list (map snd ps) + v - staged_of (map_of ps k)"
proof (induction k v ps rule: upd_list.induct)
  case (2 k v a b ps)
  have "map_of ps k = None" if "k < a" using 2 that by (intro map_of_outside) (auto dest!: bspec)
  then show ?case using 2 by (auto simp: staged_of_def)
qed (simp add: staged_of_def)

lemma sum_del_list:
  "sorted_keys ps \<Longrightarrow> sum_list (map snd (del_list k ps)) = sum_list (map snd ps) - staged_of (map_of ps k)"
proof (induction ps)
  case (Cons p ps)
  show ?case
  proof (cases "fst p = k")
    case True
    then have "del_list k ps = ps" using Cons.prems by (intro del_list_below) auto
    then show ?thesis using True by (cases p) (simp add: del_list_def staged_of_def)
  qed (use Cons in \<open>cases p; auto simp: del_list_def\<close>)
qed (simp add: del_list_def staged_of_def)

lemma staged_of_bounds:
  assumes "store_wf s"
  shows "0 \<le> staged_of (map_of (staged_entries s) key)" "staged_of (map_of (staged_entries s) key) \<le> ts_staged s"
proof -
  have nn: "\<forall>p \<in> set (staged_entries s). 0 \<le> snd p" using assms by (simp add: store_wf_def)
  show "0 \<le> staged_of (map_of (staged_entries s) key)"
    using nn by (auto simp: staged_of_def split: option.splits dest!: map_of_SomeD bspec)
  have "0 \<le> sum_list (map snd (del_list key (staged_entries s)))"
    using nn by (intro sum_list_nonneg) (auto simp: del_list_def)
  then show "staged_of (map_of (staged_entries s) key) \<le> ts_staged s"
    using sum_del_list [OF store_wfD(5) [OF assms]] store_wfD(7) [OF assms] by simp
qed

section \<open>The abstract store\<close>

record 'r store_view =
  v_rows :: "(key \<times> 'r) list"
  v_staged_keys :: "(key \<times> int) list"
  v_staged :: int
  v_net :: bool
  v_next_rowid :: int

definition view :: "('c, 'r) table_store \<Rightarrow> 'r store_view" where
  "view s = \<lparr> v_rows = row_entries s, v_staged_keys = staged_entries s, v_staged = ts_staged s,
     v_net = ts_net s, v_next_rowid = ts_next_rowid s \<rparr>"

definition spec_stage :: "key \<Rightarrow> int \<Rightarrow> 'r store_view \<Rightarrow> 'r store_view" where
  "spec_stage key n v =
     (if v_net v
      then v\<lparr> v_staged_keys := upd_list key n (v_staged_keys v),
              v_staged := v_staged v + n - staged_of (map_of (v_staged_keys v) key) \<rparr>
      else v\<lparr> v_staged := v_staged v + n \<rparr>)"

definition spec_unstage :: "key \<Rightarrow> 'r store_view \<Rightarrow> 'r store_view" where
  "spec_unstage key v = v\<lparr> v_staged_keys := del_list key (v_staged_keys v),
     v_staged := v_staged v - staged_of (map_of (v_staged_keys v) key) \<rparr>"

text \<open>What every step of an operation keeps: the invariant and the configuration of the store.\<close>

definition same_config :: "('c, 'r) table_store \<Rightarrow> ('c, 'r) table_store \<Rightarrow> bool" where
  "same_config s s' \<longleftrightarrow> ts_cap s' = ts_cap s \<and> ts_shape s' = ts_shape s \<and> ts_col_types s' = ts_col_types s
     \<and> ts_paging s' = ts_paging s"

lemma same_config_trans: "same_config s t \<Longrightarrow> same_config t u \<Longrightarrow> same_config s u"
  by (simp add: same_config_def)

lemma store_src_update [simp]:
  "store_src (s\<lparr> ts_staged := v \<rparr>) = store_src s" "store_src (s\<lparr> ts_staged_keys := m \<rparr>) = store_src s"
  "store_src (s\<lparr> ts_rows := rs \<rparr>) = store_src s" "store_src (s\<lparr> ts_net := b \<rparr>) = store_src s"
  "store_src (s\<lparr> ts_next_rowid := i \<rparr>) = store_src s"
  by (simp_all add: store_src_def)

lemma saturating_add_id: "- (2 ^ 63) \<le> a + b \<Longrightarrow> a + b < 2 ^ 63 \<Longrightarrow> saturating_add a b = a + b"
  by (simp add: saturating_add_def)

lemma i64_okD: "i64_ok x \<Longrightarrow> x < 2 ^ 63"
  by (simp add: i64_ok_def)

text \<open>The value of the store after a staging step.\<close>

lemma staged_update:
  assumes w: "store_wf s" and m: "pmap_wf None staged_cap staged_shape m"
    and e: "\<forall>p \<in> set (pmap_entries None m). 0 \<le> snd p" "sum_list (map snd (pmap_entries None m)) \<le> v" "v < 2 ^ 63"
  shows "store_wf (s\<lparr> ts_staged_keys := m, ts_staged := v \<rparr>)"
    "row_entries (s\<lparr> ts_staged_keys := m, ts_staged := v \<rparr>) = row_entries s"
    "staged_entries (s\<lparr> ts_staged_keys := m, ts_staged := v \<rparr>) = pmap_entries None m"
  using w m e by (simp_all add: store_wf_def row_entries_def staged_entries_def)

lemma stage_wf:
  assumes w: "store_wf s" and r: "room s (Suc n)" and st: "0 \<le> stored" "stored < 2 ^ 32" and k: "ts_net s \<Longrightarrow> staged_key_ok key"
  shows "\<exists>s'. stage ow key stored s = Some (s', Inr ()) \<and> store_wf s' \<and> same_config s s' \<and> ts_rows s' = ts_rows s
    \<and> view s' = spec_stage key stored (view s) \<and> ts_staged s' + int n * 2 ^ 32 < 2 ^ 63
    \<and> int (length (staged_entries s')) + int n < 2 ^ 63"
proof (cases "ts_net s")
  case False
  have sum: "saturating_add (ts_staged s) stored = ts_staged s + stored"
    using r st store_wfD(6,7) [OF w] by (intro saturating_add_id) (auto simp: room_def algebra_simps)
  let ?s' = "s\<lparr> ts_staged := ts_staged s + stored \<rparr>"
  have "store_wf ?s'" using w r st by (auto simp: store_wf_def row_entries_def staged_entries_def room_def algebra_simps)
  then show ?thesis using False sum r st
    by (auto simp: stage_def view_def spec_stage_def same_config_def row_entries_def staged_entries_def room_def algebra_simps)
next
  case True
  let ?es = "staged_entries s" and ?old = "map_of (staged_entries s) key"
  obtain m where m: "\<And>own. pmap_insert own (ts_staged_keys s) key stored (length key + 8) staged_cap staged_shape None = Some (m, Inr ?old)"
    "pmap_wf None staged_cap staged_shape m" "pmap_entries None m = upd_list key stored ?es"
    using pmap_insert_wf [OF store_wfD(3) [OF w] staged_cap_wf(1) staged_cap_wf(2) [OF k [OF True]], of stored] r
    by (auto simp: staged_entries_def room_def)
  let ?v = "ts_staged s + stored - staged_of ?old"
  note old = staged_of_bounds [OF w, of key]
  have sum: "saturating_add (ts_staged s) stored = ts_staged s + stored"
    using r st store_wfD(6,7) [OF w] by (intro saturating_add_id) (auto simp: room_def algebra_simps)
  have b: "ts_staged s + stored + int n * 2 ^ 32 < 2 ^ 63" using r st by (auto simp: room_def algebra_simps)
  then have ok: "i64_ok ?v" using old st store_wfD(6,7) [OF w] by (auto simp: i64_ok_def)
  have nn: "\<forall>p \<in> set (pmap_entries None m). 0 \<le> snd p"
    using set_upd_list [of key stored ?es] w st(1) unfolding m(3) by (auto simp: store_wf_def)
  have le: "sum_list (map snd (pmap_entries None m)) \<le> ?v"
    unfolding m(3) sum_upd_list [OF store_wfD(5) [OF w]] using store_wfD(7) [OF w] by simp
  have "length (pmap_entries None m) \<le> Suc (length ?es)"
    unfolding m(3) length_upd_list [OF store_wfD(5) [OF w]] by simp
  then show ?thesis
    using True m(1,3) sum ok b old r staged_update [OF w m(2) nn le] i64_okD [OF ok]
    by (auto simp: stage_def view_def spec_stage_def same_config_def room_def Let_def)
qed

lemma is_empty_entries: "is_empty m \<Longrightarrow> pmap_entries src m = []"
  by (simp add: is_empty_def pmap_entries_def)

lemma unstage_wf:
  assumes w: "store_wf s"
  shows "\<exists>s'. unstage ow key s = Some (s', Inr ()) \<and> store_wf s' \<and> same_config s s' \<and> ts_rows s' = ts_rows s
    \<and> view s' = spec_unstage key (view s) \<and> ts_staged s' \<le> ts_staged s
    \<and> length (staged_entries s') \<le> length (staged_entries s)"
proof (cases "is_empty (ts_staged_keys s)")
  case True
  then have "staged_entries s = []" by (simp add: staged_entries_def is_empty_entries)
  with True w show ?thesis
    by (auto simp: unstage_def view_def spec_unstage_def same_config_def staged_of_def del_list_def)
next
  case False
  let ?es = "staged_entries s" and ?old = "map_of (staged_entries s) key"
  obtain m where m: "\<And>own tk. pmap_remove own tk (ts_staged_keys s) key staged_cap staged_shape None = Some (m, Inr ?old)"
    "pmap_wf None staged_cap staged_shape m" "pmap_entries None m = del_list key ?es"
    using pmap_remove_wf [OF store_wfD(3) [OF w] staged_cap_wf(1), of key] by (auto simp: staged_entries_def)
  let ?v = "ts_staged s - staged_of ?old"
  note old = staged_of_bounds [OF w, of key]
  have nn: "\<forall>p \<in> set (pmap_entries None m). 0 \<le> snd p" using w unfolding m(3) by (auto simp: store_wf_def del_list_def)
  have le: "sum_list (map snd (pmap_entries None m)) \<le> ?v"
    unfolding m(3) sum_del_list [OF store_wfD(5) [OF w]] using store_wfD(7) [OF w] by simp
  have ok: "i64_ok ?v" using old store_wfD(9) [OF w] by (auto simp: i64_ok_def)
  have "length (pmap_entries None m) \<le> length ?es" unfolding m(3) del_list_def by (rule length_filter_le)
  then show ?thesis
    using False m(1,3) ok old staged_update [OF w m(2) nn le i64_okD [OF ok]]
    by (auto simp: unstage_def view_def spec_unstage_def same_config_def Let_def)
qed

lemma rows_update:
  assumes w: "store_wf s" and m: "pmap_wf (store_src s) (ts_cap s) (ts_shape s) m"
  shows "store_wf (s\<lparr> ts_rows := m \<rparr>)" "row_entries (s\<lparr> ts_rows := m \<rparr>) = pmap_entries (store_src s) m"
    "staged_entries (s\<lparr> ts_rows := m \<rparr>) = staged_entries s"
  using w m by (simp_all add: store_wf_def row_entries_def staged_entries_def)

lemma rows_insert_wf:
  assumes w: "store_wf s" and k: "rec_wf (ts_cap s) (ts_shape s) key wt" and n: "int (length (row_entries s)) + 1 < 2 ^ 63"
  shows "\<exists>s'. rows_insert ow key row wt s = Some (s', Inr (map_of (row_entries s) key)) \<and> store_wf s' \<and> same_config s s'
    \<and> ts_staged s' = ts_staged s \<and> staged_entries s' = staged_entries s \<and> length (row_entries s') \<le> Suc (length (row_entries s))
    \<and> view s' = (view s)\<lparr> v_rows := upd_list key row (row_entries s) \<rparr>"
proof -
  obtain m where m: "\<And>own. pmap_insert own (ts_rows s) key row wt (ts_cap s) (ts_shape s) (store_src s) = Some (m, Inr (map_of (row_entries s) key))"
    "pmap_wf (store_src s) (ts_cap s) (ts_shape s) m" "pmap_entries (store_src s) m = upd_list key row (row_entries s)"
    using pmap_insert_wf [OF store_wfD(1,2) [OF w] k, of row] n by (auto simp: row_entries_def)
  have "length (pmap_entries (store_src s) m) \<le> Suc (length (row_entries s))"
    unfolding m(3) length_upd_list [OF store_wfD(4) [OF w]] by simp
  then show ?thesis
    using m(1,3) rows_update [OF w m(2)] by (auto simp: rows_insert_def view_def same_config_def)
qed

lemma rows_remove_wf:
  assumes w: "store_wf s"
  shows "\<exists>s'. rows_remove ow key s = Some (s', Inr (map_of (row_entries s) key)) \<and> store_wf s' \<and> same_config s s'
    \<and> ts_staged s' = ts_staged s \<and> staged_entries s' = staged_entries s \<and> length (row_entries s') \<le> length (row_entries s)
    \<and> view s' = (view s)\<lparr> v_rows := del_list key (row_entries s) \<rparr>"
proof -
  obtain m where m: "\<And>own tk. pmap_remove own tk (ts_rows s) key (ts_cap s) (ts_shape s) (store_src s) = Some (m, Inr (map_of (row_entries s) key))"
    "pmap_wf (store_src s) (ts_cap s) (ts_shape s) m" "pmap_entries (store_src s) m = del_list key (row_entries s)"
    using pmap_remove_wf [OF store_wfD(1,2) [OF w], of key] by (auto simp: row_entries_def)
  have "length (pmap_entries (store_src s) m) \<le> length (row_entries s)" unfolding m(3) del_list_def by (rule length_filter_le)
  then show ?thesis
    using m(1,3) rows_update [OF w m(2)] by (auto simp: rows_remove_def view_def same_config_def)
qed

lemma store_get_wf: "store_wf s \<Longrightarrow> store_get s key = Some (Inr (map_of (row_entries s) key))"
  using counts_wf [OF store_wfD(1), of s key] by (simp add: store_get_def pmap_get_def row_entries_def)

section \<open>Operations refine the abstract store\<close>

definition spec_insert :: "key \<Rightarrow> 'r \<Rightarrow> int \<Rightarrow> 'r store_view \<Rightarrow> 'r store_view" where
  "spec_insert key row n v = (if map_of (v_rows v) key \<noteq> None then v
     else (spec_stage key n v)\<lparr> v_rows := upd_list key row (v_rows v) \<rparr>)"

definition spec_replace :: "key \<Rightarrow> 'r \<Rightarrow> int \<Rightarrow> 'r store_view \<Rightarrow> 'r store_view" where
  "spec_replace key row n v = (spec_stage key n v)\<lparr> v_rows := upd_list key row (v_rows v) \<rparr>"

definition spec_remove :: "key \<Rightarrow> 'r store_view \<Rightarrow> 'r store_view" where
  "spec_remove key v = (if map_of (v_rows v) key = None then v
     else (spec_unstage key v)\<lparr> v_rows := del_list key (v_rows v) \<rparr>)"

lemma v_rows_stage [simp]: "v_rows (spec_stage key n v) = v_rows v" "v_rows (spec_unstage key v) = v_rows v"
  "v_net (spec_stage key n v) = v_net v" "v_next_rowid (spec_stage key n v) = v_next_rowid v"
  by (simp_all add: spec_stage_def spec_unstage_def)

lemma view_simps [simp]:
  "v_rows (view s) = row_entries s" "v_staged_keys (view s) = staged_entries s" "v_staged (view s) = ts_staged s"
  "v_net (view s) = ts_net s" "v_next_rowid (view s) = ts_next_rowid s"
  by (simp_all add: view_def)

lemma write_wf:
  assumes w: "store_wf s" and r: "room s (Suc n)" and sm: "small cd s key row" and wt: "weight cd s key row = (wt, stored)"
  shows "\<exists>s' t. stage ow key stored s = Some (t, Inr ()) \<and> rows_insert ow key row wt t = Some (s', Inr (map_of (row_entries s) key))
    \<and> store_wf s' \<and> same_config s s' \<and> room s' n \<and> view s' = spec_replace key row stored (view s)"
proof -
  have st: "0 \<le> stored" "stored < 2 ^ 32" "ts_net s \<Longrightarrow> staged_key_ok key" "rec_wf (ts_cap s) (ts_shape s) key wt"
    using sm wt by (auto simp: small_def)
  obtain t where t: "stage ow key stored s = Some (t, Inr ())" "store_wf t" "same_config s t" "ts_rows t = ts_rows s"
    "view t = spec_stage key stored (view s)" "ts_staged t + int n * 2 ^ 32 < 2 ^ 63"
    "int (length (staged_entries t)) + int n < 2 ^ 63"
    using stage_wf [OF w r st(1,2,3), of ow] by blast
  have e: "row_entries t = row_entries s" using arg_cong [OF t(5), of v_rows] by simp
  have k: "rec_wf (ts_cap t) (ts_shape t) key wt" using st(4) t(3) by (simp add: same_config_def)
  have n: "int (length (row_entries t)) + 1 < 2 ^ 63" using r e by (simp add: room_def)
  obtain s' where s': "rows_insert ow key row wt t = Some (s', Inr (map_of (row_entries t) key))" "store_wf s'" "same_config t s'"
    "ts_staged s' = ts_staged t" "staged_entries s' = staged_entries t" "length (row_entries s') \<le> Suc (length (row_entries t))"
    "view s' = (view t)\<lparr> v_rows := upd_list key row (row_entries t) \<rparr>"
    using rows_insert_wf [OF t(2) k n, of ow row] by blast
  have i: "ts_next_rowid s' = ts_next_rowid s"
    using arg_cong [OF s'(7), of v_next_rowid] arg_cong [OF t(5), of v_next_rowid] by simp
  have "room s' n" using r t(6,7) s'(4,5,6) e i by (auto simp: room_def)
  moreover have "view s' = spec_replace key row stored (view s)" using s'(7) t(5) e by (simp add: spec_replace_def)
  moreover have "same_config s s'" using t(3) s'(3) by (rule same_config_trans)
  ultimately show ?thesis using t(1) s'(1,2) unfolding e by blast
qed

lemma store_insert_wf:
  assumes "store_wf s" "room s (Suc n)" "small cd s key row"
  shows "\<exists>s'. store_insert cd ow key row s = Some (s', Inr (map_of (row_entries s) key = None)) \<and> store_wf s'
    \<and> same_config s s' \<and> room s' n \<and> view s' = spec_insert key row (snd (weight cd s key row)) (view s)"
proof (cases "map_of (row_entries s) key")
  case None
  obtain wt stored where wt: "weight cd s key row = (wt, stored)" by fastforce
  show ?thesis
    using write_wf [OF assms wt, of ow] store_get_wf [OF assms(1), of key] None wt
    by (auto simp: store_insert_def spec_insert_def spec_replace_def store_get_def)
next
  case (Some x)
  then show ?thesis
    using store_get_wf [OF assms(1), of key] assms
    by (auto simp: store_insert_def spec_insert_def store_get_def same_config_def room_def split: prod.splits)
qed

lemma store_replace_wf:
  assumes "store_wf s" "room s (Suc n)" "small cd s key row"
  shows "\<exists>s'. store_replace cd ow key row s = Some (s', Inr ()) \<and> store_wf s'
    \<and> same_config s s' \<and> room s' n \<and> view s' = spec_replace key row (snd (weight cd s key row)) (view s)"
proof -
  obtain wt stored where wt: "weight cd s key row = (wt, stored)" by fastforce
  show ?thesis using write_wf [OF assms wt, of ow] wt by (auto simp: store_replace_def)
qed

lemma store_remove_wf:
  assumes w: "store_wf s" and r: "room s n"
  shows "\<exists>s'. store_remove ow key s = Some (s', Inr (map_of (row_entries s) key \<noteq> None)) \<and> store_wf s'
    \<and> same_config s s' \<and> room s' n \<and> view s' = spec_remove key (view s)"
proof -
  obtain t where t: "rows_remove ow key s = Some (t, Inr (map_of (row_entries s) key))" "store_wf t" "same_config s t"
    "ts_staged t = ts_staged s" "staged_entries t = staged_entries s" "length (row_entries t) \<le> length (row_entries s)"
    "view t = (view s)\<lparr> v_rows := del_list key (row_entries s) \<rparr>"
    using rows_remove_wf [OF w, of ow key] by blast
  obtain u where u: "unstage ow key t = Some (u, Inr ())" "store_wf u" "same_config t u" "ts_rows u = ts_rows t"
    "view u = spec_unstage key (view t)" "ts_staged u \<le> ts_staged t" "length (staged_entries u) \<le> length (staged_entries t)"
    using unstage_wf [OF t(2), of ow key] by blast
  have i: "ts_next_rowid u = ts_next_rowid s" "ts_next_rowid t = ts_next_rowid s"
    using arg_cong [OF t(7), of v_next_rowid] arg_cong [OF u(5), of v_next_rowid] by (simp_all add: spec_unstage_def)
  have e: "row_entries u = row_entries t" using arg_cong [OF u(5), of v_rows] by simp
  have c: "same_config s u" using t(3) u(3) same_config_trans by blast
  show ?thesis
  proof (cases "map_of (row_entries s) key")
    case None
    then have "del_list key (row_entries s) = row_entries s" by (intro del_list_id) (auto simp: map_of_eq_None_iff)
    then have "view t = view s" using t(7) by (simp add: view_def)
    then show ?thesis using None t r i by (auto simp: store_remove_def spec_remove_def room_def)
  next
    case (Some x)
    have "view u = spec_remove key (view s)"
      using u(5) t(7) Some by (simp add: spec_remove_def spec_unstage_def)
    then show ?thesis using Some t(1,4,5,6) u(1,2,6,7) r i e c by (auto simp: store_remove_def room_def)
  qed
qed

end
