(* ===== verification/Store_Refine.thy ===== *)
theory Store_Refine
  imports Table_Store
begin

text \<open>
  Sequences of store operations against the abstract store, the exactness of the pending-bytes
  balance, the freshness of row ids, and the equality of the fused scans with the separate scan
  and cost walks.
\<close>
section \<open>Sequences of operations\<close>

datatype 'r store_op =
    Insert key 'r
  | Replace key 'r
  | Remove key
  | Set_net bool
  | Clear_staged
  | Forget_staged_keys
  | Alloc_rowid
  | Bump_rowid int

datatype answer = Unit | Flag bool | Rowid int

fun run_op :: "('c, 'r) codec \<Rightarrow> owners \<Rightarrow> 'r store_op \<Rightarrow> (('c, 'r) table_store, answer) prog" where
  "run_op cd ow (Insert key row) s = st_bind (store_insert cd ow key row s) (\<lambda>b s. Some (s, Inr (Flag b)))"
| "run_op cd ow (Replace key row) s = st_bind (store_replace cd ow key row s) (\<lambda>_ s. Some (s, Inr Unit))"
| "run_op cd ow (Remove key) s = st_bind (store_remove ow key s) (\<lambda>b s. Some (s, Inr (Flag b)))"
| "run_op cd ow (Set_net b) s = Some (set_net_staging b s, Inr Unit)"
| "run_op cd ow Clear_staged s = Some (clear_staged s, Inr Unit)"
| "run_op cd ow Forget_staged_keys s = Some (forget_staged_keys s, Inr Unit)"
| "run_op cd ow Alloc_rowid s = map_option (\<lambda>(s, r). (s, Inr (Rowid r))) (alloc_rowid s)"
| "run_op cd ow (Bump_rowid n) s = Some (bump_rowid_to n s, Inr Unit)"

text \<open>A sequence of operations, each under some ownership; the answers in order.\<close>

fun run_ops :: "('c, 'r) codec \<Rightarrow> (owners \<times> 'r store_op) list \<Rightarrow> (('c, 'r) table_store, answer list) prog" where
  "run_ops cd [] s = Some (s, Inr [])"
| "run_ops cd ((ow, op) # ops) s = st_bind (run_op cd ow op s) (\<lambda>a s.
     st_bind (run_ops cd ops s) (\<lambda>as s. Some (s, Inr (a # as))))"

text \<open>The abstract operations, given the stored bytes of a record.\<close>

fun spec_op :: "(key \<Rightarrow> 'r \<Rightarrow> int) \<Rightarrow> 'r store_op \<Rightarrow> 'r store_view \<Rightarrow> 'r store_view \<times> answer" where
  "spec_op sz (Insert key row) v = (spec_insert key row (sz key row) v, Flag (map_of (v_rows v) key = None))"
| "spec_op sz (Replace key row) v = (spec_replace key row (sz key row) v, Unit)"
| "spec_op sz (Remove key) v = (spec_remove key v, Flag (map_of (v_rows v) key \<noteq> None))"
| "spec_op sz (Set_net b) v = (v\<lparr> v_net := b \<rparr>, Unit)"
| "spec_op sz Clear_staged v = (v\<lparr> v_staged := 0, v_staged_keys := [] \<rparr>, Unit)"
| "spec_op sz Forget_staged_keys v = (v\<lparr> v_staged_keys := [] \<rparr>, Unit)"
| "spec_op sz Alloc_rowid v = (v\<lparr> v_next_rowid := v_next_rowid v + 1 \<rparr>, Rowid (v_next_rowid v))"
| "spec_op sz (Bump_rowid n) v = (v\<lparr> v_next_rowid := max n (v_next_rowid v) \<rparr>, Unit)"

fun spec_ops :: "(key \<Rightarrow> 'r \<Rightarrow> int) \<Rightarrow> 'r store_op list \<Rightarrow> 'r store_view \<Rightarrow> 'r store_view \<times> answer list" where
  "spec_ops sz [] v = (v, [])"
| "spec_ops sz (op # ops) v = (case spec_op sz op v of (v, a) \<Rightarrow> map_prod id ((#) a) (spec_ops sz ops v))"

definition stored_bytes :: "('c, 'r) codec \<Rightarrow> ('c, 'r) table_store \<Rightarrow> key \<Rightarrow> 'r \<Rightarrow> int" where
  "stored_bytes cd s key row = snd (weight cd s key row)"

definition record_ok :: "('c, 'r) codec \<Rightarrow> ('c, 'r) table_store \<Rightarrow> key \<Rightarrow> 'r \<Rightarrow> bool" where
  "record_ok cd s key row \<longleftrightarrow> rec_wf (ts_cap s) (ts_shape s) key (fst (weight cd s key row))
     \<and> 0 \<le> stored_bytes cd s key row \<and> stored_bytes cd s key row < 2 ^ 32 \<and> staged_key_ok key"

fun op_ok :: "('c, 'r) codec \<Rightarrow> ('c, 'r) table_store \<Rightarrow> 'r store_op \<Rightarrow> bool" where
  "op_ok cd s (Insert key row) \<longleftrightarrow> record_ok cd s key row"
| "op_ok cd s (Replace key row) \<longleftrightarrow> record_ok cd s key row"
| "op_ok cd s (Bump_rowid n) \<longleftrightarrow> n \<le> 2 ^ 62"
| "op_ok cd s op \<longleftrightarrow> True"

lemma config_fun:
  assumes "same_config s s'"
  shows "weight cd s' = weight cd s" "stored_bytes cd s' = stored_bytes cd s" "op_ok cd s' op = op_ok cd s op"
proof -
  show w: "weight cd s' = weight cd s" using assms by (intro ext) (simp add: weight_def same_config_def)
  then show "stored_bytes cd s' = stored_bytes cd s" by (intro ext) (simp add: stored_bytes_def)
  then show "op_ok cd s' op = op_ok cd s op" using assms w by (cases op) (simp_all add: record_ok_def same_config_def)
qed

lemma record_ok_small: "record_ok cd s key row \<Longrightarrow> small cd s key row"
  by (simp add: record_ok_def small_def stored_bytes_def)

lemma pmap_new_staged [simp]: "pmap_wf None staged_cap staged_shape pmap_new" "pmap_entries src pmap_new = []"
  by (simp_all add: pmap_wf_def pmap_new_def pmap_entries_def)

lemma run_op_wf:
  assumes w: "store_wf s" and r: "room s (Suc n)" and ok: "op_ok cd s op"
  shows "\<exists>s' a. run_op cd ow op s = Some (s', Inr a) \<and> store_wf s' \<and> same_config s s' \<and> room s' n
    \<and> spec_op (stored_bytes cd s) op (view s) = (view s', a)"
proof (cases op)
  case (Insert key row)
  then show ?thesis using store_insert_wf [OF w r record_ok_small, of cd key row ow] ok by (auto simp: stored_bytes_def)
next
  case (Replace key row)
  then show ?thesis using store_replace_wf [OF w r record_ok_small, of cd key row ow] ok by (auto simp: stored_bytes_def)
next
  case (Remove key)
  have "room s n" using r by (simp add: room_def)
  with Remove show ?thesis using store_remove_wf [OF w, of n ow key] by auto
next
  case (Set_net b)
  then show ?thesis using w r by (simp add: set_net_staging_def store_wf_def row_entries_def staged_entries_def same_config_def room_def view_def)
next
  case Clear_staged
  have "0 \<le> ts_staged s" using store_wfD(6,7) [OF w] by simp
  with Clear_staged show ?thesis using w r by (simp add: clear_staged_def store_wf_def row_entries_def staged_entries_def same_config_def room_def view_def)
next
  case Forget_staged_keys
  have "0 \<le> ts_staged s" using store_wfD(6,7) [OF w] by simp
  with Forget_staged_keys show ?thesis using w r by (simp add: forget_staged_keys_def store_wf_def row_entries_def staged_entries_def same_config_def room_def view_def)
next
  case Alloc_rowid
  have "i64_ok (ts_next_rowid s + 1)" using w r by (simp add: i64_ok_def store_wf_def room_def)
  with Alloc_rowid show ?thesis using w r by (simp add: alloc_rowid_def Let_def store_wf_def row_entries_def staged_entries_def same_config_def room_def view_def)
next
  case (Bump_rowid i)
  then show ?thesis using w r ok by (auto simp: bump_rowid_to_def store_wf_def row_entries_def staged_entries_def same_config_def room_def view_def max_def)
qed

lemma run_ops_wf:
  assumes "store_wf s" "room s (length ops)" "\<forall>(ow, op) \<in> set ops. op_ok cd s op"
  shows "\<exists>s' as. run_ops cd ops s = Some (s', Inr as) \<and> store_wf s' \<and> same_config s s'
    \<and> spec_ops (stored_bytes cd s) (map snd ops) (view s) = (view s', as)"
  using assms
proof (induction ops arbitrary: s)
  case Nil
  then show ?case by (simp add: same_config_def)
next
  case (Cons p ops)
  obtain ow op where p: "p = (ow, op)" by fastforce
  obtain t a where t: "run_op cd ow op s = Some (t, Inr a)" "store_wf t" "same_config s t" "room t (length ops)"
    "spec_op (stored_bytes cd s) op (view s) = (view t, a)"
    using run_op_wf [OF Cons.prems(1), of "length ops" cd op ow] Cons.prems(2,3) p by auto
  have "\<forall>(ow, op) \<in> set ops. op_ok cd t op" using Cons.prems(3) config_fun(3) [OF t(3)] by simp
  from Cons.IH [OF t(2,4) this] obtain s' as where s': "run_ops cd ops t = Some (s', Inr as)" "store_wf s'" "same_config t s'"
    "spec_ops (stored_bytes cd s) (map snd ops) (view t) = (view s', as)" using config_fun(2) [OF t(3)] by auto
  then show ?case using t p same_config_trans [OF t(3) s'(3)] by simp
qed

section \<open>Net staging\<close>

fun is_write :: "'r store_op \<Rightarrow> bool" where
  "is_write (Insert _ _) = True" | "is_write (Replace _ _) = True" | "is_write (Remove _) = True" | "is_write _ = False"

text \<open>
  The balance against the published rows \<open>es\<close>: it is the bytes of the recorded versions, each of
  which is the row its key has now, and every row that differs from the published one is recorded.
\<close>

definition balanced :: "(key \<Rightarrow> 'r \<Rightarrow> int) \<Rightarrow> (key \<times> 'r) list \<Rightarrow> 'r store_view \<Rightarrow> bool" where
  "balanced sz es v \<longleftrightarrow> v_net v \<and> sorted_keys (v_rows v) \<and> sorted_keys (v_staged_keys v)
     \<and> v_staged v = sum_list (map snd (v_staged_keys v))
     \<and> (\<forall>k n. map_of (v_staged_keys v) k = Some n \<longrightarrow> (\<exists>r. map_of (v_rows v) k = Some r \<and> n = sz k r))
     \<and> (\<forall>k r. map_of (v_rows v) k = Some r \<longrightarrow> map_of es k \<noteq> Some r \<longrightarrow> map_of (v_staged_keys v) k \<noteq> None)"

lemma balanced_replace: "balanced sz es v \<Longrightarrow> balanced sz es (spec_replace key row (sz key row) v)"
  by (auto simp: balanced_def spec_replace_def spec_stage_def sorted_upd_list sum_upd_list map_of_upd_list)

lemma balanced_remove: "balanced sz es v \<Longrightarrow> balanced sz es (spec_remove key v)"
  by (auto simp: balanced_def spec_remove_def spec_unstage_def sorted_del_list sum_del_list map_of_del_list)

lemma balanced_op: "balanced sz es v \<Longrightarrow> is_write op \<Longrightarrow> balanced sz es (fst (spec_op sz op v))"
  using balanced_replace [of sz es v] balanced_remove [of sz es v]
  by (cases op) (auto simp: spec_insert_def spec_replace_def)

lemma balanced_ops:
  "balanced sz es v \<Longrightarrow> \<forall>op \<in> set ops. is_write op \<Longrightarrow> balanced sz es (fst (spec_ops sz ops v))"
proof (induction ops arbitrary: v)
  case (Cons op ops)
  obtain v' a where "spec_op sz op v = (v', a)" by fastforce
  then show ?case using Cons balanced_op [of sz es v op] by simp
qed simp

text \<open>
  The keys of the rows that are pending: those a sequence wrote, by an insert that took place or a replace,
  and has not removed since. \<open>W\<close> are the keys pending before.
\<close>

fun pending :: "'r store_op list \<Rightarrow> answer list \<Rightarrow> key set \<Rightarrow> key set" where
  "pending (Insert key row # ops) (a # as) W = pending ops as (if a = Flag True then insert key W else W)"
| "pending (Replace key row # ops) (a # as) W = pending ops as (insert key W)"
| "pending (Remove key # ops) (a # as) W = pending ops as (W - {key})"
| "pending (op # ops) (a # as) W = pending ops as W"
| "pending ops as W = W"

lemma pending_ops:
  "balanced sz es v \<Longrightarrow> \<forall>op \<in> set ops. is_write op \<Longrightarrow> spec_ops sz ops v = (v', as)
   \<Longrightarrow> dom (map_of (v_staged_keys v')) = pending ops as (dom (map_of (v_staged_keys v)))"
proof (induction ops arbitrary: v as)
  case (Cons op ops)
  obtain u a where u: "spec_op sz op v = (u, a)" by fastforce
  obtain bs where bs: "spec_ops sz ops u = (v', bs)" "as = a # bs"
    using Cons.prems(3) u by (cases "spec_ops sz ops u") auto
  have b: "balanced sz es u" using balanced_op [of sz es v op] Cons.prems u by simp
  have "v_net v" "sorted_keys (v_staged_keys v)"
    "\<And>k. map_of (v_rows v) k = None \<Longrightarrow> map_of (v_staged_keys v) k = None"
    using Cons.prems(1) unfolding balanced_def by (blast, blast, metis option.exhaust option.distinct(1))
  then have "pending (op # ops) as W = pending ops bs (dom (map_of (v_staged_keys u)))"
    if "W = dom (map_of (v_staged_keys v))" for W
    using that u bs(2) Cons.prems(2)
    by (cases op) (auto simp: spec_insert_def spec_replace_def spec_remove_def spec_stage_def spec_unstage_def
        map_of_upd_list map_of_del_list dom_def intro!: arg_cong [of _ _ "pending ops bs"] split: if_splits)
  then show ?case using Cons.IH [OF b _ bs(1)] Cons.prems(2) by simp
qed simp

section \<open>Row ids\<close>

definition rowids :: "answer list \<Rightarrow> int list" where
  "rowids as = concat (map (\<lambda>a. case a of Rowid r \<Rightarrow> [r] | _ \<Rightarrow> []) as)"

lemma spec_rowids:
  "spec_ops sz ops v = (v', as) \<Longrightarrow> sorted_wrt (<) (rowids as) \<and> (\<forall>r \<in> set (rowids as). v_next_rowid v \<le> r \<and> r < v_next_rowid v')
     \<and> v_next_rowid v \<le> v_next_rowid v'"
proof (induction ops arbitrary: v as)
  case (Cons op ops)
  obtain u a where u: "spec_op sz op v = (u, a)" by fastforce
  obtain bs where bs: "spec_ops sz ops u = (v', bs)" "as = a # bs" using Cons.prems u by (auto simp: map_prod_def split: prod.splits)
  note IH = Cons.IH [OF bs(1)]
  have "v_next_rowid v \<le> v_next_rowid u \<and> (case a of Rowid r \<Rightarrow> v_next_rowid v = r \<and> r < v_next_rowid u | _ \<Rightarrow> True)"
    using u by (cases op) (auto simp: spec_insert_def spec_replace_def spec_remove_def spec_unstage_def)
  then show ?case using IH by (cases a) (fastforce simp: rowids_def bs(2))+
qed (simp add: rowids_def)
section \<open>Cost blocks\<close>

definition point_bound :: "key \<Rightarrow> key_bound" where
  "point_bound key = \<lparr> kb_lo = Some key, kb_lo_inc = True, kb_hi = Some key, kb_hi_inc = True \<rparr>"

lemma overlap_point:
  "node_wf src cp sh h lo hi n \<Longrightarrow> overlap_count (point_bound key) n = Some (h + 1)"
proof (induction h arbitrary: lo hi n)
  case (Suc h)
  then obtain p ks cs where n: "n = Interior p ks cs" "separated (child_wf src cp sh h) lo hi ks cs"
    by (auto simp: node_wf_Suc)
  let ?i = "child_slot ks key"
  have c: "child_positions False (point_bound key) ks = [?i]"
    by (simp add: child_positions_def child_window_def point_bound_def child_slot_def Let_def)
  then have i: "?i < length cs" by (metis child_positions_lt [OF n(2)] list.set_intros(1))
  obtain m where m: "node_wf src cp sh h (range_lo lo ks ?i) (range_hi hi ks ?i) m"
    "ovl_child (point_bound key) (cs ! ?i) = the (overlap_count (point_bound key) m)"
    using separated_nth [OF n(2) i] i by (auto elim!: with_child_wf)
  show ?case unfolding n(1) overlap_count_interior [OF n(2)] c using m(2) Suc.IH [OF m(1)] by simp
qed (auto simp: node_wf_0)

lemma point_count:
  assumes "pmap_wf src cp sh m"
  shows "overlap_node_count m (point_bound key) = Some (height m)"
proof (cases "root m")
  case (Some n)
  then obtain h where w: "node_wf src cp sh h None None n" using assms by (auto simp: pmap_wf_def)
  show ?thesis using overlap_point [OF w] height_loop_wf [OF w, of 0] by (simp add: Some overlap_node_count_def height_def)
qed (simp add: overlap_node_count_def height_def)

lemma bounded_point:
  "sorted_keys es \<Longrightarrow> bounded (point_bound key) es = (case map_of es key of None \<Rightarrow> [] | Some r \<Rightarrow> [(key, r)])"
proof (induction es)
  case (Cons p es)
  have e: "in_bound (point_bound key) k \<longleftrightarrow> k = key" for k by (auto simp: in_bound_def point_bound_def)
  show ?case
  proof (cases "fst p = key")
    case True
    then have "map_of es key = None" using Cons.prems by (intro map_of_outside) auto
    then show ?thesis using True Cons by (cases p) (simp add: bounded_def e)
  next
    case False
    then show ?thesis using Cons by (cases p) (auto simp: bounded_def e)
  qed
qed (simp add: bounded_def)

definition record_units :: "('c, 'r) codec \<Rightarrow> ('c, 'r) table_store \<Rightarrow> bool list \<Rightarrow> (key \<times> 'r) list \<Rightarrow> nat \<Rightarrow> nat \<times> nat" where
  "record_units cd s touched es pages =
     (if any_spillable_masked cd (ts_col_types s) touched then fold (add_units cd s touched) es (pages, 0) else (pages, 0))"

lemma scan_units_fold:
  assumes "store_wf s"
  shows "finished (store_scan_range s b (\<lambda>kr u. Some (f kr u, Inr True)) u) = Some (Inr (fold f (bounded b (row_entries s)) u))"
proof -
  have "for_while (\<lambda>kr u. Some (f kr u, Inr True)) (bounded b (row_entries s)) u
      = Some (fold f (bounded b (row_entries s)) u, Inr True :: bool result)"
    by (rule for_while_total) simp
  then show ?thesis
    using scan_range_wf [OF store_wfD(1) [OF assms], of b "prefetches s" "\<lambda>kr u. Some (f kr u, Inr True)" u]
    by (simp add: store_scan_range_def finished_def row_entries_def)
qed

lemma cost_blocks:
  assumes "store_wf s"
  shows "\<exists>c. overlap_node_count (ts_rows s) b = Some c
    \<and> overlap_scan_units cd s b touched = Some (Inr (record_units cd s touched (bounded b (row_entries s)) c))
    \<and> range_scan_with_units cd s b touched
        = Some (Inr (bounded b (row_entries s), record_units cd s touched (bounded b (row_entries s)) c))
    \<and> store_range_entries s b = Some (Inr (bounded b (row_entries s)))"
proof -
  obtain c where c: "overlap_node_count (ts_rows s) b = Some c"
    "range_entries_counted (ts_rows s) b (store_src s) = Some (Inr (bounded b (row_entries s), c))"
    "range_entries (ts_rows s) b (store_src s) = Some (Inr (bounded b (row_entries s)))"
    using bounded_scan_wf [OF store_wfD(1) [OF assms], of b] unfolding row_entries_def by blast
  then show ?thesis using scan_units_fold [OF assms, of b "add_units cd s touched" "(c, 0)"]
    by (auto simp: overlap_scan_units_def range_scan_with_units_def store_range_entries_def record_units_def)
qed

lemma full_scan_units:
  assumes "store_wf s"
  shows "scan_units cd s touched = overlap_scan_units cd s unbounded touched"
    "iter_entries s = store_range_entries s unbounded"
proof -
  have "bounded unbounded es = es" for es :: "(key \<times> 'b) list" by (simp add: bounded_def)
  then show "scan_units cd s touched = overlap_scan_units cd s unbounded touched"
    "iter_entries s = store_range_entries s unbounded"
    using counts_wf [OF store_wfD(1) [OF assms]] bounded_scan_wf [OF store_wfD(1) [OF assms], of unbounded]
    by (auto simp: scan_units_def overlap_scan_units_def iter_entries_def store_range_entries_def finished_def)
qed

lemma point_units:
  assumes "store_wf s"
  shows "\<exists>u. overlap_scan_units cd s (point_bound key) touched = Some (Inr u)
    \<and> get_with_units cd s key touched = Some (Inr (map_of (row_entries s) key, u))"
proof -
  note w = store_wfD(1) [OF assms]
  have c: "overlap_node_count (ts_rows s) (point_bound key) = Some (height (ts_rows s))" by (rule point_count [OF w])
  have g: "get_counted (ts_rows s) key (store_src s) = Some (Inr (map_of (row_entries s) key, height (ts_rows s), of_bool (key \<in> fst ` set (row_entries s))))"
    using counts_wf [OF w, of key] by (simp add: row_entries_def)
  show ?thesis
    using cost_blocks [OF assms, of "point_bound key" cd touched] c g bounded_point [OF store_wfD(4) [OF assms], of key]
    by (auto simp: get_with_units_def record_units_def add_units_def split: option.splits prod.splits)
qed

section \<open>Properties\<close>

text \<open>A sample: one-byte cells, records weighing one byte more than their key.\<close>

definition sample_codec :: "(unit, nat) codec" where
  "sample_codec = \<lparr> record_footprint = (\<lambda>_ k r _. (length k + 1, length k + r)),
     record_scan_units = (\<lambda>_ _ r _ _. (r, 1)), any_spillable_masked = (\<lambda>_ touched. touched \<noteq> []),
     fixed_value_width = (\<lambda>_. None) \<rparr>"

definition sample_store :: "(unit, nat) table_store" where
  "sample_store = table_store_new sample_codec \<lparr> cap_c = 512, cap_tag = 0 \<rparr> []"

definition shared_owners :: owners where
  "shared_owners = \<lparr> ow_rows = (\<lambda>_. False), ow_rows_merge = (\<lambda>_. False), ow_keys = (\<lambda>_. False), ow_keys_merge = (\<lambda>_. False) \<rparr>"

lemma sample_store_wf: "store_wf sample_store" "n < 100 \<Longrightarrow> room sample_store n"
    "view sample_store = \<lparr> v_rows = [], v_staged_keys = [], v_staged = 0, v_net = False, v_next_rowid = 0 \<rparr>"
    "row_entries sample_store = []" "staged_entries sample_store = []"
  by (simp_all add: store_wf_def room_def view_def sample_store_def table_store_new_def row_entries_def staged_entries_def
      cap_wf_def rec_fits_def leaf_shape_of_def shape_k_def ptr_def RECORD_MAX_RESERVE_def pmap_wf_def pmap_new_def pmap_entries_def)

lemma sample_record_ok: "length key \<le> 100 \<Longrightarrow> row < 100 \<Longrightarrow> record_ok sample_codec sample_store key row"
  "stored_bytes sample_codec sample_store key row = (int (length key + row) + 2 ^ 63) mod 2 ^ 64 - 2 ^ 63"
  by (simp_all add: record_ok_def rec_wf_def rec_fits_def stored_bytes_def weight_def sample_codec_def sample_store_def
      table_store_new_def leaf_shape_of_def shape_k_def RECORD_MAX_RESERVE_def staged_key_ok_def)

text \<open>
  C3. Every sequence of writes, staging controls and row-id allocations on a well-formed store
  succeeds, keeps the invariant and is the same sequence on the abstract store: an ordered map,
  the recorded versions, the balance and the row-id counter, with the same answers. Ownership of
  the tree nodes is irrelevant.
\<close>

theorem store_ops_refine:
  assumes "store_wf s" "room s (length ops)" "\<forall>(ow, op) \<in> set ops. op_ok cd s op"
  shows "\<exists>s' as. run_ops cd ops s = Some (s', Inr as) \<and> store_wf s'
    \<and> spec_ops (stored_bytes cd s) (map snd ops) (view s) = (view s', as)"
  using run_ops_wf [OF assms] by blast

theorem store_ops_refine_witness:
  "\<exists>s'. run_ops sample_codec (map (Pair shared_owners) [Set_net True, Insert [1] 7, Insert [1] 8, Replace [1] 9, Insert [2] 5, Remove [2]]) sample_store
      = Some (s', Inr [Unit, Flag True, Flag False, Unit, Flag True, Flag True])
    \<and> row_entries s' = [([1], 9)] \<and> ts_staged s' = 10"
proof -
  let ?ops = "[Set_net True, Insert [1] 7, Insert [1] 8, Replace [1] 9, Insert [2] 5, Remove [2]] :: nat store_op list"
  obtain s' as where s': "run_ops sample_codec (map (Pair shared_owners) ?ops) sample_store = Some (s', Inr as)"
    "spec_ops (stored_bytes sample_codec sample_store) ?ops (view sample_store) = (view s', as)"
    using store_ops_refine [OF sample_store_wf(1), of "map (Pair shared_owners) ?ops" sample_codec] sample_store_wf(2)
    by (auto simp: sample_record_ok(1) comp_def)
  have "(1 :: u8) < 2" by simp
  then have "view s' = \<lparr> v_rows = [([1], 9)], v_staged_keys = [([1], 10)], v_staged = 10, v_net = True, v_next_rowid = 0 \<rparr>"
    "as = [Unit, Flag True, Flag False, Unit, Flag True, Flag True]"
    using s'(2) by (auto simp: sample_store_wf(3) sample_record_ok(2) spec_insert_def spec_replace_def spec_remove_def
        spec_stage_def spec_unstage_def staged_of_def del_list_def)
  then show ?thesis using s'(1) by (auto simp: view_def)
qed

text \<open>
  C22. Net staging is exact: from a published store with key recording on, after any sequence of
  inserts, replaces and removes the pending bytes are the stored bytes of the recorded versions, each
  recorded version is the row its key now has, the recorded keys are exactly those of the rows that the
  sequence wrote and did not remove since, and so every row that differs from the published one is
  recorded.
\<close>

theorem net_staging_exact:
  assumes "store_wf s" "room s (length ops)" "\<forall>(ow, op) \<in> set ops. op_ok cd s op \<and> is_write op"
  shows "\<exists>s' as. run_ops cd ops (set_net_staging True (clear_staged s)) = Some (s', Inr as)
    \<and> ts_staged s' = sum_list (map snd (staged_entries s'))
    \<and> (\<forall>k n. map_of (staged_entries s') k = Some n \<longrightarrow> (\<exists>r. map_of (row_entries s') k = Some r \<and> n = stored_bytes cd s k r))
    \<and> (\<forall>k. map_of (staged_entries s') k \<noteq> None \<longleftrightarrow> k \<in> pending (map snd ops) as {})
    \<and> (\<forall>k r. map_of (row_entries s') k = Some r \<longrightarrow> map_of (row_entries s) k \<noteq> Some r \<longrightarrow> map_of (staged_entries s') k \<noteq> None)"
proof -
  let ?s = "set_net_staging True (clear_staged s)"
  have "0 \<le> ts_staged s" using store_wfD(6,7) [OF assms(1)] by simp
  then have w: "store_wf ?s" "room ?s (length ops)" "same_config s ?s" "row_entries ?s = row_entries s"
    "view ?s = \<lparr> v_rows = row_entries s, v_staged_keys = [], v_staged = 0, v_net = True, v_next_rowid = ts_next_rowid s \<rparr>"
    using assms(1,2) by (simp_all add: set_net_staging_def clear_staged_def store_wf_def room_def same_config_def row_entries_def
        staged_entries_def view_def)
  have "\<forall>(ow, op) \<in> set ops. op_ok cd ?s op" using assms(3) config_fun(3) [OF w(3)] by auto
  from run_ops_wf [OF w(1,2) this] obtain s' as where s': "run_ops cd ops ?s = Some (s', Inr as)"
    "spec_ops (stored_bytes cd s) (map snd ops) (view ?s) = (view s', as)" using config_fun(2) [OF w(3)] by auto
  have b: "balanced (stored_bytes cd s) (row_entries s) (view ?s)"
    using store_wfD(4) [OF assms(1)] by (simp add: balanced_def w(5))
  have wr: "\<forall>op \<in> set (map snd ops). is_write op" using assms(3) by auto
  with b have "balanced (stored_bytes cd s) (row_entries s) (view s')"
    using balanced_ops [of "stored_bytes cd s" "row_entries s" "view ?s" "map snd ops"] s'(2) by simp
  moreover have "dom (map_of (staged_entries s')) = pending (map snd ops) as {}"
    using pending_ops [OF b wr s'(2)] w(5) by (simp add: view_def)
  ultimately show ?thesis using s'(1) by (auto simp: balanced_def view_def dom_def)
qed

theorem net_staging_exact_witness:
  "\<exists>s' as. run_ops sample_codec (map (Pair shared_owners) [Insert [1] 7, Replace [1] 9]) (set_net_staging True (clear_staged sample_store))
      = Some (s', Inr as) \<and> ts_staged s' = sum_list (map snd (staged_entries s'))"
  using net_staging_exact [OF sample_store_wf(1), of "map (Pair shared_owners) [Insert [1] 7, Replace [1] 9]" sample_codec]
    sample_store_wf(2) by (auto simp: sample_record_ok(1))

text \<open>
  C17. The fused scans are exactly the separate ones: a bounded scan with units returns the admitted
  records and the cost block of \<open>overlap_scan_units\<close>; the full scan likewise; a point lookup with
  units returns the row of the key and the block its point bound is charged, and its page count
  before touching the leaf is \<open>point_node_count\<close>.
\<close>

theorem fused_scans_exact:
  assumes "store_wf s"
  shows "(\<exists>es u. store_range_entries s b = Some (Inr es) \<and> overlap_scan_units cd s b touched = Some (Inr u)
       \<and> range_scan_with_units cd s b touched = Some (Inr (es, u)))
    \<and> (\<exists>es u. iter_entries s = Some (Inr es) \<and> scan_units cd s touched = Some (Inr u)
       \<and> scan_with_units cd s touched = Some (Inr (es, u)))
    \<and> (\<exists>r u. store_get s key = Some (Inr r) \<and> overlap_scan_units cd s (point_bound key) touched = Some (Inr u)
       \<and> get_with_units cd s key touched = Some (Inr (r, u)))
    \<and> overlap_node_count (ts_rows s) (point_bound key) = Some (point_node_count s)"
  using cost_blocks [OF assms, of b cd touched] cost_blocks [OF assms, of unbounded cd touched]
    full_scan_units(1) [OF assms, of cd touched] full_scan_units(2) [OF assms] point_units [OF assms, of cd key touched] store_get_wf [OF assms, of key]
    point_count [OF store_wfD(1) [OF assms], of key]
  by (fastforce simp: scan_with_units_def point_node_count_def)

definition paged_store :: "(unit, nat) table_store" where
  "paged_store = (table_store_new sample_codec tiny_cap [])\<lparr> ts_rows := paged_map,
     ts_paging := Some \<lparr> sp_fault_leaf = (\<lambda>p _. the paged_source p), sp_batches_reads = True \<rparr> \<rparr>"

lemma paged_store_wf: "store_wf paged_store" "row_entries paged_store = [([1], 10), ([2], 20), ([3], 30), ([4], 40)]"
proof -
  have s: "store_src paged_store = paged_source"
    by (simp add: store_src_def paged_store_def make_src_def paged_source_def)
  have c: "ts_cap paged_store = tiny_cap" "ts_shape paged_store = index_shape" "ts_rows paged_store = paged_map"
    "ts_staged_keys paged_store = pmap_new" "ts_staged paged_store = 0" "ts_next_rowid paged_store = 0"
    by (simp_all add: paged_store_def table_store_new_def leaf_shape_of_def index_shape_def)
  show "store_wf paged_store" using paged_map_wf(1) tiny_cap_wf by (simp add: store_wf_def s c staged_entries_def)
  show "row_entries paged_store = [([1], 10), ([2], 20), ([3], 30), ([4], 40)]"
    using paged_map_wf(2) by (simp add: row_entries_def s c)
qed

theorem fused_scans_exact_witness:
  "get_with_units sample_codec paged_store [3] [True] = Some (Inr (Some 30, 32, 1))
   \<and> overlap_scan_units sample_codec paged_store (point_bound [3]) [True] = Some (Inr (32, 1))"
proof -
  have "get_with_units sample_codec paged_store [3] [True] = Some (Inr (Some 30, 32, 1))" by code_simp
  then show ?thesis
    using fused_scans_exact [OF paged_store_wf(1), of unbounded sample_codec "[True]" "[3]"] by auto
qed

text \<open>
  Row ids are never reused: in every sequence of operations the allocated ids are strictly
  increasing, start at the counter the store had and stay below the counter it ends with.
\<close>

theorem rowids_fresh:
  assumes "store_wf s" "room s (length ops)" "\<forall>(ow, op) \<in> set ops. op_ok cd s op"
  shows "\<exists>s' as. run_ops cd ops s = Some (s', Inr as) \<and> sorted_wrt (<) (rowids as)
    \<and> (\<forall>r \<in> set (rowids as). ts_next_rowid s \<le> r \<and> r < ts_next_rowid s')"
  using run_ops_wf [OF assms] spec_rowids [of "stored_bytes cd s" "map snd ops" "view s"] by fastforce

theorem rowids_fresh_witness:
  "\<exists>s'. run_ops sample_codec (map (Pair shared_owners) [Alloc_rowid, Bump_rowid 5, Alloc_rowid]) sample_store
      = Some (s', Inr [Rowid 0, Unit, Rowid 5]) \<and> (\<forall>r \<in> {0, 5}. r < ts_next_rowid s')"
proof -
  have c: "run_ops sample_codec (map (Pair shared_owners) [Alloc_rowid, Bump_rowid 5, Alloc_rowid]) sample_store
      = Some (sample_store\<lparr> ts_next_rowid := 6 \<rparr>, Inr [Rowid 0, Unit, Rowid 5])"
    by (simp add: alloc_rowid_def bump_rowid_to_def i64_ok_def sample_store_def table_store_new_def)
  then show ?thesis
    using rowids_fresh [OF sample_store_wf(1), of "map (Pair shared_owners) [Alloc_rowid, Bump_rowid 5, Alloc_rowid]" sample_codec]
      sample_store_wf(2) by (auto simp: rowids_def)
qed

end
