(* ===== verification/Gin_Runs.thy ===== *)
theory Gin_Runs
  imports Pmap_Scan
begin

text \<open>
  The posting runs of a GIN entry tree (\<open>gin_runs.rs\<close>): a record key holds a term, the run's last
  storage key, the earlier keys front-coded, and the length of that body. This theory has the
  codec, the packing of a posting list and the split of a grown run; the round trip, and what a
  malformed run does. The operations on a store are in \<open>Gin_Index\<close>. \<open>None\<close> is a panic: an empty
  key list or a body over 65535 bytes in \<open>encode_run\<close>, a slice out of range in \<open>decode_run\<close>.
\<close>

section \<open>Varints\<close>

definition GIN_RUN_MAX_BYTES :: nat where "GIN_RUN_MAX_BYTES = 64"

definition corrupt :: engine_error where
  "corrupt = (DataCorrupted, ''a GIN posting run is malformed'')"

function push_varint :: "bytes \<Rightarrow> nat \<Rightarrow> bytes" where
  "push_varint out v =
     (let byte = of_nat (v AND 0x7F); v = drop_bit 7 v in
      if v = 0 then out @ [byte] else push_varint (out @ [byte OR 0x80]) v)"
  by auto
termination
  by (relation "measure snd") (auto simp: drop_bit_eq_div)

declare push_varint.simps [simp del]

text \<open>The position after the last byte is part of the result; on an error it is not used.\<close>

fun read_varint_loop :: "nat list \<Rightarrow> bytes \<Rightarrow> nat \<Rightarrow> nat \<Rightarrow> (nat \<times> nat) result" where
  "read_varint_loop [] bs at v = Inl corrupt"
| "read_varint_loop (shift # shifts) bs at v =
     (case nth_opt bs at of
        None \<Rightarrow> Inl corrupt
      | Some byte \<Rightarrow>
          let v = v OR push_bit shift (unat (byte AND 0x7F)) in
          if byte AND 0x80 = 0 then Inr (v, at + 1) else read_varint_loop shifts bs (at + 1) v)"

definition read_varint :: "bytes \<Rightarrow> nat \<Rightarrow> (nat \<times> nat) result" where
  "read_varint bs at = read_varint_loop [0, 7, 14] bs at 0"

lemma read_varint_loop_advances:
  "read_varint_loop shifts bs at v = Inr (w, at') \<Longrightarrow> at < at' \<and> at' \<le> length bs"
  by (induction shifts bs at v rule: read_varint_loop.induct)
    (auto simp: Let_def nth_opt_Some_iff split: option.splits if_splits)

lemma read_varint_advances: "read_varint bs at = Inr (v, at') \<Longrightarrow> at < at' \<and> at' \<le> length bs"
  unfolding read_varint_def by (rule read_varint_loop_advances)

lemma read_varint_loop_error: "read_varint_loop shifts bs at v = Inl e \<Longrightarrow> e = corrupt"
  by (induction shifts bs at v rule: read_varint_loop.induct)
    (auto simp: Let_def split: option.splits if_splits)

text \<open>One byte of a varint: its payload and its continuation bit.\<close>

lemma take_bit7: "v AND 0x7F = v mod (128 :: nat)"
  using take_bit_eq_mask [of 7 v] by (simp add: take_bit_eq_mod mask_eq_exp_minus_1)

lemma byte_masks: "(0x7F :: u8) = mask 7"
  by (simp add: mask_eq_exp_minus_1)

lemma bit_high: "bit (0x80 :: int) n \<longleftrightarrow> n = 7"
  using bit_exp_iff [where 'a = int, of 7 n] by auto

lemma unat_take7: "unat (take_bit 7 (of_nat v :: u8)) = v mod 128"
  by (simp add: take_bit_eq_mod unat_of_nat unat_mod mod_mod_cancel)

lemma of_nat_low: "of_nat (v AND 0x7F) = take_bit 7 (of_nat v :: u8)"
  by (simp add: take_bit7 word_unat_eq_iff unat_take7 unat_of_nat)
  
lemma varint_low: "of_nat (v AND 0x7F) AND (0x80 :: u8) = 0" "unat (of_nat (v AND 0x7F) AND (0x7F :: u8)) = v mod 128"
proof -
  show "of_nat (v AND 0x7F) AND (0x80 :: u8) = 0"
    unfolding of_nat_low byte_masks by (rule bit_eqI) (auto simp: bit_and_iff bit_or_iff bit_take_bit_iff bit_mask_iff bit_high)
  have "of_nat (v AND 0x7F) AND (0x7F :: u8) = take_bit 7 (of_nat v)"
    unfolding of_nat_low byte_masks by (rule bit_eqI) (auto simp: bit_and_iff bit_or_iff bit_take_bit_iff bit_mask_iff bit_high)
  then show "unat (of_nat (v AND 0x7F) AND (0x7F :: u8)) = v mod 128" by (simp add: unat_take7)
qed

lemma varint_more: "(of_nat (v AND 0x7F) OR 0x80) AND (0x80 :: u8) \<noteq> 0"
  "unat ((of_nat (v AND 0x7F) OR 0x80) AND (0x7F :: u8)) = v mod 128"
proof -
  have "(of_nat (v AND 0x7F) OR 0x80) AND (0x80 :: u8) = 0x80"
    unfolding of_nat_low byte_masks by (rule bit_eqI) (auto simp: bit_and_iff bit_or_iff bit_take_bit_iff bit_mask_iff bit_high)
  then show "(of_nat (v AND 0x7F) OR 0x80) AND (0x80 :: u8) \<noteq> 0" by simp
  have "(of_nat (v AND 0x7F) OR 0x80) AND (0x7F :: u8) = take_bit 7 (of_nat v)"
    unfolding of_nat_low byte_masks by (rule bit_eqI) (auto simp: bit_and_iff bit_or_iff bit_take_bit_iff bit_mask_iff bit_high)
  then show "unat ((of_nat (v AND 0x7F) OR 0x80) AND (0x7F :: u8)) = v mod 128" by (simp add: unat_take7)
qed

lemma or_push_bit: "w < 2 ^ s \<Longrightarrow> w OR push_bit s x = w + 2 ^ s * (x :: nat)"
proof -
  assume "w < 2 ^ s"
  then have "take_bit s w = w" by (simp add: take_bit_nat_eq_self)
  then have "\<not> bit w n \<or> \<not> bit (push_bit s x) n" for n
    by (metis bit_push_bit_iff bit_take_bit_iff not_le)
  then have "w + push_bit s x = w OR push_bit s x" by (intro disjunctive_add) auto
  then show ?thesis by (simp add: push_bit_eq_mult mult.commute)
qed

lemma push_varint_append: "push_varint out v = out @ push_varint [] v"
proof (induction v arbitrary: out rule: less_induct)
  case (less v)
  show ?case
  proof (cases "drop_bit 7 v = 0")
    case False
    then have "drop_bit 7 v < v" by (cases "v = 0") (simp_all add: drop_bit_eq_div)
    note IH = less [OF this]
    show ?thesis
      using False IH [of "out @ [of_nat (v AND 0x7F) OR 0x80]"] IH [of "[of_nat (v AND 0x7F) OR 0x80]"]
      by (subst (1 2) push_varint.simps) simp
  qed (subst (1 2) push_varint.simps; simp)
qed

lemma push_varint_step:
  "push_varint [] v = (if v < 128 then [of_nat (v AND 0x7F)]
     else (of_nat (v AND 0x7F) OR 0x80) # push_varint [] (v div 128))"
  using push_varint_append [of "[of_nat (v AND 0x7F) OR 0x80]" "v div 128"]
  by (subst push_varint.simps) (simp add: drop_bit_eq_div Let_def div_eq_0_iff)

lemma read_varint_loop_push:
  assumes "v < 128 ^ n" "w < 2 ^ s" "0 < n"
  shows "read_varint_loop (map (\<lambda>i. s + 7 * i) [0..<n]) (pre @ push_varint [] v @ post) (length pre) w
    = Inr (w + 2 ^ s * v, length pre + length (push_varint [] v))"
  using assms
proof (induction n arbitrary: v w s pre)
  case (Suc n)
  have shifts: "map (\<lambda>i. s + 7 * i) [0..<Suc n] = s # map (\<lambda>i. (s + 7) + 7 * i) [0..<n]"
    by (simp add: upt_rec [of 0] map_Suc_upt [symmetric] del: upt_Suc)
  show ?case
  proof (cases "v < 128")
    case True
    then show ?thesis
      unfolding shifts push_varint_step [of v]
      using varint_low [of v] or_push_bit [OF Suc.prems(2), of v] by (simp add: nth_append)
  next
    case False
    have v: "v mod 128 + 128 * (v div 128) = v" by simp
    have "w + 2 ^ s * (v mod 128) < 2 ^ s + 2 ^ s * 127"
      using Suc.prems(2) by (intro add_less_le_mono mult_le_mono2) (auto simp: less_Suc_eq_le [symmetric])
    then have "w + 2 ^ s * (v mod 128) < 2 ^ (s + 7)" by (simp add: power_add)
    moreover have "v div 128 < 128 ^ n" using Suc.prems(1) by (simp add: div_less_iff_less_mult mult.commute)
    moreover have "0 < n" using False Suc.prems(1) by (cases n) auto
    ultimately have "read_varint_loop (map (\<lambda>i. (s + 7) + 7 * i) [0..<n])
        ((pre @ [of_nat (v AND 0x7F) OR 0x80]) @ push_varint [] (v div 128) @ post)
        (length (pre @ [of_nat (v AND 0x7F) OR (0x80 :: u8)])) (w + 2 ^ s * (v mod 128))
      = Inr (w + 2 ^ s * (v mod 128) + 2 ^ (s + 7) * (v div 128),
          length (pre @ [of_nat (v AND 0x7F) OR (0x80 :: u8)]) + length (push_varint [] (v div 128)))"
      using Suc.IH by blast
    moreover have "w + 2 ^ s * (v mod 128) + 2 ^ (s + 7) * (v div 128) = w + 2 ^ s * v"
      using arg_cong [OF v, of "\<lambda>x. 2 ^ s * x"] by (simp only: distrib_left power_add) simp
    ultimately show ?thesis
      unfolding shifts push_varint_step [of v]
      using False varint_more [of v] or_push_bit [OF Suc.prems(2), of "v mod 128"] by (simp add: nth_append)
  qed
qed simp

lemma read_push_varint:
  assumes "v < 2 ^ 21"
  shows "read_varint (pre @ push_varint [] v @ post) (length pre) = Inr (v, length pre + length (push_varint [] v))"
  using read_varint_loop_push [of v 3 0 0 pre post] assms by (simp add: read_varint_def upt_rec)

lemma length_push_varint: "v < 2 ^ 21 \<Longrightarrow> length (push_varint [] v) \<le> 3" "1 \<le> length (push_varint [] v)"
proof -
  show "1 \<le> length (push_varint [] v)" by (subst push_varint_step) simp
  assume "v < 2 ^ 21"
  then have "v div 128 div 128 < 128" by simp
  then show "length (push_varint [] v) \<le> 3"
    by (subst push_varint_step, subst push_varint_step, subst push_varint_step) simp
qed

section \<open>Prefixes\<close>

function prefix_successor :: "bytes \<Rightarrow> bytes option" where
  "prefix_successor s =
     (if s = [] then None
      else if last s \<noteq> 0xFF then Some (butlast s @ [last s + 1])
      else prefix_successor (butlast s))"
  by auto
termination by (relation "measure length") auto

declare prefix_successor.simps [simp del]

definition shared_prefix :: "bytes \<Rightarrow> bytes \<Rightarrow> nat" where
  "shared_prefix a b = length (takeWhile (\<lambda>(x, y). x = y) (zip a b))"

text \<open>\<open>&xs[a..b]\<close>: \<open>None\<close> is the panic of a range outside the slice_of.\<close>

definition slice_of :: "'a list \<Rightarrow> nat \<Rightarrow> nat \<Rightarrow> 'a list option" where
  "slice_of xs a b = (if a \<le> b \<and> b \<le> length xs then Some (take (b - a) (drop a xs)) else None)"

section \<open>Encoding\<close>

fun encode_body :: "bytes \<Rightarrow> bytes \<Rightarrow> bytes list \<Rightarrow> bytes" where
  "encode_body body prev [] = body"
| "encode_body body prev (key # rest) =
     (let shared = shared_prefix prev key;
          body = push_varint body shared;
          body = push_varint body (length key - shared);
          body = body @ drop shared key
      in encode_body body key rest)"

text \<open>\<open>None\<close>: the list is empty, or the body does not fit its 16-bit length.\<close>

definition encode_run :: "bytes \<Rightarrow> bytes list \<Rightarrow> bytes option" where
  "encode_run term keys =
     (if keys = [] then None
      else
        let body = encode_body [] (last keys) (butlast keys) in
        if int (length body) < 2 ^ 16
        then Some (term @ last keys @ body @ be_bytes 2 (int (length body)))
        else None)"

lemma encode_run_nonempty: "encode_run t keys = Some run \<Longrightarrow> keys \<noteq> []"
  by (auto simp: encode_run_def)

section \<open>Decoding\<close>

definition tail_len :: "bytes \<Rightarrow> nat option" where
  "tail_len run =
     (let n = length run in
      case (nth_opt run (n - 2), nth_opt run (n - 1)) of
        (Some a, Some b) \<Rightarrow> Some (nat (be_val [a, b])) | _ \<Rightarrow> None)"

function decode_loop :: "bytes \<Rightarrow> bytes \<Rightarrow> bytes list \<Rightarrow> nat \<Rightarrow> bytes list io" where
  "decode_loop lst body keys at =
     (if at < length body then
        io_bind (Some (read_varint body at)) (\<lambda>(shared, at1).
        io_bind (Some (read_varint body at1)) (\<lambda>(suffix, at2).
          let prev = (if keys = [] then lst else last keys) in
          if shared > length prev \<or> at2 + suffix > length body \<or> shared + suffix = 0
          then Some (Inl corrupt)
          else
            (case (slice_of prev 0 shared, slice_of body at2 (at2 + suffix)) of
               (Some a, Some b) \<Rightarrow>
                 let key = a @ b in
                 if keys \<noteq> [] \<and> last keys \<ge> key then Some (Inl corrupt)
                 else decode_loop lst body (keys @ [key]) (at2 + suffix)
             | _ \<Rightarrow> None)))
      else Some (Inr keys))"
  by auto
termination
  by (relation "measure (\<lambda>(_, body, _, at). length body - at)")
    (auto dest!: read_varint_advances)

declare decode_loop.simps [simp del]

definition decode_run :: "nat \<Rightarrow> bytes \<Rightarrow> bytes list io" where
  "decode_run term_len run =
     (let n = length run in
      if n < term_len + 3 then Some (Inl corrupt)
      else
        (case tail_len run of
           None \<Rightarrow> None
         | Some body_len \<Rightarrow>
             let body_end = n - 2 in
             if body_end < body_len then Some (Inl corrupt)
             else
               let last_end = body_end - body_len in
               if last_end \<le> term_len then Some (Inl corrupt)
               else
                 (case (slice_of run term_len last_end, slice_of run last_end body_end) of
                    (Some lst, Some body) \<Rightarrow>
                      io_bind (decode_loop lst body [] 0) (\<lambda>keys.
                        if keys \<noteq> [] \<and> last keys \<ge> lst then Some (Inl corrupt)
                        else Some (Inr (keys @ [lst])))
                  | _ \<Rightarrow> None)))"

function postings_loop :: "bytes \<Rightarrow> nat \<Rightarrow> nat \<Rightarrow> nat io" where
  "postings_loop body at count =
     (if at < length body then
        io_bind (Some (read_varint body at)) (\<lambda>(shared, at1).
        io_bind (Some (read_varint body at1)) (\<lambda>(suffix, at2).
          if at2 + suffix > length body \<or> shared + suffix = 0 then Some (Inl corrupt)
          else postings_loop body (at2 + suffix) (count + 1)))
      else Some (Inr count))"
  by auto
termination
  by (relation "measure (\<lambda>(body, at, _). length body - at)")
    (auto dest!: read_varint_advances)

declare postings_loop.simps [simp del]

definition run_postings :: "bytes \<Rightarrow> nat io" where
  "run_postings run =
     (let n = length run in
      if n < 4 then Some (Inl corrupt)
      else
        (case tail_len run of
           None \<Rightarrow> None
         | Some body_len \<Rightarrow>
             let body_end = n - 2 in
             if body_end < body_len + 2 then Some (Inl corrupt)
             else
               (case slice_of run (body_end - body_len) body_end of
                  None \<Rightarrow> None | Some body \<Rightarrow> postings_loop body 0 1)))"

section \<open>Packing and splitting\<close>

function pack_end :: "bytes \<Rightarrow> bytes list \<Rightarrow> nat \<Rightarrow> nat \<Rightarrow> nat option" where
  "pack_end term keys start ende =
     (if ende < length keys then
        (case slice_of keys start (ende + 1) of
           None \<Rightarrow> None
         | Some ks \<Rightarrow>
             (case encode_run term ks of
                None \<Rightarrow> None
              | Some run \<Rightarrow>
                  if length run \<le> GIN_RUN_MAX_BYTES then pack_end term keys start (ende + 1)
                  else Some ende))
      else Some ende)"
  by auto
termination by (relation "measure (\<lambda>(_, keys, _, ende). length keys - ende)") auto

declare pack_end.simps [simp del]

lemma pack_end_ge:
  "pack_end t keys start ende = Some m \<Longrightarrow> ende \<le> m \<and> (ende \<le> length keys \<longrightarrow> m \<le> length keys)"
proof (induction t keys start ende rule: pack_end.induct)
  case (1 t keys start ende)
  from 1(2) consider "m = ende" | ks run where "ende < length keys" "slice_of keys start (ende + 1) = Some ks"
      "encode_run t ks = Some run" "length run \<le> GIN_RUN_MAX_BYTES" "pack_end t keys start (ende + 1) = Some m"
    by (subst (asm) pack_end.simps) (auto split: if_splits option.splits)
  then show ?case
  proof cases
    case 2
    with 1(1) [OF 2] show ?thesis by simp
  qed simp
qed

function pack_loop :: "bytes \<Rightarrow> bytes list \<Rightarrow> bytes list \<Rightarrow> nat \<Rightarrow> bytes list option" where
  "pack_loop term keys runs start =
     (if start < length keys then
        (case pack_end term keys start (start + 1) of
           None \<Rightarrow> None
         | Some ende \<Rightarrow>
             (case slice_of keys start ende of
                None \<Rightarrow> None
              | Some ks \<Rightarrow>
                  (case encode_run term ks of
                     None \<Rightarrow> None
                   | Some run \<Rightarrow> pack_loop term keys (runs @ [run]) ende)))
      else Some runs)"
  by auto
termination
  by (relation "measure (\<lambda>(_, keys, _, start). length keys - start)")
    (auto dest!: pack_end_ge)

declare pack_loop.simps [simp del]

definition pack_runs :: "bytes \<Rightarrow> bytes list \<Rightarrow> bytes list option" where
  "pack_runs term keys = pack_loop term keys [] 0"

function split_runs :: "bytes \<Rightarrow> bytes list \<Rightarrow> bytes list \<Rightarrow> bytes list option" where
  "split_runs term keys out =
     (case encode_run term keys of
        None \<Rightarrow> None
      | Some run \<Rightarrow>
          if length run \<le> GIN_RUN_MAX_BYTES \<or> length keys = 1 then Some (out @ [run])
          else
            let mid = div_ceil (length keys) 2 in
            (case split_runs term (take mid keys) out of
               None \<Rightarrow> None
             | Some out \<Rightarrow> split_runs term (drop mid keys) out))"
  by auto
termination
  by (relation "measure (\<lambda>(_, keys, _). length keys)")
    (auto simp: div_ceil_def neq_Nil_conv dest!: encode_run_nonempty)

declare split_runs.simps [simp del]

definition term_bound :: "bytes \<Rightarrow> key_bound" where
  "term_bound term = \<lparr> kb_lo = Some term, kb_lo_inc = True, kb_hi = prefix_successor term, kb_hi_inc = False \<rparr>"


section \<open>Round trip\<close>

lemma shared_prefix_le: "shared_prefix a b \<le> length a" "shared_prefix a b \<le> length b"
  using length_takeWhile_le [of "\<lambda>(x, y). x = y" "zip a b"] by (auto simp: shared_prefix_def)

lemma take_shared_prefix: "take (shared_prefix a b) a = take (shared_prefix a b) b"
proof -
  have "take n a = take n b" if "n \<le> length a" "n \<le> length b" "\<forall>i < n. a ! i = b ! i" for n
    using that by (intro nth_equalityI) auto
  moreover have "a ! i = b ! i" if "i < shared_prefix a b" for i
  proof -
    have "zip a b ! i \<in> set (takeWhile (\<lambda>(x, y). x = y) (zip a b))"
      using that takeWhile_nth [of i "\<lambda>(x, y). x = y" "zip a b"] by (metis nth_mem shared_prefix_def)
    then have "case zip a b ! i of (x, y) \<Rightarrow> x = y" by (rule set_takeWhileD [THEN conjunct2])
    then show ?thesis using that shared_prefix_le [of a b] by simp
  qed
  ultimately show ?thesis using shared_prefix_le by blast
qed

lemma shared_prefix_restore: "take (shared_prefix a b) a @ drop (shared_prefix a b) b = b"
  by (metis append_take_drop_id take_shared_prefix)

lemma encode_body_append: "encode_body body prev rest = body @ encode_body [] prev rest"
proof (induction rest arbitrary: body prev)
  case (Cons key rest)
  have p: "push_varint (push_varint b x) y = b @ push_varint [] x @ push_varint [] y" for b x y
    using push_varint_append [of b x] push_varint_append [of "push_varint b x" y] by simp
  show ?case by (simp add: Let_def) (subst (1 2) Cons, simp add: p)
qed simp

text \<open>The code of one key against the one before it.\<close>

definition key_code :: "bytes \<Rightarrow> bytes \<Rightarrow> bytes" where
  "key_code prev key = push_varint [] (shared_prefix prev key)
     @ push_varint [] (length key - shared_prefix prev key) @ drop (shared_prefix prev key) key"

lemma encode_body_simps [simp]:
  "encode_body [] prev [] = []"
  "encode_body [] prev (key # rest) = key_code prev key @ encode_body [] key rest"
proof -
  have p: "push_varint (push_varint b x) y = b @ push_varint [] x @ push_varint [] y" for b x y
    using push_varint_append [of b x] push_varint_append [of "push_varint b x" y] by simp
  show "encode_body [] prev (key # rest) = key_code prev key @ encode_body [] key rest"
    by (simp add: Let_def p) (subst encode_body_append, simp add: key_code_def)
qed simp

declare encode_body.simps [simp del]

lemma length_key_code:
  assumes "length key < 2 ^ 21"
  shows "length (key_code prev key) \<le> length key + 6" "2 \<le> length (key_code prev key)"
    "length key \<le> length prev + length (key_code prev key)"
proof -
  have "shared_prefix prev key < 2 ^ 21" "length key - shared_prefix prev key < 2 ^ 21"
    using assms shared_prefix_le [of prev key] by auto
  then show "length (key_code prev key) \<le> length key + 6" "2 \<le> length (key_code prev key)"
    "length key \<le> length prev + length (key_code prev key)"
    using length_push_varint [of "shared_prefix prev key"] shared_prefix_le [of prev key]
      length_push_varint [of "length key - shared_prefix prev key"] by (auto simp: key_code_def)
qed

text \<open>Reading one code back.\<close>

lemma read_key_code:
  assumes "length key < 2 ^ 21" "body = pre @ key_code prev key @ post" "shared = shared_prefix prev key"
  obtains at1 at2 suffix where "read_varint body (length pre) = Inr (shared, at1)"
    "read_varint body at1 = Inr (suffix, at2)" "at2 + suffix = length (pre @ key_code prev key)"
    "slice_of body at2 (at2 + suffix) = Some (drop shared key)" "suffix = length key - shared"
    "length pre < length body" "at2 + suffix \<le> length body"
proof
  have s: "shared < 2 ^ 21" "length key - shared < 2 ^ 21" using assms shared_prefix_le [of prev key] by auto
  let ?at1 = "length pre + length (push_varint [] shared)"
  let ?at2 = "?at1 + length (push_varint [] (length key - shared))"
  show "read_varint body (length pre) = Inr (shared, ?at1)"
    using read_push_varint [OF s(1), of pre] by (simp add: key_code_def assms(2,3))
  show "read_varint body ?at1 = Inr (length key - shared, ?at2)"
    using read_push_varint [OF s(2), of "pre @ push_varint [] shared"] by (simp add: key_code_def assms(2,3))
  show "slice_of body ?at2 (?at2 + (length key - shared)) = Some (drop shared key)"
    by (simp add: slice_of_def key_code_def assms(2,3))
  show "length pre < length body"
    using length_key_code(2) [OF assms(1), of prev] assms(2) by (cases "key_code prev key") auto
qed (simp_all add: key_code_def assms(2,3))

definition run_keys :: "bytes list \<Rightarrow> bool" where
  "run_keys ks \<longleftrightarrow> sorted_wrt (<) ks \<and> (\<forall>k \<in> set ks. k \<noteq> [] \<and> length k < 2 ^ 21)"

lemma decode_loop_step:
  assumes "key \<noteq> []" "length key < 2 ^ 21" "done \<noteq> [] \<Longrightarrow> last done < key"
    and p: "prev = (if done = [] then lst else last done)" and body: "body = pre @ key_code prev key @ post"
  shows "decode_loop lst body done (length pre)
    = decode_loop lst body (done @ [key]) (length (pre @ key_code prev key))"
proof -
  let ?s = "shared_prefix prev key"
  obtain at1 at2 suffix where r: "read_varint body (length pre) = Inr (?s, at1)"
    "read_varint body at1 = Inr (suffix, at2)" and at: "at2 + suffix = length (pre @ key_code prev key)"
    and b: "slice_of body at2 (at2 + suffix) = Some (drop ?s key)" "suffix = length key - ?s"
    "length pre < length body" "at2 + suffix \<le> length body"
    using read_key_code [OF assms(2) body refl] by blast
  have "slice_of prev 0 ?s = Some (take ?s prev)" using shared_prefix_le by (simp add: slice_of_def)
  moreover have "?s + suffix \<noteq> 0" using assms(1) b(2) by auto
  moreover have "\<not> (done \<noteq> [] \<and> key \<le> last done)" using assms(3) by auto
  ultimately show ?thesis
    using r b(1,3,4) shared_prefix_le(1) [of prev key] unfolding at [symmetric]
    by (subst decode_loop.simps) (auto simp: p [symmetric] shared_prefix_restore Let_def not_le)
qed

lemma decode_loop_encoded:
  assumes "run_keys (done @ rest)" "prev = (if done = [] then lst else last done)"
  shows "decode_loop lst (pre @ encode_body [] prev rest) done (length pre) = Some (Inr (done @ rest))"
  using assms
proof (induction rest arbitrary: pre "done" prev)
  case Nil
  then show ?case by (subst decode_loop.simps) simp
next
  case (Cons key rest)
  have k: "key \<noteq> []" "length key < 2 ^ 21" "done \<noteq> [] \<Longrightarrow> last done < key"
    using Cons.prems(1) by (auto simp: run_keys_def sorted_wrt_append)
  show ?case
    using decode_loop_step [OF k Cons.prems(2) refl, of pre "encode_body [] key rest"]
      Cons.IH [of "done @ [key]" key "pre @ key_code prev key"] Cons.prems(1) by simp
qed

lemma postings_loop_step:
  assumes "key \<noteq> []" "length key < 2 ^ 21" and body: "body = pre @ key_code prev key @ post"
  shows "postings_loop body (length pre) n = postings_loop body (length (pre @ key_code prev key)) (n + 1)"
proof -
  let ?s = "shared_prefix prev key"
  obtain at1 at2 suffix where r: "read_varint body (length pre) = Inr (?s, at1)"
    "read_varint body at1 = Inr (suffix, at2)" and at: "at2 + suffix = length (pre @ key_code prev key)"
    and b: "suffix = length key - ?s" "length pre < length body" "at2 + suffix \<le> length body"
    using read_key_code [OF assms(2) body refl] by blast
  have "?s + suffix \<noteq> 0" using assms(1) b(1) by auto
  then show ?thesis
    using r b(2,3) unfolding at [symmetric] by (subst postings_loop.simps) (auto simp: not_le)
qed

lemma postings_loop_encoded:
  assumes "\<forall>k \<in> set rest. k \<noteq> [] \<and> length k < 2 ^ 21"
  shows "postings_loop (pre @ encode_body [] prev rest) (length pre) n = Some (Inr (n + length rest))"
  using assms
proof (induction rest arbitrary: pre n prev)
  case Nil
  then show ?case by (subst postings_loop.simps) simp
next
  case (Cons key rest)
  then show ?case
    using postings_loop_step [of key _ pre prev "encode_body [] key rest" n]
      Cons.IH [of "pre @ key_code prev key" key "n + 1"] by simp
qed

lemma tail_len_encoded: "n < 2 ^ 16 \<Longrightarrow> tail_len (xs @ be_bytes 2 (int n)) = Some n"
proof -
  assume "n < 2 ^ 16"
  then have v: "be_val (be_bytes 2 (int n)) = int n" by (intro be_val_be_bytes_id) auto
  obtain a b where ab: "be_bytes 2 (int n) = [a, b]"
    by (simp add: numeral_2_eq_2)
  then show ?thesis using v by (simp add: tail_len_def nth_append)
qed

lemma encode_run_Some:
  "encode_run t ks = Some run \<longleftrightarrow> ks \<noteq> [] \<and> length (encode_body [] (last ks) (butlast ks)) < 2 ^ 16
     \<and> run = t @ last ks @ encode_body [] (last ks) (butlast ks)
         @ be_bytes 2 (int (length (encode_body [] (last ks) (butlast ks))))"
  by (auto simp: encode_run_def Let_def)

lemma run_keys_butlast: "run_keys ks \<Longrightarrow> run_keys (butlast ks)"
  by (cases ks rule: rev_cases) (auto simp: run_keys_def sorted_wrt_append)

lemma run_keys_last: "run_keys ks \<Longrightarrow> butlast ks \<noteq> [] \<Longrightarrow> last (butlast ks) < last ks"
  by (cases ks rule: rev_cases) (auto simp: run_keys_def sorted_wrt_append)

lemma decode_encode_run:
  assumes "encode_run t ks = Some run" "run_keys ks"
  shows "decode_run (length t) run = Some (Inr ks)"
proof -
  let ?l = "last ks" and ?b = "encode_body [] (last ks) (butlast ks)"
  have e: "ks \<noteq> []" "length ?b < 2 ^ 16" "run = t @ ?l @ ?b @ be_bytes 2 (int (length ?b))"
    using assms(1) by (auto simp: encode_run_Some)
  have l: "?l \<noteq> []" using assms(2) e(1) by (auto simp: run_keys_def)
  have t: "tail_len run = Some (length ?b)" using tail_len_encoded [OF e(2), of "t @ ?l @ ?b"] by (simp add: e(3))
  have n: "length run = length t + length ?l + length ?b + 2" by (simp add: e(3))
  have s: "slice_of run (length t) (length t + length ?l) = Some ?l"
    "slice_of run (length t + length ?l) (length t + length ?l + length ?b) = Some ?b"
    by (simp_all add: slice_of_def e(3))
  have d: "decode_loop ?l ?b [] 0 = Some (Inr (butlast ks))"
    using decode_loop_encoded [of "[]" "butlast ks" ?l ?l "[]"] run_keys_butlast [OF assms(2)] by simp
  have "\<not> (butlast ks \<noteq> [] \<and> last (butlast ks) \<ge> ?l)" using run_keys_last [OF assms(2)] by auto
  then show ?thesis using l n t s d e(1) by (simp add: decode_run_def)
qed

lemma run_postings_encode_run:
  assumes "encode_run t ks = Some run" "run_keys ks" "t \<noteq> []"
  shows "run_postings run = Some (Inr (length ks))"
proof -
  let ?l = "last ks" and ?b = "encode_body [] (last ks) (butlast ks)"
  have e: "ks \<noteq> []" "length ?b < 2 ^ 16" "run = t @ ?l @ ?b @ be_bytes 2 (int (length ?b))"
    using assms(1) by (auto simp: encode_run_Some)
  have l: "?l \<noteq> []" using assms(2) e(1) by (auto simp: run_keys_def)
  then have l1: "1 \<le> length ?l" "1 \<le> length t" using assms(3) by (simp_all add: Suc_le_eq)
  have t: "tail_len run = Some (length ?b)" using tail_len_encoded [OF e(2), of "t @ ?l @ ?b"] by (simp add: e(3))
  have n: "length run = length t + length ?l + length ?b + 2" by (simp add: e(3))
  have s: "slice_of run (length t + length ?l) (length t + length ?l + length ?b) = Some ?b"
    by (simp add: slice_of_def e(3))
  have "postings_loop ?b 0 1 = Some (Inr (length ks))"
    using postings_loop_encoded [of "butlast ks" "[]" ?l 1] run_keys_butlast [OF assms(2)] e(1)
    by (simp add: run_keys_def)
  then show ?thesis using l1 n t s by (simp add: run_postings_def)
qed

section \<open>Malformed runs\<close>

lemma read_varint_error: "read_varint bs at = Inl e \<Longrightarrow> e = corrupt"
  unfolding read_varint_def by (rule read_varint_loop_error)

lemma sorted_wrt_snoc_last:
  "sorted_wrt (<) ks \<Longrightarrow> (ks \<noteq> [] \<Longrightarrow> last ks < k) \<Longrightarrow> sorted_wrt (<) (ks @ [k :: 'a::linorder])"
proof (induction ks)
  case (Cons a ks)
  then show ?case by (cases "ks = []") (auto intro: less_trans dest!: bspec [where x = "last ks"])
qed simp

definition ascending_keys :: "bytes list \<Rightarrow> bool" where
  "ascending_keys ks \<longleftrightarrow> sorted_wrt (<) ks \<and> [] \<notin> set ks"

text \<open>One turn of the loop on any body: done, refused, or one more key, which the counting loop counts.\<close>

lemma decode_loop_turn:
  obtains (stop) "length body \<le> at" "decode_loop lst body keys at = Some (Inr keys)"
      "\<forall>n. postings_loop body at n = Some (Inr n)"
    | (bad) "decode_loop lst body keys at = Some (Inl corrupt)"
    | (more) key at' where "at < at'" "at < length body" "key \<noteq> []" "keys \<noteq> [] \<longrightarrow> last keys < key"
      "decode_loop lst body keys at = decode_loop lst body (keys @ [key]) at'"
      "\<forall>n. postings_loop body at n = postings_loop body at' (n + 1)"
proof (cases "at < length body")
  case False
  then have "decode_loop lst body keys at = Some (Inr keys)" "postings_loop body at n = Some (Inr n)" for n
    by (subst decode_loop.simps postings_loop.simps; simp)+
  with stop False show ?thesis by simp
next
  case at: True
  show ?thesis
  proof (cases "read_varint body at")
    case (Inl e)
    then have "decode_loop lst body keys at = Some (Inl corrupt)"
      using at by (subst decode_loop.simps) (simp add: read_varint_error)
    then show ?thesis by (rule bad)
  next
    case r1: (Inr p)
    then obtain shared at1 where p: "p = (shared, at1)" by (cases p) auto
    show ?thesis
    proof (cases "read_varint body at1")
      case (Inl e)
      then have "decode_loop lst body keys at = Some (Inl corrupt)"
        using at r1 p by (subst decode_loop.simps) (simp add: read_varint_error)
      then show ?thesis by (rule bad)
    next
      case r2: (Inr q)
      then obtain suffix at2 where q: "q = (suffix, at2)" by (cases q) auto
      define prev where "prev = (if keys = [] then lst else last keys)"
      define key where "key = take shared prev @ take suffix (drop at2 body)"
      show ?thesis
      proof (cases "shared > length prev \<or> at2 + suffix > length body \<or> shared + suffix = 0 \<or> keys \<noteq> [] \<and> last keys \<ge> key")
        case True
        then have "decode_loop lst body keys at = Some (Inl corrupt)"
          using at r1 r2 by (subst decode_loop.simps) (auto simp: p q prev_def [symmetric] Let_def slice_of_def key_def)
        then show ?thesis by (rule bad)
      next
        case False
        have "decode_loop lst body keys at = decode_loop lst body (keys @ [key]) (at2 + suffix)"
          using False at r1 r2
          by (subst decode_loop.simps) (auto simp: p q prev_def [symmetric] Let_def slice_of_def key_def [symmetric])
        moreover have "postings_loop body at n = postings_loop body (at2 + suffix) (n + 1)" for n
          using False at r1 r2 by (subst postings_loop.simps) (auto simp: p q)
        moreover have "at < at2 + suffix" using r1 r2 p q by (auto dest!: read_varint_advances)
        moreover have "key \<noteq> []" using False by (auto simp: key_def)
        moreover have "keys \<noteq> [] \<longrightarrow> last keys < key" using False by (auto simp: not_le)
        ultimately show ?thesis using at by (intro more [of "at2 + suffix" key]) blast+
      qed
    qed
  qed
qed

lemma decode_loop_safe:
  "ascending_keys keys \<Longrightarrow> decode_loop lst body keys at = Some (Inl corrupt)
    \<or> (\<exists>ks. decode_loop lst body keys at = Some (Inr (keys @ ks)) \<and> ascending_keys (keys @ ks)
        \<and> (\<forall>n. postings_loop body at n = Some (Inr (n + length ks))))"
proof (induction "length body - at" arbitrary: keys at rule: less_induct)
  case less
  show ?case
  proof (cases rule: decode_loop_turn [of body at lst keys])
    case stop
    then show ?thesis using less(2) by (intro disjI2 exI [of _ "[]"]) simp
  next
    case (more key at')
    have "ascending_keys (keys @ [key])"
      using less(2) more sorted_wrt_snoc_last [of keys key] by (auto simp: ascending_keys_def)
    then have "decode_loop lst body (keys @ [key]) at' = Some (Inl corrupt)
      \<or> (\<exists>ks. decode_loop lst body (keys @ [key]) at' = Some (Inr ((keys @ [key]) @ ks)) \<and> ascending_keys ((keys @ [key]) @ ks)
        \<and> (\<forall>n. postings_loop body at' n = Some (Inr (n + length ks))))"
      using more by (intro less(1)) auto
    then show ?thesis
      using more(5,6) by (elim disjE exE) (auto intro!: exI [of _ "key # _"])
  qed simp
qed

lemma tail_len_total: "2 \<le> length run \<Longrightarrow> \<exists>n. tail_len run = Some n"
  by (simp add: tail_len_def Let_def)

lemma decode_run_cases:
  obtains (bad) "decode_run term_len run = Some (Inl corrupt)"
    | (good) ks where "decode_run term_len run = Some (Inr ks)" "ks \<noteq> []" "ascending_keys ks"
       "1 \<le> term_len \<longrightarrow> run_postings run = Some (Inr (length ks))"
proof (cases "length run < term_len + 3")
  case True
  then show ?thesis by (intro bad) (simp add: decode_run_def)
next
  case n: False
  then obtain bl where bl: "tail_len run = Some bl" using tail_len_total [of run] by auto
  show ?thesis
  proof (cases "length run - 2 < bl \<or> length run - 2 - bl \<le> term_len")
    case True
    then show ?thesis using n bl by (intro bad) (auto simp: decode_run_def Let_def)
  next
    case False
    let ?e = "length run - 2" 
    define lst where "lst = take (?e - bl - term_len) (drop term_len run)"
    define body where "body = take bl (drop (?e - bl) run)"
    have s: "slice_of run term_len (?e - bl) = Some lst" "slice_of run (?e - bl) ?e = Some body"
      using False n diff_diff_cancel [of bl ?e] by (auto simp: slice_of_def lst_def body_def)
    have l: "lst \<noteq> []" using False n by (auto simp: lst_def)
    have d: "decode_run term_len run = io_bind (decode_loop lst body [] 0) (\<lambda>keys.
                        if keys \<noteq> [] \<and> last keys \<ge> lst then Some (Inl corrupt) else Some (Inr (keys @ [lst])))"
      using n bl False s by (simp add: decode_run_def)
    have p: "1 \<le> term_len \<longrightarrow> run_postings run = postings_loop body 0 1"
      using n bl False s by (auto simp: run_postings_def Let_def)
    consider "decode_loop lst body [] 0 = Some (Inl corrupt)"
      | ks where "decode_loop lst body [] 0 = Some (Inr ks)" "ascending_keys ks" "postings_loop body 0 1 = Some (Inr (Suc (length ks)))"
      using decode_loop_safe [of "[]" lst body 0] by (auto simp: ascending_keys_def)
    then show ?thesis
    proof cases
      case 1
      with d show ?thesis by (intro bad) simp
    next
      case (2 ks)
      show ?thesis
      proof (cases "ks \<noteq> [] \<and> last ks \<ge> lst")
        case True
        with 2 d show ?thesis by (intro bad) simp
      next
        case False
        have "ascending_keys (ks @ [lst])"
          using 2 False l sorted_wrt_snoc_last [of ks lst] by (auto simp: ascending_keys_def)
        with 2 d p False show ?thesis by (intro good [of "ks @ [lst]"]) auto
      qed
    qed
  qed
qed

lemma run_postings_safe: "run_postings run = Some (Inl corrupt) \<or> (\<exists>n. run_postings run = Some (Inr n))"
proof -
  have "postings_loop body at n = Some (Inl corrupt) \<or> (\<exists>m. postings_loop body at n = Some (Inr m))" for body at n
  proof (induction body at n rule: postings_loop.induct)
    case (1 body at n)
    then show ?case
      by (subst (1 2) postings_loop.simps)
        (auto simp: io_bind_def read_varint_error split: sum.splits)
  qed
  moreover have "length run < 4 \<or> tail_len run \<noteq> None" using tail_len_total [of run] by fastforce
  ultimately show ?thesis by (auto simp: run_postings_def Let_def slice_of_def split: option.splits)
qed


section \<open>Properties\<close>

text \<open>
  C35. A run of ascending non-empty storage keys decodes to exactly those keys, and its posting count,
  read from the tail alone, is their number.
\<close>

theorem run_roundtrip:
  assumes "encode_run t ks = Some run" "run_keys ks"
  shows "decode_run (length t) run = Some (Inr ks) \<and> (t \<noteq> [] \<longrightarrow> run_postings run = Some (Inr (length ks)))"
  using decode_encode_run [OF assms] run_postings_encode_run [OF assms] by blast

definition sample_keys :: "bytes list" where
  "sample_keys = [[0, 1, 2], [0, 1, 7, 7], [0, 9]]"

lemma sample_keys_ok: "run_keys sample_keys"
  by (simp add: run_keys_def sample_keys_def word_less_nat_alt)

theorem run_roundtrip_witness:
  "encode_run [0x61, 0] sample_keys = Some [0x61, 0, 0, 9, 1, 2, 1, 2, 2, 2, 7, 7, 0, 8]
   \<and> decode_run 2 [0x61, 0, 0, 9, 1, 2, 1, 2, 2, 2, 7, 7, 0, 8] = Some (Inr sample_keys)
   \<and> run_postings [0x61, 0, 0, 9, 1, 2, 1, 2, 2, 2, 7, 7, 0, 8] = Some (Inr 3)"
proof -
  have e: "encode_run [0x61, 0] sample_keys = Some [0x61, 0, 0, 9, 1, 2, 1, 2, 2, 2, 7, 7, 0, 8]" by code_simp
  show ?thesis using run_roundtrip [OF e sample_keys_ok] e by (simp add: sample_keys_def numeral_2_eq_2 numeral_3_eq_3)
qed

text \<open>
  Decoding arbitrary bytes never panics: it is refused as corrupted data, or gives a non-empty
  strictly ascending list of non-empty keys, and then the count read from the tail agrees with it.
\<close>

theorem decode_run_safe:
  "decode_run term_len run = Some (Inl corrupt)
   \<or> (\<exists>ks. decode_run term_len run = Some (Inr ks) \<and> ks \<noteq> [] \<and> sorted_wrt (<) ks \<and> [] \<notin> set ks
        \<and> (1 \<le> term_len \<longrightarrow> run_postings run = Some (Inr (length ks))))"
  by (cases rule: decode_run_cases [of term_len run]) (auto simp: ascending_keys_def)

theorem decode_run_safe_witness:
  "decode_run 2 [0x61, 0, 0, 9, 1, 2, 1, 2, 2, 2, 7, 7, 0, 8] = Some (Inr sample_keys)
   \<and> run_postings [0x61, 0, 0, 9, 1, 2, 1, 2, 2, 2, 7, 7, 0, 8] = Some (Inr 3)"
proof -
  have "decode_run 2 [0x61, 0, 0, 9, 1, 2, 1, 2, 2, 2, 7, 7, 0, 8] = Some (Inr sample_keys)" by code_simp
  then show ?thesis using decode_run_safe [of 2 "[0x61, 0, 0, 9, 1, 2, 1, 2, 2, 2, 7, 7, 0, 8]"]
    by (auto simp: sample_keys_def)
qed

end
