(* ===== verification/Gin_Pack.thy ===== *)
theory Gin_Pack
  imports Gin_Runs
begin

text \<open>
  The sizes of posting runs, and why their 16-bit body length never overflows; the greedy packing
  of a posting list and the splitting of a grown run keep every key; the byte successor of a term
  bounds exactly the keys that start with the term.
\<close>

section \<open>Sizes\<close>

text \<open>
  A body never outgrows its 16-bit length: a run of several keys is at most 64 bytes, so each of
  its keys is short, and an edit adds one key of at most 32768 bytes (half the largest page).
\<close>

definition body_size :: "bytes list \<Rightarrow> nat" where
  "body_size ks = sum_list (map (\<lambda>k. length k + 6) ks)"

lemma encode_body_length:
  assumes "\<forall>k \<in> set ks. length k < 2 ^ 21"
  shows "length (encode_body [] prev ks) \<le> body_size ks" "2 * length ks \<le> length (encode_body [] prev ks)"
    "\<forall>k \<in> set ks. length k \<le> length prev + length (encode_body [] prev ks)"
  using assms
proof (induction ks arbitrary: prev)
  case (Cons k ks)
  { case 1 then show ?case using Cons.IH(1) [of k] length_key_code(1) [of k prev] by (simp add: body_size_def) }
  { case 2 then show ?case using Cons.IH(2) [of k] length_key_code(2) [of k prev] by simp }
  { case 3 then show ?case using Cons.IH(3) [of k] length_key_code(3) [of k prev] by fastforce }
qed (simp_all add: body_size_def)

definition run_fits :: "bytes list \<Rightarrow> bool" where
  "run_fits ks \<longleftrightarrow> ks \<noteq> [] \<and> run_keys ks \<and> body_size (butlast ks) < 2 ^ 16"

lemma encode_run_total: "run_fits ks \<Longrightarrow> \<exists>run. encode_run t ks = Some run"
proof -
  assume "run_fits ks"
  moreover from this have "\<forall>k \<in> set (butlast ks). length k < 2 ^ 21"
    by (auto simp: run_fits_def run_keys_def dest: in_set_butlastD)
  ultimately show ?thesis
    using encode_body_length(1) [of "butlast ks" "last ks"] by (auto simp: encode_run_Some run_fits_def)
qed

lemma encode_run_length:
  "encode_run t ks = Some run \<Longrightarrow> length run = length t + length (last ks) + length (encode_body [] (last ks) (butlast ks)) + 2"
  by (simp add: encode_run_Some)

definition run_ok :: "bytes \<Rightarrow> bytes list \<Rightarrow> bytes \<Rightarrow> bool" where
  "run_ok t ks run \<longleftrightarrow> encode_run t ks = Some run \<and> (length run \<le> GIN_RUN_MAX_BYTES \<or> length ks = 1)"

lemma small_run:
  assumes "encode_run t ks = Some run" "run_keys ks" "length run \<le> GIN_RUN_MAX_BYTES"
  shows "length ks \<le> 32" "\<forall>k \<in> set ks. length k \<le> 64"
proof -
  have r: "ks \<noteq> []" using assms(1) by (auto simp: encode_run_Some)
  have b: "\<forall>k \<in> set (butlast ks). length k < 2 ^ 21" using assms(2) by (auto simp: run_keys_def dest: in_set_butlastD)
  have n: "length (last ks) + length (encode_body [] (last ks) (butlast ks)) \<le> 62"
    using encode_run_length [OF assms(1)] assms(3) by (simp add: GIN_RUN_MAX_BYTES_def)
  show "length ks \<le> 32" using encode_body_length(2) [OF b, of "last ks"] n by auto
  have "set ks = insert (last ks) (set (butlast ks))" using r by (metis append_butlast_last_id list.set(2) set_append Un_insert_right list.set(1) sup_bot_right)
  then show "\<forall>k \<in> set ks. length k \<le> 64" using encode_body_length(3) [OF b, of "last ks"] n by auto
qed

definition MAX_KEY :: nat where "MAX_KEY = 32768"

lemma body_size_append [simp]: "body_size (xs @ ys) = body_size xs + body_size ys"
  by (simp add: body_size_def)

lemma body_size_butlast: "body_size (butlast ks) \<le> body_size ks"
  by (cases ks rule: rev_cases) auto

lemma body_size_bound: "\<forall>k \<in> set ks. length k \<le> b \<Longrightarrow> body_size ks \<le> length ks * (b + 6)"
  by (induction ks) (auto simp: body_size_def)

text \<open>One key more, anywhere in the list.\<close>

lemma run_fits_grown:
  assumes "run_ok t (xs @ ys) run" "run_keys (xs @ k # ys)" "\<forall>x \<in> set (xs @ k # ys). length x \<le> MAX_KEY"
  shows "run_fits (xs @ k # ys)"
proof -
  have s: "run_keys (xs @ ys)" using assms(2) by (auto simp: run_keys_def sorted_wrt_append)
  have k: "length k \<le> MAX_KEY" using assms(3) by simp
  consider "length run \<le> GIN_RUN_MAX_BYTES" | "length (xs @ ys) = 1" using assms(1) by (auto simp: run_ok_def)
  then have "body_size (butlast (xs @ k # ys)) < 2 ^ 16"
  proof cases
    case 1
    have "body_size (xs @ ys) \<le> length (xs @ ys) * (64 + 6)"
      using small_run [OF _ s 1] assms(1) by (intro body_size_bound) (auto simp: run_ok_def)
    also have "\<dots> \<le> 32 * 70" using small_run(1) [OF _ s 1] assms(1) by (intro mult_le_mono) (auto simp: run_ok_def)
    finally have "body_size (xs @ k # ys) \<le> 32 * 70 + 32768 + 6" using k by (simp add: body_size_def MAX_KEY_def)
    then show ?thesis using body_size_butlast [of "xs @ k # ys"] by simp
  next
    case 2
    then have "length (butlast (xs @ k # ys)) = 1" by simp
    moreover have "\<forall>x \<in> set (butlast (xs @ k # ys)). length x \<le> MAX_KEY" using assms(3) by (meson in_set_butlastD)
    ultimately show ?thesis using body_size_bound [of "butlast (xs @ k # ys)" MAX_KEY] by (simp add: MAX_KEY_def)
  qed
  then show ?thesis using assms(2) by (simp add: run_fits_def)
qed

lemma run_fits_part:
  assumes "run_fits (xs @ ys)"
  shows "xs \<noteq> [] \<Longrightarrow> run_fits xs" "ys \<noteq> [] \<Longrightarrow> run_fits ys"
proof -
  have "body_size (butlast xs) \<le> body_size (butlast (xs @ ys))"
    using body_size_butlast [of xs] by (cases "ys = []") (auto simp: butlast_append)
  then show "xs \<noteq> [] \<Longrightarrow> run_fits xs" using assms by (auto simp: run_fits_def run_keys_def sorted_wrt_append)
  have "body_size (butlast ys) \<le> body_size (butlast (xs @ ys))" by (cases "ys = []") (auto simp: butlast_append body_size_def)
  then show "ys \<noteq> [] \<Longrightarrow> run_fits ys" using assms by (auto simp: run_fits_def run_keys_def sorted_wrt_append)
qed

section \<open>Packing and splitting keep the keys\<close>

lemma split_runs_correct:
  "run_fits ks \<Longrightarrow> \<exists>parts runs. split_runs t ks out = Some (out @ runs) \<and> list_all2 (run_ok t) parts runs \<and> concat parts = ks"
proof (induction t ks out rule: split_runs.induct)
  case (1 t keys out)
  obtain run where run: "encode_run t keys = Some run" using encode_run_total [OF 1(3)] by blast
  let ?mid = "div_ceil (length keys) 2"
  show ?case
  proof (cases "length run \<le> GIN_RUN_MAX_BYTES \<or> length keys = 1")
    case True
    then have "split_runs t keys out = Some (out @ [run])" using run by (subst split_runs.simps) simp
    moreover have "list_all2 (run_ok t) [keys] [run]" using run True by (simp add: run_ok_def)
    ultimately show ?thesis by (intro exI [of _ "[keys]"] exI [of _ "[run]"]) simp
  next
    case False
    have n: "2 \<le> length keys" using False 1(3) by (cases keys) (auto simp: run_fits_def Suc_le_eq)
    then have m: "0 < ?mid" "?mid < length keys" by (auto simp: div_ceil_def)
    have f: "run_fits (take ?mid keys)" "run_fits (drop ?mid keys)"
      using run_fits_part [of "take ?mid keys" "drop ?mid keys"] 1(3) m by (auto simp: run_fits_def)
    obtain p1 r1 where s1: "split_runs t (take ?mid keys) out = Some (out @ r1)"
      "list_all2 (run_ok t) p1 r1" "concat p1 = take ?mid keys"
      using 1(1) [OF run False refl f(1)] by blast
    obtain p2 r2 where s2: "split_runs t (drop ?mid keys) (out @ r1) = Some ((out @ r1) @ r2)"
      "list_all2 (run_ok t) p2 r2" "concat p2 = drop ?mid keys"
      using 1(2) [OF run False refl s1(1) f(2)] by blast
    have "split_runs t keys out = Some (out @ r1 @ r2)"
      using run False s1(1) s2(1) by (subst split_runs.simps) simp
    moreover have "list_all2 (run_ok t) (p1 @ p2) (r1 @ r2)" using s1 s2 by (simp add: list_all2_appendI)
    ultimately show ?thesis using s1 s2 by (intro exI [of _ "p1 @ p2"] exI [of _ "r1 @ r2"]) simp
  qed
qed
text \<open>No run of a greedy packing has room for the first key of the next.\<close>

fun greedy :: "bytes \<Rightarrow> bytes list list \<Rightarrow> bool" where
  "greedy t (p # q # ps) \<longleftrightarrow> (\<exists>run. encode_run t (p @ [hd q]) = Some run \<and> GIN_RUN_MAX_BYTES < length run)
     \<and> greedy t (q # ps)"
| "greedy t ps = True"

definition storage_keys :: "bytes list \<Rightarrow> bool" where
  "storage_keys ks \<longleftrightarrow> sorted_wrt (<) ks \<and> (\<forall>k \<in> set ks. k \<noteq> [] \<and> length k \<le> MAX_KEY)"

lemma storage_keys_run: "storage_keys ks \<Longrightarrow> run_keys ks"
  by (auto simp: storage_keys_def run_keys_def MAX_KEY_def)

lemma storage_keys_part: "storage_keys (xs @ ys) \<Longrightarrow> storage_keys xs \<and> storage_keys ys"
  by (auto simp: storage_keys_def sorted_wrt_append)

lemma single_run_ok: "k \<noteq> [] \<Longrightarrow> length k \<le> MAX_KEY \<Longrightarrow> \<exists>run. run_ok t [k] run"
  using encode_run_total [of "[k]" t]
  by (auto simp: run_ok_def run_fits_def run_keys_def body_size_def MAX_KEY_def)

lemma pack_end_correct:
  assumes "storage_keys (pre @ xs @ ys)" "xs \<noteq> []" "run_ok t xs r"
  shows "\<exists>zs ws run. ys = zs @ ws \<and> pack_end t (pre @ xs @ ys) (length pre) (length pre + length xs) = Some (length pre + length (xs @ zs))
    \<and> run_ok t (xs @ zs) run
    \<and> (ws \<noteq> [] \<longrightarrow> (\<exists>run. encode_run t (xs @ zs @ [hd ws]) = Some run \<and> GIN_RUN_MAX_BYTES < length run))"
  using assms
proof (induction ys arbitrary: xs r)
  case Nil
  then show ?case by (subst pack_end.simps) auto
next
  case (Cons y ys)
  have k: "storage_keys (xs @ [y])" using Cons.prems(1) storage_keys_part [of pre] storage_keys_part [of "xs @ [y]" ys] by auto
  then have f: "run_fits (xs @ [y])"
    using run_fits_grown [of t xs "[]" r y] Cons.prems(3) storage_keys_run [OF k] by (auto simp: storage_keys_def)
  then obtain run where run: "encode_run t (xs @ [y]) = Some run" using encode_run_total by blast
  have s: "slice_of (pre @ xs @ y # ys) (length pre) (length pre + length xs + 1) = Some (xs @ [y])"
    by (simp add: slice_of_def)
  show ?case
  proof (cases "length run \<le> GIN_RUN_MAX_BYTES")
    case True
    have "pack_end t (pre @ xs @ y # ys) (length pre) (length pre + length xs)
      = pack_end t (pre @ (xs @ [y]) @ ys) (length pre) (length pre + length (xs @ [y]))"
      using True run s by (subst pack_end.simps) simp
    moreover obtain zs ws run' where "ys = zs @ ws"
      "pack_end t (pre @ (xs @ [y]) @ ys) (length pre) (length pre + length (xs @ [y])) = Some (length pre + length ((xs @ [y]) @ zs))"
      "run_ok t ((xs @ [y]) @ zs) run'"
      "ws \<noteq> [] \<longrightarrow> (\<exists>run. encode_run t ((xs @ [y]) @ zs @ [hd ws]) = Some run \<and> GIN_RUN_MAX_BYTES < length run)"
      using Cons.IH [of "xs @ [y]" run] Cons.prems(1) run True by (auto simp: run_ok_def)
    ultimately show ?thesis by (intro exI [of _ "y # zs"] exI [of _ ws] exI [of _ run']) simp
  next
    case False
    then have "pack_end t (pre @ xs @ y # ys) (length pre) (length pre + length xs) = Some (length pre + length xs)"
      using run s by (subst pack_end.simps) simp
    then show ?thesis using Cons.prems(3) run False by (intro exI [of _ "[]"] exI [of _ "y # ys"] exI [of _ r]) simp
  qed
qed

lemma pack_loop_correct:
  assumes "storage_keys (pre @ ks)"
  shows "\<exists>parts runs. pack_loop t (pre @ ks) out (length pre) = Some (out @ runs) \<and> concat parts = ks
    \<and> list_all2 (run_ok t) parts runs \<and> greedy t parts"
  using assms
proof (induction ks arbitrary: pre out rule: length_induct)
  case (1 ks)
  show ?case
  proof (cases ks)
    case Nil
    then show ?thesis by (subst pack_loop.simps) (auto intro!: exI [of _ "[]"])
  next
    case (Cons k ys)
    then have "k \<noteq> []" "length k \<le> MAX_KEY" using 1(2) by (auto simp: storage_keys_def)
    then obtain r where r: "run_ok t [k] r" using single_run_ok by blast
    obtain zs ws run where z: "ys = zs @ ws"
      "pack_end t (pre @ [k] @ ys) (length pre) (length pre + length [k]) = Some (length pre + length ([k] @ zs))"
      "run_ok t ([k] @ zs) run"
      "ws \<noteq> [] \<longrightarrow> (\<exists>run. encode_run t ([k] @ zs @ [hd ws]) = Some run \<and> GIN_RUN_MAX_BYTES < length run)"
      using pack_end_correct [of pre "[k]" ys t r] 1(2) r Cons by auto
    have "slice_of (pre @ k # zs @ ws) (length pre) (length pre + length (k # zs)) = Some (k # zs)"
      by (simp add: slice_of_def)
    then have p: "pack_loop t (pre @ ks) out (length pre) = pack_loop t ((pre @ k # zs) @ ws) (out @ [run]) (length (pre @ k # zs))"
      using z(2,3) by (subst pack_loop.simps) (simp add: Cons z(1) run_ok_def)
    obtain parts runs where IH: "pack_loop t ((pre @ k # zs) @ ws) (out @ [run]) (length (pre @ k # zs)) = Some ((out @ [run]) @ runs)"
      "concat parts = ws" "list_all2 (run_ok t) parts runs" "greedy t parts"
      using 1(1) [rule_format, of ws "pre @ k # zs" "out @ [run]"] 1(2) Cons z(1) by auto
    have "greedy t ((k # zs) # parts)"
    proof (cases parts)
      case (Cons q qs)
      with IH(3) have "q \<noteq> []" by (auto simp: list_all2_Cons1 run_ok_def dest: encode_run_nonempty)
      then have "ws \<noteq> []" "hd ws = hd q" using IH(2) Cons by auto
      then show ?thesis using z(4) IH(4) Cons by simp
    qed simp
    then show ?thesis using IH p z Cons
      by (intro exI [of _ "(k # zs) # parts"] exI [of _ "run # runs"]) simp
  qed
qed

section \<open>Prefix ranges\<close>

lemma append_le_append [simp]: "p @ a \<le> p @ b \<longleftrightarrow> a \<le> (b :: 'a::linorder list)"
  by (induction p) auto

lemma append_less_append [simp]: "p @ a < p @ b \<longleftrightarrow> a < (b :: 'a::linorder list)"
  by (induction p) auto

lemma prefix_le: "prefix p s \<Longrightarrow> p \<le> (s :: 'a::linorder list)"
proof -
  assume "prefix p s"
  then obtain u where "s = p @ u" by (auto simp: prefix_def)
  then show ?thesis using append_le_append [of p "[]" u] by simp
qed

lemma byte_top: "(0xFF :: u8) \<le> a \<longleftrightarrow> a = 0xFF" "c \<noteq> (0xFF :: u8) \<Longrightarrow> a < c + 1 \<longleftrightarrow> a \<le> c"
proof -
  have m: "(0xFF :: u8) = - 1" by simp
  show "(0xFF :: u8) \<le> a \<longleftrightarrow> a = 0xFF" unfolding m by (rule word_order.extremum_unique)
  assume "c \<noteq> (0xFF :: u8)"
  then have "c + 1 \<noteq> 0" unfolding m by (simp add: eq_neg_iff_add_eq_0)
  then show "a < c + 1 \<longleftrightarrow> a \<le> c" using less_eq_dec_iff [of a "c + 1"] by simp
qed

lemma last_byte_range:
  assumes "c \<noteq> (0xFF :: u8)"
  shows "xs @ [c] \<le> r \<and> r < xs @ [c + 1] \<longleftrightarrow> prefix (xs @ [c]) r"
proof (induction xs arbitrary: r)
  case Nil
  show ?case
  proof (cases r)
    case (Cons a rs)
    have "a # rs < [c + 1] \<longleftrightarrow> a \<le> c" unfolding byte_top(2) [OF assms, of a, symmetric] by simp
    moreover have "[c] \<le> a # rs \<longleftrightarrow> c \<le> a" by (cases rs) (auto simp: le_less)
    ultimately show ?thesis unfolding Cons by auto
  qed simp
next
  case (Cons x xs)
  show ?case
  proof (cases r)
    case r: (Cons a rs)
    show ?thesis
    proof (cases "a = x")
      case True
      have "(x # xs) @ [c] \<le> r \<longleftrightarrow> xs @ [c] \<le> rs" "r < (x # xs) @ [c + 1] \<longleftrightarrow> rs < xs @ [c + 1]"
        by (simp_all add: r True)
      then show ?thesis using Cons.IH [of rs] by (simp add: r True)
    qed (simp add: r, use less_asym in blast)
  qed simp
qed

lemma prefix_successor_range:
  "t \<le> r \<Longrightarrow> (case prefix_successor t of None \<Rightarrow> True | Some h \<Rightarrow> r < h) \<longleftrightarrow> prefix t r"
proof (induction t rule: prefix_successor.induct)
  case (1 t)
  show ?case
  proof (cases t rule: rev_cases)
    case Nil
    then show ?thesis by (subst prefix_successor.simps) simp
  next
    case (snoc xs c)
    show ?thesis
    proof (cases "c = 0xFF")
      case False
      then show ?thesis using last_byte_range [OF False, of xs r] 1(2) by (subst prefix_successor.simps) (simp add: snoc)
    next
      case True
      have x: "xs \<le> r" using 1(2) prefix_le [of xs t] by (auto simp: snoc intro: order_trans)
      have "prefix (xs @ [c]) r \<longleftrightarrow> prefix xs r"
      proof
        assume "prefix xs r"
        then obtain s where s: "r = xs @ s" by (auto simp: prefix_def)
        then have "[0xFF] \<le> s" using 1(2) by (simp add: snoc True)
        then obtain a s' where "s = a # s'" "0xFF \<le> a" by (cases s) (auto intro: less_imp_le)
        then have "s = 0xFF # s'" by (simp only: byte_top(1))
        then show "prefix (xs @ [c]) r" using s True by simp
      qed (auto dest: append_prefixD)
      then show ?thesis using 1(1) x by (subst prefix_successor.simps) (simp add: snoc True)
    qed
  qed
qed

section \<open>Properties\<close>

text \<open>
  C34. A from-scratch build packs a posting list greedily: it succeeds on every ascending list of
  storage keys of at most 32768 bytes, the runs hold the list's keys in order, a run is within 64
  bytes unless it has a single key, and no run has room for the first key of the next.
\<close>

theorem pack_runs_greedy:
  assumes "storage_keys ks"
  shows "\<exists>parts runs. pack_runs t ks = Some runs \<and> concat parts = ks \<and> greedy t parts
    \<and> list_all2 (\<lambda>p run. decode_run (length t) run = Some (Inr p)
         \<and> (length run \<le> GIN_RUN_MAX_BYTES \<or> length p = 1)) parts runs"
proof -
  obtain parts runs where p: "pack_runs t ks = Some runs" "concat parts = ks" "list_all2 (run_ok t) parts runs" "greedy t parts"
    using pack_loop_correct [of "[]" ks t "[]"] assms by (auto simp: pack_runs_def)
  have "list_all2 (\<lambda>p run. decode_run (length t) run = Some (Inr p)
         \<and> (length run \<le> GIN_RUN_MAX_BYTES \<or> length p = 1)) parts runs"
  proof (rule list.rel_mono_strong [OF p(3)])
    fix q run
    assume q: "q \<in> set parts" "run_ok t q run"
    then obtain xs ys where "ks = xs @ q @ ys" using p(2) by (auto dest!: split_list)
    then have "run_keys q" using assms storage_keys_part storage_keys_run by metis
    then show "decode_run (length t) run = Some (Inr q) \<and> (length run \<le> GIN_RUN_MAX_BYTES \<or> length q = 1)"
      using q(2) decode_encode_run by (auto simp: run_ok_def)
  qed
  then show ?thesis using p by blast
qed

definition long_keys :: "bytes list" where
  "long_keys = map (\<lambda>i. i # replicate 27 0) [1, 2, 3]"

theorem pack_runs_greedy_witness:
  "\<exists>runs. pack_runs [0x61, 0] long_keys = Some runs \<and> length runs = 2
     \<and> (\<exists>parts. concat parts = long_keys \<and> greedy [0x61, 0] parts)"
proof -
  have "storage_keys long_keys" by (simp add: storage_keys_def long_keys_def MAX_KEY_def word_less_nat_alt)
  from pack_runs_greedy [OF this, of "[0x61, 0]"] have "\<exists>parts. concat parts = long_keys \<and> greedy [0x61, 0] parts" by blast
  moreover have "map_option length (pack_runs [0x61, 0] long_keys) = Some 2" by code_simp
  ultimately show ?thesis by auto
qed

end
