(* ===== verification/Key_Index.thy ===== *)
theory Key_Index
  imports Store_Refine
begin

text \<open>
  A store used as an ordered set of keys: the interface the posting runs are maintained through,
  what the scans that stop at their first record return, and the table store as an instance.
\<close>

section \<open>The interface\<close>

locale key_index =
  fixes ok :: "'s \<Rightarrow> bool"
    and keys :: "'s \<Rightarrow> key set"
    and space :: "'s \<Rightarrow> nat \<Rightarrow> bool"
    and fits :: "'s \<Rightarrow> key \<Rightarrow> bool"
    and ins :: "'o \<Rightarrow> key \<Rightarrow> ('s, bool) prog"
    and del :: "'o \<Rightarrow> key \<Rightarrow> ('s, bool) prog"
    and first_in :: "'s \<Rightarrow> key_bound \<Rightarrow> key option io"
    and last_in :: "'s \<Rightarrow> key_bound \<Rightarrow> key option io"
  assumes space_mono: "space s n \<Longrightarrow> m \<le> n \<Longrightarrow> space s m"
    and ins_law: "ok s \<Longrightarrow> space s (Suc n) \<Longrightarrow> fits s k \<Longrightarrow>
      \<exists>s'. ins ow k s = Some (s', Inr (k \<notin> keys s)) \<and> ok s' \<and> space s' n
        \<and> fits s' = fits s \<and> keys s' = insert k (keys s)"
    and del_law: "ok s \<Longrightarrow> space s n \<Longrightarrow>
      \<exists>s'. del ow k s = Some (s', Inr (k \<in> keys s)) \<and> ok s' \<and> space s' n
        \<and> fits s' = fits s \<and> keys s' = keys s - {k}"
    and first_law: "ok s \<Longrightarrow> \<exists>r. first_in s b = Some (Inr r) \<and>
      (case r of None \<Rightarrow> \<forall>k \<in> keys s. \<not> in_bound b k
       | Some k \<Rightarrow> k \<in> keys s \<and> in_bound b k \<and> (\<forall>k' \<in> keys s. in_bound b k' \<longrightarrow> k \<le> k'))"
    and last_law: "ok s \<Longrightarrow> \<exists>r. last_in s b = Some (Inr r) \<and>
      (case r of None \<Rightarrow> \<forall>k \<in> keys s. \<not> in_bound b k
       | Some k \<Rightarrow> k \<in> keys s \<and> in_bound b k \<and> (\<forall>k' \<in> keys s. in_bound b k' \<longrightarrow> k' \<le> k))"
begin

lemma ins_all:
  assumes "ok s" "space s (length ks + n)" "\<forall>k \<in> set ks. fits s k"
  shows "\<exists>s'. for_while (\<lambda>(i, k) s. st_bind (ins (ow i) k s) (\<lambda>_ s. Some (s, Inr True))) (enumerate m ks) s = Some (s', Inr True)
    \<and> ok s' \<and> space s' n \<and> fits s' = fits s \<and> keys s' = keys s \<union> set ks"
  using assms
proof (induction ks arbitrary: s m)
  case (Cons k ks)
  obtain t where t: "ins (ow m) k s = Some (t, Inr (k \<notin> keys s))" "ok t" "space t (length ks + n)" "fits t = fits s"
    "keys t = insert k (keys s)"
    using ins_law [of s "length ks + n" k "ow m"] Cons.prems by auto
  obtain s' where "for_while (\<lambda>(i, k) s. st_bind (ins (ow i) k s) (\<lambda>_ s. Some (s, Inr True))) (enumerate (Suc m) ks) t = Some (s', Inr True)"
    "ok s' \<and> space s' n \<and> fits s' = fits t \<and> keys s' = keys t \<union> set ks"
    using Cons.IH [of t "Suc m"] t Cons.prems(3) by auto
  then show ?case using t by auto
qed auto

text \<open>Removing one key and inserting others in its place.\<close>

lemma replace_keys:
  assumes "ok s" "space s (length ks + n)" "\<forall>k \<in> set ks. fits s k"
  shows "\<exists>s'. st_bind (del (ow 0) old s) (\<lambda>_. for_while (\<lambda>(i, k) s. st_bind (ins (ow i) k s) (\<lambda>_ s. Some (s, Inr True))) (enumerate 1 ks))
      = Some (s', Inr True) \<and> ok s' \<and> space s' n \<and> fits s' = fits s \<and> keys s' = keys s - {old} \<union> set ks"
proof -
  obtain t where t: "del (ow 0) old s = Some (t, Inr (old \<in> keys s))" "ok t" "space t (length ks + n)" "fits t = fits s"
    "keys t = keys s - {old}"
    using del_law [OF assms(1,2), of "ow 0" old] by blast
  show ?thesis using ins_all [OF t(2,3), of ow 1] assms(3) t by auto
qed

end

section \<open>A store of records without values\<close>

text \<open>The closures that stop at the first record they see.\<close>

definition first_key :: "('c, 'r) table_store \<Rightarrow> key_bound \<Rightarrow> key option io" where
  "first_key s b = finished (store_scan_range s b (\<lambda>kr found. Some (Some (fst kr), Inr False)) None)"

definition last_key :: "('c, 'r) table_store \<Rightarrow> key_bound \<Rightarrow> key option io" where
  "last_key s b = finished (store_scan_range_rev s b (\<lambda>kr found. Some (Some (fst kr), Inr False)) None)"

definition store_keys :: "('c, 'r) table_store \<Rightarrow> key set" where
  "store_keys s = fst ` set (row_entries s)"

lemma take_first: "finished (map_option (\<lambda>(s, r). (s, res_bind r (\<lambda>_. Inr ())))
    (for_while (\<lambda>kr found. Some (Some (f kr), Inr False)) es None)) = Some (Inr (case es of [] \<Rightarrow> None | x # _ \<Rightarrow> Some (f x)))"
  by (cases es) (simp_all add: finished_def)

lemma sorted_ends:
  assumes "sorted_keys es"
  shows "case es of [] \<Rightarrow> True | x # _ \<Rightarrow> \<forall>y \<in> set es. fst x \<le> fst y"
    "case rev es of [] \<Rightarrow> True | x # _ \<Rightarrow> \<forall>y \<in> set es. fst y \<le> fst x"
proof -
  show "case es of [] \<Rightarrow> True | x # _ \<Rightarrow> \<forall>y \<in> set es. fst x \<le> fst y" using assms by (cases es) auto
  show "case rev es of [] \<Rightarrow> True | x # _ \<Rightarrow> \<forall>y \<in> set es. fst y \<le> fst x" using assms by (cases es rule: rev_cases) auto
qed

lemma key_scans:
  assumes "store_wf s"
  shows "\<exists>r. first_key s b = Some (Inr r) \<and>
      (case r of None \<Rightarrow> \<forall>k \<in> store_keys s. \<not> in_bound b k
       | Some k \<Rightarrow> k \<in> store_keys s \<and> in_bound b k \<and> (\<forall>k' \<in> store_keys s. in_bound b k' \<longrightarrow> k \<le> k'))"
    "\<exists>r. last_key s b = Some (Inr r) \<and>
      (case r of None \<Rightarrow> \<forall>k \<in> store_keys s. \<not> in_bound b k
       | Some k \<Rightarrow> k \<in> store_keys s \<and> in_bound b k \<and> (\<forall>k' \<in> store_keys s. in_bound b k' \<longrightarrow> k' \<le> k))"
proof -
  let ?es = "bounded b (row_entries s)"
  have srt: "sorted_keys ?es"
    using store_wfD(4) [OF assms] by (simp add: bounded_def sorted_keys_def sorted_wrt_map sorted_wrt_filter)
  have m: "k \<in> store_keys s \<and> in_bound b k \<longleftrightarrow> k \<in> fst ` set ?es" for k
    by (auto simp: store_keys_def bounded_def)
  have f: "first_key s b = Some (Inr (case ?es of [] \<Rightarrow> None | x # _ \<Rightarrow> Some (fst x)))"
    "last_key s b = Some (Inr (case rev ?es of [] \<Rightarrow> None | x # _ \<Rightarrow> Some (fst x)))"
    using scan_range_wf [OF store_wfD(1) [OF assms], of b "prefetches s" "\<lambda>kr found. Some (Some (fst kr), Inr False)" None]
      take_first [of fst ?es] take_first [of fst "rev ?es"]
    by (simp_all add: first_key_def last_key_def store_scan_range_def store_scan_range_rev_def row_entries_def)
  show "\<exists>r. first_key s b = Some (Inr r) \<and>
      (case r of None \<Rightarrow> \<forall>k \<in> store_keys s. \<not> in_bound b k
       | Some k \<Rightarrow> k \<in> store_keys s \<and> in_bound b k \<and> (\<forall>k' \<in> store_keys s. in_bound b k' \<longrightarrow> k \<le> k'))"
  proof (cases ?es)
    case Nil
    then show ?thesis using f(1) m by auto
  next
    case (Cons x xs)
    have x: "fst x \<in> store_keys s \<and> in_bound b (fst x)" unfolding m using Cons by simp
    have le: "fst x \<le> k'" if "k' \<in> store_keys s \<and> in_bound b k'" for k'
      using that sorted_ends(1) [OF srt] Cons unfolding m by auto
    show ?thesis unfolding f(1) Cons using x le by simp
  qed
  show "\<exists>r. last_key s b = Some (Inr r) \<and>
      (case r of None \<Rightarrow> \<forall>k \<in> store_keys s. \<not> in_bound b k
       | Some k \<Rightarrow> k \<in> store_keys s \<and> in_bound b k \<and> (\<forall>k' \<in> store_keys s. in_bound b k' \<longrightarrow> k' \<le> k))"
  proof (cases "rev ?es")
    case Nil
    then show ?thesis using f(2) m by auto
  next
    case (Cons x xs)
    have "x \<in> set ?es" using Cons by (metis list.set_intros(1) set_rev)
    then have x: "fst x \<in> store_keys s \<and> in_bound b (fst x)" unfolding m by simp
    have le: "k' \<le> fst x" if "k' \<in> store_keys s \<and> in_bound b k'" for k'
      using that sorted_ends(2) [OF srt] Cons unfolding m by auto
    show ?thesis unfolding f(2) Cons using x le by simp
  qed
qed

lemma small_config: "same_config s s' \<Longrightarrow> ts_net s' = ts_net s \<Longrightarrow> small cd s' = small cd s"
  using config_fun(1) [of s s' cd] by (intro ext) (simp add: small_def same_config_def)

lemma keys_upd: "fst ` set (upd_list k v ps) = insert k (fst ` set ps)"
  by (induction k v ps rule: upd_list.induct) auto

lemma keys_del: "fst ` set (del_list k ps) = fst ` set ps - {k}"
  by (auto simp: del_list_def)

lemma view_keys: "store_keys s = fst ` set (v_rows (view s))" by (simp add: store_keys_def)

lemma map_of_None_keys: "map_of (row_entries s) k = None \<longleftrightarrow> k \<notin> store_keys s"
  by (simp add: map_of_eq_None_iff store_keys_def)

interpretation index: key_index store_wf store_keys room "\<lambda>s k. small cd s k row" "\<lambda>ow k. store_insert cd ow k row" store_remove first_key last_key
  for cd :: "('c, 'r) codec" and row :: 'r
proof
  fix s :: "('c, 'r) table_store" and n m k ow b
  show "room s n \<Longrightarrow> m \<le> n \<Longrightarrow> room s m" by (auto simp: room_def)
  show "\<exists>r. first_key s b = Some (Inr r) \<and>
      (case r of None \<Rightarrow> \<forall>k \<in> store_keys s. \<not> in_bound b k
       | Some k \<Rightarrow> k \<in> store_keys s \<and> in_bound b k \<and> (\<forall>k' \<in> store_keys s. in_bound b k' \<longrightarrow> k \<le> k'))" if "store_wf s"
    by (rule key_scans(1) [OF that])
  show "\<exists>r. last_key s b = Some (Inr r) \<and>
      (case r of None \<Rightarrow> \<forall>k \<in> store_keys s. \<not> in_bound b k
       | Some k \<Rightarrow> k \<in> store_keys s \<and> in_bound b k \<and> (\<forall>k' \<in> store_keys s. in_bound b k' \<longrightarrow> k' \<le> k))" if "store_wf s"
    by (rule key_scans(2) [OF that])
  show "\<exists>s'. store_insert cd ow k row s = Some (s', Inr (k \<notin> store_keys s)) \<and> store_wf s' \<and> room s' n
      \<and> (\<lambda>k. small cd s' k row) = (\<lambda>k. small cd s k row) \<and> store_keys s' = insert k (store_keys s)"
    if a: "store_wf s" "room s (Suc n)" "small cd s k row"
  proof -
    obtain s' where s': "store_insert cd ow k row s = Some (s', Inr (map_of (row_entries s) k = None))" "store_wf s'"
      "same_config s s'" "room s' n" "view s' = spec_insert k row (snd (weight cd s k row)) (view s)"
      using store_insert_wf [OF a, of ow] by blast
    have "ts_net s' = ts_net s" using arg_cong [OF s'(5), of v_net] by (simp add: spec_insert_def)
    moreover have "store_keys s' = insert k (store_keys s)"
      unfolding view_keys s'(5) by (auto simp: spec_insert_def keys_upd map_of_None_keys store_keys_def [symmetric])
    ultimately show ?thesis using s'(1,2,4) small_config [OF s'(3)] by (simp add: map_of_None_keys)
  qed
  show "\<exists>s'. store_remove ow k s = Some (s', Inr (k \<in> store_keys s)) \<and> store_wf s' \<and> room s' n
      \<and> (\<lambda>k. small cd s' k row) = (\<lambda>k. small cd s k row) \<and> store_keys s' = store_keys s - {k}"
    if a: "store_wf s" "room s n"
  proof -
    obtain s' where s': "store_remove ow k s = Some (s', Inr (map_of (row_entries s) k \<noteq> None))" "store_wf s'"
      "same_config s s'" "room s' n" "view s' = spec_remove k (view s)"
      using store_remove_wf [OF a, of ow k] by blast
    have "ts_net s' = ts_net s" using arg_cong [OF s'(5), of v_net] by (simp add: spec_remove_def spec_unstage_def)
    moreover have "store_keys s' = store_keys s - {k}"
      unfolding view_keys s'(5) by (auto simp: spec_remove_def keys_del map_of_None_keys store_keys_def [symmetric])
    ultimately show ?thesis using s'(1,2,4) small_config [OF s'(3)] by (simp add: map_of_None_keys)
  qed
qed

end
