(* ===== verification/Gin_Index.thy ===== *)
theory Gin_Index
  imports Key_Index Gin_Pack
begin

text \<open>
  Maintenance of a GIN entry tree (\<open>gin_runs.rs\<close>): the searches for the run of a posting, adding a
  posting to its run or to a new one, removing it, splitting what outgrows its limit. The tree is
  shown to hold exactly the set of postings the operations mean.
\<close>

section \<open>Sets of runs\<close>

text \<open>
  The abstract content of an entry tree: the set \<open>R\<close> of its runs, a term with the ascending
  storage keys. No term is a prefix of another and no storage key is a prefix of another: both
  are order-preserving encodings that end themselves.
\<close>

definition prefix_free :: "bytes set \<Rightarrow> bool" where
  "prefix_free A \<longleftrightarrow> (\<forall>a \<in> A. \<forall>b \<in> A. prefix a b \<longrightarrow> a = b)"

definition encodings :: "bytes set \<Rightarrow> bytes set \<Rightarrow> bool" where
  "encodings T K \<longleftrightarrow> prefix_free T \<and> prefix_free K \<and> (\<forall>k \<in> K. k \<noteq> [] \<and> length k \<le> MAX_KEY)"

definition apart :: "bytes list \<Rightarrow> bytes list \<Rightarrow> bool" where
  "apart ks ks' \<longleftrightarrow> (\<forall>a \<in> set ks. \<forall>b \<in> set ks'. a < b) \<or> (\<forall>a \<in> set ks. \<forall>b \<in> set ks'. b < a)"

definition good_run :: "bytes set \<Rightarrow> bytes set \<Rightarrow> bytes \<times> bytes list \<Rightarrow> bool" where
  "good_run T K p \<longleftrightarrow> fst p \<in> T \<and> set (snd p) \<subseteq> K \<and> sorted_wrt (<) (snd p) \<and> (\<exists>run. run_ok (fst p) (snd p) run)"

definition gin_wf :: "bytes set \<Rightarrow> bytes set \<Rightarrow> (bytes \<times> bytes list) set \<Rightarrow> bool" where
  "gin_wf T K R \<longleftrightarrow> (\<forall>p \<in> R. good_run T K p) \<and> (\<forall>t ks ks'. (t, ks) \<in> R \<longrightarrow> (t, ks') \<in> R \<longrightarrow> ks \<noteq> ks' \<longrightarrow> apart ks ks')"

definition postings :: "(bytes \<times> bytes list) set \<Rightarrow> (bytes \<times> bytes) set" where
  "postings R = {(t, k). \<exists>ks. (t, ks) \<in> R \<and> k \<in> set ks}"

definition run_key :: "bytes \<times> bytes list \<Rightarrow> bytes" where
  "run_key p = the (encode_run (fst p) (snd p))"

lemma apart_sym: "apart ks ks' \<Longrightarrow> apart ks' ks"
  by (auto simp: apart_def)

lemma apart_subset: "apart ks ks' \<Longrightarrow> set ps \<subseteq> set ks \<Longrightarrow> apart ps ks'"
  by (auto simp: apart_def)

lemma apart_parts:
  "sorted_wrt (<) (concat parts) \<Longrightarrow> p \<in> set parts \<Longrightarrow> q \<in> set parts \<Longrightarrow> p \<noteq> q \<Longrightarrow> apart p q"
  by (induction parts) (auto simp: sorted_wrt_append apart_def)

lemma good_runD:
  assumes "encodings T K" "good_run T K (t, ks)"
  shows "t \<in> T" "ks \<noteq> []" "run_keys ks" "storage_keys ks" "encode_run t ks = Some (run_key (t, ks))" "last ks \<in> K"
    "run_ok t ks (run_key (t, ks))" "k \<in> set ks \<Longrightarrow> k \<le> last ks" "k \<in> set ks \<Longrightarrow> k \<in> K"
proof -
  obtain run where r: "run_ok t ks run" using assms(2) by (auto simp: good_run_def)
  then have e: "encode_run t ks = Some run" by (simp add: run_ok_def)
  then show n: "ks \<noteq> []" by (rule encode_run_nonempty)
  show "encode_run t ks = Some (run_key (t, ks))" "run_ok t ks (run_key (t, ks))" using e r by (simp_all add: run_key_def)
  show sk: "storage_keys ks" using assms by (auto simp: good_run_def encodings_def storage_keys_def)
  then show "run_keys ks" by (rule storage_keys_run)
  show "last ks \<in> K" "t \<in> T" "k \<in> set ks \<Longrightarrow> k \<in> K" using assms(2) n by (auto simp: good_run_def)
  show "k \<in> set ks \<Longrightarrow> k \<le> last ks" using sk by (cases ks rule: rev_cases) (auto simp: storage_keys_def sorted_wrt_append)
qed

section \<open>The order of run keys\<close>

lemma not_prefix_dless: "\<not> prefix a b \<Longrightarrow> \<not> prefix b a \<Longrightarrow> dless a b \<or> dless b (a :: 'a::linorder list)"
  by (induction a b rule: dless.induct) auto

lemma prefix_free_cases:
  assumes "prefix_free A" "a \<in> A" "b \<in> A"
  obtains "a = b" | "dless a b" | "dless b a"
  using assms not_prefix_dless [of a b] by (auto simp: prefix_free_def)

lemma between_prefix: "p \<le> r \<Longrightarrow> r < p @ q \<Longrightarrow> prefix p (r :: 'a::linorder list)"
proof (induction p arbitrary: r)
  case (Cons x p)
  then show ?case by (cases r) auto
qed simp

lemma prefix_free_append:
  assumes "prefix_free A" "a \<in> A" "b \<in> A" "prefix a (b @ u)"
  shows "a = b"
  using assms prefix_same_cases [of a "b @ u" b] by (auto simp: prefix_free_def)

lemma prefix_free_le:
  assumes "prefix_free K" "k \<in> K" "l \<in> K"
  shows "k \<le> l @ u \<longleftrightarrow> k \<le> l" "u \<noteq> [] \<Longrightarrow> l @ u < k \<longleftrightarrow> l < k"
proof -
  consider "k = l" | "dless k l" | "dless l k" using prefix_free_cases [OF assms] by metis
  then show "k \<le> l @ u \<longleftrightarrow> k \<le> l"
  proof cases
    case 1
    then show ?thesis using prefix_le [of l "l @ u"] by simp
  next
    case 2
    then show ?thesis using dless_append [OF 2, of "[]" u] by (auto dest!: dless_imp_less)
  next
    case 3
    then show ?thesis using dless_append [OF 3, of u "[]"] by (auto dest!: dless_imp_less)
  qed
  then show "u \<noteq> [] \<Longrightarrow> l @ u < k \<longleftrightarrow> l < k" by (simp add: not_le [symmetric])
qed

text \<open>A run key is its term, its last key and a tail of at least two bytes.\<close>

lemma run_key_shape:
  assumes "encodings T K" "good_run T K (t, ks)"
  obtains u where "run_key (t, ks) = t @ last ks @ u" "u \<noteq> []"
proof -
  have "be_bytes 2 x \<noteq> []" for x by (metis length_be_bytes list.size(3) zero_neq_numeral)
  then show ?thesis using good_runD(5) [OF assms] that by (auto simp: encode_run_Some)
qed

definition after_bound :: "bytes \<Rightarrow> bytes \<Rightarrow> key_bound" where
  "after_bound t key = (term_bound t)\<lparr> kb_lo := Some (t @ key) \<rparr>"

definition before_bound :: "bytes \<Rightarrow> bytes \<Rightarrow> key_bound" where
  "before_bound t key = (term_bound t)\<lparr> kb_hi := Some (t @ key) \<rparr>"

lemma in_after_bound:
  assumes e: "encodings T K" and g: "good_run T K (t', ks)" and t: "t \<in> T" "key \<in> K"
  shows "in_bound (after_bound t key) (run_key (t', ks)) \<longleftrightarrow> t' = t \<and> key \<le> last ks"
proof -
  obtain u where u: "run_key (t', ks) = t' @ last ks @ u" using run_key_shape [OF e g] by metis
  have b: "in_bound (after_bound t key) r \<longleftrightarrow> t @ key \<le> r \<and> (case prefix_successor t of None \<Rightarrow> True | Some h \<Rightarrow> r < h)" for r
    by (auto simp: in_bound_def after_bound_def term_bound_def split: option.splits)
  have s: "t @ key \<le> r \<Longrightarrow> (case prefix_successor t of None \<Rightarrow> True | Some h \<Rightarrow> r < h) \<longleftrightarrow> prefix t r" for r
    using prefix_successor_range [of t r] prefix_le [of t "t @ key"] by (meson dual_order.trans prefixI)
  have tt: "t' = t" if "prefix t (run_key (t', ks))"
    using prefix_free_append [of T t t' "last ks @ u"] that e t(1) good_runD(1) [OF e g] by (simp add: encodings_def u)
  show ?thesis
  proof
    assume "in_bound (after_bound t key) (run_key (t', ks))"
    then have "t @ key \<le> run_key (t', ks)" "prefix t (run_key (t', ks))" using b s by blast+
    then show "t' = t \<and> key \<le> last ks"
      using tt prefix_free_le(1) [of K key "last ks" u] e t(2) good_runD(6) [OF e g] by (simp add: encodings_def u)
  next
    assume a: "t' = t \<and> key \<le> last ks"
    then have "key \<le> last ks @ u"
      using prefix_free_le(1) [of K key "last ks" u] e t(2) good_runD(6) [OF e g] by (simp add: encodings_def)
    then have "t @ key \<le> run_key (t', ks)" unfolding u using a by simp
    then show "in_bound (after_bound t key) (run_key (t', ks))" using b s a u by auto
  qed
qed

lemma in_before_bound:
  assumes e: "encodings T K" and g: "good_run T K (t', ks)" and t: "t \<in> T" "key \<in> K"
  shows "in_bound (before_bound t key) (run_key (t', ks)) \<longleftrightarrow> t' = t \<and> last ks < key"
proof -
  obtain u where u: "run_key (t', ks) = t' @ last ks @ u" "u \<noteq> []" using run_key_shape [OF e g] by metis
  have b: "in_bound (before_bound t key) r \<longleftrightarrow> t \<le> r \<and> r < t @ key" for r
    by (auto simp: in_bound_def before_bound_def term_bound_def)
  have "t' = t" if "t \<le> run_key (t', ks)" "run_key (t', ks) < t @ key"
    using prefix_free_append [of T t t' "last ks @ u"] between_prefix [OF that] e t(1) good_runD(1) [OF e g]
    by (simp add: encodings_def u)
  moreover have "t \<le> t @ last ks @ u" by (rule prefix_le) simp
  moreover have "last ks @ u < key \<longleftrightarrow> last ks < key"
    using prefix_free_le(2) [of K key "last ks" u] e t(2) good_runD(6) [OF e g] u(2) by (simp add: encodings_def)
  ultimately show ?thesis unfolding b by (auto simp: u(1))
qed

lemma run_key_le:
  assumes e: "encodings T K" and g: "good_run T K (t, ks)" "good_run T K (t, ks')"
  shows "run_key (t, ks) \<le> run_key (t, ks') \<Longrightarrow> last ks \<le> last ks'"
proof -
  obtain u where u: "run_key (t, ks) = t @ last ks @ u" "u \<noteq> []" using run_key_shape [OF e g(1)] by metis
  obtain v where v: "run_key (t, ks') = t @ last ks' @ v" using run_key_shape [OF e g(2)] by metis
  assume "run_key (t, ks) \<le> run_key (t, ks')"
  then have "last ks @ u \<le> last ks' @ v" by (simp add: u v)
  then have "last ks \<le> last ks' @ v" using prefix_le [of "last ks" "last ks @ u"] by (meson dual_order.trans prefixI)
  then show ?thesis using prefix_free_le(1) [of K "last ks" "last ks'" v] e good_runD(6) [OF e g(1)] good_runD(6) [OF e g(2)]
    by (simp add: encodings_def)
qed

lemma run_key_inj:
  assumes e: "encodings T K" and g: "good_run T K p" "good_run T K q" and eq: "run_key p = run_key q"
  shows "p = q"
proof -
  obtain t ks t' ks' where p: "p = (t, ks)" "q = (t', ks')" by fastforce
  note g1 = g(1) [unfolded p] and g2 = g(2) [unfolded p]
  obtain u where u: "run_key (t, ks) = t @ last ks @ u" using run_key_shape [OF e g1] by blast
  obtain v where v: "run_key (t', ks') = t' @ last ks' @ v" using run_key_shape [OF e g2] by blast
  have "t @ last ks @ u = t' @ last ks' @ v" using eq u v p by simp
  then have "prefix t (t' @ last ks' @ v)" by (metis prefixI)
  then have t: "t = t'" using prefix_free_append [of T t t'] e good_runD(1) [OF e g1] good_runD(1) [OF e g2] by (auto simp: encodings_def)
  have "Some (Inr ks) = decode_run (length t) (run_key (t, ks))" by (rule decode_encode_run [OF good_runD(5,3) [OF e g1], symmetric])
  also have "\<dots> = decode_run (length t') (run_key (t', ks'))" using eq unfolding p t by (rule arg_cong)
  also have "\<dots> = Some (Inr ks')" by (rule decode_encode_run [OF good_runD(5,3) [OF e g2]])
  finally show ?thesis unfolding p t by simp
qed

section \<open>Changing the runs of one term\<close>

lemma gin_wf_swap:
  assumes w: "gin_wf T K R" and t: "t \<in> T" and k: "sorted_wrt (<) (concat parts)" "set (concat parts) \<subseteq> K"
    and r: "\<forall>p \<in> set parts. \<exists>run. run_ok t p run"
    and a: "\<forall>ks. (t, ks) \<in> R - D \<longrightarrow> apart (concat parts) ks"
  shows "gin_wf T K (R - D \<union> Pair t ` set parts)"
proof -
  have sub: "p \<in> set parts \<Longrightarrow> set p \<subseteq> set (concat parts)" for p by auto
  have "sorted_wrt (<) p" if "p \<in> set parts" for p
    using k(1) that by (induction parts) (auto simp: sorted_wrt_append)
  then have "good_run T K (t, p)" if "p \<in> set parts" for p
    using that t k(2) r by (auto simp: good_run_def)
  moreover have "apart p ks" if "p \<in> set parts" "(t, ks) \<in> R - D" for p ks
    using a that apart_subset [OF _ sub] by blast
  ultimately show ?thesis
    using w apart_parts [OF k(1)] apart_sym unfolding gin_wf_def by blast
qed

lemma postings_swap:
  "postings (R - D \<union> Pair t ` set parts) = postings (R - D) \<union> Pair t ` set (concat parts)"
  by (auto simp: postings_def)
section \<open>Operations\<close>

text \<open>An index record has an empty row. The calls on the store are numbered: each has its ownership.\<close>

definition run_at_or_after :: "('c, 'v list) table_store \<Rightarrow> bytes \<Rightarrow> bytes \<Rightarrow> bytes option io" where
  "run_at_or_after s term key =
     (let bound = term_bound term; bound = bound\<lparr> kb_lo := Some (term @ key) \<rparr> in first_key s bound)"

definition run_before :: "('c, 'v list) table_store \<Rightarrow> bytes \<Rightarrow> bytes \<Rightarrow> bytes option io" where
  "run_before s term key =
     (let bound = term_bound term; bound = bound\<lparr> kb_hi := Some (term @ key) \<rparr> in last_key s bound)"

definition replace_run :: "('c, 'v list) codec \<Rightarrow> (nat \<Rightarrow> owners) \<Rightarrow> bytes \<Rightarrow> bytes list
    \<Rightarrow> (('c, 'v list) table_store, bool) prog" where
  "replace_run cd ow old runs s =
     st_bind (store_remove (ow 0) old s) (\<lambda>_. for_while
       (\<lambda>(i, run) s. st_bind (store_insert cd (ow i) run [] s) (\<lambda>_ s. Some (s, Inr True))) (enumerate 1 runs))"

text \<open>\<open>slice::binary_search_by\<close> on a strictly ascending slice: the place of the key, or where it goes.\<close>

definition binary_search :: "bytes list \<Rightarrow> bytes \<Rightarrow> nat + nat" where
  "binary_search ks k =
     (let at = length (takeWhile (\<lambda>x. x < k) ks) in if at < length ks \<and> ks ! at = k then Inr at else Inl at)"

definition insert_run :: "('c, 'v list) codec \<Rightarrow> owners \<Rightarrow> bytes \<Rightarrow> bytes \<Rightarrow> (('c, 'v list) table_store, bool) prog" where
  "insert_run cd ow term key s =
     (case encode_run term [key] of None \<Rightarrow> None | Some run \<Rightarrow> store_insert cd ow run [] s)"

definition gin_insert :: "('c, 'v list) codec \<Rightarrow> (nat \<Rightarrow> owners) \<Rightarrow> bytes \<Rightarrow> bytes \<Rightarrow> (('c, 'v list) table_store, bool) prog" where
  "gin_insert cd ow term key s =
     with_io (run_at_or_after s term key) (\<lambda>found s.
       case found of
         Some run \<Rightarrow>
           with_io (decode_run (length term) run) (\<lambda>keys s.
             case binary_search keys key of
               Inr _ \<Rightarrow> Some (s, Inr False)
             | Inl at \<Rightarrow>
                 (case split_runs term (insert_at at key keys) [] of
                    None \<Rightarrow> None
                  | Some runs \<Rightarrow> st_bind (replace_run cd ow run runs s) (\<lambda>_ s. Some (s, Inr True)))) s
       | None \<Rightarrow>
           with_io (run_before s term key) (\<lambda>found s.
             case found of
               Some run \<Rightarrow>
                 with_io (decode_run (length term) run) (\<lambda>keys s.
                   case encode_run term (keys @ [key]) of
                     None \<Rightarrow> None
                   | Some grown \<Rightarrow>
                       if length grown \<le> GIN_RUN_MAX_BYTES
                       then st_bind (replace_run cd ow run [grown] s) (\<lambda>_ s. Some (s, Inr True))
                       else insert_run cd (ow 0) term key s) s
             | None \<Rightarrow> insert_run cd (ow 0) term key s) s) s"

definition gin_remove :: "('c, 'v list) codec \<Rightarrow> (nat \<Rightarrow> owners) \<Rightarrow> bytes \<Rightarrow> bytes \<Rightarrow> (('c, 'v list) table_store, bool) prog" where
  "gin_remove cd ow term key s =
     with_io (run_at_or_after s term key) (\<lambda>found s.
       case found of
         None \<Rightarrow> Some (s, Inr False)
       | Some run \<Rightarrow>
           with_io (decode_run (length term) run) (\<lambda>keys s.
             case binary_search keys key of
               Inl _ \<Rightarrow> Some (s, Inr False)
             | Inr at \<Rightarrow>
                 let keys = remove_at at keys in
                 (case (if keys = [] then Some [] else split_runs term keys []) of
                    None \<Rightarrow> None
                  | Some runs \<Rightarrow> st_bind (replace_run cd ow run runs s) (\<lambda>_ s. Some (s, Inr True)))) s) s"

section \<open>What the searches find\<close>

context key_index
begin

lemma first_run:
  assumes e: "encodings T K" and w: "gin_wf T K R" and s: "ok s" "keys s = run_key ` R" and t: "t \<in> T" "key \<in> K"
  shows "\<exists>r. first_in s (after_bound t key) = Some (Inr r) \<and>
    (case r of None \<Rightarrow> \<forall>ks. (t, ks) \<in> R \<longrightarrow> last ks < key
     | Some run \<Rightarrow> \<exists>ks. (t, ks) \<in> R \<and> run = run_key (t, ks) \<and> key \<le> last ks
         \<and> (\<forall>ks'. (t, ks') \<in> R \<longrightarrow> key \<le> last ks' \<longrightarrow> last ks \<le> last ks'))"
proof -
  have g: "good_run T K p" if "p \<in> R" for p using w that by (simp add: gin_wf_def)
  obtain r where r: "first_in s (after_bound t key) = Some (Inr r)"
    "case r of None \<Rightarrow> \<forall>k \<in> keys s. \<not> in_bound (after_bound t key) k
       | Some k \<Rightarrow> k \<in> keys s \<and> in_bound (after_bound t key) k \<and> (\<forall>k' \<in> keys s. in_bound (after_bound t key) k' \<longrightarrow> k \<le> k')"
    using first_law [OF s(1)] by blast
  show ?thesis
  proof (cases r)
    case None
    then have "last ks < key" if "(t, ks) \<in> R" for ks
      using r(2) that s(2) in_after_bound [OF e g [OF that] t] by (auto simp: not_le [symmetric])
    then show ?thesis using r(1) None by auto
  next
    case (Some run)
    then obtain t' ks where ks: "(t', ks) \<in> R" "run = run_key (t', ks)" using r(2) s(2) by auto
    have "t' = t" "key \<le> last ks" using r(2) Some ks in_after_bound [OF e g [OF ks(1)] t] by auto
    moreover have "last ks \<le> last ks'" if "(t, ks') \<in> R" "key \<le> last ks'" for ks'
    proof -
      have "in_bound (after_bound t key) (run_key (t, ks'))" using in_after_bound [OF e g [OF that(1)] t] that(2) by simp
      then have "run \<le> run_key (t, ks')" using r(2) Some s(2) that(1) by auto
      then show ?thesis using run_key_le [OF e g g] ks that(1) \<open>t' = t\<close> by blast
    qed
    ultimately show ?thesis using r(1) Some ks by auto
  qed
qed

lemma last_run:
  assumes e: "encodings T K" and w: "gin_wf T K R" and s: "ok s" "keys s = run_key ` R" and t: "t \<in> T" "key \<in> K"
  shows "\<exists>r. last_in s (before_bound t key) = Some (Inr r) \<and>
    (case r of None \<Rightarrow> True
     | Some run \<Rightarrow> \<exists>ks. (t, ks) \<in> R \<and> run = run_key (t, ks) \<and> last ks < key
         \<and> (\<forall>ks'. (t, ks') \<in> R \<longrightarrow> last ks' < key \<longrightarrow> last ks' \<le> last ks))"
proof -
  have g: "good_run T K p" if "p \<in> R" for p using w that by (simp add: gin_wf_def)
  obtain r where r: "last_in s (before_bound t key) = Some (Inr r)"
    "case r of None \<Rightarrow> \<forall>k \<in> keys s. \<not> in_bound (before_bound t key) k
       | Some k \<Rightarrow> k \<in> keys s \<and> in_bound (before_bound t key) k \<and> (\<forall>k' \<in> keys s. in_bound (before_bound t key) k' \<longrightarrow> k' \<le> k)"
    using last_law [OF s(1)] by blast
  show ?thesis
  proof (cases r)
    case None
    then show ?thesis using r(1) by auto
  next
    case (Some run)
    then obtain t' ks where ks: "(t', ks) \<in> R" "run = run_key (t', ks)" using r(2) s(2) by auto
    have "t' = t" "last ks < key" using r(2) Some ks in_before_bound [OF e g [OF ks(1)] t] by auto
    moreover have "last ks' \<le> last ks" if "(t, ks') \<in> R" "last ks' < key" for ks'
    proof -
      have "in_bound (before_bound t key) (run_key (t, ks'))" using in_before_bound [OF e g [OF that(1)] t] that(2) by simp
      then have "run_key (t, ks') \<le> run" using r(2) Some s(2) that(1) by auto
      then show ?thesis using run_key_le [OF e g g] ks that(1) \<open>t' = t\<close> by blast
    qed
    ultimately show ?thesis using r(1) Some ks by auto
  qed
qed

text \<open>Replacing the records of one run by the records of its parts.\<close>

lemma swap_run:
  assumes e: "encodings T K" and w: "gin_wf T K R" and s: "ok s" "keys s = run_key ` R" "space s (length runs + n)"
    and p: "(t, ks) \<in> R" "list_all2 (run_ok t) parts runs" "\<forall>run \<in> set runs. fits s run"
  shows "\<exists>s'. st_bind (del (ow 0) (run_key (t, ks)) s) (\<lambda>_. for_while (\<lambda>(i, k) s. st_bind (ins (ow i) k s) (\<lambda>_ s. Some (s, Inr True))) (enumerate 1 runs))
      = Some (s', Inr True) \<and> ok s' \<and> space s' n \<and> fits s' = fits s
    \<and> keys s' = run_key ` (R - {(t, ks)} \<union> Pair t ` set parts)"
proof -
  have g: "good_run T K q" if "q \<in> R" for q using w that by (simp add: gin_wf_def)
  have "run_key ` R - {run_key (t, ks)} = run_key ` (R - {(t, ks)})"
    using run_key_inj [OF e g g [OF p(1)]] by auto
  moreover have "run_key ` Pair t ` set parts = set runs"
  proof -
    have "runs = map (\<lambda>q. run_key (t, q)) parts"
      using p(2) by (induction rule: list_all2_induct) (auto simp: run_ok_def run_key_def)
    then show ?thesis by (auto simp: image_comp)
  qed
  ultimately show ?thesis
    using replace_keys [OF s(1,3) p(3), of ow "run_key (t, ks)"] s(2) by (simp add: image_Un)
qed

end
section \<open>Insert and remove\<close>

lemma binary_search_cases:
  assumes "sorted_wrt (<) ks"
  shows "k \<in> set ks \<Longrightarrow> \<exists>at. binary_search ks k = Inr at \<and> (\<exists>xs ys. ks = xs @ k # ys \<and> length xs = at)"
    "k \<notin> set ks \<Longrightarrow> \<exists>at. binary_search ks k = Inl at \<and> (\<exists>xs ys. ks = xs @ ys \<and> length xs = at \<and> sorted_wrt (<) (xs @ k # ys))"
proof -
  let ?n = "length (takeWhile (\<lambda>x. x < k) ks)"
  have xs: "\<forall>x \<in> set (takeWhile (\<lambda>x. x < k) ks). x < k" by (auto dest: set_takeWhileD)
  have ks: "ks = takeWhile (\<lambda>x. x < k) ks @ dropWhile (\<lambda>x. x < k) ks" by simp
  have ys: "\<forall>y \<in> set (dropWhile (\<lambda>x. x < k) ks). k \<le> y"
  proof (cases "dropWhile (\<lambda>x. x < k) ks")
    case (Cons y ys)
    have "\<not> y < k" using hd_dropWhile [of "\<lambda>x. x < k" ks] Cons by simp
    moreover have "sorted_wrt (<) (y # ys)" using assms ks Cons by (metis sorted_wrt_append)
    ultimately show ?thesis using Cons by fastforce
  next
    case Nil
    then show ?thesis by (metis empty_iff empty_set)
  qed
  have sp: "sorted_wrt (<) (takeWhile (\<lambda>x. x < k) ks)" "sorted_wrt (<) (dropWhile (\<lambda>x. x < k) ks)"
    using assms ks by (metis sorted_wrt_append)+
  { assume k: "k \<in> set ks"
    then have "k \<in> set (dropWhile (\<lambda>x. x < k) ks)" using xs ks by (metis UnE less_irrefl set_append)
    moreover from this obtain y zs where d: "dropWhile (\<lambda>x. x < k) ks = y # zs" by (cases "dropWhile (\<lambda>x. x < k) ks") auto
    moreover have "sorted_wrt (<) (y # zs)" using assms ks d by (metis sorted_wrt_append)
    ultimately have "y = k" using ys by auto
    then have e: "ks = takeWhile (\<lambda>x. x < k) ks @ k # zs" using ks d by simp
    then have "?n < length ks \<and> ks ! ?n = k"
      by (metis length_append less_add_same_cancel1 length_greater_0_conv list.discI nth_append_length)
    then show "\<exists>at. binary_search ks k = Inr at \<and> (\<exists>xs ys. ks = xs @ k # ys \<and> length xs = at)"
      using e by (auto simp: binary_search_def) }
  { assume k: "k \<notin> set ks"
    then have "\<not> (?n < length ks \<and> ks ! ?n = k)" by (metis nth_mem)
    moreover have "\<forall>y \<in> set (dropWhile (\<lambda>x. x < k) ks). k < y"
      using ys k by (metis order_le_less set_dropWhileD)
    moreover have "sorted_wrt (<) (takeWhile (\<lambda>x. x < k) ks @ k # dropWhile (\<lambda>x. x < k) ks)"
      using sp xs calculation(2) by (auto simp: sorted_wrt_append intro: less_trans)
    moreover have "binary_search ks k = Inl ?n" using calculation(1) by (auto simp: binary_search_def Let_def)
    ultimately show "\<exists>at. binary_search ks k = Inl at \<and> (\<exists>xs ys. ks = xs @ ys \<and> length xs = at \<and> sorted_wrt (<) (xs @ k # ys))"
      using ks by blast }
qed

text \<open>The store holds the postings \<open>P\<close>.\<close>

definition gin_index :: "bytes set \<Rightarrow> bytes set \<Rightarrow> (bytes \<times> bytes) set \<Rightarrow> ('c, 'v list) table_store \<Rightarrow> bool" where
  "gin_index T K P s \<longleftrightarrow> store_wf s
     \<and> (\<exists>R. gin_wf T K R \<and> store_keys s = run_key ` R \<and> postings R = P)"

text \<open>Every run an edit can make is a record the store can take.\<close>

definition runs_small :: "('c, 'v list) codec \<Rightarrow> bytes set \<Rightarrow> bytes set \<Rightarrow> ('c, 'v list) table_store \<Rightarrow> bool" where
  "runs_small cd T K s \<longleftrightarrow> (\<forall>t \<in> T. \<forall>k \<in> K. \<forall>run. length run \<le> GIN_RUN_MAX_BYTES \<or> length run = length t + length k + 2
     \<longrightarrow> small cd s run [])"

lemma list_all2_partners:
  "list_all2 Q xs ys \<Longrightarrow> \<forall>y \<in> set ys. \<exists>x \<in> set xs. Q x y" "list_all2 Q xs ys \<Longrightarrow> \<forall>x \<in> set xs. \<exists>y \<in> set ys. Q x y"
  by (induction rule: list_all2_induct) auto

lemma run_ok_small:
  assumes "runs_small cd T K s" "t \<in> T" "set p \<subseteq> K" "run_ok t p run"
  shows "small cd s run []"
proof -
  have n: "p \<noteq> []" using assms(4) by (auto simp: run_ok_def dest: encode_run_nonempty)
  then have k: "last p \<in> K" using assms(3) by auto
  consider "length run \<le> GIN_RUN_MAX_BYTES" | "length p = 1" using assms(4) by (auto simp: run_ok_def)
  then show ?thesis
  proof cases
    case 2
    then have "butlast p = []" by (cases p) auto
    then have "length run = length t + length (last p) + 2"
      using assms(4) encode_run_length [of t p run] by (simp add: run_ok_def)
    then show ?thesis using assms(1,2) k by (auto simp: runs_small_def)
  qed (use assms(1,2) k in \<open>auto simp: runs_small_def\<close>)
qed

lemma list_all2_run_small:
  assumes "runs_small cd T K s" "t \<in> T" "set (concat parts) \<subseteq> K" "list_all2 (run_ok t) parts runs"
  shows "\<forall>run \<in> set runs. small cd s run []"
proof
  fix run
  assume "run \<in> set runs"
  then obtain p where "p \<in> set parts" "run_ok t p run" using list_all2_partners(1) [OF assms(4)] by blast
  then show "small cd s run []" using assms(3) by (intro run_ok_small [OF assms(1,2)]) auto
qed

lemma parts_count:
  assumes "list_all2 (run_ok t) parts runs"
  shows "length runs \<le> length (concat parts)" "\<forall>p \<in> set parts. \<exists>run. run_ok t p run"
proof -
  show "length runs \<le> length (concat parts)"
    using assms by (induction rule: list_all2_induct) (auto simp: run_ok_def dest!: encode_run_nonempty simp: neq_Nil_conv)
  show "\<forall>p \<in> set parts. \<exists>run. run_ok t p run" using list_all2_partners(2) [OF assms] by blast
qed

text \<open>One run replaced by its parts, on the model of the store.\<close>

lemma replace_run_wf:
  assumes e: "encodings T K" and w: "gin_wf T K R" and s: "store_wf s" "store_keys s = run_key ` R" "room s (m + n)"
    and fit: "runs_small cd T K s" and R: "(t, ks) \<in> R"
    and p: "list_all2 (run_ok t) parts runs" "sorted_wrt (<) (concat parts)" "set (concat parts) \<subseteq> K" "length (concat parts) \<le> m"
    and a: "\<forall>ks'. (t, ks') \<in> R - {(t, ks)} \<longrightarrow> apart (concat parts) ks'"
  shows "\<exists>s'. replace_run cd ow (run_key (t, ks)) runs s = Some (s', Inr True) \<and> runs_small cd T K s' \<and> room s' n
    \<and> gin_index T K (postings (R - {(t, ks)}) \<union> Pair t ` set (concat parts)) s'"
proof -
  have t: "t \<in> T" using w R good_runD(1) [OF e] by (auto simp: gin_wf_def)
  have len: "length runs \<le> m" using parts_count(1) [OF p(1)] p(4) by simp
  have sp: "room s (length runs + n)" using index.space_mono [OF s(3)] len by simp
  obtain s' where s': "replace_run cd ow (run_key (t, ks)) runs s = Some (s', Inr True)" "store_wf s'" "room s' n"
    "(\<lambda>k. small cd s' k []) = (\<lambda>k. small cd s k [])" "store_keys s' = run_key ` (R - {(t, ks)} \<union> Pair t ` set parts)"
    using index.swap_run [OF e w s(1,2) sp R p(1), of cd "[]" ow] list_all2_run_small [OF fit t p(3,1)]
    unfolding replace_run_def by blast
  have "gin_wf T K (R - {(t, ks)} \<union> Pair t ` set parts)"
    using gin_wf_swap [OF w t p(2,3) parts_count(2) [OF p(1)]] a by blast
  then have "gin_index T K (postings (R - {(t, ks)}) \<union> Pair t ` set (concat parts)) s'"
    using s'(2,5) postings_swap [of R "{(t, ks)}" t parts] unfolding gin_index_def by blast
  moreover have "runs_small cd T K s'" using fit s'(4) unfolding runs_small_def by metis
  ultimately show ?thesis using s'(1,3) by blast
qed

lemma goodR: "gin_wf T K R \<Longrightarrow> p \<in> R \<Longrightarrow> good_run T K p"
  by (simp add: gin_wf_def)

lemma run_size:
  assumes "encodings T K" "good_run T K (t, ks)"
  shows "length ks \<le> 32"
proof -
  consider "length (run_key (t, ks)) \<le> GIN_RUN_MAX_BYTES" | "length ks = 1"
    using good_runD(7) [OF assms] by (auto simp: run_ok_def)
  then show ?thesis using small_run(1) [OF good_runD(5,3) [OF assms]] by cases auto
qed

lemma grown_fits:
  assumes e: "encodings T K" and g: "good_run T K (t, xs @ ys)" and k: "key \<in> K" "sorted_wrt (<) (xs @ key # ys)"
  shows "run_fits (xs @ key # ys)"
proof -
  have s: "storage_keys (xs @ key # ys)" using e g k by (auto simp: storage_keys_def encodings_def good_run_def)
  then show ?thesis
    using run_fits_grown [OF good_runD(7) [OF e g] storage_keys_run [OF s]] by (auto simp: storage_keys_def)
qed

text \<open>The other runs of the term lie on either side of the run the key belongs to.\<close>

lemma key_gap:
  assumes e: "encodings T K" and w: "gin_wf T K R" and R: "(t, ks) \<in> R" "(t, ks') \<in> R" "ks' \<noteq> ks"
    and m: "key \<le> last ks \<and> (key \<le> last ks' \<longrightarrow> last ks \<le> last ks') \<or> last ks < key \<and> last ks' < key \<and> last ks' \<le> last ks"
  shows "apart (key # ks) ks'"
proof -
  note g = good_runD [OF e goodR [OF w R(1)]] and g' = good_runD [OF e goodR [OF w R(2)]]
  have l: "last ks \<in> set ks" "last ks' \<in> set ks'" using g(2) g'(2) by simp_all
  have "apart ks ks'" using w R by (auto simp: gin_wf_def)
  then consider "\<forall>a \<in> set ks. \<forall>b \<in> set ks'. a < b" | "\<forall>a \<in> set ks. \<forall>b \<in> set ks'. b < a" by (auto simp: apart_def)
  then show ?thesis
  proof cases
    case 1
    then have "last ks < b" if "b \<in> set ks'" for b using that l by blast
    moreover have "key \<le> last ks" using m l 1 by (meson leD)
    ultimately show ?thesis using 1 by (auto simp: apart_def intro: le_less_trans)
  next
    case 2
    then have "last ks' < last ks" using l by blast
    then have "last ks' < key" using m by auto
    then have "b < key" if "b \<in> set ks'" for b using g'(8) [OF that] by auto
    then show ?thesis using 2 by (auto simp: apart_def)
  qed
qed

lemma postings_split: "(t, ks) \<in> R \<Longrightarrow> postings R = postings (R - {(t, ks)}) \<union> Pair t ` set ks"
  by (auto simp: postings_def)

lemma key_absent:
  assumes e: "encodings T K" and w: "gin_wf T K R" and R: "(t, ks) \<in> R" and k: "key \<notin> set ks" "key \<le> last ks"
    and m: "\<forall>ks'. (t, ks') \<in> R \<longrightarrow> key \<le> last ks' \<longrightarrow> last ks \<le> last ks'"
  shows "(t, key) \<notin> postings R"
proof
  assume "(t, key) \<in> postings R"
  then obtain ks' where ks': "(t, ks') \<in> R" "key \<in> set ks'" by (auto simp: postings_def)
  then have "apart (key # ks) ks'" using key_gap [OF e w R ks'(1)] k m by blast
  then show False using ks'(2) by (auto simp: apart_def)
qed

lemma run_at_or_after_bound: "run_at_or_after s t key = first_key s (after_bound t key)"
  by (simp add: run_at_or_after_def after_bound_def)

lemma run_before_bound: "run_before s t key = last_key s (before_bound t key)"
  by (simp add: run_before_def before_bound_def)

lemma insert_run_wf:
  assumes e: "encodings T K" and w: "gin_wf T K R" and s: "store_wf s" "store_keys s = run_key ` R" "room s (Suc n)"
    and fit: "runs_small cd T K s" and t: "t \<in> T" "key \<in> K" and above: "\<forall>ks. (t, ks) \<in> R \<longrightarrow> last ks < key"
  shows "\<exists>s'. insert_run cd ow t key s = Some (s', Inr True) \<and> runs_small cd T K s' \<and> room s' n
    \<and> gin_index T K (insert (t, key) (postings R)) s'"
proof -
  obtain run where run: "run_ok t [key] run" using single_run_ok [of key t] e t(2) by (auto simp: encodings_def)
  have sm: "small cd s run []" using run_ok_small [OF fit t(1) _ run] t(2) by simp
  have g: "good_run T K (t, [key])" using t run by (auto simp: good_run_def)
  have rk: "run = run_key (t, [key])" using run by (simp add: run_ok_def run_key_def)
  have "run \<notin> store_keys s"
  proof
    assume "run \<in> store_keys s"
    then obtain p where "p \<in> R" "run_key (t, [key]) = run_key p" using s(2) rk by auto
    then have "(t, [key]) \<in> R" using run_key_inj [OF e g goodR [OF w]] by metis
    then show False using above by auto
  qed
  then obtain s' where s': "store_insert cd ow run [] s = Some (s', Inr True)" "store_wf s'" "room s' n"
    "(\<lambda>k. small cd s' k []) = (\<lambda>k. small cd s k [])" "store_keys s' = insert run (store_keys s)"
    using index.ins_law [OF s(1,3) sm, of ow] by auto
  let ?R = "R - {} \<union> Pair t ` set [[key]]"
  have "apart [key] ks" if "(t, ks) \<in> R" for ks
    using above that good_runD(8) [OF e goodR [OF w that]] by (auto simp: apart_def intro: le_less_trans)
  then have "gin_wf T K ?R"
    using gin_wf_swap [OF w t(1), of "[[key]]" "{}"] t(2) run by auto
  moreover have "store_keys s' = run_key ` ?R" using s'(5) s(2) rk by auto
  moreover have "postings ?R = insert (t, key) (postings R)" by (auto simp: postings_def)
  ultimately have "gin_index T K (insert (t, key) (postings R)) s'" using s'(2) unfolding gin_index_def by blast
  moreover have "runs_small cd T K s'" using fit s'(4) unfolding runs_small_def by metis
  ultimately show ?thesis using s'(1,3) run by (auto simp: insert_run_def run_ok_def)
qed

text \<open>The run found takes the key and is split again.\<close>

lemma grow_run_wf:
  assumes e: "encodings T K" and w: "gin_wf T K R" and s: "store_wf s" "store_keys s = run_key ` R" "room s (33 + n)"
    and fit: "runs_small cd T K s" and t: "key \<in> K" and R: "(t, xs @ ys) \<in> R" and srt: "sorted_wrt (<) (xs @ key # ys)"
    and p: "list_all2 (run_ok t) parts runs" "concat parts = xs @ key # ys"
    and gap: "\<forall>ks'. (t, ks') \<in> R \<longrightarrow> ks' \<noteq> xs @ ys \<longrightarrow> apart (key # xs @ ys) ks'"
  shows "\<exists>s'. replace_run cd ow (run_key (t, xs @ ys)) runs s = Some (s', Inr True) \<and> runs_small cd T K s' \<and> room s' n
    \<and> gin_index T K (insert (t, key) (postings R)) s'"
proof -
  note g = goodR [OF w R]
  have len: "length (concat parts) \<le> 33" using run_size [OF e g] p(2) by simp
  have sub: "set (concat parts) \<subseteq> K" using g t p(2) by (auto simp: good_run_def)
  have "apart (concat parts) ks'" if "(t, ks') \<in> R - {(t, xs @ ys)}" for ks'
  proof -
    have "apart (key # xs @ ys) ks'" using gap that by auto
    then show ?thesis by (rule apart_subset) (use p(2) in auto)
  qed
  moreover have "postings (R - {(t, xs @ ys)}) \<union> Pair t ` set (concat parts) = insert (t, key) (postings R)"
    unfolding postings_split [OF R] p(2) by auto
  ultimately show ?thesis
    using replace_run_wf [OF e w s fit R p(1) _ sub len, of ow] srt p(2) by metis
qed

lemma gin_insert_wf:
  assumes e: "encodings T K" and P: "gin_index T K P s" and r: "room s (33 + n)" and fit: "runs_small cd T K s"
    and t: "t \<in> T" "key \<in> K"
  shows "\<exists>s'. gin_insert cd ow t key s = Some (s', Inr ((t, key) \<notin> P)) \<and> runs_small cd T K s' \<and> room s' n
    \<and> gin_index T K (insert (t, key) P) s'"
proof -
  obtain R where w: "gin_wf T K R" and s: "store_wf s" "store_keys s = run_key ` R" and pR: "postings R = P"
    using P by (auto simp: gin_index_def)
  have r1: "room s (Suc n)" "room s n" using index.space_mono [OF r] by simp_all
  obtain found where f: "run_at_or_after s t key = Some (Inr found)"
    "case found of None \<Rightarrow> \<forall>ks. (t, ks) \<in> R \<longrightarrow> last ks < key
     | Some run \<Rightarrow> \<exists>ks. (t, ks) \<in> R \<and> run = run_key (t, ks) \<and> key \<le> last ks
         \<and> (\<forall>ks'. (t, ks') \<in> R \<longrightarrow> key \<le> last ks' \<longrightarrow> last ks \<le> last ks')"
    using index.first_run [OF e w s t] unfolding run_at_or_after_bound by blast
  show ?thesis
  proof (cases found)
    case (Some run)
    then obtain ks where ks: "(t, ks) \<in> R" "run = run_key (t, ks)" "key \<le> last ks"
      "\<forall>ks'. (t, ks') \<in> R \<longrightarrow> key \<le> last ks' \<longrightarrow> last ks \<le> last ks'" using f(2) by auto
    note g = goodR [OF w ks(1)]
    have d: "decode_run (length t) run = Some (Inr ks)"
      unfolding ks(2) by (rule decode_encode_run [OF good_runD(5,3) [OF e g]])
    have srt: "sorted_wrt (<) ks" using g by (simp add: good_run_def)
    show ?thesis
    proof (cases "key \<in> set ks")
      case True
      then have "(t, key) \<in> P" using ks(1) pR by (auto simp: postings_def)
      then show ?thesis using binary_search_cases(1) [OF srt True] f(1) Some d P fit r1(2)
        by (auto simp: gin_insert_def insert_absorb)
    next
      case False
      obtain xs ys where b: "binary_search ks key = Inl (length xs)" "ks = xs @ ys" "sorted_wrt (<) (xs @ key # ys)"
        using binary_search_cases(2) [OF srt False] by blast
      obtain parts runs where p: "split_runs t (xs @ key # ys) [] = Some runs" "list_all2 (run_ok t) parts runs"
        "concat parts = xs @ key # ys"
        using split_runs_correct [OF grown_fits [OF e g [unfolded b(2)] t(2) b(3)], of t "[]"] by auto
      have "\<forall>ks'. (t, ks') \<in> R \<longrightarrow> ks' \<noteq> xs @ ys \<longrightarrow> apart (key # xs @ ys) ks'"
        using key_gap [OF e w ks(1)] ks(3,4) b(2) by blast
      from grow_run_wf [OF e w s r fit t(2) ks(1) [unfolded b(2)] b(3) p(2,3) this, of ow]
      obtain s' where "replace_run cd ow run runs s = Some (s', Inr True)" "runs_small cd T K s'" "room s' n"
        "gin_index T K (insert (t, key) P) s'" unfolding pR ks(2) b(2) by blast
      moreover have "(t, key) \<notin> P" using key_absent [OF e w ks(1) False ks(3,4)] pR by simp
      ultimately show ?thesis using f(1) Some d b(1,2) p(1) by (simp add: gin_insert_def)
    qed
  next
    case None
    then have above: "\<forall>ks. (t, ks) \<in> R \<longrightarrow> last ks < key" using f(2) by simp
    have new: "(t, key) \<notin> P"
      using above good_runD(8) [OF e goodR [OF w]] pR by (fastforce simp: postings_def)
    note ins = insert_run_wf [OF e w s r1(1) fit t above, of "ow 0", unfolded pR]
    obtain before where q: "run_before s t key = Some (Inr before)"
      "case before of None \<Rightarrow> True
       | Some run \<Rightarrow> \<exists>ks. (t, ks) \<in> R \<and> run = run_key (t, ks) \<and> last ks < key
           \<and> (\<forall>ks'. (t, ks') \<in> R \<longrightarrow> last ks' < key \<longrightarrow> last ks' \<le> last ks)"
      using index.last_run [OF e w s t] unfolding run_before_bound by blast
    show ?thesis
    proof (cases before)
      case None
      then show ?thesis using f(1) q(1) \<open>found = None\<close> ins new by (auto simp: gin_insert_def)
    next
      case (Some run)
      then obtain ks where ks: "(t, ks) \<in> R" "run = run_key (t, ks)" "last ks < key"
        "\<forall>ks'. (t, ks') \<in> R \<longrightarrow> last ks' < key \<longrightarrow> last ks' \<le> last ks" using q(2) by auto
      note g = goodR [OF w ks(1)]
      have d: "decode_run (length t) run = Some (Inr ks)"
        unfolding ks(2) by (rule decode_encode_run [OF good_runD(5,3) [OF e g]])
      have srt: "sorted_wrt (<) (ks @ key # [])"
        using good_runD(2) [OF e g] g ks(3) sorted_wrt_snoc_last [of ks key] by (simp add: good_run_def)
      obtain grown where gr: "encode_run t (ks @ [key]) = Some grown"
        using encode_run_total [of "ks @ [key]" t] grown_fits [OF e, of t ks "[]" key] g t(2) srt by auto
      have gap: "\<forall>ks'. (t, ks') \<in> R \<longrightarrow> ks' \<noteq> ks @ [] \<longrightarrow> apart (key # ks @ []) ks'"
        using key_gap [OF e w ks(1)] ks(3,4) above by simp
      show ?thesis
      proof (cases "length grown \<le> GIN_RUN_MAX_BYTES")
        case True
        have "list_all2 (run_ok t) [ks @ [key]] [grown]" using gr True by (simp add: run_ok_def)
        from grow_run_wf [OF e w s r fit t(2) _ srt this _ gap, of ow] ks(1,2)
        show ?thesis using f(1) q(1) \<open>found = None\<close> Some d gr True new pR by (auto simp: gin_insert_def)
      next
        case False
        then show ?thesis using f(1) q(1) \<open>found = None\<close> Some d gr ins new by (auto simp: gin_insert_def)
      qed
    qed
  qed
qed

lemma gin_remove_wf:
  assumes e: "encodings T K" and P: "gin_index T K P s" and r: "room s (33 + n)" and fit: "runs_small cd T K s"
    and t: "t \<in> T" "key \<in> K"
  shows "\<exists>s'. gin_remove cd ow t key s = Some (s', Inr ((t, key) \<in> P)) \<and> runs_small cd T K s' \<and> room s' n
    \<and> gin_index T K (P - {(t, key)}) s'"
proof -
  obtain R where w: "gin_wf T K R" and s: "store_wf s" "store_keys s = run_key ` R" and pR: "postings R = P"
    using P by (auto simp: gin_index_def)
  have r2: "room s n" using index.space_mono [OF r] by simp
  obtain found where f: "run_at_or_after s t key = Some (Inr found)"
    "case found of None \<Rightarrow> \<forall>ks. (t, ks) \<in> R \<longrightarrow> last ks < key
     | Some run \<Rightarrow> \<exists>ks. (t, ks) \<in> R \<and> run = run_key (t, ks) \<and> key \<le> last ks
         \<and> (\<forall>ks'. (t, ks') \<in> R \<longrightarrow> key \<le> last ks' \<longrightarrow> last ks \<le> last ks')"
    using index.first_run [OF e w s t] unfolding run_at_or_after_bound by blast
  show ?thesis
  proof (cases found)
    case None
    then have "(t, key) \<notin> P"
      using f(2) good_runD(8) [OF e goodR [OF w]] pR by (fastforce simp: postings_def)
    then show ?thesis using f(1) None P fit r2 by (auto simp: gin_remove_def)
  next
    case (Some run)
    then obtain ks where ks: "(t, ks) \<in> R" "run = run_key (t, ks)" "key \<le> last ks"
      "\<forall>ks'. (t, ks') \<in> R \<longrightarrow> key \<le> last ks' \<longrightarrow> last ks \<le> last ks'" using f(2) by auto
    note g = goodR [OF w ks(1)]
    have d: "decode_run (length t) run = Some (Inr ks)"
      unfolding ks(2) by (rule decode_encode_run [OF good_runD(5,3) [OF e g]])
    have srt: "sorted_wrt (<) ks" using g by (simp add: good_run_def)
    show ?thesis
    proof (cases "key \<in> set ks")
      case False
      then have "(t, key) \<notin> P" using key_absent [OF e w ks(1) False ks(3,4)] pR by simp
      then show ?thesis using binary_search_cases(2) [OF srt False] f(1) Some d P fit r2
        by (auto simp: gin_remove_def)
    next
      case True
      obtain xs ys where b: "binary_search ks key = Inr (length xs)" "ks = xs @ key # ys"
        using binary_search_cases(1) [OF srt True] by blast
      have rm: "remove_at (length xs) ks = xs @ ys" unfolding b(2) by simp
      have "\<exists>parts runs. (if xs @ ys = [] then Some [] else split_runs t (xs @ ys) []) = Some runs
        \<and> list_all2 (run_ok t) parts runs \<and> concat parts = xs @ ys"
      proof (cases "xs @ ys = []")
        case False
        have k: "storage_keys ks" using good_runD(4) [OF e g] .
        then have "run_keys (xs @ ys)" using storage_keys_run [OF k] unfolding b(2) by (auto simp: run_keys_def sorted_wrt_append)
        moreover have "body_size (butlast (xs @ ys)) < 2 ^ 16"
        proof -
          have l: "\<forall>x \<in> set (xs @ ys). length x \<le> MAX_KEY" using k unfolding b(2) by (auto simp: storage_keys_def)
          consider "length run \<le> GIN_RUN_MAX_BYTES" | "length ks = 1" using good_runD(7) [OF e g] ks(2) by (auto simp: run_ok_def)
          then show ?thesis
          proof cases
            case 1
            have "\<forall>k \<in> set ks. length k \<le> 64" "length ks \<le> 32"
              using small_run [OF good_runD(5,3) [OF e g]] 1 ks(2) by auto
            then have "\<forall>k \<in> set (xs @ ys). length k \<le> 64" "length (xs @ ys) \<le> 32" unfolding b(2) by auto
            moreover from body_size_bound [OF this(1)] have "body_size (xs @ ys) \<le> length (xs @ ys) * (64 + 6)" .
            ultimately show ?thesis using body_size_butlast [of "xs @ ys"] by simp
          next
            case 2
            then show ?thesis using False b(2) by simp
          qed
        qed
        ultimately have "run_fits (xs @ ys)" using False by (simp add: run_fits_def)
        from split_runs_correct [OF this, of t "[]"] show ?thesis using False by auto
      qed (auto intro!: exI [of _ "[]"])
      then obtain parts runs where p: "(if xs @ ys = [] then Some [] else split_runs t (xs @ ys) []) = Some runs"
        "list_all2 (run_ok t) parts runs" "concat parts = xs @ ys" by blast
      have srt': "sorted_wrt (<) (concat parts)" using srt unfolding p(3) b(2) by (auto simp: sorted_wrt_append)
      have sub: "set (concat parts) \<subseteq> K" "set (concat parts) \<subseteq> set ks" using g unfolding p(3) b(2) by (auto simp: good_run_def)
      have len: "length (concat parts) \<le> 33" using run_size [OF e g] unfolding p(3) b(2) by simp
      have "apart (concat parts) ks'" if "(t, ks') \<in> R - {(t, ks)}" for ks'
        using w ks(1) that by (intro apart_subset [OF _ sub(2)]) (auto simp: gin_wf_def)
      then obtain s' where s': "replace_run cd ow run runs s = Some (s', Inr True)" "runs_small cd T K s'" "room s' n"
        "gin_index T K (postings (R - {(t, ks)}) \<union> Pair t ` set (concat parts)) s'"
        using replace_run_wf [OF e w s r fit ks(1) p(2) srt' sub(1) len, of ow] ks(2) by blast
      have "(t, key) \<in> P" using ks(1) True pR by (auto simp: postings_def)
      moreover have "postings (R - {(t, ks)}) \<union> Pair t ` set (concat parts) = P - {(t, key)}"
      proof -
        have "(t, key) \<notin> postings (R - {(t, ks)})"
        proof
          assume "(t, key) \<in> postings (R - {(t, ks)})"
          then obtain ks' where "(t, ks') \<in> R" "ks' \<noteq> ks" "key \<in> set ks'" by (auto simp: postings_def)
          moreover from this have "apart ks ks'" using w ks(1) by (auto simp: gin_wf_def)
          ultimately show False using True by (auto simp: apart_def)
        qed
        moreover have "key \<notin> set (xs @ ys)" using srt unfolding b(2) by (auto simp: sorted_wrt_append)
        ultimately show ?thesis unfolding pR [symmetric] postings_split [OF ks(1)] p(3) b(2) by auto
      qed
      ultimately show ?thesis using f(1) Some d b(1) rm p(1) s' by (simp add: gin_remove_def Let_def)
    qed
  qed
qed

section \<open>Properties\<close>

datatype gin_op = Add bytes bytes | Drop bytes bytes

fun gin_step :: "('c, 'v list) codec \<Rightarrow> (nat \<Rightarrow> owners) \<Rightarrow> gin_op \<Rightarrow> (('c, 'v list) table_store, bool) prog" where
  "gin_step cd ow (Add t k) s = gin_insert cd ow t k s"
| "gin_step cd ow (Drop t k) s = gin_remove cd ow t k s"

fun gin_steps :: "('c, 'v list) codec \<Rightarrow> ((nat \<Rightarrow> owners) \<times> gin_op) list \<Rightarrow> (('c, 'v list) table_store, bool list) prog" where
  "gin_steps cd [] s = Some (s, Inr [])"
| "gin_steps cd ((ow, op) # ops) s = st_bind (gin_step cd ow op s) (\<lambda>b s.
     st_bind (gin_steps cd ops s) (\<lambda>bs s. Some (s, Inr (b # bs))))"

text \<open>The set of postings the operations mean.\<close>

fun spec_steps :: "gin_op list \<Rightarrow> (bytes \<times> bytes) set \<Rightarrow> (bytes \<times> bytes) set \<times> bool list" where
  "spec_steps [] P = (P, [])"
| "spec_steps (Add t k # ops) P = map_prod id ((#) ((t, k) \<notin> P)) (spec_steps ops (insert (t, k) P))"
| "spec_steps (Drop t k # ops) P = map_prod id ((#) ((t, k) \<in> P)) (spec_steps ops (P - {(t, k)}))"

fun gin_op_in :: "bytes set \<Rightarrow> bytes set \<Rightarrow> gin_op \<Rightarrow> bool" where
  "gin_op_in T K (Add t k) \<longleftrightarrow> t \<in> T \<and> k \<in> K"
| "gin_op_in T K (Drop t k) \<longleftrightarrow> t \<in> T \<and> k \<in> K"

lemma gin_steps_wf:
  assumes "encodings T K" "gin_index T K P s" "room s (33 * length ops + n)" "runs_small cd T K s"
    "\<forall>(ow, op) \<in> set ops. gin_op_in T K op"
  shows "\<exists>s' P' bs. gin_steps cd ops s = Some (s', Inr bs) \<and> spec_steps (map snd ops) P = (P', bs) \<and> gin_index T K P' s'"
  using assms(2-)
proof (induction ops arbitrary: s P)
  case (Cons p ops)
  obtain ow op where p: "p = (ow, op)" by fastforce
  have r: "room s (33 + (33 * length ops + n))" using Cons.prems(2) by (simp add: add.assoc)
  have "\<exists>P1 b s1. gin_step cd ow op s = Some (s1, Inr b) \<and> gin_index T K P1 s1 \<and> runs_small cd T K s1
    \<and> room s1 (33 * length ops + n) \<and> spec_steps (op # map snd ops) P = map_prod id ((#) b) (spec_steps (map snd ops) P1)"
  proof (cases op)
    case (Add t k)
    then have "t \<in> T" "k \<in> K" using Cons.prems(4) p by auto
    from gin_insert_wf [OF assms(1) Cons.prems(1) r Cons.prems(3) this, of ow] show ?thesis by (auto simp: Add)
  next
    case (Drop t k)
    then have "t \<in> T" "k \<in> K" using Cons.prems(4) p by auto
    from gin_remove_wf [OF assms(1) Cons.prems(1) r Cons.prems(3) this, of ow] show ?thesis by (auto simp: Drop)
  qed
  then obtain P1 b s1 where s1: "gin_step cd ow op s = Some (s1, Inr b)" "gin_index T K P1 s1" "runs_small cd T K s1"
    "room s1 (33 * length ops + n)" "spec_steps (op # map snd ops) P = map_prod id ((#) b) (spec_steps (map snd ops) P1)"
    by blast
  have "\<forall>(ow, op) \<in> set ops. gin_op_in T K op" using Cons.prems(4) by simp
  from Cons.IH [OF s1(2,4,3) this] show ?case using s1(1,5) p by auto
qed auto

text \<open>
  C4. GIN maintenance refines a set of postings: on a well-formed entry tree every sequence of
  posting insertions and removals succeeds, answers whether the posting was absent (or present),
  and leaves a well-formed tree holding exactly the resulting set, when terms and storage keys are
  prefix-free, keys are at most 32768 bytes and the runs fit a page.
\<close>

theorem gin_refines_postings:
  assumes "encodings T K" "gin_index T K P s" "room s (33 * length ops)" "runs_small cd T K s"
    "\<forall>(ow, op) \<in> set ops. gin_op_in T K op"
  shows "\<exists>s' P' bs. gin_steps cd ops s = Some (s', Inr bs) \<and> spec_steps (map snd ops) P = (P', bs) \<and> gin_index T K P' s'"
  using gin_steps_wf [OF assms(1,2), where n = 0] assms(3-) by simp

definition index_codec :: "(unit, nat list) codec" where
  "index_codec = \<lparr> record_footprint = (\<lambda>_ k r _. (length k + 1, length k)),
     record_scan_units = (\<lambda>_ _ _ _ _. (0, 0)), any_spillable_masked = (\<lambda>_ _. False), fixed_value_width = (\<lambda>_. None) \<rparr>"

definition index_store :: "(unit, nat list) table_store" where
  "index_store = table_store_new index_codec \<lparr> cap_c = 512, cap_tag = 0 \<rparr> []"

lemma index_store_wf: "store_wf index_store" "n < 1000 \<Longrightarrow> room index_store n" "store_keys index_store = {}"
    "length run \<le> GIN_RUN_MAX_BYTES \<Longrightarrow> small index_codec index_store run []"
  by (simp_all add: store_wf_def room_def index_store_def table_store_new_def row_entries_def staged_entries_def store_keys_def
      cap_wf_def rec_fits_def rec_wf_def leaf_shape_of_def shape_k_def ptr_def RECORD_MAX_RESERVE_def pmap_wf_def pmap_new_def
      pmap_entries_def small_def weight_def index_codec_def GIN_RUN_MAX_BYTES_def)

theorem gin_refines_postings_witness:
  "\<exists>s'. gin_steps index_codec (map (Pair (\<lambda>_. shared_owners)) [Add [0x61, 0] [7, 1], Add [0x61, 0] [7, 2], Add [0x61, 0] [7, 1],
       Drop [0x61, 0] [7, 1], Drop [0x62, 0] [7, 1]]) index_store = Some (s', Inr [True, True, False, True, False])
     \<and> gin_index {[0x61, 0], [0x62, 0]} {[7, 1], [7, 2]} {([0x61, 0], [7, 2])} s'"
proof -
  let ?T = "{[0x61, 0], [0x62, 0]} :: bytes set" and ?K = "{[7, 1], [7, 2]} :: bytes set"
  have e: "encodings ?T ?K" by (auto simp: encodings_def prefix_free_def MAX_KEY_def)
  have g: "gin_index ?T ?K {} index_store"
    using index_store_wf(1,3) by (auto simp: gin_index_def gin_wf_def postings_def intro!: exI [of _ "{}"])
  have f: "runs_small index_codec ?T ?K index_store"
    by (auto simp: runs_small_def intro!: index_store_wf(4)) (simp_all add: GIN_RUN_MAX_BYTES_def)
  note F = gin_refines_postings [OF e g, where cd = index_codec and ops = "map (Pair (\<lambda>_. shared_owners)) [Add [0x61, 0] [7, 1], Add [0x61, 0] [7, 2], Add [0x61, 0] [7, 1],
       Drop [0x61, 0] [7, 1], Drop [0x62, 0] [7, 1]]"]
  obtain s' P' bs where "gin_steps index_codec (map (Pair (\<lambda>_. shared_owners)) [Add [0x61, 0] [7, 1], Add [0x61, 0] [7, 2], Add [0x61, 0] [7, 1],
       Drop [0x61, 0] [7, 1], Drop [0x62, 0] [7, 1]]) index_store = Some (s', Inr bs)" "gin_index ?T ?K P' s'"
    "spec_steps [Add [0x61, 0] [7, 1], Add [0x61, 0] [7, 2], Add [0x61, 0] [7, 1], Drop [0x61, 0] [7, 1], Drop [0x62, 0] [7, 1]] {} = (P', bs)"
    using F f index_store_wf(2) by (auto simp: comp_def simp del: gin_steps.simps spec_steps.simps)
  then show ?thesis by (auto simp: insert_Diff_if insert_commute)
qed

end
