(* ===== verification/Magnitude.thy ===== *)
theory Magnitude
  imports Digits
begin

text \<open>
  The magnitudes of \<open>decimal.rs\<close>: natural numbers as little-endian lists of base \<open>10\<^sup>9\<close> limbs,
  normalized (no high zero limb). A \<open>u32\<close> limb or a \<open>u64\<close> accumulator is a natural number, with
  the wrap of its width written out (\<open>w32\<close>, \<open>w64\<close>). Shown: each helper computes the function of
  the value that its name says (\<open>mval\<close> of the result), returns a normalized magnitude, and never
  reaches a wrap.
\<close>

section \<open>Model: limbs\<close>

definition w32 :: "nat \<Rightarrow> nat" where "w32 n = n mod 2 ^ 32"
definition w64 :: "nat \<Rightarrow> nat" where "w64 n = n mod 2 ^ 64"

definition BASE :: nat where "BASE = 1000000000"
definition BASE_DIGITS :: nat where "BASE_DIGITS = 9"

type_synonym mag = "nat list"

definition mag_trim :: "mag \<Rightarrow> mag" where
  "mag_trim limbs = rev (dropWhile (\<lambda>l. l = 0) (rev limbs))"

function mag_from_u64 :: "nat \<Rightarrow> mag" where
  "mag_from_u64 v = (if v = 0 then [] else w32 (v mod BASE) # mag_from_u64 (v div BASE))"
  by pat_completeness auto
termination
  by (relation "measure id") (auto simp: BASE_def)

declare mag_from_u64.simps [simp del]

definition limb_of_digits :: "string \<Rightarrow> nat" where
  "limb_of_digits bs = foldl (\<lambda>limb b. w32 (w32 (limb * 10) + nat (digit_val b))) 0 bs"

function from_digits_loop :: "string \<Rightarrow> mag" where
  "from_digits_loop bytes =
     (if bytes = [] then []
      else let start = length bytes - BASE_DIGITS
           in limb_of_digits (drop start bytes) # from_digits_loop (take start bytes))"
  by pat_completeness auto
termination
  by (relation "measure length") (auto simp: BASE_DIGITS_def Let_def)

declare from_digits_loop.simps [simp del]

definition mag_from_decimal_str :: "string \<Rightarrow> mag" where
  "mag_from_decimal_str s = mag_trim (from_digits_loop (filter is_digit s))"

definition mag_to_decimal_str :: "mag \<Rightarrow> string" where
  "mag_to_decimal_str limbs =
     (if limbs = [] then ''0''
      else dec_str (last limbs) @ concat (map (\<lambda>l. pad 9 (int l)) (rev (butlast limbs))))"

definition mag_digit_count :: "mag \<Rightarrow> nat" where
  "mag_digit_count limbs =
     (if limbs = [] then 0
      else w32 (w32 (length (dec_str (last limbs)))
                + w32 ((w32 (length limbs) - 1) * BASE_DIGITS)))"

fun cmp_from_top :: "nat \<Rightarrow> mag \<Rightarrow> mag \<Rightarrow> ordering" where
  "cmp_from_top 0 a b = Equal"
| "cmp_from_top (Suc i) a b = (if a ! i \<noteq> b ! i then cmp (a ! i) (b ! i) else cmp_from_top i a b)"

definition mag_cmp :: "mag \<Rightarrow> mag \<Rightarrow> ordering" where
  "mag_cmp a b =
     (if length a \<noteq> length b then cmp (length a) (length b) else cmp_from_top (length a) a b)"

text \<open>\<open>a.get(i)\<close> past the end of the shorter operand reads 0.\<close>

fun add_loop :: "nat \<Rightarrow> mag \<Rightarrow> mag \<Rightarrow> mag" where
  "add_loop carry [] [] = (if carry \<noteq> 0 then [w32 carry] else [])"
| "add_loop carry (x # a) [] =
     (let sum = w64 (x + 0 + carry) in w32 (sum mod BASE) # add_loop (sum div BASE) a [])"
| "add_loop carry [] (y # b) =
     (let sum = w64 (0 + y + carry) in w32 (sum mod BASE) # add_loop (sum div BASE) [] b)"
| "add_loop carry (x # a) (y # b) =
     (let sum = w64 (x + y + carry) in w32 (sum mod BASE) # add_loop (sum div BASE) a b)"

definition mag_add :: "mag \<Rightarrow> mag \<Rightarrow> mag" where
  "mag_add a b = mag_trim (add_loop 0 a b)"

fun sub_loop :: "int \<Rightarrow> mag \<Rightarrow> mag \<Rightarrow> mag" where
  "sub_loop borrow [] b = []"
| "sub_loop borrow (x # a) b =
     (let y = (case b of [] \<Rightarrow> 0 | y # _ \<Rightarrow> y);
          diff = int x - int y - borrow
      in if diff < 0 then nat ((diff + int BASE) mod 2 ^ 32) # sub_loop 1 a (tl b)
         else nat (diff mod 2 ^ 32) # sub_loop 0 a (tl b))"

definition mag_sub :: "mag \<Rightarrow> mag \<Rightarrow> mag" where
  "mag_sub a b = mag_trim (sub_loop 0 a b)"

text \<open>
  Schoolbook multiplication into a vector of \<open>u64\<close>: \<open>mul_row\<close> is the inner loop of \<open>mag_mul\<close>
  for one limb \<open>ai\<close> of \<open>a\<close>, with \<open>k = i + j\<close>.
\<close>

fun mul_row :: "nat \<Rightarrow> nat \<Rightarrow> nat \<Rightarrow> mag \<Rightarrow> nat list \<Rightarrow> nat list \<times> nat" where
  "mul_row ai k carry [] out = (out, carry)"
| "mul_row ai k carry (bj # b) out =
     (let cur = w64 (w64 (out ! k + w64 (ai * bj)) + carry)
      in mul_row ai (Suc k) (cur div BASE) b (out[k := cur mod BASE]))"

fun mul_rows :: "nat \<Rightarrow> mag \<Rightarrow> mag \<Rightarrow> nat list \<Rightarrow> nat list" where
  "mul_rows i [] b out = out"
| "mul_rows i (ai # a) b out =
     (let (out, carry) = mul_row ai i 0 b out;
          k = i + length b
      in mul_rows (Suc i) a b (out[k := w64 (out ! k + carry)]))"

definition mag_mul :: "mag \<Rightarrow> mag \<Rightarrow> mag" where
  "mag_mul a b =
     (if a = [] \<or> b = [] then []
      else mag_trim (map w32 (mul_rows 0 a b (replicate (length a + length b) 0))))"

text \<open>The carry left over is written out limb by limb, as \<open>mag_from_u64\<close> does.\<close>

fun small_loop :: "nat \<Rightarrow> nat \<Rightarrow> mag \<Rightarrow> mag" where
  "small_loop s carry [] = mag_from_u64 carry"
| "small_loop s carry (ai # a) =
     (let cur = w64 (w64 (ai * s) + carry)
      in w32 (cur mod BASE) # small_loop s (cur div BASE) a)"

definition mag_mul_small :: "mag \<Rightarrow> nat \<Rightarrow> mag" where
  "mag_mul_small a s = (if s = 0 \<or> a = [] then [] else mag_trim (small_loop s 0 a))"

definition mag_mul_pow10 :: "mag \<Rightarrow> nat \<Rightarrow> mag" where
  "mag_mul_pow10 a e =
     (if a = [] \<or> e = 0 then a
      else let full = e div BASE_DIGITS; r = e mod BASE_DIGITS;
               shifted = replicate full 0 @ a;
               shifted = (if 0 < r then mag_mul_small shifted (10 ^ r) else shifted)
           in mag_trim shifted)"

definition mag_pow10 :: "nat \<Rightarrow> mag" where
  "mag_pow10 e = mag_mul_pow10 [1] e"

function quotient_limb :: "mag \<Rightarrow> mag \<Rightarrow> nat \<Rightarrow> nat \<Rightarrow> nat" where
  "quotient_limb den rm lo hi =
     (if lo < hi then
        let mid = (lo + hi + 1) div 2
        in if mag_cmp (mag_mul_small den mid) rm \<noteq> Greater then quotient_limb den rm mid hi
           else quotient_limb den rm lo (mid - 1)
      else lo)"
  by pat_completeness auto
termination
  by (relation "measure (\<lambda>(den, rm, lo, hi). hi - lo)") auto

declare quotient_limb.simps [simp del]

text \<open>The limbs of the numerator come from the top; each step sets the next lower quotient limb.\<close>

fun div_loop :: "mag \<Rightarrow> mag \<Rightarrow> mag \<Rightarrow> mag \<Rightarrow> mag \<times> mag" where
  "div_loop den [] rm quo = (quo, rm)"
| "div_loop den (x # xs) rm quo =
     (let rm = mag_trim (x # rm);
          q = quotient_limb den rm 0 (BASE - 1);
          rm = mag_sub rm (mag_mul_small den q)
      in div_loop den xs rm (w32 q # quo))"

definition mag_divmod :: "mag \<Rightarrow> mag \<Rightarrow> mag \<times> mag" where
  "mag_divmod num den =
     (if mag_cmp num den = Less then ([], num)
      else let (quo, rm) = div_loop den (rev num) [] [] in (mag_trim quo, rm))"

fun groups_of :: "string \<Rightarrow> nat list" where
  "groups_of (a # b # c # d # s) =
     foldl (\<lambda>g b. g * 10 + nat (digit_val b)) 0 [a, b, c, d] # groups_of s"
| "groups_of s = []"

definition mag_to_nbase4 :: "mag \<Rightarrow> nat list" where
  "mag_to_nbase4 limbs =
     (if limbs = [] then []
      else let s = mag_to_decimal_str limbs; pd = (4 - length s mod 4) mod 4
           in groups_of (replicate pd (CHR ''0'') @ s))"

fun mag_from_nbase4 :: "nat list \<Rightarrow> mag" where
  "mag_from_nbase4 [] = []"
| "mag_from_nbase4 (g # gs) =
     mag_from_decimal_str (dec_str g @ concat (map (\<lambda>g. pad 4 (int g)) gs))"

section \<open>Values\<close>

fun mval :: "mag \<Rightarrow> nat" where
  "mval [] = 0"
| "mval (x # xs) = x + BASE * mval xs"

definition limbs_ok :: "mag \<Rightarrow> bool" where
  "limbs_ok a = list_all (\<lambda>x. x < BASE) a"

definition mag_norm :: "mag \<Rightarrow> bool" where
  "mag_norm a \<longleftrightarrow> limbs_ok a \<and> (a \<noteq> [] \<longrightarrow> last a \<noteq> 0)"

named_theorems mag_simps \<open>value and normal form of each magnitude helper\<close>

lemma limbs_ok_simps [simp]:
  "limbs_ok []" "limbs_ok (x # a) \<longleftrightarrow> x < BASE \<and> limbs_ok a"
  "limbs_ok (a @ b) \<longleftrightarrow> limbs_ok a \<and> limbs_ok b" "limbs_ok (rev a) \<longleftrightarrow> limbs_ok a"
  by (auto simp: limbs_ok_def)

lemma limbs_ok_replicate [simp]: "limbs_ok (replicate n 0)"
  by (induction n) (auto simp: BASE_def)

lemma limbs_ok_nth: "limbs_ok a \<Longrightarrow> i < length a \<Longrightarrow> a ! i < BASE"
  by (simp add: limbs_ok_def list_all_length)

lemma mag_norm_limbs [simp]: "mag_norm a \<Longrightarrow> limbs_ok a"
  by (simp add: mag_norm_def)

lemma mag_norm_Nil [simp]: "mag_norm []"
  by (simp add: mag_norm_def)

lemma BASE_pos [simp]: "0 < BASE" "BASE \<noteq> 0" "Suc 0 < BASE" "1 < BASE" "Suc 0 \<le> BASE"
  by (simp_all add: BASE_def)

lemma w32_limb [simp]: "x < BASE \<Longrightarrow> w32 x = x"
  by (simp add: w32_def BASE_def)

lemma w32_mod_BASE [simp]: "w32 (x mod BASE) = x mod BASE"
  by (rule w32_limb) simp

lemma w32_id: "x < 2 ^ 32 \<Longrightarrow> w32 x = x"
  by (simp add: w32_def)

lemma w64_id: "x < 2 ^ 64 \<Longrightarrow> w64 x = x"
  by (simp add: w64_def)

lemma mval_append [simp]: "mval (a @ b) = mval a + BASE ^ length a * mval b"
  by (induction a) (simp_all add: algebra_simps)

lemma mval_zeros [simp]: "mval (replicate n 0) = 0"
  by (induction n) simp_all

lemma mval_less: "limbs_ok a \<Longrightarrow> mval a < BASE ^ length a"
proof (induction a)
  case (Cons x a)
  then have "mval a + 1 \<le> BASE ^ length a" by simp
  then have "BASE * (mval a + 1) \<le> BASE * BASE ^ length a" by (rule mult_le_mono2)
  with Cons.prems show ?case by simp
qed simp

lemma mval_step_less:
  "x < BASE \<Longrightarrow> y < BASE \<Longrightarrow> x + BASE * m < y + BASE * n \<longleftrightarrow> m < n \<or> m = n \<and> x < y"
proof -
  assume b: "x < BASE" "y < BASE"
  have "x + BASE * m < y + BASE * n" if "m < n"
  proof -
    have "x + BASE * m < BASE * (m + 1)" using b by simp
    also have "\<dots> \<le> BASE * n" using that by (intro mult_le_mono2) simp
    finally show ?thesis by simp
  qed
  moreover have "\<not> x + BASE * m < y + BASE * n" if "n < m"
  proof -
    have "y + BASE * n < BASE * (n + 1)" using b by simp
    also have "\<dots> \<le> BASE * m" using that by (intro mult_le_mono2) simp
    finally show ?thesis by simp
  qed
  ultimately show ?thesis by (cases m n rule: linorder_cases) auto
qed

lemma mval_step_eq:
  assumes "x < BASE" "y < BASE"
  shows "x + BASE * m = y + BASE * n \<longleftrightarrow> x = y \<and> m = n"
  using mval_step_less [OF assms, of m n] mval_step_less [OF assms(2,1), of n m] by auto

lemma mval_eq_iff:
  assumes "length a = length b" "limbs_ok a" "limbs_ok b"
  shows "mval a = mval b \<longleftrightarrow> a = b"
  using assms by (induction a b rule: list_induct2) (auto simp: mval_step_eq)

lemma mag_norm_snoc [simp]: "mag_norm (a @ [x]) \<longleftrightarrow> limbs_ok a \<and> x < BASE \<and> x \<noteq> 0"
  by (auto simp: mag_norm_def)

lemma mag_norm_lower: "mag_norm a \<Longrightarrow> a \<noteq> [] \<Longrightarrow> BASE ^ (length a - 1) \<le> mval a"
  by (induction a rule: rev_induct) (auto intro: trans_le_add2)

lemma mval_pos: "mag_norm a \<Longrightarrow> a \<noteq> [] \<Longrightarrow> 0 < mval a"
  using mag_norm_lower [of a] by (meson BASE_pos(1) less_le_trans zero_less_power)

lemma mval_0_iff [simp]: "mag_norm a \<Longrightarrow> mval a = 0 \<longleftrightarrow> a = []"
  using mval_pos by fastforce

lemma mval_length_less:
  assumes "mag_norm a" "mag_norm b" "length a < length b"
  shows "mval a < mval b"
proof -
  have "mval a < BASE ^ length a" using assms by (simp add: mval_less)
  also have "\<dots> \<le> BASE ^ (length b - 1)" using assms(3) by (intro power_increasing) simp_all
  also have "\<dots> \<le> mval b" using assms by (intro mag_norm_lower) auto
  finally show ?thesis .
qed

lemma mag_eq_iff: "mag_norm a \<Longrightarrow> mag_norm b \<Longrightarrow> a = b \<longleftrightarrow> mval a = mval b"
  by (cases "length a" "length b" rule: linorder_cases)
    (auto dest: mval_length_less mval_eq_iff simp del: mval_0_iff)

lemma mag_eqI: "mag_norm a \<Longrightarrow> mag_norm b \<Longrightarrow> mval a = mval b \<Longrightarrow> a = b"
  by (simp add: mag_eq_iff)

section \<open>Trimming, comparison, addition and subtraction\<close>

lemma mag_trim_split: "\<exists>n. a = mag_trim a @ replicate n 0"
proof -
  define z where "z = takeWhile (\<lambda>l. l = 0) (rev a)"
  have "replicate (length z) 0 = z"
    by (intro replicate_length_same) (auto simp: z_def dest: set_takeWhileD)
  then have "rev a = replicate (length z) 0 @ dropWhile (\<lambda>l. l = 0) (rev a)"
    by (simp add: z_def)
  then have "rev (rev a) = rev (replicate (length z) 0 @ dropWhile (\<lambda>l. l = 0) (rev a))"
    by (rule arg_cong)
  then have "a = mag_trim a @ replicate (length z) 0"
    by (simp only: mag_trim_def rev_append rev_replicate rev_rev_ident)
  then show ?thesis ..
qed

lemma mval_trim [simp]: "mval (mag_trim a) = mval a"
proof -
  obtain n where n: "a = mag_trim a @ replicate n 0" using mag_trim_split by blast
  have "mval a = mval (mag_trim a @ replicate n 0)" by (rule arg_cong [OF n])
  then show ?thesis by simp
qed

lemma mag_norm_trim [simp]: "limbs_ok a \<Longrightarrow> mag_norm (mag_trim a)"
proof -
  assume a: "limbs_ok a"
  obtain n where n: "a = mag_trim a @ replicate n 0" using mag_trim_split by blast
  have "limbs_ok (mag_trim a @ replicate n 0)" using a n by simp
  moreover have "last (mag_trim a) \<noteq> 0" if "mag_trim a \<noteq> []"
    using that hd_dropWhile [of "\<lambda>l. l = 0" "rev a"] by (auto simp: mag_trim_def last_rev)
  ultimately show ?thesis by (simp add: mag_norm_def)
qed

lemma mag_trim_norm [simp]: "mag_norm a \<Longrightarrow> mag_trim a = a"
  by (rule mag_eqI) simp_all

lemma cmp_from_top_take:
  assumes "i \<le> length a" "i \<le> length b" "limbs_ok a" "limbs_ok b"
  shows "cmp_from_top i a b = cmp (mval (take i a)) (mval (take i b))"
  using assms
proof (induction i)
  case (Suc i)
  have s: "mval (take (Suc i) c) = mval (take i c) + BASE ^ i * c ! i" if "i < length c" for c
    using that by (simp add: take_Suc_conv_app_nth)
  have l: "mval (take i c) < BASE ^ i" if "limbs_ok c" "i < length c" for c
    using that mval_less [of "take i c"] by (simp add: limbs_ok_def list_all_iff) (metis in_set_takeD)
  have key: "m + p * x < n + p * y" if "m < p" "x < y" for m n p x y :: nat
  proof -
    have "m + p * x < p * (x + 1)" using that by simp
    also have "\<dots> \<le> p * y" using that by (intro mult_le_mono2) simp
    finally show ?thesis by simp
  qed
  show ?case
  proof (cases "a ! i" "b ! i" rule: linorder_cases)
    case less
    then show ?thesis
      using Suc.prems s l [of a] key [of "mval (take i a)" "BASE ^ i" "a ! i" "b ! i" "mval (take i b)"]
      by (auto simp: cmp_def)
  next
    case equal
    then show ?thesis using Suc s by (simp add: cmp_def)
  next
    case greater
    then show ?thesis
      using Suc.prems s l [of b] key [of "mval (take i b)" "BASE ^ i" "b ! i" "a ! i" "mval (take i a)"]
      by (auto simp: cmp_def)
  qed
qed (simp add: cmp_def)

lemma mag_cmp [simp]: "mag_norm a \<Longrightarrow> mag_norm b \<Longrightarrow> mag_cmp a b = cmp (mval a) (mval b)"
  using mval_length_less [of a b] mval_length_less [of b a] cmp_from_top_take [of "length a" a b]
  by (cases "length a" "length b" rule: linorder_cases) (auto simp: mag_cmp_def cmp_def)

lemma add_loop:
  assumes "limbs_ok a" "limbs_ok b" "carry \<le> 1"
  shows "mval (add_loop carry a b) = carry + mval a + mval b \<and> limbs_ok (add_loop carry a b)"
proof -
  have w: "w64 (x + y + c) = x + y + c" "(x + y + c) div BASE \<le> 1"
    if "x < BASE" "y < BASE" "c \<le> 1" for x y c
  proof -
    have "x + y + c < 2 * BASE" using that by simp
    then show "(x + y + c) div BASE \<le> 1"
      by (metis less_mult_imp_div_less less_2_cases_iff One_nat_def le_Suc_eq zero_le linorder_not_less
          not_less_eq_eq numeral_2_eq_2)
    show "w64 (x + y + c) = x + y + c"
      using that by (intro w64_id) (simp add: BASE_def)
  qed
  show ?thesis
    using assms
  proof (induction carry a b rule: add_loop.induct)
    case (1 carry)
    then show ?case by (auto simp: le_Suc_eq)
  next
    case (2 carry x a)
    let ?s = "x + 0 + carry"
    have "mval (add_loop (?s div BASE) a []) = ?s div BASE + mval a + mval []
        \<and> limbs_ok (add_loop (?s div BASE) a [])"
      using 2 w [of x 0 carry] by simp
    moreover have "BASE * (?s div BASE) + ?s mod BASE = ?s" by simp
    ultimately show ?case using 2 w [of x 0 carry] by (simp add: Let_def algebra_simps)
  next
    case (3 carry y b)
    let ?s = "0 + y + carry"
    have "mval (add_loop (?s div BASE) [] b) = ?s div BASE + mval [] + mval b
        \<and> limbs_ok (add_loop (?s div BASE) [] b)"
      using 3 w [of 0 y carry] by simp
    moreover have "BASE * (?s div BASE) + ?s mod BASE = ?s" by simp
    ultimately show ?case using 3 w [of 0 y carry] by (simp add: Let_def algebra_simps)
  next
    case (4 carry x a y b)
    let ?s = "x + y + carry"
    have "mval (add_loop (?s div BASE) a b) = ?s div BASE + mval a + mval b
        \<and> limbs_ok (add_loop (?s div BASE) a b)"
      using 4 w [of x y carry] by simp
    moreover have "BASE * (?s div BASE) + ?s mod BASE = ?s" by simp
    ultimately show ?case using 4 w [of x y carry] by (simp add: Let_def algebra_simps)
  qed
qed

lemma mag_add [simp, mag_simps]:
  assumes "limbs_ok a" "limbs_ok b"
  shows "mval (mag_add a b) = mval a + mval b" "mag_norm (mag_add a b)"
  using add_loop [OF assms, of 0] by (simp_all add: mag_add_def)


lemma sub_loop:
  assumes "limbs_ok a" "limbs_ok b" "length b \<le> length a" "borrow = 0 \<or> borrow = 1"
  shows "limbs_ok (sub_loop borrow a b) \<and> length (sub_loop borrow a b) = length a \<and>
    (\<exists>c. (c = 0 \<or> c = 1) \<and> int (mval (sub_loop borrow a b))
      = int (mval a) - int (mval b) - borrow + c * int (BASE ^ length a))"
  using assms
proof (induction a arbitrary: borrow b)
  case (Cons x a)
  define y where "y = (case b of [] \<Rightarrow> 0 | y # _ \<Rightarrow> y)"
  have b: "mval b = y + BASE * mval (tl b)" "y < BASE" "limbs_ok (tl b)" "length (tl b) \<le> length a"
    using Cons.prems by (cases b; auto simp: y_def)+
  define d where "d = int x - int y - borrow"
  define c1 :: int where "c1 = (if d < 0 then 1 else 0)"
  define l where "l = nat (d + c1 * int BASE)"
  have x: "x < BASE" and br: "borrow = 0 \<or> borrow = 1" using Cons.prems by auto
  have l: "int l = d + c1 * int BASE" "l < BASE" "(d + c1 * int BASE) mod 2 ^ 32 = d + c1 * int BASE"
    using x b(2) br by (auto simp: l_def c1_def d_def BASE_def)
  have step: "sub_loop borrow (x # a) b = l # sub_loop c1 a (tl b)"
    using l(3) by (auto simp: c1_def l_def d_def y_def [symmetric] Let_def)
  have "limbs_ok a" "c1 = 0 \<or> c1 = 1" using Cons.prems by (auto simp: c1_def)
  from Cons.IH [OF this(1) b(3,4) this(2)] obtain c where
    c: "c = 0 \<or> c = 1" "limbs_ok (sub_loop c1 a (tl b))" "length (sub_loop c1 a (tl b)) = length a"
    "int (mval (sub_loop c1 a (tl b))) = int (mval a) - int (mval (tl b)) - c1 + c * int (BASE ^ length a)"
    by blast
  have "int (mval (sub_loop borrow (x # a) b))
      = int (mval (x # a)) - int (mval b) - borrow + c * int (BASE ^ length (x # a))"
  proof -
    have "int BASE * int (mval (sub_loop c1 a (tl b)))
        = int BASE * (int (mval a) - int (mval (tl b)) - c1 + c * int (BASE ^ length a))"
      by (simp only: c(4))
    then show ?thesis unfolding step using l(1) b(1) by (simp add: d_def algebra_simps)
  qed
  then show ?case unfolding step using c l(2) by auto
qed simp

lemma mag_sub [simp, mag_simps]:
  assumes "mag_norm a" "mag_norm b" "mval b \<le> mval a"
  shows "mval (mag_sub a b) = mval a - mval b" "mag_norm (mag_sub a b)"
proof -
  have len: "length b \<le> length a"
    using mval_length_less [OF assms(1,2)] assms(3) by (meson linorder_not_less)
  obtain c :: int where c: "c = 0 \<or> c = 1" "limbs_ok (sub_loop 0 a b)" "length (sub_loop 0 a b) = length a"
    "int (mval (sub_loop 0 a b)) = int (mval a) - int (mval b) - 0 + c * int (BASE ^ length a)"
    using sub_loop [of a b 0] assms len by auto
  have "int (mval (sub_loop 0 a b)) < int (BASE ^ length a)"
    using mval_less [OF c(2)] c(3) by (simp only: of_nat_less_iff)
  then have "c = 0" using c(1,4) assms(3) by auto
  then show "mval (mag_sub a b) = mval a - mval b" "mag_norm (mag_sub a b)"
    using c by (simp_all add: mag_sub_def)
qed

section \<open>Multiplication\<close>

lemma mag_from_u64 [simp, mag_simps]: "mval (mag_from_u64 v) = v" "mag_norm (mag_from_u64 v)"
proof (induction v rule: mag_from_u64.induct)
  case (1 v)
  {
    case 1
    then show ?case using \<open>v \<noteq> 0 \<Longrightarrow> mval (mag_from_u64 (v div BASE)) = v div BASE\<close>
      by (simp add: mag_from_u64.simps [of v])
  next
    case 2
    have "mag_from_u64 (v div BASE) \<noteq> [] \<or> v mod BASE \<noteq> 0" if "v \<noteq> 0"
    proof (rule ccontr)
      assume "\<not> ?thesis"
      then have z: "mag_from_u64 (v div BASE) = []" "v mod BASE = 0" by auto
      then have "v div BASE = 0"
        using \<open>v \<noteq> 0 \<Longrightarrow> mval (mag_from_u64 (v div BASE)) = v div BASE\<close> that by simp
      with z(2) that show False by (metis div_mult_mod_eq mult_0 add_0)
    qed
    then show ?case using \<open>v \<noteq> 0 \<Longrightarrow> mag_norm (mag_from_u64 (v div BASE))\<close>
      by (auto simp: mag_from_u64.simps [of v] mag_norm_def)
  }
qed

lemma limb_product:
  assumes "x < BASE" "c \<le> s" "BASE * s < 2 ^ 64"
  shows "w64 (w64 (x * s) + c) = x * s + c" "(x * s + c) div BASE \<le> s"
proof -
  have "x * s + c \<le> (BASE - 1) * s + s" using assms by (intro add_mono mult_le_mono1) simp_all
  also have "\<dots> = BASE * s" by (simp add: algebra_simps)
  finally have le: "x * s + c \<le> BASE * s" .
  then have "w64 (x * s) = x * s" using assms by (intro w64_id) simp
  with le show "w64 (w64 (x * s) + c) = x * s + c" using assms by (simp add: w64_id)
  show "(x * s + c) div BASE \<le> s" using div_le_mono [OF le, of BASE] by simp
qed

lemma small_loop:
  assumes "limbs_ok a" "carry \<le> s" "BASE * s < 2 ^ 64"
  shows "mval (small_loop s carry a) = carry + mval a * s \<and> limbs_ok (small_loop s carry a)"
  using assms
proof (induction a arbitrary: carry)
  case (Cons x a)
  let ?c = "x * s + carry"
  have c: "w64 (w64 (x * s) + carry) = ?c" "?c div BASE \<le> s"
    using Cons.prems limb_product [of x carry s] by simp_all
  have "mval (small_loop s (?c div BASE) a) = ?c div BASE + mval a * s
      \<and> limbs_ok (small_loop s (?c div BASE) a)"
    using Cons c by simp
  moreover have "BASE * (?c div BASE) + ?c mod BASE = ?c" by simp
  ultimately show ?case using c by (simp add: Let_def algebra_simps)
qed simp

lemma mag_mul_small [simp, mag_simps]:
  assumes "limbs_ok a" "BASE * s < 2 ^ 64"
  shows "mval (mag_mul_small a s) = mval a * s" "mag_norm (mag_mul_small a s)"
  using small_loop [OF assms(1) _ assms(2), of 0] by (auto simp: mag_mul_small_def)

lemma mval_update:
  "k < length xs \<Longrightarrow> mval (xs[k := v]) + BASE ^ k * xs ! k = mval xs + BASE ^ k * v"
proof (induction xs arbitrary: k)
  case (Cons x xs)
  show ?case
  proof (cases k)
    case (Suc i)
    with Cons have "BASE * (mval (xs[i := v]) + BASE ^ i * xs ! i) = BASE * (mval xs + BASE ^ i * v)"
      by simp
    with Suc show ?thesis by (simp add: algebra_simps)
  qed simp
qed simp

lemma limbs_ok_update: "limbs_ok xs \<Longrightarrow> v < BASE \<Longrightarrow> limbs_ok (xs[k := v])"
  by (auto simp: limbs_ok_def list_all_iff dest!: set_update_subset_insert [THEN subsetD])

lemma row_step:
  assumes "o' < BASE" "x < BASE" "y < BASE" "c < BASE"
  shows "w64 (w64 (o' + w64 (x * y)) + c) = o' + x * y + c" "(o' + x * y + c) div BASE < BASE"
proof -
  have "x * y \<le> (BASE - 1) * (BASE - 1)" using assms by (intro mult_le_mono) simp_all
  then have le: "o' + x * y + c < BASE * BASE" using assms by (simp add: BASE_def)
  have big: "BASE * BASE < 2 ^ 64" by (simp add: BASE_def)
  show "w64 (w64 (o' + w64 (x * y)) + c) = o' + x * y + c"
    using le big by (simp add: w64_id)
  show "(o' + x * y + c) div BASE < BASE"
    using le by (simp add: less_mult_imp_div_less)
qed

lemma mul_row:
  assumes "mul_row ai k carry b out = (out', c')"
    and "limbs_ok b" "limbs_ok out" "ai < BASE" "carry < BASE" "k + length b \<le> length out"
  shows "limbs_ok out' \<and> length out' = length out \<and> c' < BASE \<and>
    mval out' + BASE ^ (k + length b) * c' = mval out + BASE ^ k * (carry + ai * mval b) \<and>
    (\<forall>j. k + length b \<le> j \<longrightarrow> out' ! j = out ! j)"
  using assms
proof (induction ai k carry b out rule: mul_row.induct)
  case (2 ai k carry bj b out)
  let ?c = "out ! k + ai * bj + carry"
  have k: "k < length out" using 2 by simp
  have ok: "out ! k < BASE" using 2 limbs_ok_nth [of out k] by simp
  have w: "w64 (w64 (out ! k + w64 (ai * bj)) + carry) = ?c" "?c div BASE < BASE"
    using row_step [of "out ! k" ai bj carry] ok 2 by simp_all
  let ?o = "out[k := ?c mod BASE]"
  have lo: "limbs_ok ?o" using 2 by (intro limbs_ok_update) simp_all
  have "limbs_ok out' \<and> length out' = length ?o \<and> c' < BASE \<and>
    mval out' + BASE ^ (Suc k + length b) * c' = mval ?o + BASE ^ Suc k * (?c div BASE + ai * mval b) \<and>
    (\<forall>j. Suc k + length b \<le> j \<longrightarrow> out' ! j = ?o ! j)"
  proof -
    have "mul_row ai (Suc k) (?c div BASE) b ?o = (out', c')"
      using "2.prems"(1) w(1) by (simp add: Let_def)
    from "2.IH" [OF w(1) [symmetric] this _ lo] show ?thesis using 2 w(2) by simp
  qed
  then have h: "limbs_ok out'" "length out' = length out" "c' < BASE"
    "mval out' + BASE ^ (Suc k + length b) * c' = mval ?o + BASE ^ Suc k * (?c div BASE + ai * mval b)"
    "\<And>j. Suc k + length b \<le> j \<Longrightarrow> out' ! j = ?o ! j" by auto
  have "mval ?o + BASE ^ k * out ! k = mval out + BASE ^ k * (?c mod BASE)"
    by (rule mval_update [OF k])
  moreover have "BASE ^ k * (BASE * (?c div BASE) + ?c mod BASE) = BASE ^ k * ?c" by simp
  then have "BASE ^ Suc k * (?c div BASE) + BASE ^ k * (?c mod BASE)
      = BASE ^ k * (out ! k) + BASE ^ k * (ai * bj + carry)"
    by (simp only: power_Suc distrib_left mult.assoc mult.left_commute [of BASE] add.assoc)
  ultimately have "mval out' + BASE ^ (Suc k + length b) * c'
      = mval out + BASE ^ k * (ai * bj + carry) + BASE ^ Suc k * (ai * mval b)"
    using h(4) by (simp only: distrib_left)
  then have "mval out' + BASE ^ (k + length (bj # b)) * c'
      = mval out + BASE ^ k * (carry + ai * mval (bj # b))"
    by (simp add: algebra_simps)
  moreover have "out' ! j = out ! j" if "k + length (bj # b) \<le> j" for j
    using that h(5) [of j] by simp
  ultimately show ?case using h(1-3) by simp
qed simp

lemma mul_rows:
  assumes "limbs_ok a" "limbs_ok b" "limbs_ok out" "i + length a + length b \<le> length out"
    and "\<And>j. i + length b \<le> j \<Longrightarrow> j < length out \<Longrightarrow> out ! j = 0"
  shows "limbs_ok (mul_rows i a b out) \<and> mval (mul_rows i a b out) = mval out + BASE ^ i * (mval a * mval b)"
  using assms
proof (induction i a b out rule: mul_rows.induct)
  case (2 i x a b out)
  obtain o' c where r: "mul_row x i 0 b out = (o', c)" by force
  let ?k = "i + length b"
  have h: "limbs_ok o'" "length o' = length out" "c < BASE"
    "mval o' + BASE ^ ?k * c = mval out + BASE ^ i * (0 + x * mval b)"
    "\<And>j. ?k \<le> j \<Longrightarrow> o' ! j = out ! j"
    using mul_row [OF r] 2 by simp_all
  have z: "o' ! ?k = 0" using h(5) [of ?k] "2.prems"(4,5) by simp
  have w: "w64 (o' ! ?k + c) = c" using z h(3) by (simp add: w64_id BASE_def)
  let ?o = "o'[?k := c]"
  have step: "mul_rows i (x # a) b out = mul_rows (Suc i) a b ?o" by (simp add: r w Let_def)
  have mv: "mval ?o = mval out + BASE ^ i * (x * mval b)"
    using mval_update [of ?k o' c] h(2,4) z "2.prems"(4) by simp
  have "limbs_ok (mul_rows (Suc i) a b ?o) \<and>
    mval (mul_rows (Suc i) a b ?o) = mval ?o + BASE ^ Suc i * (mval a * mval b)"
  proof -
    have "?o ! j = 0" if "Suc i + length b \<le> j" "j < length ?o" for j
      using that h(2) h(5) [of j] "2.prems"(5) by simp
    moreover have "limbs_ok ?o" using h by (intro limbs_ok_update) simp_all
    ultimately show ?thesis
      using "2.IH" [OF refl r [symmetric] refl] w h(2) "2.prems" by simp
  qed
  then show ?case unfolding step by (simp add: mv algebra_simps)
qed simp

lemma map_w32_limbs: "limbs_ok a \<Longrightarrow> map w32 a = a"
  by (induction a) simp_all

lemma mag_mul [simp, mag_simps]:
  assumes "limbs_ok a" "limbs_ok b"
  shows "mval (mag_mul a b) = mval a * mval b" "mag_norm (mag_mul a b)"
  using mul_rows [of a b "replicate (length a + length b) 0" 0] assms
  by (auto simp: mag_mul_def map_w32_limbs)

section \<open>Powers of ten and division\<close>

lemma BASE_power: "BASE = 10 ^ 9"
  by (simp add: BASE_def)

lemma small_power:
  assumes "r < 9"
  shows "BASE * 10 ^ r < 2 ^ 64"
proof -
  have "(10::nat) ^ r \<le> 10 ^ 8" using assms by (intro power_increasing) simp_all
  then have "BASE * 10 ^ r \<le> BASE * 10 ^ 8" by (rule mult_le_mono2)
  then show ?thesis by (simp add: BASE_def)
qed

lemma mag_mul_pow10 [simp, mag_simps]:
  assumes "mag_norm a"
  shows "mval (mag_mul_pow10 a e) = mval a * 10 ^ e" "mag_norm (mag_mul_pow10 a e)"
proof -
  define full r where "full = e div 9" and "r = e mod 9"
  have e: "e = 9 * full + r" and r: "r < 9" by (simp_all add: full_def r_def)
  have p: "(10::nat) ^ e = BASE ^ full * 10 ^ r"
    by (simp add: e power_add power_mult BASE_power)
  let ?z = "replicate full 0 @ a"
  have z: "limbs_ok ?z" "mval ?z = BASE ^ full * mval a" using assms by simp_all
  have d: "mag_mul_pow10 a e = mag_trim (if 0 < r then mag_mul_small ?z (10 ^ r) else ?z)"
    if "a \<noteq> []" "e \<noteq> 0"
    using that by (simp add: mag_mul_pow10_def Let_def full_def r_def BASE_DIGITS_def)
  show "mval (mag_mul_pow10 a e) = mval a * 10 ^ e"
  proof (cases "a = [] \<or> e = 0")
    case False
    then show ?thesis using d z small_power [OF r] p by (auto simp: algebra_simps)
  qed (auto simp: mag_mul_pow10_def)
  show "mag_norm (mag_mul_pow10 a e)"
  proof (cases "a = [] \<or> e = 0")
    case False
    then show ?thesis using d z small_power [OF r] by simp
  qed (use assms in \<open>auto simp: mag_mul_pow10_def\<close>)
qed

lemma mag_norm_single [simp]: "mag_norm [x] \<longleftrightarrow> x < BASE \<and> x \<noteq> 0"
  by (auto simp: mag_norm_def)

lemma mag_pow10 [simp, mag_simps]: "mval (mag_pow10 e) = 10 ^ e" "mag_norm (mag_pow10 e)"
  by (simp_all add: mag_pow10_def)

lemma quotient_limb:
  assumes "mag_norm den" "mag_norm rm" "lo \<le> hi" "hi < BASE"
    and "mval den * lo \<le> mval rm" "mval rm < mval den * (hi + 1)"
  shows "quotient_limb den rm lo hi = mval rm div mval den"
  using assms
proof (induction den rm lo hi rule: quotient_limb.induct)
  case (1 den rm lo hi)
  show ?case
  proof (cases "lo < hi")
    case False
    then have "hi = lo" using 1 by simp
    moreover have "mval rm div mval den = lo"
      using 1 \<open>hi = lo\<close> by (intro div_nat_eqI) (simp_all add: mult.commute)
    ultimately show ?thesis by (simp add: quotient_limb.simps [of _ _ lo])
  next
    case True
    define mid where "mid = (lo + hi + 1) div 2"
    have mid: "lo < mid" "mid \<le> hi" using True by (auto simp: mid_def)
    have s: "BASE * mid < 2 ^ 64"
      using mid 1 by (simp add: BASE_def)
    have c: "mag_cmp (mag_mul_small den mid) rm \<noteq> Greater \<longleftrightarrow> mval den * mid \<le> mval rm"
      using 1 s by (simp add: not_less)
    show ?thesis
    proof (cases "mval den * mid \<le> mval rm")
      case le: True
      then have "quotient_limb den rm lo hi = quotient_limb den rm mid hi"
        using True c by (simp add: quotient_limb.simps [of _ _ lo hi] mid_def Let_def)
      also have "\<dots> = mval rm div mval den"
        using 1 True le c mid by (intro "1.IH"(1)) (simp_all add: mid_def)
      finally show ?thesis .
    next
      case gt: False
      then have "quotient_limb den rm lo hi = quotient_limb den rm lo (mid - 1)"
        using True c by (simp add: quotient_limb.simps [of _ _ lo hi] mid_def Let_def)
      also have "\<dots> = mval rm div mval den"
      proof -
        have "\<not> mag_cmp (mag_mul_small den mid) rm \<noteq> Greater" "mid - 1 + 1 = mid"
          using c gt mid by simp_all
        with "1.IH"(2) [OF True mid_def this(1) "1.prems"(1,2)] show ?thesis
          using "1.prems" mid gt by (simp add: not_le)
      qed
      finally show ?thesis .
    qed
  qed
qed

lemma div_loop:
  assumes "mag_norm den" "den \<noteq> []" "limbs_ok xs" "mag_norm rm" "mval rm < mval den"
    and "div_loop den xs rm quo = (quo', rm')"
  shows "\<exists>qs. quo' = qs @ quo \<and> limbs_ok qs \<and> mag_norm rm' \<and> mval rm' < mval den
    \<and> length qs = length xs
    \<and> mval den * mval qs + mval rm' = BASE ^ length xs * mval rm + mval (rev xs)"
  using assms
proof (induction xs arbitrary: rm quo)
  case (Cons x xs)
  define rm1 where "rm1 = mag_trim (x # rm)"
  define q where "q = quotient_limb den rm1 0 (BASE - 1)"
  define rm2 where "rm2 = mag_sub rm1 (mag_mul_small den q)"
  have rm1: "mag_norm rm1" "mval rm1 = x + BASE * mval rm"
    using Cons.prems by (simp_all add: rm1_def)
  have lt: "mval rm1 < mval den * BASE"
  proof -
    have "x + BASE * mval rm < BASE * (mval rm + 1)" using Cons.prems by simp
    also have "\<dots> \<le> BASE * mval den" using Cons.prems by (intro mult_le_mono2) simp
    finally show ?thesis by (simp add: rm1 mult.commute)
  qed
  have q: "q = mval rm1 div mval den"
    unfolding q_def using Cons.prems rm1 lt by (intro quotient_limb) simp_all
  have qB: "q < BASE" unfolding q using lt by (simp add: less_mult_imp_div_less mult.commute)
  have s: "BASE * q < 2 ^ 64" using qB by (simp add: BASE_def)
  have le: "mval den * q \<le> mval rm1" unfolding q by simp
  have rm2: "mag_norm rm2" "mval rm2 = mval rm1 mod mval den"
    unfolding rm2_def using Cons.prems rm1 s le
    by (simp_all add: q minus_mult_div_eq_mod [symmetric] mult.commute)
  have pos: "0 < mval den" using mval_pos Cons.prems by blast
  have "div_loop den xs rm2 (q # quo) = (quo', rm')"
    using Cons.prems(6)
    by (simp only: div_loop.simps Let_def rm1_def [symmetric] q_def [symmetric] rm2_def [symmetric]
        w32_limb [OF qB])
  from Cons.IH [OF Cons.prems(1,2) _ rm2(1) _ this] obtain qs where
    qs: "quo' = qs @ q # quo" "limbs_ok qs" "mag_norm rm'" "mval rm' < mval den" "length qs = length xs"
    "mval den * mval qs + mval rm' = BASE ^ length xs * mval rm2 + mval (rev xs)"
    using Cons.prems pos rm2(2) by auto
  have "mval den * q + mval rm2 = x + BASE * mval rm"
    by (simp add: q rm2(2) rm1(2) [symmetric])
  then have "BASE ^ length xs * (mval den * q + mval rm2) = BASE ^ length xs * (x + BASE * mval rm)"
    by simp
  then have "mval den * mval (qs @ [q]) + mval rm' = BASE ^ length (x # xs) * mval rm + mval (rev (x # xs))"
    using qs(5,6) by (simp add: algebra_simps)
  then show ?case using qs qB by (intro exI [of _ "qs @ [q]"]) simp
qed simp

lemma mag_divmod:
  assumes "mag_norm num" "mag_norm den" "den \<noteq> []" "mag_divmod num den = (q, r)"
  shows "mval q = mval num div mval den" "mval r = mval num mod mval den" "mag_norm q" "mag_norm r"
proof -
  have "mval q = mval num div mval den \<and> mval r = mval num mod mval den \<and> mag_norm q \<and> mag_norm r"
  proof (cases "mval num < mval den")
    case True
    then show ?thesis using assms by (auto simp: mag_divmod_def)
  next
    case False
    obtain quo rm where l: "div_loop den (rev num) [] [] = (quo, rm)" by force
    have qr: "q = mag_trim quo" "r = rm" using assms False l by (auto simp: mag_divmod_def)
    have pos: "0 < mval den" using mval_pos assms by blast
    have h: "limbs_ok quo" "mag_norm rm" "mval rm < mval den" "mval den * mval quo + mval rm = mval num"
      using div_loop [OF assms(2,3) _ _ _ l] assms(1) pos by auto
    have "mval num div mval den = mval quo" "mval num mod mval den = mval rm"
      using h(3) unfolding h(4) [symmetric] by simp_all
    then show ?thesis using h qr by simp
  qed
  then show "mval q = mval num div mval den" "mval r = mval num mod mval den" "mag_norm q" "mag_norm r"
    by auto
qed

section \<open>Square root\<close>

text \<open>
  The Newton loop ends because each iterate is below the last in the order \<open>mag_cmp\<close> decides: by length,
  then from the top limb, a well-founded order on lists.
\<close>

lemma cmp_from_top_lex:
  assumes "cmp_from_top i y x = Less" "i \<le> length x" "length x = length y"
  shows "(rev (take i y), rev (take i x)) \<in> lex less_than"
  using assms
proof (induction i)
  case (Suc i)
  have t: "rev (take (Suc i) c) = c ! i # rev (take i c)" if "i < length c" for c :: "nat list"
    using that by (simp add: take_Suc_conv_app_nth)
  show ?case
  proof (cases "y ! i = x ! i")
    case True
    with Suc show ?thesis by (simp add: t)
  next
    case False
    with Suc show ?thesis by (simp add: t)
  qed
qed simp

lemma mag_cmp_less:
  assumes "mag_cmp y x = Less"
  shows "(rev y, rev x) \<in> lenlex less_than"
proof (cases "length y = length x")
  case True
  have "cmp_from_top (length y) y x = Less" using assms unfolding mag_cmp_def by (simp only: True if_False simp_thms)
  then have "(rev (take (length y) y), rev (take (length y) x)) \<in> lex less_than"
    by (rule cmp_from_top_lex) (simp_all only: True order_refl)
  then have "(rev y, rev x) \<in> lex less_than" by (simp only: True take_all order_refl)
  then show ?thesis unfolding lenlex_conv by (simp only: mem_Collect_eq case_prod_conv length_rev True simp_thms)
next
  case False
  then have "length y < length x" using assms by (simp only: mag_cmp_def if_True simp_thms cmp_iff)
  then show ?thesis unfolding lenlex_conv by (simp only: mem_Collect_eq case_prod_conv length_rev simp_thms)
qed

function isqrt_loop :: "mag \<Rightarrow> mag \<Rightarrow> mag" where
  "isqrt_loop n x =
     (let (n_div_x, _) = mag_divmod n x;
          y = fst (mag_divmod (mag_add x n_div_x) [2])
      in if mag_cmp y x \<noteq> Less then x else isqrt_loop n y)"
  by pat_completeness auto

termination
proof (relation "inv_image (lenlex less_than) (\<lambda>(n, x). rev x)")
  show "wf (inv_image (lenlex less_than) (\<lambda>(n::mag, x). rev x))"
    by (intro wf_inv_image wf_lenlex wf_less_than)
next
  fix n x z :: mag and q r y
  assume "\<not> mag_cmp y x \<noteq> Less"
  then have "(rev y, rev x) \<in> lenlex less_than" by (intro mag_cmp_less) blast
  then show "((n, y), (n, x)) \<in> inv_image (lenlex less_than) (\<lambda>(n, x). rev x)"
    by (simp only: in_inv_image split_conv)
qed

declare isqrt_loop.simps [simp del]

definition mag_isqrt :: "mag \<Rightarrow> mag" where
  "mag_isqrt n =
     (if n = [] then []
      else isqrt_loop n (mag_pow10 (w32 (mag_digit_count n + 1) div 2)))"

text \<open>Newton's iteration from above stays above the root and stops on its floor.\<close>

lemma newton_above:
  fixes n x :: nat
  assumes "0 < x"
  shows "n < (((x + n div x) div 2) + 1)\<^sup>2"
proof -
  define q y where "q = n div x" and "y = (x + n div x) div 2"
  have "n = q * x + n mod x" "n mod x < x" using assms by (simp_all add: q_def)
  then have n: "n < (q + 1) * x" by simp
  have s: "x + q + 1 \<le> 2 * (y + 1)" by (simp add: y_def q_def)
  have "int (4 * ((q + 1) * x)) \<le> (int x + int q + 1)\<^sup>2"
    using zero_le_power2 [of "int x - int q - 1"] by (simp add: power2_eq_square algebra_simps)
  then have "4 * ((q + 1) * x) \<le> (x + q + 1)\<^sup>2"
    by (metis of_nat_1 of_nat_add of_nat_le_iff of_nat_power)
  also have "\<dots> \<le> (2 * (y + 1))\<^sup>2" using s by (rule power_mono) simp
  also have "\<dots> = 4 * (y + 1)\<^sup>2" by (simp only: power_mult_distrib) simp
  finally show ?thesis using n by (simp add: y_def)
qed

lemma isqrt_loop:
  assumes "mag_norm n" "mag_norm x" "x \<noteq> []" "n \<noteq> []" "mval n < (mval x + 1)\<^sup>2"
  shows "mag_norm (isqrt_loop n x) \<and> (mval (isqrt_loop n x))\<^sup>2 \<le> mval n
    \<and> mval n < (mval (isqrt_loop n x) + 1)\<^sup>2"
  using assms
proof (induction n x rule: isqrt_loop.induct)
  case (1 n x)
  obtain q r where qr: "mag_divmod n x = (q, r)" by force
  define y where "y = fst (mag_divmod (mag_add x q) [2])"
  obtain r' where yr: "mag_divmod (mag_add x q) [2] = (y, r')" unfolding y_def by (metis prod.collapse)
  have pos: "0 < mval x" "0 < mval n" using 1 mval_pos by blast+
  have q: "mag_norm q" "mval q = mval n div mval x" using mag_divmod [OF _ _ _ qr] 1 by simp_all
  have y: "mag_norm y" "mval y = (mval x + mval n div mval x) div 2"
    using mag_divmod [OF _ _ _ yr] 1 q by (simp_all add: BASE_def)
  have step: "isqrt_loop n x = (if mval x \<le> mval y then x else isqrt_loop n y)"
    using 1 y(1) qr by (simp add: isqrt_loop.simps [of n x] y_def [symmetric] not_less)
  show ?case
  proof (cases "mval x \<le> mval y")
    case True
    then have "mval x \<le> mval n div mval x" using y(2) by simp
    then have "mval x * mval x \<le> mval n"
      by (meson mult_le_mono1 order_trans times_div_less_eq_dividend div_times_less_eq_dividend)
    then show ?thesis using step True 1 by (simp add: power2_eq_square)
  next
    case False
    have "mval n < (mval y + 1)\<^sup>2" unfolding y(2) using pos(1) by (rule newton_above)
    moreover from this have "y \<noteq> []" using pos by (cases y) auto
    moreover have "mag_cmp y x = Less" using 1 y(1) False by simp
    ultimately have "mag_norm (isqrt_loop n y) \<and> (mval (isqrt_loop n y))\<^sup>2 \<le> mval n
        \<and> mval n < (mval (isqrt_loop n y) + 1)\<^sup>2"
      using "1.IH" [OF qr [symmetric] refl y_def] 1 y(1) by simp
    then show ?thesis using step False by simp
  qed
qed

end
