(* ===== verification/Magnitude_Digits.thy ===== *)
theory Magnitude_Digits
  imports Magnitude
begin

text \<open>
  Magnitudes and decimal digits (\<open>decimal.rs\<close>, \<open>mag_to_decimal_str\<close>, \<open>mag_from_decimal_str\<close>,
  \<open>mag_digit_count\<close> and the base \<open>10\<^sup>4\<close> groups of the value codec). Shown: the text of a
  normalized magnitude is that of its value, reading it gives the magnitude back, the digit count
  is that text's length, and the groups determine the magnitude.
\<close>

section \<open>Decimal digits\<close>

lemma limb_of_digits:
  assumes "all_digits s" "length s \<le> 9"
  shows "limb_of_digits s = nat (dval_from 0 s)"
  using assms
proof (induction s rule: rev_induct)
  case (snoc c s)
  have s: "0 \<le> dval_from 0 s" "dval_from 0 s < 10 ^ length s" using dval_bounds [of s] snoc.prems by simp_all
  have "(10::int) ^ length s \<le> 10 ^ 8" using snoc.prems by (intro power_increasing) simp_all
  then have b: "dval_from 0 s < 100000000" using s(2) by simp
  have c: "0 \<le> digit_val c" "digit_val c \<le> 9" using digit_val_range snoc.prems by simp_all
  have "limb_of_digits (s @ [c]) = w32 (w32 (nat (dval_from 0 s) * 10) + nat (digit_val c))"
    using snoc by (simp add: limb_of_digits_def)
  also have "\<dots> = nat (dval_from 0 s) * 10 + nat (digit_val c)"
    using s(1) b c by (simp add: w32_id)
  finally show ?case using s c by (simp add: nat_add_distrib nat_mult_distrib)
qed (simp add: limb_of_digits_def)

lemma from_digits_loop:
  "all_digits s \<Longrightarrow> int (mval (from_digits_loop s)) = dval_from 0 s \<and> limbs_ok (from_digits_loop s)"
proof (induction s rule: from_digits_loop.induct)
  case (1 s)
  show ?case
  proof (cases "s = []")
    case False
    define k where "k = length s - 9"
    have k: "s = take k s @ drop k s" "length (drop k s) \<le> 9" by (simp_all add: k_def)
    have d: "all_digits (take k s)" "all_digits (drop k s)"
      using "1.prems" by (metis append_take_drop_id all_digits_simps(3))+
    have IH: "int (mval (from_digits_loop (take k s))) = dval_from 0 (take k s)"
      "limbs_ok (from_digits_loop (take k s))"
      using 1 False d by (simp_all add: k_def BASE_DIGITS_def)
    have step: "from_digits_loop s = limb_of_digits (drop k s) # from_digits_loop (take k s)"
      using False by (simp add: from_digits_loop.simps [of s] k_def BASE_DIGITS_def Let_def)
    have b: "0 \<le> dval_from 0 (drop k s)" "dval_from 0 (drop k s) < 10 ^ length (drop k s)"
      using dval_bounds [OF d(2)] by simp_all
    have "(10::int) ^ length (drop k s) \<le> 10 ^ 9" using k(2) by (intro power_increasing) simp_all
    then have lt: "dval_from 0 (drop k s) < int BASE" using b(2) by (simp add: BASE_def)
    have v: "dval_from 0 s = dval_from 0 (take k s) * 10 ^ length (drop k s) + dval_from 0 (drop k s)"
      using dval_simps(3) [of 0 "take k s" "drop k s"] dval_from_shift [of "dval_from 0 (take k s)" "drop k s"]
      by simp
    have w: "dval_from 0 (take k s) * 10 ^ length (drop k s) = int BASE * dval_from 0 (take k s)"
    proof (cases "length s \<le> 9")
      case True
      then show ?thesis by (simp add: k_def)
    next
      case False
      then have "length (drop k s) = 9" by (simp add: k_def)
      then show ?thesis by (simp add: BASE_def)
    qed
    have "dval_from 0 s = int BASE * dval_from 0 (take k s) + dval_from 0 (drop k s)"
      using v w by simp
    moreover have "nat (dval_from 0 (drop k s)) < BASE" using b(1) lt by linarith
    ultimately show ?thesis unfolding step using IH limb_of_digits [OF d(2) k(2)] b(1) by simp
  qed (simp add: from_digits_loop.simps)
qed

lemma filter_all_digits [simp]: "all_digits s \<Longrightarrow> filter is_digit s = s"
  by (simp add: all_digits_def filter_id_conv list_all_iff)

lemma mag_from_decimal_str [simp, mag_simps]:
  assumes "all_digits s"
  shows "mval (mag_from_decimal_str s) = nat (dval_from 0 s)" "mag_norm (mag_from_decimal_str s)"
  using from_digits_loop [OF assms] assms by (auto simp: mag_from_decimal_str_def)

lemma dval_limbs:
  "limbs_ok xs \<Longrightarrow> all_digits (concat (map (\<lambda>l. pad 9 (int l)) (rev xs))) \<and>
    length (concat (map (\<lambda>l. pad 9 (int l)) (rev xs))) = 9 * length xs \<and>
    dval_from v (concat (map (\<lambda>l. pad 9 (int l)) (rev xs))) = v * int BASE ^ length xs + int (mval xs)"
proof (induction xs arbitrary: v)
  case (Cons x xs)
  have l: "length (pad 9 (int x)) = 9" using Cons.prems by (intro length_pad) (simp_all add: BASE_def)
  have "dval_from w (pad 9 (int x)) = w * int BASE + int x" for w
    using dval_from_shift [of w "pad 9 (int x)"] l by (simp add: BASE_def)
  with Cons l show ?case by (simp add: algebra_simps)
qed simp

lemma mag_to_decimal_str: "mag_norm a \<Longrightarrow> mag_to_decimal_str a = dec_str (mval a)"
proof (cases "a = []")
  case False
  assume n: "mag_norm a"
  define x xs where "x = last a" and "xs = butlast a"
  have a: "a = xs @ [x]" using False by (simp add: x_def xs_def)
  have ok: "limbs_ok xs" "x < BASE" "0 < x" using n unfolding a by simp_all
  let ?s = "dec_str x @ concat (map (\<lambda>l. pad 9 (int l)) (rev xs))"
  have "all_digits ?s" "?s \<noteq> []" "hd ?s \<noteq> CHR ''0''"
    using dval_limbs [OF ok(1)] dec_str_ok [of x] hd_dec_str [OF ok(3)] by simp_all
  then have u: "dec_str (nat (dval_from 0 ?s)) = ?s" by (intro dec_str_unique) simp_all
  have "dval_from 0 ?s = int (mval a)"
    using dval_limbs [OF ok(1)] dec_str_ok [of x] by (simp add: a algebra_simps)
  then have "nat (dval_from 0 ?s) = mval a" by (simp only: nat_int)
  with u have "dec_str (mval a) = ?s" by (simp only:)
  then show ?thesis by (simp add: mag_to_decimal_str_def a)
qed (simp add: mag_to_decimal_str_def)

text \<open>Coefficients below \<open>2\<^sup>2\<^sup>8\<close> limbs (two billion digits): the \<open>u32\<close> digit count is exact.\<close>

lemma mag_digit_count:
  assumes "mag_norm a" "length a < 2 ^ 28"
  shows "mag_digit_count a = (if a = [] then 0 else length (dec_str (mval a)))"
proof (cases "a = []")
  case False
  define x xs where "x = last a" and "xs = butlast a"
  have a: "a = xs @ [x]" using False by (simp add: x_def xs_def)
  have ok: "limbs_ok xs" "x < BASE" "0 < x" using assms(1) unfolding a by simp_all
  have l: "length (dec_str x) \<le> 9" using ok(2) by (intro length_dec_str) (simp_all add: BASE_def)
  have "length (dec_str (mval a)) = length (mag_to_decimal_str a)"
    using assms by (simp add: mag_to_decimal_str)
  also have "\<dots> = length (dec_str x) + 9 * length xs"
    using dval_limbs [OF ok(1)] by (simp add: mag_to_decimal_str_def a)
  finally have "length (dec_str (mval a)) = length (dec_str x) + 9 * length xs" .
  moreover have "length xs < 2 ^ 28" using assms(2) a by simp
  ultimately show ?thesis using l by (simp add: mag_digit_count_def a w32_id BASE_DIGITS_def)
qed (simp add: mag_digit_count_def)

section \<open>Groups of four digits\<close>

lemma groups_of:
  assumes "length s mod 4 = 0" "all_digits s"
  shows "concat (map (\<lambda>g. pad 4 (int g)) (groups_of s)) = s \<and> (\<forall>g \<in> set (groups_of s). g < 10000)"
  using assms
proof (induction s rule: groups_of.induct)
  case (1 a b c d s)
  let ?t = "[a, b, c, d]"
  define g where "g = foldl (\<lambda>g b. g * 10 + nat (digit_val b)) 0 ?t"
  have "int (foldl (\<lambda>g b. g * 10 + nat (digit_val b)) n t) = dval_from (int n) t" if "all_digits t" for n t
    using that by (induction t arbitrary: n) (auto simp: digit_val_range)
  from this [of ?t 0] have g: "int g = dval_from 0 ?t" using 1 by (simp add: g_def)
  have b: "int g < 10000" using dval_bounds [of ?t] 1 g by simp
  have "length (pad 4 (int g)) = 4" using b by (intro length_pad) simp_all
  then have "pad 4 (int g) = ?t" using 1 g by (intro dval_eqD) simp_all
  then show ?case using 1 b by (simp add: g_def [symmetric] del: foldl.simps)
qed auto

lemma pad_to_4: "((4 - n mod 4) mod 4 + n) mod 4 = (0 :: nat)"
proof -
  define r where "r = n mod 4"
  have "r = 0 \<or> r = 1 \<or> r = 2 \<or> r = 3" unfolding r_def by linarith
  then have "((4 - r) mod 4 + r) mod 4 = 0" by (elim disjE) simp_all
  moreover have "((4 - r) mod 4 + n) mod 4 = ((4 - r) mod 4 + r) mod 4"
    unfolding r_def by (rule mod_add_right_eq [symmetric])
  ultimately show ?thesis by (simp only: r_def)
qed

lemma mag_nbase4_roundtrip:
  assumes "mag_norm a"
  shows "mag_from_nbase4 (mag_to_nbase4 a) = a" "\<forall>g \<in> set (mag_to_nbase4 a). g < 10000"
proof -
  have "mag_from_nbase4 (mag_to_nbase4 a) = a \<and> (\<forall>g \<in> set (mag_to_nbase4 a). g < 10000)"
  proof (cases "a = []")
    case False
    define s where "s = dec_str (mval a)"
    define t where "t = replicate ((4 - length s mod 4) mod 4) (CHR ''0'') @ s"
    have s: "all_digits s" "s \<noteq> []" "dval_from 0 s = int (mval a)"
      using dec_str_ok [of "mval a"] by (simp_all add: s_def)
    have p: "((4 - length s mod 4) mod 4 + length s) mod 4 = 0" by (rule pad_to_4)
    have t: "length t mod 4 = 0"
      using p by (simp only: t_def length_append length_replicate)
    have t': "all_digits t" "dval_from 0 t = int (mval a)" "t \<noteq> []"
      using s by (simp_all add: t_def)
    have gs: "mag_to_nbase4 a = groups_of t"
      using assms False by (simp add: mag_to_nbase4_def mag_to_decimal_str s_def [symmetric] t_def Let_def)
    note h = groups_of [OF t t'(1)]
    obtain g r where g: "groups_of t = g # r" using h t'(3) by (cases "groups_of t") simp_all
    let ?u = "dec_str g @ concat (map (\<lambda>g. pad 4 (int g)) r)"
    have ad: "all_digits (concat (map (\<lambda>g. pad 4 (int g)) r))" by (induction r) simp_all
    have "dval_from 0 ?u = dval_from 0 (concat (map (\<lambda>g. pad 4 (int g)) (groups_of t)))"
      using dec_str_ok [of g] by (simp add: g)
    also have "\<dots> = int (mval a)" using h t'(2) by (simp only:)
    finally have u: "dval_from 0 ?u = int (mval a)" .
    have au: "all_digits ?u" using dec_str_ok [of g] ad by simp
    have "mag_from_nbase4 (mag_to_nbase4 a) = a"
      unfolding gs g mag_from_nbase4.simps
      by (rule mag_eqI) (simp_all only: mag_from_decimal_str [OF au] u assms nat_int)
    with h show ?thesis unfolding gs by simp
  qed (simp add: mag_to_nbase4_def)
  then show "mag_from_nbase4 (mag_to_nbase4 a) = a" "\<forall>g \<in> set (mag_to_nbase4 a). g < 10000" by auto
qed

end
