(* ===== verification/Decimals.thy ===== *)
theory Decimals
  imports Magnitude_Digits Complex_Main
begin

text \<open>
  Exact decimals (\<open>decimal.rs\<close>): sign, display scale and base \<open>10\<^sup>9\<close> coefficient, with the
  arithmetic, rounding, comparison and canonical form of the source. The specification reads a
  decimal as a rational number. Shown: every operation of a value within the format caps gives the
  exact (or exactly rounded, half away from zero) result, or \<open>22003\<close> exactly when that result is
  outside the caps. Digit counts and scales are \<open>u32\<close> with the wrap written out. Not modelled:
  the conversions from binary floating point and the logarithm, exponential and power kernels.
\<close>

section \<open>Model\<close>

definition MAX_PRECISION :: nat where "MAX_PRECISION = 1000"
definition MAX_INT_DIGITS :: nat where "MAX_INT_DIGITS = 131072"
definition MAX_SCALE :: nat where "MAX_SCALE = 16383"

record decimal =
  neg :: bool
  scale :: nat
  limbs :: mag

definition decimal_overflow :: engine_error where
  "decimal_overflow = (NumericValueOutOfRange, ''value out of range for type decimal'')"

definition div_by_zero :: engine_error where
  "div_by_zero = (DivisionByZero, ''division by zero'')"

definition from_parts :: "bool \<Rightarrow> nat \<Rightarrow> mag \<Rightarrow> decimal" where
  "from_parts ng sc ls =
     (let ls = mag_trim ls in \<lparr> neg = (ng \<and> ls \<noteq> []), scale = sc, limbs = ls \<rparr>)"

definition dec_zero :: "nat \<Rightarrow> decimal" where
  "dec_zero sc = \<lparr> neg = False, scale = sc, limbs = [] \<rparr>"

definition from_i64 :: "int \<Rightarrow> decimal" where
  "from_i64 v = from_parts (v < 0) 0 (mag_from_u64 (nat \<bar>v\<bar>))"

definition from_digits_scale :: "bool \<Rightarrow> string \<Rightarrow> nat \<Rightarrow> decimal" where
  "from_digits_scale ng digits sc = from_parts ng sc (mag_from_decimal_str digits)"

definition is_zero :: "decimal \<Rightarrow> bool" where "is_zero d \<longleftrightarrow> limbs d = []"

definition precision :: "decimal \<Rightarrow> nat" where "precision d = mag_digit_count (limbs d)"

definition check_cap :: "decimal \<Rightarrow> decimal result" where
  "check_cap d =
     (if precision d - scale d > MAX_INT_DIGITS \<or> scale d > MAX_SCALE then Inl decimal_overflow
      else Inr d)"

fun strip_zeros :: "string \<Rightarrow> nat \<Rightarrow> string \<times> nat" where
  "strip_zeros digits 0 = (digits, 0)"
| "strip_zeros digits (Suc sc) =
     (if digits \<noteq> [] \<and> last digits = CHR ''0'' then strip_zeros (butlast digits) sc
      else (digits, Suc sc))"

definition canonical :: "decimal \<Rightarrow> bool \<times> mag \<times> nat" where
  "canonical d =
     (if limbs d = [] then (False, [], 0)
      else let (digits, sc) = strip_zeros (mag_to_decimal_str (limbs d)) (scale d)
           in (neg d, mag_from_decimal_str digits, sc))"

definition canonical_digits :: "decimal \<Rightarrow> bool \<times> string \<times> nat" where
  "canonical_digits d = (let (ng, ls, sc) = canonical d in (ng, mag_to_decimal_str ls, sc))"

text \<open>\<open>PartialEq\<close> of \<open>Decimal\<close>.\<close>

definition dec_eq :: "decimal \<Rightarrow> decimal \<Rightarrow> bool" where
  "dec_eq a b \<longleftrightarrow> canonical a = canonical b"

definition cmp_value :: "decimal \<Rightarrow> decimal \<Rightarrow> ordering" where
  "cmp_value a b =
     (if neg a \<noteq> neg b then (if neg a then Less else Greater)
      else let s = max (scale a) (scale b);
               m = mag_cmp (mag_mul_pow10 (limbs a) (s - scale a)) (mag_mul_pow10 (limbs b) (s - scale b))
           in if neg a then ordering_reverse m else m)"

definition render_decimal :: "decimal \<Rightarrow> string" where
  "render_decimal d =
     (let digits = mag_to_decimal_str (limbs d);
          sign = (if neg d then ''-'' else '''')
      in if scale d = 0 then sign @ digits
         else let want = scale d + 1;
                  padded = (if length digits < want
                            then replicate (want - length digits) (CHR ''0'') @ digits else digits);
                  point = length padded - scale d
              in sign @ take point padded @ ''.'' @ drop point padded)"

definition dec_neg :: "decimal \<Rightarrow> decimal" where
  "dec_neg d = from_parts (\<not> neg d) (scale d) (limbs d)"

definition add_uncapped :: "decimal \<Rightarrow> decimal \<Rightarrow> decimal" where
  "add_uncapped x y =
     (let s = max (scale x) (scale y);
          a = mag_mul_pow10 (limbs x) (s - scale x);
          b = mag_mul_pow10 (limbs y) (s - scale y)
      in if neg x = neg y then from_parts (neg x) s (mag_add a b)
         else (case mag_cmp a b of
                 Equal \<Rightarrow> dec_zero s
               | Greater \<Rightarrow> from_parts (neg x) s (mag_sub a b)
               | Less \<Rightarrow> from_parts (neg y) s (mag_sub b a)))"

definition dec_add :: "decimal \<Rightarrow> decimal \<Rightarrow> decimal result" where
  "dec_add x y = check_cap (add_uncapped x y)"

definition dec_sub :: "decimal \<Rightarrow> decimal \<Rightarrow> decimal result" where
  "dec_sub x y = dec_add x (dec_neg y)"

definition sub_uncapped :: "decimal \<Rightarrow> decimal \<Rightarrow> decimal" where
  "sub_uncapped x y = add_uncapped x (dec_neg y)"

text \<open>
  The rounding step that \<open>div\<close>, \<open>round_to_scale\<close>, \<open>round_places\<close>, \<open>round_var\<close> and \<open>div_var\<close>
  repeat: the quotient, one larger when twice the remainder reaches the divisor.
\<close>

definition rounded_quotient :: "mag \<Rightarrow> mag \<Rightarrow> mag" where
  "rounded_quotient numer denom =
     (let (q, r) = mag_divmod numer denom
      in if mag_cmp (mag_add r r) denom \<noteq> Less then mag_add q [1] else q)"

definition round_to_scale :: "decimal \<Rightarrow> nat \<Rightarrow> decimal" where
  "round_to_scale d target =
     (if scale d \<le> target
      then from_parts (neg d) target (mag_mul_pow10 (limbs d) (target - scale d))
      else from_parts (neg d) target (rounded_quotient (limbs d) (mag_pow10 (scale d - target))))"

definition dec_mul :: "decimal \<Rightarrow> decimal \<Rightarrow> decimal result" where
  "dec_mul x y =
     (let sc = w32 (scale x + scale y);
          ng = (neg x \<noteq> neg y);
          exact = from_parts ng sc (mag_mul (limbs x) (limbs y));
          r = (if sc > MAX_SCALE then round_to_scale exact MAX_SCALE else exact)
      in check_cap r)"

definition nbase4_weight_lead :: "decimal \<Rightarrow> int \<times> int" where
  "nbase4_weight_lead d =
     (if is_zero d then (0, 0)
      else let digits = int (precision d);
               e = digits - 1 - int (scale d);
               w = e div 4;
               g = nat (e - 4 * w + 1);
               s = mag_to_decimal_str (limbs d);
               f = foldl (\<lambda>f i. f * 10 + (if i < length s then digit_val (s ! i) else 0)) 0 [0..<g]
           in (w, f))"

definition select_div_scale :: "decimal \<Rightarrow> decimal \<Rightarrow> nat" where
  "select_div_scale a b =
     (let (w1, f1) = nbase4_weight_lead a; (w2, f2) = nbase4_weight_lead b;
          qweight = w1 - w2;
          qweight = (if f1 \<le> f2 then qweight - 1 else qweight);
          rscale = 16 - 4 * qweight;
          rscale = max (max (max rscale (int (scale a))) (int (scale b))) 0;
          rscale = min rscale (int MAX_PRECISION)
      in nat rscale)"

text \<open>The shift \<open>e\<close> goes to the dividend when it is not negative, to the divisor otherwise.\<close>

definition shifted_quotient :: "decimal \<Rightarrow> decimal \<Rightarrow> int \<Rightarrow> mag" where
  "shifted_quotient x y rscale =
     (let e = rscale + int (scale y) - int (scale x)
      in if 0 \<le> e then rounded_quotient (mag_mul_pow10 (limbs x) (w32 (nat e))) (limbs y)
         else rounded_quotient (limbs x) (mag_mul_pow10 (limbs y) (w32 (nat (- e)))))"

definition dec_div :: "decimal \<Rightarrow> decimal \<Rightarrow> decimal result" where
  "dec_div x y =
     (if is_zero y then Inl div_by_zero
      else let rscale = select_div_scale x y
           in if is_zero x then Inr (dec_zero rscale)
              else check_cap (from_parts (neg x \<noteq> neg y) rscale (shifted_quotient x y (int rscale))))"

definition dec_rem :: "decimal \<Rightarrow> decimal \<Rightarrow> decimal result" where
  "dec_rem x y =
     (if is_zero y then Inl div_by_zero
      else let s = max (scale x) (scale y);
               a = mag_mul_pow10 (limbs x) (s - scale x);
               b = mag_mul_pow10 (limbs y) (s - scale y)
           in Inr (from_parts (neg x) s (snd (mag_divmod a b))))"

definition dec_abs :: "decimal \<Rightarrow> decimal" where
  "dec_abs d = from_parts False (scale d) (limbs d)"

definition round_places :: "decimal \<Rightarrow> int \<Rightarrow> decimal result" where
  "round_places d n =
     (if 0 \<le> n then check_cap (round_to_scale d (nat (min n (int MAX_SCALE))))
      else let k = min (nat \<bar>n\<bar>) (w32 (precision d + 1));
               drp = w32 (scale d + k);
               q = rounded_quotient (limbs d) (mag_pow10 drp)
           in check_cap (from_parts (neg d) 0 (mag_mul_pow10 q k)))"

definition trunc_to_scale :: "decimal \<Rightarrow> nat \<Rightarrow> decimal" where
  "trunc_to_scale d target =
     (if scale d \<le> target
      then from_parts (neg d) target (mag_mul_pow10 (limbs d) (target - scale d))
      else from_parts (neg d) target (fst (mag_divmod (limbs d) (mag_pow10 (scale d - target)))))"

definition trunc_places :: "decimal \<Rightarrow> int \<Rightarrow> decimal" where
  "trunc_places d n =
     (if 0 \<le> n then trunc_to_scale d (nat (min n (int MAX_SCALE)))
      else let k = min (nat \<bar>n\<bar>) (w32 (precision d + 1));
               q = fst (mag_divmod (limbs d) (mag_pow10 (w32 (scale d + k))))
           in from_parts (neg d) 0 (mag_mul_pow10 q k))"

definition round_to_bound :: "decimal \<Rightarrow> bool \<Rightarrow> decimal result" where
  "round_to_bound d toward_neg =
     (if scale d = 0 then Inr d
      else let (q, r) = mag_divmod (limbs d) (mag_pow10 (scale d));
               has_frac = list_ex (\<lambda>x. x \<noteq> 0) r;
               q = (if has_frac \<and> neg d = toward_neg then mag_add q [1] else q)
           in check_cap (from_parts (neg d) 0 q))"

definition dec_ceil :: "decimal \<Rightarrow> decimal result" where "dec_ceil d = round_to_bound d False"
definition dec_floor :: "decimal \<Rightarrow> decimal result" where "dec_floor d = round_to_bound d True"

text \<open>The subtraction of the scale is one of 32-bit integers, which wraps.\<close>

definition coerce_to_typmod :: "decimal \<Rightarrow> nat \<Rightarrow> nat \<Rightarrow> decimal result" where
  "coerce_to_typmod d prec sc =
     (let rounded = round_to_scale d sc;
          int_digits = precision rounded - sc
      in if int_digits > w32 (prec + 2 ^ 32 - sc) then Inl decimal_overflow else Inr rounded)"

definition I64_TOP :: int where "I64_TOP = 2 ^ 63 - 1"

definition i128_opt :: "int \<Rightarrow> int option" where
  "i128_opt v = (if - (2 ^ 127) \<le> v \<and> v < 2 ^ 127 then Some v else None)"

fun i64_fold :: "int \<Rightarrow> mag \<Rightarrow> int option" where
  "i64_fold v [] = Some v"
| "i64_fold v (limb # ls) =
     (case Option.bind (i128_opt (v * int BASE)) (\<lambda>v. i128_opt (v + int limb)) of
        None \<Rightarrow> None
      | Some v \<Rightarrow> if v > I64_TOP + 1 then None else i64_fold v ls)"

definition to_i64_round :: "decimal \<Rightarrow> int option" where
  "to_i64_round d =
     (let r = round_to_scale d 0
      in Option.bind (i64_fold 0 (rev (limbs r))) (\<lambda>v.
           let signed = (if neg r then - v else v)
           in if - I64_TOP - 1 \<le> signed \<and> signed \<le> I64_TOP then Some signed else None))"

definition to_codec :: "decimal \<Rightarrow> bool \<times> nat \<times> nat list" where
  "to_codec d = (neg d, scale d, mag_to_nbase4 (limbs d))"

definition codec_group_count :: "decimal \<Rightarrow> nat" where
  "codec_group_count d =
     (if limbs d = [] then 0
      else let top = last (limbs d);
               top_digits = (if top = 0 then 1 else length (dec_str top))
           in (9 * (length (limbs d) - 1) + top_digits + 3) div 4)"

definition from_codec :: "bool \<Rightarrow> nat \<Rightarrow> nat list \<Rightarrow> decimal" where
  "from_codec ng sc groups = from_parts ng sc (mag_from_nbase4 groups)"

text \<open>Work measures of the cost model, in groups of four digits.\<close>

definition groups :: "nat \<Rightarrow> nat" where "groups n = max ((n + 3) div 4) 1"

definition aligned_digits :: "decimal \<Rightarrow> decimal \<Rightarrow> nat \<times> nat" where
  "aligned_digits a b =
     (let s = max (scale a) (scale b)
      in (w32 (precision a + (s - scale a)), w32 (precision b + (s - scale b))))"

definition work_linear :: "decimal \<Rightarrow> decimal \<Rightarrow> nat" where
  "work_linear a b = (let (a1, a2) = aligned_digits a b in max (groups a1) (groups a2))"

definition work_mul :: "decimal \<Rightarrow> decimal \<Rightarrow> nat" where
  "work_mul a b = w64 (groups (precision a) * groups (precision b))"

definition work_div :: "decimal \<Rightarrow> decimal \<Rightarrow> nat" where
  "work_div a b =
     (if is_zero b then 1
      else let rscale = select_div_scale a b; e = int rscale + int (scale b) - int (scale a)
           in if 0 \<le> e then w64 (groups (w32 (precision a + w32 (nat e))) * groups (precision b))
              else w64 (groups (precision a) * groups (w32 (precision b + w32 (nat (- e))))))"

definition work_mod :: "decimal \<Rightarrow> decimal \<Rightarrow> nat" where
  "work_mod a b =
     (if is_zero b then 1
      else let (a1, a2) = aligned_digits a b in w64 (groups a1 * groups a2))"

text \<open>The unrounded and rounded forms the square root kernel uses.\<close>

definition mul_exact :: "decimal \<Rightarrow> decimal \<Rightarrow> decimal" where
  "mul_exact x y = from_parts (neg x \<noteq> neg y) (w32 (scale x + scale y)) (mag_mul (limbs x) (limbs y))"

definition round_var :: "decimal \<Rightarrow> int \<Rightarrow> decimal" where
  "round_var d rscale =
     (if 0 \<le> rscale then round_to_scale d (w32 (nat rscale))
      else let k = w32 (nat (- rscale));
               drp = w32 (scale d + k);
               q = rounded_quotient (limbs d) (mag_pow10 drp)
           in from_parts (neg d) 0 (mag_mul_pow10 q k))"

definition mul_var :: "decimal \<Rightarrow> decimal \<Rightarrow> int \<Rightarrow> decimal" where
  "mul_var x y rscale = round_var (mul_exact x y) rscale"

definition div_var :: "decimal \<Rightarrow> decimal \<Rightarrow> int \<Rightarrow> decimal result" where
  "div_var x y rscale =
     (if is_zero y then Inl div_by_zero
      else if is_zero x then Inr (dec_zero (w32 (nat (max rscale 0))))
      else Inr (from_parts (neg x \<noteq> neg y) (w32 (nat (max rscale 0))) (shifted_quotient x y rscale)))"

definition div_var_int :: "decimal \<Rightarrow> int \<Rightarrow> int \<Rightarrow> decimal result" where
  "div_var_int x ival rscale = div_var x (from_i64 ival) rscale"

definition to_i32_if_integer :: "decimal \<Rightarrow> int option" where
  "to_i32_if_integer d =
     (if cmp_value (trunc_to_scale d 0) d \<noteq> Equal then None
      else Option.bind (to_i64_round d)
             (\<lambda>v. if - (2 ^ 31) \<le> v \<and> v < 2 ^ 31 then Some v else None))"

definition nbase_weight :: "decimal \<Rightarrow> int" where
  "nbase_weight d =
     (if is_zero d then 0 else (int (precision d) - 1 - int (scale d)) div 4)"

definition sqrt_negative :: engine_error where
  "sqrt_negative = (InvalidArgumentForPowerFunction, ''cannot take square root of a negative number'')"

definition sqrt_var :: "decimal \<Rightarrow> int \<Rightarrow> decimal result" where
  "sqrt_var d rscale =
     (if is_zero d then Inr (dec_zero (w32 (nat (max rscale 0))))
      else if neg d then Inl sqrt_negative
      else let s = int (scale d);
               kc = max rscale 0 + 1;
               kc = (if 2 * kc < s then (s + 1) div 2 + 1 else kc);
               e = 2 * kc - s;
               n = mag_mul_pow10 (limbs d) (w32 (nat e));
               g = mag_isqrt n
           in Inr (round_var (from_parts False (w32 (nat kc)) g) rscale))"

definition MIN_SIG_DIGITS :: int where "MIN_SIG_DIGITS = 16"

definition dec_sqrt :: "decimal \<Rightarrow> decimal result" where
  "dec_sqrt d =
     (let sweight = nbase_weight d * 4 div 2 + 1;
          rscale = MIN_SIG_DIGITS - sweight;
          rscale = min (max (max rscale (int (scale d))) 0) (int MAX_PRECISION)
      in res_bind (sqrt_var d rscale) check_cap)"


section \<open>Values\<close>

definition sgn_of :: "bool \<Rightarrow> rat" where "sgn_of n = (if n then - 1 else 1)"

definition dec_val :: "decimal \<Rightarrow> rat" where
  "dec_val d = sgn_of (neg d) * of_nat (mval (limbs d)) / 10 ^ scale d"

definition dec_norm :: "decimal \<Rightarrow> bool" where
  "dec_norm d \<longleftrightarrow> mag_norm (limbs d) \<and> (neg d \<longrightarrow> limbs d \<noteq> [])"

text \<open>A value the integer-digit cap admits, and a decimal within both caps.\<close>

definition fits :: "rat \<Rightarrow> bool" where "fits v \<longleftrightarrow> \<bar>v\<bar> < 10 ^ MAX_INT_DIGITS"

definition dec_ok :: "decimal \<Rightarrow> bool" where
  "dec_ok d \<longleftrightarrow> dec_norm d \<and> scale d \<le> MAX_SCALE \<and> fits (dec_val d)"

text \<open>
  A rational rounded to a multiple of \<open>u\<close>, half away from zero, and truncated to one. The unit of
  \<open>k\<close> decimal places is \<open>1 / 10 ^ k\<close>.
\<close>

definition round_half :: "rat \<Rightarrow> rat \<Rightarrow> rat" where
  "round_half u v = sgn v * of_int \<lfloor>\<bar>v\<bar> / u + 1 / 2\<rfloor> * u"

definition trunc_unit :: "rat \<Rightarrow> rat \<Rightarrow> rat" where
  "trunc_unit u v = sgn v * of_int \<lfloor>\<bar>v\<bar> / u\<rfloor> * u"

text \<open>
  What a capped operation returns when its mathematical result is \<open>v\<close> at scale \<open>s\<close>: that
  decimal within the caps, and the overflow error exactly outside them.
\<close>

definition returns :: "decimal result \<Rightarrow> rat \<Rightarrow> nat \<Rightarrow> bool" where
  "returns r v s \<longleftrightarrow>
     (if fits v then \<exists>d. r = Inr d \<and> dec_ok d \<and> dec_val d = v \<and> scale d = s
      else r = Inl decimal_overflow)"

lemma sgn_of_simps [simp]:
  "sgn_of False = 1" "sgn_of True = - 1" "\<bar>sgn_of n\<bar> = 1" "sgn_of n \<noteq> 0"
  "sgn_of (n \<noteq> m) = sgn_of n * sgn_of m" "sgn_of (n = (\<not> m)) = sgn_of n * sgn_of m" "sgn_of (\<not> n) = - sgn_of n"
  by (auto simp: sgn_of_def)

lemma dec_norm_limbs [simp]: "dec_norm d \<Longrightarrow> mag_norm (limbs d)" "dec_norm d \<Longrightarrow> limbs_ok (limbs d)"
  by (simp_all add: dec_norm_def)

lemma dec_ok_norm [simp]: "dec_ok d \<Longrightarrow> dec_norm d" "dec_ok d \<Longrightarrow> scale d \<le> MAX_SCALE"
  by (simp_all add: dec_ok_def)

lemma is_zero_iff [simp]: "dec_norm d \<Longrightarrow> is_zero d \<longleftrightarrow> dec_val d = 0"
  by (auto simp: is_zero_def dec_val_def dec_norm_def)

lemma abs_dec_val: "\<bar>dec_val d\<bar> = of_nat (mval (limbs d)) / 10 ^ scale d"
  by (simp add: dec_val_def abs_mult)

lemma sgn_dec_val: "dec_norm d \<Longrightarrow> limbs d \<noteq> [] \<Longrightarrow> sgn (dec_val d) = sgn_of (neg d)"
proof -
  assume n: "dec_norm d" "limbs d \<noteq> []"
  then have "0 < mval (limbs d)" using mval_pos by simp
  then show ?thesis by (cases "neg d") (simp_all add: dec_val_def)
qed

lemma from_parts_norm [simp]: "limbs_ok l \<Longrightarrow> dec_norm (from_parts n s l)"
  by (simp add: from_parts_def dec_norm_def Let_def)

lemma from_parts_sel [simp]: "scale (from_parts n s l) = s" "limbs (from_parts n s l) = mag_trim l"
  by (simp_all add: from_parts_def Let_def)

lemma from_parts_val: "limbs_ok l \<Longrightarrow> dec_val (from_parts n s l) = sgn_of n * of_nat (mval l) / 10 ^ s"
proof -
  assume l: "limbs_ok l"
  have "mval l = 0" if "mag_trim l = []" using that mval_trim [of l] by simp
  then show ?thesis by (cases "mag_trim l = []") (simp_all add: dec_val_def from_parts_def Let_def)
qed

lemma dec_zero [simp]:
  "dec_val (dec_zero s) = 0" "dec_norm (dec_zero s)" "scale (dec_zero s) = s" "limbs (dec_zero s) = []"
  "neg (dec_zero s) = False"
  by (simp_all add: dec_zero_def dec_val_def dec_norm_def)

lemma dec_neg [simp]:
  assumes "dec_norm d"
  shows "dec_val (dec_neg d) = - dec_val d" "dec_norm (dec_neg d)" "scale (dec_neg d) = scale d"
    "limbs (dec_neg d) = limbs d"
  using assms by (simp_all add: dec_neg_def from_parts_val) (simp add: dec_val_def)

lemma dec_abs [simp]:
  assumes "dec_norm d"
  shows "dec_val (dec_abs d) = \<bar>dec_val d\<bar>" "dec_norm (dec_abs d)" "scale (dec_abs d) = scale d"
  using assms by (simp_all add: dec_abs_def from_parts_val abs_dec_val)

text \<open>Two normal decimals of one scale with one value are the same decimal.\<close>

lemma dec_eqI:
  assumes "dec_norm a" "dec_norm b" "scale a = scale b" "dec_val a = dec_val b"
  shows "a = b"
proof -
  have "\<bar>dec_val a\<bar> = \<bar>dec_val b\<bar>" using assms(4) by simp
  then have "mval (limbs a) = mval (limbs b)" using assms(3) by (simp add: abs_dec_val)
  then have l: "limbs a = limbs b" using assms by (intro mag_eqI) simp_all
  have "neg a = neg b"
  proof (cases "limbs a = []")
    case True
    then show ?thesis using assms(1,2) l by (simp add: dec_norm_def)
  next
    case False
    then have "sgn_of (neg a) = sgn_of (neg b)"
      using sgn_dec_val [OF assms(1)] sgn_dec_val [OF assms(2)] l assms(4) by simp
    then show ?thesis by (auto simp: sgn_of_def split: if_splits)
  qed
  with l assms(3) show ?thesis by (cases a; cases b) simp
qed

section \<open>Digit counts and the caps\<close>

lemma mag_length_le: "mag_norm a \<Longrightarrow> mval a < 10 ^ k \<Longrightarrow> length a \<le> k"
proof (cases "a = []")
  case False
  assume a: "mag_norm a" "mval a < 10 ^ k"
  have "(10::nat) ^ (9 * (length a - 1)) = BASE ^ (length a - 1)" by (simp add: BASE_power power_mult)
  also have "\<dots> \<le> mval a" using a False by (intro mag_norm_lower)
  also have "\<dots> < 10 ^ k" by (rule a)
  finally have "9 * (length a - 1) < k" by (rule power_less_imp_less_exp [rotated]) simp
  then show ?thesis by simp
qed simp

definition sized :: "decimal \<Rightarrow> bool" where "sized d \<longleftrightarrow> length (limbs d) < 2 ^ 27"

lemma precision_eq:
  "dec_norm d \<Longrightarrow> sized d \<Longrightarrow>
    precision d = (if limbs d = [] then 0 else length (dec_str (mval (limbs d))))"
  unfolding precision_def sized_def by (intro mag_digit_count) simp_all

lemma precision_le_iff:
  assumes "dec_norm d" "sized d"
  shows "precision d \<le> k \<longleftrightarrow> mval (limbs d) < 10 ^ k"
proof (cases "limbs d = []")
  case False
  define m where "m = mval (limbs d)"
  have m: "0 < m" unfolding m_def using mval_pos assms(1) False by simp
  define l where "l = length (dec_str m)"
  have l: "precision d = l" using precision_eq [OF assms] False by (simp add: l_def m_def)
  have b: "10 ^ (l - 1) \<le> m" "m < 10 ^ l" using dec_str_length_bounds [OF m] by (simp_all add: l_def)
  have l0: "0 < l" using dec_str_ok [of m] by (simp add: l_def)
  show ?thesis
  proof
    assume "precision d \<le> k"
    then have "(10::nat) ^ l \<le> 10 ^ k" unfolding l by (intro power_increasing) simp_all
    with b(2) show "mval (limbs d) < 10 ^ k" unfolding m_def by linarith
  next
    assume "mval (limbs d) < 10 ^ k"
    then have "(10::nat) ^ (l - 1) < 10 ^ k" using b(1) unfolding m_def by linarith
    then have "l - 1 < k" by (rule power_less_imp_less_exp [rotated]) simp
    then show "precision d \<le> k" unfolding l using l0 by simp
  qed
qed (simp add: precision_eq [OF assms])

lemma fits_iff: "fits (dec_val d) \<longleftrightarrow> mval (limbs d) < 10 ^ (MAX_INT_DIGITS + scale d)"
proof -
  have "fits (dec_val d) \<longleftrightarrow> (of_nat (mval (limbs d)) :: rat) < 10 ^ (MAX_INT_DIGITS + scale d)"
    by (simp add: fits_def abs_dec_val divide_less_eq power_add)
  also have "(10 :: rat) ^ (MAX_INT_DIGITS + scale d) = of_nat (10 ^ (MAX_INT_DIGITS + scale d))" by simp
  finally show ?thesis by (simp only: of_nat_less_iff)
qed

lemma check_cap_eq:
  assumes "dec_norm d" "sized d"
  shows "check_cap d = (if dec_ok d then Inr d else Inl decimal_overflow)"
proof -
  have "precision d - scale d > MAX_INT_DIGITS \<longleftrightarrow> \<not> precision d \<le> MAX_INT_DIGITS + scale d"
    by linarith
  then show ?thesis
    unfolding check_cap_def dec_ok_def fits_iff precision_le_iff [OF assms] using assms(1)
    by (simp add: not_less)
qed

lemma sizedI: "mag_norm (limbs d) \<Longrightarrow> mval (limbs d) < 10 ^ k \<Longrightarrow> k < 2 ^ 27 \<Longrightarrow> sized d"
  unfolding sized_def using mag_length_le by fastforce

lemma cap_sum_small: "MAX_INT_DIGITS + MAX_SCALE + 10 * MAX_SCALE < 2 ^ 26"
  by (simp add: MAX_INT_DIGITS_def MAX_SCALE_def)

lemma dec_ok_mval: "dec_ok d \<Longrightarrow> mval (limbs d) < 10 ^ (MAX_INT_DIGITS + scale d)"
  unfolding dec_ok_def fits_iff by blast

lemma dec_ok_sized [simp]: "dec_ok d \<Longrightarrow> sized d"
proof (rule sizedI [OF _ dec_ok_mval])
  assume "dec_ok d"
  then have "scale d \<le> MAX_SCALE" by simp
  then show "MAX_INT_DIGITS + scale d < 2 ^ 27" using cap_sum_small by simp
qed simp_all


lemma dec_ok_bound: "dec_ok d \<Longrightarrow> \<bar>dec_val d\<bar> < 10 ^ MAX_INT_DIGITS"
  unfolding dec_ok_def fits_def by blast

lemma sized_of_val:
  assumes "dec_norm d" "\<bar>dec_val d\<bar> < 10 ^ k" "k + scale d < 2 ^ 27"
  shows "sized d"
proof (rule sizedI [OF _ _ assms(3)])
  have "(of_nat (mval (limbs d)) :: rat) < 10 ^ (k + scale d)"
    using assms(2) by (simp add: abs_dec_val divide_less_eq power_add)
  also have "(10 :: rat) ^ (k + scale d) = of_nat (10 ^ (k + scale d))" by simp
  finally show "mval (limbs d) < 10 ^ (k + scale d)" by (simp only: of_nat_less_iff)
qed (use assms in simp)

lemma returns_check_cap:
  assumes "dec_norm d" "scale d \<le> MAX_SCALE" "\<bar>dec_val d\<bar> < 10 ^ k" "k + scale d < 2 ^ 27"
  shows "returns (check_cap d) (dec_val d) (scale d)"
proof -
  have "dec_ok d \<longleftrightarrow> fits (dec_val d)" unfolding dec_ok_def using assms by blast
  then show ?thesis
    using check_cap_eq [OF assms(1) sized_of_val [OF assms(1,3,4)]] by (simp add: returns_def)
qed

end
