(* ===== verification/Decimal_Arith.thy ===== *)
theory Decimal_Arith
  imports Decimals
begin

text \<open>
  Correctness of decimal arithmetic against rational arithmetic: addition, subtraction,
  multiplication, division, remainder, comparison, equality and the rounding functions.
\<close>

section \<open>Rounding\<close>

lemma round_half_multiple:
  assumes "0 < u"
  shows "round_half u (of_int k * u) = of_int k * u"
proof -
  have "\<bar>of_int k * u\<bar> / u = of_int \<bar>k\<bar>" using assms by (simp add: abs_mult)
  moreover have "\<lfloor>(of_int \<bar>k\<bar> :: rat) + 1 / 2\<rfloor> = \<bar>k\<bar>" by (intro floor_unique) simp_all
  ultimately have "round_half u (of_int k * u) = sgn (of_int k * u) * of_int \<bar>k\<bar> * u"
    unfolding round_half_def by (simp only:)
  also have "\<dots> = of_int k * u" using assms by (cases k "0::int" rule: linorder_cases) (auto simp: sgn_mult)
  finally show ?thesis .
qed

lemma trunc_unit_multiple:
  assumes "0 < u"
  shows "trunc_unit u (of_int k * u) = of_int k * u"
proof -
  have "\<bar>of_int k * u\<bar> / u = of_int \<bar>k\<bar>" using assms by (simp add: abs_mult)
  then have "trunc_unit u (of_int k * u) = sgn (of_int k * u) * of_int \<bar>k\<bar> * u"
    unfolding trunc_unit_def by (simp only: floor_of_int)
  also have "\<dots> = of_int k * u" using assms by (cases k "0::int" rule: linorder_cases) (auto simp: sgn_mult)
  finally show ?thesis .
qed

lemma abs_round_half_le:
  assumes "0 < u"
  shows "\<bar>round_half u v\<bar> \<le> 2 * \<bar>v\<bar>"
proof -
  define x where "x = \<bar>v\<bar> / u"
  have x: "0 \<le> x" using assms by (simp add: x_def)
  have f: "0 \<le> \<lfloor>x + 1 / 2\<rfloor>" using x by simp
  have "(of_int \<lfloor>x + 1 / 2\<rfloor> :: rat) \<le> 2 * x"
  proof (cases "x < 1 / 2")
    case True
    then have "\<lfloor>x + 1 / 2\<rfloor> = 0" using x by (intro floor_unique) simp_all
    then show ?thesis using x by simp
  next
    case False
    have "of_int \<lfloor>x + 1 / 2\<rfloor> \<le> x + 1 / 2" by simp
    also have "\<dots> \<le> 2 * x" using False by simp
    finally show ?thesis .
  qed
  then have "of_int \<lfloor>x + 1 / 2\<rfloor> * u \<le> 2 * x * u" using assms by (intro mult_right_mono) simp_all
  moreover have "\<bar>round_half u v\<bar> \<le> of_int \<lfloor>x + 1 / 2\<rfloor> * u"
    using assms f unfolding round_half_def x_def [symmetric]
    by (simp add: abs_mult abs_sgn_eq)
  moreover have "2 * x * u = 2 * \<bar>v\<bar>" using assms by (simp add: x_def)
  ultimately show ?thesis by linarith
qed

text \<open>The rounding is to a nearest multiple of the unit.\<close>

lemma round_half_near:
  assumes "0 < u"
  shows "\<bar>round_half u v - v\<bar> \<le> u / 2"
proof -
  define x where "x = \<bar>v\<bar> / u"
  define q where "q = (of_int \<lfloor>x + 1 / 2\<rfloor> :: rat)"
  have "\<bar>q - x\<bar> \<le> 1 / 2"
    unfolding q_def using of_int_floor_le [of "x + 1 / 2"] real_of_int_floor_add_one_gt
      floor_correct [of "x + 1 / 2"] by linarith
  then have "\<bar>q - x\<bar> * u \<le> 1 / 2 * u" using assms by (intro mult_right_mono) simp_all
  then have "\<bar>(q - x) * u\<bar> \<le> u / 2" using assms by (simp add: abs_mult)
  moreover have v: "v = sgn v * x * u" using assms by (simp add: x_def sgn_mult_abs)
  then have "round_half u v - v = sgn v * ((q - x) * u)"
    unfolding round_half_def x_def [symmetric] q_def [symmetric] by (simp add: algebra_simps)
  ultimately show ?thesis by (cases v "0::rat" rule: linorder_cases) (use assms in \<open>simp_all add: abs_mult\<close>)
qed

lemma mag_pow10_nonempty [simp]: "mag_pow10 e \<noteq> []"
  using mag_pow10 [of e] by fastforce

lemma floor_half:
  fixes x :: rat
  assumes "0 \<le> x" "x < 1"
  shows "\<lfloor>of_nat q + x + 1 / 2\<rfloor> = int q + (if 1 / 2 \<le> x then 1 else 0)"
proof (cases "1 / 2 \<le> x")
  case True
  with assms have "of_nat q + 1 \<le> of_nat q + x + 1 / 2" "of_nat q + x + 1 / 2 < of_nat q + 1 + 1" by linarith+
  with True show ?thesis by (intro floor_unique) simp_all
next
  case False
  with assms have "of_nat q \<le> of_nat q + x + 1 / 2" "of_nat q + x + 1 / 2 < of_nat q + 1" by linarith+
  with False show ?thesis by (intro floor_unique) simp_all
qed

lemma rounded_quotient [simp, mag_simps]:
  assumes "mag_norm n" "mag_norm d" "d \<noteq> []"
  shows "of_nat (mval (rounded_quotient n d)) = (of_int \<lfloor>(of_nat (mval n) / of_nat (mval d) :: rat) + 1 / 2\<rfloor> :: rat)"
    "mag_norm (rounded_quotient n d)"
proof -
  obtain q r where qr: "mag_divmod n d = (q, r)" by force
  note m = mag_divmod [OF assms qr]
  define N D where "N = mval n" and "D = mval d"
  have D: "0 < D" unfolding D_def using mval_pos assms(2,3) by blast
  have rq: "rounded_quotient n d = (if D \<le> N mod D + N mod D then mag_add q [1] else q)"
    using m assms by (simp add: rounded_quotient_def qr N_def D_def not_less)
  show "mag_norm (rounded_quotient n d)" using m unfolding rq by simp
  have v: "mval (rounded_quotient n d) = N div D + (if D \<le> N mod D + N mod D then 1 else 0)"
    using m unfolding rq by (simp add: N_def D_def)
  have e: "(of_nat N :: rat) = of_nat D * of_nat (N div D) + of_nat (N mod D)"
    by (metis mult_div_mod_eq of_nat_add of_nat_mult)
  have "(of_nat N / of_nat D :: rat) = (of_nat D * of_nat (N div D) + of_nat (N mod D)) / of_nat D"
    by (simp only: e)
  then have nd: "(of_nat N / of_nat D :: rat) = of_nat (N div D) + of_nat (N mod D) / of_nat D"
    using D by (simp only: add_divide_distrib) simp
  have lt: "(of_nat (N mod D) :: rat) < of_nat D" using D by (simp only: of_nat_less_iff mod_less_divisor)
  have half: "(1 / 2 \<le> (of_nat (N mod D) / of_nat D :: rat)) \<longleftrightarrow> D \<le> N mod D + N mod D"
  proof -
    have "(1 / 2 \<le> (of_nat (N mod D) / of_nat D :: rat)) \<longleftrightarrow> (of_nat D :: rat) \<le> of_nat (N mod D + N mod D)"
      using D by (simp add: le_divide_eq) linarith
    then show ?thesis by (simp only: of_nat_le_iff)
  qed
  have "0 \<le> (of_nat (N mod D) / of_nat D :: rat)" "(of_nat (N mod D) / of_nat D :: rat) < 1"
    using D lt by simp_all
  then have "\<lfloor>(of_nat N / of_nat D :: rat) + 1 / 2\<rfloor>
      = int (N div D) + (if D \<le> N mod D + N mod D then 1 else 0)"
    unfolding nd half [symmetric] by (rule floor_half)
  then show "of_nat (mval (rounded_quotient n d)) = (of_int \<lfloor>(of_nat (mval n) / of_nat (mval d) :: rat) + 1 / 2\<rfloor> :: rat)"
    unfolding v N_def [symmetric] D_def [symmetric] by simp
qed

lemma dec_signed:
  assumes "dec_norm d" "0 \<le> c" "c < 1"
  shows "sgn_of (neg d) * of_int \<lfloor>\<bar>dec_val d\<bar> / u + c\<rfloor> = sgn (dec_val d) * of_int \<lfloor>\<bar>dec_val d\<bar> / u + c\<rfloor>"
proof (cases "limbs d = []")
  case True
  then have "dec_val d = 0" by (simp add: dec_val_def)
  moreover have "\<lfloor>c\<rfloor> = 0" using assms by (intro floor_unique) simp_all
  ultimately show ?thesis by simp
next
  case False
  then show ?thesis using sgn_dec_val [OF assms(1)] by simp
qed

lemma pow_split: "t \<le> s \<Longrightarrow> (10 :: rat) ^ s = 10 ^ t * 10 ^ (s - t)"
  by (simp add: power_add [symmetric])

lemma dec_val_multiple:
  assumes "scale d \<le> t"
  obtains k where "dec_val d = of_int k * (1 / 10 ^ t)"
proof -
  have "dec_val d = sgn_of (neg d) * of_nat (mval (limbs d)) * 10 ^ (t - scale d) / 10 ^ t"
    using assms by (simp add: dec_val_def pow_split [OF assms])
  also have "\<dots> = of_int ((if neg d then - 1 else 1) * int (mval (limbs d)) * 10 ^ (t - scale d)) * (1 / 10 ^ t)"
    by (simp add: sgn_of_def)
  finally show thesis using that by blast
qed

lemma mval_scaled:
  "t \<le> scale d \<Longrightarrow> (of_nat (mval (limbs d)) :: rat) / 10 ^ (scale d - t) = \<bar>dec_val d\<bar> / (1 / 10 ^ t)"
  by (simp add: abs_dec_val pow_split [of t "scale d"])

lemma round_to_scale:
  assumes "dec_norm d"
  shows "dec_val (round_to_scale d t) = round_half (1 / 10 ^ t) (dec_val d)"
    "dec_norm (round_to_scale d t)" "scale (round_to_scale d t) = t"
proof -
  show "dec_norm (round_to_scale d t)" "scale (round_to_scale d t) = t"
    using assms by (simp_all add: round_to_scale_def)
  show "dec_val (round_to_scale d t) = round_half (1 / 10 ^ t) (dec_val d)"
  proof (cases "scale d \<le> t")
    case True
    obtain k where k: "dec_val d = of_int k * (1 / 10 ^ t)" using dec_val_multiple [OF True] .
    have "dec_val (round_to_scale d t) = sgn_of (neg d) * of_nat (mval (limbs d) * 10 ^ (t - scale d)) / 10 ^ t"
      using True assms by (simp add: round_to_scale_def from_parts_val)
    also have "\<dots> = dec_val d" by (simp add: dec_val_def pow_split [OF True])
    also have "\<dots> = round_half (1 / 10 ^ t) (dec_val d)"
      unfolding k by (rule round_half_multiple [symmetric]) simp
    finally show ?thesis .
  next
    case False
    then have "dec_val (round_to_scale d t)
        = sgn_of (neg d) * of_int \<lfloor>\<bar>dec_val d\<bar> / (1 / 10 ^ t) + 1 / 2\<rfloor> / 10 ^ t"
      using assms mag_pow10(1) [of "scale d - t"] mval_scaled [of t d]
      by (simp add: round_to_scale_def from_parts_val) 
    also have "\<dots> = round_half (1 / 10 ^ t) (dec_val d)"
      using dec_signed [OF assms, of "1 / 2" "1 / 10 ^ t"] unfolding round_half_def by simp
    finally show ?thesis .
  qed
qed


lemma trunc_quotient:
  assumes "mag_norm n" "mag_norm d" "d \<noteq> []" "mag_divmod n d = (q, r)"
  shows "of_nat (mval q) = (of_int \<lfloor>(of_nat (mval n) / of_nat (mval d) :: rat)\<rfloor> :: rat)"
proof -
  have "mval q = mval n div mval d" using mag_divmod [OF assms] by simp
  then show ?thesis by (simp add: floor_divide_of_nat_eq)
qed

lemma trunc_to_scale:
  assumes "dec_norm d"
  shows "dec_val (trunc_to_scale d t) = trunc_unit (1 / 10 ^ t) (dec_val d)"
    "dec_norm (trunc_to_scale d t)" "scale (trunc_to_scale d t) = t"
proof -
  obtain q r where qr: "mag_divmod (limbs d) (mag_pow10 (scale d - t)) = (q, r)" by force
  note m = mag_divmod [OF dec_norm_limbs(1) [OF assms] mag_pow10(2) mag_pow10_nonempty qr]
  show "dec_norm (trunc_to_scale d t)" "scale (trunc_to_scale d t) = t"
    using assms m by (simp_all add: trunc_to_scale_def qr)
  show "dec_val (trunc_to_scale d t) = trunc_unit (1 / 10 ^ t) (dec_val d)"
  proof (cases "scale d \<le> t")
    case True
    obtain k where k: "dec_val d = of_int k * (1 / 10 ^ t)" using dec_val_multiple [OF True] .
    have "dec_val (trunc_to_scale d t) = sgn_of (neg d) * of_nat (mval (limbs d) * 10 ^ (t - scale d)) / 10 ^ t"
      using True assms by (simp add: trunc_to_scale_def from_parts_val)
    also have "\<dots> = dec_val d" by (simp add: dec_val_def pow_split [OF True])
    also have "\<dots> = trunc_unit (1 / 10 ^ t) (dec_val d)"
      unfolding k by (rule trunc_unit_multiple [symmetric]) simp
    finally show ?thesis .
  next
    case False
    have "of_nat (mval q) = (of_int \<lfloor>\<bar>dec_val d\<bar> / (1 / 10 ^ t)\<rfloor> :: rat)"
      using trunc_quotient [OF dec_norm_limbs(1) [OF assms] mag_pow10(2) mag_pow10_nonempty qr]
        mval_scaled [of t d] False by simp
    then have "dec_val (trunc_to_scale d t)
        = sgn_of (neg d) * of_int \<lfloor>\<bar>dec_val d\<bar> / (1 / 10 ^ t)\<rfloor> / 10 ^ t"
      using False m by (simp add: trunc_to_scale_def from_parts_val qr)
    also have "\<dots> = trunc_unit (1 / 10 ^ t) (dec_val d)"
      using dec_signed [OF assms, of 0 "1 / 10 ^ t"] unfolding trunc_unit_def by simp
    finally show ?thesis .
  qed
qed

section \<open>Addition, subtraction, comparison\<close>

lemma aligned:
  assumes "dec_norm d" "scale d \<le> s"
  shows "(of_nat (mval (mag_mul_pow10 (limbs d) (s - scale d))) :: rat) = \<bar>dec_val d\<bar> * 10 ^ s"
  using assms by (simp add: abs_dec_val pow_split [OF assms(2)])

lemma sgn_abs_dec_val: "dec_norm d \<Longrightarrow> sgn_of (neg d) * \<bar>dec_val d\<bar> = dec_val d"
  by (simp add: abs_dec_val) (simp add: dec_val_def)

lemma add_uncapped:
  assumes "dec_norm x" "dec_norm y"
  shows "dec_val (add_uncapped x y) = dec_val x + dec_val y" "dec_norm (add_uncapped x y)"
    "scale (add_uncapped x y) = max (scale x) (scale y)"
proof -
  define s where "s = max (scale x) (scale y)"
  define a b where "a = mag_mul_pow10 (limbs x) (s - scale x)" and "b = mag_mul_pow10 (limbs y) (s - scale y)"
  have ab: "mag_norm a" "mag_norm b" using assms by (simp_all add: a_def b_def)
  have v: "(of_nat (mval a) :: rat) = \<bar>dec_val x\<bar> * 10 ^ s" "(of_nat (mval b) :: rat) = \<bar>dec_val y\<bar> * 10 ^ s"
    using aligned [of x s] aligned [of y s] assms by (simp_all add: a_def b_def s_def)
  have d: "add_uncapped x y = (if neg x = neg y then from_parts (neg x) s (mag_add a b)
      else case cmp (mval a) (mval b) of Equal \<Rightarrow> dec_zero s
           | Greater \<Rightarrow> from_parts (neg x) s (mag_sub a b) | Less \<Rightarrow> from_parts (neg y) s (mag_sub b a))"
    unfolding add_uncapped_def Let_def s_def [symmetric] a_def [symmetric] b_def [symmetric]
    using ab by simp
  show "scale (add_uncapped x y) = max (scale x) (scale y)" "dec_norm (add_uncapped x y)"
    using ab unfolding d by (auto simp: s_def split: ordering.split)
  have xy: "dec_val x = sgn_of (neg x) * of_nat (mval a) / 10 ^ s"
    "dec_val y = sgn_of (neg y) * of_nat (mval b) / 10 ^ s"
    unfolding v using sgn_abs_dec_val [OF assms(1)] sgn_abs_dec_val [OF assms(2)] by simp_all
  have o: "sgn_of (neg y) = - sgn_of (neg x)" if "neg x \<noteq> neg y"
    using that by (auto simp: sgn_of_def)
  have "dec_val (add_uncapped x y) = sgn_of (neg x) * of_nat (mval a) / 10 ^ s + sgn_of (neg y) * of_nat (mval b) / 10 ^ s"
  proof (cases "neg x = neg y")
    case True
    then show ?thesis using ab unfolding d by (simp add: from_parts_val algebra_simps add_divide_distrib)
  next
    case False
    then show ?thesis
      using ab o unfolding d
      by (auto simp: from_parts_val of_nat_diff algebra_simps diff_divide_distrib split: ordering.split)
  qed
  then show "dec_val (add_uncapped x y) = dec_val x + dec_val y" unfolding xy .
qed

lemma dec_add_returns:
  assumes "dec_ok x" "dec_ok y"
  shows "returns (dec_add x y) (dec_val x + dec_val y) (max (scale x) (scale y))"
proof -
  have n: "dec_norm x" "dec_norm y" using assms by simp_all
  note u = add_uncapped [OF n]
  have f: "\<bar>dec_val x\<bar> < 10 ^ MAX_INT_DIGITS" "\<bar>dec_val y\<bar> < 10 ^ MAX_INT_DIGITS"
    using assms by (auto dest: dec_ok_bound)
  have "\<bar>dec_val x + dec_val y\<bar> < 10 * 10 ^ MAX_INT_DIGITS" using f by linarith
  then have "\<bar>dec_val (add_uncapped x y)\<bar> < 10 ^ (MAX_INT_DIGITS + 1)" using u(1) by simp
  moreover have s: "scale (add_uncapped x y) \<le> MAX_SCALE" using assms u(3) by simp
  moreover have "MAX_INT_DIGITS + 1 + scale (add_uncapped x y) < 2 ^ 27"
    using s cap_sum_small by simp
  ultimately show ?thesis
    using returns_check_cap [OF u(2)] unfolding dec_add_def u(1,3) by blast
qed

lemma dec_neg_ok: "dec_ok d \<Longrightarrow> dec_ok (dec_neg d)"
  using dec_neg [of d] unfolding dec_ok_def fits_def by simp

lemma dec_sub_returns:
  assumes "dec_ok x" "dec_ok y"
  shows "returns (dec_sub x y) (dec_val x - dec_val y) (max (scale x) (scale y))"
  using dec_add_returns [OF assms(1) dec_neg_ok [OF assms(2)]] assms by (simp add: dec_sub_def)

lemma cmp_scaled: "0 < (c :: rat) \<Longrightarrow> cmp (x * c) (y * c) = cmp x y"
  by (auto simp: cmp_def)

lemma cmp_of_nat: "cmp m n = cmp (of_nat m :: rat) (of_nat n)"
  by (auto simp: cmp_def)

lemma dec_val_sign: "dec_norm d \<Longrightarrow> (neg d \<longrightarrow> dec_val d < 0) \<and> (\<not> neg d \<longrightarrow> 0 \<le> dec_val d)"
  using mval_pos [of "limbs d"] by (auto simp: dec_val_def dec_norm_def)

lemma cmp_value_eq:
  assumes "dec_norm x" "dec_norm y"
  shows "cmp_value x y = cmp (dec_val x) (dec_val y)"
proof -
  define s where "s = max (scale x) (scale y)"
  define a b where "a = mag_mul_pow10 (limbs x) (s - scale x)" and "b = mag_mul_pow10 (limbs y) (s - scale y)"
  have ab: "mag_norm a" "mag_norm b" using assms by (simp_all add: a_def b_def)
  have v: "(of_nat (mval a) :: rat) = \<bar>dec_val x\<bar> * 10 ^ s" "(of_nat (mval b) :: rat) = \<bar>dec_val y\<bar> * 10 ^ s"
    using aligned [of x s] aligned [of y s] assms by (simp_all add: a_def b_def s_def)
  have c: "mag_cmp a b = cmp \<bar>dec_val x\<bar> \<bar>dec_val y\<bar>"
    using ab by (simp add: cmp_of_nat v cmp_scaled)
  note sg = dec_val_sign [OF assms(1)] dec_val_sign [OF assms(2)]
  show ?thesis
  proof (cases "neg x = neg y")
    case True
    then have "cmp_value x y = (if neg x then cmp \<bar>dec_val y\<bar> \<bar>dec_val x\<bar> else cmp \<bar>dec_val x\<bar> \<bar>dec_val y\<bar>)"
      using c by (simp add: cmp_value_def Let_def s_def [symmetric] a_def [symmetric] b_def [symmetric]
          ordering_reverse_cmp)
    also have "\<dots> = cmp (dec_val x) (dec_val y)" using sg True by (auto simp: cmp_def)
    finally show ?thesis .
  next
    case False
    then show ?thesis using sg by (auto simp: cmp_value_def cmp_def)
  qed
qed

section \<open>Multiplication and division\<close>

lemma abs_less_mult: "\<bar>v\<bar> < a \<Longrightarrow> \<bar>w\<bar> < b \<Longrightarrow> \<bar>v * w\<bar> < a * (b :: rat)"
  unfolding abs_mult by (intro mult_strict_mono') simp_all

lemma dec_mul_returns:
  assumes "dec_ok x" "dec_ok y"
  shows "returns (dec_mul x y)
    (round_half (1 / 10 ^ min (scale x + scale y) MAX_SCALE) (dec_val x * dec_val y))
    (min (scale x + scale y) MAX_SCALE)"
proof -
  have n: "dec_norm x" "dec_norm y" and s: "scale x \<le> MAX_SCALE" "scale y \<le> MAX_SCALE" using assms by simp_all
  define sc where "sc = scale x + scale y"
  have w: "w32 (scale x + scale y) = sc" using s unfolding sc_def
    by (intro w32_id) (simp add: MAX_SCALE_def)
  define e where "e = from_parts (neg x \<noteq> neg y) sc (mag_mul (limbs x) (limbs y))"
  have e: "dec_norm e" "scale e = sc" using n by (simp_all add: e_def)
  have ev: "dec_val e = dec_val x * dec_val y"
  proof -
    have "dec_val e = sgn_of (neg x) * sgn_of (neg y) * of_nat (mval (limbs x) * mval (limbs y)) / 10 ^ sc"
      using n by (simp add: e_def from_parts_val)
    also have "\<dots> = dec_val x * dec_val y"
      by (simp add: dec_val_def [of x] dec_val_def [of y] sc_def power_add)
    finally show ?thesis .
  qed
  define t where "t = min sc MAX_SCALE"
  define r where "r = (if sc > MAX_SCALE then round_to_scale e MAX_SCALE else e)"
  have m: "dec_mul x y = check_cap r"
    unfolding dec_mul_def w Let_def e_def [symmetric] r_def ..
  have r: "dec_norm r" "scale r = t" "dec_val r = round_half (1 / 10 ^ t) (dec_val e)"
  proof -
    show "dec_norm r" "scale r = t" using e round_to_scale [OF e(1)] by (simp_all add: r_def t_def)
    obtain k where k: "dec_val e = of_int k * (1 / 10 ^ sc)" using dec_val_multiple [of e sc] e(2) by auto
    have "round_half (1 / 10 ^ sc) (dec_val e) = dec_val e" unfolding k by (rule round_half_multiple) simp
    then show "dec_val r = round_half (1 / 10 ^ t) (dec_val e)"
      using round_to_scale [OF e(1)] by (auto simp: r_def t_def min_def)
  qed
  have "\<bar>dec_val e\<bar> < 10 ^ MAX_INT_DIGITS * 10 ^ MAX_INT_DIGITS"
    unfolding ev using assms by (intro abs_less_mult) (auto dest: dec_ok_bound)
  moreover have "\<bar>dec_val r\<bar> \<le> 2 * \<bar>dec_val e\<bar>" unfolding r(3) by (rule abs_round_half_le) simp
  ultimately have "\<bar>dec_val r\<bar> < 10 * (10 ^ MAX_INT_DIGITS * 10 ^ MAX_INT_DIGITS)" by linarith
  then have "\<bar>dec_val r\<bar> < 10 ^ (MAX_INT_DIGITS + MAX_INT_DIGITS + 1)" by (simp add: power_add)
  moreover have "MAX_INT_DIGITS + MAX_INT_DIGITS + 1 + scale r < 2 ^ 27"
    unfolding r(2) t_def by (simp add: MAX_INT_DIGITS_def MAX_SCALE_def min_def)
  moreover have "scale r \<le> MAX_SCALE" unfolding r(2) t_def by simp
  ultimately show ?thesis
    using returns_check_cap [OF r(1)] unfolding m r(2,3) ev t_def sc_def by blast
qed

lemma shifted_quotient:
  assumes "dec_norm x" "dec_norm y" "dec_val y \<noteq> 0" "scale x < 2 ^ 30" "scale y < 2 ^ 30" "rs < 2 ^ 30"
  shows "of_nat (mval (shifted_quotient x y (int rs)))
      = (of_int \<lfloor>\<bar>dec_val x / dec_val y\<bar> / (1 / 10 ^ rs) + 1 / 2\<rfloor> :: rat)"
    "mag_norm (shifted_quotient x y (int rs))"
proof -
  have y: "limbs y \<noteq> []" using assms(3) by (auto simp: dec_val_def)
  have yp: "mag_mul_pow10 (limbs y) k \<noteq> []" for k
    using mag_mul_pow10 [of "limbs y" k] mval_pos [of "limbs y"] y assms(2) by fastforce
  define e where "e = int rs + int (scale y) - int (scale x)"
  have w: "w32 (nat e) = nat e" "w32 (nat (- e)) = nat (- e)"
    using assms(4-6) by (intro w32_id; simp add: e_def)+
  have my: "(of_nat (mval (limbs y)) :: rat) \<noteq> 0"
    using mval_pos [of "limbs y"] y assms(2) by simp
  have q: "\<bar>dec_val x / dec_val y\<bar> / (1 / 10 ^ rs)
      = of_nat (mval (limbs x)) * 10 ^ (rs + scale y) / (of_nat (mval (limbs y)) * 10 ^ scale x)"
    by (simp add: abs_divide abs_dec_val power_add) (simp add: mult_ac)
  show "mag_norm (shifted_quotient x y (int rs))"
    using assms y yp by (simp add: shifted_quotient_def Let_def)
  show "of_nat (mval (shifted_quotient x y (int rs)))
      = (of_int \<lfloor>\<bar>dec_val x / dec_val y\<bar> / (1 / 10 ^ rs) + 1 / 2\<rfloor> :: rat)"
  proof (cases "0 \<le> e")
    case True
    then have p: "rs + scale y = nat e + scale x" by (simp add: e_def)
    have "of_nat (mval (shifted_quotient x y (int rs)))
      = (of_int \<lfloor>(of_nat (mval (limbs x) * 10 ^ nat e) / of_nat (mval (limbs y)) :: rat) + 1 / 2\<rfloor> :: rat)"
      using True assms y w by (simp add: shifted_quotient_def e_def [symmetric])
    moreover have "(of_nat (mval (limbs x) * 10 ^ nat e) / of_nat (mval (limbs y)) :: rat)
        = \<bar>dec_val x / dec_val y\<bar> / (1 / 10 ^ rs)"
      unfolding q p using my by (simp add: power_add)
    ultimately show ?thesis by (simp only:)
  next
    case False
    then have p: "scale x = nat (- e) + (rs + scale y)" by (simp add: e_def)
    have "of_nat (mval (shifted_quotient x y (int rs)))
      = (of_int \<lfloor>(of_nat (mval (limbs x)) / of_nat (mval (limbs y) * 10 ^ nat (- e)) :: rat) + 1 / 2\<rfloor> :: rat)"
      using False assms y yp w by (simp add: shifted_quotient_def e_def [symmetric])
    moreover have "(of_nat (mval (limbs x)) / of_nat (mval (limbs y) * 10 ^ nat (- e)) :: rat)
        = \<bar>dec_val x / dec_val y\<bar> / (1 / 10 ^ rs)"
      unfolding q p using my by (simp add: power_add)
    ultimately show ?thesis by (simp only:)
  qed
qed


lemma select_div_scale_le: "select_div_scale x y \<le> MAX_PRECISION"
  by (simp add: select_div_scale_def Let_def split_beta)

lemma inverse_bound:
  assumes "dec_norm y" "dec_val y \<noteq> 0"
  shows "1 \<le> \<bar>dec_val y\<bar> * 10 ^ scale y"
proof -
  have "limbs y \<noteq> []" using assms(2) by (auto simp: dec_val_def)
  then have "1 \<le> mval (limbs y)" using mval_pos [of "limbs y"] assms(1) by simp
  then have "(1 :: rat) \<le> of_nat (mval (limbs y))" by simp
  then show ?thesis by (simp add: abs_dec_val)
qed

lemma round_half_0 [simp]: "round_half u 0 = 0"
  by (simp add: round_half_def)

lemma fits_0 [simp]: "fits 0"
  by (simp add: fits_def)

lemma dec_div_returns:
  assumes "dec_ok x" "dec_ok y" "dec_val y \<noteq> 0"
  defines "s \<equiv> select_div_scale x y"
  shows "returns (dec_div x y) (round_half (1 / 10 ^ s) (dec_val x / dec_val y)) s"
proof -
  have n: "dec_norm x" "dec_norm y" and sc: "scale x \<le> MAX_SCALE" "scale y \<le> MAX_SCALE"
    using assms by simp_all
  have s: "s \<le> MAX_PRECISION" unfolding s_def by (rule select_div_scale_le)
  have sM: "s \<le> MAX_SCALE" using s by (simp add: MAX_PRECISION_def MAX_SCALE_def)
  show ?thesis
  proof (cases "dec_val x = 0")
    case True
    have "dec_ok (dec_zero s)" unfolding dec_ok_def using sM by simp
    moreover have "dec_div x y = Inr (dec_zero s)" using True n assms(3) by (simp add: dec_div_def s_def)
    ultimately show ?thesis using True by (simp add: returns_def)
  next
    case False
    define r where "r = from_parts (neg x \<noteq> neg y) s (shifted_quotient x y (int s))"
    have b: "scale x < 2 ^ 30" "scale y < 2 ^ 30" "s < 2 ^ 30"
      using sc sM by (simp_all add: MAX_SCALE_def)
    note q = shifted_quotient [OF n assms(3) b]
    have d: "dec_div x y = check_cap r"
      using False n assms(3) by (simp add: dec_div_def s_def [symmetric] r_def Let_def)
    have r: "dec_norm r" "scale r = s" using q(2) by (simp_all add: r_def)
    have xy: "sgn (dec_val x / dec_val y) = sgn_of (neg x) * sgn_of (neg y)"
    proof -
      have "limbs x \<noteq> []" "limbs y \<noteq> []" using False assms(3) by (auto simp: dec_val_def)
      then have "sgn (dec_val x) = sgn_of (neg x)" "sgn (dec_val y) = sgn_of (neg y)"
        using n by (simp_all add: sgn_dec_val)
      then show ?thesis by (simp add: sgn_divide) (simp add: sgn_of_def)
    qed
    have v: "dec_val r = round_half (1 / 10 ^ s) (dec_val x / dec_val y)"
      unfolding r_def round_half_def xy using q by (simp add: from_parts_val)
    have "\<bar>dec_val x / dec_val y\<bar> \<le> \<bar>dec_val x\<bar> * 10 ^ scale y"
    proof -
      have "\<bar>dec_val x\<bar> * 1 \<le> \<bar>dec_val x\<bar> * (\<bar>dec_val y\<bar> * 10 ^ scale y)"
        using inverse_bound [OF n(2) assms(3)] by (intro mult_left_mono) simp_all
      then show ?thesis using assms(3) by (simp add: abs_divide divide_le_eq) (simp add: mult_ac)
    qed
    moreover have "\<bar>dec_val x\<bar> * 10 ^ scale y < 10 ^ MAX_INT_DIGITS * 10 ^ scale y"
      using dec_ok_bound [OF assms(1)] by (intro mult_strict_right_mono) simp_all
    moreover have "\<bar>dec_val r\<bar> \<le> 2 * \<bar>dec_val x / dec_val y\<bar>" unfolding v by (rule abs_round_half_le) simp
    ultimately have "\<bar>dec_val r\<bar> < 10 * (10 ^ MAX_INT_DIGITS * 10 ^ scale y)" by linarith
    then have "\<bar>dec_val r\<bar> < 10 ^ (MAX_INT_DIGITS + scale y + 1)" by (simp add: power_add)
    moreover have "MAX_INT_DIGITS + scale y + 1 + scale r < 2 ^ 27"
      unfolding r(2) using cap_sum_small sc sM by simp
    ultimately show ?thesis
      using returns_check_cap [OF r(1)] sM unfolding d r(2) v by blast
  qed
qed

lemma dec_rem_ok:
  assumes "dec_ok x" "dec_ok y" "dec_val y \<noteq> 0"
  obtains d where "dec_rem x y = Inr d" "dec_ok d" "scale d = max (scale x) (scale y)"
    "dec_val d = dec_val x - dec_val y * trunc_unit 1 (dec_val x / dec_val y)"
    "\<bar>dec_val d\<bar> < \<bar>dec_val y\<bar>"
proof -
  have n: "dec_norm x" "dec_norm y" using assms by simp_all
  define s where "s = max (scale x) (scale y)"
  define a b where "a = mag_mul_pow10 (limbs x) (s - scale x)" and "b = mag_mul_pow10 (limbs y) (s - scale y)"
  have ab: "mag_norm a" "mag_norm b" using n by (simp_all add: a_def b_def)
  have v: "(of_nat (mval a) :: rat) = \<bar>dec_val x\<bar> * 10 ^ s" "(of_nat (mval b) :: rat) = \<bar>dec_val y\<bar> * 10 ^ s"
    using aligned [of x s] aligned [of y s] n by (simp_all add: a_def b_def s_def)
  have "(of_nat (mval b) :: rat) \<noteq> 0" unfolding v using assms(3) by simp
  then have b0: "b \<noteq> []" "mval b \<noteq> 0" by auto
  obtain q r where qr: "mag_divmod a b = (q, r)" by force
  note m = mag_divmod [OF ab b0(1) qr]
  define d where "d = from_parts (neg x) s r"
  have rem: "dec_rem x y = Inr d"
    using n assms(3) qr by (simp add: dec_rem_def Let_def s_def [symmetric] a_def [symmetric] b_def [symmetric] d_def)
  have d: "dec_norm d" "scale d = s" "dec_val d = sgn_of (neg x) * of_nat (mval r) / 10 ^ s"
    using m by (simp_all add: d_def from_parts_val)
  have "\<bar>dec_val d\<bar> = of_nat (mval r) / 10 ^ s" by (simp add: d(3) abs_mult)
  also have "\<dots> < of_nat (mval b) / 10 ^ s"
    using m(2) b0(2) by (intro divide_strict_right_mono) simp_all
  also have "\<dots> = \<bar>dec_val y\<bar>" unfolding v by simp
  finally have lt: "\<bar>dec_val d\<bar> < \<bar>dec_val y\<bar>" .
  then have "fits (dec_val d)" unfolding fits_def using dec_ok_bound [OF assms(2)] by linarith
  then have ok: "dec_ok d" unfolding dec_ok_def using d(1,2) assms s_def by simp
  have quo: "\<bar>dec_val x / dec_val y\<bar> = of_nat (mval a) / of_nat (mval b)"
    unfolding v using assms(3) by (simp add: abs_divide)
  have "trunc_unit 1 (dec_val x / dec_val y) = sgn (dec_val x / dec_val y) * of_nat (mval a div mval b)"
    unfolding trunc_unit_def quo by (simp add: floor_divide_of_nat_eq)
  moreover have "dec_val y * (sgn (dec_val x / dec_val y)) = sgn_of (neg x) * \<bar>dec_val y\<bar>" if "dec_val x \<noteq> 0"
  proof -
    have "limbs x \<noteq> []" using that by (auto simp: dec_val_def)
    then have "sgn (dec_val x) = sgn_of (neg x)" using n by (simp add: sgn_dec_val)
    moreover have "dec_val y * sgn (dec_val y) = \<bar>dec_val y\<bar>" by (simp add: abs_sgn)
    ultimately show ?thesis using assms(3)
      by (cases "dec_val y > 0") (simp_all add: sgn_divide)
  qed
  moreover have "mval a div mval b = 0" if "dec_val x = 0" using v(1) that by simp
  ultimately have t: "dec_val y * trunc_unit 1 (dec_val x / dec_val y)
      = sgn_of (neg x) * \<bar>dec_val y\<bar> * of_nat (mval a div mval b)"
    by (cases "dec_val x = 0") (simp_all add: mult.assoc [symmetric])
  have "(of_nat (mval a) :: rat) = of_nat (mval b) * of_nat (mval a div mval b) + of_nat (mval r)"
    unfolding m(2) by (metis mult_div_mod_eq of_nat_add of_nat_mult)
  then have "\<bar>dec_val x\<bar> * 10 ^ s = \<bar>dec_val y\<bar> * 10 ^ s * of_nat (mval a div mval b) + of_nat (mval r)"
    unfolding v .
  then have "\<bar>dec_val x\<bar> = \<bar>dec_val y\<bar> * of_nat (mval a div mval b) + of_nat (mval r) / 10 ^ s"
    by (simp add: field_simps)
  then have "sgn_of (neg x) * \<bar>dec_val x\<bar>
      = sgn_of (neg x) * \<bar>dec_val y\<bar> * of_nat (mval a div mval b) + dec_val d"
    unfolding d(3) by (simp add: distrib_left)
  then have "dec_val d = dec_val x - dec_val y * trunc_unit 1 (dec_val x / dec_val y)"
    unfolding t using sgn_abs_dec_val [OF n(1)] by simp
  then show thesis using that [OF rem ok] d(2) lt by (simp add: s_def)
qed

end
