(* ===== verification/Decimal_Round.thy ===== *)
theory Decimal_Round
  imports Decimal_Arith
begin

text \<open>
  Correctness of decimal rounding (\<open>round\<close>, \<open>trunc\<close>, \<open>ceil\<close>, \<open>floor\<close>, the typmod coercion, the
  cast to \<open>i64\<close>), of the value-canonical form behind equality, of the value codec and of the
  square root.
\<close>

section \<open>Rounding to places, floor and ceiling\<close>

lemma ok_round_bound:
  assumes "dec_ok d" "0 < u"
  shows "\<bar>round_half u (dec_val d)\<bar> < 10 ^ (MAX_INT_DIGITS + 1)"
  using abs_round_half_le [OF assms(2), of "dec_val d"] dec_ok_bound [OF assms(1)]
  by (simp add: power_add)

lemma round_to_scale_returns:
  assumes "dec_ok d" "t \<le> MAX_SCALE"
  shows "returns (check_cap (round_to_scale d t)) (round_half (1 / 10 ^ t) (dec_val d)) t"
proof -
  note r = round_to_scale [OF dec_ok_norm(1) [OF assms(1)], of t]
  have "\<bar>dec_val (round_to_scale d t)\<bar> < 10 ^ (MAX_INT_DIGITS + 1)"
    unfolding r(1) using assms by (intro ok_round_bound) simp_all
  moreover have "MAX_INT_DIGITS + 1 + scale (round_to_scale d t) < 2 ^ 27"
    unfolding r(3) using cap_sum_small assms(2) by simp
  ultimately show ?thesis using returns_check_cap [OF r(2)] assms(2) unfolding r(1,3) by blast
qed

text \<open>The number of integer zeros appended to the left of the point is bounded by the digit count.\<close>

lemma precision_bound:
  assumes "dec_ok d"
  shows "precision d \<le> MAX_INT_DIGITS + MAX_SCALE" "\<bar>dec_val d\<bar> * 10 ^ scale d < 10 ^ precision d"
proof -
  have n: "dec_norm d" "sized d" using assms by simp_all
  have "precision d \<le> MAX_INT_DIGITS + scale d"
    unfolding precision_le_iff [OF n] using assms by (rule dec_ok_mval)
  then show "precision d \<le> MAX_INT_DIGITS + MAX_SCALE" using assms dec_ok_norm(2) [OF assms] by linarith
  have "mval (limbs d) < 10 ^ precision d" using precision_le_iff [OF n, of "precision d"] by simp
  then have "(of_nat (mval (limbs d)) :: rat) < of_nat (10 ^ precision d)" by (simp only: of_nat_less_iff)
  then show "\<bar>dec_val d\<bar> * 10 ^ scale d < 10 ^ precision d" by (simp add: abs_dec_val)
qed

lemma round_half_small:
  assumes "0 < u" "2 * \<bar>v\<bar> < u"
  shows "round_half u v = 0"
proof -
  have "0 \<le> \<bar>v\<bar> / u" "\<bar>v\<bar> / u < 1 / 2" using assms by (simp_all add: divide_less_eq)
  then have "0 \<le> \<bar>v\<bar> / u + 1 / 2" "\<bar>v\<bar> / u + 1 / 2 < 1" by linarith+
  then have "\<lfloor>\<bar>v\<bar> / u + 1 / 2\<rfloor> = 0" by (intro floor_unique) simp_all
  then show ?thesis by (simp add: round_half_def)
qed

lemma trunc_unit_small:
  assumes "0 < u" "\<bar>v\<bar> < u"
  shows "trunc_unit u v = 0"
proof -
  have "0 \<le> \<bar>v\<bar> / u" "\<bar>v\<bar> / u < 1" using assms by (simp_all add: divide_less_eq)
  then have "\<lfloor>\<bar>v\<bar> / u\<rfloor> = 0" by (intro floor_unique) simp_all
  then show ?thesis by (simp add: trunc_unit_def)
qed

text \<open>Places to the left of the point: \<open>k\<close> as the code clamps it.\<close>

lemma left_places:
  assumes "dec_ok d" "n < 0"
  defines "k \<equiv> min (nat \<bar>n\<bar>) (w32 (precision d + 1))"
  shows "w32 (precision d + 1) = precision d + 1" "w32 (scale d + k) = scale d + k"
    "k \<le> MAX_INT_DIGITS + MAX_SCALE + 1"
    "k = nat \<bar>n\<bar> \<or> 10 * \<bar>dec_val d\<bar> < 10 ^ k \<and> k \<le> nat \<bar>n\<bar>"
proof -
  have p: "precision d \<le> MAX_INT_DIGITS + MAX_SCALE" by (rule precision_bound [OF assms(1)])
  have "MAX_INT_DIGITS + MAX_SCALE + 1 < 2 ^ 27" using cap_sum_small by simp
  with p show w: "w32 (precision d + 1) = precision d + 1" by (intro w32_id) simp
  then show kb: "k \<le> MAX_INT_DIGITS + MAX_SCALE + 1" using p unfolding k_def by simp
  have "scale d \<le> MAX_SCALE" using assms(1) by simp
  with kb show "w32 (scale d + k) = scale d + k"
    using cap_sum_small by (intro w32_id) simp
  have "1 \<le> (10 :: rat) ^ scale d" by simp
  then have "\<bar>dec_val d\<bar> * 1 \<le> \<bar>dec_val d\<bar> * 10 ^ scale d" by (intro mult_left_mono) simp_all
  then have "\<bar>dec_val d\<bar> < 10 ^ precision d" using precision_bound(2) [OF assms(1)] by linarith
  then have "10 * \<bar>dec_val d\<bar> < 10 ^ (precision d + 1)" by simp
  then show "k = nat \<bar>n\<bar> \<or> 10 * \<bar>dec_val d\<bar> < 10 ^ k \<and> k \<le> nat \<bar>n\<bar>"
    unfolding k_def w by (auto simp: min_def)
qed

lemma left_scaled:
  "(of_nat (mval (limbs d)) :: rat) / of_nat (mval (mag_pow10 (scale d + k))) = \<bar>dec_val d\<bar> / 10 ^ k"
  by (simp add: abs_dec_val power_add)

lemma ten_pow_mono: "k \<le> m \<Longrightarrow> (10 :: rat) ^ k \<le> 10 ^ m"
  by (rule power_increasing) simp_all

lemma round_places_returns:
  assumes "dec_ok d"
  shows "returns (round_places d n)
    (round_half (if 0 \<le> n then 1 / 10 ^ nat (min n (int MAX_SCALE)) else 10 ^ nat \<bar>n\<bar>) (dec_val d))
    (if 0 \<le> n then nat (min n (int MAX_SCALE)) else 0)"
proof (cases "0 \<le> n")
  case True
  then show ?thesis
    using round_to_scale_returns [OF assms, of "nat (min n (int MAX_SCALE))"] by (simp add: round_places_def)
next
  case False
  then have n: "n < 0" by simp
  define k where "k = min (nat \<bar>n\<bar>) (w32 (precision d + 1))"
  note l = left_places [OF assms n, folded k_def]
  have dn: "dec_norm d" using assms by simp
  define q where "q = rounded_quotient (limbs d) (mag_pow10 (scale d + k))"
  have q: "mag_norm q" "(of_nat (mval q) :: rat) = of_int \<lfloor>\<bar>dec_val d\<bar> / 10 ^ k + 1 / 2\<rfloor>"
    unfolding q_def using rounded_quotient [OF dec_norm_limbs(1) [OF dn] mag_pow10(2) mag_pow10_nonempty, of "scale d + k"]
    unfolding left_scaled by blast+
  define r where "r = from_parts (neg d) 0 (mag_mul_pow10 q k)"
  have m: "round_places d n = check_cap r"
    using False unfolding round_places_def Let_def k_def [symmetric] l(2) q_def [symmetric] r_def by simp
  have r: "dec_norm r" "scale r = 0" using q(1) by (simp_all add: r_def)
  have "dec_val r = sgn_of (neg d) * of_int \<lfloor>\<bar>dec_val d\<bar> / 10 ^ k + 1 / 2\<rfloor> * 10 ^ k"
    using q by (simp add: r_def from_parts_val)
  also have "\<dots> = round_half (10 ^ k) (dec_val d)"
    using dec_signed [OF dn, of "1 / 2" "10 ^ k"] by (simp add: round_half_def)
  finally have v: "dec_val r = round_half (10 ^ k) (dec_val d)" .
  have v': "round_half (10 ^ k) (dec_val d) = round_half (10 ^ nat \<bar>n\<bar>) (dec_val d)"
  proof (cases "k = nat \<bar>n\<bar>")
    case False
    then have "10 * \<bar>dec_val d\<bar> < 10 ^ k" "k \<le> nat \<bar>n\<bar>" using l(4) by auto
    then have "2 * \<bar>dec_val d\<bar> < 10 ^ k" "2 * \<bar>dec_val d\<bar> < 10 ^ nat \<bar>n\<bar>"
      using ten_pow_mono [of k "nat \<bar>n\<bar>"] by linarith+
    then show ?thesis by (simp add: round_half_small)
  qed simp
  have b: "\<bar>dec_val r\<bar> < 10 ^ (MAX_INT_DIGITS + 1)"
    unfolding v using assms by (intro ok_round_bound) simp_all
  have s: "MAX_INT_DIGITS + 1 + scale r < 2 ^ 27" unfolding r(2) using cap_sum_small by simp
  have "returns (check_cap r) (dec_val r) (scale r)"
    by (rule returns_check_cap [OF r(1) _ b s]) (simp add: r(2))
  then show ?thesis using False unfolding m r(2) v v' by simp
qed

lemma abs_trunc_le:
  assumes "0 < u"
  shows "\<bar>trunc_unit u v\<bar> \<le> \<bar>v\<bar>"
proof -
  have f: "0 \<le> \<lfloor>\<bar>v\<bar> / u\<rfloor>" using assms by simp
  have "of_int \<lfloor>\<bar>v\<bar> / u\<rfloor> * u \<le> \<bar>v\<bar> / u * u" using assms by (intro mult_right_mono) simp_all
  then show ?thesis using assms f by (simp add: trunc_unit_def abs_mult abs_sgn_eq)
qed

lemma trunc_places_ok:
  assumes "dec_ok d"
  shows "dec_val (trunc_places d n)
      = trunc_unit (if 0 \<le> n then 1 / 10 ^ nat (min n (int MAX_SCALE)) else 10 ^ nat \<bar>n\<bar>) (dec_val d)"
    "scale (trunc_places d n) = (if 0 \<le> n then nat (min n (int MAX_SCALE)) else 0)"
    "dec_ok (trunc_places d n)"
proof -
  have dn: "dec_norm d" using assms by simp
  have "dec_val (trunc_places d n)
      = trunc_unit (if 0 \<le> n then 1 / 10 ^ nat (min n (int MAX_SCALE)) else 10 ^ nat \<bar>n\<bar>) (dec_val d)
    \<and> scale (trunc_places d n) = (if 0 \<le> n then nat (min n (int MAX_SCALE)) else 0)
    \<and> dec_norm (trunc_places d n)"
  proof (cases "0 \<le> n")
    case True
    then show ?thesis using trunc_to_scale [OF dn] by (simp add: trunc_places_def)
  next
    case False
    then have n: "n < 0" by simp
    define k where "k = min (nat \<bar>n\<bar>) (w32 (precision d + 1))"
    note l = left_places [OF assms n, folded k_def]
    obtain q r where qr: "mag_divmod (limbs d) (mag_pow10 (scale d + k)) = (q, r)" by force
    note m = mag_divmod [OF dec_norm_limbs(1) [OF dn] mag_pow10(2) mag_pow10_nonempty qr]
    have q: "(of_nat (mval q) :: rat) = of_int \<lfloor>\<bar>dec_val d\<bar> / 10 ^ k\<rfloor>"
      using trunc_quotient [OF dec_norm_limbs(1) [OF dn] mag_pow10(2) mag_pow10_nonempty qr]
      unfolding left_scaled .
    have t: "trunc_places d n = from_parts (neg d) 0 (mag_mul_pow10 q k)"
      using False unfolding trunc_places_def Let_def k_def [symmetric] l(2) qr by simp
    have "dec_val (trunc_places d n) = sgn_of (neg d) * of_int \<lfloor>\<bar>dec_val d\<bar> / 10 ^ k\<rfloor> * 10 ^ k"
      unfolding t using q m by (simp add: from_parts_val)
    also have "\<dots> = trunc_unit (10 ^ k) (dec_val d)"
      using dec_signed [OF dn, of 0 "10 ^ k"] by (simp add: trunc_unit_def)
    also have "\<dots> = trunc_unit (10 ^ nat \<bar>n\<bar>) (dec_val d)"
    proof (cases "k = nat \<bar>n\<bar>")
      case False
      then have "10 * \<bar>dec_val d\<bar> < 10 ^ k" "k \<le> nat \<bar>n\<bar>" using l(4) by auto
      then have "\<bar>dec_val d\<bar> < 10 ^ k" "\<bar>dec_val d\<bar> < 10 ^ nat \<bar>n\<bar>"
        using ten_pow_mono [of k "nat \<bar>n\<bar>"] by linarith+
      then show ?thesis by (simp add: trunc_unit_small)
    qed simp
    finally show ?thesis using False m t by simp
  qed
  then show v: "dec_val (trunc_places d n)
      = trunc_unit (if 0 \<le> n then 1 / 10 ^ nat (min n (int MAX_SCALE)) else 10 ^ nat \<bar>n\<bar>) (dec_val d)"
    and s: "scale (trunc_places d n) = (if 0 \<le> n then nat (min n (int MAX_SCALE)) else 0)" by auto
  have "dec_norm (trunc_places d n)" using \<open>_ \<and> _ \<and> _\<close> by blast
  moreover have le: "\<bar>dec_val (trunc_places d n)\<bar> \<le> \<bar>dec_val d\<bar>"
    unfolding v by (rule abs_trunc_le) simp
  then have "fits (dec_val (trunc_places d n))"
    unfolding fits_def using dec_ok_bound [OF assms] by linarith
  moreover have "scale (trunc_places d n) \<le> MAX_SCALE" unfolding s by (simp add: nat_le_iff)
  ultimately show "dec_ok (trunc_places d n)" unfolding dec_ok_def by blast
qed

lemma mval_has_frac: "limbs_ok r \<Longrightarrow> list_ex (\<lambda>x. x \<noteq> 0) r \<longleftrightarrow> mval r \<noteq> 0"
  by (induction r) auto

lemma round_to_bound_returns:
  assumes "dec_ok d"
  shows "returns (round_to_bound d toward_neg)
    (of_int (if toward_neg then \<lfloor>dec_val d\<rfloor> else \<lceil>dec_val d\<rceil>)) 0"
proof (cases "scale d = 0")
  case True
  define i where "i = (if neg d then - 1 else 1) * int (mval (limbs d))"
  have v: "dec_val d = of_int i" using True by (simp add: dec_val_def sgn_of_def i_def)
  have "fits (of_int i :: rat)" using assms dec_ok_bound [OF assms] unfolding fits_def v by simp
  then show ?thesis using True assms by (simp add: round_to_bound_def returns_def v)
next
  case False
  have dn: "dec_norm d" using assms by simp
  obtain q r where qr: "mag_divmod (limbs d) (mag_pow10 (scale d)) = (q, r)" by force
  note m = mag_divmod [OF dec_norm_limbs(1) [OF dn] mag_pow10(2) mag_pow10_nonempty qr]
  define N P where "N = mval (limbs d)" and "P = (10 :: nat) ^ scale d"
  have P: "0 < P" by (simp add: P_def)
  have q: "mval q = N div P" "mval r = N mod P" using m by (simp_all add: N_def P_def)
  define up where "up \<longleftrightarrow> mval r \<noteq> 0 \<and> neg d = toward_neg"
  define x where "x = from_parts (neg d) 0 (if up then mag_add q [1] else q)"
  have b: "round_to_bound d toward_neg = check_cap x"
    using False m mval_has_frac [of r] by (simp add: round_to_bound_def qr x_def up_def)
  have x: "dec_norm x" "scale x = 0" using m by (simp_all add: x_def)
  have xv: "dec_val x = sgn_of (neg d) * of_nat (N div P + (if up then 1 else 0))"
    using m q unfolding x_def by (simp add: from_parts_val)
  have dv: "dec_val d = sgn_of (neg d) * (of_nat N / of_nat P)" by (simp add: dec_val_def N_def P_def)
  have fl: "\<lfloor>(of_nat N / of_nat P :: rat)\<rfloor> = int (N div P)" by (rule floor_divide_of_nat_eq)
  have ce: "\<lceil>(of_nat N / of_nat P :: rat)\<rceil> = int (N div P) + (if N mod P \<noteq> 0 then 1 else 0)"
  proof (cases "N mod P = 0")
    case True
    then have "N = P * (N div P)" by (metis mult_div_mod_eq add_0_right)
    then have "(of_nat N / of_nat P :: rat) = of_nat (N div P)"
      using P by (metis nonzero_mult_div_cancel_left of_nat_0_less_iff of_nat_mult order_less_irrefl)
    then show ?thesis using True by simp
  next
    case False
    have "(of_nat N / of_nat P :: rat) \<noteq> of_int \<lfloor>(of_nat N / of_nat P :: rat)\<rfloor>"
    proof
      assume "(of_nat N / of_nat P :: rat) = of_int \<lfloor>(of_nat N / of_nat P :: rat)\<rfloor>"
      then have "(of_nat N :: rat) = of_nat (N div P * P)" unfolding fl using P by (simp add: divide_eq_eq)
      then have "N = N div P * P" by (simp only: of_nat_eq_iff)
      with False show False by (metis mod_mult_self2_is_0)
    qed
    then have "\<lceil>(of_nat N / of_nat P :: rat)\<rceil> = \<lfloor>(of_nat N / of_nat P :: rat)\<rfloor> + 1"
      unfolding ceiling_altdef by simp
    then show ?thesis unfolding fl using False by simp
  qed
  have v: "dec_val x = of_int (if toward_neg then \<lfloor>dec_val d\<rfloor> else \<lceil>dec_val d\<rceil>)"
    unfolding xv dv up_def q
    by (cases "neg d"; cases toward_neg) (simp_all add: fl ce floor_minus ceiling_minus)
  have "\<bar>dec_val x\<bar> \<le> of_nat (N div P) + 1" unfolding xv by (simp add: abs_mult)
  also have "of_nat (N div P) \<le> \<bar>dec_val d\<bar>"
  proof -
    have "(of_nat (N div P) :: rat) = of_int \<lfloor>of_nat N / of_nat P :: rat\<rfloor>" unfolding fl by simp
    also have "\<dots> \<le> of_nat N / of_nat P" by simp
    finally show ?thesis by (simp add: dv abs_mult)
  qed
  finally have "\<bar>dec_val x\<bar> < 10 * 10 ^ MAX_INT_DIGITS"
    using dec_ok_bound [OF assms] one_le_power [of "10 :: rat" MAX_INT_DIGITS] by linarith
  then have k: "\<bar>dec_val x\<bar> < 10 ^ (MAX_INT_DIGITS + 1)" by simp
  have s: "MAX_INT_DIGITS + 1 + scale x < 2 ^ 27" unfolding x(2) using cap_sum_small by simp
  have "returns (check_cap x) (dec_val x) (scale x)"
    by (rule returns_check_cap [OF x(1) _ k s]) (simp add: x(2))
  then show ?thesis unfolding b x(2) v .
qed


section \<open>Typmod and integer coercion\<close>

lemma coerce_to_typmod_eq:
  assumes "dec_ok d" "sc \<le> prec" "prec \<le> MAX_PRECISION"
  defines "v \<equiv> round_half (1 / 10 ^ sc) (dec_val d)"
  shows "coerce_to_typmod d prec sc =
    (if \<bar>v\<bar> < 10 ^ (prec - sc) then Inr (round_to_scale d sc) else Inl decimal_overflow)"
    "dec_val (round_to_scale d sc) = v" "scale (round_to_scale d sc) = sc"
proof -
  note r = round_to_scale [OF dec_ok_norm(1) [OF assms(1)], of sc, folded v_def]
  show "dec_val (round_to_scale d sc) = v" "scale (round_to_scale d sc) = sc" by (rule r)+
  have b: "\<bar>dec_val (round_to_scale d sc)\<bar> < 10 ^ (MAX_INT_DIGITS + 1)"
    unfolding r(1) v_def using assms(1) by (intro ok_round_bound) simp_all
  have s: "MAX_INT_DIGITS + 1 + scale (round_to_scale d sc) < 2 ^ 27"
    unfolding r(3) using assms(2,3) by (simp add: MAX_PRECISION_def MAX_INT_DIGITS_def)
  have z: "sized (round_to_scale d sc)" by (rule sized_of_val [OF r(2) b s])
  have "precision (round_to_scale d sc) - sc > prec - sc \<longleftrightarrow> \<not> precision (round_to_scale d sc) \<le> prec"
    using assms(2) by linarith
  also have "\<dots> \<longleftrightarrow> \<not> mval (limbs (round_to_scale d sc)) < 10 ^ prec"
    unfolding precision_le_iff [OF r(2) z] ..
  also have "mval (limbs (round_to_scale d sc)) < 10 ^ prec
      \<longleftrightarrow> (of_nat (mval (limbs (round_to_scale d sc))) :: rat) < of_nat (10 ^ prec)"
    by (simp only: of_nat_less_iff)
  also have "\<dots> \<longleftrightarrow> \<bar>v\<bar> < 10 ^ (prec - sc)"
    unfolding r(1) [symmetric] abs_dec_val r(3) using pow_split [OF assms(2)]
    by (simp add: divide_less_eq mult.commute)
  finally have le: "(precision (round_to_scale d sc) - sc > prec - sc) = (\<not> \<bar>v\<bar> < 10 ^ (prec - sc))" .
  have "w32 (prec + 2 ^ 32 - sc) = w32 (prec - sc)"
    unfolding w32_def diff_add_assoc2 [OF assms(2)] by (rule mod_add_self2)
  also have "\<dots> = prec - sc" using assms(3) by (intro w32_id) (simp add: MAX_PRECISION_def)
  finally have w: "w32 (prec + 2 ^ 32 - sc) = prec - sc" .
  show "coerce_to_typmod d prec sc =
    (if \<bar>v\<bar> < 10 ^ (prec - sc) then Inr (round_to_scale d sc) else Inl decimal_overflow)"
    unfolding coerce_to_typmod_def Let_def w le by simp
qed

lemma i64_fold_eq:
  assumes "limbs_ok ls" "0 \<le> v" "v \<le> 2 ^ 63"
  shows "i64_fold v ls =
    (if v * int BASE ^ length ls + int (mval (rev ls)) \<le> 2 ^ 63
     then Some (v * int BASE ^ length ls + int (mval (rev ls))) else None)"
  using assms
proof (induction ls arbitrary: v)
  case (Cons l ls)
  define w where "w = v * int BASE + int l"
  have l: "l < BASE" "limbs_ok ls" using Cons.prems by simp_all
  have w0: "0 \<le> w" using Cons.prems by (simp add: w_def)
  have "v * int BASE \<le> 2 ^ 63 * int BASE" using Cons.prems by (intro mult_right_mono) simp_all
  then have b: "0 \<le> v * int BASE" "v * int BASE < 2 ^ 126" "w < 2 ^ 126"
    using Cons.prems l by (simp_all add: w_def BASE_def)
  then have "Option.bind (i128_opt (v * int BASE)) (\<lambda>v. i128_opt (v + int l)) = Some w"
    using w0 by (simp add: i128_opt_def w_def)
  then have step: "i64_fold v (l # ls) = (if w > 2 ^ 63 then None else i64_fold w ls)"
    by (simp add: I64_TOP_def)
  have V: "v * int BASE ^ length (l # ls) + int (mval (rev (l # ls)))
      = w * int BASE ^ length ls + int (mval (rev ls))"
    by (simp add: w_def algebra_simps)
  show ?case
  proof (cases "w \<le> 2 ^ 63")
    case True
    then show ?thesis unfolding V using Cons.IH [OF l(2) w0 True] step by simp
  next
    case False
    have "w * 1 \<le> w * int BASE ^ length ls"
      using w0 by (intro mult_left_mono) simp_all
    then have "\<not> w * int BASE ^ length ls + int (mval (rev ls)) \<le> 2 ^ 63" using False by linarith
    then show ?thesis unfolding V using step False by simp
  qed
qed simp

lemma to_i64_round_eq:
  assumes "dec_norm d"
  defines "v \<equiv> round_half 1 (dec_val d)"
  shows "to_i64_round d = (if - (2 ^ 63) \<le> v \<and> v < 2 ^ 63 then Some \<lfloor>v\<rfloor> else None)"
proof -
  define r where "r = round_to_scale d 0"
  have r: "dec_norm r" "dec_val r = v" "scale r = 0"
    using round_to_scale [OF assms(1), of 0] by (simp_all add: r_def v_def)
  define m where "m = int (mval (limbs r))"
  have v: "v = of_int (if neg r then - m else m)"
    using r by (auto simp: dec_val_def m_def sgn_of_def)
  have f: "i64_fold 0 (rev (limbs r)) = (if m \<le> 2 ^ 63 then Some m else None)"
    using i64_fold_eq [of "rev (limbs r)" 0] r(1) by (simp add: m_def)
  have m0: "0 \<le> m" by (simp add: m_def)
  have neg0: "neg r \<Longrightarrow> 0 < m" using r(1) mval_pos [of "limbs r"] by (auto simp: m_def dec_norm_def)
  define k where "k = (if neg r then - m else m)"
  have bounds: "- (2 ^ 63) \<le> v \<and> v < 2 ^ 63 \<longleftrightarrow> - (2 ^ 63) \<le> k \<and> k < 2 ^ 63"
  proof -
    have "(- (2 ^ 63) :: rat) = of_int (- (2 ^ 63))" "(2 ^ 63 :: rat) = of_int (2 ^ 63)" by simp_all
    then show ?thesis unfolding v k_def [symmetric] by (simp only: of_int_le_iff of_int_less_iff)
  qed
  have fl: "\<lfloor>v\<rfloor> = k" unfolding v k_def by (rule floor_of_int)
  have "to_i64_round d = Option.bind (if m \<le> 2 ^ 63 then Some m else None)
      (\<lambda>m. let s = (if neg r then - m else m) in if - I64_TOP - 1 \<le> s \<and> s \<le> I64_TOP then Some s else None)"
    unfolding to_i64_round_def r_def [symmetric] Let_def f ..
  also have "\<dots> = (if - (2 ^ 63) \<le> k \<and> k < 2 ^ 63 then Some k else None)"
    using m0 neg0 by (auto simp: k_def I64_TOP_def Let_def)
  finally show ?thesis unfolding bounds fl .
qed

section \<open>The canonical form and equality\<close>

lemma strip_zeros:
  assumes "strip_zeros ds sc = (es, t)"
  shows "\<exists>k. ds = es @ replicate k (CHR ''0'') \<and> sc = t + k \<and> (t = 0 \<or> es = [] \<or> last es \<noteq> CHR ''0'')"
  using assms
proof (induction ds sc rule: strip_zeros.induct)
  case (2 ds sc)
  show ?case
  proof (cases "ds \<noteq> [] \<and> last ds = CHR ''0''")
    case True
    then have "strip_zeros (butlast ds) sc = (es, t)" using "2.prems" by simp
    with "2.IH" [OF True] obtain k where
      k: "butlast ds = es @ replicate k (CHR ''0'')" "sc = t + k" "t = 0 \<or> es = [] \<or> last es \<noteq> CHR ''0''"
      by blast
    have "ds = butlast ds @ [CHR ''0'']" using True by (metis append_butlast_last_id)
    then have "ds = es @ replicate (Suc k) (CHR ''0'')"
      unfolding k(1) by (simp add: replicate_append_same)
    then show ?thesis using k(2,3) by (intro exI [of _ "Suc k"]) simp
  next
    case False
    then show ?thesis using "2.prems" by auto
  qed
qed auto

text \<open>
  \<open>canonical d\<close> is the decimal of \<open>d\<close>'s value with the least scale, so it is a function of the
  value and determines it.
\<close>

definition least_form :: "decimal \<Rightarrow> bool" where
  "least_form d \<longleftrightarrow> dec_norm d \<and> (scale d = 0 \<or> mval (limbs d) mod 10 \<noteq> 0)"

lemma canonical_form:
  assumes "dec_norm d" "canonical d = (n, l, t)"
  shows "least_form \<lparr> neg = n, scale = t, limbs = l \<rparr>" "dec_val \<lparr> neg = n, scale = t, limbs = l \<rparr> = dec_val d"
proof -
  have "least_form \<lparr> neg = n, scale = t, limbs = l \<rparr> \<and> dec_val \<lparr> neg = n, scale = t, limbs = l \<rparr> = dec_val d"
  proof (cases "limbs d = []")
    case True
    then show ?thesis using assms by (simp add: canonical_def least_form_def dec_norm_def dec_val_def)
  next
    case False
    define m where "m = mval (limbs d)"
    have m: "0 < m" unfolding m_def using mval_pos assms(1) False by simp
    define ds where "ds = dec_str m"
    have ds: "mag_to_decimal_str (limbs d) = ds" using assms(1) by (simp add: mag_to_decimal_str ds_def m_def)
    obtain es t' where st: "strip_zeros ds (scale d) = (es, t')" by force
    have nt: "n = neg d" "l = mag_from_decimal_str es" "t = t'"
      using assms(2) False by (simp_all add: canonical_def ds st)
    obtain k where k: "ds = es @ replicate k (CHR ''0'')" "scale d = t + k"
      "t = 0 \<or> es = [] \<or> last es \<noteq> CHR ''0''"
      using strip_zeros [OF st] nt(3) by blast
    have dd: "all_digits ds" "dval_from 0 ds = int m" using dec_str_ok [of m] by (simp_all add: ds_def)
    have es: "all_digits es" using dd(1) unfolding k(1) by simp
    have ve: "int m = dval_from 0 es * 10 ^ k"
      using dd(2) dval_from_shift [of "dval_from 0 es" "replicate k (CHR ''0'')"] unfolding k(1) by simp
    have e0: "0 \<le> dval_from 0 es" using dval_bounds [OF es] by simp
    have pos: "0 < dval_from 0 es"
    proof (rule ccontr)
      assume "\<not> ?thesis"
      with e0 ve have "int m = 0" by simp
      with m show False by simp
    qed
    have lv: "int (mval l) = dval_from 0 es" "mag_norm l"
      using es e0 unfolding nt(2) by simp_all
    have ne: "l \<noteq> []" using lv pos by auto
    have mod: "t = 0 \<or> mval l mod 10 \<noteq> 0"
    proof (cases "t = 0")
      case False
      have "es \<noteq> []" using pos by auto
      then obtain fs c where fc: "es = fs @ [c]" using rev_exhaust by blast
      have c: "is_digit c" "c \<noteq> CHR ''0''" using es k(3) False fc by auto
      have "int (mval l) = dval_from 0 fs * 10 + digit_val c" unfolding lv(1) fc by simp
      moreover have "0 < digit_val c" "digit_val c \<le> 9"
        using c digit_val_range [of c] digit_val_0_iff [of c] by auto
      ultimately have "int (mval l) mod 10 = digit_val c" by simp
      moreover have "int (mval l) mod 10 = int (mval l mod 10)" by (simp add: of_nat_mod)
      ultimately have "mval l mod 10 \<noteq> 0" using \<open>0 < digit_val c\<close> by auto
      then show ?thesis ..
    qed simp
    have "int m = int (mval l * 10 ^ k)" using ve lv(1) by simp
    then have "m = mval l * 10 ^ k" by (simp only: of_nat_eq_iff)
    then have "dec_val d = sgn_of n * of_nat (mval l * 10 ^ k) / 10 ^ (t + k)"
      by (simp only: dec_val_def m_def [symmetric] nt(1) k(2))
    also have "\<dots> = dec_val \<lparr> neg = n, scale = t, limbs = l \<rparr>"
      by (simp add: dec_val_def power_add)
    finally have "dec_val d = dec_val \<lparr> neg = n, scale = t, limbs = l \<rparr>" .
    then show ?thesis using lv(2) ne mod by (simp add: least_form_def dec_norm_def)
  qed
  then show "least_form \<lparr> neg = n, scale = t, limbs = l \<rparr>" "dec_val \<lparr> neg = n, scale = t, limbs = l \<rparr> = dec_val d"
    by auto
qed

lemma least_form_scale_le:
  assumes "least_form a" "least_form b" "dec_val a = dec_val b"
  shows "scale b \<le> scale a"
proof (rule ccontr)
  assume "\<not> ?thesis"
  then have lt: "scale a < scale b" by simp
  have "(of_nat (mval (limbs b)) :: rat) / 10 ^ scale b = of_nat (mval (limbs a)) / 10 ^ scale a"
    using assms(3) by (simp add: abs_dec_val [symmetric])
  then have "(of_nat (mval (limbs b)) :: rat) = of_nat (mval (limbs a) * 10 ^ (scale b - scale a))"
    using lt by (simp add: pow_split [of "scale a" "scale b"] field_simps)
  then have "mval (limbs b) = mval (limbs a) * 10 ^ (scale b - scale a)" by (simp only: of_nat_eq_iff)
  moreover obtain j where "scale b - scale a = Suc j" using lt by (metis Suc_diff_Suc)
  ultimately have "mval (limbs b) mod 10 = 0" by simp
  then show False using assms(2) lt by (simp add: least_form_def)
qed

lemma least_form_unique:
  assumes "least_form a" "least_form b" "dec_val a = dec_val b"
  shows "a = b"
proof (rule dec_eqI)
  show "scale a = scale b"
    using least_form_scale_le [OF assms] least_form_scale_le [OF assms(2,1) assms(3) [symmetric]] by simp
qed (use assms in \<open>simp_all add: least_form_def\<close>)

lemma dec_eq_iff:
  assumes "dec_norm a" "dec_norm b"
  shows "dec_eq a b \<longleftrightarrow> dec_val a = dec_val b"
proof -
  obtain n l t where a: "canonical a = (n, l, t)" by (metis prod_cases3)
  obtain n' l' t' where b: "canonical b = (n', l', t')" by (metis prod_cases3)
  note ca = canonical_form [OF assms(1) a] and cb = canonical_form [OF assms(2) b]
  show ?thesis
  proof
    assume "dec_eq a b"
    then show "dec_val a = dec_val b" using a b ca(2) cb(2) by (simp add: dec_eq_def)
  next
    assume "dec_val a = dec_val b"
    then show "dec_eq a b" using least_form_unique [OF ca(1) cb(1)] ca(2) cb(2) a b by (simp add: dec_eq_def)
  qed
qed

section \<open>The value codec\<close>

lemma from_codec_to_codec:
  assumes "dec_norm d" "to_codec d = (n, s, gs)"
  shows "from_codec n s gs = d"
proof -
  have g: "n = neg d" "s = scale d" "mag_from_nbase4 gs = limbs d"
    using assms mag_nbase4_roundtrip [OF dec_norm_limbs(1) [OF assms(1)]] by (auto simp: to_codec_def)
  show ?thesis unfolding from_codec_def g
    using assms(1) by (cases d) (auto simp: from_parts_def Let_def dec_norm_def)
qed

end
