(* ===== verification/Decimal_Scale.thy ===== *)
theory Decimal_Scale
  imports Decimal_Round
begin

text \<open>
  Result scales: how many digits a decimal quotient or square root carries, and that the square
  root is the nearest decimal of its scale. Also the size of a codec image in groups.
\<close>

section \<open>Square root\<close>

lemma mag_isqrt:
  assumes "mag_norm n" "n \<noteq> []" "length n < 2 ^ 27"
  shows "mag_norm (mag_isqrt n)" "(mval (mag_isqrt n))\<^sup>2 \<le> mval n" "mval n < (mval (mag_isqrt n) + 1)\<^sup>2"
proof -
  define l where "l = length (dec_str (mval n))"
  have c: "mag_digit_count n = l" using mag_digit_count [OF assms(1)] assms by (simp add: l_def)
  have pos: "0 < mval n" using mval_pos assms by blast
  have lb: "l \<le> 9 * 2 ^ 27"
  proof (rule ccontr)
    assume "\<not> ?thesis"
    then have "9 * length n < l" using assms(3) by simp
    then have "(10 :: nat) ^ (9 * length n) \<le> 10 ^ (l - 1)" by (intro power_increasing) simp_all
    also have "\<dots> \<le> mval n" using dec_str_length_bounds [OF pos] by (simp add: l_def)
    also have "\<dots> < BASE ^ length n" using assms(1) by (simp add: mval_less)
    also have "\<dots> = 10 ^ (9 * length n)" by (simp add: BASE_power power_mult)
    finally show False by simp
  qed
  define h where "h = (l + 1) div 2"
  have w: "w32 (mag_digit_count n + 1) div 2 = h" using lb unfolding c h_def by (simp add: w32_id)
  have "mval n < 10 ^ l" using dec_str_length_bounds [OF pos] by (simp add: l_def)
  also have "(10 :: nat) ^ l \<le> 10 ^ (h + h)" unfolding h_def by (intro power_increasing) simp_all
  also have "\<dots> = (10 ^ h)\<^sup>2" by (simp add: power_add power2_eq_square)
  also have "\<dots> \<le> (10 ^ h + 1)\<^sup>2" by (rule power_mono) simp_all
  finally have lt: "mval n < (mval (mag_pow10 h) + 1)\<^sup>2" by simp
  have "mag_isqrt n = isqrt_loop n (mag_pow10 h)" using assms(2) unfolding mag_isqrt_def w by simp
  then show "mag_norm (mag_isqrt n)" "(mval (mag_isqrt n))\<^sup>2 \<le> mval n" "mval n < (mval (mag_isqrt n) + 1)\<^sup>2"
    using isqrt_loop [OF assms(1) mag_pow10(2) mag_pow10_nonempty assms(2) lt] by simp_all
qed

text \<open>\<open>nearest_root u r v\<close>: \<open>r\<close> is a multiple of the unit within half a unit of the root of \<open>v\<close>.\<close>

definition nearest_root :: "rat \<Rightarrow> rat \<Rightarrow> rat \<Rightarrow> bool" where
  "nearest_root u r v \<longleftrightarrow> (\<exists>k. r = of_nat k * u) \<and> (0 < r \<longrightarrow> (r - u / 2)\<^sup>2 \<le> v) \<and> v < (r + u / 2)\<^sup>2"

text \<open>Rounding the floor of the root at a finer unit rounds the root itself.\<close>

lemma nearest_root_of_floor:
  fixes v :: rat and g t j :: nat
  assumes g: "(of_nat g)\<^sup>2 \<le> v * (10 ^ (t + Suc j))\<^sup>2" "v * (10 ^ (t + Suc j))\<^sup>2 < (of_nat g + 1)\<^sup>2"
  shows "nearest_root (1 / 10 ^ t) (round_half (1 / 10 ^ t) (of_nat g / 10 ^ (t + Suc j))) v"
proof -
  define P where "P = (10 :: rat) ^ Suc j"
  define T where "T = (10 :: rat) ^ t"
  define H :: nat where "H = 5 * 10 ^ j"
  have P: "0 < P" "P / 2 = of_nat H" and T: "0 < T" by (simp_all add: P_def T_def H_def)
  define q where "q = nat \<lfloor>(of_nat g / P :: rat) + 1 / 2\<rfloor>"
  have f0: "0 \<le> \<lfloor>(of_nat g / P :: rat) + 1 / 2\<rfloor>" using P by simp
  have q: "(of_nat q :: rat) = of_int \<lfloor>(of_nat g / P :: rat) + 1 / 2\<rfloor>" using f0 by (simp add: q_def)
  define r where "r = of_nat q / T"
  have pw: "(10 :: rat) ^ (t + Suc j) = T * P" by (simp add: T_def P_def power_add)
  have rr: "round_half (1 / 10 ^ t) (of_nat g / 10 ^ (t + Suc j)) = r"
  proof -
    have "\<bar>of_nat g / (T * P)\<bar> / (1 / T) = (of_nat g / P :: rat)" using P T by simp
    then have "round_half (1 / T) (of_nat g / (T * P)) = sgn (of_nat g / (T * P)) * of_nat q * (1 / T)"
      unfolding round_half_def q by simp
    also have "\<dots> = r"
    proof (cases "g = 0")
      case True
      then have "q = 0" by (simp add: q_def)
      then show ?thesis by (simp add: r_def)
    next
      case False
      then have "0 < (of_nat g / (T * P) :: rat)" using P T by simp
      then have "sgn (of_nat g / (T * P) :: rat) = 1" by (rule sgn_pos)
      then show ?thesis unfolding r_def by (simp only: mult_1 times_divide_eq_right mult_1_right)
    qed
    finally show ?thesis unfolding pw by (simp only: T_def)
  qed
  have qb: "of_nat q \<le> of_nat g / P + 1 / 2" "of_nat g / P + 1 / 2 < of_nat q + 1"
    unfolding q by (rule of_int_floor_le, rule floor_correct [THEN conjunct2, simplified])
  have lo: "of_nat q * P \<le> of_nat g + of_nat H" using qb(1) P by (simp add: field_simps P(2) [symmetric])
  have hi: "of_nat g < of_nat q * P + of_nat H"
    using qb(2) P by (simp add: field_simps P(2) [symmetric])
  have PN: "P = of_nat (10 ^ Suc j)" by (simp add: P_def)
  have hi': "of_nat g + 1 \<le> of_nat q * P + of_nat H"
  proof -
    have "(of_nat g :: rat) < of_nat (q * 10 ^ Suc j + H)" using hi by (simp add: PN)
    then have "g < q * 10 ^ Suc j + H" by (simp only: of_nat_less_iff)
    then have "g + 1 \<le> q * 10 ^ Suc j + H" by simp
    then have "(of_nat (g + 1) :: rat) \<le> of_nat (q * 10 ^ Suc j + H)" by (simp only: of_nat_le_iff)
    then show ?thesis by (simp add: PN)
  qed
  have scale1: "(r + 1 / T / 2) * (T * P) = of_nat q * P + of_nat H"
    "(r - 1 / T / 2) * (T * P) = of_nat q * P - of_nat H"
    using T by (simp_all add: r_def field_simps P(2) [symmetric])
  have "v * (T * P)\<^sup>2 < (of_nat q * P + of_nat H)\<^sup>2"
  proof -
    have "(of_nat g + 1)\<^sup>2 \<le> (of_nat q * P + of_nat H)\<^sup>2" using hi' by (intro power_mono) simp_all
    then show ?thesis using g(2) unfolding pw by linarith
  qed
  then have "v * (T * P)\<^sup>2 < (r + 1 / T / 2)\<^sup>2 * (T * P)\<^sup>2"
    unfolding scale1(1) [symmetric] power_mult_distrib .
  then have up: "v < (r + 1 / T / 2)\<^sup>2" using P T by simp
  have dn: "(r - 1 / T / 2)\<^sup>2 \<le> v" if "0 < r"
  proof -
    have "0 < q" using that T by (cases q) (simp_all add: r_def)
    then have "1 * P \<le> of_nat q * P" using P by (intro mult_right_mono) simp_all
    then have "0 \<le> of_nat q * P - of_nat H" using P by linarith
    moreover have "of_nat q * P - of_nat H \<le> of_nat g" using lo by simp
    ultimately have "(of_nat q * P - of_nat H)\<^sup>2 \<le> (of_nat g)\<^sup>2" by (intro power_mono)
    then have "(r - 1 / T / 2)\<^sup>2 * (T * P)\<^sup>2 \<le> v * (T * P)\<^sup>2"
      using g(1) unfolding pw scale1(2) [symmetric] power_mult_distrib by linarith
    then show ?thesis using P T by simp
  qed
  show ?thesis unfolding nearest_root_def rr using up dn by (auto simp: r_def T_def)
qed

lemma sqrt_var_nearest:
  assumes "dec_ok d" "0 \<le> dec_val d" "t \<le> MAX_SCALE"
  obtains r where "sqrt_var d (int t) = Inr r" "dec_norm r" "scale r = t"
    "nearest_root (1 / 10 ^ t) (dec_val r) (dec_val d)"
proof (cases "dec_val d = 0")
  case True
  have "w32 (nat (max (int t) 0)) = t" using assms(3) by (simp add: w32_id MAX_SCALE_def)
  then have "sqrt_var d (int t) = Inr (dec_zero t)"
    using True assms(1) by (simp add: sqrt_var_def)
  moreover have "nearest_root (1 / 10 ^ t) 0 0" by (auto simp: nearest_root_def intro: exI [of _ 0])
  ultimately show thesis using that [of "dec_zero t"] True by simp
next
  case False
  have dn: "dec_norm d" and sc: "scale d \<le> MAX_SCALE" using assms(1) by simp_all
  have nz: "\<not> is_zero d" using False dn by simp
  have ng: "\<not> neg d" using dec_val_sign [OF dn] assms(2) by auto
  define kc where "kc = (if 2 * (t + 1) < scale d then (scale d + 1) div 2 + 1 else t + 1)"
  have kc_int: "(if 2 * (max (int t) 0 + 1) < int (scale d) then (int (scale d) + 1) div 2 + 1
      else max (int t) 0 + 1) = int kc"
    by (auto simp: kc_def zdiv_int add.commute)
  have k: "t < kc" "scale d \<le> 2 * kc" "kc \<le> MAX_SCALE + 1"
    using sc assms(3) by (auto simp: kc_def)
  define n where "n = mag_mul_pow10 (limbs d) (2 * kc - scale d)"
  define g where "g = mag_isqrt n"
  have w: "w32 (nat (2 * int kc - int (scale d))) = 2 * kc - scale d" "w32 (nat (int kc)) = kc"
    "w32 (nat (int t)) = t"
  proof -
    have "nat (2 * int kc - int (scale d)) = 2 * kc - scale d" by simp
    then show "w32 (nat (2 * int kc - int (scale d))) = 2 * kc - scale d"
      using k by (simp add: w32_id MAX_SCALE_def)
  qed (use k assms(3) in \<open>simp_all add: w32_id MAX_SCALE_def\<close>)
  define a where "a = from_parts False kc g"
  have s: "sqrt_var d (int t) = Inr (round_to_scale a t)"
    unfolding sqrt_var_def Let_def kc_int w round_var_def n_def [symmetric] g_def [symmetric] a_def [symmetric]
    using nz ng by simp
  have n: "mag_norm n" "mval n = mval (limbs d) * 10 ^ (2 * kc - scale d)" using dn by (simp_all add: n_def)
  have n0: "n \<noteq> []" using n False mval_pos [of "limbs d"] dn by (cases n) (auto simp: dec_val_def)
  have "mval n < 10 ^ (MAX_INT_DIGITS + scale d) * 10 ^ (2 * kc - scale d)"
    unfolding n(2) using dec_ok_mval [OF assms(1)] by simp
  then have "mval n < 10 ^ (MAX_INT_DIGITS + 2 * kc)" using k(2) by (simp add: power_add [symmetric])
  then have "length n \<le> MAX_INT_DIGITS + 2 * kc" by (rule mag_length_le [OF n(1)])
  also have "\<dots> < 2 ^ 27" using k(3) by (simp add: MAX_INT_DIGITS_def MAX_SCALE_def)
  finally have "length n < 2 ^ 27" .
  note i = mag_isqrt [OF n(1) n0 this, folded g_def]
  have nv: "(of_nat (mval n) :: rat) = dec_val d * (10 ^ kc)\<^sup>2"
  proof -
    have "(10 :: rat) ^ (2 * kc) = 10 ^ scale d * 10 ^ (2 * kc - scale d)" by (rule pow_split [OF k(2)])
    then show ?thesis
      using ng by (simp add: n(2) dec_val_def power_mult [symmetric] mult.commute)
  qed
  obtain j where j: "kc = t + Suc j" using k(1) by (metis less_imp_Suc_add add_Suc_right)
  have b: "(of_nat (mval g))\<^sup>2 \<le> dec_val d * (10 ^ (t + Suc j))\<^sup>2"
    "dec_val d * (10 ^ (t + Suc j))\<^sup>2 < (of_nat (mval g) + 1)\<^sup>2"
  proof -
    have "(of_nat ((mval g)\<^sup>2) :: rat) \<le> of_nat (mval n)" using i(2) by (simp only: of_nat_le_iff)
    then show "(of_nat (mval g))\<^sup>2 \<le> dec_val d * (10 ^ (t + Suc j))\<^sup>2" unfolding nv j by simp
    have "(of_nat (mval n) :: rat) < of_nat ((mval g + 1)\<^sup>2)" using i(3) by (simp only: of_nat_less_iff)
    then show "dec_val d * (10 ^ (t + Suc j))\<^sup>2 < (of_nat (mval g) + 1)\<^sup>2"
      unfolding nv j by (simp add: add.commute)
  qed
  have an: "dec_norm a" "dec_val a = of_nat (mval g) / 10 ^ (t + Suc j)"
    using i(1) by (simp_all add: a_def from_parts_val j)
  note r = round_to_scale [OF an(1), of t]
  show thesis
  proof (rule that [OF s r(2,3)])
    show "nearest_root (1 / 10 ^ t) (dec_val (round_to_scale a t)) (dec_val d)"
      unfolding r(1) an(2) using b by (rule nearest_root_of_floor)
  qed
qed


definition sqrt_scale :: "decimal \<Rightarrow> nat" where
  "sqrt_scale d =
     nat (min (max (max (MIN_SIG_DIGITS - (nbase_weight d * 4 div 2 + 1)) (int (scale d))) 0) (int MAX_PRECISION))"

lemma MAX_INT_DIGITS_pow: "(10 :: rat) \<le> 10 ^ MAX_INT_DIGITS"
proof -
  have "1 \<le> MAX_INT_DIGITS" by (simp add: MAX_INT_DIGITS_def)
  then show ?thesis using ten_pow_mono [of 1 MAX_INT_DIGITS] by simp
qed

lemma nearest_root_fits:
  assumes "nearest_root (1 / 10 ^ t) r v" "fits v"
  shows "fits r"
proof (rule ccontr)
  define M where "M = (10 :: rat) ^ MAX_INT_DIGITS"
  define u where "u = (1 :: rat) / 10 ^ t"
  obtain k where "r = of_nat k * u" using assms(1) unfolding nearest_root_def u_def by blast
  moreover have u: "0 < u" "u \<le> 1" by (simp_all add: u_def divide_le_eq)
  ultimately have r0: "0 \<le> r" by simp
  assume "\<not> fits r"
  then have r: "M \<le> r" using r0 by (simp add: fits_def M_def)
  have M: "10 \<le> M" unfolding M_def by (rule MAX_INT_DIGITS_pow)
  have "M \<le> (M - 1 / 2)\<^sup>2"
  proof -
    have "0 \<le> M * (M - 2)" using M by (intro mult_nonneg_nonneg) simp_all
    then show ?thesis by (simp add: power2_eq_square algebra_simps)
  qed
  also have "\<dots> \<le> (r - u / 2)\<^sup>2" using M r u by (intro power_mono) linarith+
  also have "\<dots> \<le> v"
  proof -
    have "0 < r" using r M by linarith
    then show ?thesis using assms(1) unfolding nearest_root_def u_def by blast
  qed
  finally have "M \<le> v" .
  moreover have "\<bar>v\<bar> < M" using assms(2) unfolding fits_def M_def .
  ultimately show False by linarith
qed

lemma dec_sqrt_returns:
  assumes "dec_ok d"
  shows "dec_val d < 0 \<Longrightarrow> dec_sqrt d = Inl sqrt_negative"
    "0 \<le> dec_val d \<Longrightarrow> \<exists>r. dec_sqrt d = Inr r \<and> dec_ok r \<and> scale r = sqrt_scale d
      \<and> nearest_root (1 / 10 ^ sqrt_scale d) (dec_val r) (dec_val d)"
proof -
  define t where "t = sqrt_scale d"
  have ti: "min (max (max (MIN_SIG_DIGITS - (nbase_weight d * 4 div 2 + 1)) (int (scale d))) 0) (int MAX_PRECISION) = int t"
    unfolding t_def sqrt_scale_def by (rule nat_0_le [symmetric]) (simp add: MAX_PRECISION_def)
  have tM: "t \<le> MAX_SCALE"
  proof -
    have "int t \<le> int MAX_PRECISION" unfolding ti [symmetric] by (rule min.cobounded2)
    then show ?thesis by (simp add: MAX_PRECISION_def MAX_SCALE_def)
  qed
  have sq: "dec_sqrt d = res_bind (sqrt_var d (int t)) check_cap"
    unfolding dec_sqrt_def Let_def ti ..
  have dn: "dec_norm d" using assms by simp
  {
    assume "dec_val d < 0"
    then have "neg d" "\<not> is_zero d" using dec_val_sign [OF dn] dn by auto
    then show "dec_sqrt d = Inl sqrt_negative" by (simp add: sq sqrt_var_def)
  }
  assume "0 \<le> dec_val d"
  from sqrt_var_nearest [OF assms this tM] obtain r where
    r: "sqrt_var d (int t) = Inr r" "dec_norm r" "scale r = t" "nearest_root (1 / 10 ^ t) (dec_val r) (dec_val d)" .
  have f: "fits (dec_val d)" using dec_ok_bound [OF assms] by (simp add: fits_def)
  note fr = nearest_root_fits [OF r(4) f]
  have ok: "dec_ok r" unfolding dec_ok_def using r(2,3) tM fr by simp
  then have "check_cap r = Inr r" using check_cap_eq [OF r(2)] by simp
  then have "dec_sqrt d = Inr r" by (simp add: sq r(1))
  with ok r(3,4) show "\<exists>r. dec_sqrt d = Inr r \<and> dec_ok r \<and> scale r = sqrt_scale d
      \<and> nearest_root (1 / 10 ^ sqrt_scale d) (dec_val r) (dec_val d)"
    unfolding t_def by blast
qed

section \<open>Digits of a quotient\<close>

text \<open>The leading group \<open>f\<close> and its weight \<open>w\<close> in base \<open>10\<^sup>4\<close>.\<close>

lemma leading_digits:
  assumes "all_digits s"
  shows "foldl (\<lambda>f i. f * 10 + (if i < length s then digit_val (s ! i) else 0)) 0 [0..<g]
    = dval_from 0 (take g s @ replicate (g - length s) (CHR ''0''))"
proof (induction g)
  case (Suc g)
  show ?case
  proof (cases "g < length s")
    case True
    then show ?thesis using Suc by (simp add: take_Suc_conv_app_nth)
  next
    case False
    then have "Suc g - length s = Suc (g - length s)" by simp
    then show ?thesis using Suc False by (simp add: replicate_append_same [symmetric])
  qed
qed simp

lemma powi_ten_nat: "(10 :: rat) powi (int n) = 10 ^ n"
  by (simp add: power_int_def)

lemma nbase4_weight_lead:
  assumes "dec_norm d" "sized d" "dec_val d \<noteq> 0" "nbase4_weight_lead d = (w, f)"
  shows "1 \<le> f" "f \<le> 9999" "of_int f * 10 powi (4 * w) \<le> \<bar>dec_val d\<bar>" "\<bar>dec_val d\<bar> < of_int (f + 1) * 10 powi (4 * w)"
proof -
  have ne: "limbs d \<noteq> []" using assms(3) by (auto simp: dec_val_def)
  define m where "m = mval (limbs d)"
  have m: "0 < m" unfolding m_def using mval_pos assms(1) ne by simp
  define ds where "ds = dec_str m"
  have ds: "all_digits ds" "ds \<noteq> []" "dval_from 0 ds = int m" "hd ds \<noteq> CHR ''0''"
    using dec_str_ok [of m] hd_dec_str [OF m] by (simp_all add: ds_def)
  define e where "e = int (length ds) - 1 - int (scale d)"
  define g where "g = nat (e - 4 * (e div 4) + 1)"
  have prec: "precision d = length ds" using precision_eq [OF assms(1,2)] ne by (simp add: ds_def m_def)
  have wf: "w = e div 4"
    "f = foldl (\<lambda>f i. f * 10 + (if i < length ds then digit_val (ds ! i) else 0)) 0 [0..<g]"
  proof -
    have str: "mag_to_decimal_str (limbs d) = ds" using assms(1) by (simp add: mag_to_decimal_str ds_def m_def)
    have "nbase4_weight_lead d = (e div 4,
        foldl (\<lambda>f i. f * 10 + (if i < length ds then digit_val (ds ! i) else 0)) 0 [0..<g])"
      using assms(1,3) unfolding nbase4_weight_lead_def Let_def prec str e_def [symmetric] g_def [symmetric] by simp
    then show "w = e div 4"
      "f = foldl (\<lambda>f i. f * 10 + (if i < length ds then digit_val (ds ! i) else 0)) 0 [0..<g]"
      using assms(4) by simp_all
  qed
  have e4: "e - 4 * (e div 4) = e mod 4" by (simp add: minus_mult_div_eq_mod)
  have g: "1 \<le> g" "g \<le> 4" "int g = e - 4 * w + 1" unfolding g_def wf(1) e4 by simp_all
  define hd_s where "hd_s = take g ds @ replicate (g - length ds) (CHR ''0'')"
  have hs: "all_digits hd_s" "length hd_s = g" "hd hd_s \<noteq> CHR ''0''" "hd_s \<noteq> []" "f = dval_from 0 hd_s"
  proof -
    show "all_digits hd_s"
      using ds(1) unfolding hd_s_def by (metis all_digits_simps(3) append_take_drop_id zeros_digits(1))
    show "length hd_s = g" by (simp add: hd_s_def)
    show "hd hd_s \<noteq> CHR ''0''" using ds(2,4) g(1) by (simp add: hd_s_def hd_append)
    show "hd_s \<noteq> []" using ds(2) g(1) by (simp add: hd_s_def)
    show "f = dval_from 0 hd_s" unfolding wf(2) hd_s_def by (rule leading_digits [OF ds(1)])
  qed
  show "1 \<le> f" using dval_pos [OF hs(1,4,3)] hs(5) by simp
  have "f < 10 ^ g" using dval_bounds [OF hs(1)] hs(2,5) by simp
  also have "(10 :: int) ^ g \<le> 10 ^ 4" using g(2) by (intro power_increasing) simp_all
  finally show "f \<le> 9999" by simp
  text \<open>\<open>f\<close> is the integer part of the coefficient with the point after \<open>g\<close> digits.\<close>
  have split: "of_int f * 10 ^ (length ds - g) \<le> of_nat m * (10 :: rat) ^ (g - length ds) \<and>
    of_nat m * 10 ^ (g - length ds) < of_int (f + 1) * (10 :: rat) ^ (length ds - g)"
  proof (cases "g \<le> length ds")
    case True
    define k where "k = length ds - g"
    have dr: "all_digits (drop g ds)" "length (drop g ds) = k"
      using ds(1) by (metis all_digits_simps(3) append_take_drop_id) (simp add: k_def)
    have "dval_from 0 ds = dval_from (dval_from 0 (take g ds)) (drop g ds)"
      by (metis append_take_drop_id dval_simps(3))
    then have mm: "int m = f * 10 ^ k + dval_from 0 (drop g ds)"
      using dval_from_shift [of "dval_from 0 (take g ds)" "drop g ds"] True ds(3) dr(2)
      by (simp add: hs(5) hd_s_def)
    have b: "0 \<le> dval_from 0 (drop g ds)" "dval_from 0 (drop g ds) < 10 ^ k"
      using dval_bounds [OF dr(1)] dr(2) by simp_all
    have "f * 10 ^ k \<le> int m" "int m < (f + 1) * 10 ^ k" using mm b by (simp_all add: algebra_simps)
    then have "of_int (f * 10 ^ k) \<le> (of_int (int m) :: rat)" "(of_int (int m) :: rat) < of_int ((f + 1) * 10 ^ k)"
      by (simp_all only: of_int_le_iff of_int_less_iff)
    then show ?thesis using True by (simp add: k_def)
  next
    case False
    define k where "k = g - length ds"
    have "f = int m * 10 ^ k"
      using False ds(3) dval_from_shift [of "int m" "replicate k (CHR ''0'')"]
      by (simp add: hs(5) hd_s_def k_def)
    then have "of_int f = (of_nat m * 10 ^ k :: rat)" by simp
    then show ?thesis using False by (simp add: k_def)
  qed
  define L where "L = (10 :: rat) ^ (length ds - g)"
  define G where "G = (10 :: rat) ^ (g - length ds)"
  have LG: "0 < L" "0 < G" by (simp_all add: L_def G_def)
  have "10 powi (4 * w) * (10 ^ scale d * G) = L"
  proof -
    have "int (length ds - g) = 4 * w + int (scale d) + int (g - length ds)"
      using g(3) by (cases "g \<le> length ds") (simp_all add: e_def)
    then have "(10 :: rat) powi int (length ds - g) = 10 powi (4 * w) * 10 powi int (scale d) * 10 powi int (g - length ds)"
      by (simp add: power_int_add)
    then show ?thesis by (simp add: powi_ten_nat L_def G_def mult.assoc)
  qed
  then have W: "10 powi (4 * w) = L / (10 ^ scale d * G)" using LG by (simp add: field_simps)
  have X: "\<bar>dec_val d\<bar> = of_nat m * G / (10 ^ scale d * G)" using LG by (simp add: abs_dec_val m_def)
  have den: "0 < 10 ^ scale d * G" using LG by simp
  show "of_int f * 10 powi (4 * w) \<le> \<bar>dec_val d\<bar>"
    unfolding W X times_divide_eq_right using den split by (intro divide_right_mono) (simp_all add: L_def G_def)
  show "\<bar>dec_val d\<bar> < of_int (f + 1) * 10 powi (4 * w)"
    unfolding W X times_divide_eq_right using den split by (intro divide_strict_right_mono) (simp_all add: L_def G_def)
qed

text \<open>Unless the display-scale clamp cuts it, a quotient has at least 16 significant digits.\<close>

lemma quotient_digits:
  assumes "dec_ok x" "dec_ok y" "dec_val x \<noteq> 0" "dec_val y \<noteq> 0" "select_div_scale x y < MAX_PRECISION"
  shows "10 ^ 16 \<le> \<bar>dec_val x / dec_val y\<bar> * 10 ^ select_div_scale x y"
proof -
  obtain w1 f1 where a: "nbase4_weight_lead x = (w1, f1)" by force
  obtain w2 f2 where b: "nbase4_weight_lead y = (w2, f2)" by force
  note x = nbase4_weight_lead [OF _ _ assms(3) a] and y = nbase4_weight_lead [OF _ _ assms(4) b]
  have ok: "dec_norm x" "sized x" "dec_norm y" "sized y" using assms by simp_all
  define qw where "qw = (if f1 \<le> f2 then w1 - w2 - 1 else w1 - w2)"
  define s where "s = select_div_scale x y"
  have s: "16 - 4 * qw \<le> int s"
    using assms(5) unfolding s_def select_div_scale_def a b by (simp add: Let_def qw_def min_def max_def split: if_splits)
  define A B where "A = (10 :: rat) powi (4 * w1)" and "B = (10 :: rat) powi (4 * w2)"
  have AB: "0 < A" "0 < B" by (simp_all add: A_def B_def)
  have "10 powi (4 * qw) \<le> \<bar>dec_val x\<bar> / \<bar>dec_val y\<bar>"
  proof -
    have "10 powi (4 * qw) * (of_int (f2 + 1) * B) \<le> of_int f1 * A"
    proof (cases "f1 \<le> f2")
      case True
      then have "4 * qw + 4 * w2 = 4 * w1 - 4" by (simp add: qw_def)
      then have "10 powi (4 * qw) * B = 10 powi (4 * w1 - 4)" unfolding B_def by (metis power_int_add rel_simps(93) zero_neq_numeral)
      also have "\<dots> = A / 10 powi 4" unfolding A_def by (rule power_int_diff) simp
      also have "\<dots> = A / 10000" by (simp add: power_int_def)
      finally have e: "10 powi (4 * qw) * B = A / 10000" .
      have "of_int (f2 + 1) * (A / 10000) \<le> 10000 * (A / 10000)"
      proof (rule mult_right_mono)
        have "f2 + 1 \<le> 10000" using y(2) [OF ok(3,4)] by simp
        then have "(of_int (f2 + 1) :: rat) \<le> of_int 10000" by (simp only: of_int_le_iff)
        then show "(of_int (f2 + 1) :: rat) \<le> 10000" by simp
      qed (use AB in simp)
      also have "\<dots> = 1 * A" by simp
      also have "\<dots> \<le> of_int f1 * A"
      proof (rule mult_right_mono)
        have "(of_int 1 :: rat) \<le> of_int f1" using x(1) [OF ok(1,2)] by (simp only: of_int_le_iff)
        then show "1 \<le> (of_int f1 :: rat)" by simp
      qed (use AB in simp)
      finally show ?thesis unfolding e [symmetric] by (simp only: mult_ac)
    next
      case False
      then have "4 * qw + 4 * w2 = 4 * w1" by (simp add: qw_def)
      then have e: "10 powi (4 * qw) * B = A" unfolding A_def B_def by (metis power_int_add zero_neq_numeral)
      have "of_int (f2 + 1) * A \<le> of_int f1 * A"
      proof (rule mult_right_mono)
        have "f2 + 1 \<le> f1" using False by simp
        then show "of_int (f2 + 1) \<le> (of_int f1 :: rat)" by (simp only: of_int_le_iff)
      qed (use AB in simp)
      then show ?thesis unfolding e [symmetric] by (simp only: mult_ac)
    qed
    moreover have "10 powi (4 * qw) * \<bar>dec_val y\<bar> \<le> 10 powi (4 * qw) * (of_int (f2 + 1) * B)"
      using y(4) [OF ok(3,4)] unfolding B_def by (intro mult_left_mono) simp_all
    ultimately have "10 powi (4 * qw) * \<bar>dec_val y\<bar> \<le> \<bar>dec_val x\<bar>"
      using x(3) [OF ok(1,2)] unfolding A_def by linarith
    then show ?thesis using assms(4) by (simp add: le_divide_eq)
  qed
  then have "10 powi (4 * qw) * 10 ^ s \<le> \<bar>dec_val x\<bar> / \<bar>dec_val y\<bar> * 10 ^ s"
    by (intro mult_right_mono) simp_all
  moreover have "10 powi (4 * qw) * 10 ^ s = (10 :: rat) powi (4 * qw + int s)"
    by (simp add: power_int_add powi_ten_nat)
  moreover have "(10 :: rat) ^ 16 \<le> 10 powi (4 * qw + int s)"
  proof -
    have "(10 :: rat) powi 16 \<le> 10 powi (4 * qw + int s)" using s by (intro power_int_increasing) simp_all
    then show ?thesis by (simp add: power_int_def)
  qed
  ultimately show ?thesis unfolding s_def abs_divide by linarith
qed

section \<open>Size of the codec image\<close>

lemma length_groups_of: "length s mod 4 = 0 \<Longrightarrow> length (groups_of s) = length s div 4"
  by (induction s rule: groups_of.induct) auto

lemma codec_group_count_eq:
  assumes "dec_norm d"
  shows "codec_group_count d = length (snd (snd (to_codec d)))"
proof (cases "limbs d = []")
  case False
  define x xs where "x = last (limbs d)" and "xs = butlast (limbs d)"
  have a: "limbs d = xs @ [x]" using False by (simp add: x_def xs_def)
  have ok: "limbs_ok xs" "0 < x" using dec_norm_limbs(1) [OF assms] unfolding a by simp_all
  define s where "s = mag_to_decimal_str (limbs d)"
  have l: "length s = length (dec_str x) + 9 * length xs"
    using dval_limbs [OF ok(1)] by (simp add: s_def mag_to_decimal_str_def a)
  define p where "p = (4 - length s mod 4) mod 4"
  have "(p + length s) mod 4 = 0" unfolding p_def by (rule pad_to_4)
  then have "length (groups_of (replicate p (CHR ''0'') @ s)) = (p + length s) div 4"
    by (simp add: length_groups_of)
  moreover have "(p + length s) div 4 = (length s + 3) div 4"
  proof -
    have "p + length s = 4 * ((p + length s) div 4)"
      using \<open>(p + length s) mod 4 = 0\<close> by (metis mult_div_mod_eq add_0_right)
    moreover have "p < 4" by (simp add: p_def)
    ultimately show ?thesis by linarith
  qed
  moreover have "mag_to_nbase4 (limbs d) = groups_of (replicate p (CHR ''0'') @ s)"
    using False unfolding mag_to_nbase4_def Let_def s_def [symmetric] p_def [symmetric] by simp
  moreover have "codec_group_count d = (length s + 3) div 4"
    using ok(2) unfolding codec_group_count_def a l by (simp add: add.commute)
  ultimately show ?thesis by (simp add: to_codec_def)
qed (simp add: codec_group_count_def to_codec_def mag_to_nbase4_def)

end
