(* ===== verification/Decimal_Key.thy ===== *)
theory Decimal_Key
  imports Decimal_Scale Encoding
begin

text \<open>
  The order-preserving key of a decimal (\<open>decimal.rs\<close>, \<open>encode_key\<close>): a class byte, the base-100
  exponent, the base-100 digits each plus one, and a terminator, complemented for negative values.
  The locale \<open>value_codec\<close> states the contract of a key over values that are compared by a key of
  their own (a decimal has many representations of one value); the order-preserving bodies of
  \<open>Encoding\<close> give it, and the decimal key interprets it.
\<close>

section \<open>Model\<close>

text \<open>\<open>as i32\<close> and the \<open>i32\<close> arithmetic of the exponent.\<close>

definition wi32 :: "int \<Rightarrow> int" where
  "wi32 x = (x + 2 ^ 31) mod 2 ^ 32 - 2 ^ 31"

fun key_pairs :: "string \<Rightarrow> bytes" where
  "key_pairs (a # b # s) =
     word_of_int ((digit_val a * 10 + digit_val b) + 1) # key_pairs s"
| "key_pairs s = []"

definition encode_key :: "decimal \<Rightarrow> bytes option" where
  "encode_key d =
     (if is_zero d then Some [0x04]
      else
        let digits = mag_to_decimal_str (limbs d);
            decpt = wi32 (wi32 (int (precision d)) - wi32 (int (scale d)));
            digits = rev (dropWhile (\<lambda>c. c = CHR ''0'') (rev digits));
            e = wi32 (decpt + 1) div 2;
            grouped = (if decpt mod 2 = 1 then ''0'' else []) @ digits;
            grouped = grouped @ (if length grouped mod 2 = 1 then ''0'' else [])
        in map_option (\<lambda>ex.
             let body = ex @ key_pairs grouped @ [0x00]
             in if neg d then 0x03 # map NOT body else 0x05 # body) (encode_int Int32 e))"

section \<open>Keys of values\<close>

locale value_codec =
  fixes enc :: "'a \<Rightarrow> bytes"
    and ok :: "'a \<Rightarrow> bool"
    and key :: "'a \<Rightarrow> 'k::linorder"
  assumes enc_dless: "ok a \<Longrightarrow> ok b \<Longrightarrow> key a < key b \<Longrightarrow> dless (enc a) (enc b)"
    and enc_eq: "ok a \<Longrightarrow> ok b \<Longrightarrow> key a = key b \<Longrightarrow> enc a = enc b"
begin

lemma enc_eq_iff: "ok a \<Longrightarrow> ok b \<Longrightarrow> enc a = enc b \<longleftrightarrow> key a = key b"
  by (metis dless_irrefl enc_dless enc_eq linorder_neqE)

text \<open>Bytes that follow the bodies are compared only when the values are equal.\<close>

lemma enc_followed_less:
  assumes "ok a" "ok b"
  shows "enc a @ u < enc b @ v \<longleftrightarrow> key a < key b \<or> key a = key b \<and> u < v"
proof (cases "key a" "key b" rule: linorder_cases)
  case less
  with assms show ?thesis by (simp add: dless_append dless_imp_less enc_dless)
next
  case equal
  with assms show ?thesis using enc_eq [OF assms equal] by (simp add: less_append_eq_length)
next
  case greater
  with assms have "enc b @ v < enc a @ u" by (simp add: dless_append dless_imp_less enc_dless)
  with greater show ?thesis by auto
qed

lemma enc_followed_eq:
  assumes "ok a" "ok b"
  shows "enc a @ u = enc b @ v \<longleftrightarrow> key a = key b \<and> u = v"
proof
  assume "enc a @ u = enc b @ v"
  then have "\<not> enc a @ u < enc b @ v" "\<not> enc b @ v < enc a @ u" by simp_all
  then have "key a = key b" using enc_followed_less [OF assms] enc_followed_less [OF assms(2,1)]
    by (metis linorder_neqE)
  with \<open>enc a @ u = enc b @ v\<close> show "key a = key b \<and> u = v" using enc_eq [OF assms] by simp
qed (use enc_eq [OF assms] in simp)

end

text \<open>A codec whose values are their own keys.\<close>

sublocale key_codec \<subseteq> value_codec enc ok id
  by unfold_locales (simp_all add: enc_dless)

section \<open>Base-100 fractions\<close>

fun cfrac :: "nat list \<Rightarrow> rat" where
  "cfrac [] = 0"
| "cfrac (p # ps) = (of_nat p + cfrac ps) / 100"

fun pairs :: "string \<Rightarrow> nat list" where
  "pairs (a # b # s) = nat (digit_val a * 10 + digit_val b) # pairs s"
| "pairs s = []"

abbreviation pair_bytes :: "nat list \<Rightarrow> bytes" where
  "pair_bytes ps \<equiv> map (\<lambda>p. word_of_nat (p + 1)) ps @ [0]"

lemma cfrac_bounds: "list_all (\<lambda>p. p < 100) ps \<Longrightarrow> 0 \<le> cfrac ps \<and> cfrac ps < 1"
proof (induction ps)
  case (Cons p ps)
  then have p: "p \<le> 99" and c: "0 \<le> cfrac ps" "cfrac ps < 1" by auto
  have "(of_nat p :: rat) \<le> of_nat 99" using p by (simp only: of_nat_le_iff)
  then have "(of_nat p :: rat) \<le> 99" by simp
  then have "of_nat p + cfrac ps < 100" "0 \<le> of_nat p + cfrac ps" using c by linarith+
  then show ?case by simp
qed simp

lemma cfrac_pos: "list_all (\<lambda>p. p < 100) ps \<Longrightarrow> ps \<noteq> [] \<Longrightarrow> last ps \<noteq> 0 \<Longrightarrow> 0 < cfrac ps"
proof (induction ps)
  case (Cons p ps)
  show ?case
  proof (cases "ps = []")
    case False
    then have "0 < cfrac ps" using Cons by simp
    moreover have "0 \<le> (of_nat p :: rat)" by simp
    ultimately show ?thesis by (simp add: add_nonneg_pos)
  qed (use Cons.prems in simp)
qed simp

lemma pair_byte_less:
  assumes "p < 100" "q < 100"
  shows "(word_of_nat (p + 1) :: u8) < word_of_nat (q + 1) \<longleftrightarrow> p < q"
    "(word_of_nat (p + 1) :: u8) = word_of_nat (q + 1) \<longleftrightarrow> p = q"
    "0 < (word_of_nat (p + 1) :: u8)"
proof -
  have u: "unat (word_of_nat (n + 1) :: u8) = n + 1" if "n < 100" for n
    unfolding unat_of_nat using that by simp
  show "(word_of_nat (p + 1) :: u8) < word_of_nat (q + 1) \<longleftrightarrow> p < q"
    using u [OF assms(1)] u [OF assms(2)] by (simp only: word_less_nat_alt) simp
  show "(word_of_nat (p + 1) :: u8) = word_of_nat (q + 1) \<longleftrightarrow> p = q"
    using u [OF assms(1)] u [OF assms(2)] by (simp only: word_unat_eq_iff) simp
  show "0 < (word_of_nat (p + 1) :: u8)"
    using u [OF assms(1)] by (simp only: word_less_nat_alt) simp
qed

lemma cfrac_dless:
  assumes "list_all (\<lambda>p. p < 100) ps" "list_all (\<lambda>p. p < 100) qs" "qs \<noteq> [] \<Longrightarrow> last qs \<noteq> 0" "ps \<noteq> [] \<Longrightarrow> last ps \<noteq> 0"
    and "cfrac ps < cfrac qs"
  shows "dless (pair_bytes ps) (pair_bytes qs)"
  using assms
proof (induction ps arbitrary: qs)
  case Nil
  then obtain q qs' where q: "qs = q # qs'" by (cases qs) auto
  then show ?case using Nil pair_byte_less(3) [of q q] by simp
next
  case (Cons p ps)
  obtain q qs' where q: "qs = q # qs'"
    using Cons.prems cfrac_bounds [of "p # ps"] by (cases qs) auto
  have b: "0 \<le> cfrac ps" "cfrac ps < 1" "0 \<le> cfrac qs'" "cfrac qs' < 1" "p < 100" "q < 100"
    using Cons.prems q cfrac_bounds [of ps] cfrac_bounds [of qs'] by simp_all
  have lt: "of_nat p + cfrac ps < of_nat q + cfrac qs'" using Cons.prems(5) q by simp
  have "p \<le> q"
  proof (rule ccontr)
    assume "\<not> p \<le> q"
    then have "q + 1 \<le> p" by simp
    then have "(of_nat (q + 1) :: rat) \<le> of_nat p" by (simp only: of_nat_le_iff)
    then show False using lt b by simp
  qed
  then consider "p < q" | "p = q" by linarith
  then show ?case
  proof cases
    case 1
    then show ?thesis using q pair_byte_less [OF b(5,6)] by simp
  next
    case 2
    then have "dless (pair_bytes ps) (pair_bytes qs')"
      using Cons.prems q lt by (intro Cons.IH) auto
    then show ?thesis using 2 q by simp
  qed
qed

lemma cfrac_eq:
  assumes "list_all (\<lambda>p. p < 100) ps" "list_all (\<lambda>p. p < 100) qs" "qs \<noteq> [] \<Longrightarrow> last qs \<noteq> 0" "ps \<noteq> [] \<Longrightarrow> last ps \<noteq> 0"
    and "cfrac ps = cfrac qs"
  shows "ps = qs"
  using assms
proof (induction ps arbitrary: qs)
  case Nil
  then show ?case using cfrac_pos [of qs] by (cases "qs = []") auto
next
  case (Cons p ps)
  obtain q qs' where q: "qs = q # qs'"
    using Cons.prems cfrac_pos [of "p # ps"] by (cases qs) auto
  have b: "0 \<le> cfrac ps" "cfrac ps < 1" "0 \<le> cfrac qs'" "cfrac qs' < 1"
    using Cons.prems q cfrac_bounds [of ps] cfrac_bounds [of qs'] by simp_all
  have e: "of_nat p + cfrac ps = of_nat q + cfrac qs'" using Cons.prems(5) q by simp
  have "p = q"
  proof (rule ccontr)
    assume "p \<noteq> q"
    then have "p + 1 \<le> q \<or> q + 1 \<le> p" by linarith
    then have "(of_nat (p + 1) :: rat) \<le> of_nat q \<or> (of_nat (q + 1) :: rat) \<le> of_nat p"
      by (simp only: of_nat_le_iff)
    then show False using e b by auto
  qed
  moreover have "ps = qs'" using Cons.prems q e \<open>p = q\<close> by (intro Cons.IH) auto
  ultimately show ?case using q by simp
qed

lemma key_pairs_eq: "all_digits s \<Longrightarrow> key_pairs s @ [0] = pair_bytes (pairs s)"
proof (induction s rule: key_pairs.induct)
  case (1 a b s)
  then have "0 \<le> digit_val a * 10 + digit_val b" using digit_val_range [of a] digit_val_range [of b] by simp
  then have "word_of_int ((digit_val a * 10 + digit_val b) + 1)
      = (word_of_nat (nat (digit_val a * 10 + digit_val b) + 1) :: u8)"
    by (metis nat_0_le of_int_of_nat_eq of_nat_1 of_nat_add)
  with 1 show ?case by simp
qed simp_all

lemma pairs_bound: "all_digits s \<Longrightarrow> list_all (\<lambda>p. p < 100) (pairs s)"
proof (induction s rule: pairs.induct)
  case (1 a b s)
  then show ?case using digit_val_range [of a] digit_val_range [of b] by auto
qed simp_all

lemma cfrac_pairs:
  "all_digits s \<Longrightarrow> even (length s) \<Longrightarrow> cfrac (pairs s) = of_int (dval_from 0 s) / 10 ^ length s"
proof (induction s rule: pairs.induct)
  case (1 a b s)
  define v where "v = digit_val a * 10 + digit_val b"
  have v: "0 \<le> v" using 1 digit_val_range [of a] digit_val_range [of b] by (simp add: v_def)
  have d: "dval_from 0 (a # b # s) = v * 10 ^ length s + dval_from 0 s"
    using dval_from_shift [of v s] by (simp add: v_def)
  have "cfrac (pairs (a # b # s)) = (of_int v + of_int (dval_from 0 s) / 10 ^ length s) / 100"
    using 1 v by (simp add: v_def [symmetric])
  also have "\<dots> = of_int (dval_from 0 (a # b # s)) / 10 ^ length (a # b # s)"
    unfolding d by (simp add: field_simps)
  finally show ?case .
qed auto

lemma last_pairs:
  "all_digits s \<Longrightarrow> even (length s) \<Longrightarrow> s \<noteq> [] \<Longrightarrow> last s \<noteq> CHR ''0'' \<or> last (butlast s) \<noteq> CHR ''0'' \<Longrightarrow>
    pairs s \<noteq> [] \<and> last (pairs s) \<noteq> 0"
proof (induction s rule: pairs.induct)
  case (1 a b s)
  show ?case
  proof (cases "s = []")
    case True
    then have "digit_val a \<noteq> 0 \<or> digit_val b \<noteq> 0"
      using 1 digit_val_0_iff by auto
    then show ?thesis using True 1 digit_val_range [of a] digit_val_range [of b] by auto
  next
    case False
    then obtain c d s' where "s = c # d # s'" using 1 by (cases s; cases "tl s") auto
    with False 1 show ?thesis by (auto split: if_splits)
  qed
qed auto


section \<open>The decimal key orders as the value\<close>

lemma wi32_id: "- (2 ^ 31) \<le> x \<Longrightarrow> x < 2 ^ 31 \<Longrightarrow> wi32 x = x"
  by (simp add: wi32_def)

text \<open>
  The exponent and the digit pairs of a non-zero decimal: the value is \<open>cfrac ps * 100 powi e\<close>,
  at least \<open>100 powi (e - 1)\<close>, and the pairs have no trailing zero pair.
\<close>

definition key_form :: "decimal \<Rightarrow> int \<Rightarrow> nat list \<Rightarrow> bool" where
  "key_form d e ps \<longleftrightarrow> in_width 4 e \<and> list_all (\<lambda>p. p < 100) ps \<and> ps \<noteq> [] \<and> last ps \<noteq> 0 \<and>
     \<bar>dec_val d\<bar> = cfrac ps * 100 powi e \<and> 100 powi (e - 1) \<le> \<bar>dec_val d\<bar> \<and>
     encode_key d =
       (let body = int_body Int32 e @ pair_bytes ps
        in Some (if neg d then 0x03 # map NOT body else 0x05 # body))"

lemma hundred_powi: "(100 :: rat) powi e = 10 powi (2 * e)"
  by (simp add: power_int_mult)

lemma encode_key_form:
  assumes "dec_ok d" "dec_val d \<noteq> 0"
  shows "\<exists>e ps. key_form d e ps"
proof -
  have dn: "dec_norm d" "sized d" using assms by simp_all
  have ne: "limbs d \<noteq> []" using assms(2) by (auto simp: dec_val_def)
  define m where "m = mval (limbs d)"
  have m: "0 < m" unfolding m_def using mval_pos dn(1) ne by simp
  define ds where "ds = dec_str m"
  have ds: "all_digits ds" "ds \<noteq> []" "dval_from 0 ds = int m" "hd ds \<noteq> CHR ''0''"
    using dec_str_ok [of m] hd_dec_str [OF m] by (simp_all add: ds_def)
  define L where "L = length ds"
  have prec: "precision d = L" using precision_eq [OF dn] ne by (simp add: ds_def m_def L_def)
  have Lb: "L \<le> MAX_INT_DIGITS + MAX_SCALE" using precision_bound [OF assms(1)] by (simp add: prec)
  have sb: "scale d \<le> MAX_SCALE" using assms(1) by simp
  define decpt where "decpt = int L - int (scale d)"
  have db: "- 16383 \<le> decpt" "decpt \<le> 147455"
    using Lb sb by (simp_all add: decpt_def MAX_INT_DIGITS_def MAX_SCALE_def)
  have wi: "wi32 (wi32 (int (precision d)) - wi32 (int (scale d))) = decpt" "wi32 (decpt + 1) = decpt + 1"
  proof -
    have "wi32 (int L) = int L" "wi32 (int (scale d)) = int (scale d)"
      using Lb sb by (simp_all add: wi32_id MAX_INT_DIGITS_def MAX_SCALE_def)
    then show "wi32 (wi32 (int (precision d)) - wi32 (int (scale d))) = decpt"
      using db by (simp add: prec decpt_def wi32_id)
  qed (use db in \<open>simp add: wi32_id\<close>)
  define tr where "tr = rev (dropWhile (\<lambda>c. c = CHR ''0'') (rev ds))"
  define z where "z = takeWhile (\<lambda>c. c = CHR ''0'') (rev ds)"
  have "replicate (length z) (CHR ''0'') = z"
    by (intro replicate_length_same) (auto simp: z_def dest: set_takeWhileD)
  then have "rev ds = replicate (length z) (CHR ''0'') @ dropWhile (\<lambda>c. c = CHR ''0'') (rev ds)"
    by (simp add: z_def)
  then have "rev (rev ds) = rev (replicate (length z) (CHR ''0'') @ dropWhile (\<lambda>c. c = CHR ''0'') (rev ds))"
    by (rule arg_cong)
  then have split: "ds = tr @ replicate (length z) (CHR ''0'')"
    by (simp only: tr_def rev_append rev_replicate rev_rev_ident)
  have tr: "all_digits tr" using ds(1) split by (metis all_digits_simps(3))
  have mtr: "int m = dval_from 0 tr * 10 ^ length z"
    using ds(3) dval_from_shift [of "dval_from 0 tr" "replicate (length z) (CHR ''0'')"]
      arg_cong [OF split, of "dval_from 0"] by simp
  have trne: "tr \<noteq> []"
  proof
    assume "tr = []"
    with mtr have "int m = 0" by simp
    with m show False by simp
  qed
  have trlast: "last tr \<noteq> CHR ''0''"
    using trne hd_dropWhile [of "\<lambda>c. c = CHR ''0''" "rev ds"] by (auto simp: tr_def last_rev)
  have Ltr: "L = length tr + length z" using arg_cong [OF split, of length] by (simp add: L_def)
  define a where "a = (if decpt mod 2 = 1 then ''0'' else [])"
  define b where "b = (if length (a @ tr) mod 2 = 1 then ''0'' else [])"
  define G where "G = (a @ tr) @ b"
  define e where "e = (decpt + 1) div 2"
  define ps where "ps = pairs G"
  have G: "all_digits G" "G \<noteq> []" "last G \<noteq> CHR ''0'' \<or> last (butlast G) \<noteq> CHR ''0''"
    using tr trne trlast by (simp_all add: G_def a_def b_def butlast_append)
  have Ge: "even (length G)"
  proof -
    have "even (n + (if n mod 2 = 1 then 1 else 0))" for n :: nat
      by presburger
    moreover have "length G = length (a @ tr) + (if length (a @ tr) mod 2 = 1 then 1 else 0)"
      by (simp only: G_def b_def length_append if_distrib [of length] list.size) simp
    ultimately show ?thesis by (simp only:)
  qed
  have e2: "2 * e = decpt + int (length a)" 
  proof -
    have "int (length a) = (if decpt mod 2 = 1 then 1 else 0)" by (simp add: a_def)
    then show ?thesis unfolding e_def by presburger
  qed
  have "- 16383 \<le> 2 * e" "2 * e \<le> 147456" using db by (simp_all add: e2 a_def)
  then have ie: "in_width 4 e" by (simp add: in_width_def)
  have lp: "ps \<noteq> []" "last ps \<noteq> 0" "list_all (\<lambda>p. p < 100) ps"
    using last_pairs [OF G(1) Ge G(2,3)] pairs_bound [OF G(1)] by (simp_all add: ps_def)
  have dG: "dval_from 0 G = dval_from 0 tr * 10 ^ length b"
    using dval_from_shift [of "dval_from 0 tr" b] by (auto simp: G_def a_def b_def)
  have t: "10 powi int n = (10 :: rat) ^ n" for n by (simp add: power_int_def)
  have val: "\<bar>dec_val d\<bar> = of_int (dval_from 0 tr) * 10 powi (decpt - int (length tr))"
  proof -
    have "(of_nat m :: rat) = of_int (int m)" by simp
    also have "\<dots> = of_int (dval_from 0 tr) * 10 ^ length z" unfolding mtr by simp
    finally have "\<bar>dec_val d\<bar> = of_int (dval_from 0 tr) * (10 powi int (length z) / 10 powi int (scale d))"
      by (simp add: abs_dec_val m_def t)
    also have "10 powi int (length z) / 10 powi int (scale d) = (10 :: rat) powi (int (length z) - int (scale d))"
      by (rule power_int_diff [symmetric]) simp
    also have "int (length z) - int (scale d) = decpt - int (length tr)" by (simp add: decpt_def Ltr)
    finally show ?thesis .
  qed
  have "cfrac ps = of_int (dval_from 0 tr) * 10 ^ length b / 10 ^ (length a + length tr + length b)"
    unfolding ps_def cfrac_pairs [OF G(1) Ge] dG by (simp add: G_def)
  also have "\<dots> = of_int (dval_from 0 tr) / 10 powi int (length a + length tr)"
    unfolding t by (simp add: power_add)
  finally have c: "cfrac ps = of_int (dval_from 0 tr) / 10 powi int (length a + length tr)" .
  have "cfrac ps * 100 powi e = of_int (dval_from 0 tr) * (10 powi (2 * e) / 10 powi int (length a + length tr))"
    unfolding c hundred_powi by simp
  also have "10 powi (2 * e) / 10 powi int (length a + length tr) = (10 :: rat) powi (2 * e - int (length a + length tr))"
    by (rule power_int_diff [symmetric]) simp
  also have "2 * e - int (length a + length tr) = decpt - int (length tr)" using e2 by simp
  finally have v: "\<bar>dec_val d\<bar> = cfrac ps * 100 powi e" using val by simp
  have lower: "100 powi (e - 1) \<le> \<bar>dec_val d\<bar>"
  proof -
    have "10 ^ (L - 1) \<le> m" using dec_str_length_bounds [OF m] by (simp add: L_def ds_def)
    then have "(of_nat (10 ^ (L - 1)) :: rat) \<le> of_nat m" by (simp only: of_nat_le_iff)
    then have "(10 :: rat) powi int (L - 1) / 10 powi int (scale d) \<le> of_nat m / 10 ^ scale d"
      unfolding t by (intro divide_right_mono) simp_all
    moreover have "(10 :: rat) powi int (L - 1) / 10 powi int (scale d) = 10 powi (int (L - 1) - int (scale d))"
      by (rule power_int_diff [symmetric]) simp
    moreover have "2 * (e - 1) \<le> int (L - 1) - int (scale d)"
    proof -
      have "int (length a) \<le> 1" by (simp add: a_def)
      moreover have "0 < L" using ds(2) by (simp add: L_def)
      ultimately show ?thesis using e2 by (simp add: decpt_def of_nat_diff)
    qed
    then have "(10 :: rat) powi (2 * (e - 1)) \<le> 10 powi (int (L - 1) - int (scale d))"
      by (intro power_int_increasing) simp_all
    ultimately show ?thesis unfolding hundred_powi by (simp add: abs_dec_val m_def)
  qed
  have "encode_int Int32 e = Some (int_body Int32 e)"
    using encode_int_eq [of Int32 4 e] ie by (simp add: int_body_def)
  then have "encode_key d = (let body = int_body Int32 e @ pair_bytes ps
        in Some (if neg d then 0x03 # map NOT body else 0x05 # body))"
  proof -
    have str: "mag_to_decimal_str (limbs d) = ds" using dn(1) by (simp add: mag_to_decimal_str ds_def m_def)
    assume ei: "encode_int Int32 e = Some (int_body Int32 e)"
    have "encode_key d = map_option (\<lambda>ex. let body = ex @ key_pairs G @ [0x00]
             in if neg d then 0x03 # map NOT body else 0x05 # body) (encode_int Int32 e)"
      unfolding encode_key_def Let_def str wi tr_def [symmetric] a_def [symmetric]
        b_def [symmetric] G_def [symmetric] e_def [symmetric]
      using dn(1) assms(2) by simp
    then show ?thesis unfolding ei option.map(2) key_pairs_eq [OF G(1)] ps_def [symmetric]
      by (simp only: Let_def if_distrib)
  qed
  then show ?thesis using ie lp v lower unfolding key_form_def by blast
qed

text \<open>Equal values have equal forms, and forms are ordered as values.\<close>

lemma key_form_order:
  assumes "key_form x e ps" "key_form y f qs"
  shows "e < f \<Longrightarrow> \<bar>dec_val x\<bar> < \<bar>dec_val y\<bar>"
    "e = f \<Longrightarrow> \<bar>dec_val x\<bar> < \<bar>dec_val y\<bar> \<longleftrightarrow> cfrac ps < cfrac qs"
    "e = f \<Longrightarrow> \<bar>dec_val x\<bar> = \<bar>dec_val y\<bar> \<longleftrightarrow> cfrac ps = cfrac qs"
proof -
  have p: "0 < (100 :: rat) powi e" "0 < (100 :: rat) powi f" by simp_all
  have vx: "\<bar>dec_val x\<bar> = cfrac ps * 100 powi e" and vy: "\<bar>dec_val y\<bar> = cfrac qs * 100 powi f"
    using assms by (simp_all add: key_form_def)
  {
    assume "e < f"
    have "\<bar>dec_val x\<bar> < 1 * 100 powi e"
      unfolding vx using assms(1) cfrac_bounds [of ps] p by (intro mult_strict_right_mono) (simp_all add: key_form_def)
    also have "\<dots> \<le> 100 powi (f - 1)" using \<open>e < f\<close> by (simp add: power_int_increasing)
    also have "\<dots> \<le> \<bar>dec_val y\<bar>" using assms(2) by (simp add: key_form_def)
    finally show "\<bar>dec_val x\<bar> < \<bar>dec_val y\<bar>" .
  }
  assume e: "e = f"
  show "\<bar>dec_val x\<bar> < \<bar>dec_val y\<bar> \<longleftrightarrow> cfrac ps < cfrac qs" "\<bar>dec_val x\<bar> = \<bar>dec_val y\<bar> \<longleftrightarrow> cfrac ps = cfrac qs"
    unfolding vx vy e using p by simp_all
qed

lemma key_form_dless:
  assumes "key_form x e ps" "key_form y f qs" "\<bar>dec_val x\<bar> < \<bar>dec_val y\<bar>"
  shows "dless (int_body Int32 e @ pair_bytes ps) (int_body Int32 f @ pair_bytes qs)"
proof -
  have ok: "int_ok Int32 e" "int_ok Int32 f" using assms by (simp_all add: key_form_def int_ok_def)
  have "e \<le> f" using key_form_order(1) [OF assms(2,1)] assms(3) by fastforce
  then consider "e < f" | "e = f" by linarith
  then show ?thesis
  proof cases
    case 1
    then show ?thesis using int_codec.enc_dless [OF ok] by (intro dless_append) simp
  next
    case 2
    then have "cfrac ps < cfrac qs" using key_form_order(2) [OF assms(1,2)] assms(3) by simp
    then have "dless (pair_bytes ps) (pair_bytes qs)"
      using assms(1,2) by (intro cfrac_dless) (simp_all add: key_form_def)
    then show ?thesis using 2 by simp
  qed
qed

lemma key_form_eq:
  assumes "key_form x e ps" "key_form y f qs" "\<bar>dec_val x\<bar> = \<bar>dec_val y\<bar>"
  shows "e = f" "ps = qs"
proof -
  show e: "e = f"
    using key_form_order(1) [OF assms(1,2)] key_form_order(1) [OF assms(2,1)] assms(3)
    by (cases e f rule: linorder_cases) auto
  then have "cfrac ps = cfrac qs" using key_form_order(3) [OF assms(1,2)] assms(3) by simp
  then show "ps = qs" using assms(1,2) by (intro cfrac_eq) (simp_all add: key_form_def)
qed

definition dec_key :: "decimal \<Rightarrow> bytes" where "dec_key d = the (encode_key d)"

lemma dec_key_zero: "dec_norm d \<Longrightarrow> dec_val d = 0 \<Longrightarrow> encode_key d = Some [0x04]"
  by (simp add: encode_key_def)

lemma dec_key_form: "key_form d e ps \<Longrightarrow>
   dec_key d = (if neg d then 0x03 # map NOT (int_body Int32 e @ pair_bytes ps) else 0x05 # int_body Int32 e @ pair_bytes ps)"
  unfolding key_form_def dec_key_def Let_def by (elim conjE) (simp only: option.sel)

lemma dec_key_dless:
  assumes "dec_ok x" "dec_ok y" "dec_val x < dec_val y"
  shows "dless (dec_key x) (dec_key y)"
proof -
  have n: "dec_norm x" "dec_norm y" using assms by simp_all
  note s = dec_val_sign [OF n(1)] dec_val_sign [OF n(2)]
  have z: "dec_key d = [0x04]" if "dec_norm d" "dec_val d = 0" for d
    using dec_key_zero [OF that] by (simp add: dec_key_def)
  have head: "\<exists>u. dec_key d = (if dec_val d < 0 then 3 else 5) # u" if "dec_ok d" "dec_val d \<noteq> 0" for d
  proof -
    from encode_key_form [OF that] obtain f qs where "key_form d f qs" by blast
    then show ?thesis using dec_val_sign [OF dec_ok_norm(1) [OF that(1)]] dec_key_form by fastforce
  qed
  consider "dec_val x = 0" "0 < dec_val y" | "dec_val y = 0" "dec_val x < 0" | "dec_val x < 0" "0 < dec_val y"
    | "dec_val x < 0" "dec_val y < 0" | "0 < dec_val x" "0 < dec_val y"
    using assms(3) by linarith
  then show ?thesis
  proof cases
    case 1
    then show ?thesis using z [OF n(1) 1(1)] head [OF assms(2)] by auto
  next
    case 2
    then show ?thesis using z [OF n(2) 2(1)] head [OF assms(1)] by auto
  next
    case 3
    then show ?thesis using head [OF assms(1)] head [OF assms(2)] by auto
  next
    case 4
    obtain e ps where x: "key_form x e ps" using encode_key_form [OF assms(1)] 4 by auto
    obtain f qs where y: "key_form y f qs" using encode_key_form [OF assms(2)] 4 by auto
    have "\<bar>dec_val y\<bar> < \<bar>dec_val x\<bar>" using 4 assms(3) by simp
    then have "dless (map NOT (int_body Int32 e @ pair_bytes ps)) (map NOT (int_body Int32 f @ pair_bytes qs))"
      unfolding dless_map_NOT by (rule key_form_dless [OF y x])
    moreover have "neg x" "neg y" using s 4 by auto
    ultimately show ?thesis unfolding dec_key_form [OF x] dec_key_form [OF y] by (simp only: if_True dless.simps simp_thms)
  next
    case 5
    obtain e ps where x: "key_form x e ps" using encode_key_form [OF assms(1)] 5 by auto
    obtain f qs where y: "key_form y f qs" using encode_key_form [OF assms(2)] 5 by auto
    have "\<bar>dec_val x\<bar> < \<bar>dec_val y\<bar>" using 5 assms(3) by simp
    then have "dless (int_body Int32 e @ pair_bytes ps) (int_body Int32 f @ pair_bytes qs)"
      by (rule key_form_dless [OF x y])
    moreover have "\<not> neg x" "\<not> neg y" using s 5 by auto
    ultimately show ?thesis unfolding dec_key_form [OF x] dec_key_form [OF y] by (simp only: if_False dless.simps simp_thms)
  qed
qed

lemma dec_key_eq:
  assumes "dec_ok x" "dec_ok y" "dec_val x = dec_val y"
  shows "dec_key x = dec_key y"
proof (cases "dec_val x = 0")
  case True
  then show ?thesis using assms by (simp add: dec_key_def dec_key_zero)
next
  case False
  have n: "dec_norm x" "dec_norm y" using assms by simp_all
  from encode_key_form [OF assms(1) False] obtain e ps where x: "key_form x e ps" by blast
  from encode_key_form [OF assms(2)] False assms(3) obtain f qs where y: "key_form y f qs" by auto
  have "neg x = neg y" using dec_val_sign [OF n(1)] dec_val_sign [OF n(2)] assms(3) by auto
  moreover have "e = f" "ps = qs" using key_form_eq [OF x y] assms(3) by simp_all
  ultimately show ?thesis unfolding dec_key_form [OF x] dec_key_form [OF y] by (simp only:)
qed

interpretation dec_codec: value_codec dec_key dec_ok dec_val
  by unfold_locales (erule (2) dec_key_dless, erule (2) dec_key_eq)

lemma encode_key_total: "dec_ok d \<Longrightarrow> encode_key d = Some (dec_key d)"
proof (cases "dec_val d = 0")
  case False
  assume "dec_ok d"
  from encode_key_form [OF this False] show ?thesis by (auto simp: key_form_def dec_key_def Let_def)
qed (simp add: dec_key_def dec_key_zero)

end
