(* ===== verification/Decimal_Laws.thy ===== *)
theory Decimal_Laws
  imports Decimal_Key Decimal_Scale Decimal_Round
begin

text \<open>
  The properties of decimal arithmetic, each a few steps over the lemmas of the theories below, with
  its instance at concrete decimals.
\<close>

section \<open>Sample decimals\<close>

lemma small_fits: "\<bar>v\<bar> < 10 \<Longrightarrow> fits v"
  unfolding fits_def using MAX_INT_DIGITS_pow by linarith

lemma small_dec_ok: "dec_norm d \<Longrightarrow> scale d \<le> 100 \<Longrightarrow> \<bar>dec_val d\<bar> < 10 \<Longrightarrow> dec_ok d"
  unfolding dec_ok_def using small_fits by (simp add: MAX_SCALE_def)

text \<open>1.50, 0.25 and -2.00.\<close>

lemma sample_ok:
  "dec_ok \<lparr> neg = False, scale = 2, limbs = [150] \<rparr>"
  "dec_ok \<lparr> neg = False, scale = 2, limbs = [25] \<rparr>"
  "dec_ok \<lparr> neg = True, scale = 2, limbs = [200] \<rparr>"
  by (rule small_dec_ok; simp add: dec_norm_def dec_val_def mag_norm_def limbs_ok_def sgn_of_def BASE_def)+

lemma sample_val:
  "dec_val \<lparr> neg = False, scale = 2, limbs = [150] \<rparr> = 3 / 2"
  "dec_val \<lparr> neg = False, scale = 2, limbs = [25] \<rparr> = 1 / 4"
  "dec_val \<lparr> neg = True, scale = 2, limbs = [200] \<rparr> = - 2"
  by (simp_all add: dec_val_def sgn_of_def)


lemmas sample = sample_ok sample_val

section \<open>Arithmetic\<close>

text \<open>
  C13. Addition and subtraction are exact at the larger scale; multiplication is exact up to the
  largest scale and rounds half away from zero there. Each fails, with a numeric overflow, exactly
  when the result does not fit the integer-digit cap, and otherwise returns a decimal within the caps.
\<close>

theorem decimal_ring_ops:
  assumes "dec_ok x" "dec_ok y"
  shows "returns (dec_add x y) (dec_val x + dec_val y) (max (scale x) (scale y))
    \<and> returns (dec_sub x y) (dec_val x - dec_val y) (max (scale x) (scale y))
    \<and> returns (dec_mul x y)
        (round_half (1 / 10 ^ min (scale x + scale y) MAX_SCALE) (dec_val x * dec_val y))
        (min (scale x + scale y) MAX_SCALE)"
  using dec_add_returns [OF assms] dec_sub_returns [OF assms] dec_mul_returns [OF assms] by simp

theorem decimal_ring_ops_witness:
  "returns (dec_add \<lparr> neg = False, scale = 2, limbs = [150] \<rparr> \<lparr> neg = False, scale = 2, limbs = [25] \<rparr>) (7 / 4) 2"
  using decimal_ring_ops [OF sample(1,2)] by (simp add: sample)

text \<open>
  C20. Division by zero is an error. Any other quotient is the exact one rounded half away from zero
  at the chosen scale, which keeps more than sixteen significant digits unless it is capped; the
  remainder is exact, truncates towards zero and is smaller than the divisor.
\<close>

theorem decimal_division:
  assumes "dec_ok x" "dec_ok y"
  shows "if dec_val y = 0 then dec_div x y = Inl div_by_zero \<and> dec_rem x y = Inl div_by_zero
    else returns (dec_div x y) (round_half (1 / 10 ^ select_div_scale x y) (dec_val x / dec_val y)) (select_div_scale x y)
      \<and> (dec_val x = 0 \<or> MAX_PRECISION \<le> select_div_scale x y
          \<or> 10 ^ 16 \<le> \<bar>dec_val x / dec_val y\<bar> * 10 ^ select_div_scale x y)
      \<and> (\<exists>d. dec_rem x y = Inr d \<and> dec_ok d \<and> scale d = max (scale x) (scale y)
          \<and> dec_val d = dec_val x - dec_val y * trunc_unit 1 (dec_val x / dec_val y)
          \<and> \<bar>dec_val d\<bar> < \<bar>dec_val y\<bar>)"
proof (cases "dec_val y = 0")
  case True
  then have "is_zero y" using is_zero_iff [OF dec_ok_norm(1) [OF assms(2)]] by simp
  then show ?thesis using True by (simp add: dec_div_def dec_rem_def)
next
  case False
  obtain d where "dec_rem x y = Inr d" "dec_ok d" "scale d = max (scale x) (scale y)"
    "dec_val d = dec_val x - dec_val y * trunc_unit 1 (dec_val x / dec_val y)" "\<bar>dec_val d\<bar> < \<bar>dec_val y\<bar>"
    by (rule dec_rem_ok [OF assms False])
  moreover have "dec_val x = 0 \<or> MAX_PRECISION \<le> select_div_scale x y
      \<or> 10 ^ 16 \<le> \<bar>dec_val x / dec_val y\<bar> * 10 ^ select_div_scale x y"
    using quotient_digits [OF assms _ False] by (meson not_le)
  ultimately show ?thesis
    using dec_div_returns [OF assms False] unfolding if_not_P [OF False] by blast
qed

theorem decimal_division_witness:
  "dec_rem \<lparr> neg = False, scale = 2, limbs = [150] \<rparr> \<lparr> neg = False, scale = 2, limbs = [25] \<rparr> \<noteq> Inl div_by_zero"
  using decimal_division [OF sample(1,2)] by (auto simp: sample)

section \<open>Rounding\<close>

text \<open>
  C30. Rounding to places rounds half away from zero, truncation towards zero, ceiling and floor to
  the integer above and below, conversion to a 64-bit integer to the nearest one; a \<open>numeric(p,s)\<close>
  column rounds to its scale and fails exactly when the rounded value has more than \<open>p - s\<close> integer
  digits.
\<close>

theorem decimal_rounding:
  assumes "dec_ok d" "sc \<le> prec" "prec \<le> MAX_PRECISION"
  shows "returns (round_places d n)
      (round_half (if 0 \<le> n then 1 / 10 ^ nat (min n (int MAX_SCALE)) else 10 ^ nat \<bar>n\<bar>) (dec_val d))
      (if 0 \<le> n then nat (min n (int MAX_SCALE)) else 0)
    \<and> dec_val (trunc_places d n)
      = trunc_unit (if 0 \<le> n then 1 / 10 ^ nat (min n (int MAX_SCALE)) else 10 ^ nat \<bar>n\<bar>) (dec_val d)
    \<and> returns (dec_ceil d) (of_int \<lceil>dec_val d\<rceil>) 0
    \<and> returns (dec_floor d) (of_int \<lfloor>dec_val d\<rfloor>) 0
    \<and> to_i64_round d = (if - (2 ^ 63) \<le> round_half 1 (dec_val d) \<and> round_half 1 (dec_val d) < 2 ^ 63
        then Some \<lfloor>round_half 1 (dec_val d)\<rfloor> else None)
    \<and> (case coerce_to_typmod d prec sc of
         Inr r \<Rightarrow> dec_val r = round_half (1 / 10 ^ sc) (dec_val d) \<and> scale r = sc \<and> \<bar>dec_val r\<bar> < 10 ^ (prec - sc)
       | Inl e \<Rightarrow> e = decimal_overflow \<and> 10 ^ (prec - sc) \<le> \<bar>round_half (1 / 10 ^ sc) (dec_val d)\<bar>)"
  using round_places_returns [OF assms(1)] trunc_places_ok(1) [OF assms(1)]
    round_to_bound_returns [OF assms(1), of False] round_to_bound_returns [OF assms(1), of True]
    to_i64_round_eq [OF dec_ok_norm(1) [OF assms(1)]] coerce_to_typmod_eq [OF assms]
  by (simp add: dec_ceil_def dec_floor_def not_less)

theorem decimal_rounding_witness:
  "returns (dec_ceil \<lparr> neg = False, scale = 2, limbs = [150] \<rparr>) 2 0"
proof -
  have "\<lceil>3 / 2 :: rat\<rceil> = 2" by (rule ceiling_unique) simp_all
  moreover from decimal_rounding [OF sample(1), of 0 0 0]
  have "returns (dec_ceil \<lparr> neg = False, scale = 2, limbs = [150] \<rparr>)
      (of_int \<lceil>dec_val \<lparr> neg = False, scale = 2, limbs = [150] \<rparr>\<rceil>) 0" by simp
  ultimately show ?thesis by (simp only: sample_val) simp
qed

text \<open>
  C18. The three ways the engine compares decimals agree with the numeric value: \<open>cmp_value\<close> is its
  order, equality by the canonical form its equality, and the storage keys exist and sort byte-wise as
  the values, ties decided by what follows the keys.
\<close>

theorem decimal_comparisons:
  assumes "dec_ok x" "dec_ok y"
  shows "cmp_value x y = cmp (dec_val x) (dec_val y)
    \<and> (dec_eq x y \<longleftrightarrow> dec_val x = dec_val y)
    \<and> (\<exists>kx ky. encode_key x = Some kx \<and> encode_key y = Some ky
        \<and> (kx @ u < ky @ v \<longleftrightarrow> dec_val x < dec_val y \<or> dec_val x = dec_val y \<and> u < v))"
  using cmp_value_eq [OF assms [THEN dec_ok_norm(1)]] dec_eq_iff [OF assms [THEN dec_ok_norm(1)]]
    encode_key_total [OF assms(1)] encode_key_total [OF assms(2)] dec_codec.enc_followed_less [OF assms, of u v]
  by simp

theorem decimal_comparisons_witness:
  "cmp_value \<lparr> neg = True, scale = 2, limbs = [200] \<rparr> \<lparr> neg = False, scale = 2, limbs = [25] \<rparr> = Less"
  using decimal_comparisons [OF sample(3,2)] by (simp add: sample cmp_def)

text \<open>
  C38. The storage codec is lossless: the base-10000 groups are in range, their number is the one
  computed without building them, and decoding gives back the same sign, scale and limbs.
\<close>

theorem decimal_codec:
  assumes "dec_norm d"
  shows "case to_codec d of (n, s, gs) \<Rightarrow>
    from_codec n s gs = d \<and> codec_group_count d = length gs \<and> list_all (\<lambda>g. g < 10000) gs"
proof -
  have "mag_norm (limbs d)" using assms by (simp add: dec_norm_def)
  then show ?thesis
    using from_codec_to_codec [OF assms] codec_group_count_eq [OF assms] mag_nbase4_roundtrip(2)
    by (auto simp: to_codec_def list_all_iff)
qed

theorem decimal_codec_witness:
  "from_codec False 2 [150] = \<lparr> neg = False, scale = 2, limbs = [150] \<rparr>"
proof -
  have "to_codec \<lparr> neg = False, scale = 2, limbs = [150] \<rparr> = (False, 2, [150])" by code_simp
  with decimal_codec [OF sample_ok(1) [THEN dec_ok_norm(1)]] show ?thesis by simp
qed

text \<open>
  C39. Every operation on decimals within the caps gives a decimal within the caps in normal form, or
  one of three errors: overflow, division by zero, the root of a negative number.
\<close>

definition decimal_outcome :: "decimal result \<Rightarrow> bool" where
  "decimal_outcome r \<longleftrightarrow>
     (case r of Inr d \<Rightarrow> dec_ok d | Inl e \<Rightarrow> e \<in> {decimal_overflow, div_by_zero, sqrt_negative})"

lemma returns_outcome: "returns r v s \<Longrightarrow> decimal_outcome r"
  by (auto simp: returns_def decimal_outcome_def split: if_splits)

lemma abs_ok: "dec_ok d \<Longrightarrow> dec_ok (dec_abs d)"
  unfolding dec_ok_def fits_def by simp

lemma div_rem_outcome:
  assumes "dec_ok x" "dec_ok y"
  shows "decimal_outcome (dec_div x y)" "decimal_outcome (dec_rem x y)"
proof -
  have "decimal_outcome (dec_div x y) \<and> decimal_outcome (dec_rem x y)"
  proof (cases "is_zero y")
    case True
    then show ?thesis by (simp add: dec_div_def dec_rem_def decimal_outcome_def)
  next
    case False
    then have nz: "dec_val y \<noteq> 0" using is_zero_iff [OF dec_ok_norm(1) [OF assms(2)]] by simp
    obtain d where "dec_rem x y = Inr d" "dec_ok d" by (rule dec_rem_ok [OF assms nz])
    then have "decimal_outcome (dec_rem x y)" by (simp add: decimal_outcome_def)
    with returns_outcome [OF dec_div_returns [OF assms nz]] show ?thesis ..
  qed
  then show "decimal_outcome (dec_div x y)" "decimal_outcome (dec_rem x y)" by simp_all
qed

lemma sqrt_outcome: "dec_ok x \<Longrightarrow> decimal_outcome (dec_sqrt x)"
  using dec_sqrt_returns [of x] by (cases "dec_val x < 0") (auto simp: decimal_outcome_def)

theorem decimal_well_typed:
  assumes "dec_ok x" "dec_ok y"
  shows "list_all decimal_outcome
      [dec_add x y, dec_sub x y, dec_mul x y, dec_div x y, dec_rem x y, dec_sqrt x, dec_ceil x, dec_floor x,
       round_places x n]
    \<and> list_all dec_ok [dec_neg x, dec_abs x, trunc_places x n]"
  using returns_outcome [OF dec_add_returns [OF assms]] returns_outcome [OF dec_sub_returns [OF assms]]
    returns_outcome [OF dec_mul_returns [OF assms]] div_rem_outcome [OF assms] sqrt_outcome [OF assms(1)]
    returns_outcome [OF round_to_bound_returns [OF assms(1)]] returns_outcome [OF round_places_returns [OF assms(1)]]
    dec_neg_ok [OF assms(1)] trunc_places_ok(3) [OF assms(1)]
  by (simp add: dec_ceil_def dec_floor_def abs_ok assms)

theorem decimal_well_typed_witness:
  "decimal_outcome (dec_sqrt \<lparr> neg = True, scale = 2, limbs = [200] \<rparr>)
   \<and> dec_ok (dec_abs \<lparr> neg = True, scale = 2, limbs = [200] \<rparr>)"
  using decimal_well_typed [OF sample(3,2)] by simp

text \<open>
  The square root of a negative decimal is an error; of any other it is the multiple of the
  result's unit nearest to the real root, within the caps.
\<close>

theorem decimal_sqrt:
  assumes "dec_ok d"
  shows "if dec_val d < 0 then dec_sqrt d = Inl sqrt_negative
    else \<exists>r. dec_sqrt d = Inr r \<and> dec_ok r \<and> scale r = sqrt_scale d
      \<and> nearest_root (1 / 10 ^ sqrt_scale d) (dec_val r) (dec_val d)"
  using dec_sqrt_returns [OF assms] by simp

theorem decimal_sqrt_witness:
  "dec_sqrt \<lparr> neg = True, scale = 2, limbs = [200] \<rparr> = Inl sqrt_negative
   \<and> (\<exists>r. dec_sqrt \<lparr> neg = False, scale = 2, limbs = [25] \<rparr> = Inr r)"
  using decimal_sqrt [OF sample(3)] decimal_sqrt [OF sample(2)] by (auto simp: sample)

end
