(* ===== verification/Number_Text.thy ===== *)
theory Number_Text
  imports Decimal_Scale Encoding
begin

text \<open>
  Text to number (\<open>executor/eval_ops.rs\<close>, \<open>parse_int_literal\<close>, \<open>parse_decimal_literal\<close>; the
  literal builders of \<open>decimal.rs\<close>). The byte cursor \<open>p\<close> is the remaining input. Integer
  accumulators are \<open>u64\<close> with the wrap written out. Shown: an integer literal is read exactly, with
  overflow exactly outside the type; reading the text of a decimal gives the decimal back.
\<close>

section \<open>Model: shared lexical functions\<close>

fun canonical_name :: "scalar_type \<Rightarrow> string" where
  "canonical_name Int16 = ''i16''"
| "canonical_name Int32 = ''i32''"
| "canonical_name Int64 = ''i64''"
| "canonical_name Text = ''text''"
| "canonical_name Bool = ''boolean''"
| "canonical_name Decimal = ''decimal''"
| "canonical_name Bytea = ''bytea''"
| "canonical_name Uuid = ''uuid''"
| "canonical_name Timestamp = ''timestamp''"
| "canonical_name Timestamptz = ''timestamptz''"
| "canonical_name Interval = ''interval''"
| "canonical_name Float32 = ''f32''"
| "canonical_name Float64 = ''f64''"
| "canonical_name Date = ''date''"
| "canonical_name Json = ''json''"
| "canonical_name Jsonb = ''jsonb''"
| "canonical_name JsonPath = ''jsonpath''"

text \<open>\<open>ScalarType::min\<close> and \<open>max\<close>; \<open>None\<close> is the \<open>unreachable!\<close> of the other types.\<close>

fun type_min :: "scalar_type \<Rightarrow> int option" where
  "type_min Int16 = Some (- (2 ^ 15))"
| "type_min Int32 = Some (- (2 ^ 31))"
| "type_min Int64 = Some (- (2 ^ 63))"
| "type_min _ = None"

fun type_max :: "scalar_type \<Rightarrow> int option" where
  "type_max Int16 = Some (2 ^ 15 - 1)"
| "type_max Int32 = Some (2 ^ 31 - 1)"
| "type_max Int64 = Some (2 ^ 63 - 1)"
| "type_max _ = None"

definition type_overflow :: "scalar_type \<Rightarrow> engine_error" where
  "type_overflow ty = (NumericValueOutOfRange, ''value out of range for type '' @ canonical_name ty)"

definition is_pg_space :: "char \<Rightarrow> bool" where
  "is_pg_space c \<longleftrightarrow> c \<in> {CHR '' '', CHR 0x09, CHR 0x0A, CHR 0x0B, CHR 0x0C, CHR 0x0D}"

definition at_first :: "string \<Rightarrow> char" where
  "at_first s = (case s of [] \<Rightarrow> CHR 0x00 | c # _ \<Rightarrow> c)"

text \<open>\<open>char::to_digit\<close>.\<close>

definition to_digit :: "nat \<Rightarrow> char \<Rightarrow> nat option" where
  "to_digit base c =
     (let n = of_char c :: nat;
          v = (if 48 \<le> n \<and> n \<le> 57 then n - 48
               else if 97 \<le> n \<and> n \<le> 122 then n - 87
               else if 65 \<le> n \<and> n \<le> 90 then n - 55 else base)
      in if v < base then Some v else None)"

definition is_radix_digit :: "nat \<Rightarrow> string \<Rightarrow> bool" where
  "is_radix_digit base s = (case s of [] \<Rightarrow> False | c # _ \<Rightarrow> to_digit base c \<noteq> None)"

definition radix_prefix :: "string \<Rightarrow> nat" where
  "radix_prefix s =
     (case s of
        c0 # c1 # _ \<Rightarrow>
          (if c0 \<noteq> CHR ''0'' then 10
           else if c1 = CHR ''x'' \<or> c1 = CHR ''X'' then 16
           else if c1 = CHR ''o'' \<or> c1 = CHR ''O'' then 8
           else if c1 = CHR ''b'' \<or> c1 = CHR ''B'' then 2 else 10)
      | _ \<Rightarrow> 10)"

text \<open>The optional sign: whether it is a minus, and the input after it.\<close>

definition read_sign :: "string \<Rightarrow> bool \<times> string" where
  "read_sign s =
     (if at_first s = CHR ''-'' then (True, tl s)
      else if at_first s = CHR ''+'' then (False, tl s) else (False, s))"

section \<open>Model: integer literals\<close>

definition invalid_int :: "scalar_type \<Rightarrow> string \<Rightarrow> engine_error" where
  "invalid_int ty s =
     (InvalidTextRepresentation,
      ''invalid input syntax for type '' @ canonical_name ty @ '': '' @ CHR 0x22 # s @ [CHR 0x22])"

text \<open>
  The digit loop: \<open>started\<close> is \<open>p \<noteq> first\<close>. The result is the magnitude, whether anything was
  read, and the rest of the input.
\<close>

fun int_loop :: "engine_error \<Rightarrow> engine_error \<Rightarrow> nat \<Rightarrow> nat \<Rightarrow> bool \<Rightarrow> nat \<Rightarrow> string
    \<Rightarrow> (nat \<times> bool \<times> string) result" where
  "int_loop inval ovf base limit started m [] = Inr (m, started, [])"
| "int_loop inval ovf base limit started m (c # r) =
     (case to_digit base c of
        Some d \<Rightarrow>
          if m > limit div base then Inl ovf
          else int_loop inval ovf base limit True (w64 (w64 (m * base) + d)) r
      | None \<Rightarrow>
          if c = CHR ''_'' then
            (if base = 10 \<and> \<not> started then Inl inval
             else if \<not> is_radix_digit base r then Inl inval
             else int_loop inval ovf base limit True m r)
          else Inr (m, started, c # r))"

definition parse_int_literal :: "string \<Rightarrow> scalar_type \<Rightarrow> int result option" where
  "parse_int_literal s ty =
     (let inval = invalid_int ty s; ovf = type_overflow ty;
          (ng, r) = read_sign (dropWhile is_pg_space s);
          base = radix_prefix r;
          r = (if base \<noteq> 10 then drop 2 r else r)
      in map_option (\<lambda>tmin.
           let limit = nat \<bar>tmin\<bar>
           in res_bind (int_loop inval ovf base limit False 0 r) (\<lambda>(m, started, rest).
                if \<not> started then Inl inval
                else if dropWhile is_pg_space rest \<noteq> [] then Inl inval
                else if ng then (if m > limit then Inl ovf else Inr (- int m))
                else if m > limit - 1 then Inl ovf else Inr (int m)))
           (type_min ty))"

section \<open>Model: decimal literals\<close>

definition EXP_LIMIT :: int where
  "EXP_LIMIT = int MAX_INT_DIGITS + int MAX_SCALE + 2"

definition decimal_from_parts :: "string \<Rightarrow> string \<Rightarrow> int option \<Rightarrow> string \<times> nat" where
  "decimal_from_parts int_part fr ex =
     (let frac_len = int (length fr)
      in case ex of
           None \<Rightarrow> (int_part @ fr, w32 (nat frac_len))
         | Some ex \<Rightarrow>
             let eff_scale = frac_len - ex
             in if 0 \<le> eff_scale then (int_part @ fr, w32 (nat eff_scale))
                else (int_part @ fr @ replicate (nat (- eff_scale)) (CHR ''0''), 0))"

definition trailing_zeros :: "nat \<Rightarrow> nat" where
  "trailing_zeros base = (if base = 2 then 1 else if base = 8 then 3 else if base = 16 then 4 else 0)"

fun radix_chunk :: "nat \<Rightarrow> nat \<Rightarrow> nat \<Rightarrow> string \<Rightarrow> (nat \<times> nat) option" where
  "radix_chunk base carry mul [] = Some (carry, mul)"
| "radix_chunk base carry mul (c # cs) =
     (case to_digit base c of
        None \<Rightarrow> None
      | Some d \<Rightarrow> radix_chunk base (w64 (w64 (carry * base) + d)) (w64 (mul * base)) cs)"

function radix_fold :: "nat \<Rightarrow> nat \<Rightarrow> mag \<Rightarrow> string \<Rightarrow> mag option" where
  "radix_fold base grp ls s =
     (if s = [] \<or> grp = 0 then Some ls
      else case radix_chunk base 0 1 (take grp s) of
             None \<Rightarrow> None
           | Some (carry, mul) \<Rightarrow> radix_fold base grp (small_loop mul carry ls) (drop grp s))"
  by pat_completeness auto
termination
  by (relation "measure (\<lambda>(base, grp, ls, s). length s)") auto

declare radix_fold.simps [simp del]

text \<open>\<open>None\<close> is the panic of the \<open>expect\<close> on a character that is no digit of the radix.\<close>

definition from_radix_digits :: "bool \<Rightarrow> string \<Rightarrow> nat \<Rightarrow> decimal result option" where
  "from_radix_digits ng digits base =
     (let sig = dropWhile (\<lambda>c. c = CHR ''0'') digits; bits = trailing_zeros base
      in if sig \<noteq> [] \<and> (length sig - 1) * bits \<ge> 435412 then Some (Inl decimal_overflow)
         else map_option (\<lambda>ls. Inr (from_parts ng 0 ls)) (radix_fold base (28 div bits) [] sig))"

definition invalid_numeric :: "string \<Rightarrow> engine_error" where
  "invalid_numeric s =
     (InvalidTextRepresentation,
      ''invalid input syntax for type numeric: '' @ CHR 0x22 # s @ [CHR 0x22])"

fun radix_digits :: "engine_error \<Rightarrow> nat \<Rightarrow> string \<Rightarrow> (string \<times> string) result" where
  "radix_digits inval base [] = Inr ([], [])"
| "radix_digits inval base (c # r) =
     (if to_digit base c \<noteq> None
      then res_bind (radix_digits inval base r) (\<lambda>(ds, rest). Inr (c # ds, rest))
      else if c = CHR ''_'' then
        (if \<not> is_radix_digit base r then Inl inval else radix_digits inval base r)
      else Inr ([], c # r))"

text \<open>The mantissa loop: integer digits, fraction digits, rest.\<close>

fun mantissa :: "engine_error \<Rightarrow> bool \<Rightarrow> string \<Rightarrow> string \<Rightarrow> string \<Rightarrow> (string \<times> string \<times> string) result" where
  "mantissa inval have_dp ip fr [] = Inr (ip, fr, [])"
| "mantissa inval have_dp ip fr (c # r) =
     (if is_digit c then
        (if have_dp then mantissa inval have_dp ip (fr @ [c]) r
         else mantissa inval have_dp (ip @ [c]) fr r)
      else if c = CHR ''.'' then
        (if have_dp \<or> at_first r = CHR ''_'' then Inl inval else mantissa inval True ip fr r)
      else if c = CHR ''_'' then
        (if \<not> is_digit (at_first r) then Inl inval else mantissa inval have_dp ip fr r)
      else Inr (ip, fr, c # r))"

fun exponent_loop :: "engine_error \<Rightarrow> int \<Rightarrow> string \<Rightarrow> (int \<times> string) result" where
  "exponent_loop inval v [] = Inr (v, [])"
| "exponent_loop inval v (c # r) =
     (if is_digit c then
        exponent_loop inval (if v < EXP_LIMIT then min (v * 10 + digit_val c) EXP_LIMIT else v) r
      else if c = CHR ''_'' then
        (if \<not> is_digit (at_first r) then Inl inval else exponent_loop inval v r)
      else Inr (v, c # r))"

definition exponent :: "engine_error \<Rightarrow> string \<Rightarrow> (int option \<times> string) result" where
  "exponent inval s =
     (if at_first s = CHR ''e'' \<or> at_first s = CHR ''E'' then
        let (eneg, r) = read_sign (tl s)
        in if \<not> is_digit (at_first r) then Inl inval
           else res_bind (exponent_loop inval 0 r) (\<lambda>(v, rest).
                  Inr (Some (if eneg then - v else v), rest))
      else Inr (None, s))"

definition decimal_body :: "engine_error \<Rightarrow> bool \<Rightarrow> string \<Rightarrow> (decimal \<times> string) result" where
  "decimal_body inval ng s =
     (let have_dp = (at_first s = CHR ''.''); r = (if have_dp then tl s else s)
      in if \<not> is_digit (at_first r) then Inl inval
         else res_bind (mantissa inval have_dp [] [] r) (\<lambda>(ip, fr, rest).
              res_bind (exponent inval rest) (\<lambda>(ex, rest).
                let (digits, sc) = decimal_from_parts ip fr ex
                in Inr (from_digits_scale ng digits sc, rest))))"

definition radix_body :: "engine_error \<Rightarrow> bool \<Rightarrow> nat \<Rightarrow> string \<Rightarrow> (decimal \<times> string) result option" where
  "radix_body inval ng base s =
     (case radix_digits inval base s of
        Inl e \<Rightarrow> Some (Inl e)
      | Inr (digits, rest) \<Rightarrow>
          if rest = s then Some (Inl inval)
          else map_option (\<lambda>r. res_bind r (\<lambda>d. Inr (d, rest))) (from_radix_digits ng digits base))"

definition parse_decimal_literal :: "string \<Rightarrow> decimal result option" where
  "parse_decimal_literal s =
     (let inval = invalid_numeric s;
          (ng, r) = read_sign (dropWhile is_pg_space s);
          finish = (\<lambda>(d, rest). if dropWhile is_pg_space rest \<noteq> [] then Inl inval else Inr d)
      in if \<not> (is_digit (at_first r) \<or> at_first r = CHR ''.'') then Some (Inl inval)
         else let base = radix_prefix r
              in if base \<noteq> 10 then map_option (\<lambda>x. res_bind x finish) (radix_body inval ng base (drop 2 r))
                 else Some (res_bind (decimal_body inval ng r) finish))"


section \<open>Lexical facts\<close>

lemma at_first_simps [simp]: "at_first [] = CHR 0x00" "at_first (c # s) = c"
  by (simp_all add: at_first_def)

lemma not_digit_0 [simp]: "\<not> is_digit (CHR 0x00)"
  by (simp add: is_digit_def)

lemma to_digit_10: "is_digit c \<Longrightarrow> to_digit 10 c = Some (nat (digit_val c))"
  by (auto simp: to_digit_def is_digit_def digit_val_def Let_def)

lemma space_not_digit [simp]: "is_pg_space c \<Longrightarrow> \<not> is_digit c"
  by (auto simp: is_pg_space_def is_digit_def)

lemma to_digit_space: "is_pg_space c \<Longrightarrow> to_digit 10 c = None"
  by (auto simp: is_pg_space_def to_digit_def)

lemma space_not_punct [simp]:
  "is_pg_space c \<Longrightarrow> c \<noteq> CHR ''_''" "is_pg_space c \<Longrightarrow> c \<noteq> CHR ''.''"
  "is_pg_space c \<Longrightarrow> c \<noteq> CHR ''e''" "is_pg_space c \<Longrightarrow> c \<noteq> CHR ''E''"
  by (auto simp: is_pg_space_def)

definition spaces :: "string \<Rightarrow> bool" where "spaces w \<longleftrightarrow> list_all is_pg_space w"

lemma spaces_dropWhile [simp]: "spaces w \<Longrightarrow> dropWhile is_pg_space w = []"
  by (simp add: spaces_def list_all_iff)

lemma dropWhile_spaces:
  "spaces w \<Longrightarrow> s \<noteq> [] \<Longrightarrow> \<not> is_pg_space (hd s) \<Longrightarrow> dropWhile is_pg_space (w @ s) = s"
  by (cases s) (auto simp: spaces_def list_all_iff dropWhile_append2)

lemma digit_not_space [simp]: "is_digit c \<Longrightarrow> \<not> is_pg_space c"
  using space_not_digit by blast

lemma digit_char_neq [simp]:
  "is_digit c \<Longrightarrow> c \<noteq> CHR ''-''" "is_digit c \<Longrightarrow> c \<noteq> CHR ''+''" "is_digit c \<Longrightarrow> c \<noteq> CHR ''.''"
  "is_digit c \<Longrightarrow> c \<noteq> CHR ''_''" "is_digit c \<Longrightarrow> c \<noteq> CHR ''x''" "is_digit c \<Longrightarrow> c \<noteq> CHR ''X''"
  "is_digit c \<Longrightarrow> c \<noteq> CHR ''o''" "is_digit c \<Longrightarrow> c \<noteq> CHR ''O''" "is_digit c \<Longrightarrow> c \<noteq> CHR ''b''"
  "is_digit c \<Longrightarrow> c \<noteq> CHR ''B''"
  by (auto simp: is_digit_def)

definition sign_text :: "bool \<Rightarrow> string" where "sign_text ng = (if ng then ''-'' else [])"

lemma read_sign_text:
  assumes "s \<noteq> []" "is_digit (hd s)"
  shows "read_sign (sign_text ng @ s) = (ng, s)"
  using assms by (cases s) (auto simp: read_sign_def sign_text_def)

lemma sign_text_start: "s \<noteq> [] \<Longrightarrow> is_digit (hd s) \<Longrightarrow>
  sign_text ng @ s \<noteq> [] \<and> \<not> is_pg_space (hd (sign_text ng @ s))"
  by (auto simp: sign_text_def is_pg_space_def)

text \<open>Digits followed by something that is neither a letter nor a digit have no radix prefix.\<close>

lemma radix_prefix_digits:
  assumes "is_digit c" "\<And>x. x \<in> set (take 1 r) \<Longrightarrow> is_digit x \<or> is_pg_space x \<or> x = CHR ''.''"
  shows "radix_prefix (c # r) = 10"
proof (cases r)
  case (Cons x r')
  then have "is_digit x \<or> is_pg_space x \<or> x = CHR ''.''" using assms(2) by simp
  then have "x \<notin> {CHR ''x'', CHR ''X'', CHR ''o'', CHR ''O'', CHR ''b'', CHR ''B''}"
    by (auto simp: is_digit_def is_pg_space_def)
  then show ?thesis using Cons by (simp add: radix_prefix_def)
qed (simp add: radix_prefix_def)

section \<open>Integer literals are read exactly\<close>

lemma int_loop_stop:
  assumes "spaces w"
  shows "int_loop inval ovf 10 limit st m w = Inr (m, st, w)"
proof (cases w)
  case (Cons c r)
  then have "is_pg_space c" using assms by (simp add: spaces_def)
  then show ?thesis using Cons by (simp add: to_digit_space)
qed simp

lemma int_loop_digits:
  assumes "all_digits s" "limit < 2 ^ 63 + 1" "spaces w"
  defines "v m \<equiv> nat (dval_from (int m) s)"
  shows "int_loop inval ovf 10 limit st m (s @ w) = Inr (v m, st \<or> s \<noteq> [], w)
    \<or> int_loop inval ovf 10 limit st m (s @ w) = Inl ovf \<and> limit < v m"
  using assms(1) unfolding v_def
proof (induction s arbitrary: m st)
  case (Cons c s)
  have c: "is_digit c" "all_digits s" using Cons.prems by simp_all
  have d: "0 \<le> digit_val c" "digit_val c \<le> 9" using digit_val_range [OF c(1)] by simp_all
  define n where "n = m * 10 + nat (digit_val c)"
  have vn: "dval_from (int m) (c # s) = dval_from (int n) s" using d by (simp add: n_def)
  show ?case
  proof (cases "m > limit div 10")
    case True
    then have "limit < m * 10" by linarith
    then have "int limit < int n" by (simp add: n_def)
    also have "int n \<le> dval_from (int n) s" using c(2) by (intro dval_mono) simp_all
    finally have "limit < nat (dval_from (int m) (c # s))" unfolding vn by simp
    then show ?thesis using True c by (simp add: to_digit_10)
  next
    case False
    have "m * 10 \<le> limit" using False by linarith
    then have "w64 (w64 (m * 10) + nat (digit_val c)) = n"
      using assms(2) d by (simp add: w64_id n_def)
    then have "int_loop inval ovf 10 limit st m ((c # s) @ w) = int_loop inval ovf 10 limit True n (s @ w)"
      using False c by (simp add: to_digit_10)
    then show ?thesis using Cons.IH [OF c(2), of True n] unfolding vn by simp
  qed
qed (simp add: int_loop_stop [OF assms(3)])

lemma type_range_cases:
  assumes "type_min ty = Some lo" "type_max ty = Some hi"
  shows "0 < nat \<bar>lo\<bar>" "nat \<bar>lo\<bar> < 2 ^ 63 + 1" "lo = - int (nat \<bar>lo\<bar>)" "hi = int (nat \<bar>lo\<bar>) - 1"
  using assms by (cases ty; auto)+

lemma parse_int_exact_value:
  fixes ng :: bool
  assumes "type_min ty = Some lo" "type_max ty = Some hi"
    and "all_digits s" "s \<noteq> []" "spaces w1" "spaces w2"
  defines "v \<equiv> (if ng then - dval_from 0 s else dval_from 0 s)"
  shows "parse_int_literal (w1 @ sign_text ng @ s @ w2) ty
    = Some (if lo \<le> v \<and> v \<le> hi then Inr v else Inl (type_overflow ty))"
proof -
  obtain c r where s: "s = c # r" using assms(4) by (cases s) auto
  define limit where "limit = nat \<bar>lo\<bar>"
  note l = type_range_cases [OF assms(1,2), folded limit_def]
  have sw: "s @ w2 \<noteq> []" "is_digit (hd (s @ w2))" using assms(3) s by simp_all
  have drop: "dropWhile is_pg_space (w1 @ sign_text ng @ s @ w2) = sign_text ng @ s @ w2"
    using sign_text_start [OF sw] by (intro dropWhile_spaces assms(5)) simp_all
  have sign: "read_sign (sign_text ng @ s @ w2) = (ng, s @ w2)" by (rule read_sign_text [OF sw])
  have "radix_prefix (c # (r @ w2)) = 10"
  proof (rule radix_prefix_digits)
    show "is_digit c" using assms(3) s by simp
    show "is_digit x \<or> is_pg_space x \<or> x = CHR ''.''" if "x \<in> set (take 1 (r @ w2))" for x
      using that assms(3,6) s by (cases r; cases w2) (auto simp: spaces_def)
  qed
  then have pre: "radix_prefix (s @ w2) = 10" by (simp add: s)
  define inval where "inval = invalid_int ty (w1 @ sign_text ng @ s @ w2)"
  define V where "V = nat (dval_from (int 0) s)"
  have V: "int V = dval_from 0 s" using dval_bounds [OF assms(3)] by (simp add: V_def)
  have p: "parse_int_literal (w1 @ sign_text ng @ s @ w2) ty =
      Some (res_bind (int_loop inval (type_overflow ty) 10 limit False 0 (s @ w2)) (\<lambda>(m, started, rest).
                if \<not> started then Inl inval
                else if dropWhile is_pg_space rest \<noteq> [] then Inl inval
                else if ng then (if m > limit then Inl (type_overflow ty) else Inr (- int m))
                else if m > limit - 1 then Inl (type_overflow ty) else Inr (int m)))"
    unfolding parse_int_literal_def Let_def drop sign inval_def [symmetric]
    by (simp only: prod.case pre simp_thms if_False assms(1) option.map(2) limit_def [symmetric])
  have range: "lo \<le> v \<and> v \<le> hi \<longleftrightarrow> (if ng then V \<le> limit else V \<le> limit - 1)"
    unfolding v_def l(3,4) V [symmetric] using l(1) by auto
  consider "int_loop inval (type_overflow ty) 10 limit False 0 (s @ w2) = Inr (V, True, w2)"
    | "int_loop inval (type_overflow ty) 10 limit False 0 (s @ w2) = Inl (type_overflow ty)" "limit < V"
    using int_loop_digits [OF assms(3) l(2) assms(6), of inval "type_overflow ty" False 0] assms(4)
    unfolding V_def by auto
  then show ?thesis
  proof cases
    case 1
    then show ?thesis unfolding p range using spaces_dropWhile [OF assms(6)]
      by (simp add: v_def V not_le del: dropWhile_eq_Nil_conv)
  next
    case 2
    then show ?thesis unfolding p range by auto
  qed
qed

section \<open>Decimal text is read back\<close>

lemma mantissa_int_digits:
  "all_digits a \<Longrightarrow> mantissa inval False ip fr (a @ rest) = mantissa inval False (ip @ a) fr rest"
  by (induction a arbitrary: ip) simp_all

lemma mantissa_frac_digits:
  "all_digits a \<Longrightarrow> mantissa inval True ip fr (a @ rest) = mantissa inval True ip (fr @ a) rest"
  by (induction a arbitrary: fr) simp_all

lemma mantissa_stop: "spaces w \<Longrightarrow> mantissa inval have_dp ip fr w = Inr (ip, fr, w)"
  by (cases w) (auto simp: spaces_def)

lemma exponent_stop: "spaces w \<Longrightarrow> exponent inval w = Inr (None, w)"
  by (cases w) (auto simp: spaces_def exponent_def)

lemma from_digits_scale_render:
  assumes "dec_norm d" "all_digits ds" "dval_from 0 ds = int (mval (limbs d))"
  shows "from_digits_scale (neg d) ds (scale d) = d"
proof -
  have "mag_from_decimal_str ds = limbs d"
    using assms by (intro mag_eqI) simp_all
  then show ?thesis
    using assms(1) by (cases d) (auto simp: from_digits_scale_def from_parts_def Let_def dec_norm_def)
qed

text \<open>The text is the sign, integer digits and, for a positive scale, a point and that many digits.\<close>

lemma render_parts:
  assumes "dec_norm d"
  obtains ip fr where "render_decimal d = sign_text (neg d) @ ip @ (if scale d = 0 then [] else CHR ''.'' # fr)"
    "all_digits ip" "all_digits fr" "ip \<noteq> []" "length fr = scale d"
    "dval_from 0 (ip @ fr) = int (mval (limbs d))"
proof -
  define ds where "ds = dec_str (mval (limbs d))"
  have str: "mag_to_decimal_str (limbs d) = ds" using assms by (simp add: mag_to_decimal_str ds_def)
  have ds: "all_digits ds" "ds \<noteq> []" "dval_from 0 ds = int (mval (limbs d))"
    using dec_str_ok by (simp_all add: ds_def)
  show thesis
  proof (cases "scale d = 0")
    case True
    then show thesis using that [of ds "[]"] ds by (simp add: render_decimal_def str sign_text_def Let_def)
  next
    case False
    define pd where "pd = (if length ds < scale d + 1 then replicate (scale d + 1 - length ds) (CHR ''0'') @ ds else ds)"
    have pd: "all_digits pd" "scale d < length pd" "dval_from 0 pd = int (mval (limbs d))"
      using ds by (auto simp: pd_def)
    define pt where "pt = length pd - scale d"
    have r: "render_decimal d = sign_text (neg d) @ take pt pd @ CHR ''.'' # drop pt pd"
      using False unfolding render_decimal_def Let_def str pd_def [symmetric] pt_def [symmetric] sign_text_def
      by simp
    have "all_digits (take pt pd)" "all_digits (drop pt pd)"
      using pd(1) by (metis append_take_drop_id all_digits_simps(3))+
    moreover have "take pt pd \<noteq> []" "length (drop pt pd) = scale d" using pd(2) by (auto simp: pt_def)
    moreover have "dval_from 0 (take pt pd @ drop pt pd) = int (mval (limbs d))"
      unfolding append_take_drop_id by (rule pd(3))
    moreover have "render_decimal d
        = sign_text (neg d) @ take pt pd @ (if scale d = 0 then [] else CHR ''.'' # drop pt pd)"
      using r False by simp
    ultimately show thesis by (intro that)
  qed
qed

lemma parse_render_decimal_text:
  assumes "dec_norm d" "scale d < 2 ^ 32" "spaces w1" "spaces w2"
  shows "parse_decimal_literal (w1 @ render_decimal d @ w2) = Some (Inr d)"
proof -
  from render_parts [OF assms(1)] obtain ip fr where
    r: "render_decimal d = sign_text (neg d) @ ip @ (if scale d = 0 then [] else CHR ''.'' # fr)"
    and ip: "all_digits ip" "ip \<noteq> []" and fr: "all_digits fr" "length fr = scale d"
    and v: "dval_from 0 (ip @ fr) = int (mval (limbs d))" .
  obtain c cs where c: "ip = c # cs" using ip(2) by (cases ip) auto
  define b where "b = ip @ (if scale d = 0 then [] else CHR ''.'' # fr) @ w2"
  have b: "b \<noteq> []" "is_digit (hd b)" "at_first b = c" "is_digit c" using ip c by (simp_all add: b_def)
  have inp: "w1 @ render_decimal d @ w2 = w1 @ sign_text (neg d) @ b" by (simp add: r b_def)
  have drop: "dropWhile is_pg_space (w1 @ sign_text (neg d) @ b) = sign_text (neg d) @ b"
    using sign_text_start [OF b(1,2)] by (intro dropWhile_spaces assms(3)) simp_all
  have sign: "read_sign (sign_text (neg d) @ b) = (neg d, b)" by (rule read_sign_text [OF b(1,2)])
  have "radix_prefix (c # (cs @ (if scale d = 0 then [] else CHR ''.'' # fr) @ w2)) = 10"
  proof (rule radix_prefix_digits [OF b(4)])
    fix x assume "x \<in> set (take 1 (cs @ (if scale d = 0 then [] else CHR ''.'' # fr) @ w2))"
    then show "is_digit x \<or> is_pg_space x \<or> x = CHR ''.''"
      using ip(1) c assms(4) by (cases cs; cases w2) (auto simp: spaces_def split: if_splits)
  qed
  then have pre: "radix_prefix b = 10" by (simp add: b_def c)
  define inval where "inval = invalid_numeric (w1 @ render_decimal d @ w2)"
  have "mantissa inval False [] [] b = Inr (ip, fr, w2)"
  proof (cases "scale d = 0")
    case True
    then show ?thesis using fr mantissa_stop [OF assms(4)] by (simp add: b_def mantissa_int_digits ip)
  next
    case False
    then have "at_first (fr @ w2) \<noteq> CHR ''_''" using fr by (cases fr) auto
    with False show ?thesis
      using fr mantissa_stop [OF assms(4)] by (simp add: b_def mantissa_int_digits mantissa_frac_digits ip)
  qed
  moreover have "decimal_from_parts ip fr None = (ip @ fr, scale d)"
    using assms(2) fr(2) by (simp add: decimal_from_parts_def w32_id)
  ultimately have "decimal_body inval (neg d) b = Inr (from_digits_scale (neg d) (ip @ fr) (scale d), w2)"
    using b exponent_stop [OF assms(4)] by (simp add: decimal_body_def Let_def)
  also have "from_digits_scale (neg d) (ip @ fr) (scale d) = d"
    using ip(1) fr(1) v by (intro from_digits_scale_render assms(1)) simp_all
  finally have "decimal_body inval (neg d) b = Inr (d, w2)" .
  then show ?thesis
    unfolding parse_decimal_literal_def inval_def [symmetric] Let_def
    unfolding inp drop sign using b pre spaces_dropWhile [OF assms(4)] by (simp del: dropWhile_eq_Nil_conv)
qed


section \<open>Radix integers\<close>

definition radix_val :: "nat \<Rightarrow> nat \<Rightarrow> string \<Rightarrow> nat" where
  "radix_val base v s = foldl (\<lambda>v c. v * base + the (to_digit base c)) v s"

definition radix_digits_ok :: "nat \<Rightarrow> string \<Rightarrow> bool" where
  "radix_digits_ok base s \<longleftrightarrow> list_all (\<lambda>c. to_digit base c \<noteq> None) s"

lemma to_digit_less: "to_digit base c = Some d \<Longrightarrow> d < base"
  by (auto simp: to_digit_def Let_def split: if_splits)

lemma radix_val_simps [simp]:
  "radix_val base v [] = v" "radix_val base v (c # s) = radix_val base (v * base + the (to_digit base c)) s"
  "radix_val base v (s @ t) = radix_val base (radix_val base v s) t"
  by (simp_all add: radix_val_def)

lemma radix_val_shift: "radix_val base v s = v * base ^ length s + radix_val base 0 s"
proof (induction s arbitrary: v)
  case (Cons c s)
  define d where "d = the (to_digit base c)"
  have "radix_val base v (c # s) = (v * base + d) * base ^ length s + radix_val base 0 s"
    using Cons.IH [of "v * base + d"] by (simp add: d_def)
  also have "\<dots> = v * base ^ length (c # s) + (d * base ^ length s + radix_val base 0 s)"
    by (simp add: algebra_simps)
  also have "d * base ^ length s + radix_val base 0 s = radix_val base 0 (c # s)"
    using Cons.IH [of d] by (simp add: d_def)
  finally show ?case .
qed simp

lemma radix_val_less: "radix_digits_ok base s \<Longrightarrow> radix_val base 0 s < base ^ length s"
proof (induction s rule: rev_induct)
  case (snoc c s)
  then obtain d where d: "to_digit base c = Some d" by (auto simp: radix_digits_ok_def)
  have "radix_val base 0 s + 1 \<le> base ^ length s" using snoc by (simp add: radix_digits_ok_def)
  then have "(radix_val base 0 s + 1) * base \<le> base ^ length s * base" by (rule mult_le_mono1)
  moreover have "radix_val base 0 s * base + d < (radix_val base 0 s + 1) * base" using to_digit_less [OF d] by simp
  ultimately have "radix_val base 0 s * base + d < base ^ length s * base" by linarith
  then show ?case using d by (simp add: mult.commute)
qed simp

lemma radix_chunk_eq:
  assumes "radix_digits_ok base s" "carry < mul" "mul * base ^ length s \<le> 2 ^ 28" "0 < base"
  shows "radix_chunk base carry mul s = Some (radix_val base carry s, mul * base ^ length s)
    \<and> radix_val base carry s < mul * base ^ length s"
  using assms
proof (induction s arbitrary: carry mul)
  case (Cons c s)
  then obtain d where d: "to_digit base c = Some d" by (auto simp: radix_digits_ok_def)
  have db: "d < base" by (rule to_digit_less [OF d])
  have "mul * base * 1 \<le> mul * base * base ^ length s"
    using Cons.prems(4) by (intro mult_le_mono2) (simp add: Suc_le_eq)
  also have "mul * base * base ^ length s = mul * base ^ length (c # s)" by simp
  also have "\<dots> \<le> 2 ^ 28" by (rule Cons.prems(3))
  finally have m: "mul * base \<le> 2 ^ 28" by simp
  have "(carry + 1) * base \<le> mul * base" using Cons.prems(2) by (intro mult_le_mono1) simp
  then have lt: "carry * base + d < mul * base" using db by simp
  have w: "w64 (w64 (carry * base) + d) = carry * base + d" "w64 (mul * base) = mul * base"
    using m lt by (simp_all add: w64_id)
  show ?case
    using Cons.IH [of "carry * base + d" "mul * base"] Cons.prems d lt
    by (simp add: w mult.assoc radix_digits_ok_def)
qed simp

lemma radix_fold_eq:
  assumes "radix_digits_ok base s" "limbs_ok ls" "base ^ grp \<le> 2 ^ 28" "0 < base" "0 < grp"
  shows "\<exists>r. radix_fold base grp ls s = Some r \<and> limbs_ok r \<and>
    mval r = mval ls * base ^ length s + radix_val base 0 s"
  using assms
proof (induction base grp ls s rule: radix_fold.induct)
  case (1 base grp ls s)
  show ?case
  proof (cases "s = []")
    case True
    then show ?thesis using 1 by (simp add: radix_fold.simps)
  next
    case False
    define t u where "t = take grp s" and "u = drop grp s"
    have s: "s = t @ u" by (simp add: t_def u_def)
    have tu: "radix_digits_ok base t" "radix_digits_ok base u"
      using "1.prems"(1) unfolding s by (simp_all add: radix_digits_ok_def)
    have "base ^ length t \<le> base ^ grp" using "1.prems"(4) by (intro power_increasing) (simp_all add: t_def)
    then have b: "base ^ length t \<le> 2 ^ 28" using "1.prems"(3) by linarith
    have ch: "radix_chunk base 0 1 t = Some (radix_val base 0 t, base ^ length t)"
      "radix_val base 0 t < base ^ length t"
      using radix_chunk_eq [OF tu(1), of 0 1] b "1.prems"(4) by simp_all
    have "BASE * base ^ length t \<le> BASE * 2 ^ 28" using b by (rule mult_le_mono2)
    also have "\<dots> < 2 ^ 64" by (simp add: BASE_def)
    finally have sm: "BASE * base ^ length t < 2 ^ 64" .
    define l2 where "l2 = small_loop (base ^ length t) (radix_val base 0 t) ls"
    have l2: "mval l2 = radix_val base 0 t + mval ls * base ^ length t" "limbs_ok l2"
      using small_loop [OF "1.prems"(2) _ sm] ch(2) by (simp_all add: l2_def)
    have step: "radix_fold base grp ls s = radix_fold base grp l2 u"
      using False "1.prems"(5) ch(1) by (simp add: radix_fold.simps [of base grp ls s] t_def [symmetric] u_def [symmetric] l2_def)
    have "\<exists>r. radix_fold base grp l2 u = Some r \<and> limbs_ok r \<and>
      mval r = mval l2 * base ^ length u + radix_val base 0 u"
      using "1.IH" [of "(radix_val base 0 t, base ^ length t)" "radix_val base 0 t" "base ^ length t"]
        False ch(1) l2(2) tu(2) "1.prems" by (simp add: t_def [symmetric] u_def [symmetric] l2_def)
    moreover have "mval l2 * base ^ length u + radix_val base 0 u
        = mval ls * base ^ length (t @ u) + radix_val base 0 (t @ u)"
      unfolding l2(1) using radix_val_shift [of base "radix_val base 0 t" u]
      by (simp add: power_add algebra_simps)
    ultimately show ?thesis unfolding step s [symmetric] by simp
  qed
qed

text \<open>The early overflow of \<open>from_radix_digits\<close>: \<open>2\<^sup>4\<^sup>3\<^sup>5\<^sup>4\<^sup>1\<^sup>2\<close> has more than 131072 digits.\<close>

fun tower :: "nat \<Rightarrow> nat" where
  "tower 0 = 10"
| "tower (Suc k) = tower k * tower k"

lemma tower_eq: "tower k = 10 ^ (2 ^ k)"
  by (induction k) (simp_all add: power_add [symmetric] mult_2)

lemma tower_step:
  assumes "tower k \<le> c * 2 ^ s" "k' = Suc k" "c * c \<le> c' * 2 ^ t" "s' = s + s + t"
  shows "tower k' \<le> c' * 2 ^ s'"
proof -
  have "tower k' \<le> (c * 2 ^ s) * (c * 2 ^ s)"
    unfolding assms(2) tower.simps by (intro mult_le_mono assms(1))
  also have "\<dots> = c * c * 2 ^ (s + s)" by (simp add: power_add)
  also have "\<dots> \<le> c' * 2 ^ t * 2 ^ (s + s)" using assms(3) by (rule mult_le_mono1)
  also have "\<dots> = c' * 2 ^ s'" by (simp add: assms(4) power_add)
  finally show ?thesis .
qed

lemma tower_17: "tower 17 \<le> 14539459862 * 2 ^ 435378"
proof -
  have t0: "tower 0 \<le> 10 * 2 ^ 0" by simp
  have t1: "tower 1 \<le> 100 * 2 ^ 0"
    by (rule tower_step [OF t0, of 1 100 0]) simp_all
  have t2: "tower 2 \<le> 10000 * 2 ^ 0"
    by (rule tower_step [OF t1, of 2 10000 0]) simp_all
  have t3: "tower 3 \<le> 100000000 * 2 ^ 0"
    by (rule tower_step [OF t2, of 3 100000000 0]) simp_all
  have t4: "tower 4 \<le> 9536743165 * 2 ^ 20"
    by (rule tower_step [OF t3, of 4 9536743165 20]) simp_all
  have t5: "tower 5 \<le> 10587911843 * 2 ^ 73"
    by (rule tower_step [OF t4, of 5 10587911843 33]) simp_all
  have t6: "tower 6 \<le> 13050608942 * 2 ^ 179"
    by (rule tower_step [OF t5, of 6 13050608942 33]) simp_all
  have t7: "tower 7 \<le> 9913835312 * 2 ^ 392"
    by (rule tower_step [OF t6, of 7 9913835312 34]) simp_all
  have t8: "tower 8 \<le> 11441778694 * 2 ^ 817"
    by (rule tower_step [OF t7, of 8 11441778694 33]) simp_all
  have t9: "tower 9 \<le> 15240430330 * 2 ^ 1667"
    by (rule tower_step [OF t8, of 9 15240430330 33]) simp_all
  have t10: "tower 10 \<le> 13519935115 * 2 ^ 3368"
    by (rule tower_step [OF t9, of 10 13519935115 34]) simp_all
  have t11: "tower 11 \<le> 10639699497 * 2 ^ 6770"
    by (rule tower_step [OF t10, of 11 10639699497 34]) simp_all
  have t12: "tower 12 \<le> 13178587587 * 2 ^ 13573"
    by (rule tower_step [OF t11, of 12 13178587587 33]) simp_all
  have t13: "tower 13 \<le> 10109225451 * 2 ^ 27180"
    by (rule tower_step [OF t12, of 13 10109225451 34]) simp_all
  have t14: "tower 14 \<le> 11897231362 * 2 ^ 54393"
    by (rule tower_step [OF t13, of 14 11897231362 33]) simp_all
  have t15: "tower 15 \<le> 16477903594 * 2 ^ 108819"
    by (rule tower_step [OF t14, of 15 16477903594 33]) simp_all
  have t16: "tower 16 \<le> 15804620161 * 2 ^ 217672"
    by (rule tower_step [OF t15, of 16 15804620161 34]) simp_all
  have t17: "tower 17 \<le> 14539459862 * 2 ^ 435378"
    by (rule tower_step [OF t16, of 17 14539459862 34]) simp_all
  show ?thesis by (rule t17)
qed

lemma cap_below_guard: "(10 :: nat) ^ MAX_INT_DIGITS < 2 ^ 435412"
proof -
  have e: "MAX_INT_DIGITS = 2 ^ 17" by (simp add: MAX_INT_DIGITS_def)
  have "14539459862 < (2 :: nat) ^ 34" by simp
  then have "14539459862 * 2 ^ 435378 < (2 :: nat) ^ 34 * 2 ^ 435378"
    by (rule mult_strict_right_mono) (rule zero_less_power, rule zero_less_numeral)
  also have "(2 :: nat) ^ 34 * 2 ^ 435378 = 2 ^ (34 + 435378)" by (rule power_add [symmetric])
  also have "34 + 435378 = (435412 :: nat)" by simp
  finally have "14539459862 * 2 ^ 435378 < (2 :: nat) ^ 435412" .
  with tower_17 [unfolded tower_eq] show ?thesis unfolding e by (rule order.strict_trans1)
qed


lemma radix_params:
  assumes "base \<in> {2, 8, 16}"
  shows "base = 2 ^ trailing_zeros base" "0 < trailing_zeros base" "0 < 28 div trailing_zeros base"
    "base ^ (28 div trailing_zeros base) \<le> 2 ^ 28"
  using assms by (auto simp: trailing_zeros_def)

lemma radix_val_sig:
  "base \<in> {2, 8, 16} \<Longrightarrow> radix_val base 0 (dropWhile (\<lambda>c. c = CHR ''0'') s) = radix_val base 0 s"
proof (induction s)
  case (Cons c s)
  moreover have "to_digit base (CHR ''0'') = Some 0" using Cons.prems by (auto simp: to_digit_def)
  ultimately show ?case by simp
qed simp

lemma to_digit_0: "base \<in> {2, 8, 16} \<Longrightarrow> to_digit base c = Some 0 \<Longrightarrow> c = CHR ''0''"
proof -
  assume "to_digit base c = Some 0" "base \<in> {2, 8, 16}"
  then have "of_char c = (48 :: nat)" by (auto simp: to_digit_def Let_def split: if_splits)
  then have "char_of (of_char c :: nat) = (char_of (48 :: nat) :: char)" by (simp only:)
  also have "char_of (48 :: nat) = CHR ''0''" using digit_char_val [of "CHR ''0''"] by (simp add: digit_char_def)
  finally show ?thesis by simp
qed

lemma radix_val_lower:
  assumes "base \<in> {2, 8, 16}" "radix_digits_ok base s" "s \<noteq> []" "hd s \<noteq> CHR ''0''"
  shows "base ^ (length s - 1) \<le> radix_val base 0 s"
proof -
  obtain c r where s: "s = c # r" using assms(3) by (cases s) auto
  obtain d where d: "to_digit base c = Some d" using assms(2) by (auto simp: s radix_digits_ok_def)
  have "1 \<le> d" using to_digit_0 [OF assms(1), of c] d assms(4) by (cases d) (auto simp: s)
  then have "1 * base ^ length r \<le> d * base ^ length r" by (rule mult_le_mono1)
  also have "\<dots> \<le> radix_val base 0 s" using radix_val_shift [of base d r] d by (simp add: s)
  finally show ?thesis by (simp add: s)
qed

lemma from_radix_digits_returns:
  assumes "base \<in> {2, 8, 16}" "radix_digits_ok base s"
  shows "\<exists>r. from_radix_digits ng s base = Some r \<and>
    returns (res_bind r check_cap) (sgn_of ng * of_nat (radix_val base 0 s)) 0"
proof -
  define bits where "bits = trailing_zeros base"
  note p = radix_params [OF assms(1), folded bits_def]
  define g where "g = dropWhile (\<lambda>c. c = CHR ''0'') s"
  have g: "radix_digits_ok base g" "radix_val base 0 g = radix_val base 0 s" "g \<noteq> [] \<Longrightarrow> hd g \<noteq> CHR ''0''"
    using assms(2) radix_val_sig [OF assms(1), of s] hd_dropWhile [of "\<lambda>c. c = CHR ''0''" s]
    by (auto simp: g_def radix_digits_ok_def list_all_iff dest: set_dropWhileD)
  define V where "V = radix_val base 0 s"
  have bp: "base ^ n = 2 ^ (bits * n)" for n using p(1) by (metis power_mult)
  show ?thesis
  proof (cases "g \<noteq> [] \<and> (length g - 1) * bits \<ge> 435412")
    case True
    have "(2 :: nat) ^ 435412 \<le> 2 ^ (bits * (length g - 1))"
      using True by (intro power_increasing) (simp_all add: mult.commute)
    also have "\<dots> \<le> V" using radix_val_lower [OF assms(1) g(1) _ g(3)] True g(2) by (simp add: bp V_def)
    finally have "(10 :: nat) ^ MAX_INT_DIGITS \<le> V" using cap_below_guard by linarith
    then have "(of_nat (10 ^ MAX_INT_DIGITS) :: rat) \<le> of_nat V" by (simp only: of_nat_le_iff)
    then have "\<not> fits (sgn_of ng * of_nat V)" by (simp add: fits_def abs_mult not_less)
    moreover have "from_radix_digits ng s base = Some (Inl decimal_overflow)"
      unfolding from_radix_digits_def Let_def g_def [symmetric] bits_def [symmetric] using True by simp
    ultimately show ?thesis by (simp add: returns_def V_def)
  next
    case small: False
    obtain ls where ls: "radix_fold base (28 div bits) [] g = Some ls" "limbs_ok ls" "mval ls = V"
      using radix_fold_eq [OF g(1), of "[]" "28 div bits"] p assms(1) g(2) by (auto simp: V_def)
    define d where "d = from_parts ng 0 ls"
    have f: "from_radix_digits ng s base = Some (Inr d)"
      unfolding from_radix_digits_def Let_def g_def [symmetric] bits_def [symmetric] d_def
      using small ls(1) by auto
    have d: "dec_norm d" "scale d = 0" "dec_val d = sgn_of ng * of_nat V"
      using ls(2,3) by (simp_all add: d_def from_parts_val)
    have len: "bits * length g < 435420"
    proof (cases "g = []")
      case False
      then have "(length g - 1) * bits < 435412" using small by simp
      moreover have "bits * length g = (length g - 1) * bits + bits" using False by (cases g) simp_all
      moreover have "bits \<le> 4" by (simp add: bits_def trailing_zeros_def)
      ultimately show ?thesis by linarith
    qed simp
    have "V < 2 ^ (bits * length g)" using radix_val_less [OF g(1)] by (simp add: g(2) V_def bp)
    also have "(2 :: nat) ^ (bits * length g) \<le> 10 ^ (bits * length g)" by (rule power_mono) simp_all
    finally have "(of_nat V :: rat) < of_nat (10 ^ (bits * length g))" by (simp only: of_nat_less_iff)
    then have lt: "\<bar>dec_val d\<bar> < 10 ^ (bits * length g)" by (simp add: d(3) abs_mult)
    have "bits * length g + scale d < 435420" using len d(2) by simp
    also have "(435420 :: nat) < 2 ^ 27" by simp
    finally have "bits * length g + scale d < 2 ^ 27" .
    then have "returns (check_cap d) (dec_val d) (scale d)"
      by (rule returns_check_cap [OF d(1) _ lt, rotated]) (simp add: d(2))
    then show ?thesis unfolding f d(2,3) by (simp add: V_def)
  qed
qed

end
