(* ===== verification/Number_Laws.thy ===== *)
theory Number_Laws
  imports Number_Text
begin

text \<open>The properties of number literals, with their instances at concrete texts.\<close>

text \<open>
  C32. An integer literal, with any surrounding white space and an optional minus sign, reads as
  exactly the integer its digits denote when the type holds it, and as an out-of-range error naming
  the type otherwise: no digit string, however long, wraps.
\<close>

theorem int_literal_exact:
  assumes "type_min ty = Some lo" "type_max ty = Some hi"
    and "all_digits s" "s \<noteq> []" "spaces w1" "spaces w2"
    and "v = (if ng then - dval_from 0 s else dval_from 0 s)"
  shows "parse_int_literal (w1 @ sign_text ng @ s @ w2) ty
    = Some (if lo \<le> v \<and> v \<le> hi then Inr v else Inl (type_overflow ty))"
  unfolding assms(7) by (rule parse_int_exact_value [OF assms(1-6)])

theorem int_literal_exact_witness:
  "parse_int_literal '' -32768 '' Int16 = Some (Inr (- 32768))
   \<and> parse_int_literal '' 32768 '' Int16 = Some (Inl (type_overflow Int16))"
proof -
  have d: "all_digits ''32768''" "dval_from 0 ''32768'' = 32768" "spaces '' ''" by code_simp+
  have t: "type_min Int16 = Some (- 32768)" "type_max Int16 = Some 32767" by simp_all
  from int_literal_exact [OF t d(1) _ d(3,3), of "- 32768" True] int_literal_exact [OF t d(1) _ d(3,3), of 32768 False] d
  show ?thesis by (simp add: sign_text_def)
qed

text \<open>
  The text of a decimal reads back as that decimal, with its sign, its digits and its scale,
  whatever white space surrounds it.
\<close>

theorem decimal_text_roundtrip:
  assumes "dec_norm d" "scale d < 2 ^ 32" "spaces w1" "spaces w2"
  shows "parse_decimal_literal (w1 @ render_decimal d @ w2) = Some (Inr d)"
  by (rule parse_render_decimal_text [OF assms])

theorem decimal_text_roundtrip_witness:
  "parse_decimal_literal ('' '' @ render_decimal \<lparr> neg = True, scale = 2, limbs = [150] \<rparr> @ [])
   = Some (Inr \<lparr> neg = True, scale = 2, limbs = [150] \<rparr>)"
  by (rule decimal_text_roundtrip)
    (simp_all add: dec_norm_def mag_norm_def limbs_ok_def BASE_def spaces_def is_pg_space_def)

text \<open>
  A hexadecimal, octal or binary literal reads as exactly the integer its digits denote, with
  its sign, or overflows when that integer exceeds the digit cap; the chunked conversion never panics.
\<close>

theorem radix_literal_exact:
  assumes "base \<in> {2, 8, 16}" "radix_digits_ok base s"
  shows "\<exists>r. from_radix_digits ng s base = Some r \<and>
    returns (res_bind r check_cap) (sgn_of ng * of_nat (radix_val base 0 s)) 0"
  by (rule from_radix_digits_returns [OF assms])

theorem radix_literal_exact_witness:
  "\<exists>r. from_radix_digits True ''fF'' 16 = Some r \<and> returns (res_bind r check_cap) (- 255) 0"
proof -
  have "radix_digits_ok 16 ''fF''" "radix_val 16 0 ''fF'' = 255" by code_simp+
  with radix_literal_exact [of 16 "''fF''" True] show ?thesis by (simp add: sgn_of_def del: radix_val_simps)
qed

end
