(* ===== verification/Range_Values.thy ===== *)
theory Range_Values
  imports Decimal_Key Number_Text Datetime
begin

text \<open>
  Range values (\<open>range.rs\<close>, \<open>ranges_gen.rs\<close>, the range value of \<open>value.rs\<close>): the descriptor
  table, canonicalization, the total order, the boolean and set operators, the storage key and the
  text form. A \<open>Value\<close> is restricted to the five kinds a bound can hold. Text is ASCII (a bound's
  own text always is). The session-zone rendering of \<open>tstzrange\<close> bounds is not modelled.
\<close>

section \<open>Values and descriptors\<close>

datatype bound_value =
    VInt int
  | VDecimal decimal
  | VDate int
  | VTimestamp int
  | VTimestamptz int

record range_desc =
  rd_id :: string
  rd_element :: string
  rd_aliases :: "string list"
  rd_discrete :: bool

record range_val =
  rv_empty :: bool
  rv_lower :: "bound_value option"
  rv_upper :: "bound_value option"
  rv_lower_inc :: bool
  rv_upper_inc :: bool

definition empty_range :: range_val where
  "empty_range = \<lparr> rv_empty = True, rv_lower = None, rv_upper = None,
     rv_lower_inc = False, rv_upper_inc = False \<rparr>"

definition RANGES :: "range_desc list" where
  "RANGES =
    [\<lparr> rd_id = ''i32range'', rd_element = ''i32'', rd_aliases = [''int4range''], rd_discrete = True \<rparr>,
     \<lparr> rd_id = ''i64range'', rd_element = ''i64'', rd_aliases = [''int8range''], rd_discrete = True \<rparr>,
     \<lparr> rd_id = ''numrange'', rd_element = ''decimal'', rd_aliases = [], rd_discrete = False \<rparr>,
     \<lparr> rd_id = ''tsrange'', rd_element = ''timestamp'', rd_aliases = [], rd_discrete = False \<rparr>,
     \<lparr> rd_id = ''tstzrange'', rd_element = ''timestamptz'', rd_aliases = [], rd_discrete = False \<rparr>,
     \<lparr> rd_id = ''daterange'', rd_element = ''date'', rd_aliases = [], rd_discrete = True \<rparr>]"

definition range_by_name :: "string \<Rightarrow> range_desc option" where
  "range_by_name name = find (\<lambda>r. rd_id r = name \<or> list_ex (\<lambda>a. a = name) (rd_aliases r)) RANGES"

definition range_for_element :: "scalar_type \<Rightarrow> range_desc option" where
  "range_for_element elem = find (\<lambda>r. rd_element r = canonical_name elem) RANGES"

definition range_name_for_element :: "scalar_type \<Rightarrow> string option" where
  "range_name_for_element elem =
     map_option rd_id (find (\<lambda>r. rd_element r = canonical_name elem) RANGES)"

text \<open>\<open>ScalarType::from_name\<close> with its aliases.\<close>

definition NAMES :: "(string list \<times> scalar_type) list" where
  "NAMES =
    [([''i16'', ''smallint'', ''int2''], Int16),
     ([''i32'', ''int'', ''integer'', ''int4''], Int32),
     ([''i64'', ''bigint'', ''int8''], Int64),
     ([''text'', ''varchar'', ''string'', ''character varying''], Text),
     ([''boolean'', ''bool''], Bool),
     ([''decimal'', ''numeric'', ''dec''], Decimal),
     ([''bytea''], Bytea),
     ([''uuid''], Uuid),
     ([''timestamp'', ''timestamp without time zone''], Timestamp),
     ([''timestamptz'', ''timestamp with time zone''], Timestamptz),
     ([''interval''], Interval),
     ([''f32'', ''real'', ''float4''], Float32),
     ([''f64'', ''double precision'', ''float'', ''float8''], Float64),
     ([''date''], Date),
     ([''json''], Json),
     ([''jsonb''], Jsonb),
     ([''jsonpath''], JsonPath)]"

definition scalar_from_name :: "string \<Rightarrow> scalar_type option" where
  "scalar_from_name name = map_option snd (find (\<lambda>p. List.member (fst p) name) NAMES)"

text \<open>\<open>None\<close> is the panic of the \<open>expect\<close>.\<close>

definition element_scalar :: "range_desc \<Rightarrow> scalar_type option" where
  "element_scalar rd = scalar_from_name (rd_element rd)"

section \<open>Canonicalization\<close>

fun elem_cmp :: "bound_value \<Rightarrow> bound_value \<Rightarrow> ordering" where
  "elem_cmp (VInt x) (VInt y) = cmp x y"
| "elem_cmp (VDecimal x) (VDecimal y) = cmp_value x y"
| "elem_cmp (VDate x) (VDate y) = cmp x y"
| "elem_cmp (VTimestamp x) (VTimestamp y) = cmp x y"
| "elem_cmp (VTimestamptz x) (VTimestamptz y) = cmp x y"
| "elem_cmp _ _ = Equal"

text \<open>\<open>None\<close> is the \<open>unreachable!\<close> arm.\<close>

fun increment :: "bound_value \<Rightarrow> scalar_type \<Rightarrow> bound_value io" where
  "increment (VInt n) elem =
     (if elem \<in> {Int16, Int32, Int64} then
        map_option (\<lambda>mx. if n + 1 \<le> I64_TOP \<and> n + 1 \<le> mx then Inr (VInt (n + 1))
                          else Inl (type_overflow elem)) (type_max elem)
      else None)"
| "increment (VDate d) elem =
     (if elem = Date then
        Some (if d + 1 < I32_MAX then Inr (VDate (d + 1)) else Inl (type_overflow elem))
      else None)"
| "increment _ elem = None"

definition is_infinite_date_bound :: "bound_value \<Rightarrow> scalar_type \<Rightarrow> bool" where
  "is_infinite_date_bound v elem =
     (case v of VDate d \<Rightarrow> elem = Date \<and> (d = DATE_NEG_INFINITY \<or> d = DATE_POS_INFINITY) | _ \<Rightarrow> False)"

definition bounds_reversed :: engine_error where
  "bounds_reversed =
     (DataException, ''range lower bound must be less than or equal to range upper bound'')"

text \<open>The two canonicalizing matches of \<open>finalize\<close>: the lower and the upper bound.\<close>

definition canon_lower :: "bound_value option \<Rightarrow> bool \<Rightarrow> scalar_type \<Rightarrow> (bound_value option \<times> bool) io" where
  "canon_lower lower inc elem =
     (case lower of
        Some lo \<Rightarrow>
          if \<not> inc \<and> \<not> is_infinite_date_bound lo elem
          then io_bind (increment lo elem) (\<lambda>v. Some (Inr (Some v, True)))
          else Some (Inr (Some lo, inc))
      | None \<Rightarrow> Some (Inr (None, False)))"

definition canon_upper :: "bound_value option \<Rightarrow> bool \<Rightarrow> scalar_type \<Rightarrow> (bound_value option \<times> bool) io" where
  "canon_upper upper inc elem =
     (case upper of
        Some hi \<Rightarrow>
          if inc \<and> \<not> is_infinite_date_bound hi elem
          then io_bind (increment hi elem) (\<lambda>v. Some (Inr (Some v, False)))
          else Some (Inr (Some hi, inc))
      | None \<Rightarrow> Some (Inr (None, False)))"

definition finish_range :: "bound_value option \<Rightarrow> bound_value option \<Rightarrow> bool \<Rightarrow> bool \<Rightarrow> range_val" where
  "finish_range lower upper lower_inc upper_inc =
     (case (lower, upper) of
        (Some lo, Some hi) \<Rightarrow>
          if elem_cmp lo hi = Equal \<and> \<not> (lower_inc \<and> upper_inc) then empty_range
          else \<lparr> rv_empty = False, rv_lower = lower, rv_upper = upper,
                 rv_lower_inc = lower_inc, rv_upper_inc = upper_inc \<rparr>
      | _ \<Rightarrow> \<lparr> rv_empty = False, rv_lower = lower, rv_upper = upper,
               rv_lower_inc = lower_inc, rv_upper_inc = upper_inc \<rparr>)"

definition finalize :: "range_desc \<Rightarrow> bound_value option \<Rightarrow> bound_value option \<Rightarrow> bool \<Rightarrow> bool
    \<Rightarrow> range_val io" where
  "finalize rd lower upper lower_inc upper_inc =
     (case element_scalar rd of
        None \<Rightarrow> None
      | Some elem \<Rightarrow>
          if (case (lower, upper) of (Some lo, Some hi) \<Rightarrow> elem_cmp lo hi = Greater | _ \<Rightarrow> False)
          then Some (Inl bounds_reversed)
          else if rd_discrete rd then
            io_bind (canon_lower lower lower_inc elem) (\<lambda>(lower, lower_inc).
              io_bind (canon_upper upper upper_inc elem) (\<lambda>(upper, upper_inc).
                Some (Inr (finish_range lower upper lower_inc upper_inc))))
          else
            let lower_inc = (if lower = None then False else lower_inc);
                upper_inc = (if upper = None then False else upper_inc)
            in Some (Inr (finish_range lower upper lower_inc upper_inc)))"

definition parse_bound_flags :: "string \<Rightarrow> (bool \<times> bool) result" where
  "parse_bound_flags s =
     (if s = ''[]'' then Inr (True, True)
      else if s = ''[)'' then Inr (True, False)
      else if s = ''(]'' then Inr (False, True)
      else if s = ''()'' then Inr (False, False)
      else Inl (SyntaxError, ''invalid range bound flags''))"

section \<open>Comparison\<close>

definition cmp_bounds :: "bound_value option \<Rightarrow> bool \<Rightarrow> bool \<Rightarrow> bound_value option \<Rightarrow> bool \<Rightarrow> bool
    \<Rightarrow> ordering" where
  "cmp_bounds v1 inc1 lower1 v2 inc2 lower2 =
     (case (v1, v2) of
        (None, None) \<Rightarrow> if lower1 = lower2 then Equal else if lower1 then Less else Greater
      | (None, Some _) \<Rightarrow> if lower1 then Less else Greater
      | (Some _, None) \<Rightarrow> if lower2 then Greater else Less
      | (Some x, Some y) \<Rightarrow>
          let c = elem_cmp x y
          in if c \<noteq> Equal then c
             else (case (inc1, inc2) of
                     (False, False) \<Rightarrow> if lower1 = lower2 then Equal else if lower1 then Greater else Less
                   | (False, True) \<Rightarrow> if lower1 then Greater else Less
                   | (True, False) \<Rightarrow> if lower2 then Less else Greater
                   | (True, True) \<Rightarrow> if lower1 = lower2 then Equal else if lower1 then Less else Greater))"

definition cmp_bound :: "bound_value option \<Rightarrow> bool \<Rightarrow> bound_value option \<Rightarrow> bool \<Rightarrow> bool \<Rightarrow> ordering" where
  "cmp_bound v1 inc1 v2 inc2 is_lower = cmp_bounds v1 inc1 is_lower v2 inc2 is_lower"

definition range_total_cmp :: "range_val \<Rightarrow> range_val \<Rightarrow> ordering" where
  "range_total_cmp a b =
     (case (rv_empty a, rv_empty b) of
        (True, True) \<Rightarrow> Equal
      | (True, False) \<Rightarrow> Less
      | (False, True) \<Rightarrow> Greater
      | (False, False) \<Rightarrow>
          let c = cmp_bound (rv_lower a) (rv_lower_inc a) (rv_lower b) (rv_lower_inc b) True
          in if c \<noteq> Equal then c
             else cmp_bound (rv_upper a) (rv_upper_inc a) (rv_upper b) (rv_upper_inc b) False)"

section \<open>Storage key\<close>

definition key_mismatch :: engine_error where
  "key_mismatch = (DataCorrupted, ''a key value does not match its column type'')"

definition int_coded :: "scalar_type \<Rightarrow> bool" where
  "int_coded elem \<longleftrightarrow> elem \<in> {Int32, Int64, Date, Timestamp, Timestamptz}"

text \<open>\<open>None\<close> is a panic of the scalar codec.\<close>

fun encode_range_elem :: "scalar_type \<Rightarrow> bound_value \<Rightarrow> bytes io" where
  "encode_range_elem elem (VInt n) =
     (if int_coded elem then map_option Inr (encode_int elem n) else Some (Inl key_mismatch))"
| "encode_range_elem elem (VDecimal d) = map_option Inr (encode_key d)"
| "encode_range_elem elem (VDate d) =
     (if int_coded elem then map_option Inr (encode_int elem d) else Some (Inl key_mismatch))"
| "encode_range_elem elem (VTimestamp m) =
     (if int_coded elem then map_option Inr (encode_int elem m) else Some (Inl key_mismatch))"
| "encode_range_elem elem (VTimestamptz m) =
     (if int_coded elem then map_option Inr (encode_int elem m) else Some (Inl key_mismatch))"

definition push_bound :: "bytes \<Rightarrow> scalar_type \<Rightarrow> bound_value option \<Rightarrow> bool \<Rightarrow> bool \<Rightarrow> bytes io" where
  "push_bound out elem v inc is_lower =
     (case v of
        None \<Rightarrow> Some (Inr (out @ [if is_lower then 0x00 else 0x02]))
      | Some val \<Rightarrow>
          io_bind (encode_range_elem elem val) (\<lambda>key.
            Some (Inr (((out @ [0x01]) @ key) @ [if inc = is_lower then 0x00 else 0x01]))))"

definition encode_range_key :: "scalar_type \<Rightarrow> range_val \<Rightarrow> bytes io" where
  "encode_range_key elem rv =
     (if rv_empty rv then Some (Inr [0x00])
      else io_bind (push_bound [0x01] elem (rv_lower rv) (rv_lower_inc rv) True) (\<lambda>out.
             push_bound out elem (rv_upper rv) (rv_upper_inc rv) False))"

section \<open>Boolean operators\<close>

definition range_contains_elem :: "range_val \<Rightarrow> bound_value \<Rightarrow> bool" where
  "range_contains_elem r e \<longleftrightarrow>
     \<not> rv_empty r
     \<and> (case rv_lower r of
          None \<Rightarrow> True
        | Some lo \<Rightarrow> (case elem_cmp e lo of Less \<Rightarrow> False | Equal \<Rightarrow> rv_lower_inc r | Greater \<Rightarrow> True))
     \<and> (case rv_upper r of
          None \<Rightarrow> True
        | Some hi \<Rightarrow> (case elem_cmp e hi of Greater \<Rightarrow> False | Equal \<Rightarrow> rv_upper_inc r | Less \<Rightarrow> True))"

definition range_contains :: "range_val \<Rightarrow> range_val \<Rightarrow> bool" where
  "range_contains a b =
     (if rv_empty b then True
      else if rv_empty a then False
      else cmp_bounds (rv_lower a) (rv_lower_inc a) True (rv_lower b) (rv_lower_inc b) True \<noteq> Greater
         \<and> cmp_bounds (rv_upper a) (rv_upper_inc a) False (rv_upper b) (rv_upper_inc b) False \<noteq> Less)"

definition lower_within :: "range_val \<Rightarrow> range_val \<Rightarrow> bool" where
  "lower_within x y \<longleftrightarrow>
     cmp_bounds (rv_lower x) (rv_lower_inc x) True (rv_lower y) (rv_lower_inc y) True \<noteq> Less
   \<and> cmp_bounds (rv_lower x) (rv_lower_inc x) True (rv_upper y) (rv_upper_inc y) False \<noteq> Greater"

definition range_overlaps :: "range_val \<Rightarrow> range_val \<Rightarrow> bool" where
  "range_overlaps a b =
     (if rv_empty a \<or> rv_empty b then False else lower_within a b \<or> lower_within b a)"

definition range_before :: "range_val \<Rightarrow> range_val \<Rightarrow> bool" where
  "range_before a b =
     (if rv_empty a \<or> rv_empty b then False
      else cmp_bounds (rv_upper a) (rv_upper_inc a) False (rv_lower b) (rv_lower_inc b) True = Less)"

definition range_after :: "range_val \<Rightarrow> range_val \<Rightarrow> bool" where
  "range_after a b = range_before b a"

definition range_overleft :: "range_val \<Rightarrow> range_val \<Rightarrow> bool" where
  "range_overleft a b =
     (if rv_empty a \<or> rv_empty b then False
      else cmp_bounds (rv_upper a) (rv_upper_inc a) False (rv_upper b) (rv_upper_inc b) False \<noteq> Greater)"

definition range_overright :: "range_val \<Rightarrow> range_val \<Rightarrow> bool" where
  "range_overright a b =
     (if rv_empty a \<or> rv_empty b then False
      else cmp_bounds (rv_lower a) (rv_lower_inc a) True (rv_lower b) (rv_lower_inc b) True \<noteq> Less)"

definition bounds_touch :: "bound_value option \<Rightarrow> bool \<Rightarrow> bound_value option \<Rightarrow> bool \<Rightarrow> bool" where
  "bounds_touch upper upper_inc lower lower_inc =
     (case (upper, lower) of
        (Some u, Some l) \<Rightarrow> elem_cmp u l = Equal \<and> upper_inc \<noteq> lower_inc
      | _ \<Rightarrow> False)"

definition range_adjacent :: "range_val \<Rightarrow> range_val \<Rightarrow> bool" where
  "range_adjacent a b =
     (if rv_empty a \<or> rv_empty b then False
      else bounds_touch (rv_upper a) (rv_upper_inc a) (rv_lower b) (rv_lower_inc b)
         \<or> bounds_touch (rv_upper b) (rv_upper_inc b) (rv_lower a) (rv_lower_inc a))"

section \<open>Set operators\<close>

definition make_range :: "bound_value option \<Rightarrow> bound_value option \<Rightarrow> bool \<Rightarrow> bool \<Rightarrow> range_val" where
  "make_range lower upper lower_inc upper_inc =
     (let lower_inc = (if lower = None then False else lower_inc);
          upper_inc = (if upper = None then False else upper_inc);
          made = \<lparr> rv_empty = False, rv_lower = lower, rv_upper = upper,
                   rv_lower_inc = lower_inc, rv_upper_inc = upper_inc \<rparr>
      in case (lower, upper) of
           (Some lo, Some hi) \<Rightarrow>
             (case elem_cmp lo hi of
                Greater \<Rightarrow> empty_range
              | Equal \<Rightarrow> if \<not> (lower_inc \<and> upper_inc) then empty_range else made
              | Less \<Rightarrow> made)
         | _ \<Rightarrow> made)"

definition not_contiguous :: "string \<Rightarrow> engine_error" where
  "not_contiguous op = (DataException, ''result of range '' @ op @ '' would not be contiguous'')"

definition range_union :: "range_val \<Rightarrow> range_val \<Rightarrow> bool \<Rightarrow> range_val result" where
  "range_union a b strict =
     (if rv_empty a then Inr b
      else if rv_empty b then Inr a
      else if strict \<and> \<not> range_overlaps a b \<and> \<not> range_adjacent a b then Inl (not_contiguous ''union'')
      else
        let (lower, lower_inc) =
              (if cmp_bound (rv_lower a) (rv_lower_inc a) (rv_lower b) (rv_lower_inc b) True = Less
               then (rv_lower a, rv_lower_inc a) else (rv_lower b, rv_lower_inc b));
            (upper, upper_inc) =
              (if cmp_bound (rv_upper a) (rv_upper_inc a) (rv_upper b) (rv_upper_inc b) False = Greater
               then (rv_upper a, rv_upper_inc a) else (rv_upper b, rv_upper_inc b))
        in Inr \<lparr> rv_empty = False, rv_lower = lower, rv_upper = upper,
                 rv_lower_inc = lower_inc, rv_upper_inc = upper_inc \<rparr>)"

definition range_intersect :: "range_val \<Rightarrow> range_val \<Rightarrow> range_val" where
  "range_intersect a b =
     (if rv_empty a \<or> rv_empty b \<or> \<not> range_overlaps a b then empty_range
      else
        let (lower, lower_inc) =
              (if cmp_bound (rv_lower a) (rv_lower_inc a) (rv_lower b) (rv_lower_inc b) True \<noteq> Less
               then (rv_lower a, rv_lower_inc a) else (rv_lower b, rv_lower_inc b));
            (upper, upper_inc) =
              (if cmp_bound (rv_upper a) (rv_upper_inc a) (rv_upper b) (rv_upper_inc b) False \<noteq> Greater
               then (rv_upper a, rv_upper_inc a) else (rv_upper b, rv_upper_inc b))
        in make_range lower upper lower_inc upper_inc)"

text \<open>\<open>None\<close> is the \<open>unreachable!\<close> at the end.\<close>

definition range_minus :: "range_val \<Rightarrow> range_val \<Rightarrow> range_val io" where
  "range_minus a b =
     (if rv_empty a \<or> rv_empty b then Some (Inr a)
      else
        let cmp_l1l2 = cmp_bounds (rv_lower a) (rv_lower_inc a) True (rv_lower b) (rv_lower_inc b) True;
            cmp_l1u2 = cmp_bounds (rv_lower a) (rv_lower_inc a) True (rv_upper b) (rv_upper_inc b) False;
            cmp_u1l2 = cmp_bounds (rv_upper a) (rv_upper_inc a) False (rv_lower b) (rv_lower_inc b) True;
            cmp_u1u2 = cmp_bounds (rv_upper a) (rv_upper_inc a) False (rv_upper b) (rv_upper_inc b) False
        in if cmp_l1l2 = Less \<and> cmp_u1u2 = Greater then Some (Inl (not_contiguous ''difference''))
           else if cmp_l1u2 = Greater \<or> cmp_u1l2 = Less then Some (Inr a)
           else if cmp_l1l2 \<noteq> Less \<and> cmp_u1u2 \<noteq> Greater then Some (Inr empty_range)
           else if cmp_l1l2 \<noteq> Greater \<and> cmp_u1l2 \<noteq> Less \<and> cmp_u1u2 \<noteq> Greater
           then Some (Inr (make_range (rv_lower a) (rv_lower b) (rv_lower_inc a) (\<not> rv_lower_inc b)))
           else if cmp_l1l2 \<noteq> Less \<and> cmp_u1u2 \<noteq> Less \<and> cmp_l1u2 \<noteq> Greater
           then Some (Inr (make_range (rv_upper b) (rv_upper a) (\<not> rv_upper_inc b) (rv_upper_inc a)))
           else None)"

section \<open>Text\<close>

record parsed_range =
  pr_empty :: bool
  pr_lower :: "string option"
  pr_upper :: "string option"
  pr_lower_inc :: bool
  pr_upper_inc :: bool

definition malformed :: "string \<Rightarrow> engine_error" where
  "malformed input =
     (InvalidTextRepresentation, ''malformed range literal: '' @ CHR 0x22 # input @ [CHR 0x22])"

definition trim :: "string \<Rightarrow> string" where
  "trim s = rev (dropWhile is_pg_space (rev (dropWhile is_pg_space s)))"

text \<open>A quoted bound: the text read so far, and the input after the opening quote.\<close>

fun scan_quoted :: "string \<Rightarrow> string \<Rightarrow> (string \<times> string) option" where
  "scan_quoted out [] = None"
| "scan_quoted out (c # s) =
     (if c = CHR 0x22 then
        (case s of
           d # s' \<Rightarrow> if d = CHR 0x22 then scan_quoted (out @ [CHR 0x22]) s' else Some (out, s)
         | [] \<Rightarrow> Some (out, s))
      else if c = CHR 0x5C then
        (case s of
           d # s' \<Rightarrow> scan_quoted (out @ [d]) s'
         | [] \<Rightarrow> None)
      else scan_quoted (out @ [c]) s)"

definition is_delimiter :: "char \<Rightarrow> bool" where
  "is_delimiter c \<longleftrightarrow> c = CHR '','' \<or> c = CHR '')'' \<or> c = CHR '']''"

definition scan_bound :: "string \<Rightarrow> (string option \<times> string) option" where
  "scan_bound s =
     (case s of
        [] \<Rightarrow> None
      | c # r \<Rightarrow>
          if c = CHR 0x22 then map_option (\<lambda>(out, rest). (Some out, rest)) (scan_quoted [] r)
          else
            let raw = trim (takeWhile (\<lambda>c. \<not> is_delimiter c) s)
            in Some (if raw = [] then None else Some raw, dropWhile (\<lambda>c. \<not> is_delimiter c) s))"

definition parse_range_text :: "string \<Rightarrow> parsed_range result" where
  "parse_range_text input =
     (let s = trim input
      in if to_ascii_lowercase s = ''empty''
         then Inr \<lparr> pr_empty = True, pr_lower = None, pr_upper = None,
                    pr_lower_inc = False, pr_upper_inc = False \<rparr>
         else case s of
           [] \<Rightarrow> Inl (malformed input)
         | c # r \<Rightarrow>
             if c \<noteq> CHR ''['' \<and> c \<noteq> CHR ''('' then Inl (malformed input)
             else case scan_bound r of
               None \<Rightarrow> Inl (malformed input)
             | Some (lower, after_lower) \<Rightarrow>
                 (case after_lower of
                    [] \<Rightarrow> Inl (malformed input)
                  | comma # r \<Rightarrow>
                      if comma \<noteq> CHR '','' then Inl (malformed input)
                      else case scan_bound r of
                        None \<Rightarrow> Inl (malformed input)
                      | Some (upper, after_upper) \<Rightarrow>
                          (case after_upper of
                             [e] \<Rightarrow>
                               if e \<noteq> CHR '']'' \<and> e \<noteq> CHR '')'' then Inl (malformed input)
                               else Inr \<lparr> pr_empty = False, pr_lower = lower, pr_upper = upper,
                                          pr_lower_inc = (c = CHR ''[''),
                                          pr_upper_inc = (e = CHR '']'') \<rparr>
                           | _ \<Rightarrow> Inl (malformed input))))"

definition quote_bound :: "string \<Rightarrow> string" where
  "quote_bound s =
     (let needs = (s = [] \<or> list_ex (\<lambda>c. is_pg_space c \<or>
            c \<in> {CHR '','', CHR ''['', CHR '']'', CHR ''('', CHR '')'', CHR 0x22, CHR 0x5C}) s)
      in if \<not> needs then s
         else CHR 0x22 # concat (map (\<lambda>c. if c = CHR 0x22 \<or> c = CHR 0x5C then [CHR 0x5C, c] else [c]) s)
                @ [CHR 0x22])"

text \<open>\<open>Value::render\<close> of a bound.\<close>

fun render_value :: "bound_value \<Rightarrow> string" where
  "render_value (VInt n) = (if n < 0 then CHR ''-'' # dec_str (nat (- n)) else dec_str (nat n))"
| "render_value (VDecimal d) = render_decimal d"
| "render_value (VDate d) = render_date d"
| "render_value (VTimestamp m) = render_timestamp m"
| "render_value (VTimestamptz m) = render_timestamptz m"

definition range_out :: "range_val \<Rightarrow> string" where
  "range_out r =
     (if rv_empty r then ''empty''
      else [if rv_lower_inc r then CHR ''['' else CHR ''('']
         @ (case rv_lower r of None \<Rightarrow> [] | Some lo \<Rightarrow> quote_bound (render_value lo))
         @ '',''
         @ (case rv_upper r of None \<Rightarrow> [] | Some hi \<Rightarrow> quote_bound (render_value hi))
         @ [if rv_upper_inc r then CHR '']'' else CHR '')''])"

end
