(* ===== verification/Range_Algebra.thy ===== *)
theory Range_Algebra
  imports Range_Values
begin

text \<open>
  What a range means: the set of the points it contains, over the rationals (every bound value has a
  rational one). A bound is a cut of the line, just below or just above a point; the two bounds of
  a range span a half-open interval of cuts, so that the operators of \<open>Range_Values\<close> are decided by
  comparing cuts. The lemmas give each operator its meaning on point sets, and that it keeps the
  canonical form.
\<close>

section \<open>Cuts\<close>

datatype cut = Bottom | Cut rat bool | Top

fun cut_le :: "cut \<Rightarrow> cut \<Rightarrow> bool" where
  "cut_le Bottom c = True"
| "cut_le (Cut x s) Bottom = False"
| "cut_le (Cut x s) (Cut y t) = (x < y \<or> x = y \<and> (s \<longrightarrow> t))"
| "cut_le (Cut x s) Top = True"
| "cut_le Top c = (c = Top)"

instantiation cut :: linorder
begin

definition less_eq_cut :: "cut \<Rightarrow> cut \<Rightarrow> bool" where "less_eq_cut = cut_le"
definition less_cut :: "cut \<Rightarrow> cut \<Rightarrow> bool" where "less_cut a b \<longleftrightarrow> \<not> cut_le b a"

instance
proof
  fix x y z :: cut
  have total: "cut_le x y \<or> cut_le y x" for x y by (cases x; cases y) auto
  have antisym: "cut_le x y \<Longrightarrow> cut_le y x \<Longrightarrow> x = y" for x y by (cases x; cases y) auto
  show "(x < y) = (x \<le> y \<and> \<not> y \<le> x)" using total by (auto simp: less_eq_cut_def less_cut_def)
  show "x \<le> x" using total [of x x] by (simp add: less_eq_cut_def)
  show "x \<le> y \<Longrightarrow> y \<le> z \<Longrightarrow> x \<le> z" by (cases x; cases y; cases z) (auto simp: less_eq_cut_def)
  show "x \<le> y \<Longrightarrow> y \<le> x \<Longrightarrow> x = y" using antisym by (simp add: less_eq_cut_def)
  show "x \<le> y \<or> y \<le> x" using total by (simp add: less_eq_cut_def)
qed

end

lemma cut_order [simp]:
  "Bottom \<le> c" "c \<le> Top" "c \<le> Bottom \<longleftrightarrow> c = Bottom" "Top \<le> c \<longleftrightarrow> c = Top"
  "Cut x s \<le> Cut y t \<longleftrightarrow> x < y \<or> x = y \<and> (s \<longrightarrow> t)"
  "\<not> c < Bottom" "\<not> Top < c" "Bottom < c \<longleftrightarrow> c \<noteq> Bottom" "c < Top \<longleftrightarrow> c \<noteq> Top"
  "Cut x s < Cut y t \<longleftrightarrow> x < y \<or> x = y \<and> \<not> s \<and> t"
  by (cases c; auto simp: less_eq_cut_def less_cut_def)+

text \<open>The points between two cuts: the points whose lower cut is in the half-open interval.\<close>

definition points :: "cut \<Rightarrow> cut \<Rightarrow> rat set" where
  "points l u = {x. l \<le> Cut x False \<and> Cut x False < u}"

lemma below_less_iff: "Cut x False < c \<longleftrightarrow> Cut x True \<le> c"
  by (cases c) auto

lemma below_mono: "Cut x False \<le> Cut y False \<longleftrightarrow> x \<le> y" "Cut x False < Cut y False \<longleftrightarrow> x < y"
  by auto

lemma point_le: "Cut x False < c \<Longrightarrow> c \<le> Cut y False \<Longrightarrow> x \<le> y"
  using less_le_trans [of "Cut x False" c "Cut y False"] by auto

lemma cut_dense:
  assumes "l < u"
  obtains x where "l \<le> Cut x False" "Cut x False < u"
proof (cases l)
  case Bottom
  show ?thesis
  proof (cases u)
    case (Cut y t)
    then show ?thesis using that [of "y - 1"] Bottom by simp
  qed (use Bottom assms that [of 0] in auto)
next
  case (Cut x s)
  show ?thesis
  proof (cases u)
    case (Cut y t)
    show ?thesis
    proof (cases "x < y")
      case True
      then obtain z where "x < z" "z < y" using dense by blast
      then show ?thesis using that [of z] \<open>l = Cut x s\<close> Cut by simp
    qed (use assms \<open>l = Cut x s\<close> Cut that [of x] in auto)
  qed (use Cut assms that [of "x + 1"] in auto)
qed (use assms in auto)

lemma points_empty_iff: "points l u = {} \<longleftrightarrow> u \<le> l"
proof
  assume empty: "points l u = {}"
  show "u \<le> l"
  proof (rule ccontr)
    assume "\<not> u \<le> l"
    then have "l < u" by simp
    then obtain x where "l \<le> Cut x False" "Cut x False < u" by (rule cut_dense)
    with empty show False by (auto simp: points_def)
  qed
qed (auto simp: points_def)

lemma points_Int: "points l u \<inter> points l' u' = points (max l l') (min u u')"
  by (auto simp: points_def)

lemma points_subset_iff:
  assumes "l < u"
  shows "points l u \<subseteq> points l' u' \<longleftrightarrow> l' \<le> l \<and> u \<le> u'"
proof
  assume sub: "points l u \<subseteq> points l' u'"
  show "l' \<le> l \<and> u \<le> u'"
  proof (rule conjI; rule ccontr)
    assume "\<not> l' \<le> l"
    then have "l < min l' u" using assms by simp
    then obtain x where x: "l \<le> Cut x False" "Cut x False < min l' u" by (rule cut_dense)
    then have "x \<in> points l u" by (simp add: points_def)
    with sub have "l' \<le> Cut x False" by (auto simp: points_def)
    with x show False by (metis leD min_less_iff_conj)
  next
    assume "\<not> u \<le> u'"
    then have "max l u' < u" using assms by simp
    then obtain x where x: "max l u' \<le> Cut x False" "Cut x False < u" by (rule cut_dense)
    then have "x \<in> points l u" by (simp add: points_def)
    with sub have "Cut x False < u'" by (auto simp: points_def)
    with x show False by (metis leD max.bounded_iff)
  qed
next
  assume "l' \<le> l \<and> u \<le> u'"
  then show "points l u \<subseteq> points l' u'" unfolding points_def by auto
qed

lemma points_eq_iff:
  "l < u \<Longrightarrow> l' < u' \<Longrightarrow> points l u = points l' u' \<longleftrightarrow> l = l' \<and> u = u'"
  using points_subset_iff [of l u l' u'] points_subset_iff [of l' u' l u] by (auto intro: order_antisym)

text \<open>A set is convex when it has no gap: it holds every point between two of its points.\<close>

definition convex :: "rat set \<Rightarrow> bool" where
  "convex s \<longleftrightarrow> (\<forall>x\<in>s. \<forall>y\<in>s. \<forall>z. x \<le> z \<and> z \<le> y \<longrightarrow> z \<in> s)"

lemma convexD: "convex s \<Longrightarrow> x \<in> s \<Longrightarrow> y \<in> s \<Longrightarrow> x \<le> z \<Longrightarrow> z \<le> y \<Longrightarrow> z \<in> s"
  unfolding convex_def by blast

text \<open>The least convex set around a set.\<close>

definition filled :: "rat set \<Rightarrow> rat set" where
  "filled s = {z. \<exists>x\<in>s. \<exists>y\<in>s. x \<le> z \<and> z \<le> y}"

lemma convex_points [simp]: "convex (points l u)"
  unfolding convex_def points_def
  by (auto intro: order_trans [OF _ below_mono(1) [THEN iffD2]] order_le_less_trans [OF below_mono(1) [THEN iffD2]])

lemma filled_subset: "s \<subseteq> filled s"
  unfolding filled_def by (blast intro: order_refl)

lemma filled_least: "s \<subseteq> t \<Longrightarrow> convex t \<Longrightarrow> filled s \<subseteq> t"
  unfolding filled_def by (blast intro: convexD)

lemma filled_eq_iff: "filled s = s \<longleftrightarrow> convex s"
proof
  assume "filled s = s"
  then show "convex s" unfolding convex_def filled_def by blast
next
  assume "convex s"
  then show "filled s = s" using filled_subset filled_least [of s s] by blast
qed

lemma less_max_points: "points (min l l') (max u u') =
    {x. (l \<le> Cut x False \<or> l' \<le> Cut x False) \<and> (Cut x False < u \<or> Cut x False < u')}"
  by (auto simp: points_def min_le_iff_disj less_max_iff_disj)

lemma filled_union_points:
  assumes "l < u" "l' < u'"
  shows "filled (points l u \<union> points l' u') = points (min l l') (max u u')"
proof
  show "filled (points l u \<union> points l' u') \<subseteq> points (min l l') (max u u')"
    by (rule filled_least [OF _ convex_points]) (auto simp: points_def min_le_iff_disj less_max_iff_disj)
  show "points (min l l') (max u u') \<subseteq> filled (points l u \<union> points l' u')"
  proof
    fix z assume z: "z \<in> points (min l l') (max u u')"
    let ?c = "Cut z False"
    have low: "\<exists>x\<in>points l u. x \<le> z" if "l \<le> ?c" "l < u" for l u
    proof (cases "?c < u")
      case False
      from that(2) obtain x where x: "l \<le> Cut x False" "Cut x False < u" by (rule cut_dense)
      with False have "x \<le> z" by (simp add: point_le [of x u z])
      with x show ?thesis by (auto simp: points_def)
    qed (use that in \<open>auto simp: points_def\<close>)
    have high: "\<exists>y\<in>points l u. z \<le> y" if "?c < u" "l < u" for l u
    proof (cases "l \<le> ?c")
      case False
      from that(2) obtain x where x: "l \<le> Cut x False" "Cut x False < u" by (rule cut_dense)
      with False have "z \<le> x" by (simp add: point_le [of z l x])
      with x show ?thesis by (auto simp: points_def)
    qed (use that in \<open>auto simp: points_def\<close>)
    from z have "l \<le> ?c \<or> l' \<le> ?c" "?c < u \<or> ?c < u'"
      by (auto simp: points_def min_le_iff_disj less_max_iff_disj)
    with low [of l u] low [of l' u'] high [of u l] high [of u' l'] assms
    show "z \<in> filled (points l u \<union> points l' u')" unfolding filled_def by blast
  qed
qed

text \<open>Two intervals leave no gap exactly when neither ends before the other begins.\<close>

lemma convex_union_points:
  assumes "l < u" "l' < u'"
  shows "convex (points l u \<union> points l' u') \<longleftrightarrow> l' \<le> u \<and> l \<le> u'"
proof
  have gap: "\<not> convex (points l u \<union> points l' u')" if a: "l < u" "l' < u'" "u < l'" for l u l' u'
  proof
    assume c: "convex (points l u \<union> points l' u')"
    obtain x where x: "l \<le> Cut x False" "Cut x False < u" using a(1) by (rule cut_dense)
    obtain y where y: "l' \<le> Cut y False" "Cut y False < u'" using a(2) by (rule cut_dense)
    obtain z where z: "u \<le> Cut z False" "Cut z False < l'" using a(3) by (rule cut_dense)
    have le: "x \<le> z" "z \<le> y" using point_le [of x u z] point_le [of z l' y] x y z by simp_all
    have mem: "x \<in> points l u \<union> points l' u'" "y \<in> points l u \<union> points l' u'"
      using x y by (simp_all add: points_def)
    from convexD [OF c mem le] have "Cut z False < u \<or> l' \<le> Cut z False" by (auto simp: points_def)
    with z show False by (meson leD)
  qed
  assume "convex (points l u \<union> points l' u')"
  then have "\<not> u < l'" "\<not> u' < l"
    using gap [of l u l' u'] gap [of l' u' l u] assms by (metis, metis Un_commute)
  then show "l' \<le> u \<and> l \<le> u'" by (meson not_less)
next
  assume "l' \<le> u \<and> l \<le> u'"
  then have "points l u \<union> points l' u' = points (min l l') (max u u')"
    unfolding less_max_points using assms by (auto simp: points_def)
  then show "convex (points l u \<union> points l' u')" by simp
qed

lemma convex_diff_points:
  assumes "l < u" "l' < u'"
  shows "convex (points l u - points l' u') \<longleftrightarrow> \<not> (l < l' \<and> u' < u)"
proof
  assume c: "convex (points l u - points l' u')"
  show "\<not> (l < l' \<and> u' < u)"
  proof
    assume "l < l' \<and> u' < u"
    then have a: "l < l'" "u' < u" by simp_all
    obtain x where x: "l \<le> Cut x False" "Cut x False < l'" using a(1) by (rule cut_dense)
    obtain y where y: "u' \<le> Cut y False" "Cut y False < u" using a(2) by (rule cut_dense)
    obtain z where z: "l' \<le> Cut z False" "Cut z False < u'" using assms(2) by (rule cut_dense)
    have le: "x \<le> z" "z \<le> y" using point_le [of x l' z] point_le [of z u' y] x y z by simp_all
    have "Cut x False < u" "l \<le> Cut y False"
      using a x(2) y(1) assms(2) by (order, order)
    then have mem: "x \<in> points l u - points l' u'" "y \<in> points l u - points l' u'"
      using x y by (simp_all add: points_def not_le not_less)
    from convexD [OF c mem le] z show False by (simp add: points_def)
  qed
next
  assume a: "\<not> (l < l' \<and> u' < u)"
  show "convex (points l u - points l' u')"
  proof (cases "l' \<le> l")
    case True
    then have "points l u - points l' u' = points (max l u') u"
      unfolding points_def by (auto simp: not_less)
    then show ?thesis by simp
  next
    case False
    with a have "points l u - points l' u' = points l (min u l')"
      unfolding points_def by (auto simp: not_less not_le)
    then show ?thesis by simp
  qed
qed


section \<open>Bounds as cuts\<close>

fun bkey :: "bound_value \<Rightarrow> rat" where
  "bkey (VInt n) = of_int n"
| "bkey (VDecimal d) = dec_val d"
| "bkey (VDate n) = of_int n"
| "bkey (VTimestamp n) = of_int n"
| "bkey (VTimestamptz n) = of_int n"

text \<open>The bound values of an element type.\<close>

fun bound_ok :: "scalar_type \<Rightarrow> bound_value \<Rightarrow> bool" where
  "bound_ok elem (VInt n) \<longleftrightarrow> elem \<in> {Int32, Int64} \<and> int_ok elem n"
| "bound_ok elem (VDecimal d) \<longleftrightarrow> elem = Decimal \<and> dec_ok d"
| "bound_ok elem (VDate n) \<longleftrightarrow> elem = Date \<and> int_ok elem n"
| "bound_ok elem (VTimestamp n) \<longleftrightarrow> elem = Timestamp \<and> int_ok elem n"
| "bound_ok elem (VTimestamptz n) \<longleftrightarrow> elem = Timestamptz \<and> int_ok elem n"

lemma dec_ok_norm_of: "dec_ok d \<Longrightarrow> dec_norm d"
  unfolding dec_ok_def by blast

lemma elem_cmp_eq: "bound_ok elem x \<Longrightarrow> bound_ok elem y \<Longrightarrow> elem_cmp x y = cmp (bkey x) (bkey y)"
  by (cases x; cases y) (auto intro: cmp_mono simp: cmp_value_eq dec_ok_norm_of)

text \<open>The cut of a bound: an inclusive lower bound and an exclusive upper bound lie below their point.\<close>

definition bound_cut :: "bool \<Rightarrow> bound_value option \<Rightarrow> bool \<Rightarrow> cut" where
  "bound_cut is_lower v inc =
     (case v of None \<Rightarrow> if is_lower then Bottom else Top | Some x \<Rightarrow> Cut (bkey x) (inc \<noteq> is_lower))"

abbreviation lcut :: "range_val \<Rightarrow> cut" where
  "lcut r \<equiv> bound_cut True (rv_lower r) (rv_lower_inc r)"

abbreviation ucut :: "range_val \<Rightarrow> cut" where
  "ucut r \<equiv> bound_cut False (rv_upper r) (rv_upper_inc r)"

definition range_points :: "range_val \<Rightarrow> rat set" where
  "range_points r = (if rv_empty r then {} else points (lcut r) (ucut r))"

definition opt_ok :: "scalar_type \<Rightarrow> bound_value option \<Rightarrow> bool" where
  "opt_ok elem v = (case v of None \<Rightarrow> True | Some x \<Rightarrow> bound_ok elem x)"

lemma cmp_bounds_eq:
  assumes "opt_ok elem v1" "opt_ok elem v2"
  shows "cmp_bounds v1 inc1 s1 v2 inc2 s2 =
    (let c = cmp (bound_cut s1 v1 inc1) (bound_cut s2 v2 inc2)
     in if c \<noteq> Equal then c else if s1 = s2 then Equal else if s1 then Greater else Less)"
proof (cases v1)
  case None
  then show ?thesis by (cases v2) (auto simp: cmp_bounds_def bound_cut_def Let_def cmp_def)
next
  case (Some x)
  show ?thesis
  proof (cases v2)
    case None
    then show ?thesis using Some by (auto simp: cmp_bounds_def bound_cut_def Let_def cmp_def)
  next
    case v2: (Some y)
    have "elem_cmp x y = cmp (bkey x) (bkey y)"
      using assms Some v2 elem_cmp_eq by (simp add: opt_ok_def)
    then show ?thesis using Some v2
      by (cases "bkey x" "bkey y" rule: linorder_cases; cases inc1; cases inc2; cases s1; cases s2)
        (simp_all add: cmp_bounds_def bound_cut_def Let_def cmp_def)
  qed
qed

text \<open>
  The canonical form: the bounds are of the element type and admit a point, an infinite bound is not
  inclusive, and a discrete range is closed below and open above (an infinite date keeps the
  inclusivity it was given). \<open>discrete\<close> names the element types of the discrete descriptors.
\<close>

definition discrete :: "scalar_type \<Rightarrow> bool" where
  "discrete elem \<longleftrightarrow> elem \<in> {Int32, Int64, Date}"

definition side_ok :: "scalar_type \<Rightarrow> bool \<Rightarrow> bound_value option \<Rightarrow> bool \<Rightarrow> bool" where
  "side_ok elem is_lower v inc =
     (case v of
        None \<Rightarrow> \<not> inc
      | Some x \<Rightarrow> bound_ok elem x \<and> (discrete elem \<longrightarrow> inc = is_lower \<or> is_infinite_date_bound x elem))"

definition range_ok :: "scalar_type \<Rightarrow> range_val \<Rightarrow> bool" where
  "range_ok elem r \<longleftrightarrow>
     (if rv_empty r then r = empty_range
      else side_ok elem True (rv_lower r) (rv_lower_inc r)
         \<and> side_ok elem False (rv_upper r) (rv_upper_inc r) \<and> lcut r < ucut r)"

lemma side_ok_opt: "side_ok elem s v inc \<Longrightarrow> opt_ok elem v"
  by (auto simp: side_ok_def opt_ok_def split: option.splits)

lemma side_ok_flip:
  "side_ok elem s v inc \<Longrightarrow> v \<noteq> None \<Longrightarrow> side_ok elem (\<not> s) v (\<not> inc)"
  "v \<noteq> None \<Longrightarrow> bound_cut (\<not> s) v (\<not> inc) = bound_cut s v inc"
  by (auto simp: side_ok_def bound_cut_def)

lemma bound_cut_extreme [simp]:
  "bound_cut True v inc \<noteq> Top" "bound_cut False v inc \<noteq> Bottom"
  "bound_cut True v inc = Bottom \<longleftrightarrow> v = None" "bound_cut False v inc = Top \<longleftrightarrow> v = None"
  by (auto simp: bound_cut_def split: option.splits)

lemma range_okD:
  assumes "range_ok elem r" "\<not> rv_empty r"
  shows "side_ok elem True (rv_lower r) (rv_lower_inc r)"
    and "side_ok elem False (rv_upper r) (rv_upper_inc r)"
    and "opt_ok elem (rv_lower r)" "opt_ok elem (rv_upper r)" and "lcut r < ucut r"
  using assms by (auto simp: range_ok_def intro: side_ok_opt)

lemma range_points_empty_iff: "range_ok elem r \<Longrightarrow> range_points r = {} \<longleftrightarrow> rv_empty r"
  using range_okD(5) [of elem r] by (auto simp: range_points_def points_empty_iff)

lemma empty_range_ok [simp]: "range_ok elem empty_range" "range_points empty_range = {}" "rv_empty empty_range"
  by (simp_all add: range_ok_def empty_range_def range_points_def)

text \<open>Two bounds compared: on one side the cuts decide, across sides a lower bound needs room.\<close>

lemma cmp_bounds_iff:
  assumes "opt_ok elem v" "opt_ok elem w"
  shows "cmp_bounds v i s w j s = cmp (bound_cut s v i) (bound_cut s w j)"
    and "cmp_bounds v i True w j False = Greater \<longleftrightarrow> bound_cut False w j \<le> bound_cut True v i"
    and "cmp_bounds v i False w j True = Less \<longleftrightarrow> bound_cut False v i \<le> bound_cut True w j"
  by (auto simp: cmp_bounds_eq [OF assms] Let_def cmp_def)

end
