(* ===== verification/Range_Ops.thy ===== *)
theory Range_Ops
  imports Range_Algebra
begin

text \<open>
  The operators on canonical ranges: what each boolean operator says of the points of its
  operands, what the set operators return or when they raise, and that they keep the canonical form.
\<close>

section \<open>Boolean operators\<close>

lemmas ops_cut = cmp_bounds_iff [OF range_okD(3) range_okD(3)] cmp_bounds_iff [OF range_okD(3) range_okD(4)]
  cmp_bounds_iff [OF range_okD(4) range_okD(3)] cmp_bounds_iff [OF range_okD(4) range_okD(4)]

lemma contains_elem_points:
  assumes "range_ok elem r" "bound_ok elem e"
  shows "range_contains_elem r e \<longleftrightarrow> bkey e \<in> range_points r"
proof (cases "rv_empty r")
  case False
  have "(case rv_lower r of None \<Rightarrow> True
        | Some lo \<Rightarrow> (case elem_cmp e lo of Less \<Rightarrow> False | Equal \<Rightarrow> rv_lower_inc r | Greater \<Rightarrow> True))
      \<longleftrightarrow> lcut r \<le> Cut (bkey e) False"
    using range_okD(3) [OF assms(1) False] elem_cmp_eq [OF assms(2)]
    by (auto simp: bound_cut_def opt_ok_def cmp_def split: option.splits)
  moreover have "(case rv_upper r of None \<Rightarrow> True
        | Some hi \<Rightarrow> (case elem_cmp e hi of Greater \<Rightarrow> False | Equal \<Rightarrow> rv_upper_inc r | Less \<Rightarrow> True))
      \<longleftrightarrow> Cut (bkey e) False < ucut r"
    using range_okD(4) [OF assms(1) False] elem_cmp_eq [OF assms(2)]
    by (auto simp: bound_cut_def opt_ok_def cmp_def split: option.splits)
  ultimately show ?thesis using False by (simp add: range_contains_elem_def range_points_def points_def)
qed (simp add: range_contains_elem_def range_points_def)

text \<open>Two ranges with points: their cuts, and the point sets as intervals.\<close>

lemma two_cases:
  assumes "range_ok elem a" "range_ok elem b"
  obtains "rv_empty a \<or> rv_empty b" "range_points a = {} \<or> range_points b = {}"
  | "\<not> rv_empty a" "\<not> rv_empty b" "lcut a < ucut a" "lcut b < ucut b"
    "range_points a = points (lcut a) (ucut a)" "range_points b = points (lcut b) (ucut b)"
    "range_points a \<noteq> {}" "range_points b \<noteq> {}"
  using assms range_okD(5) range_points_empty_iff by (metis range_points_def)

lemma contains_points:
  assumes ok: "range_ok elem a" "range_ok elem b"
  shows "range_contains a b \<longleftrightarrow> range_points b \<subseteq> range_points a"
  using ok
proof (cases rule: two_cases)
  case 1
  then show ?thesis using range_points_empty_iff [OF ok(2)] range_points_empty_iff [OF ok(1)]
    by (auto simp: range_contains_def)
next
  case 2
  then show ?thesis using points_subset_iff [OF 2(4)] ok
    by (auto simp: range_contains_def ops_cut)
qed

lemma overlaps_cuts:
  assumes "range_ok elem a" "range_ok elem b" "\<not> rv_empty a" "\<not> rv_empty b"
  shows "range_overlaps a b \<longleftrightarrow> lcut a < ucut b \<and> lcut b < ucut a"
proof -
  have "range_overlaps a b \<longleftrightarrow>
      lcut b \<le> lcut a \<and> lcut a < ucut b \<or> lcut a \<le> lcut b \<and> lcut b < ucut a"
    using assms by (auto simp: range_overlaps_def lower_within_def ops_cut)
  also have "\<dots> \<longleftrightarrow> lcut a < ucut b \<and> lcut b < ucut a"
    using range_okD(5) [OF assms(1,3)] range_okD(5) [OF assms(2,4)] by (auto intro: le_less_trans)
  finally show ?thesis .
qed

lemma overlaps_points:
  assumes ok: "range_ok elem a" "range_ok elem b"
  shows "range_overlaps a b \<longleftrightarrow> range_points a \<inter> range_points b \<noteq> {}"
  using ok
proof (cases rule: two_cases)
  case 2
  then show ?thesis using overlaps_cuts [OF ok] by (auto simp: points_Int points_empty_iff not_le)
qed (auto simp: range_overlaps_def)

text \<open>Both operands of the positional operators have points.\<close>

definition all_less :: "rat set \<Rightarrow> rat set \<Rightarrow> bool" where
  "all_less s t \<longleftrightarrow> (\<forall>x\<in>s. \<forall>y\<in>t. x < y)"

lemma points_nonemptyE:
  assumes "l < u"
  obtains x where "x \<in> points l u"
  using assms points_empty_iff [of l u] by (meson all_not_in_conv not_le)

lemma point_before: "x \<in> points l u \<Longrightarrow> u \<le> Cut y False \<Longrightarrow> x < y"
  using less_le_trans [of "Cut x False" u "Cut y False"] by (auto simp: points_def)

lemma point_after: "x \<in> points l u \<Longrightarrow> Cut y False < l \<Longrightarrow> y < x"
  using less_le_trans [of "Cut y False" l "Cut x False"] by (auto simp: points_def)

lemma all_less_points:
  assumes "l < u" "l' < u'"
  shows "all_less (points l u) (points l' u') \<longleftrightarrow> u \<le> l'"
proof
  assume less: "all_less (points l u) (points l' u')"
  show "u \<le> l'"
  proof (rule ccontr)
    assume "\<not> u \<le> l'"
    show False
    proof (cases "max l l' < min u u'")
      case True
      then obtain x where "x \<in> points (max l l') (min u u')" by (rule points_nonemptyE)
      then have "x \<in> points l u" "x \<in> points l' u'" by (simp_all add: points_Int [symmetric])
      with less show False by (auto simp: all_less_def)
    next
      case False
      with \<open>\<not> u \<le> l'\<close> assms have le: "u' \<le> l" by (auto simp: not_less not_le max_def min_def split: if_splits)
      obtain x y where xy: "x \<in> points l u" "y \<in> points l' u'"
        using assms by (metis points_nonemptyE)
      then have "u' \<le> Cut x False" using le by (auto simp: points_def)
      from point_before [OF xy(2) this] less xy show False by (meson all_less_def less_asym)
    qed
  qed
next
  assume "u \<le> l'"
  then show "all_less (points l u) (points l' u')"
    unfolding all_less_def by (auto simp: points_def intro: point_before [of _ l u, unfolded points_def])
qed

lemma before_points:
  assumes ok: "range_ok elem a" "range_ok elem b"
  shows "range_before a b \<longleftrightarrow> range_points a \<noteq> {} \<and> range_points b \<noteq> {} \<and>
    all_less (range_points a) (range_points b)"
  using ok
proof (cases rule: two_cases)
  case 2
  then show ?thesis using ok all_less_points [OF 2(3,4)] by (simp add: range_before_def ops_cut)
qed (auto simp: range_before_def)

text \<open>No point of \<open>a\<close> lies right (left) of all points of \<open>b\<close>.\<close>

lemma overleft_points:
  assumes ok: "range_ok elem a" "range_ok elem b"
  shows "range_overleft a b \<longleftrightarrow> range_points a \<noteq> {} \<and> range_points b \<noteq> {} \<and>
    (\<forall>x\<in>range_points a. \<exists>y\<in>range_points b. x \<le> y)"
  using ok
proof (cases rule: two_cases)
  case 2
  have "(\<forall>x\<in>points (lcut a) (ucut a). \<exists>y\<in>points (lcut b) (ucut b). x \<le> y) \<longleftrightarrow> ucut a \<le> ucut b" (is "?P \<longleftrightarrow> _")
  proof
    assume P: ?P
    show "ucut a \<le> ucut b"
    proof (rule ccontr)
      assume "\<not> ucut a \<le> ucut b"
      then have "max (lcut a) (ucut b) < ucut a" using 2(3) by auto
      then obtain x where x: "max (lcut a) (ucut b) \<le> Cut x False" "Cut x False < ucut a" by (rule cut_dense)
      then have "x \<in> points (lcut a) (ucut a)" by (simp add: points_def)
      with P obtain y where "y \<in> points (lcut b) (ucut b)" "x \<le> y" by blast
      with point_before [of y "lcut b" "ucut b" x] x show False by simp
    qed
  next
    assume le: "ucut a \<le> ucut b"
    obtain y where y: "y \<in> points (lcut b) (ucut b)" using 2(4) by (rule points_nonemptyE)
    show ?P
    proof
      fix x assume x: "x \<in> points (lcut a) (ucut a)"
      show "\<exists>y\<in>points (lcut b) (ucut b). x \<le> y"
      proof (cases "lcut b \<le> Cut x False")
        case True
        then have "x \<in> points (lcut b) (ucut b)" using x le by (auto simp: points_def)
        then show ?thesis by blast
      next
        case False
        with point_after [OF y] show ?thesis using y by (meson less_imp_le not_le)
      qed
    qed
  qed
  then show ?thesis using ok 2 by (auto simp: range_overleft_def ops_cut)
qed (auto simp: range_overleft_def)

lemma overright_points:
  assumes ok: "range_ok elem a" "range_ok elem b"
  shows "range_overright a b \<longleftrightarrow> range_points a \<noteq> {} \<and> range_points b \<noteq> {} \<and>
    (\<forall>x\<in>range_points a. \<exists>y\<in>range_points b. y \<le> x)"
  using ok
proof (cases rule: two_cases)
  case 2
  have "(\<forall>x\<in>points (lcut a) (ucut a). \<exists>y\<in>points (lcut b) (ucut b). y \<le> x) \<longleftrightarrow> lcut b \<le> lcut a" (is "?P \<longleftrightarrow> _")
  proof
    assume P: ?P
    show "lcut b \<le> lcut a"
    proof (rule ccontr)
      assume "\<not> lcut b \<le> lcut a"
      then have "lcut a < min (lcut b) (ucut a)" using 2(3) by auto
      then obtain x where x: "lcut a \<le> Cut x False" "Cut x False < min (lcut b) (ucut a)" by (rule cut_dense)
      then have "x \<in> points (lcut a) (ucut a)" by (simp add: points_def)
      with P obtain y where "y \<in> points (lcut b) (ucut b)" "y \<le> x" by blast
      with point_after [of y "lcut b" "ucut b" x] x show False by simp
    qed
  next
    assume le: "lcut b \<le> lcut a"
    obtain y where y: "y \<in> points (lcut b) (ucut b)" using 2(4) by (rule points_nonemptyE)
    show ?P
    proof
      fix x assume x: "x \<in> points (lcut a) (ucut a)"
      show "\<exists>y\<in>points (lcut b) (ucut b). y \<le> x"
      proof (cases "Cut x False < ucut b")
        case True
        then have "x \<in> points (lcut b) (ucut b)" using x le by (auto simp: points_def)
        then show ?thesis by blast
      next
        case False
        with point_before [OF y] show ?thesis using y by (meson less_imp_le not_le)
      qed
    qed
  qed
  then show ?thesis using ok 2 by (auto simp: range_overright_def ops_cut)
qed (auto simp: range_overright_def)

text \<open>Adjacent: the cuts meet, so that the two point sets are disjoint and leave no gap.\<close>

lemma bounds_touch_iff:
  assumes "opt_ok elem u" "opt_ok elem l"
  shows "bounds_touch u i l j \<longleftrightarrow> bound_cut False u i = bound_cut True l j"
  using assms elem_cmp_eq
  by (auto simp: bounds_touch_def bound_cut_def opt_ok_def split: option.splits)

lemma adjacent_cuts:
  assumes "range_ok elem a" "range_ok elem b" "\<not> rv_empty a" "\<not> rv_empty b"
  shows "range_adjacent a b \<longleftrightarrow> ucut a = lcut b \<or> ucut b = lcut a"
  using assms bounds_touch_iff [OF range_okD(4) range_okD(3)] by (simp add: range_adjacent_def)

lemma joined_cuts:
  assumes "range_ok elem a" "range_ok elem b" "\<not> rv_empty a" "\<not> rv_empty b"
  shows "range_overlaps a b \<or> range_adjacent a b \<longleftrightarrow> lcut b \<le> ucut a \<and> lcut a \<le> ucut b"
  unfolding overlaps_cuts [OF assms] adjacent_cuts [OF assms]
  using range_okD(5) [OF assms(1,3)] range_okD(5) [OF assms(2,4)] by auto

lemma adjacent_points:
  assumes ok: "range_ok elem a" "range_ok elem b"
  shows "range_adjacent a b \<longleftrightarrow> range_points a \<noteq> {} \<and> range_points b \<noteq> {} \<and>
    range_points a \<inter> range_points b = {} \<and> convex (range_points a \<union> range_points b)"
  using ok
proof (cases rule: two_cases)
  case 2
  have "ucut a = lcut b \<or> ucut b = lcut a \<longleftrightarrow>
      \<not> (lcut a < ucut b \<and> lcut b < ucut a) \<and> lcut b \<le> ucut a \<and> lcut a \<le> ucut b"
    using 2(3,4) by auto
  then show ?thesis
    using 2 adjacent_cuts [OF ok 2(1,2)] overlaps_points [OF ok] overlaps_cuts [OF ok 2(1,2)]
      convex_union_points [OF 2(3,4)] by auto
qed (auto simp: range_adjacent_def)


section \<open>Set operators\<close>

lemma make_range_eq:
  assumes "opt_ok elem v" "opt_ok elem w"
  shows "make_range v w i j =
    (if bound_cut False w j \<le> bound_cut True v i then empty_range
     else \<lparr> rv_empty = False, rv_lower = v, rv_upper = w,
            rv_lower_inc = (v \<noteq> None \<and> i), rv_upper_inc = (w \<noteq> None \<and> j) \<rparr>)"
proof (cases "v = None \<or> w = None")
  case True
  then show ?thesis by (auto simp: make_range_def bound_cut_def Let_def split: option.splits)
next
  case False
  then obtain x y where xy: "v = Some x" "w = Some y" by auto
  have "elem_cmp x y = cmp (bkey x) (bkey y)" using assms elem_cmp_eq by (simp add: opt_ok_def xy)
  then show ?thesis using xy
    by (cases "bkey x" "bkey y" rule: linorder_cases) (auto simp: make_range_def bound_cut_def Let_def cmp_def)
qed

lemma bound_cut_None_inc: "bound_cut s v (v \<noteq> None \<and> i) = bound_cut s v i"
  by (auto simp: bound_cut_def split: option.splits)

lemma make_range_points:
  assumes "opt_ok elem v" "opt_ok elem w"
  shows "range_points (make_range v w i j) = points (bound_cut True v i) (bound_cut False w j)"
  using points_empty_iff [of "bound_cut True v i" "bound_cut False w j"]
  by (cases "bound_cut False w j \<le> bound_cut True v i")
    (simp_all add: make_range_eq [OF assms] range_points_def empty_range_def bound_cut_None_inc del: not_None_eq)

lemma make_range_ok:
  assumes "side_ok elem True v i" "side_ok elem False w j"
  shows "range_ok elem (make_range v w i j)"
  unfolding make_range_eq [OF assms [THEN side_ok_opt]]
  using assms by (auto simp: range_ok_def not_le side_ok_def split: option.splits)

lemma convex_range_points [simp]: "convex (range_points r)"
  by (simp add: range_points_def) (simp add: convex_def)

text \<open>A set operator takes one of the two bounds of each side, by a test on the cuts.\<close>

lemma pick_bound:
  assumes "side_ok elem s v i" "side_ok elem s w j" "t \<longleftrightarrow> P" "P \<longrightarrow> bound_cut s v i = c" "\<not> P \<longrightarrow> bound_cut s w j = c"
  obtains x k where "(if t then (v, i) else (w, j)) = (x, k)" "bound_cut s x k = c" "side_ok elem s x k"
  using assms by (cases t) auto

lemma intersect_points:
  assumes ok: "range_ok elem a" "range_ok elem b"
  shows "range_points (range_intersect a b) = range_points a \<inter> range_points b \<and> range_ok elem (range_intersect a b)"
proof (cases "rv_empty a \<or> rv_empty b \<or> \<not> range_overlaps a b")
  case True
  then show ?thesis using overlaps_points [OF ok] by (auto simp: range_intersect_def range_points_def)
next
  case False
  then have ne: "\<not> rv_empty a" "\<not> rv_empty b" by simp_all
  note o = range_okD [OF ok(1) ne(1)] range_okD [OF ok(2) ne(2)]
  have p: "range_points a \<inter> range_points b = points (max (lcut a) (lcut b)) (min (ucut a) (ucut b))"
    using ne by (simp add: range_points_def points_Int)
  obtain v i where v: "(if cmp_bound (rv_lower a) (rv_lower_inc a) (rv_lower b) (rv_lower_inc b) True \<noteq> Less
      then (rv_lower a, rv_lower_inc a) else (rv_lower b, rv_lower_inc b)) = (v, i)"
    "bound_cut True v i = max (lcut a) (lcut b)" "side_ok elem True v i"
    by (rule pick_bound [OF o(1,6), of _ "lcut b \<le> lcut a" "max (lcut a) (lcut b)"])
      (use cmp_bounds_iff(1) [OF o(3,8)] in \<open>auto simp: cmp_bound_def not_less max_def\<close>)
  obtain w j where w: "(if cmp_bound (rv_upper a) (rv_upper_inc a) (rv_upper b) (rv_upper_inc b) False \<noteq> Greater
      then (rv_upper a, rv_upper_inc a) else (rv_upper b, rv_upper_inc b)) = (w, j)"
    "bound_cut False w j = min (ucut a) (ucut b)" "side_ok elem False w j"
    by (rule pick_bound [OF o(2,7), of _ "ucut a \<le> ucut b" "min (ucut a) (ucut b)"])
      (use cmp_bounds_iff(1) [OF o(4,9)] in \<open>auto simp: cmp_bound_def not_less min_def\<close>)
  have "range_intersect a b = make_range v w i j"
    using False v(1) w(1) by (simp add: range_intersect_def Let_def)
  then show ?thesis
    using make_range_points [OF v(3) [THEN side_ok_opt] w(3) [THEN side_ok_opt]] make_range_ok [OF v(3) w(3)] v(2) w(2) p
    by simp
qed

definition union_of :: "range_val \<Rightarrow> range_val \<Rightarrow> range_val" where
  "union_of a b = (case range_union a b False of Inr r \<Rightarrow> r | Inl e \<Rightarrow> empty_range)"

lemma union_eq:
  assumes ok: "range_ok elem a" "range_ok elem b"
  shows "range_union a b strict =
      (if strict \<and> \<not> convex (range_points a \<union> range_points b) then Inl (not_contiguous ''union'')
       else Inr (union_of a b))"
  using ok
proof (cases rule: two_cases)
  case 1
  then have "convex (range_points a \<union> range_points b)" by auto
  with 1 show ?thesis by (auto simp: range_union_def union_of_def)
next
  case 2
  then show ?thesis using joined_cuts [OF ok 2(1,2)] convex_union_points [OF 2(3,4)]
    by (auto simp: range_union_def union_of_def Let_def split: prod.splits)
qed

lemma union_of_points:
  assumes ok: "range_ok elem a" "range_ok elem b"
  shows "range_points (union_of a b) = filled (range_points a \<union> range_points b) \<and> range_ok elem (union_of a b)"
  using ok
proof (cases rule: two_cases)
    case 1
    have "filled (range_points a) = range_points a" for a by (simp add: filled_eq_iff)
    moreover have "range_points a = {} \<longleftrightarrow> rv_empty a" "range_points b = {} \<longleftrightarrow> rv_empty b"
      using ok range_points_empty_iff by auto
    ultimately show ?thesis using 1 ok by (auto simp: range_union_def union_of_def)
  next
    case 2
    note o = range_okD [OF ok(1) 2(1)] range_okD [OF ok(2) 2(2)]
    have l: "lcut (union_of a b) = min (lcut a) (lcut b)" "ucut (union_of a b) = max (ucut a) (ucut b)"
      and s: "side_ok elem True (rv_lower (union_of a b)) (rv_lower_inc (union_of a b))"
        "side_ok elem False (rv_upper (union_of a b)) (rv_upper_inc (union_of a b))"
        "\<not> rv_empty (union_of a b)"
      using 2 ok o by (auto simp: union_of_def range_union_def cmp_bound_def ops_cut max_def min_def not_less)
    then show ?thesis using filled_union_points [OF 2(3,4)] 2
      by (auto simp: range_points_def range_ok_def min_less_iff_disj less_max_iff_disj)
qed


lemma minus_empty:
  "range_ok elem a \<Longrightarrow> range_ok elem b \<Longrightarrow> rv_empty a \<or> rv_empty b \<Longrightarrow> range_points a - range_points b = range_points a"
  using range_points_empty_iff by fastforce

lemma points_minus:
  assumes "l < u" "l' < u'"
  shows "u' \<le> l \<or> u \<le> l' \<Longrightarrow> points l u - points l' u' = points l u"
    and "l' \<le> l \<Longrightarrow> u \<le> u' \<Longrightarrow> points l u - points l' u' = {}"
    and "l \<le> l' \<Longrightarrow> l' \<le> u \<Longrightarrow> u \<le> u' \<Longrightarrow> points l u - points l' u' = points l l'"
    and "l' \<le> l \<Longrightarrow> u' \<le> u \<Longrightarrow> l \<le> u' \<Longrightarrow> points l u - points l' u' = points u' u"
  unfolding points_def using assms by (fastforce simp: not_le not_less)+

text \<open>
  \<open>range_minus\<close> never reaches its \<open>unreachable!\<close>: it returns the difference exactly, or raises when
  the difference has a gap.
\<close>

lemma minus_cases:
  assumes ok: "range_ok elem a" "range_ok elem b" and ne: "\<not> rv_empty a" "\<not> rv_empty b"
  shows "if lcut a < lcut b \<and> ucut b < ucut a then range_minus a b = Some (Inl (not_contiguous ''difference''))
    else \<exists>r. range_minus a b = Some (Inr r) \<and> range_ok elem r \<and>
      range_points r = points (lcut a) (ucut a) - points (lcut b) (ucut b)"
proof -
  note o = range_okD [OF ok(1) ne(1)] range_okD [OF ok(2) ne(2)]
  note c = cmp_bounds_iff [OF o(3,8)] cmp_bounds_iff [OF o(3,9)] cmp_bounds_iff [OF o(4,8)] cmp_bounds_iff [OF o(4,9)]
  note m = points_minus [OF o(5,10)]
  have eq: "range_minus a b =
    (if lcut a < lcut b \<and> ucut b < ucut a then Some (Inl (not_contiguous ''difference''))
     else if ucut b \<le> lcut a \<or> ucut a \<le> lcut b then Some (Inr a)
     else if lcut b \<le> lcut a \<and> ucut a \<le> ucut b then Some (Inr empty_range)
     else if lcut a \<le> lcut b \<and> lcut b < ucut a \<and> ucut a \<le> ucut b
     then Some (Inr (make_range (rv_lower a) (rv_lower b) (rv_lower_inc a) (\<not> rv_lower_inc b)))
     else if lcut b \<le> lcut a \<and> ucut b \<le> ucut a \<and> lcut a < ucut b
     then Some (Inr (make_range (rv_upper b) (rv_upper a) (\<not> rv_upper_inc b) (rv_upper_inc a)))
     else None)"
    unfolding range_minus_def Let_def by (simp only: c cmp_iff ne if_False de_Morgan_disj simp_thms not_le not_less)
  have pa: "range_points a = points (lcut a) (ucut a)" using ne by (simp add: range_points_def)
  show ?thesis
  proof (cases "lcut a < lcut b \<and> ucut b < ucut a")
    case True
    then show ?thesis by (simp add: eq)
  next
    case inside: False
    consider (apart) "ucut b \<le> lcut a \<or> ucut a \<le> lcut b"
      | (within) "lcut b \<le> lcut a" "ucut a \<le> ucut b" "\<not> (ucut b \<le> lcut a \<or> ucut a \<le> lcut b)"
      | (right) "lcut a < lcut b" "ucut a \<le> ucut b" "lcut b < ucut a"
      | (left) "lcut b \<le> lcut a" "ucut b < ucut a" "lcut a < ucut b"
      using inside by (metis not_le not_less)
    then have "\<exists>r. range_minus a b = Some (Inr r) \<and> range_ok elem r \<and>
      range_points r = points (lcut a) (ucut a) - points (lcut b) (ucut b)"
    proof cases
      case apart
      then show ?thesis using inside ok pa m(1) by (auto simp: eq)
    next
      case within
      then have "range_minus a b = Some (Inr empty_range)"
        using leD [OF within(1)] leD [OF within(2)] by (auto simp: eq not_le)
      then show ?thesis using m(2) within by simp
    next
      case right
      let ?r = "make_range (rv_lower a) (rv_lower b) (rv_lower_inc a) (\<not> rv_lower_inc b)"
      have f: "rv_lower b \<noteq> None" using right(1) by (cases "rv_lower b") (simp_all add: bound_cut_def)
      have "range_minus a b = Some (Inr ?r)"
        using right leD [OF right(2)] by (auto simp: eq not_le)
      moreover have s: "side_ok elem False (rv_lower b) (\<not> rv_lower_inc b)"
        using side_ok_flip(1) [OF o(6) f] by simp
      moreover have "range_points ?r = points (lcut a) (lcut b)"
        using make_range_points [OF o(3,8)] side_ok_flip(2) [OF f, of True "rv_lower_inc b"] by simp
      ultimately show ?thesis using make_range_ok [OF o(1) s] m(3) right by auto
    next
      case left
      let ?r = "make_range (rv_upper b) (rv_upper a) (\<not> rv_upper_inc b) (rv_upper_inc a)"
      have f: "rv_upper b \<noteq> None" using left(2) by (cases "rv_upper b") (simp_all add: bound_cut_def)
      have "range_minus a b = Some (Inr ?r)"
        using left leD [OF left(1)] by (auto simp: eq not_le)
      moreover have s: "side_ok elem True (rv_upper b) (\<not> rv_upper_inc b)"
        using side_ok_flip(1) [OF o(7) f] by simp
      moreover have "range_points ?r = points (ucut b) (ucut a)"
        using make_range_points [OF o(9,4)] side_ok_flip(2) [OF f, of False "rv_upper_inc b"] by simp
      ultimately show ?thesis using make_range_ok [OF s o(2)] m(4) left by auto
    qed
    with inside show ?thesis by (simp only: if_False)
  qed
qed

lemma minus_points:
  assumes ok: "range_ok elem a" "range_ok elem b"
  shows "if convex (range_points a - range_points b)
    then \<exists>r. range_minus a b = Some (Inr r) \<and> range_ok elem r \<and> range_points r = range_points a - range_points b
    else range_minus a b = Some (Inl (not_contiguous ''difference''))"
  using ok
proof (cases rule: two_cases)
  case 1
  then show ?thesis using minus_empty [OF ok 1(1)] ok by (auto simp: range_minus_def)
next
  case 2
  then show ?thesis using minus_cases [OF ok 2(1,2)] convex_diff_points [OF 2(3,4)] by (auto split: if_splits)
qed

section \<open>The total order\<close>

text \<open>The place of a range in the order: no points first, then the lower cut, then the upper.\<close>

datatype extent = Void | Extent cut cut

fun extent_le :: "extent \<Rightarrow> extent \<Rightarrow> bool" where
  "extent_le Void e = True"
| "extent_le (Extent l u) Void = False"
| "extent_le (Extent l u) (Extent l' u') = (l < l' \<or> l = l' \<and> u \<le> u')"

instantiation extent :: linorder
begin

definition less_eq_extent :: "extent \<Rightarrow> extent \<Rightarrow> bool" where "less_eq_extent = extent_le"
definition less_extent :: "extent \<Rightarrow> extent \<Rightarrow> bool" where "less_extent a b \<longleftrightarrow> \<not> extent_le b a"

instance
proof
  fix x y z :: extent
  have total: "extent_le x y \<or> extent_le y x" for x y by (cases x; cases y) auto
  show "(x < y) = (x \<le> y \<and> \<not> y \<le> x)" using total by (auto simp: less_eq_extent_def less_extent_def)
  show "x \<le> x" using total [of x x] by (simp add: less_eq_extent_def)
  show "x \<le> y \<Longrightarrow> y \<le> z \<Longrightarrow> x \<le> z" by (cases x; cases y; cases z) (auto simp: less_eq_extent_def)
  show "x \<le> y \<Longrightarrow> y \<le> x \<Longrightarrow> x = y" by (cases x; cases y) (auto simp: less_eq_extent_def)
  show "x \<le> y \<or> y \<le> x" using total by (simp add: less_eq_extent_def)
qed

end

lemma extent_order [simp]:
  "Void < Extent l u" "\<not> e < Void" "Extent l u < Extent l' u' \<longleftrightarrow> l < l' \<or> l = l' \<and> u < u'"
  by (cases e; auto simp: less_extent_def)+

definition extent :: "range_val \<Rightarrow> extent" where
  "extent r = (if rv_empty r then Void else Extent (lcut r) (ucut r))"

lemma range_total_cmp_eq:
  assumes ok: "range_ok elem a" "range_ok elem b"
  shows "range_total_cmp a b = cmp (extent a) (extent b)"
proof (cases "rv_empty a \<or> rv_empty b")
  case True
  then show ?thesis by (auto simp: range_total_cmp_def extent_def cmp_def)
next
  case False
  then have ne: "\<not> rv_empty a" "\<not> rv_empty b" by simp_all
  note o = range_okD [OF ok(1) ne(1)] range_okD [OF ok(2) ne(2)]
  show ?thesis using ne cmp_bounds_iff(1) [OF o(3,8)] cmp_bounds_iff(1) [OF o(4,9)]
    by (cases "lcut a" "lcut b" rule: linorder_cases)
      (auto simp: range_total_cmp_def cmp_bound_def extent_def Let_def cmp_def)
qed

lemma extent_eq_iff:
  assumes ok: "range_ok elem a" "range_ok elem b"
  shows "extent a = extent b \<longleftrightarrow> range_points a = range_points b"
  using ok
proof (cases rule: two_cases)
  case 1
  then show ?thesis using range_points_empty_iff [OF ok(1)] range_points_empty_iff [OF ok(2)]
    by (auto simp: extent_def)
next
  case 2
  then show ?thesis using points_eq_iff [OF 2(3,4)] by (simp add: extent_def)
qed

end
