(* ===== verification/Range_Canon.thy ===== *)
theory Range_Canon
  imports Range_Ops
begin

text \<open>
  Canonicalization of a range: what \<open>finalize\<close> returns for given bounds, the one input it leaves
  uncanonical, and that equal sets of integers have one canonical form.
\<close>

section \<open>Descriptors\<close>

lemma descriptors:
  assumes "rd \<in> set RANGES"
  obtains elem where "element_scalar rd = Some elem" "range_for_element elem = Some rd"
    "rd_discrete rd = discrete elem" "range_by_name (rd_id rd) = Some rd"
    "range_name_for_element elem = Some (rd_id rd)" "elem \<in> {Int32, Int64, Decimal, Timestamp, Timestamptz, Date}"
proof -
  have "list_all (\<lambda>rd. case element_scalar rd of None \<Rightarrow> False | Some elem \<Rightarrow>
      range_for_element elem = Some rd \<and> rd_discrete rd = discrete elem \<and> range_by_name (rd_id rd) = Some rd \<and>
      range_name_for_element elem = Some (rd_id rd) \<and> elem \<in> {Int32, Int64, Decimal, Timestamp, Timestamptz, Date}) RANGES"
    unfolding discrete_def by code_simp
  with assms that show ?thesis by (auto simp: list_all_iff split: option.splits)
qed

section \<open>Stepping a bound\<close>

fun succ_bound :: "bound_value \<Rightarrow> bound_value" where
  "succ_bound (VInt n) = VInt (n + 1)"
| "succ_bound (VDate d) = VDate (d + 1)"
| "succ_bound v = v"

text \<open>The last value of a discrete element type.\<close>

definition top_bound :: "scalar_type \<Rightarrow> bound_value \<Rightarrow> bool" where
  "top_bound elem v =
     (case v of VInt n \<Rightarrow> type_max elem = Some n | VDate d \<Rightarrow> d = MAX_FINITE | _ \<Rightarrow> False)"

lemma increment_eq:
  assumes "discrete elem" "bound_ok elem v" "\<not> is_infinite_date_bound v elem"
  shows "increment v elem = Some (if top_bound elem v then Inl (type_overflow elem) else Inr (succ_bound v))"
    and "\<not> top_bound elem v \<Longrightarrow> bound_ok elem (succ_bound v) \<and> bkey (succ_bound v) = bkey v + 1"
  using assms
  by (cases v; auto simp: discrete_def top_bound_def is_infinite_date_bound_def int_ok_def in_width_def
      I64_TOP_def DATE_NEG_INFINITY_def DATE_POS_INFINITY_def MAX_FINITE_def int_limits)+


section \<open>What \<open>finalize\<close> returns\<close>

definition reversed :: "bound_value option \<Rightarrow> bound_value option \<Rightarrow> bool" where
  "reversed lower upper \<longleftrightarrow>
     (case (lower, upper) of (Some lo, Some hi) \<Rightarrow> bkey hi < bkey lo | _ \<Rightarrow> False)"

text \<open>A bound that has to be stepped, and is the last value of its type.\<close>

definition stepped :: "scalar_type \<Rightarrow> bool \<Rightarrow> bound_value option \<Rightarrow> bool \<Rightarrow> bool" where
  "stepped elem is_lower v inc \<longleftrightarrow>
     (case v of None \<Rightarrow> False
      | Some x \<Rightarrow> discrete elem \<and> inc \<noteq> is_lower \<and> \<not> is_infinite_date_bound x elem)"

definition stuck :: "scalar_type \<Rightarrow> bool \<Rightarrow> bound_value option \<Rightarrow> bool \<Rightarrow> bool" where
  "stuck elem is_lower v inc \<longleftrightarrow>
     stepped elem is_lower v inc \<and> (case v of None \<Rightarrow> False | Some x \<Rightarrow> top_bound elem x)"

definition canon_value :: "scalar_type \<Rightarrow> bool \<Rightarrow> bound_value option \<Rightarrow> bool \<Rightarrow> bound_value option" where
  "canon_value elem is_lower v inc = (if stepped elem is_lower v inc then map_option succ_bound v else v)"

definition canon_inc :: "scalar_type \<Rightarrow> bool \<Rightarrow> bound_value option \<Rightarrow> bool \<Rightarrow> bool" where
  "canon_inc elem is_lower v inc \<longleftrightarrow>
     (if v = None then False else if stepped elem is_lower v inc then is_lower else inc)"

lemma canon_sides:
  assumes "opt_ok elem v" "discrete elem"
  shows "canon_lower v inc elem =
      Some (if stuck elem True v inc then Inl (type_overflow elem)
            else Inr (canon_value elem True v inc, canon_inc elem True v inc))"
    and "canon_upper v inc elem =
      Some (if stuck elem False v inc then Inl (type_overflow elem)
            else Inr (canon_value elem False v inc, canon_inc elem False v inc))"
  using assms increment_eq(1)
  by (auto simp: canon_lower_def canon_upper_def stuck_def stepped_def canon_value_def canon_inc_def
      io_bind_def opt_ok_def split: option.splits)

lemma canon_side_ok:
  assumes "opt_ok elem v" "\<not> stuck elem s v inc"
  shows "side_ok elem s (canon_value elem s v inc) (canon_inc elem s v inc)"
proof (cases "stepped elem s v inc")
  case True
  then obtain x where "v = Some x" "discrete elem" "\<not> is_infinite_date_bound x elem" "\<not> top_bound elem x" "bound_ok elem x"
    using assms by (auto simp: stepped_def stuck_def opt_ok_def split: option.splits)
  then show ?thesis using increment_eq(2) [of elem x] True by (simp add: side_ok_def canon_value_def canon_inc_def)
next
  case False
  then show ?thesis using assms
    by (auto simp: side_ok_def canon_value_def canon_inc_def opt_ok_def stepped_def split: option.splits)
qed

text \<open>The points a canonical bound admits: stepping keeps the integers.\<close>

definition agree :: "scalar_type \<Rightarrow> rat set \<Rightarrow> rat set \<Rightarrow> bool" where
  "agree elem s t \<longleftrightarrow> (if discrete elem then s \<inter> \<int> = t \<inter> \<int> else s = t)"

lemma discrete_int: "discrete elem \<Longrightarrow> bound_ok elem x \<Longrightarrow> bkey x \<in> \<int>"
  by (cases x) (auto simp: discrete_def)

lemma Ints_less_iff_succ_le: "x \<in> \<int> \<Longrightarrow> y \<in> \<int> \<Longrightarrow> x < y \<longleftrightarrow> x + 1 \<le> (y :: rat)"
  by (auto elim!: Ints_cases)

lemma canon_cut:
  assumes "opt_ok elem v" "\<not> stuck elem s v inc"
  shows "stepped elem s v inc \<Longrightarrow> p \<in> \<int> \<Longrightarrow>
      Cut p False < bound_cut s (canon_value elem s v inc) (canon_inc elem s v inc) \<longleftrightarrow> Cut p False < bound_cut s v inc"
    and "\<not> stepped elem s v inc \<Longrightarrow> bound_cut s (canon_value elem s v inc) (canon_inc elem s v inc) = bound_cut s v inc"
proof -
  assume st: "stepped elem s v inc" and p: "p \<in> \<int>"
  then obtain x where "v = Some x" "discrete elem" "\<not> is_infinite_date_bound x elem" "\<not> top_bound elem x" "bound_ok elem x" "inc \<noteq> s"
    using assms by (auto simp: stepped_def stuck_def opt_ok_def split: option.splits)
  then show "Cut p False < bound_cut s (canon_value elem s v inc) (canon_inc elem s v inc) \<longleftrightarrow> Cut p False < bound_cut s v inc"
    using increment_eq(2) [of elem x] discrete_int [of elem x] st p Ints_less_iff_succ_le [of "bkey x" p]
      Ints_less_iff_succ_le [of p "bkey x + 1"]
    by (auto simp: canon_value_def canon_inc_def bound_cut_def)
next
  assume "\<not> stepped elem s v inc"
  then show "bound_cut s (canon_value elem s v inc) (canon_inc elem s v inc) = bound_cut s v inc"
    by (auto simp: canon_value_def canon_inc_def bound_cut_def split: option.splits)
qed

lemma canon_agree:
  assumes "opt_ok elem v" "opt_ok elem w" "\<not> stuck elem True v i" "\<not> stuck elem False w j"
  shows "agree elem (points (bound_cut True (canon_value elem True v i) (canon_inc elem True v i))
      (bound_cut False (canon_value elem False w j) (canon_inc elem False w j)))
    (points (bound_cut True v i) (bound_cut False w j))"
proof (cases "discrete elem")
  case True
  have "Cut p False < bound_cut s (canon_value elem s v inc) (canon_inc elem s v inc) \<longleftrightarrow> Cut p False < bound_cut s v inc"
    if "p \<in> \<int>" "opt_ok elem v" "\<not> stuck elem s v inc" for p s v inc
    using canon_cut [OF that(2,3)] that(1) by metis
  then show ?thesis using assms True by (auto simp: agree_def points_def not_less [symmetric])
next
  case False
  then have "\<not> stepped elem s v inc" for s v inc by (auto simp: stepped_def split: option.splits)
  then show ?thesis using canon_cut(2) assms False by (simp add: agree_def)
qed

lemma elem_cmp_opt: "opt_ok elem v \<Longrightarrow> opt_ok elem w \<Longrightarrow> v = Some x \<Longrightarrow> w = Some y \<Longrightarrow> elem_cmp x y = cmp (bkey x) (bkey y)"
  using elem_cmp_eq by (simp add: opt_ok_def)

lemma reversed_eq:
  assumes "opt_ok elem v" "opt_ok elem w"
  shows "(case (v, w) of (Some lo, Some hi) \<Rightarrow> elem_cmp lo hi = Greater | _ \<Rightarrow> False) \<longleftrightarrow> reversed v w"
  using elem_cmp_opt [OF assms] by (cases v; cases w) (auto simp: reversed_def)

lemma finish_range_points:
  assumes "side_ok elem True v i" "side_ok elem False w j"
  shows "range_points (finish_range v w i j) = points (bound_cut True v i) (bound_cut False w j)"
    and "range_ok elem (finish_range v w i j) \<longleftrightarrow> \<not> reversed v w"
proof -
  have "range_points (finish_range v w i j) = points (bound_cut True v i) (bound_cut False w j) \<and>
    (range_ok elem (finish_range v w i j) \<longleftrightarrow> \<not> reversed v w)"
  proof (cases "v = None \<or> w = None")
    case True
    then show ?thesis using assms
      by (auto simp: finish_range_def range_points_def range_ok_def reversed_def bound_cut_def split: option.splits)
  next
    case False
    then obtain x y where xy: "v = Some x" "w = Some y" by auto
    note c = elem_cmp_opt [OF assms [THEN side_ok_opt] xy]
    have "points (Cut u a) (Cut u b) = {}" if "\<not> (\<not> a \<and> b)" for u a b
      using that by (auto simp: points_empty_iff)
    then show ?thesis using assms c xy
      by (cases "bkey x" "bkey y" rule: linorder_cases)
        (auto simp: finish_range_def range_points_def range_ok_def reversed_def bound_cut_def empty_range_def cmp_def)
  qed
  then show "range_points (finish_range v w i j) = points (bound_cut True v i) (bound_cut False w j)"
    and "range_ok elem (finish_range v w i j) \<longleftrightarrow> \<not> reversed v w" by simp_all
qed

text \<open>Equal bounds, both exclusive, of a discrete type: the one input that is not canonicalized.\<close>

definition exclusive_point :: "scalar_type \<Rightarrow> bound_value option \<Rightarrow> bound_value option \<Rightarrow> bool \<Rightarrow> bool \<Rightarrow> bool" where
  "exclusive_point elem v w i j \<longleftrightarrow>
     (case (v, w) of
        (Some x, Some y) \<Rightarrow> discrete elem \<and> bkey x = bkey y \<and> \<not> i \<and> \<not> j \<and> \<not> is_infinite_date_bound x elem
      | _ \<Rightarrow> False)"

lemma same_infinite:
  "discrete elem \<Longrightarrow> bound_ok elem x \<Longrightarrow> bound_ok elem y \<Longrightarrow> bkey x = bkey y \<Longrightarrow>
   is_infinite_date_bound x elem = is_infinite_date_bound y elem"
  by (cases x; cases y) (auto simp: is_infinite_date_bound_def discrete_def)

lemma canon_reversed:
  assumes "opt_ok elem v" "opt_ok elem w" "\<not> stuck elem True v i" "\<not> stuck elem False w j" "\<not> reversed v w"
  shows "reversed (canon_value elem True v i) (canon_value elem False w j) \<longleftrightarrow> exclusive_point elem v w i j"
proof (cases "v = None \<or> w = None")
  case True
  then show ?thesis
    by (auto simp: reversed_def exclusive_point_def canon_value_def stepped_def split: option.splits)
next
  case False
  then obtain x y where xy: "v = Some x" "w = Some y" by auto
  have ok: "bound_ok elem x" "bound_ok elem y" "bkey x \<le> bkey y" using assms xy by (auto simp: opt_ok_def reversed_def)
  have up: "bkey (succ_bound z) = bkey z + 1" if "stepped elem s (Some z) k" "\<not> stuck elem s (Some z) k" "bound_ok elem z" for s z k
    using that increment_eq(2) [of elem z] by (simp add: stepped_def stuck_def)
  show ?thesis
  proof (cases "discrete elem")
    case True
    have "bkey x < bkey y \<longleftrightarrow> bkey x + 1 \<le> bkey y"
      using Ints_less_iff_succ_le discrete_int True ok by simp
    moreover have "bkey x = bkey y \<Longrightarrow> is_infinite_date_bound x elem = is_infinite_date_bound y elem"
      using same_infinite [OF True ok(1,2)] .
    moreover have st: "stepped elem True v i \<longleftrightarrow> \<not> i \<and> \<not> is_infinite_date_bound x elem"
      "stepped elem False w j \<longleftrightarrow> j \<and> \<not> is_infinite_date_bound y elem"
      using True xy by (simp_all add: stepped_def)
    moreover have "reversed (canon_value elem True v i) (canon_value elem False w j) \<longleftrightarrow>
      (if stepped elem False w j then bkey y + 1 else bkey y) < (if stepped elem True v i then bkey x + 1 else bkey x)"
      using up [of True x i] up [of False y j] assms(3,4) xy ok by (simp add: reversed_def canon_value_def)
    moreover have "exclusive_point elem v w i j \<longleftrightarrow>
      bkey x = bkey y \<and> \<not> i \<and> \<not> j \<and> \<not> is_infinite_date_bound x elem"
      using True xy by (simp add: exclusive_point_def)
    ultimately show ?thesis using ok(3) by (auto split: if_splits)
  next
    case False
    then show ?thesis using xy ok
      by (auto simp: reversed_def exclusive_point_def canon_value_def stepped_def)
  qed
qed

lemma finalize_eq:
  assumes "rd \<in> set RANGES" "element_scalar rd = Some elem" "opt_ok elem v" "opt_ok elem w"
  shows "finalize rd v w i j =
    (if reversed v w then Some (Inl bounds_reversed)
     else if stuck elem True v i \<or> stuck elem False w j then Some (Inl (type_overflow elem))
     else Some (Inr (finish_range (canon_value elem True v i) (canon_value elem False w j)
       (canon_inc elem True v i) (canon_inc elem False w j))))"
proof -
  have d: "rd_discrete rd = discrete elem" using assms by (auto elim: descriptors)
  show ?thesis
  proof (cases "discrete elem")
    case True
    then show ?thesis
      unfolding finalize_def assms(2) option.case reversed_eq [OF assms(3,4)] d
      by (simp add: canon_sides assms io_bind_def)
  next
    case False
    then have "\<not> stepped elem s v inc" for s v inc by (auto simp: stepped_def split: option.splits)
    then show ?thesis using False
      unfolding finalize_def assms(2) option.case reversed_eq [OF assms(3,4)] d
      by (simp add: stuck_def canon_value_def canon_inc_def Let_def)
  qed
qed

lemma finalize_meaning:
  assumes "rd \<in> set RANGES" "element_scalar rd = Some elem" "opt_ok elem v" "opt_ok elem w"
    "finalize rd v w i j = Some (Inr r)"
  shows "\<not> reversed v w" and "agree elem (range_points r) (points (bound_cut True v i) (bound_cut False w j))"
    and "range_ok elem r \<longleftrightarrow> \<not> exclusive_point elem v w i j"
proof -
  have n: "\<not> reversed v w" "\<not> stuck elem True v i" "\<not> stuck elem False w j"
    and r: "r = finish_range (canon_value elem True v i) (canon_value elem False w j)
       (canon_inc elem True v i) (canon_inc elem False w j)"
    using assms(5) unfolding finalize_eq [OF assms(1-4)] by (auto split: if_splits)
  note s = canon_side_ok [OF assms(3) n(2)] canon_side_ok [OF assms(4) n(3)]
  show "\<not> reversed v w" by (fact n)
  show "agree elem (range_points r) (points (bound_cut True v i) (bound_cut False w j))"
    unfolding r finish_range_points(1) [OF s] by (rule canon_agree [OF assms(3,4) n(2,3)])
  show "range_ok elem r \<longleftrightarrow> \<not> exclusive_point elem v w i j"
    unfolding r finish_range_points(2) [OF s] canon_reversed [OF assms(3,4) n(2,3,1)] ..
qed


section \<open>One canonical form\<close>

text \<open>The cuts of a canonical discrete range lie just below integers, or at infinity.\<close>

definition int_cut :: "cut \<Rightarrow> bool" where
  "int_cut c \<longleftrightarrow> (case c of Cut x s \<Rightarrow> x \<in> \<int> \<and> \<not> s | _ \<Rightarrow> True)"

definition finite_bounds :: "scalar_type \<Rightarrow> range_val \<Rightarrow> bool" where
  "finite_bounds elem r \<longleftrightarrow>
     (\<forall>x. rv_lower r = Some x \<or> rv_upper r = Some x \<longrightarrow> \<not> is_infinite_date_bound x elem)"

lemma int_cut_bound:
  "side_ok elem s v inc \<Longrightarrow> discrete elem \<Longrightarrow> (\<forall>x. v = Some x \<longrightarrow> \<not> is_infinite_date_bound x elem) \<Longrightarrow>
   int_cut (bound_cut s v inc)"
  by (auto simp: side_ok_def int_cut_def bound_cut_def discrete_int split: option.splits)

lemma int_cut_dense:
  assumes "l < u" "int_cut l" "int_cut u"
  obtains p where "p \<in> \<int>" "l \<le> Cut p False" "Cut p False < u"
proof (cases l)
  case Bottom
  show ?thesis
  proof (cases u)
    case (Cut y t)
    then show ?thesis using that [of "y - 1"] Bottom assms by (simp add: int_cut_def)
  qed (use Bottom assms that [of 0] in auto)
next
  case (Cut x s)
  then show ?thesis using that [of x] assms by (simp add: int_cut_def)
qed (use assms in auto)

lemma int_cut_min_max: "int_cut a \<Longrightarrow> int_cut b \<Longrightarrow> int_cut (min a b) \<and> int_cut (max a b)"
  by (simp add: min_def max_def)

lemma int_points_subset:
  assumes "l < u" "int_cut l" "int_cut u" "int_cut l'" "int_cut u'" "points l u \<inter> \<int> \<subseteq> points l' u'"
  shows "l' \<le> l \<and> u \<le> u'"
proof (rule conjI; rule ccontr)
  assume "\<not> l' \<le> l"
  then have "l < min l' u" using assms(1) by auto
  then obtain p where p: "p \<in> \<int>" "l \<le> Cut p False" "Cut p False < min l' u"
    using int_cut_dense int_cut_min_max assms by metis
  then have "p \<in> points l u \<inter> \<int>" by (simp add: points_def)
  with assms(6) have "l' \<le> Cut p False" by (auto simp: points_def)
  with p show False by (metis leD min_less_iff_conj)
next
  assume "\<not> u \<le> u'"
  then have "max l u' < u" using assms(1) by auto
  then obtain p where p: "p \<in> \<int>" "max l u' \<le> Cut p False" "Cut p False < u"
    using int_cut_dense int_cut_min_max assms by metis
  then have "p \<in> points l u \<inter> \<int>" by (simp add: points_def)
  with assms(6) have "Cut p False < u'" by (auto simp: points_def)
  with p show False by (metis leD max.bounded_iff)
qed

lemma finite_bounds_cuts:
  assumes "range_ok elem r" "discrete elem" "finite_bounds elem r" "\<not> rv_empty r"
  shows "int_cut (lcut r)" "int_cut (ucut r)"
  using int_cut_bound [OF range_okD(1) [OF assms(1,4)] assms(2)] int_cut_bound [OF range_okD(2) [OF assms(1,4)] assms(2)]
    assms(3) by (simp_all add: finite_bounds_def)

lemma canonical_unique:
  assumes ok: "range_ok elem a" "range_ok elem b" and d: "discrete elem"
    and fin: "finite_bounds elem a" "finite_bounds elem b"
  shows "range_points a \<inter> \<int> = range_points b \<inter> \<int> \<longleftrightarrow> extent a = extent b"
proof
  assume eq: "range_points a \<inter> \<int> = range_points b \<inter> \<int>"
  have some: "range_points r \<inter> \<int> \<noteq> {}" if r: "range_ok elem r" "finite_bounds elem r" "\<not> rv_empty r" for r
  proof -
    obtain p where "p \<in> \<int>" "lcut r \<le> Cut p False" "Cut p False < ucut r"
      using int_cut_dense [OF range_okD(5) [OF r(1,3)] finite_bounds_cuts [OF r(1) d r(2,3)]] by blast
    then show ?thesis using r(3) by (auto simp: range_points_def points_def)
  qed
  show "extent a = extent b"
  proof (cases "rv_empty a \<or> rv_empty b")
    case True
    moreover have "range_points a \<inter> \<int> = {} \<longleftrightarrow> rv_empty a" "range_points b \<inter> \<int> = {} \<longleftrightarrow> rv_empty b"
      using some [OF ok(1) fin(1)] some [OF ok(2) fin(2)] by (auto simp: range_points_def)
    ultimately have "rv_empty a \<and> rv_empty b" using eq by auto
    then show ?thesis by (simp add: extent_def)
  next
    case False
    then have ne: "\<not> rv_empty a" "\<not> rv_empty b" by simp_all
    note ca = finite_bounds_cuts [OF ok(1) d fin(1) ne(1)] and cb = finite_bounds_cuts [OF ok(2) d fin(2) ne(2)]
    from eq have sub: "points (lcut a) (ucut a) \<inter> \<int> \<subseteq> points (lcut b) (ucut b)"
      "points (lcut b) (ucut b) \<inter> \<int> \<subseteq> points (lcut a) (ucut a)"
      using ne by (auto simp: range_points_def)
    from int_points_subset [OF range_okD(5) [OF ok(1) ne(1)] ca cb sub(1)]
      int_points_subset [OF range_okD(5) [OF ok(2) ne(2)] cb ca sub(2)]
    show ?thesis using ne by (auto simp: extent_def)
  qed
next
  assume "extent a = extent b"
  then show "range_points a \<inter> \<int> = range_points b \<inter> \<int>" using extent_eq_iff [OF ok] by simp
qed

end
