(* ===== verification/Range_Key.thy ===== *)
theory Range_Key
  imports Range_Canon
begin

text \<open>
  The storage key of a range sorts as the total order: the element keys, the keys of one bound and
  the keys of whole ranges are interpretations of the contract \<open>value_codec\<close>, each resting on the
  one before.
\<close>

section \<open>Storage key\<close>

definition elem_key :: "scalar_type \<Rightarrow> bound_value \<Rightarrow> bytes" where
  "elem_key elem v = (case encode_range_elem elem v of Some (Inr b) \<Rightarrow> b | _ \<Rightarrow> [])"

lemma elem_key_eq:
  "bound_ok elem (VInt n) \<Longrightarrow> elem_key elem (VInt n) = int_body elem n"
  "bound_ok elem (VDecimal d) \<Longrightarrow> elem_key elem (VDecimal d) = dec_key d"
  "bound_ok elem (VDate n) \<Longrightarrow> elem_key elem (VDate n) = int_body elem n"
  "bound_ok elem (VTimestamp n) \<Longrightarrow> elem_key elem (VTimestamp n) = int_body elem n"
  "bound_ok elem (VTimestamptz n) \<Longrightarrow> elem_key elem (VTimestamptz n) = int_body elem n"
  by (auto elim!: int_okE simp: elem_key_def int_coded_def int_body_def encode_key_total)

lemma encode_range_elem_total: "bound_ok elem v \<Longrightarrow> encode_range_elem elem v = Some (Inr (elem_key elem v))"
  by (cases v) (auto elim!: int_okE simp: elem_key_def int_coded_def encode_key_total)

interpretation elem_codec: value_codec "elem_key elem" "bound_ok elem" bkey for elem
proof
  fix x y
  assume ok: "bound_ok elem x" "bound_ok elem y"
  then show "bkey x < bkey y \<Longrightarrow> dless (elem_key elem x) (elem_key elem y)"
    by (cases x; cases y) (auto simp: elem_key_eq intro!: int_codec.enc_dless dec_codec.enc_dless)
  from ok show "bkey x = bkey y \<Longrightarrow> elem_key elem x = elem_key elem y"
    by (cases x; cases y) (auto simp: elem_key_eq intro: dec_codec.enc_eq)
qed

text \<open>One bound on one side, then the whole range.\<close>

definition bound_key :: "scalar_type \<Rightarrow> bool \<Rightarrow> bound_value option \<times> bool \<Rightarrow> bytes" where
  "bound_key elem is_lower b =
     (case fst b of
        None \<Rightarrow> [if is_lower then 0x00 else 0x02]
      | Some v \<Rightarrow> 0x01 # elem_key elem v @ [if snd b = is_lower then 0x00 else 0x01])"

lemma push_bound_total:
  "opt_ok elem v \<Longrightarrow> push_bound out elem v inc s = Some (Inr (out @ bound_key elem s (v, inc)))"
  by (auto simp: push_bound_def bound_key_def opt_ok_def encode_range_elem_total io_bind_def split: option.splits)

interpretation bound_codec: value_codec "bound_key elem s" "\<lambda>b. opt_ok elem (fst b)" "\<lambda>b. bound_cut s (fst b) (snd b)" for elem s
proof
  fix a b :: "bound_value option \<times> bool"
  assume ok: "opt_ok elem (fst a)" "opt_ok elem (fst b)"
  have one: "dless (elem_key elem x) (elem_key elem y)" if "fst a = Some x" "fst b = Some y" "bkey x < bkey y" for x y
    using ok that by (intro elem_codec.enc_dless) (simp_all add: opt_ok_def)
  have same: "elem_key elem x = elem_key elem y" if "fst a = Some x" "fst b = Some y" "bkey x = bkey y" for x y
    using ok that by (intro elem_codec.enc_eq) (simp_all add: opt_ok_def)
  show "bound_cut s (fst a) (snd a) < bound_cut s (fst b) (snd b) \<Longrightarrow> dless (bound_key elem s a) (bound_key elem s b)"
    by (cases "fst a"; cases "fst b")
      (auto simp: bound_key_def bound_cut_def dest: one same intro: dless_append split: if_splits)
  show "bound_cut s (fst a) (snd a) = bound_cut s (fst b) (snd b) \<Longrightarrow> bound_key elem s a = bound_key elem s b"
    by (cases "fst a"; cases "fst b") (auto simp: bound_key_def bound_cut_def dest: same split: if_splits)
qed

definition range_key :: "scalar_type \<Rightarrow> range_val \<Rightarrow> bytes" where
  "range_key elem r =
     (if rv_empty r then [0x00]
      else 0x01 # bound_key elem True (rv_lower r, rv_lower_inc r) @ bound_key elem False (rv_upper r, rv_upper_inc r))"

lemma encode_range_key_total: "range_ok elem r \<Longrightarrow> encode_range_key elem r = Some (Inr (range_key elem r))"
  using range_okD(3,4) [of elem r]
  by (simp add: encode_range_key_def range_key_def push_bound_total io_bind_def)

interpretation range_codec: value_codec "range_key elem" "range_ok elem" extent for elem
proof
  fix a b
  assume ok: "range_ok elem a" "range_ok elem b"
  note o = range_okD(3,4) [OF ok(1)] range_okD(3,4) [OF ok(2)]
  show "extent a < extent b \<Longrightarrow> dless (range_key elem a) (range_key elem b)"
    using o bound_codec.enc_dless [of elem "(rv_lower a, rv_lower_inc a)" "(rv_lower b, rv_lower_inc b)" True]
      bound_codec.enc_eq [of elem "(rv_lower a, rv_lower_inc a)" "(rv_lower b, rv_lower_inc b)" True]
      bound_codec.enc_dless [of elem "(rv_upper a, rv_upper_inc a)" "(rv_upper b, rv_upper_inc b)" False]
    by (auto simp: extent_def range_key_def dless_append split: if_splits)
  show "extent a = extent b \<Longrightarrow> range_key elem a = range_key elem b"
    using o bound_codec.enc_eq [of elem "(rv_lower a, rv_lower_inc a)" "(rv_lower b, rv_lower_inc b)" True]
      bound_codec.enc_eq [of elem "(rv_upper a, rv_upper_inc a)" "(rv_upper b, rv_upper_inc b)" False]
    by (auto simp: extent_def range_key_def split: if_splits)
qed

end
