(* ===== verification/Range_Text.thy ===== *)
theory Range_Text
  imports Range_Canon
begin

text \<open>
  The text form of a range: whatever text the bounds render to, \<open>parse_range_text\<close> reads the bounds
  and the inclusivities back from \<open>range_out\<close>.
\<close>

section \<open>Trimming\<close>

lemma trim_ends:
  assumes "s \<noteq> []" "\<not> is_pg_space (hd s)" "\<not> is_pg_space (last s)"
  shows "trim s = s"
proof -
  have "dropWhile is_pg_space s = s" using assms by (cases s) auto
  moreover have "dropWhile is_pg_space (rev s) = rev s" using assms by (cases s rule: rev_cases) auto
  ultimately show ?thesis by (simp add: trim_def)
qed

lemma trim_no_space: "list_all (\<lambda>c. \<not> is_pg_space c) s \<Longrightarrow> trim s = s"
  by (cases "s = []") (simp add: trim_def, auto simp: list_all_iff intro: trim_ends)

section \<open>Bounds\<close>

definition escaped :: "string \<Rightarrow> string" where
  "escaped s = concat (map (\<lambda>c. if c = CHR 0x22 \<or> c = CHR 0x5C then [CHR 0x5C, c] else [c]) s)"

lemma scan_quoted_escaped:
  "d \<noteq> CHR 0x22 \<Longrightarrow> scan_quoted out (escaped s @ CHR 0x22 # d # rest) = Some (out @ s, d # rest)"
  by (induction s arbitrary: out) (simp_all add: escaped_def)

definition special :: "char \<Rightarrow> bool" where
  "special c \<longleftrightarrow> is_pg_space c \<or>
     c \<in> {CHR '','', CHR ''['', CHR '']'', CHR ''('', CHR '')'', CHR 0x22, CHR 0x5C}"

lemma quote_bound_eq:
  "quote_bound s = (if s = [] \<or> list_ex special s then CHR 0x22 # escaped s @ [CHR 0x22] else s)"
  unfolding quote_bound_def Let_def escaped_def special_def by simp

lemma delimiter_special: "is_delimiter d \<Longrightarrow> special d \<and> d \<noteq> CHR 0x22"
  by (auto simp: is_delimiter_def special_def)

lemma scan_quote_bound:
  assumes "is_delimiter d"
  shows "scan_bound (quote_bound s @ d # rest) = Some (Some s, d # rest)"
proof (cases "s = [] \<or> list_ex special s")
  case True
  then show ?thesis using scan_quoted_escaped [of d "[]" s rest] delimiter_special [OF assms]
    by (simp add: quote_bound_eq scan_bound_def)
next
  case False
  then have plain: "\<not> special c" if "c \<in> set s" for c using that by (auto simp: list_ex_iff)
  then have "\<not> is_delimiter c" "\<not> is_pg_space c" "c \<noteq> CHR 0x22" if "c \<in> set s" for c
    using that delimiter_special by (auto simp: special_def)
  moreover from this have "trim s = s" by (intro trim_no_space) (auto simp: list_all_iff)
  ultimately show ?thesis using False assms
    by (cases s) (auto simp: quote_bound_eq scan_bound_def takeWhile_append dropWhile_append)
qed

lemma scan_no_bound: "is_delimiter d \<Longrightarrow> scan_bound (d # rest) = Some (None, d # rest)"
  using delimiter_special [of d] by (simp add: scan_bound_def trim_def)

definition bound_text :: "string option \<Rightarrow> string" where
  "bound_text v = (case v of None \<Rightarrow> [] | Some s \<Rightarrow> quote_bound s)"

lemma scan_bound_text: "is_delimiter d \<Longrightarrow> scan_bound (bound_text v @ d # rest) = Some (v, d # rest)"
  by (cases v) (simp_all add: bound_text_def scan_no_bound scan_quote_bound)

section \<open>Ranges\<close>

lemma parse_range_text_brackets:
  assumes "b \<in> {CHR ''['', CHR ''(''}" "e \<in> {CHR '']'', CHR '')''}"
  shows "parse_range_text (b # bound_text v @ CHR '','' # bound_text w @ [e]) =
    Inr \<lparr> pr_empty = False, pr_lower = v, pr_upper = w,
          pr_lower_inc = (b = CHR ''[''), pr_upper_inc = (e = CHR '']'') \<rparr>"
proof -
  let ?s = "b # bound_text v @ CHR '','' # bound_text w @ [e]"
  have "\<not> is_pg_space b" "\<not> is_pg_space e" using assms by (auto simp: is_pg_space_def)
  then have t: "trim ?s = ?s" by (intro trim_ends) simp_all
  have "hd (to_ascii_lowercase ?s) \<noteq> CHR ''e''"
    using assms(1) by (auto simp: to_ascii_lowercase_def)
  then have n: "to_ascii_lowercase ?s \<noteq> ''empty''" by auto
  have d: "is_delimiter (CHR '','')" "is_delimiter e" using assms(2) by (auto simp: is_delimiter_def)
  have ub: "scan_bound (bound_text w @ [e]) = Some (w, [e])" using scan_bound_text [OF d(2), of w "[]"] by simp
  show ?thesis unfolding parse_range_text_def Let_def t
    using n assms scan_bound_text [OF d(1), of v "bound_text w @ [e]"] ub by auto
qed

lemma parse_range_text_empty: "parse_range_text ''empty'' =
    Inr \<lparr> pr_empty = True, pr_lower = None, pr_upper = None, pr_lower_inc = False, pr_upper_inc = False \<rparr>"
  by code_simp

lemma parse_range_out:
  "parse_range_text (range_out r) = Inr
     (if rv_empty r then \<lparr> pr_empty = True, pr_lower = None, pr_upper = None, pr_lower_inc = False, pr_upper_inc = False \<rparr>
      else \<lparr> pr_empty = False, pr_lower = map_option render_value (rv_lower r),
             pr_upper = map_option render_value (rv_upper r),
             pr_lower_inc = rv_lower_inc r, pr_upper_inc = rv_upper_inc r \<rparr>)"
proof (cases "rv_empty r")
  case False
  have b: "(case v of None \<Rightarrow> [] | Some lo \<Rightarrow> quote_bound (render_value lo)) = bound_text (map_option render_value v)" for v
    by (cases v) (simp_all add: bound_text_def)
  show ?thesis using False
      parse_range_text_brackets [of "if rv_lower_inc r then CHR ''['' else CHR ''(''"
        "if rv_upper_inc r then CHR '']'' else CHR '')''" "map_option render_value (rv_lower r)" "map_option render_value (rv_upper r)"]
    by (simp add: range_out_def b)
qed (simp add: range_out_def parse_range_text_empty)

lemma parse_bound_flags_cases:
  "parse_bound_flags s = Inr (li, ui) \<longleftrightarrow>
     s = [if li then CHR ''['' else CHR ''('', if ui then CHR '']'' else CHR '')'']"
  by (auto simp: parse_bound_flags_def)

end
