(* ===== verification/Range_Laws.thy ===== *)
theory Range_Laws
  imports Range_Key Range_Text
begin

text \<open>
  The properties of range values, each a few steps over the lemmas of the theories below, with their
  instances at concrete ranges.
\<close>

section \<open>Sample ranges\<close>

text \<open>The canonical \<open>[1,4)\<close>, \<open>[3,8)\<close> and \<open>[6,7)\<close> over \<open>i32\<close>.\<close>

abbreviation ints :: "int \<Rightarrow> int \<Rightarrow> range_val" where
  "ints l u \<equiv> \<lparr> rv_empty = False, rv_lower = Some (VInt l), rv_upper = Some (VInt u),
     rv_lower_inc = True, rv_upper_inc = False \<rparr>"

lemma ints_ok: "- (2 ^ 31) \<le> l \<Longrightarrow> l < u \<Longrightarrow> u < 2 ^ 31 \<Longrightarrow> range_ok Int32 (ints l u)"
  by (simp add: range_ok_def side_ok_def bound_cut_def int_ok_def in_width_def)

lemma ints_points: "range_points (ints l u) = {x. of_int l \<le> x \<and> x < of_int u}"
  by (auto simp: range_points_def points_def bound_cut_def)

lemmas ints_sample = ints_ok [of 1 4, simplified] ints_ok [of 3 8, simplified] ints_ok [of 6 7, simplified]

section \<open>Operators\<close>

text \<open>
  C31. The boolean operators on canonical ranges say what they mean of the points of their operands:
  membership, inclusion, overlap, every point left of every point, no point right (left) of all the
  other's points, and disjoint without a gap between.
\<close>

theorem range_booleans:
  assumes "range_ok elem a" "range_ok elem b" "bound_ok elem e"
  shows "(range_contains_elem a e \<longleftrightarrow> bkey e \<in> range_points a)
    \<and> (range_contains a b \<longleftrightarrow> range_points b \<subseteq> range_points a)
    \<and> (range_overlaps a b \<longleftrightarrow> range_points a \<inter> range_points b \<noteq> {})
    \<and> (range_before a b \<longleftrightarrow> range_points a \<noteq> {} \<and> range_points b \<noteq> {} \<and> all_less (range_points a) (range_points b))
    \<and> (range_after a b \<longleftrightarrow> range_points a \<noteq> {} \<and> range_points b \<noteq> {} \<and> all_less (range_points b) (range_points a))
    \<and> (range_overleft a b \<longleftrightarrow> range_points a \<noteq> {} \<and> range_points b \<noteq> {}
        \<and> (\<forall>x\<in>range_points a. \<exists>y\<in>range_points b. x \<le> y))
    \<and> (range_overright a b \<longleftrightarrow> range_points a \<noteq> {} \<and> range_points b \<noteq> {}
        \<and> (\<forall>x\<in>range_points a. \<exists>y\<in>range_points b. y \<le> x))
    \<and> (range_adjacent a b \<longleftrightarrow> range_points a \<noteq> {} \<and> range_points b \<noteq> {}
        \<and> range_points a \<inter> range_points b = {} \<and> convex (range_points a \<union> range_points b))"
  by (simp only: range_after_def contains_elem_points [OF assms(1,3)] contains_points [OF assms(1,2)]
    overlaps_points [OF assms(1,2)] before_points [OF assms(1,2)] before_points [OF assms(2,1)]
    overleft_points [OF assms(1,2)] overright_points [OF assms(1,2)] adjacent_points [OF assms(1,2)] conj_ac simp_thms)

theorem range_booleans_witness:
  "range_contains_elem (ints 3 8) (VInt 5) \<and> \<not> range_contains (ints 3 8) (ints 1 4)"
proof -
  have e: "bound_ok Int32 (VInt 5)" by (simp add: int_ok_def in_width_def)
  have "\<not> range_points (ints 1 4) \<subseteq> range_points (ints 3 8)"
    unfolding ints_points by (auto intro: exI [of _ 1])
  with range_booleans [OF ints_sample(2,1) e] show ?thesis by (simp add: ints_points)
qed

text \<open>
  C12. The set operators are exact. Intersection is always the common points. The union is all points
  of both, and an error exactly when they leave a gap; merging instead fills the gap. The difference
  is the points of the first outside the second, and an error exactly when the second would split the
  first; it never reaches its unreachable arm. Every result is again canonical.
\<close>

theorem range_set_operators:
  assumes "range_ok elem a" "range_ok elem b"
  shows "range_points (range_intersect a b) = range_points a \<inter> range_points b
    \<and> range_ok elem (range_intersect a b)
    \<and> (\<exists>r. range_union a b False = Inr r \<and> range_ok elem r
        \<and> range_points r = filled (range_points a \<union> range_points b))
    \<and> (if convex (range_points a \<union> range_points b)
       then \<exists>r. range_union a b True = Inr r \<and> range_ok elem r
         \<and> range_points r = range_points a \<union> range_points b
       else range_union a b True = Inl (not_contiguous ''union''))
    \<and> (if convex (range_points a - range_points b)
       then \<exists>r. range_minus a b = Some (Inr r) \<and> range_ok elem r \<and> range_points r = range_points a - range_points b
       else range_minus a b = Some (Inl (not_contiguous ''difference'')))"
proof -
  have "filled (range_points a \<union> range_points b) = range_points a \<union> range_points b"
    if "convex (range_points a \<union> range_points b)" using that by (simp add: filled_eq_iff)
  then show ?thesis
    using intersect_points [OF assms] union_eq [OF assms] union_of_points [OF assms] minus_points [OF assms] by simp
qed

theorem range_set_operators_witness:
  "range_points (range_intersect (ints 1 4) (ints 3 8)) = {x. 3 \<le> x \<and> x < 4}
   \<and> range_minus (ints 3 8) (ints 6 7) = Some (Inl (not_contiguous ''difference''))"
proof -
  have i: "range_points (ints 1 4) \<inter> range_points (ints 3 8) = {x. 3 \<le> x \<and> x < 4}"
    unfolding ints_points by auto
  have "\<not> convex (range_points (ints 3 8) - range_points (ints 6 7))"
    unfolding ints_points convex_def by simp (rule bexI [of _ 3], rule bexI [of _ 7], rule exI [of _ 6], simp_all)
  with range_set_operators [OF ints_sample(1,2)] range_set_operators [OF ints_sample(2,3)] i show ?thesis by simp
qed


section \<open>Canonicalization\<close>

text \<open>
  C19. \<open>finalize\<close> on bounds of the element type never panics. It fails exactly when the lower bound is
  above the upper one, or when a bound that has to be stepped is the last value of its type; otherwise
  the range it returns holds the points of the given bounds (the integers among them for a discrete
  type), in canonical form unless the bounds are equal and both exclusive.
\<close>

theorem finalize_outcome:
  assumes "rd \<in> set RANGES" "element_scalar rd = Some elem" "opt_ok elem v" "opt_ok elem w"
  shows "case finalize rd v w i j of
      None \<Rightarrow> False
    | Some (Inl e) \<Rightarrow> reversed v w \<and> e = bounds_reversed
        \<or> \<not> reversed v w \<and> (stuck elem True v i \<or> stuck elem False w j) \<and> e = type_overflow elem
    | Some (Inr r) \<Rightarrow> \<not> reversed v w \<and> \<not> stuck elem True v i \<and> \<not> stuck elem False w j
        \<and> agree elem (range_points r) (points (bound_cut True v i) (bound_cut False w j))
        \<and> (range_ok elem r \<longleftrightarrow> \<not> exclusive_point elem v w i j)"
  using finalize_meaning [OF assms] finalize_eq [OF assms] by (auto split: option.splits sum.splits if_splits)

theorem finalize_outcome_witness:
  "case finalize (the (range_by_name ''i32range'')) (Some (VInt 1)) (Some (VInt 3)) True True of
     Some (Inr r) \<Rightarrow> range_points r \<inter> \<int> = {x. 1 \<le> x \<and> x \<le> 3} \<inter> \<int> \<and> range_ok Int32 r
   | _ \<Rightarrow> False"
proof -
  let ?rd = "the (range_by_name ''i32range'')"
  have d: "?rd \<in> set RANGES" "element_scalar ?rd = Some Int32" by code_simp+
  have o: "opt_ok Int32 (Some (VInt 1))" "opt_ok Int32 (Some (VInt 3))"
    by (simp_all add: opt_ok_def int_ok_def in_width_def)
  have n: "\<not> reversed (Some (VInt 1)) (Some (VInt 3))" "\<not> stuck Int32 True (Some (VInt 1)) True"
    "\<not> stuck Int32 False (Some (VInt 3)) True" "\<not> exclusive_point Int32 (Some (VInt 1)) (Some (VInt 3)) True True"
    by (simp_all add: reversed_def stuck_def stepped_def top_bound_def exclusive_point_def)
  have p: "points (bound_cut True (Some (VInt 1)) True) (bound_cut False (Some (VInt 3)) True) = {x. 1 \<le> x \<and> x \<le> 3}"
    by (auto simp: points_def bound_cut_def)
  from finalize_outcome [OF d o, of True True] n p show ?thesis
    by (auto simp: agree_def discrete_def split: option.splits sum.splits)
qed



section \<open>Order, key and text\<close>

text \<open>
  C21. On canonical ranges the total order is consistent with the points: equal in the order exactly
  when they hold the same points, and for a discrete type with finite bounds when they hold the same
  integers. The storage key exists and sorts byte-wise as the total order, ties decided by what
  follows the keys.
\<close>

theorem range_order_and_key:
  assumes "range_ok elem a" "range_ok elem b"
  shows "(range_total_cmp a b = Equal \<longleftrightarrow> range_points a = range_points b)
    \<and> (discrete elem \<and> finite_bounds elem a \<and> finite_bounds elem b \<longrightarrow>
        (range_total_cmp a b = Equal \<longleftrightarrow> range_points a \<inter> \<int> = range_points b \<inter> \<int>))
    \<and> (\<exists>ka kb. encode_range_key elem a = Some (Inr ka) \<and> encode_range_key elem b = Some (Inr kb)
        \<and> (ka @ u < kb @ v \<longleftrightarrow> range_total_cmp a b = Less \<or> range_total_cmp a b = Equal \<and> u < v))"
  using range_total_cmp_eq [OF assms] extent_eq_iff [OF assms] canonical_unique [OF assms]
    encode_range_key_total [OF assms(1)] encode_range_key_total [OF assms(2)]
    range_codec.enc_followed_less [OF assms, of u v]
  by auto

theorem range_order_and_key_witness:
  "\<exists>ka kb. encode_range_key Int32 (ints 1 4) = Some (Inr ka) \<and> encode_range_key Int32 (ints 3 8) = Some (Inr kb)
     \<and> ka < kb"
proof -
  have "range_total_cmp (ints 1 4) (ints 3 8) = Less" by code_simp
  with range_order_and_key [OF ints_sample(1,2), of "[]" "[]"] show ?thesis by auto
qed

text \<open>
  Whatever text the bounds render to, reading the text form of a range gives back which bounds it
  has, their texts and their inclusivities; quoting and escaping are undone, and the text of the empty
  range reads as the empty range.
\<close>

theorem range_text_roundtrip:
  "parse_range_text (range_out r) = Inr
     (if rv_empty r then \<lparr> pr_empty = True, pr_lower = None, pr_upper = None, pr_lower_inc = False, pr_upper_inc = False \<rparr>
      else \<lparr> pr_empty = False, pr_lower = map_option render_value (rv_lower r),
             pr_upper = map_option render_value (rv_upper r),
             pr_lower_inc = rv_lower_inc r, pr_upper_inc = rv_upper_inc r \<rparr>)"
  by (rule parse_range_out)

end
