(* ===== verification/Crc.thy ===== *)
theory Crc
  imports Prelude
begin

text \<open>
  The checksum of the file format (\<open>crc32_update\<close>, \<open>crc32_extend\<close> and the page and meta checksums of
  \<open>format.rs\<close>): the tables, the update by eight bytes at a time, and what it computes: the CRC of one bit
  at a time. From that, checksums compose, and a damaged run of up to four bytes never goes unnoticed.
\<close>

unbundle bit_operations_syntax


definition CRC32_IEEE_POLYNOMIAL :: u32 where "CRC32_IEEE_POLYNOMIAL = 0xEDB88320"

text \<open>One round of the inner loop of \<open>crc32_tables\<close>: a bit of the register.\<close>

definition crc_bit :: "u32 \<Rightarrow> u32" where
  "crc_bit crc = (let mask = - (crc AND 1) in drop_bit 1 crc XOR (CRC32_IEEE_POLYNOMIAL AND mask))"

definition crc_table0 :: "u32 list" where
  "crc_table0 = map (\<lambda>i. (crc_bit ^^ 8) (of_nat i)) [0..<256]"

definition crc_next_table :: "u32 list \<Rightarrow> u32 list" where
  "crc_next_table prev =
     map (\<lambda>i. let crc = prev ! i in drop_bit 8 crc XOR crc_table0 ! unat (crc AND 0xFF)) [0..<256]"

definition CRC32_TABLES :: "u32 list list" where
  "CRC32_TABLES = map (\<lambda>k. (crc_next_table ^^ k) crc_table0) [0..<8]"

definition crc_lookup :: "nat \<Rightarrow> u32 \<Rightarrow> u32" where
  "crc_lookup k i = CRC32_TABLES ! k ! unat i"

definition u32_le :: "u8 \<Rightarrow> u8 \<Rightarrow> u8 \<Rightarrow> u8 \<Rightarrow> u32" where
  "u32_le a b c d =
     ucast a OR push_bit 8 (ucast b) OR push_bit 16 (ucast c) OR push_bit 24 (ucast d)"

text \<open>The bytes after the last full word.\<close>

fun crc_tail :: "u32 \<Rightarrow> bytes \<Rightarrow> u32" where
  "crc_tail crc [] = crc"
| "crc_tail crc (b # data) =
     crc_tail (drop_bit 8 crc XOR crc_lookup 0 ((crc XOR ucast b) AND 0xFF)) data"

fun crc32_update :: "u32 \<Rightarrow> bytes \<Rightarrow> u32" where
  "crc32_update crc (a # b # c # d # e # f # g # h # data) =
     (let first = crc XOR u32_le a b c d;
          second = u32_le e f g h;
          crc = crc_lookup 7 (first AND 0xFF)
              XOR crc_lookup 6 (drop_bit 8 first AND 0xFF)
              XOR crc_lookup 5 (drop_bit 16 first AND 0xFF)
              XOR crc_lookup 4 (drop_bit 24 first)
              XOR crc_lookup 3 (second AND 0xFF)
              XOR crc_lookup 2 (drop_bit 8 second AND 0xFF)
              XOR crc_lookup 1 (drop_bit 16 second AND 0xFF)
              XOR crc_lookup 0 (drop_bit 24 second)
      in crc32_update crc data)"
| "crc32_update crc data = crc_tail crc data"

definition crc32_extend :: "u32 \<Rightarrow> bytes \<Rightarrow> u32" where
  "crc32_extend crc data = NOT (crc32_update (NOT crc) data)"

definition crc32_ieee :: "bytes \<Rightarrow> u32" where
  "crc32_ieee data = crc32_extend 0 data"

definition meta_crc :: "bytes \<Rightarrow> u32" where
  "meta_crc page = crc32_extend (crc32_extend 0 (take 32 page)) (drop 36 page)"

definition PAGE_HEADER :: nat where "PAGE_HEADER = 16"

definition page_crc :: "bytes \<Rightarrow> u32" where
  "page_crc page = crc32_extend (crc32_extend 0 (take 12 page)) (drop PAGE_HEADER page)"

section \<open>The register, one bit at a time\<close>

lemma crc_bit_alt: "crc_bit c = drop_bit 1 c XOR (if bit c 0 then CRC32_IEEE_POLYNOMIAL else 0)"
proof -
  have "c AND 1 = (if bit c 0 then 1 else 0)" by (simp add: and_one_eq bit_0 mod_2_eq_odd)
  then show ?thesis by (simp add: crc_bit_def)
qed

lemma xor_cancel [simp]: "x XOR (x XOR y) = (y :: u32)"
  by (simp flip: xor.assoc)

lemma crc_bit_xor: "crc_bit (c XOR d) = crc_bit c XOR crc_bit d"
  unfolding crc_bit_alt by (auto simp: bit_xor_iff ac_simps)

definition crc_bits :: "nat \<Rightarrow> u32 \<Rightarrow> u32" where
  "crc_bits n c = (crc_bit ^^ n) c"

lemma crc_bits_xor: "crc_bits n (c XOR d) = crc_bits n c XOR crc_bits n d"
  unfolding crc_bits_def by (induction n) (simp_all add: crc_bit_xor)

lemma crc_bits_add: "crc_bits (m + n) c = crc_bits m (crc_bits n c)"
  by (simp add: crc_bits_def funpow_add)

lemma crc_bits_shift: "(\<And>i. i < n \<Longrightarrow> \<not> bit c i) \<Longrightarrow> crc_bits n c = drop_bit n c"
proof (induction n)
  case (Suc n)
  then have "crc_bits n c = drop_bit n c" "\<not> bit c n" by simp_all
  then have "crc_bit (crc_bits n c) = drop_bit 1 (drop_bit n c)"
    by (simp add: crc_bit_alt bit_drop_bit_eq)
  then show ?case by (simp add: crc_bits_def)
qed (simp add: crc_bits_def)

lemma no_bit_32: "\<not> bit (x :: u32) 32"
  using bit_imp_le_length [of x 32] by auto

lemma crc_bit_zero:
  assumes "crc_bit e = 0"
  shows "e = 0"
proof -
  have e0: "\<not> bit e 0"
  proof
    assume "bit e 0"
    then have "bit (crc_bit e) 31"
      unfolding crc_bit_alt by (simp add: bit_simps CRC32_IEEE_POLYNOMIAL_def no_bit_32)
    then show False using assms by simp
  qed
  with assms have z: "drop_bit 1 e = 0" by (simp add: crc_bit_alt)
  have "\<not> bit e n" for n
  proof (cases n)
    case (Suc m)
    have "bit (drop_bit 1 e) m = bit e (Suc m)" by (simp add: bit_drop_bit_eq)
    then show ?thesis using z Suc by simp
  qed (use e0 in simp)
  then show ?thesis by (intro bit_eqI) simp
qed

lemma xor_eq_0: "c XOR d = 0 \<Longrightarrow> c = (d :: u32)"
  using xor_cancel [of c d] by simp

lemma inj_crc_bit: "inj crc_bit"
proof (rule injI)
  fix c d :: u32 assume "crc_bit c = crc_bit d"
  then have "crc_bit (c XOR d) = 0" by (simp add: crc_bit_xor)
  then show "c = d" by (rule xor_eq_0 [OF crc_bit_zero])
qed

lemma inj_crc_bits: "inj (crc_bits n)"
  unfolding crc_bits_def by (rule inj_fn [OF inj_crc_bit])

section \<open>The tables\<close>

lemma crc_table0: "i < 256 \<Longrightarrow> crc_table0 ! i = crc_bits 8 (of_nat i)"
  by (simp add: crc_table0_def crc_bits_def)

lemma byte_index: "unat (c AND 0xFF :: u32) < 256" "of_nat (unat (c AND 0xFF :: u32)) = c AND 0xFF"
proof -
  have "c AND 0xFF = take_bit 8 c" by (simp add: take_bit_eq_mask mask_eq_exp_minus_1)
  then show "unat (c AND 0xFF) < 256" by (simp add: take_bit_eq_mod unat_mod)
qed simp

text \<open>The byte step: eight bits at once.\<close>

lemma crc_byte: "crc_bits 8 x = drop_bit 8 x XOR crc_bits 8 (x AND 0xFF)"
proof -
  have FF: "(0xFF :: u32) = mask 8" by (simp add: mask_eq_exp_minus_1)
  have "crc_bits 8 (x AND NOT (mask 8)) = drop_bit 8 (x AND NOT (mask 8))"
    by (rule crc_bits_shift) (simp add: bit_simps)
  moreover have "drop_bit 8 (x AND NOT (mask 8)) = drop_bit 8 x"
    by (rule bit_eqI) (auto simp: bit_simps dest: bit_imp_le_length)
  moreover have "x = (x AND NOT (mask 8)) XOR (x AND mask 8)"
    by (rule bit_eqI) (auto simp: bit_simps)
  ultimately show ?thesis unfolding FF by (metis crc_bits_xor)
qed

lemma crc_byte_table: "drop_bit 8 crc XOR crc_table0 ! unat (crc AND 0xFF) = crc_bits 8 crc"
  by (simp add: crc_table0 byte_index crc_byte [of crc])

lemma crc_table_power:
  "i < 256 \<Longrightarrow> (crc_next_table ^^ k) crc_table0 ! i = crc_bits (8 * (k + 1)) (of_nat i)"
proof (induction k)
  case (Suc k)
  then show ?case
    by (simp add: crc_next_table_def crc_byte_table Let_def flip: crc_bits_add)
qed (simp add: crc_table0)

lemma crc_lookup_byte: "k < 8 \<Longrightarrow> crc_lookup k (x AND 0xFF) = crc_bits (8 * (k + 1)) (x AND 0xFF)"
  by (simp add: crc_lookup_def CRC32_TABLES_def crc_table_power byte_index)

text \<open>A register word, one byte at a time.\<close>

lemma crc_bits_split: "crc_bits (8 * (k + 1)) x = crc_bits (8 * k) (drop_bit 8 x) XOR crc_bits (8 * (k + 1)) (x AND 0xFF)"
proof -
  have "crc_bits (8 * (k + 1)) x = crc_bits (8 * k) (crc_bits 8 x)" for x
    by (simp add: crc_bits_add [symmetric] add.commute)
  then show ?thesis by (metis crc_byte crc_bits_xor)
qed

lemma top_byte: "drop_bit 24 x AND 0xFF = drop_bit 24 (x :: u32)"
proof -
  have "(0xFF :: u32) = mask 8" by (simp add: mask_eq_exp_minus_1)
  moreover have "drop_bit 24 x AND mask 8 = drop_bit 24 x"
    by (rule bit_eqI) (auto simp: bit_simps dest: bit_imp_le_length)
  ultimately show ?thesis by simp
qed

lemma crc_word_bytes:
  "crc_bits 32 x = crc_bits 32 (x AND 0xFF) XOR crc_bits 24 (drop_bit 8 x AND 0xFF)
     XOR crc_bits 16 (drop_bit 16 x AND 0xFF) XOR crc_bits 8 (drop_bit 24 x)"
  using crc_bits_split [of 3 x] crc_bits_split [of 2 "drop_bit 8 x"] crc_bits_split [of 1 "drop_bit 16 x"]
    crc_bits_split [of 0 "drop_bit 24 x"]
  by (simp add: top_byte crc_bits_def [of 0] drop_bit_drop_bit ac_simps)

lemma crc_word_tables:
  assumes "j < 5"
  shows "crc_bits (8 * j + 32) x = crc_lookup (j + 3) (x AND 0xFF) XOR crc_lookup (j + 2) (drop_bit 8 x AND 0xFF)
     XOR crc_lookup (j + 1) (drop_bit 16 x AND 0xFF) XOR crc_lookup j (drop_bit 24 x)"
proof -
  have "crc_lookup j (drop_bit 24 x) = crc_bits (8 * (j + 1)) (drop_bit 24 x)"
    using crc_lookup_byte [of j "drop_bit 24 x"] assms by (simp add: top_byte)
  then show ?thesis
    unfolding crc_bits_add crc_word_bytes [of x] crc_bits_xor
    using assms by (simp add: crc_lookup_byte top_byte ac_simps flip: crc_bits_add)
qed

section \<open>The reference: a bit at a time\<close>

definition crc_byte_step :: "u32 \<Rightarrow> u8 \<Rightarrow> u32" where
  "crc_byte_step crc b = (crc_bit ^^ 8) (crc XOR ucast b)"

definition crc_reference :: "u32 \<Rightarrow> bytes \<Rightarrow> u32" where
  "crc_reference crc data = foldl crc_byte_step crc data"

lemma crc_byte_step_bits: "crc_byte_step c b = crc_bits 8 (c XOR ucast b)"
  by (simp add: crc_byte_step_def crc_bits_def)

lemma crc_bits_push: "n \<le> 24 \<Longrightarrow> crc_bits n (push_bit n (ucast (b :: u8))) = (ucast b :: u32)"
proof -
  assume n: "n \<le> 24"
  have "crc_bits n (push_bit n (ucast b)) = drop_bit n (push_bit n (ucast b))"
    by (rule crc_bits_shift) (simp add: bit_simps)
  also have "\<dots> = ucast b"
    using n by (intro bit_eqI) (auto simp: bit_simps dest: bit_imp_le_length)
  finally show ?thesis .
qed

lemma crc_four_bytes:
  "crc_byte_step (crc_byte_step (crc_byte_step (crc_byte_step crc a) b) c) d = crc_bits 32 (crc XOR u32_le a b c d)"
proof -
  have le: "u32_le a b c d = ucast a XOR push_bit 8 (ucast b) XOR push_bit 16 (ucast c) XOR push_bit 24 (ucast d)"
    unfolding u32_le_def
    by (rule bit_eqI) (auto simp: bit_simps dest: bit_imp_le_length)
  have p: "crc_bits 8 (push_bit 8 (ucast b)) = ucast b" "crc_bits 16 (push_bit 16 (ucast c)) = ucast c"
    "crc_bits 24 (push_bit 24 (ucast d)) = ucast d"
    using crc_bits_push by auto
  have "crc_bits 32 x = crc_bits 24 (crc_bits 8 x)" "crc_bits 24 x = crc_bits 8 (crc_bits 16 x)"
    "crc_bits 16 x = crc_bits 8 (crc_bits 8 x)" for x
    by (simp_all flip: crc_bits_add)
  then show ?thesis
    unfolding le crc_byte_step_bits using p by (simp add: crc_bits_xor ac_simps)
qed

lemma crc_tail_reference: "crc_tail crc data = crc_reference crc data"
proof (induction data arbitrary: crc)
  case (Cons b data)
  have "drop_bit 8 crc = drop_bit 8 (crc XOR ucast b)"
    by (rule bit_eqI) (auto simp: bit_simps dest: bit_imp_le_length)
  moreover have "crc_lookup 0 (x AND 0xFF) = crc_table0 ! unat (x AND 0xFF)" for x
    by (simp add: crc_lookup_def CRC32_TABLES_def)
  ultimately have "drop_bit 8 crc XOR crc_lookup 0 ((crc XOR ucast b) AND 0xFF) = crc_byte_step crc b"
    by (simp add: crc_byte_step_bits flip: crc_byte_table)
  then show ?case using Cons by (simp add: crc_reference_def)
qed (simp add: crc_reference_def)

lemma crc32_update_reference: "crc32_update crc data = crc_reference crc data"
proof (induction crc data rule: crc32_update.induct)
  case (1 crc a b c d e f g h data)
  let ?first = "crc XOR u32_le a b c d" and ?second = "u32_le e f g h"
  have "crc_reference crc (a # b # c # d # e # f # g # h # data)
      = crc_reference (crc_bits (8 * 4 + 32) ?first XOR crc_bits (8 * 0 + 32) ?second) data"
    by (simp add: crc_reference_def crc_four_bytes crc_bits_xor flip: crc_bits_add)
  also have "crc_bits (8 * 4 + 32) ?first XOR crc_bits (8 * 0 + 32) ?second
      = crc_lookup 7 (?first AND 0xFF) XOR crc_lookup 6 (drop_bit 8 ?first AND 0xFF)
        XOR crc_lookup 5 (drop_bit 16 ?first AND 0xFF) XOR crc_lookup 4 (drop_bit 24 ?first)
        XOR crc_lookup 3 (?second AND 0xFF) XOR crc_lookup 2 (drop_bit 8 ?second AND 0xFF)
        XOR crc_lookup 1 (drop_bit 16 ?second AND 0xFF) XOR crc_lookup 0 (drop_bit 24 ?second)"
    using crc_word_tables [of 4 ?first] crc_word_tables [of 0 ?second] by (simp add: xor.assoc numeral_2_eq_2)
  finally show ?case unfolding crc32_update.simps Let_def "1.IH" [OF refl refl refl] by simp
qed (simp_all add: crc_tail_reference)

section \<open>Composition and injectivity\<close>

lemma crc32_extend_reference: "crc32_extend crc data = NOT (crc_reference (NOT crc) data)"
  by (simp add: crc32_extend_def crc32_update_reference)

lemma crc32_extend_append: "crc32_extend (crc32_extend crc a) b = crc32_extend crc (a @ b)"
  by (simp add: crc32_extend_reference crc_reference_def)

lemma crc_reference_append: "crc_reference crc (a @ b) = crc_reference (crc_reference crc a) b"
  by (simp add: crc_reference_def)

lemma crc_reference_inj: "crc_reference c data = crc_reference d data \<Longrightarrow> c = d"
proof (induction data arbitrary: c d)
  case (Cons b data)
  then have "crc_bits 8 (c XOR ucast b) = crc_bits 8 (d XOR ucast b)"
    by (simp add: crc_reference_def flip: crc_byte_step_bits)
  then have "ucast b XOR c = ucast b XOR d" using injD [OF inj_crc_bits] by (simp add: ac_simps)
  then show ?case by (metis xor_cancel)
qed (simp add: crc_reference_def)

text \<open>Up to four bytes as a word; the register after them is injective in it.\<close>

fun le_word :: "bytes \<Rightarrow> u32" where
  "le_word [] = 0"
| "le_word (b # bs) = ucast b XOR push_bit 8 (le_word bs)"

lemma le_word_bound: "length bs \<le> 4 \<Longrightarrow> 8 * length bs \<le> i \<Longrightarrow> \<not> bit (le_word bs) i"
  by (induction bs arbitrary: i) (auto simp: bit_simps dest: bit_imp_le_length)

lemma crc_bits_push_word: "(\<And>i. 24 \<le> i \<Longrightarrow> \<not> bit y i) \<Longrightarrow> crc_bits 8 (push_bit 8 y) = y"
  and drop_push_word: "(\<And>i. 24 \<le> i \<Longrightarrow> \<not> bit y i) \<Longrightarrow> drop_bit 8 (push_bit 8 y) = (y :: u32)"
proof -
  assume y: "\<And>i. 24 \<le> i \<Longrightarrow> \<not> bit y i"
  show d: "drop_bit 8 (push_bit 8 y) = y"
    using y by (intro bit_eqI) (auto simp: bit_simps not_le [symmetric])
  have "crc_bits 8 (push_bit 8 y) = drop_bit 8 (push_bit 8 y)"
    by (rule crc_bits_shift) (simp add: bit_simps)
  then show "crc_bits 8 (push_bit 8 y) = y" using d by simp
qed

lemma crc_reference_word:
  "length bs \<le> 4 \<Longrightarrow> crc_reference c bs = crc_bits (8 * length bs) (c XOR le_word bs)"
proof (induction bs arbitrary: c)
  case (Cons b bs)
  then have y: "\<not> bit (le_word bs) i" if "24 \<le> i" for i using that by (intro le_word_bound) auto
  have "crc_bits (8 * length (b # bs)) x = crc_bits (8 * length bs) (crc_bits 8 x)" for x
    by (simp add: add.commute flip: crc_bits_add)
  then show ?case
    using Cons crc_bits_push_word [of "le_word bs"] y
    by (simp add: crc_reference_def crc_byte_step_bits crc_bits_xor flip: xor.assoc)
qed (simp add: crc_reference_def crc_bits_def)

lemma le_word_inj: "length a = length b \<Longrightarrow> length a \<le> 4 \<Longrightarrow> le_word a = le_word b \<Longrightarrow> a = b"
proof (induction a b rule: list_induct2)
  case (Cons x a y b)
  have d: "drop_bit 8 (le_word (z # c)) = le_word c" "ucast (le_word (z # c)) = z"
    if "length c \<le> 3" for z c
  proof -
    have "drop_bit 8 (ucast z :: u32) = 0"
      by (rule bit_eqI) (auto simp: bit_simps dest: bit_imp_le_length)
    moreover have "\<not> bit (le_word c) i" if "24 \<le> i" for i using that \<open>length c \<le> 3\<close> by (intro le_word_bound) auto
    ultimately show "drop_bit 8 (le_word (z # c)) = le_word c" using drop_push_word [of "le_word c"] by simp
    show "ucast (le_word (z # c)) = z"
      by (rule bit_eqI) (auto simp: bit_simps dest: bit_imp_le_length)
  qed
  have l: "length a \<le> 3" "length b \<le> 3" using Cons.hyps Cons.prems by auto
  from Cons.prems(2) have "x = y" "le_word a = le_word b"
    using d [OF l(1), of x] d [OF l(2), of y] by metis+
  then show ?case using Cons l by simp
qed simp

lemma crc_burst:
  assumes "length x = length y" "length x \<le> 4" "x \<noteq> y"
  shows "crc_reference c (pre @ x @ post) \<noteq> crc_reference c (pre @ y @ post)"
proof
  assume "crc_reference c (pre @ x @ post) = crc_reference c (pre @ y @ post)"
  then have "crc_reference (crc_reference c pre) x = crc_reference (crc_reference c pre) y"
    unfolding crc_reference_append by (rule crc_reference_inj)
  then have "le_word x XOR crc_reference c pre = le_word y XOR crc_reference c pre"
    using assms injD [OF inj_crc_bits] by (simp add: crc_reference_word ac_simps)
  then have "le_word x = le_word y" by (metis xor_cancel xor.commute)
  then show False using assms le_word_inj by metis
qed

lemma crc_burst_nth:
  assumes "length x = length y" "x \<noteq> y"
    and same: "\<And>k. k < length x \<Longrightarrow> k < i \<or> i + 4 \<le> k \<Longrightarrow> x ! k = y ! k"
  shows "crc_reference c x \<noteq> crc_reference c y"
proof -
  have "take i x = take i y" "drop (i + 4) x = drop (i + 4) y"
    using assms(1) same by (auto intro!: nth_equalityI)
  moreover have "z = take i z @ take 4 (drop i z) @ drop (i + 4) z" for z :: bytes
    by (metis append_take_drop_id drop_drop add.commute)
  ultimately obtain w where
    w: "x = take i x @ take 4 (drop i x) @ w" "y = take i x @ take 4 (drop i y) @ w" by metis
  with assms(2) have "take 4 (drop i x) \<noteq> take 4 (drop i y)" by metis
  moreover have "length (take 4 (drop i x)) = length (take 4 (drop i y))" using assms(1) by simp
  ultimately have "crc_reference c (take i x @ take 4 (drop i x) @ w) \<noteq> crc_reference c (take i x @ take 4 (drop i y) @ w)"
    by (intro crc_burst) auto
  then show ?thesis using w by metis
qed

section \<open>Properties\<close>

text \<open>
  C16. The checksum computed eight bytes at a time through the tables is the CRC-32 that feeds the
  register one bit at a time, and extending a checksum is the checksum of the concatenation.
\<close>

theorem crc32_slicing_exact:
  "crc32_ieee data = NOT (foldl (\<lambda>crc b. (crc_bit ^^ 8) (crc XOR ucast b)) (NOT 0) data)
   \<and> crc32_extend (crc32_ieee data) more = crc32_ieee (data @ more)"
proof -
  have "crc_byte_step = (\<lambda>crc b. (crc_bit ^^ 8) (crc XOR ucast b))"
    by (simp add: fun_eq_iff crc_byte_step_def)
  then show ?thesis
    unfolding crc32_ieee_def crc32_extend_append
    by (simp add: crc32_extend_reference crc_reference_def)
qed

text \<open>
  C25. Damage confined to four adjacent bytes of a page never passes the page checksum: two pages of
  one size that agree outside a window of four bytes and differ somewhere outside the checksum field
  have different checksums.
\<close>

theorem page_crc_detects_burst:
  assumes len: "length p = length q" and k: "k < length p" "k < 12 \<or> PAGE_HEADER \<le> k" "p ! k \<noteq> q ! k"
    and same: "\<And>j. j < length p \<Longrightarrow> j < i \<or> i + 4 \<le> j \<Longrightarrow> p ! j = q ! j"
  shows "page_crc p \<noteq> page_crc q"
proof -
  define body where "body = (\<lambda>z :: bytes. take 12 z @ drop 16 z)"
  define i' where "i' = (if i \<le> 12 then i else if 16 \<le> i then i - 4 else 12)"
  have nth: "body z ! j = (if j < 12 then z ! j else z ! (j + 4))"
    if "length z = length p" "j < length (body p)" for z j
    using that by (auto simp: body_def nth_append min_def add.commute)
  have lb: "length (body q) = length (body p)" using len by (simp add: body_def)
  have "body p ! j = body q ! j" if "j < length (body p)" "j < i' \<or> i' + 4 \<le> j" for j
  proof -
    have "(if j < 12 then j else j + 4) < length p" using that(1) by (auto simp: body_def split: if_splits)
    then have "p ! (if j < 12 then j else j + 4) = q ! (if j < 12 then j else j + 4)"
      using that(2) by (intro same) (auto simp: i'_def split: if_splits)
    then show ?thesis using nth [of p j] nth [of q j] that(1) len by (simp split: if_splits)
  qed
  moreover have "body p \<noteq> body q"
  proof
    assume eq: "body p = body q"
    define j where "j = (if k < 12 then k else k - 4)"
    have "j < length (body p)" using k(1,2) by (auto simp: j_def body_def PAGE_HEADER_def min_def)
    then show False using nth [of p j] nth [of q j] eq k len by (auto simp: j_def PAGE_HEADER_def split: if_splits)
  qed
  ultimately have "crc_reference (NOT 0) (body p) \<noteq> crc_reference (NOT 0) (body q)"
    using lb by (intro crc_burst_nth [of _ _ i']) auto
  moreover have "page_crc z = NOT (crc_reference (NOT 0) (body z))" for z
    unfolding page_crc_def PAGE_HEADER_def crc32_extend_append body_def by (rule crc32_extend_reference)
  ultimately show ?thesis by simp
qed

theorem page_crc_detects_burst_witness:
  "page_crc (replicate 64 7) \<noteq> page_crc ((replicate 64 7)[20 := 1, 22 := 9])"
  by (rule page_crc_detects_burst [of _ _ 20 20]) (auto simp: PAGE_HEADER_def nth_list_update)

end
