(* ===== verification/Page_Format.thy ===== *)
theory Page_Format
  imports Crc
begin

text \<open>
  The bytes of a page (\<open>make_page\<close>, \<open>parse_page\<close>) and of a meta slot (\<open>meta_page\<close>, \<open>parse_meta\<close>) of
  \<open>format.rs\<close>, with the size rules of \<open>Cap\<close>. Page numbers and counts are naturals below \<open>2 ^ 32\<close>; \<open>None\<close>
  of a writer is a slice out of range.
\<close>

section \<open>Slices\<close>

text \<open>\<open>p[at..at + n]\<close> and \<open>p[at..at + bs.len()].copy_from_slice(bs)\<close>, in range.\<close>

definition get_slice :: "nat \<Rightarrow> nat \<Rightarrow> bytes \<Rightarrow> bytes" where
  "get_slice at n p = take n (drop at p)"

definition put_slice :: "nat \<Rightarrow> bytes \<Rightarrow> bytes \<Rightarrow> bytes" where
  "put_slice at bs p = take at p @ bs @ drop (at + length bs) p"

definition u16_at :: "bytes \<Rightarrow> nat \<Rightarrow> nat" where "u16_at b at = nat (be_val (get_slice at 2 b))"
definition u32_at :: "bytes \<Rightarrow> nat \<Rightarrow> nat" where "u32_at b at = nat (be_val (get_slice at 4 b))"
definition u64_at :: "bytes \<Rightarrow> nat \<Rightarrow> nat" where "u64_at b at = nat (be_val (get_slice at 8 b))"

named_theorems slices \<open>reading what was written into a page\<close>

lemma length_put_slice [slices]:
  "at + length bs \<le> length p \<Longrightarrow> length (put_slice at bs p) = length p"
  by (simp add: put_slice_def)

lemma get_put_same [slices]:
  "at + length bs \<le> length p \<Longrightarrow> n = length bs \<Longrightarrow> get_slice at n (put_slice at bs p) = bs"
  by (simp add: put_slice_def get_slice_def)

lemma get_put_other:
  assumes "at + length bs \<le> length p" "a + n \<le> at \<or> at + length bs \<le> a"
  shows "get_slice a n (put_slice at bs p) = get_slice a n p"
proof (rule nth_equalityI)
  fix i assume "i < length (get_slice a n (put_slice at bs p))"
  then show "get_slice a n (put_slice at bs p) ! i = get_slice a n p ! i"
    using assms by (auto simp: put_slice_def get_slice_def nth_append)
qed (use assms in \<open>simp add: get_slice_def length_put_slice\<close>)

lemma get_put_before [slices]:
  "at + length bs \<le> length p \<Longrightarrow> a + n \<le> at \<Longrightarrow> get_slice a n (put_slice at bs p) = get_slice a n p"
  by (simp add: get_put_other)

lemma get_put_after [slices]:
  "at + length bs \<le> length p \<Longrightarrow> at + length bs \<le> a \<Longrightarrow> get_slice a n (put_slice at bs p) = get_slice a n p"
  by (simp add: get_put_other)

lemma get_update [slices]:
  "i < a \<or> a + n \<le> i \<Longrightarrow> get_slice a n (p[i := x]) = get_slice a n p"
  by (auto simp: get_slice_def drop_update_cancel intro!: nth_equalityI)

lemma nth_put_slice [slices]:
  "at + length bs \<le> length p \<Longrightarrow> i < at \<Longrightarrow> put_slice at bs p ! i = p ! i"
  "at + length bs \<le> length p \<Longrightarrow> at + length bs \<le> i \<Longrightarrow> put_slice at bs p ! i = p ! i"
  by (auto simp: put_slice_def nth_append)

lemma get_slice_zeros: "get_slice a n (replicate m 0) = replicate (min n (m - a)) 0"
  by (simp add: get_slice_def)

lemma nat_be_bytes [slices]:
  assumes "n < 2 ^ (8 * k)"
  shows "nat (be_val (be_bytes k (int n))) = n"
proof -
  have "int n < 2 ^ (8 * k)" using assms by (metis of_nat_less_numeral_power_cancel_iff)
  then have "int n < 256 ^ k" by (simp add: power_mult)
  then show ?thesis by simp
qed

lemma u_at_put [slices]:
  "at + 2 \<le> length p \<Longrightarrow> n < 65536 \<Longrightarrow> u16_at (put_slice at (be_bytes 2 (int n)) p) at = n"
  "at + 4 \<le> length p \<Longrightarrow> n < 2 ^ 32 \<Longrightarrow> u32_at (put_slice at (be_bytes 4 (int n)) p) at = n"
  "at + 8 \<le> length p \<Longrightarrow> n < 2 ^ 64 \<Longrightarrow> u64_at (put_slice at (be_bytes 8 (int n)) p) at = n"
  by (simp_all add: u16_at_def u32_at_def u64_at_def get_put_same nat_be_bytes)

lemma u_at_slice:
  "get_slice at 4 p = get_slice at 4 q \<Longrightarrow> u32_at p at = u32_at q at"
  "get_slice at 8 p = get_slice at 8 q \<Longrightarrow> u64_at p at = u64_at q at"
  by (simp_all add: u32_at_def u64_at_def)

section \<open>Sizes\<close>

definition RESERVE :: nat where "RESERVE = 40"
definition TAG_LEN :: nat where "TAG_LEN = 16"
definition FIRST_BODY_PAGE :: nat where "FIRST_BODY_PAGE = 4"
definition ROOT_PAGE :: nat where "ROOT_PAGE = 2"
definition MIN_PAGE_SIZE :: nat where "MIN_PAGE_SIZE = 1024"
definition SUITE_XAES :: u8 where "SUITE_XAES = 1"
definition NO_TAG :: bytes where "NO_TAG = replicate 16 0"
definition FORMAT_VERSION :: nat where "FORMAT_VERSION = 50"
definition MAGIC :: bytes where "MAGIC = [0x4A, 0x45, 0x44, 0x42]"

record page_cap =
  cap_c :: nat
  cap_tag :: nat

definition page_payload :: "nat \<Rightarrow> nat" where "page_payload page_size = page_size - PAGE_HEADER"

definition cap_plain :: "nat \<Rightarrow> page_cap" where
  "cap_plain page_size = \<lparr> cap_c = page_payload page_size, cap_tag = 0 \<rparr>"

definition cap_encrypted :: "nat \<Rightarrow> page_cap" where
  "cap_encrypted page_size = \<lparr> cap_c = page_payload page_size - RESERVE, cap_tag = TAG_LEN \<rparr>"

definition cap_of :: "nat \<Rightarrow> bool \<Rightarrow> page_cap" where
  "cap_of page_size encrypted = (if encrypted then cap_encrypted page_size else cap_plain page_size)"

definition encrypted_variant :: "page_cap \<Rightarrow> bool" where "encrypted_variant cap \<longleftrightarrow> cap_tag cap \<noteq> 0"

definition first_body :: "page_cap \<Rightarrow> nat" where
  "first_body cap = (if encrypted_variant cap then FIRST_BODY_PAGE else ROOT_PAGE)"

lemma cap_of_encrypted [simp]: "encrypted_variant (cap_of ps e) = e"
  by (simp add: cap_of_def cap_encrypted_def cap_plain_def encrypted_variant_def TAG_LEN_def)

record page_pointer =
  pr_page :: nat
  pr_tag :: bytes

section \<open>Body pages\<close>

definition corrupt_page :: "string \<Rightarrow> engine_error" where
  "corrupt_page msg = (DataCorrupted, msg)"

record page_view =
  pg_type :: u8
  pg_flags :: u8
  pg_item_count :: nat
  pg_next :: nat
  pg_payload :: bytes

text \<open>The last step of a page: its checksum, over every byte but the field itself.\<close>

definition stamp_crc :: "bytes \<Rightarrow> bytes" where
  "stamp_crc p = put_slice 12 (be_bytes 4 (uint (page_crc p))) p"

definition make_page :: "nat \<Rightarrow> u8 \<Rightarrow> nat \<Rightarrow> nat \<Rightarrow> bytes \<Rightarrow> bytes option" where
  "make_page ps page_type item_count next_page payload =
     (if ps < PAGE_HEADER + length payload then None
      else
        let p = replicate ps 0;
            p = p[0 := page_type];
            p = put_slice 4 (be_bytes 4 (int item_count)) p;
            p = put_slice 8 (be_bytes 4 (int next_page)) p;
            p = put_slice PAGE_HEADER payload p
        in Some (stamp_crc p))"

definition parse_page :: "bytes \<Rightarrow> page_view result" where
  "parse_page block =
     (if length block < PAGE_HEADER then Inl (corrupt_page ''page shorter than its header'')
      else if page_crc block \<noteq> word_of_int (be_val (get_slice 12 4 block))
      then Inl (corrupt_page ''page checksum mismatch (corrupted page)'')
      else Inr \<lparr> pg_type = block ! 0, pg_flags = block ! 1, pg_item_count = u32_at block 4,
                 pg_next = u32_at block 8, pg_payload = drop PAGE_HEADER block \<rparr>)"

section \<open>Meta slots\<close>

record meta =
  mt_suite :: u8
  mt_txid :: nat
  mt_root_page :: nat
  mt_root_tag :: bytes
  mt_free_list_tag :: bytes
  mt_page_count :: nat
  mt_free_list_head :: nat
  mt_live_pages :: nat
  mt_protected :: "nat set"

definition stamp_meta :: "bytes \<Rightarrow> bytes" where
  "stamp_meta p = put_slice 32 (be_bytes 4 (uint (meta_crc p))) p"

definition meta_page :: "page_cap \<Rightarrow> nat \<Rightarrow> nat \<Rightarrow> page_pointer \<Rightarrow> nat \<Rightarrow> page_pointer \<Rightarrow> nat \<Rightarrow> bytes option" where
  "meta_page cap page_size txid root page_count free_list live_pages =
     (if page_size < (if encrypted_variant cap then 96 else 60) then None
      else
        let p = replicate page_size 0;
            p = put_slice 0 MAGIC p;
            p = put_slice 4 (be_bytes 2 (int FORMAT_VERSION)) p;
            p = (if encrypted_variant cap
                 then put_slice 80 (pr_tag free_list)
                        (put_slice 64 (pr_tag root) (p[6 := SUITE_XAES, 7 := of_nat RESERVE]))
                 else p);
            p = put_slice 8 (be_bytes 4 (int page_size)) p;
            p = put_slice 12 (be_bytes 8 (int txid)) p;
            p = put_slice 20 (be_bytes 4 (int (pr_page root))) p;
            p = put_slice 24 (be_bytes 4 (int page_count)) p;
            p = put_slice 28 (be_bytes 4 (int (pr_page free_list))) p;
            p = put_slice 56 (be_bytes 4 (int live_pages)) p
        in Some (stamp_meta p))"

definition parse_suite :: "bytes \<Rightarrow> u8 option" where
  "parse_suite m =
     (if m ! 6 = 0 \<and> m ! 7 = 0 then Some 0
      else if m ! 6 = SUITE_XAES \<and> unat (m ! 7) = RESERVE \<and> length m \<ge> MIN_PAGE_SIZE
      then Some SUITE_XAES else None)"

definition tag_at :: "u8 \<Rightarrow> bytes \<Rightarrow> nat \<Rightarrow> bytes" where
  "tag_at suite m at = (if suite = 0 then NO_TAG else get_slice at 16 m)"

definition parse_meta :: "bytes \<Rightarrow> meta option" where
  "parse_meta m =
     (if length m < 64 \<or> u32_at m 8 \<noteq> length m then None
      else if get_slice 0 4 m \<noteq> MAGIC then None
      else if u16_at m 4 \<noteq> FORMAT_VERSION then None
      else Option.bind (parse_suite m) (\<lambda>suite.
        if meta_crc m \<noteq> word_of_int (be_val (get_slice 32 4 m)) then None
        else
          let first = (if suite = 0 then ROOT_PAGE else FIRST_BODY_PAGE);
              page_count = u32_at m 24;
              free_list_head = u32_at m 28;
              root_page = u32_at m 20;
              live_pages = u32_at m 56;
              free_list_tag = tag_at suite m 80
          in if free_list_head \<noteq> 0 \<and> (free_list_head < first \<or> free_list_head \<ge> page_count) then None
             else if root_page < first \<or> root_page \<ge> page_count then None
             else if live_pages > page_count - first then None
             else if free_list_head = 0 \<and> free_list_tag \<noteq> NO_TAG then None
             else Some \<lparr> mt_suite = suite, mt_txid = u64_at m 12, mt_root_page = root_page,
                         mt_root_tag = tag_at suite m 64, mt_free_list_tag = free_list_tag,
                         mt_page_count = page_count, mt_free_list_head = free_list_head,
                         mt_live_pages = live_pages, mt_protected = {} \<rparr>))"

end
