(* ===== verification/Manifest.thy ===== *)
theory Manifest
  imports Page_Format
begin

text \<open>
  Commit identities (\<open>commit_manifest.rs\<close>). A manifest lists every page a generation depends on with the
  CRC-64 of its stored bytes; a slot is adopted only when every listed page carries its recorded identity.
  The reads are a parameter: the bytes of a page, or the host's error. Slices are read in range: a page has the meta's size.
\<close>

section \<open>CRC-64\<close>

definition CRC64_POLYNOMIAL :: u64 where "CRC64_POLYNOMIAL = 0x42F0E1EBA9EA3693"

definition crc64_bit :: "u64 \<Rightarrow> u64" where
  "crc64_bit crc =
     (if crc AND push_bit 63 1 \<noteq> 0 then push_bit 1 crc XOR CRC64_POLYNOMIAL else push_bit 1 crc)"

definition CRC64 :: "u64 list" where
  "CRC64 = map (\<lambda>i. (crc64_bit ^^ 8) (push_bit 56 (of_nat i))) [0..<256]"

definition crc64_step :: "u64 \<Rightarrow> u8 \<Rightarrow> u64" where
  "crc64_step crc byte = push_bit 8 crc XOR CRC64 ! unat ((ucast (drop_bit 56 crc) :: u8) XOR byte)"

definition crc64_extend :: "u64 \<Rightarrow> bytes \<Rightarrow> u64" where
  "crc64_extend crc bytes = foldl crc64_step crc bytes"

section \<open>Layout\<close>

definition HEADER :: nat where "HEADER = 64"
definition ENCRYPTED_HEADER :: nat where "ENCRYPTED_HEADER = 96"
definition ENTRY :: nat where "ENTRY = 12"
definition OVERFLOW_HEADER :: nat where "OVERFLOW_HEADER = 32"
definition PAGE_MANIFEST :: u8 where "PAGE_MANIFEST = 8"

definition inline_area :: "nat \<Rightarrow> bool \<Rightarrow> nat \<times> nat" where
  "inline_area ps encrypted = (if encrypted then (ENCRYPTED_HEADER, ps - RESERVE) else (HEADER, ps))"

definition capacities :: "nat \<Rightarrow> page_cap \<Rightarrow> nat \<times> nat" where
  "capacities ps cap =
     (let (lo, hi) = inline_area ps (encrypted_variant cap)
      in ((hi - lo) div ENTRY, (ps - OVERFLOW_HEADER) div ENTRY))"

definition overflow_needed :: "nat \<Rightarrow> page_cap \<Rightarrow> nat \<Rightarrow> nat" where
  "overflow_needed ps cap entries =
     (let (inline, per) = capacities ps cap in (entries - inline + per - 1) div per)"

type_synonym manifest_entry = "nat \<times> u64"

definition entries_of :: "(nat \<times> bytes) list \<Rightarrow> manifest_entry list" where
  "entries_of pages = map (\<lambda>(pid, bytes). (pid, crc64_extend 0 bytes)) pages"

section \<open>Writing a manifest\<close>

definition entry_bytes :: "manifest_entry \<Rightarrow> bytes" where
  "entry_bytes e = (case e of (pid, hash) \<Rightarrow> be_bytes 4 (int pid) @ be_bytes 8 (uint hash))"

definition put_entries :: "manifest_entry list \<Rightarrow> bytes" where
  "put_entries es = concat (map entry_bytes es)"

text \<open>The overflow pages, from page \<open>ordinal\<close> on; \<open>es\<close> are the entries past the inline ones.\<close>

fun encode_overflow ::
    "nat \<Rightarrow> bytes \<Rightarrow> manifest_entry list \<Rightarrow> nat \<Rightarrow> nat list \<Rightarrow> u64 \<Rightarrow> ((nat \<times> bytes) list \<times> u64) option" where
  "encode_overflow ps txid es ordinal [] digest = Some ([], digest)"
| "encode_overflow ps txid es ordinal (pid # ids) digest =
     (let per = (ps - OVERFLOW_HEADER) div ENTRY;
          slice = take per (drop (ordinal * per) es);
          payload = txid @ be_bytes 4 (int ordinal) @ replicate 4 0 @ put_entries slice
      in case make_page ps PAGE_MANIFEST (length slice) (case ids of [] \<Rightarrow> 0 | n # _ \<Rightarrow> n) payload of
           None \<Rightarrow> None
         | Some page \<Rightarrow>
             map_option (\<lambda>(pages, digest). ((pid, page) # pages, digest))
               (encode_overflow ps txid es (Suc ordinal) ids
                  (crc64_extend (crc64_extend digest (be_bytes 4 (int pid))) page)))"

definition encode_manifest ::
    "bytes \<Rightarrow> page_cap \<Rightarrow> manifest_entry list \<Rightarrow> nat list \<Rightarrow> (bytes \<times> (nat \<times> bytes) list) option" where
  "encode_manifest meta cap entries ids =
     (let ps = length meta;
          entries = sort_key fst entries;
          (header, _) = inline_area ps (encrypted_variant cap);
          inline = min (length entries) (fst (capacities ps cap));
          meta = put_slice header (put_entries (take inline entries)) meta
      in map_option (\<lambda>(pages, digest).
           let meta = put_slice 36 (be_bytes 4 (int (case ids of [] \<Rightarrow> 0 | n # _ \<Rightarrow> n))) meta;
               meta = put_slice 40 (be_bytes 4 (int (length entries))) meta;
               meta = put_slice 44 (be_bytes 4 (int (length ids))) meta;
               meta = put_slice 48 (be_bytes 8 (uint digest)) meta
           in (stamp_meta meta, pages))
         (encode_overflow ps (get_slice 12 8 meta) (drop inline entries) 0 ids 0))"

section \<open>Reading a manifest\<close>

type_synonym reads = "nat \<Rightarrow> bytes result"

definition bad_manifest :: engine_error where
  "bad_manifest = corrupt_page ''invalid commit manifest''"

definition manifest_entries :: "nat \<Rightarrow> bytes \<Rightarrow> (nat \<times> nat) list" where
  "manifest_entries number bytes =
     map (\<lambda>k. (u32_at bytes (12 * k), u64_at bytes (12 * k + 4))) [0..<number]"

text \<open>A listed page carries its recorded identity and, in a plaintext file, a body page type.\<close>

definition typed_page :: "bool \<Rightarrow> bytes \<Rightarrow> bool result" where
  "typed_page encrypted page =
     (if encrypted then Inr True
      else res_bind (parse_page page) (\<lambda>p. Inr (1 \<le> pg_type p \<and> pg_type p \<le> 7)))"

definition check_identity :: "bool \<Rightarrow> bytes \<Rightarrow> nat \<Rightarrow> unit result" where
  "check_identity encrypted page hash =
     (if unat (crc64_extend 0 page) \<noteq> hash then Inl bad_manifest
      else res_bind (typed_page encrypted page) (\<lambda>t. if t then Inr () else Inl bad_manifest))"

fun check_inline :: "reads \<Rightarrow> bool \<Rightarrow> nat \<Rightarrow> nat \<Rightarrow> (nat \<times> nat) list \<Rightarrow> nat \<Rightarrow> nat set \<Rightarrow> (nat \<times> nat set) result" where
  "check_inline read encrypted first pc [] prev protected = Inr (prev, protected)"
| "check_inline read encrypted first pc ((pid, hash) # es) prev protected =
     (if pid < first \<or> pid \<le> prev \<or> pid \<ge> pc then Inl bad_manifest
      else res_bind (read pid) (\<lambda>page.
           res_bind (check_identity encrypted page hash) (\<lambda>_.
             check_inline read encrypted first pc es pid (insert pid protected))))"

fun check_listed :: "reads \<Rightarrow> bool \<Rightarrow> nat \<Rightarrow> nat \<Rightarrow> (nat \<times> nat) list \<Rightarrow> nat \<Rightarrow> nat set \<Rightarrow> (nat \<times> nat set) result" where
  "check_listed read encrypted first pc [] prev protected = Inr (prev, protected)"
| "check_listed read encrypted first pc ((pid, hash) # es) prev protected =
     (if pid < first \<or> pid \<le> prev \<or> pid \<ge> pc \<or> pid \<in> protected then Inl bad_manifest
      else res_bind (read pid) (\<lambda>page.
           res_bind (check_identity encrypted page hash) (\<lambda>_.
             check_listed read encrypted first pc es pid (insert pid protected))))"

text \<open>The shape of an overflow page.\<close>

definition bad_overflow :: "bytes \<Rightarrow> bytes \<Rightarrow> page_view \<Rightarrow> nat \<Rightarrow> nat \<Rightarrow> bool" where
  "bad_overflow meta page p number ordinal \<longleftrightarrow>
     pg_type p \<noteq> PAGE_MANIFEST
     \<or> pg_item_count p \<noteq> number
     \<or> get_slice 1 3 page \<noteq> [0, 0, 0]
     \<or> u64_at page 16 \<noteq> u64_at meta 12
     \<or> u32_at page 24 \<noteq> ordinal
     \<or> u32_at page 28 \<noteq> 0
     \<or> list_ex (\<lambda>b. b \<noteq> 0) (drop (OVERFLOW_HEADER + number * ENTRY) page)"

record chain_state =
  ch_next :: nat
  ch_last :: nat
  ch_protected :: "nat set"
  ch_remaining :: nat
  ch_digest :: u64

fun check_chain :: "reads \<Rightarrow> bytes \<Rightarrow> bool \<Rightarrow> nat \<Rightarrow> nat \<Rightarrow> nat \<Rightarrow> nat \<Rightarrow> chain_state \<Rightarrow> chain_state result" where
  "check_chain read meta encrypted first pc ordinal 0 st = Inr st"
| "check_chain read meta encrypted first pc ordinal (Suc n) st =
     (let pid = ch_next st in
      if pid < first \<or> pid \<ge> pc \<or> pid = u32_at meta 20 \<or> pid = u32_at meta 28 \<or> pid \<in> ch_protected st
      then Inl bad_manifest
      else res_bind (read pid) (\<lambda>page.
        let digest = crc64_extend (crc64_extend (ch_digest st) (be_bytes 4 (int pid))) page in
        res_bind (parse_page page) (\<lambda>p.
          let number = min (ch_remaining st) ((length meta - OVERFLOW_HEADER) div ENTRY) in
          if bad_overflow meta page p number ordinal then Inl bad_manifest
          else res_bind (check_listed read encrypted first pc
                   (manifest_entries number (drop OVERFLOW_HEADER page)) (ch_last st)
                   (insert pid (ch_protected st))) (\<lambda>(prev, protected).
                 check_chain read meta encrypted first pc (Suc ordinal) n
                   \<lparr> ch_next = pg_next p, ch_last = prev, ch_protected = protected,
                     ch_remaining = ch_remaining st - number, ch_digest = digest \<rparr>))))"

definition bad_header :: "bytes \<Rightarrow> nat \<Rightarrow> bool" where
  "bad_header meta physical \<longleftrightarrow>
     (let pc = u32_at meta 24; count = u32_at meta 40; n = u32_at meta 44; next = u32_at meta 36;
          cap = cap_of (length meta) (meta ! 6 \<noteq> 0); first = first_body cap
      in pc > physical \<or> pc \<le> first \<or> count + n > pc - first
         \<or> list_ex (\<lambda>b. b \<noteq> 0) (get_slice 60 4 meta)
         \<or> (n = 0) \<noteq> (next = 0)
         \<or> (count = 0 \<and> (n \<noteq> 0 \<or> u64_at meta 48 \<noteq> 0))
         \<or> overflow_needed (length meta) cap count > n)"

text \<open>What the walk must end with.\<close>

definition bad_end :: "bytes \<Rightarrow> chain_state \<Rightarrow> bool" where
  "bad_end meta st \<longleftrightarrow>
     ch_next st \<noteq> 0 \<or> ch_remaining st \<noteq> 0 \<or> unat (ch_digest st) \<noteq> u64_at meta 48
     \<or> (u32_at meta 40 \<noteq> 0
        \<and> (u32_at meta 20 \<notin> ch_protected st
           \<or> (u32_at meta 28 \<noteq> 0 \<and> u32_at meta 28 \<notin> ch_protected st)))"

definition validate_inner :: "bytes \<Rightarrow> nat \<Rightarrow> reads \<Rightarrow> nat set result" where
  "validate_inner meta physical read =
     (let pc = u32_at meta 24; count = u32_at meta 40; n = u32_at meta 44; next = u32_at meta 36;
          encrypted = (meta ! 6 \<noteq> 0); cap = cap_of (length meta) encrypted; first = first_body cap;
          (lo, hi) = inline_area (length meta) encrypted;
          inline = min count ((hi - lo) div ENTRY);
          area = get_slice lo (hi - lo) meta
      in if bad_header meta physical then Inl bad_manifest
         else if list_ex (\<lambda>b. b \<noteq> 0) (drop (inline * ENTRY) area) then Inl bad_manifest
         else res_bind (check_inline read encrypted first pc (manifest_entries inline area) 1 {}) (\<lambda>(prev, protected).
           res_bind (check_chain read meta encrypted first pc 0 n
               \<lparr> ch_next = next, ch_last = prev, ch_protected = protected,
                 ch_remaining = count - inline, ch_digest = 0 \<rparr>) (\<lambda>st.
             if bad_end meta st then Inl bad_manifest else Inr (ch_protected st))))"

definition validate_manifest :: "bytes \<Rightarrow> nat \<Rightarrow> reads \<Rightarrow> nat set option result" where
  "validate_manifest meta physical read =
     (case validate_inner meta physical read of
        Inr ids \<Rightarrow> Inr (Some ids)
      | Inl e \<Rightarrow> if fst e = DataCorrupted then Inr None else Inl e)"

text \<open>The overflow chain a valid slot names, in chain order.\<close>

fun chain_loop :: "reads \<Rightarrow> nat \<Rightarrow> nat \<Rightarrow> (nat \<times> bytes) list result" where
  "chain_loop read next 0 = Inr []"
| "chain_loop read next (Suc n) =
     res_bind (read next) (\<lambda>page.
     res_bind (parse_page page) (\<lambda>p.
     res_bind (chain_loop read (pg_next p) n) (\<lambda>rest. Inr ((next, page) # rest))))"

definition chain_pages :: "bytes \<Rightarrow> reads \<Rightarrow> (nat \<times> bytes) list result" where
  "chain_pages meta read = chain_loop read (u32_at meta 36) (u32_at meta 44)"

section \<open>Auditing a manifest\<close>

fun audit_entries :: "reads \<Rightarrow> nat \<Rightarrow> nat \<Rightarrow> (nat \<times> nat) list \<Rightarrow> nat set \<Rightarrow> nat list \<Rightarrow> (nat set \<times> nat list) result" where
  "audit_entries read first physical [] protected bad = Inr (protected, bad)"
| "audit_entries read first physical ((pid, hash) # es) protected bad =
     (if pid < first \<or> pid \<ge> physical
      then audit_entries read first physical es (insert pid protected) (bad @ [pid])
      else res_bind (read pid) (\<lambda>page.
             audit_entries read first physical es (insert pid protected)
               (if unat (crc64_extend 0 page) \<noteq> hash then bad @ [pid] else bad)))"

text \<open>The walk of the chain: the last component tells whether it ended without a break.\<close>

fun audit_chain :: "reads \<Rightarrow> bytes \<Rightarrow> nat \<Rightarrow> nat \<Rightarrow> nat \<Rightarrow> nat \<Rightarrow> nat \<Rightarrow> u64 \<Rightarrow> nat set \<Rightarrow> nat list
    \<Rightarrow> (nat set \<times> nat list \<times> u64 \<times> bool) result" where
  "audit_chain read meta first physical 0 next remaining digest protected bad = Inr (protected, bad, digest, True)"
| "audit_chain read meta first physical (Suc n) next remaining digest protected bad =
     (if next < first \<or> next \<ge> physical \<or> next \<in> protected
      then Inr (protected, bad @ [next], digest, False)
      else res_bind (read next) (\<lambda>page.
        let digest = crc64_extend (crc64_extend digest (be_bytes 4 (int next))) page;
            number = min remaining ((length meta - OVERFLOW_HEADER) div ENTRY)
        in case parse_page page of
             Inl _ \<Rightarrow> Inr (insert next protected, bad @ [next], digest, False)
           | Inr p \<Rightarrow>
               if pg_type p = PAGE_MANIFEST \<and> pg_item_count p = number
               then res_bind (audit_entries read first physical
                        (manifest_entries number (drop OVERFLOW_HEADER page)) (insert next protected) bad) (\<lambda>(protected, bad).
                      audit_chain read meta first physical n (pg_next p) (remaining - number) digest protected bad)
               else Inr (insert next protected, bad @ [next], digest, False)))"

definition audit_manifest :: "bytes \<Rightarrow> nat \<Rightarrow> reads \<Rightarrow> (nat set \<times> nat list) result" where
  "audit_manifest meta physical read =
     (let encrypted = (meta ! 6 \<noteq> 0); first = first_body (cap_of (length meta) encrypted);
          count = u32_at meta 40; n = u32_at meta 44; head = u32_at meta 36;
          (lo, hi) = inline_area (length meta) encrypted;
          inline = min count ((hi - lo) div ENTRY)
      in res_bind (audit_entries read first physical
             (manifest_entries inline (get_slice lo (hi - lo) meta)) {} []) (\<lambda>(protected, bad).
         res_bind (audit_chain read meta first physical n head (count - inline) 0 protected bad) (\<lambda>(protected, bad, digest, chain_ok).
           Inr (protected, if chain_ok \<and> n > 0 \<and> unat digest \<noteq> u64_at meta 48 then bad @ [head] else bad))))"

end
