(* ===== verification/Commit_Laws.thy ===== *)
theory Commit_Laws
  imports Manifest
begin

text \<open>
  What the commit format promises: the validation of a slot depends on nothing but the slot and the
  pages it lists, so a commit that leaves those alone can never lose it; a fully written commit is
  accepted; and a listed page that is damaged is noticed.
\<close>

section \<open>Walking a manifest\<close>

text \<open>A list of entries that is accepted: ascending pages of the body, each with its identity.\<close>

definition entry_ok :: "reads \<Rightarrow> bool \<Rightarrow> nat \<Rightarrow> nat \<Rightarrow> nat \<times> nat \<Rightarrow> bool" where
  "entry_ok read encrypted first pc e \<longleftrightarrow>
     first \<le> fst e \<and> fst e < pc \<and> (\<exists>page. read (fst e) = Inr page \<and> check_identity encrypted page (snd e) = Inr ())"

lemma check_inline_iff:
  "check_inline read en first pc es l prot = Inr (l', prot') \<longleftrightarrow>
     sorted_wrt (<) (l # map fst es) \<and> list_all (entry_ok read en first pc) es
     \<and> l' = last (l # map fst es) \<and> prot' = prot \<union> fst ` set es"
proof (induction read en first pc es l prot rule: check_inline.induct)
  case (2 read en first pc pid hash es l prot)
  show ?case
  proof (cases "\<not> (pid < first \<or> pid \<le> l \<or> pid \<ge> pc) \<and> (\<exists>page. read pid = Inr page \<and> check_identity en page hash = Inr ())")
    case True
    then obtain page where "read pid = Inr page" "check_identity en page hash = Inr ()" by blast
    with True 2 show ?thesis by (auto simp: entry_ok_def intro: less_trans)
  next
    case False
    then show ?thesis by (auto simp: entry_ok_def)
  qed
qed auto

lemma check_listed_iff:
  "check_listed read en first pc es l prot = Inr (l', prot') \<longleftrightarrow>
     sorted_wrt (<) (l # map fst es) \<and> list_all (entry_ok read en first pc) es \<and> fst ` set es \<inter> prot = {}
     \<and> l' = last (l # map fst es) \<and> prot' = prot \<union> fst ` set es"
proof (induction read en first pc es l prot rule: check_listed.induct)
  case (2 read en first pc pid hash es l prot)
  show ?case
  proof (cases "\<not> (pid < first \<or> pid \<le> l \<or> pid \<ge> pc \<or> pid \<in> prot)
      \<and> (\<exists>page. read pid = Inr page \<and> check_identity en page hash = Inr ())")
    case True
    then obtain page where "read pid = Inr page" "check_identity en page hash = Inr ()" by blast
    with True 2 show ?thesis by (auto simp: entry_ok_def intro: less_trans)
  next
    case False
    then show ?thesis by (auto simp: entry_ok_def)
  qed
qed auto

lemma entry_ok_cong: "read' (fst e) = read (fst e) \<Longrightarrow> entry_ok read' en first pc e = entry_ok read en first pc e"
  by (simp add: entry_ok_def)

lemma check_listed_frame:
  assumes "check_listed read en first pc es l prot = Inr (l', prot')" "\<And>i. i \<in> prot' \<Longrightarrow> read' i = read i"
  shows "check_listed read' en first pc es l prot = Inr (l', prot')" "prot \<subseteq> prot'"
proof -
  have "list_all (entry_ok read' en first pc) es = list_all (entry_ok read en first pc) es"
    using assms unfolding check_listed_iff by (intro list_all_cong entry_ok_cong) auto
  then show "check_listed read' en first pc es l prot = Inr (l', prot')" "prot \<subseteq> prot'"
    using assms(1) unfolding check_listed_iff by auto
qed

lemma check_inline_frame:
  assumes "check_inline read en first pc es l prot = Inr (l', prot')" "\<And>i. i \<in> prot' \<Longrightarrow> read' i = read i"
  shows "check_inline read' en first pc es l prot = Inr (l', prot')" "prot \<subseteq> prot'"
proof -
  have "list_all (entry_ok read' en first pc) es = list_all (entry_ok read en first pc) es"
    using assms unfolding check_inline_iff by (intro list_all_cong entry_ok_cong) auto
  then show "check_inline read' en first pc es l prot = Inr (l', prot')" "prot \<subseteq> prot'"
    using assms(1) unfolding check_inline_iff by auto
qed

text \<open>One page of the chain.\<close>

definition chain_number :: "bytes \<Rightarrow> chain_state \<Rightarrow> nat" where
  "chain_number meta st = min (ch_remaining st) ((length meta - OVERFLOW_HEADER) div ENTRY)"

definition chain_step ::
    "reads \<Rightarrow> bytes \<Rightarrow> bool \<Rightarrow> nat \<Rightarrow> nat \<Rightarrow> nat \<Rightarrow> chain_state \<Rightarrow> bytes \<Rightarrow> page_view \<Rightarrow> chain_state \<Rightarrow> bool" where
  "chain_step read meta en first pc k st page p st' \<longleftrightarrow>
     \<not> (ch_next st < first \<or> ch_next st \<ge> pc \<or> ch_next st = u32_at meta 20 \<or> ch_next st = u32_at meta 28
        \<or> ch_next st \<in> ch_protected st)
     \<and> read (ch_next st) = Inr page \<and> parse_page page = Inr p
     \<and> \<not> bad_overflow meta page p (chain_number meta st) k
     \<and> check_listed read en first pc (manifest_entries (chain_number meta st) (drop OVERFLOW_HEADER page))
          (ch_last st) (insert (ch_next st) (ch_protected st)) = Inr (ch_last st', ch_protected st')
     \<and> ch_next st' = pg_next p \<and> ch_remaining st' = ch_remaining st - chain_number meta st
     \<and> ch_digest st' = crc64_extend (crc64_extend (ch_digest st) (be_bytes 4 (int (ch_next st)))) page"

lemma check_chain_Suc:
  "check_chain read meta en first pc k (Suc n) st = Inr st'' \<longleftrightarrow>
     (\<exists>page p st'. chain_step read meta en first pc k st page p st'
        \<and> check_chain read meta en first pc (Suc k) n st' = Inr st'')"
  (is "?l \<longleftrightarrow> ?r")
proof
  assume ?l
  then obtain page p l prot where c: "read (ch_next st) = Inr page" "parse_page page = Inr p"
    and g: "\<not> (ch_next st < first \<or> ch_next st \<ge> pc \<or> ch_next st = u32_at meta 20 \<or> ch_next st = u32_at meta 28
        \<or> ch_next st \<in> ch_protected st)" "\<not> bad_overflow meta page p (chain_number meta st) k"
    and l: "check_listed read en first pc (manifest_entries (chain_number meta st) (drop OVERFLOW_HEADER page))
          (ch_last st) (insert (ch_next st) (ch_protected st)) = Inr (l, prot)"
    and r: "check_chain read meta en first pc (Suc k) n \<lparr> ch_next = pg_next p, ch_last = l, ch_protected = prot,
        ch_remaining = ch_remaining st - chain_number meta st,
        ch_digest = crc64_extend (crc64_extend (ch_digest st) (be_bytes 4 (int (ch_next st)))) page \<rparr> = Inr st''"
    by (auto simp: Let_def chain_number_def [symmetric] split: if_splits)
  let ?st = "\<lparr> ch_next = pg_next p, ch_last = l, ch_protected = prot,
        ch_remaining = ch_remaining st - chain_number meta st,
        ch_digest = crc64_extend (crc64_extend (ch_digest st) (be_bytes 4 (int (ch_next st)))) page \<rparr>"
  have "chain_step read meta en first pc k st page p ?st" using c g l unfolding chain_step_def by simp
  then show ?r using r by blast
next
  assume ?r
  then obtain page p st' where s: "chain_step read meta en first pc k st page p st'"
    and r: "check_chain read meta en first pc (Suc k) n st' = Inr st''" by blast
  have eq: "st' = \<lparr> ch_next = pg_next p, ch_last = ch_last st', ch_protected = ch_protected st',
        ch_remaining = ch_remaining st - chain_number meta st,
        ch_digest = crc64_extend (crc64_extend (ch_digest st) (be_bytes 4 (int (ch_next st)))) page \<rparr>"
    using s by (cases st') (simp add: chain_step_def)
  show ?l using s r by (simp add: chain_step_def Let_def chain_number_def [symmetric] eq [symmetric])
qed

declare check_chain.simps(2) [simp del]

lemma chain_step_grows:
  "chain_step read meta en first pc k st page p st' \<Longrightarrow> insert (ch_next st) (ch_protected st) \<subseteq> ch_protected st'"
  by (auto simp: chain_step_def check_listed_iff)

lemma check_chain_grows:
  "check_chain read meta en first pc k n st = Inr st' \<Longrightarrow> ch_protected st \<subseteq> ch_protected st'"
proof (induction n arbitrary: k st)
  case (Suc n)
  then show ?case using chain_step_grows unfolding check_chain_Suc by blast
qed simp

lemma chain_step_frame:
  assumes "chain_step read meta en first pc k st page p st'" "\<And>i. i \<in> ch_protected st' \<Longrightarrow> read' i = read i"
  shows "chain_step read' meta en first pc k st page p st'"
proof -
  have l: "check_listed read en first pc (manifest_entries (chain_number meta st) (drop OVERFLOW_HEADER page))
      (ch_last st) (insert (ch_next st) (ch_protected st)) = Inr (ch_last st', ch_protected st')"
    using assms(1) by (simp add: chain_step_def)
  have "read' (ch_next st) = read (ch_next st)" using chain_step_grows [OF assms(1)] assms(2) by blast
  then show ?thesis using assms(1) check_listed_frame(1) [OF l assms(2)] unfolding chain_step_def by simp
qed

lemma check_chain_frame:
  "check_chain read meta en first pc k n st = Inr st' \<Longrightarrow> (\<And>i. i \<in> ch_protected st' \<Longrightarrow> read' i = read i)
   \<Longrightarrow> check_chain read' meta en first pc k n st = Inr st'"
proof (induction n arbitrary: k st)
  case (Suc n)
  from Suc.prems(1) obtain page p s where s: "chain_step read meta en first pc k st page p s"
    and c: "check_chain read meta en first pc (Suc k) n s = Inr st'"
    unfolding check_chain_Suc by blast
  have "chain_step read' meta en first pc k st page p s"
    using chain_step_frame [OF s] check_chain_grows [OF c] Suc.prems(2) by blast
  then show ?case using Suc.IH [OF c Suc.prems(2)] unfolding check_chain_Suc by blast
qed simp

section \<open>Validation\<close>

lemma bad_header_grows:
  "\<not> bad_header meta physical \<Longrightarrow> physical \<le> physical' \<Longrightarrow> \<not> bad_header meta physical'"
  by (auto simp: bad_header_def Let_def)

lemma validate_inner_frame:
  assumes "validate_inner meta physical read = Inr prot"
    and "physical \<le> physical'" "\<And>i. i \<in> prot \<Longrightarrow> read' i = read i"
  shows "validate_inner meta physical' read' = Inr prot"
proof -
  obtain lo hi where a: "inline_area (length meta) (meta ! 6 \<noteq> 0) = (lo, hi)" by fastforce
  let ?en = "meta ! 6 \<noteq> 0" and ?pc = "u32_at meta 24" and ?n = "u32_at meta 44"
  let ?first = "first_body (cap_of (length meta) ?en)"
  let ?inline = "min (u32_at meta 40) ((hi - lo) div ENTRY)" and ?area = "get_slice lo (hi - lo) meta"
  from assms(1) obtain l p st where
    h: "\<not> bad_header meta physical" "\<not> list_ex (\<lambda>b. b \<noteq> 0) (drop (?inline * ENTRY) ?area)"
    and i: "check_inline read ?en ?first ?pc (manifest_entries ?inline ?area) 1 {} = Inr (l, p)"
    and c: "check_chain read meta ?en ?first ?pc 0 ?n \<lparr> ch_next = u32_at meta 36, ch_last = l, ch_protected = p,
                 ch_remaining = u32_at meta 40 - ?inline, ch_digest = 0 \<rparr> = Inr st"
    and e: "\<not> bad_end meta st" "ch_protected st = prot"
    by (auto simp: validate_inner_def Let_def a split: if_splits)
  have "p \<subseteq> prot" using check_chain_grows [OF c] e by simp
  then have "check_inline read' ?en ?first ?pc (manifest_entries ?inline ?area) 1 {} = Inr (l, p)"
    using check_inline_frame(1) [OF i] assms(3) by blast
  moreover have "check_chain read' meta ?en ?first ?pc 0 ?n \<lparr> ch_next = u32_at meta 36, ch_last = l, ch_protected = p,
                 ch_remaining = u32_at meta 40 - ?inline, ch_digest = 0 \<rparr> = Inr st"
    using check_chain_frame [OF c] e assms(3) by simp
  ultimately show ?thesis
    using h e bad_header_grows [OF h(1) assms(2)] by (simp add: validate_inner_def Let_def a)
qed

lemma validate_manifest_Some:
  "validate_manifest meta physical read = Inr (Some prot) \<longleftrightarrow> validate_inner meta physical read = Inr prot"
  by (auto simp: validate_manifest_def split: sum.splits)

section \<open>Failing reads\<close>

text \<open>An error is a finding of corruption or the error of a read below \<open>bound\<close>.\<close>

definition blamed :: "reads \<Rightarrow> nat \<Rightarrow> 'a result \<Rightarrow> bool" where
  "blamed read bound r \<longleftrightarrow> (\<forall>e. r = Inl e \<longrightarrow> fst e = DataCorrupted \<or> (\<exists>i<bound. read i = Inl e))"

lemma blamed_simps [simp]:
  "blamed read bound (Inr x)" "blamed read bound (Inl bad_manifest)" "blamed read bound (check_identity en page h)"
  "blamed read bound (parse_page page)" "i < bound \<Longrightarrow> blamed read bound (read i)"
  by (auto simp: blamed_def check_identity_def typed_page_def bad_manifest_def corrupt_page_def parse_page_def
      split: if_splits)

lemma blamed_bind:
  "blamed read bound r \<Longrightarrow> (\<And>a. r = Inr a \<Longrightarrow> blamed read bound (f a)) \<Longrightarrow> blamed read bound (res_bind r f)"
  by (cases r) (auto simp: blamed_def)

lemma blamed_mono: "blamed read bound r \<Longrightarrow> bound \<le> bound' \<Longrightarrow> blamed read bound' r"
  unfolding blamed_def using order_less_le_trans by blast

lemma check_inline_blamed: "blamed read pc (check_inline read en first pc es l prot)"
proof (induction es arbitrary: l prot)
  case (Cons e es)
  then show ?case by (cases e) (auto intro!: blamed_bind)
qed simp

lemma check_listed_blamed: "blamed read pc (check_listed read en first pc es l prot)"
proof (induction es arbitrary: l prot)
  case (Cons e es)
  then show ?case by (cases e) (auto intro!: blamed_bind)
qed simp

lemma check_chain_blamed: "blamed read pc (check_chain read meta en first pc k n st)"
proof (induction n arbitrary: k st)
  case (Suc n)
  then show ?case
    using check_listed_blamed
    by (auto simp: check_chain.simps(2) Let_def split: prod.splits intro!: blamed_bind)
qed simp

lemma validate_inner_blamed: "blamed read physical (validate_inner meta physical read)"
proof (cases "bad_header meta physical")
  case True
  then show ?thesis by (simp add: validate_inner_def Let_def split: prod.splits)
next
  case False
  then have "u32_at meta 24 \<le> physical" by (simp add: bad_header_def Let_def)
  then show ?thesis
    using blamed_mono [OF check_inline_blamed] blamed_mono [OF check_chain_blamed]
    by (auto simp: validate_inner_def Let_def split: prod.splits intro!: blamed_bind)
qed

lemma validate_error: "validate_manifest meta physical read = Inl e \<Longrightarrow> \<exists>i<physical. read i = Inl e"
  using validate_inner_blamed [of read physical meta]
  by (auto simp: validate_manifest_def blamed_def split: sum.splits if_splits)

lemma validate_total:
  assumes "\<And>i. i < physical \<Longrightarrow> \<exists>page. read i = Inr page"
  obtains r where "validate_manifest meta physical read = Inr r"
proof (cases "validate_manifest meta physical read")
  case (Inl e)
  from validate_error [OF this] show thesis using assms by fastforce
qed (rule that)

section \<open>The chain of a valid slot\<close>

lemma chain_loop_frame:
  "check_chain read meta en first pc k n st = Inr st' \<Longrightarrow> (\<And>i. i \<in> ch_protected st' \<Longrightarrow> read' i = read i)
   \<Longrightarrow> chain_loop read' (ch_next st) n = chain_loop read (ch_next st) n"
proof (induction n arbitrary: k st)
  case (Suc n)
  from Suc.prems(1) obtain page p s where s: "chain_step read meta en first pc k st page p s"
    and c: "check_chain read meta en first pc (Suc k) n s = Inr st'" unfolding check_chain_Suc by blast
  have "read' (ch_next st) = read (ch_next st)"
    using chain_step_grows [OF s] check_chain_grows [OF c] Suc.prems(2) by blast
  then show ?case using s Suc.IH [OF c Suc.prems(2)] by (simp add: chain_step_def)
qed simp

lemma chain_pages_frame:
  assumes "validate_inner meta physical read = Inr prot" "\<And>i. i \<in> prot \<Longrightarrow> read' i = read i"
  shows "chain_pages meta read' = chain_pages meta read"
proof -
  obtain lo hi where a: "inline_area (length meta) (meta ! 6 \<noteq> 0) = (lo, hi)" by fastforce
  from assms(1) obtain en first pc l p r st where
    c: "check_chain read meta en first pc 0 (u32_at meta 44) \<lparr> ch_next = u32_at meta 36, ch_last = l,
          ch_protected = p, ch_remaining = r, ch_digest = 0 \<rparr> = Inr st" "ch_protected st = prot"
    by (auto simp: validate_inner_def Let_def a split: if_splits)
  show ?thesis using chain_loop_frame [OF c(1), of read'] c(2) assms(2) by (simp add: chain_pages_def)
qed

end
