(* ===== verification/Commit_Write.thy ===== *)
theory Commit_Write
  imports Commit_Laws
begin

text \<open>
  What a commit writes is what an open accepts: the pages and the meta slot that \<open>make_page\<close>,
  \<open>meta_page\<close> and \<open>encode_manifest\<close> produce parse back, and the manifest validates.
\<close>

section \<open>Reading across writes\<close>

lemma u_at_other [slices]:
  "at + length bs \<le> length p \<Longrightarrow> a + 2 \<le> at \<or> at + length bs \<le> a \<Longrightarrow> u16_at (put_slice at bs p) a = u16_at p a"
  "at + length bs \<le> length p \<Longrightarrow> a + 4 \<le> at \<or> at + length bs \<le> a \<Longrightarrow> u32_at (put_slice at bs p) a = u32_at p a"
  "at + length bs \<le> length p \<Longrightarrow> a + 8 \<le> at \<or> at + length bs \<le> a \<Longrightarrow> u64_at (put_slice at bs p) a = u64_at p a"
  by (simp_all add: u16_at_def u32_at_def u64_at_def get_put_other)

lemma take_put_slice [slices]: "at + length bs \<le> length p \<Longrightarrow> k \<le> at \<Longrightarrow> take k (put_slice at bs p) = take k p"
  by (simp add: put_slice_def min_def)

lemma drop_put_slice [slices]:
  "at + length bs \<le> length p \<Longrightarrow> at + length bs \<le> k \<Longrightarrow> drop k (put_slice at bs p) = drop k p"
  by (simp add: put_slice_def)

lemma drop_put_at: "at + length bs \<le> length p \<Longrightarrow> drop at (put_slice at bs p) = bs @ drop (at + length bs) p"
  by (simp add: put_slice_def)

lemma get_slice_drop: "get_slice (a + k) n p = get_slice k n (drop a p)"
  by (simp add: get_slice_def add.commute)

lemma word_be_bytes [slices]: "word_of_int (be_val (be_bytes 4 (uint (w :: u32)))) = w"
proof -
  have "uint w < 256 ^ 4" using uint_lt2p [of w] by simp
  then show ?thesis by simp
qed

lemma length_make:
  "length (stamp_crc p) = length p" if "16 \<le> length p"
  using that by (simp add: stamp_crc_def length_put_slice)

section \<open>Body pages\<close>

lemma page_crc_stamp: "16 \<le> length p \<Longrightarrow> page_crc (stamp_crc p) = page_crc p"
  by (simp add: page_crc_def stamp_crc_def PAGE_HEADER_def slices)

lemma make_page_bytes:
  assumes "make_page ps t c n payload = Some page" "c < 2 ^ 32" "n < 2 ^ 32"
  shows "length page = ps" "16 + length payload \<le> ps"
    "parse_page page = Inr \<lparr> pg_type = t, pg_flags = 0, pg_item_count = c, pg_next = n, pg_payload = drop 16 page \<rparr>"
    "get_slice 1 3 page = [0, 0, 0]" "drop 16 page = payload @ replicate (ps - 16 - length payload) 0"
proof -
  define q where "q = put_slice 8 (be_bytes 4 (int n)) (put_slice 4 (be_bytes 4 (int c)) ((replicate ps 0)[0 := t]))"
  define p where "p = put_slice 16 payload q"
  show le: "16 + length payload \<le> ps" using assms(1) by (auto simp: make_page_def PAGE_HEADER_def split: if_splits)
  have page: "page = stamp_crc p"
    using assms(1) by (simp add: make_page_def PAGE_HEADER_def Let_def p_def q_def split: if_splits)
  have lq: "length q = ps" using le by (simp add: q_def length_put_slice)
  have lp: "length p = ps" using le lq by (simp add: p_def length_put_slice)
  have z: "drop (16 + length payload) q = replicate (ps - 16 - length payload) 0"
    using le by (simp add: q_def slices)
  show "length page = ps" using le lp by (simp add: page length_make)
  have crc: "page_crc page = word_of_int (be_val (get_slice 12 4 page))"
    unfolding page page_crc_stamp [of p] using le lp by (simp add: page_crc_stamp) (simp add: stamp_crc_def slices)
  have f: "page ! 0 = t" "page ! 1 = 0" "u32_at page 4 = c" "u32_at page 8 = n" "get_slice 1 3 page = replicate 3 0"
    using le lp lq assms(2,3) by (simp_all add: page stamp_crc_def p_def q_def slices get_slice_zeros)
  then show "get_slice 1 3 page = [0, 0, 0]" by (simp add: numeral_3_eq_3)
  show "drop 16 page = payload @ replicate (ps - 16 - length payload) 0"
    using le lp lq z by (simp add: page stamp_crc_def slices p_def drop_put_at)
  show "parse_page page = Inr \<lparr> pg_type = t, pg_flags = 0, pg_item_count = c, pg_next = n, pg_payload = drop 16 page \<rparr>"
    using le \<open>length page = ps\<close> crc f by (simp add: parse_page_def PAGE_HEADER_def)
qed

lemma make_page_ok: "16 + length payload \<le> ps \<Longrightarrow> \<exists>page. make_page ps t c n payload = Some page"
  by (simp add: make_page_def PAGE_HEADER_def)

section \<open>Meta slots\<close>

lemma meta_crc_stamp: "36 \<le> length p \<Longrightarrow> meta_crc (stamp_meta p) = meta_crc p"
  by (simp add: meta_crc_def stamp_meta_def slices)

text \<open>The fields of a plaintext meta page.\<close>

definition plain_meta :: "nat \<Rightarrow> nat \<Rightarrow> nat \<Rightarrow> nat \<Rightarrow> nat \<Rightarrow> nat \<Rightarrow> bytes \<Rightarrow> bool" where
  "plain_meta ps txid root pc free live m \<longleftrightarrow>
     length m = ps \<and> get_slice 0 4 m = MAGIC \<and> u16_at m 4 = FORMAT_VERSION \<and> m ! 6 = 0 \<and> m ! 7 = 0
     \<and> u32_at m 8 = ps \<and> get_slice 12 8 m = be_bytes 8 (int txid) \<and> u32_at m 20 = root \<and> u32_at m 24 = pc
     \<and> u32_at m 28 = free \<and> u32_at m 56 = live \<and> get_slice 60 4 m = replicate 4 0"

lemma plain_meta_put:
  assumes "plain_meta ps txid root pc free live m" "64 \<le> ps" "at + length bs \<le> ps"
    and "36 \<le> at \<and> at + length bs \<le> 56 \<or> 64 \<le> at \<or> at = 32 \<and> length bs = 4"
  shows "plain_meta ps txid root pc free live (put_slice at bs m)"
  using assms unfolding plain_meta_def by (auto simp: slices get_put_other)

lemma meta_page_plain:
  assumes mp: "meta_page (cap_plain ps) ps txid root pc free live = Some m"
    and "64 \<le> ps" "ps < 2 ^ 32" "txid < 2 ^ 64" "pr_page root < 2 ^ 32" "pc < 2 ^ 32" "pr_page free < 2 ^ 32" "live < 2 ^ 32"
  shows "plain_meta ps txid (pr_page root) pc (pr_page free) live m" "drop 64 m = replicate (ps - 64) 0"
proof -
  have m: "m = stamp_meta (put_slice 56 (be_bytes 4 (int live)) (put_slice 28 (be_bytes 4 (int (pr_page free)))
      (put_slice 24 (be_bytes 4 (int pc)) (put_slice 20 (be_bytes 4 (int (pr_page root))) (put_slice 12 (be_bytes 8 (int txid))
      (put_slice 8 (be_bytes 4 (int ps)) (put_slice 4 (be_bytes 2 (int FORMAT_VERSION)) (put_slice 0 MAGIC (replicate ps 0)))))))))"
    using mp assms(2) by (simp add: meta_page_def cap_plain_def encrypted_variant_def Let_def)
  have M: "length MAGIC = 4" by (simp add: MAGIC_def)
  have V: "FORMAT_VERSION < 65536" by (simp add: FORMAT_VERSION_def)
  show "plain_meta ps txid (pr_page root) pc (pr_page free) live m"
    unfolding plain_meta_def m stamp_meta_def using assms M V
    by (simp add: slices get_slice_zeros)
  show "drop 64 m = replicate (ps - 64) 0"
    unfolding m stamp_meta_def using assms M by (simp add: slices)
qed

lemma parse_plain_meta:
  assumes m: "plain_meta ps txid root pc free live m" and "64 \<le> ps" "txid < 2 ^ 64"
    and "meta_crc m = word_of_int (be_val (get_slice 32 4 m))"
    and "2 \<le> root" "root < pc" "free \<noteq> 0 \<Longrightarrow> 2 \<le> free \<and> free < pc" "live \<le> pc - 2"
  shows "parse_meta m = Some \<lparr> mt_suite = 0, mt_txid = txid, mt_root_page = root, mt_root_tag = NO_TAG,
    mt_free_list_tag = NO_TAG, mt_page_count = pc, mt_free_list_head = free, mt_live_pages = live, mt_protected = {} \<rparr>"
proof -
  have "u64_at m 12 = txid" using m assms(3) by (simp add: plain_meta_def u64_at_def nat_be_bytes)
  then show ?thesis using m assms
    by (auto simp: parse_meta_def plain_meta_def parse_suite_def tag_at_def ROOT_PAGE_def)
qed

section \<open>Entries\<close>

definition entry_pair :: "manifest_entry \<Rightarrow> nat \<times> nat" where
  "entry_pair e = (fst e, unat (snd e))"

lemma length_entry_bytes [simp]: "length (entry_bytes e) = 12"
  by (simp add: entry_bytes_def split: prod.split)

lemma length_put_entries [simp]: "length (put_entries es) = 12 * length es"
  by (induction es) (simp_all add: put_entries_def)

lemma manifest_entries_Suc:
  assumes "length x = 12"
  shows "manifest_entries (Suc n) (x @ b) = (u32_at x 0, u64_at x 4) # manifest_entries n b"
proof -
  have "u32_at (x @ b) (12 * Suc k) = u32_at b (12 * k)" "u64_at (x @ b) (12 * Suc k + 4) = u64_at b (12 * k + 4)" for k
    using assms by (simp_all add: u32_at_def u64_at_def get_slice_def add.commute)
  moreover have "u32_at (x @ b) 0 = u32_at x 0" "u64_at (x @ b) 4 = u64_at x 4"
    using assms by (simp_all add: u32_at_def u64_at_def get_slice_def)
  moreover have "[0..<Suc n] = 0 # map Suc [0..<n]" by (simp add: upt_conv_Cons map_Suc_upt del: upt_Suc)
  ultimately show ?thesis by (simp add: manifest_entries_def del: upt_Suc)
qed

lemma entry_bytes_at:
  assumes "fst e < 2 ^ 32"
  shows "u32_at (entry_bytes e) 0 = fst e" "u64_at (entry_bytes e) 4 = unat (snd e)"
proof -
  obtain i h where e: "e = (i, h)" by (cases e)
  have h: "uint h < 256 ^ 8" using uint_lt2p [of h] by simp
  show "u32_at (entry_bytes e) 0 = fst e"
    using assms by (simp add: e entry_bytes_def u32_at_def get_slice_def nat_be_bytes)
  show "u64_at (entry_bytes e) 4 = unat (snd e)"
    using h by (simp add: e entry_bytes_def u64_at_def get_slice_def)
qed

lemma manifest_entries_put:
  "\<forall>e\<in>set es. fst e < 2 ^ 32 \<Longrightarrow> manifest_entries (length es) (put_entries es @ rest) = map entry_pair es"
proof (induction es)
  case (Cons e es)
  have "put_entries (e # es) @ rest = entry_bytes e @ (put_entries es @ rest)" by (simp add: put_entries_def)
  then show ?case
    using Cons manifest_entries_Suc [of "entry_bytes e" "length es" "put_entries es @ rest"] entry_bytes_at [of e]
    by (simp add: entry_pair_def)
qed (simp add: manifest_entries_def)

lemma be_val_zeros: "be_val (replicate n 0) = 0"
  by (induction n) (simp_all add: be_val_def)

section \<open>The chain\<close>

definition ids_head :: "nat list \<Rightarrow> nat" where
  "ids_head ids = (case ids of [] \<Rightarrow> 0 | n # _ \<Rightarrow> n)"

lemma chain_page_ok:
  assumes mk: "make_page ps PAGE_MANIFEST (length part) nxt
      (be_bytes 8 (int txid) @ be_bytes 4 (int k) @ replicate 4 0 @ put_entries part) = Some page"
    and m: "length meta = ps" "get_slice 12 8 meta = be_bytes 8 (int txid)"
    and b: "length part < 2 ^ 32" "nxt < 2 ^ 32" "k < 2 ^ 32" "\<forall>e\<in>set part. fst e < 2 ^ 32"
  obtains p where "parse_page page = Inr p" "pg_next p = nxt"
    "\<not> bad_overflow meta page p (length part) k"
    "manifest_entries (length part) (drop OVERFLOW_HEADER page) = map entry_pair part"
proof -
  let ?payload = "be_bytes 8 (int txid) @ be_bytes 4 (int k) @ replicate 4 0 @ put_entries part"
  note P = make_page_bytes [OF mk b(1,2)]
  define z where "z = replicate (ps - 16 - length ?payload) (0 :: u8)"
  have d16: "drop 16 page = ?payload @ z" using P(5) by (simp add: z_def)
  have "get_slice (16 + 0) 8 page = be_bytes 8 (int txid)" "get_slice (16 + 8) 4 page = be_bytes 4 (int k)"
    "get_slice (16 + 12) 4 page = replicate 4 0"
    unfolding get_slice_drop d16 by (simp_all add: get_slice_def)
  then have s: "get_slice 16 8 page = be_bytes 8 (int txid)" "u32_at page 24 = k" "u32_at page 28 = 0"
    using b(3) by (simp_all add: u32_at_def nat_be_bytes be_val_zeros)
  have d32: "drop OVERFLOW_HEADER page = put_entries part @ z"
  proof -
    have "drop OVERFLOW_HEADER page = drop 16 (drop 16 page)" by (simp add: OVERFLOW_HEADER_def)
    then show ?thesis unfolding d16 by simp
  qed
  have "drop (OVERFLOW_HEADER + length part * ENTRY) page = drop (length part * ENTRY) (drop OVERFLOW_HEADER page)"
    by (simp add: add.commute)
  also have "\<dots> = z" unfolding d32 by (simp add: ENTRY_def)
  finally have "drop (OVERFLOW_HEADER + length part * ENTRY) page = z" .
  then have zs: "\<not> list_ex (\<lambda>b. b \<noteq> 0) (drop (OVERFLOW_HEADER + length part * ENTRY) page)"
    by (simp add: z_def list_ex_iff)
  have u: "u64_at page 16 = u64_at meta 12" using s(1) m(2) by (simp only: u64_at_def)
  define p where "p = \<lparr> pg_type = PAGE_MANIFEST, pg_flags = 0, pg_item_count = length part, pg_next = nxt,
      pg_payload = drop 16 page \<rparr>"
  have sel: "pg_type p = PAGE_MANIFEST" "pg_item_count p = length part" "pg_next p = nxt" by (simp_all add: p_def)
  have nb: "\<not> bad_overflow meta page p (length part) k"
    unfolding bad_overflow_def sel P(4) s(2,3) u using zs by simp
  show thesis
    by (rule that [OF P(3) [folded p_def] sel(3) nb]) (unfold d32, rule manifest_entries_put [OF b(4)])
qed

lemma sorted_last: "sorted_wrt (<) (l # xs @ ys) \<Longrightarrow> sorted_wrt (<) (last (l # xs) # ys)"
  by (cases xs rule: rev_cases) (auto simp: sorted_wrt_append)

text \<open>The entries that are left from overflow page \<open>k\<close> on.\<close>

definition entries_from :: "nat \<Rightarrow> manifest_entry list \<Rightarrow> nat \<Rightarrow> manifest_entry list" where
  "entries_from ps es k = drop (k * ((ps - OVERFLOW_HEADER) div ENTRY)) es"

text \<open>What is left to check fits what was written.\<close>

definition chain_fits :: "reads \<Rightarrow> nat \<Rightarrow> nat \<Rightarrow> manifest_entry list \<Rightarrow> nat \<Rightarrow> nat list \<Rightarrow> chain_state \<Rightarrow> bool" where
  "chain_fits read ps pc es k ids st \<longleftrightarrow>
     ch_next st = ids_head ids \<and> ch_remaining st = length (entries_from ps es k)
     \<and> sorted_wrt (<) (ch_last st # map fst (entries_from ps es k))
     \<and> list_all (\<lambda>e. entry_ok read False 2 pc (entry_pair e)) (entries_from ps es k)
     \<and> fst ` set (entries_from ps es k) \<inter> (ch_protected st \<union> set ids) = {}
     \<and> distinct ids \<and> set ids \<inter> ch_protected st = {}
     \<and> length (entries_from ps es k) \<le> ((ps - OVERFLOW_HEADER) div ENTRY) * length ids"

lemma entries_from_Suc: "entries_from ps es (Suc k) = drop ((ps - OVERFLOW_HEADER) div ENTRY) (entries_from ps es k)"
  by (simp add: entries_from_def add.commute)

lemma chain_step_written:
  assumes fits: "chain_fits read ps pc es k (i # ids) st"
    and m: "length meta = ps" "get_slice 12 8 meta = be_bytes 8 (int txid)"
    and ps: "64 \<le> ps" "ps < 2 ^ 32" "k < 2 ^ 32" "pc < 2 ^ 32"
    and i: "2 \<le> i" "i < pc" "i \<noteq> u32_at meta 20" "i \<noteq> u32_at meta 28" "ids_head ids < 2 ^ 32"
    and mk: "make_page ps PAGE_MANIFEST (length (take ((ps - OVERFLOW_HEADER) div ENTRY) (entries_from ps es k))) (ids_head ids)
      (be_bytes 8 (int txid) @ be_bytes 4 (int k) @ replicate 4 0
        @ put_entries (take ((ps - OVERFLOW_HEADER) div ENTRY) (entries_from ps es k))) = Some page"
    and rd: "read i = Inr page"
  obtains p st' where "chain_step read meta False 2 pc k st page p st'" "chain_fits read ps pc es (Suc k) ids st'"
    "ch_digest st' = crc64_extend (crc64_extend (ch_digest st) (be_bytes 4 (int i))) page"
    "ch_protected st' = insert i (ch_protected st \<union> fst ` set (take ((ps - OVERFLOW_HEADER) div ENTRY) (entries_from ps es k)))"
proof -
  define per where "per = (ps - OVERFLOW_HEADER) div ENTRY"
  define part where "part = take per (entries_from ps es k)"
  note fits' = fits [unfolded chain_fits_def]
  have split: "entries_from ps es k = part @ entries_from ps es (Suc k)"
    by (simp add: part_def entries_from_Suc per_def)
  have num: "chain_number meta st = length part"
    using fits' m(1) by (simp add: chain_number_def part_def per_def)
  have "per \<le> ps" by (simp add: per_def ENTRY_def OVERFLOW_HEADER_def)
  then have lp: "length part < 2 ^ 32" using ps(2) by (simp add: part_def)
  have ok: "list_all (\<lambda>e. entry_ok read False 2 pc (entry_pair e)) part"
    "list_all (\<lambda>e. entry_ok read False 2 pc (entry_pair e)) (entries_from ps es (Suc k))"
    using fits' unfolding split by simp_all
  then have small: "\<forall>e\<in>set part. fst e < 2 ^ 32"
    using ps(4) by (auto simp: list_all_iff entry_ok_def entry_pair_def)
  obtain p where p: "parse_page page = Inr p" "pg_next p = ids_head ids" "\<not> bad_overflow meta page p (length part) k"
    "manifest_entries (length part) (drop OVERFLOW_HEADER page) = map entry_pair part"
    by (rule chain_page_ok [OF mk [folded per_def, folded part_def] m lp i(5) ps(3) small])
  have fp: "map fst (map entry_pair part) = map fst part" "fst ` set (map entry_pair part) = fst ` set part"
    by (simp_all add: entry_pair_def image_image)
  have sorted: "sorted_wrt (<) (ch_last st # map fst part @ map fst (entries_from ps es (Suc k)))"
    using fits' unfolding split by simp
  then have sp: "sorted_wrt (<) (ch_last st # map fst part)" by (simp add: sorted_wrt_append)
  have dj: "fst ` set part \<inter> insert i (ch_protected st) = {}" using fits' unfolding split by auto
  have l: "check_listed read False 2 pc (manifest_entries (length part) (drop OVERFLOW_HEADER page))
      (ch_last st) (insert i (ch_protected st))
    = Inr (last (ch_last st # map fst part), insert i (ch_protected st) \<union> fst ` set part)"
    unfolding p(4) check_listed_iff fp using sp ok(1) dj by (simp add: list_all_iff)
  define st' where "st' = \<lparr> ch_next = ids_head ids, ch_last = last (ch_last st # map fst part),
      ch_protected = insert i (ch_protected st) \<union> fst ` set part, ch_remaining = ch_remaining st - length part,
      ch_digest = crc64_extend (crc64_extend (ch_digest st) (be_bytes 4 (int i))) page \<rparr>"
  have nxt: "ch_next st = i" using fits' by (simp add: ids_head_def)
  have s: "chain_step read meta False 2 pc k st page p st'"
    using l p i rd fits' unfolding chain_step_def num nxt by (simp add: st'_def ids_head_def)
  have len: "length (entries_from ps es k) = length part + length (entries_from ps es (Suc k))"
    by (simp add: split)
  have room: "length (entries_from ps es (Suc k)) \<le> per * length ids"
  proof -
    have "length (entries_from ps es k) \<le> per + per * length ids" using fits' by (simp add: per_def)
    then show ?thesis by (simp add: entries_from_Suc per_def [symmetric])
  qed
  have "set part \<inter> set (entries_from ps es (Suc k)) = {} \<and> fst ` set part \<inter> fst ` set (entries_from ps es (Suc k)) = {}"
    using sorted by (fastforce simp: sorted_wrt_append)
  then have "fst ` set (entries_from ps es (Suc k)) \<inter> (ch_protected st' \<union> set ids) = {}"
    using fits' unfolding split by (auto simp: st'_def)
  moreover have "set ids \<inter> ch_protected st' = {}" using fits' unfolding split by (auto simp: st'_def)
  ultimately have "chain_fits read ps pc es (Suc k) ids st'"
    using sorted_last [OF sorted] ok(2) fits' len room
    unfolding chain_fits_def by (simp add: st'_def per_def)
  then show thesis using that [OF s] by (simp add: st'_def per_def part_def Un_commute)
qed

lemma check_chain_written:
  assumes m: "length meta = ps" "get_slice 12 8 meta = be_bytes 8 (int txid)"
    and ps: "64 \<le> ps" "ps < 2 ^ 32" "pc < 2 ^ 32"
  shows "chain_fits read ps pc es k ids st \<Longrightarrow> k + length ids < 2 ^ 32
    \<Longrightarrow> (\<And>i. i \<in> set ids \<Longrightarrow> 2 \<le> i \<and> i < pc \<and> i \<noteq> u32_at meta 20 \<and> i \<noteq> u32_at meta 28)
    \<Longrightarrow> encode_overflow ps (be_bytes 8 (int txid)) es k ids (ch_digest st) = Some (pages, digest)
    \<Longrightarrow> (\<And>i page. (i, page) \<in> set pages \<Longrightarrow> read i = Inr page)
    \<Longrightarrow> \<exists>st'. check_chain read meta False 2 pc k (length ids) st = Inr st' \<and> ch_next st' = 0
          \<and> ch_remaining st' = 0 \<and> ch_digest st' = digest
          \<and> ch_protected st' = ch_protected st \<union> set ids \<union> fst ` set (entries_from ps es k)"
proof (induction ids arbitrary: k st pages)
  case Nil
  then show ?case by (simp add: chain_fits_def ids_head_def)
next
  case (Cons i ids)
  let ?part = "take ((ps - OVERFLOW_HEADER) div ENTRY) (entries_from ps es k)"
  have hd: "ids_head ids < 2 ^ 32"
    using Cons.prems(3) ps(3) by (cases ids) (auto simp: ids_head_def intro: less_trans)
  obtain page rest where
    mk: "make_page ps PAGE_MANIFEST (length ?part) (ids_head ids)
      (be_bytes 8 (int txid) @ be_bytes 4 (int k) @ replicate 4 0 @ put_entries ?part) = Some page"
    and er: "encode_overflow ps (be_bytes 8 (int txid)) es (Suc k) ids
        (crc64_extend (crc64_extend (ch_digest st) (be_bytes 4 (int i))) page) = Some (rest, digest)"
    and pages: "pages = (i, page) # rest"
    using Cons.prems(4)
    by (auto simp: Let_def entries_from_def ids_head_def [symmetric] simp del: length_take split: option.splits)
  have rd: "read i = Inr page" using Cons.prems(5) pages by simp
  have i: "2 \<le> i" "i < pc" "i \<noteq> u32_at meta 20" "i \<noteq> u32_at meta 28" using Cons.prems(3) by auto
  have k: "k < 2 ^ 32" using Cons.prems(2) by simp
  obtain p st1 where s: "chain_step read meta False 2 pc k st page p st1" and f: "chain_fits read ps pc es (Suc k) ids st1"
    and d: "ch_digest st1 = crc64_extend (crc64_extend (ch_digest st) (be_bytes 4 (int i))) page"
    and pr: "ch_protected st1 = insert i (ch_protected st \<union> fst ` set ?part)"
    by (rule chain_step_written [OF Cons.prems(1) m ps(1,2) k ps(3) i hd mk rd])
  have "\<exists>st'. check_chain read meta False 2 pc (Suc k) (length ids) st1 = Inr st' \<and> ch_next st' = 0
          \<and> ch_remaining st' = 0 \<and> ch_digest st' = digest
          \<and> ch_protected st' = ch_protected st1 \<union> set ids \<union> fst ` set (entries_from ps es (Suc k))"
    using Cons.prems(2,3,5) pages er by (intro Cons.IH [OF f]) (auto simp: d)
  then obtain st' where st': "check_chain read meta False 2 pc (Suc k) (length ids) st1 = Inr st'" "ch_next st' = 0"
      "ch_remaining st' = 0" "ch_digest st' = digest"
      "ch_protected st' = ch_protected st1 \<union> set ids \<union> fst ` set (entries_from ps es (Suc k))" by blast
  have "set (entries_from ps es k) = set ?part \<union> set (entries_from ps es (Suc k))"
    by (metis append_take_drop_id entries_from_Suc set_append)
  then have "ch_protected st' = ch_protected st \<union> set (i # ids) \<union> fst ` set (entries_from ps es k)"
    unfolding st'(5) pr by auto
  moreover have "check_chain read meta False 2 pc k (length (i # ids)) st = Inr st'"
    using s st'(1) unfolding length_Cons check_chain_Suc by blast
  ultimately show ?case using st' by blast
qed

section \<open>A written commit is accepted\<close>

lemma div_ceil_le: "(a + per - 1) div per \<le> n \<Longrightarrow> 0 < per \<Longrightarrow> a \<le> per * (n :: nat)"
proof -
  assume h: "(a + per - 1) div per \<le> n" "0 < per"
  have "a + per - 1 < per * Suc ((a + per - 1) div per)" using dividend_less_times_div [OF h(2)] by simp
  also have "\<dots> \<le> per * Suc n" using h(1) by (intro mult_left_mono) auto
  finally show ?thesis using h(2) by simp
qed

text \<open>What the manifest writer adds to a plaintext meta.\<close>

lemma encode_manifest_plain:
  assumes base: "plain_meta ps txid root pc free live base" "drop 64 base = replicate (ps - 64) 0"
    and enc: "encode_manifest base (cap_plain ps) entries ids = Some (slot, pages)"
    and ps: "64 \<le> ps" and small: "length entries < 2 ^ 32" "length ids < 2 ^ 32" "ids_head ids < 2 ^ 32"
  defines "es \<equiv> sort_key fst entries" and "n \<equiv> min (length entries) ((ps - 64) div 12)"
  obtains digest where
    "encode_overflow ps (be_bytes 8 (int txid)) (drop n es) 0 ids 0 = Some (pages, digest)"
    "plain_meta ps txid root pc free live slot" "meta_crc slot = word_of_int (be_val (get_slice 32 4 slot))"
    "u32_at slot 36 = ids_head ids" "u32_at slot 40 = length entries" "u32_at slot 44 = length ids"
    "u64_at slot 48 = unat digest"
    "drop 64 slot = put_entries (take n es) @ replicate (ps - 64 - 12 * n) 0"
proof -
  define m1 where "m1 = put_slice 64 (put_entries (take n es)) base"
  have lb: "length base = ps" using base(1) by (simp add: plain_meta_def)
  have room: "64 + length (put_entries (take n es)) \<le> ps" using ps by (simp add: n_def es_def)
  have ln: "length (put_entries (take n es)) = 12 * n" by (simp add: n_def es_def)
  have p1: "plain_meta ps txid root pc free live m1"
    unfolding m1_def using room ps by (intro plain_meta_put [OF base(1)]) auto
  then have l1: "length m1 = ps" and tx: "get_slice 12 8 m1 = be_bytes 8 (int txid)" by (simp_all add: plain_meta_def)
  have mo: "encode_manifest base (cap_plain ps) entries ids = map_option (\<lambda>(pages, digest).
      (stamp_meta (put_slice 48 (be_bytes 8 (uint digest)) (put_slice 44 (be_bytes 4 (int (length ids)))
        (put_slice 40 (be_bytes 4 (int (length entries))) (put_slice 36 (be_bytes 4 (int (ids_head ids))) m1)))), pages))
      (encode_overflow ps (be_bytes 8 (int txid)) (drop n es) 0 ids 0)"
    unfolding encode_manifest_def Let_def ids_head_def m1_def n_def es_def
    using tx [unfolded m1_def n_def es_def]
    by (simp add: lb inline_area_def capacities_def cap_plain_def encrypted_variant_def HEADER_def ENTRY_def)
  from enc [unfolded mo] obtain digest where eo: "encode_overflow ps (be_bytes 8 (int txid)) (drop n es) 0 ids 0 = Some (pages, digest)"
    and slot: "slot = stamp_meta (put_slice 48 (be_bytes 8 (uint digest)) (put_slice 44 (be_bytes 4 (int (length ids)))
        (put_slice 40 (be_bytes 4 (int (length entries))) (put_slice 36 (be_bytes 4 (int (ids_head ids))) m1))))"
    by auto
  define m5 where "m5 = put_slice 48 (be_bytes 8 (uint digest)) (put_slice 44 (be_bytes 4 (int (length ids)))
        (put_slice 40 (be_bytes 4 (int (length entries))) (put_slice 36 (be_bytes 4 (int (ids_head ids))) m1)))"
  have l5: "length m5 = ps" using l1 ps by (simp add: m5_def length_put_slice)
  have p5: "plain_meta ps txid root pc free live m5"
    unfolding m5_def using p1 ps by (intro plain_meta_put) auto
  have s: "slot = stamp_meta m5" by (simp add: slot m5_def)
  have p6: "plain_meta ps txid root pc free live slot"
    unfolding s stamp_meta_def using ps by (intro plain_meta_put [OF p5]) auto
  have crc: "meta_crc slot = word_of_int (be_val (get_slice 32 4 slot))"
    unfolding s meta_crc_stamp [of m5] using l5 ps by (simp add: meta_crc_stamp) (simp add: stamp_meta_def slices)
  have dg: "uint digest < 256 ^ 8" using uint_lt2p [of digest] by simp
  have f: "u32_at slot 36 = ids_head ids" "u32_at slot 40 = length entries" "u32_at slot 44 = length ids"
    using l1 l5 ps small by (simp_all add: s stamp_meta_def m5_def slices)
  have g: "get_slice 48 8 slot = be_bytes 8 (uint digest)"
    using l1 l5 ps by (simp add: s stamp_meta_def m5_def slices)
  have "u64_at slot 48 = unat digest" using dg by (simp add: u64_at_def g)
  moreover have "drop 64 slot = put_entries (take n es) @ replicate (ps - 64 - 12 * n) 0"
  proof -
    have "drop (64 + 12 * n) base = replicate (ps - 64 - 12 * n) 0"
      using base(2) by (metis add.commute drop_drop drop_replicate)
    then have "drop 64 m1 = put_entries (take n es) @ replicate (ps - 64 - 12 * n) 0"
      using drop_put_at [OF room [folded lb]] unfolding m1_def ln by simp
    then show ?thesis using l1 l5 ps by (simp add: s stamp_meta_def m5_def slices)
  qed
  ultimately show thesis using that [OF eo p6 crc f] by simp
qed

text \<open>The entries of a commit, as the storage holds them.\<close>

definition stored :: "reads \<Rightarrow> manifest_entry list \<Rightarrow> bool" where
  "stored read entries \<longleftrightarrow>
     (\<forall>(i, h)\<in>set entries. \<exists>page. read i = Inr page \<and> h = crc64_extend 0 page \<and> typed_page False page = Inr True)"

lemma stored_entry_ok:
  "stored read entries \<Longrightarrow> e \<in> set entries \<Longrightarrow> 2 \<le> fst e \<Longrightarrow> fst e < pc
    \<Longrightarrow> entry_ok read False 2 pc (entry_pair e)"
proof -
  assume s: "stored read entries" "e \<in> set entries" "2 \<le> fst e" "fst e < pc"
  then obtain page where "read (fst e) = Inr page" "snd e = crc64_extend 0 page" "typed_page False page = Inr True"
    by (cases e) (auto simp: stored_def)
  then have "read (fst e) = Inr page \<and> check_identity False page (unat (snd e)) = Inr ()"
    by (simp add: check_identity_def)
  then show ?thesis using s by (auto simp: entry_ok_def entry_pair_def)
qed

lemma pages_in_range:
  assumes "distinct xs" "set xs \<subseteq> {2..<pc :: nat}"
  shows "length xs \<le> pc - 2"
  using card_mono [OF _ assms(2)] distinct_card [OF assms(1)] by simp

lemma commit_validates:
  assumes base: "plain_meta ps txid root pc free live base" "drop 64 base = replicate (ps - 64) 0"
    and enc: "encode_manifest base (cap_plain ps) entries ids = Some (slot, pages)"
    and ps: "64 \<le> ps" "ps < 2 ^ 32" "pc < 2 ^ 32" "pc \<le> physical"
    and dist: "distinct (map fst entries @ ids)" "set (map fst entries @ ids) \<subseteq> {2..<pc}"
    and roots: "root \<in> fst ` set entries" "free = 0 \<or> free \<in> fst ` set entries"
    and room: "overflow_needed ps (cap_plain ps) (length entries) \<le> length ids"
    and st: "stored read entries" "\<forall>(i, page)\<in>set pages. read i = Inr page"
  shows "validate_inner slot physical read = Inr (fst ` set entries \<union> set ids)"
    "plain_meta ps txid root pc free live slot" "meta_crc slot = word_of_int (be_val (get_slice 32 4 slot))"
proof -
  define es where "es = sort_key fst entries"
  define n where "n = min (length entries) ((ps - 64) div 12)"
  have les: "length es = length entries" "set es = set entries" by (simp_all add: es_def)
  have count: "length entries + length ids \<le> pc - 2" using pages_in_range [OF dist] by simp
  have small: "length entries < 2 ^ 32" "length ids < 2 ^ 32" using count ps(3) by simp_all
  have ih: "ids_head ids < 2 ^ 32" and i0: "ids_head ids = 0 \<longleftrightarrow> ids = []"
    using dist(2) ps(3) by (cases ids; auto simp: ids_head_def)+
  obtain digest where eo: "encode_overflow ps (be_bytes 8 (int txid)) (drop n es) 0 ids 0 = Some (pages, digest)"
    and pm: "plain_meta ps txid root pc free live slot" and crc: "meta_crc slot = word_of_int (be_val (get_slice 32 4 slot))"
    and f: "u32_at slot 36 = ids_head ids" "u32_at slot 40 = length entries" "u32_at slot 44 = length ids"
      "u64_at slot 48 = unat digest"
    and d64: "drop 64 slot = put_entries (take n es) @ replicate (ps - 64 - 12 * n) 0"
    by (rule encode_manifest_plain [OF base enc ps(1) small ih, folded es_def n_def])
  note pm' = pm [unfolded plain_meta_def]
  have per: "0 < (ps - OVERFLOW_HEADER) div ENTRY" using ps(1) by (simp add: OVERFLOW_HEADER_def ENTRY_def)
  have left: "length (drop n es) \<le> (ps - OVERFLOW_HEADER) div ENTRY * length ids"
  proof -
    have "length (drop n es) = length entries - (ps - 64) div 12" by (simp add: n_def les min_def)
    moreover have "(length entries - (ps - 64) div 12 + (ps - OVERFLOW_HEADER) div ENTRY - 1)
        div ((ps - OVERFLOW_HEADER) div ENTRY) \<le> length ids"
      using room by (simp add: overflow_needed_def capacities_def inline_area_def cap_plain_def encrypted_variant_def
          HEADER_def ENTRY_def)
    ultimately show ?thesis using div_ceil_le [OF _ per] by simp
  qed
  have sorted: "sorted_wrt (<) (1 # map fst es)"
  proof -
    have "sorted (map fst es)" "distinct (map fst es)"
      using dist(1) by (simp_all add: es_def distinct_map)
    then have "sorted_wrt (<) (map fst es)" by (simp add: strict_sorted_iff)
    moreover have "\<forall>i\<in>set (map fst es). 1 < i" using dist(2) les(2) by auto
    ultimately show ?thesis by simp
  qed
  have ok: "entry_ok read False 2 pc (entry_pair e)" if "e \<in> set es" for e
    using stored_entry_ok [OF st(1), of e pc] dist(2) that les(2) by auto
  have area: "get_slice 64 (ps - 64) slot = put_entries (take n es) @ replicate (ps - 64 - 12 * n) 0"
    using pm' unfolding get_slice_def d64 by (simp add: n_def les)
  have inl: "manifest_entries n (get_slice 64 (ps - 64) slot) = map entry_pair (take n es)"
  proof -
    have "fst e < 2 ^ 32" if "e \<in> set (take n es)" for e
    proof -
      have "fst e \<in> {2..<pc}" using in_set_takeD [OF that] dist(2) les(2) by auto
      then show ?thesis using ps(3) by simp
    qed
    then have "\<forall>e\<in>set (take n es). fst e < 2 ^ 32" by blast
    moreover have "length (take n es) = n" by (simp add: n_def les)
    ultimately show ?thesis using manifest_entries_put [of "take n es"] area by metis
  qed
  define prot where "prot = fst ` set (take n es)"
  define prev where "prev = last (1 # map fst (take n es))"
  have parts: "map fst es = map fst (take n es) @ map fst (drop n es)" by (metis append_take_drop_id map_append)
  have fp: "map fst (map entry_pair xs) = map fst xs" "fst ` set (map entry_pair xs) = fst ` set xs" for xs
    by (simp_all add: entry_pair_def image_image)
  have ci: "check_inline read False 2 pc (manifest_entries n (get_slice 64 (ps - 64) slot)) 1 {} = Inr (prev, prot)"
    unfolding inl check_inline_iff fp using sorted ok
    by (auto simp: prev_def prot_def parts sorted_wrt_append list_all_iff dest!: in_set_takeD)
  define st0 where "st0 = \<lparr> ch_next = ids_head ids, ch_last = prev, ch_protected = prot,
      ch_remaining = length entries - n, ch_digest = 0 \<rparr>"
  have sorted': "sorted_wrt (<) (1 # map fst (take n es) @ map fst (drop n es))" using sorted parts by metis
  have dd: "fst ` set (drop n es) \<inter> (prot \<union> set ids) = {}" "set ids \<inter> prot = {}"
  proof -
    have "fst ` set (drop n es) \<inter> prot = {}" using sorted' by (fastforce simp: prot_def sorted_wrt_append)
    moreover have "fst ` set (drop n es) \<subseteq> fst ` set entries" "prot \<subseteq> fst ` set entries"
      using set_drop_subset [of n es] set_take_subset [of n es] les(2) by (auto simp: prot_def)
    moreover have "fst ` set entries \<inter> set ids = {}" using dist(1) by simp
    ultimately show "fst ` set (drop n es) \<inter> (prot \<union> set ids) = {}" "set ids \<inter> prot = {}" by blast+
  qed
  have fits: "chain_fits read ps pc (drop n es) 0 ids st0"
    unfolding chain_fits_def using dist(1) dd left les ok sorted_last [OF sorted']
    by (auto simp: st0_def entries_from_def prev_def list_all_iff dest: in_set_dropD)
  have free: "2 \<le> i \<and> i < pc \<and> i \<noteq> u32_at slot 20 \<and> i \<noteq> u32_at slot 28" if "i \<in> set ids" for i
    using that dist roots pm' by (cases "free = 0") (auto simp: disjoint_iff)
  have eo': "encode_overflow ps (be_bytes 8 (int txid)) (drop n es) 0 ids (ch_digest st0) = Some (pages, digest)"
    using eo by (simp add: st0_def)
  have len: "length slot = ps" "get_slice 12 8 slot = be_bytes 8 (int txid)" using pm' by simp_all
  have rd: "read i = Inr page" if "(i, page) \<in> set pages" for i page using st(2) that by blast
  have k: "0 + length ids < 2 ^ 32" using small by simp
  obtain st' where c: "check_chain read slot False 2 pc 0 (length ids) st0 = Inr st'" "ch_next st' = 0"
      "ch_remaining st' = 0" "ch_digest st' = digest"
      "ch_protected st' = ch_protected st0 \<union> set ids \<union> fst ` set (entries_from ps (drop n es) 0)"
    using check_chain_written [OF len ps(1-3) fits k free eo' rd] by blast
  have pr: "ch_protected st' = fst ` set entries \<union> set ids"
  proof -
    have "set es = set (take n es) \<union> set (drop n es)" by (metis append_take_drop_id set_append)
    then show ?thesis using c(5) les(2) by (auto simp: prot_def st0_def entries_from_def)
  qed
  have hdr: "\<not> bad_header slot physical"
    using pm' f ps count room i0 roots by (auto simp: bad_header_def Let_def cap_of_def cap_plain_def first_body_def
        encrypted_variant_def ROOT_PAGE_def list_ex_iff)
  have e: "\<not> bad_end slot st'" using c(2-4) f(4) pr roots pm' by (auto simp: bad_end_def)
  have z: "\<not> list_ex (\<lambda>b. b \<noteq> 0) (drop (n * ENTRY) (get_slice 64 (ps - 64) slot))"
    unfolding area by (simp add: ENTRY_def n_def les list_ex_iff)
  show "validate_inner slot physical read = Inr (fst ` set entries \<union> set ids)"
    using pm' f hdr z ci c(1) e pr
    by (simp add: validate_inner_def Let_def inline_area_def HEADER_def ENTRY_def n_def [symmetric] st0_def
        first_body_def ROOT_PAGE_def)
  show "plain_meta ps txid root pc free live slot" "meta_crc slot = word_of_int (be_val (get_slice 32 4 slot))"
    by (fact pm crc)+
qed

end
