(* ===== verification/Crc64_Laws.thy ===== *)
theory Crc64_Laws
  imports Manifest
begin

text \<open>
  The CRC-64 of the manifest: the table step is eight bit steps, a bit step loses nothing, and so two
  strings that differ only within eight adjacent bytes never share their identity.
\<close>

lemma crc64_bit_alt: "crc64_bit c = push_bit 1 c XOR (if bit c 63 then CRC64_POLYNOMIAL else 0)"
proof -
  have "c AND push_bit 63 1 \<noteq> 0 \<longleftrightarrow> bit c 63"
    by (simp only: push_bit_eq_mult mult_1 and_exp_eq_0_iff_not_bit not_not)
  then show ?thesis by (simp add: crc64_bit_def)
qed

lemma xor64_cancel [simp]: "x XOR (x XOR y) = (y :: u64)"
  by (simp flip: xor.assoc)

lemma crc64_bit_xor: "crc64_bit (c XOR d) = crc64_bit c XOR crc64_bit d"
  unfolding crc64_bit_alt by (auto simp: bit_xor_iff push_bit_xor ac_simps)

definition crc64_bits :: "nat \<Rightarrow> u64 \<Rightarrow> u64" where
  "crc64_bits n c = (crc64_bit ^^ n) c"

lemma crc64_bits_xor: "crc64_bits n (c XOR d) = crc64_bits n c XOR crc64_bits n d"
  unfolding crc64_bits_def by (induction n) (simp_all add: crc64_bit_xor)

lemma crc64_bits_add: "crc64_bits (m + n) c = crc64_bits m (crc64_bits n c)"
  by (simp add: crc64_bits_def funpow_add)

lemma crc64_bits_shift:
  "n \<le> 64 \<Longrightarrow> (\<And>i. 64 - n \<le> i \<Longrightarrow> \<not> bit c i) \<Longrightarrow> crc64_bits n c = push_bit n c"
proof (induction n)
  case (Suc n)
  then have n: "crc64_bits n c = push_bit n c" "\<not> bit c (63 - n)" by simp_all
  have "\<not> bit (push_bit n c) 63" using n(2) Suc.prems(1) by (simp add: bit_simps)
  then have "crc64_bit (crc64_bits n c) = push_bit 1 (push_bit n c)" by (simp add: n crc64_bit_alt)
  then show ?case by (simp add: crc64_bits_def)
qed (simp add: crc64_bits_def)

lemma crc64_bit_zero:
  assumes "crc64_bit e = 0"
  shows "e = 0"
proof -
  have e63: "\<not> bit e 63"
  proof
    assume "bit e 63"
    moreover have "\<not> bit (push_bit 1 e) 0" by (simp only: bit_push_bit_iff) simp
    moreover have "bit CRC64_POLYNOMIAL 0" by (simp add: CRC64_POLYNOMIAL_def)
    ultimately have "bit (crc64_bit e) 0" unfolding crc64_bit_alt bit_xor_iff by simp
    then show False using assms by simp
  qed
  with assms have z: "push_bit 1 e = 0" by (simp add: crc64_bit_alt)
  have "\<not> bit e n" if "n < 64" for n
  proof (cases "n = 63")
    case False
    have "bit (push_bit 1 e) (Suc n) = bit e n" unfolding bit_push_bit_iff using that False by simp
    then show ?thesis using z by simp
  qed (use e63 in simp)
  then show ?thesis by (intro bit_eqI) simp
qed

lemma inj_crc64_bits: "inj (crc64_bits n)"
proof -
  have "inj crc64_bit"
  proof (rule injI)
    fix c d assume "crc64_bit c = crc64_bit d"
    then have "c XOR d = 0" using crc64_bit_zero [of "c XOR d"] by (simp add: crc64_bit_xor)
    then show "c = d" using xor64_cancel [of c d] by simp
  qed
  then show ?thesis unfolding crc64_bits_def by (rule inj_fn)
qed

lemma crc64_byte: "crc64_bits 8 c = push_bit 8 c XOR crc64_bits 8 (push_bit 56 (drop_bit 56 c))"
proof -
  let ?low = "take_bit 56 c" and ?high = "push_bit 56 (drop_bit 56 c)"
  have "crc64_bits 8 ?low = push_bit 8 ?low"
    by (rule crc64_bits_shift) (auto simp: bit_simps)
  moreover have "push_bit 8 ?low = push_bit 8 c"
    by (rule bit_eqI) (auto simp: bit_simps)
  moreover have "c = ?low XOR ?high"
    by (rule bit_eqI) (auto simp: bit_simps)
  ultimately show ?thesis by (metis crc64_bits_xor)
qed

lemma crc64_step_bits: "crc64_step c b = crc64_bits 8 (c XOR push_bit 56 (ucast b))"
proof -
  let ?i = "(ucast (drop_bit 56 c) :: u8) XOR b"
  have "unat ?i < 2 ^ LENGTH(8)" by (rule unsigned_less)
  then have "CRC64 ! unat ?i = crc64_bits 8 (push_bit 56 (ucast ?i))"
    by (simp add: CRC64_def crc64_bits_def)
  moreover have "push_bit 56 (ucast ?i :: u64) = push_bit 56 (drop_bit 56 (c XOR push_bit 56 (ucast b)))"
    by (rule bit_eqI) (auto simp: bit_simps)
  moreover have "push_bit 8 c = push_bit 8 (c XOR push_bit 56 (ucast b))"
    by (rule bit_eqI) (auto simp: bit_simps dest: bit_imp_le_length)
  ultimately show ?thesis unfolding crc64_step_def by (metis crc64_byte)
qed

lemma crc64_extend_append: "crc64_extend c (a @ b) = crc64_extend (crc64_extend c a) b"
  by (simp add: crc64_extend_def)

lemma crc64_extend_inj: "crc64_extend c data = crc64_extend d data \<Longrightarrow> c = d"
proof (induction data arbitrary: c d)
  case (Cons b data)
  then have "crc64_bits 8 (c XOR push_bit 56 (ucast b)) = crc64_bits 8 (d XOR push_bit 56 (ucast b))"
    by (simp add: crc64_extend_def flip: crc64_step_bits)
  then have "push_bit 56 (ucast b) XOR c = push_bit 56 (ucast b) XOR d"
    using injD [OF inj_crc64_bits] by (simp add: ac_simps)
  then show ?case by (metis xor64_cancel)
qed (simp add: crc64_extend_def)

text \<open>Up to eight bytes as a word, first byte on top.\<close>

fun top_word :: "bytes \<Rightarrow> u64" where
  "top_word [] = 0"
| "top_word (b # bs) = push_bit 56 (ucast b) XOR drop_bit 8 (top_word bs)"

lemma top_word_low: "length bs \<le> 8 \<Longrightarrow> i < 64 - 8 * length bs \<Longrightarrow> \<not> bit (top_word bs) i"
  by (induction bs arbitrary: i) (auto simp: bit_simps)

lemma push_drop_word: "(\<And>i. i < 8 \<Longrightarrow> \<not> bit y i) \<Longrightarrow> push_bit 8 (drop_bit 8 y) = (y :: u64)"
proof -
  assume y: "\<And>i. i < 8 \<Longrightarrow> \<not> bit y i"
  have "bit (push_bit 8 (drop_bit 8 y)) n = bit y n" if "n < 64" for n
    using that y by (cases "n < 8") (auto simp: bit_simps)
  then show ?thesis by (intro bit_eqI) simp
qed

lemma crc64_extend_word:
  "length bs \<le> 8 \<Longrightarrow> crc64_extend c bs = crc64_bits (8 * length bs) (c XOR top_word bs)"
proof (induction bs arbitrary: c)
  case (Cons b bs)
  have y: "\<not> bit (top_word bs) i" if "i < 8" for i using Cons.prems that by (intro top_word_low) auto
  have "crc64_bits 8 (drop_bit 8 (top_word bs)) = push_bit 8 (drop_bit 8 (top_word bs))"
    by (rule crc64_bits_shift) (auto simp: bit_simps dest: bit_imp_le_length)
  then have d: "crc64_bits 8 (drop_bit 8 (top_word bs)) = top_word bs" using push_drop_word [OF y] by simp
  have "crc64_bits (8 * length (b # bs)) x = crc64_bits (8 * length bs) (crc64_bits 8 x)" for x
    by (simp add: add.commute flip: crc64_bits_add)
  then show ?case
    using Cons d by (simp add: crc64_extend_def crc64_step_bits crc64_bits_xor flip: xor.assoc)
qed (simp add: crc64_extend_def crc64_bits_def)

lemma top_word_inj: "length a = length b \<Longrightarrow> length a \<le> 8 \<Longrightarrow> top_word a = top_word b \<Longrightarrow> a = b"
proof (induction a b rule: list_induct2)
  case (Cons x a y b)
  have d: "push_bit 8 (top_word (z # c)) = top_word c" "ucast (drop_bit 56 (top_word (z # c))) = z"
    if "length c \<le> 7" for z c
  proof -
    have "\<not> bit (top_word c) i" if "i < 8" for i using that \<open>length c \<le> 7\<close> by (intro top_word_low) auto
    moreover have "push_bit 8 (push_bit 56 (ucast z :: u64)) = 0"
      by (rule bit_eqI) (auto simp: bit_simps)
    ultimately show "push_bit 8 (top_word (z # c)) = top_word c"
      using push_drop_word [of "top_word c"] by (simp add: push_bit_xor del: push_bit_push_bit)
    show "ucast (drop_bit 56 (top_word (z # c))) = z"
      by (rule bit_eqI) (auto simp: bit_simps dest: bit_imp_le_length)
  qed
  have l: "length a \<le> 7" "length b \<le> 7" using Cons.hyps Cons.prems by auto
  from Cons.prems(2) have "x = y" "top_word a = top_word b"
    using d [OF l(1), of x] d [OF l(2), of y] by metis+
  then show ?case using Cons l by simp
qed simp

lemma crc64_burst:
  assumes "length x = length y" "length x \<le> 8" "x \<noteq> y"
  shows "crc64_extend c (pre @ x @ post) \<noteq> crc64_extend c (pre @ y @ post)"
proof
  assume "crc64_extend c (pre @ x @ post) = crc64_extend c (pre @ y @ post)"
  then have "crc64_extend (crc64_extend c pre) x = crc64_extend (crc64_extend c pre) y"
    unfolding crc64_extend_append by (rule crc64_extend_inj)
  then have "crc64_extend c pre XOR top_word x = crc64_extend c pre XOR top_word y"
    using assms injD [OF inj_crc64_bits] by (simp add: crc64_extend_word)
  then have "top_word x = top_word y" by (metis xor64_cancel)
  then show False using assms top_word_inj by metis
qed

lemma crc64_burst_nth:
  assumes "length x = length y" "x \<noteq> y"
    and same: "\<And>k. k < length x \<Longrightarrow> k < i \<or> i + 8 \<le> k \<Longrightarrow> x ! k = y ! k"
  shows "crc64_extend c x \<noteq> crc64_extend c y"
proof -
  have "take i x = take i y" "drop (i + 8) x = drop (i + 8) y"
    using assms(1) same by (auto intro!: nth_equalityI)
  moreover have "z = take i z @ take 8 (drop i z) @ drop (i + 8) z" for z :: bytes
    by (metis append_take_drop_id drop_drop add.commute)
  ultimately obtain w where
    w: "x = take i x @ take 8 (drop i x) @ w" "y = take i x @ take 8 (drop i y) @ w" by metis
  with assms(2) have "take 8 (drop i x) \<noteq> take 8 (drop i y)" by metis
  moreover have "length (take 8 (drop i x)) = length (take 8 (drop i y))" using assms(1) by simp
  ultimately have "crc64_extend c (take i x @ take 8 (drop i x) @ w) \<noteq> crc64_extend c (take i x @ take 8 (drop i y) @ w)"
    by (intro crc64_burst) auto
  then show ?thesis using w by metis
qed

end
