(* ===== verification/Slot_Adoption.thy ===== *)
theory Slot_Adoption
  imports Commit_Laws
begin

text \<open>
  How an open chooses the generation it loads: \<open>Pager::from_store\<close> and the parts of the pager's state the
  choice uses (\<open>pager.rs\<close>), the check of an encrypted slot's tag (\<open>verify_meta\<close> of \<open>crypto.rs\<close>) and the
  slot selection at the head of \<open>open_shared_paging_at\<close> (\<open>format.rs\<close>), with what it promises. The host's
  positioned read is a parameter; so is the authenticated decryption of the meta key, which the code
  takes from a library: it accepts a nonce, associated data and a tag, or does not. What the load does
  with the chosen meta (the catalog and the skeletons) is not modelled.
\<close>

unbundle bit_operations_syntax

section \<open>The pager\<close>

text \<open>\<open>pa_read_at\<close> is the store's positioned read.\<close>

record pager =
  pa_read_at :: "nat \<Rightarrow> nat \<Rightarrow> bytes result"
  pa_page_size :: nat
  pa_allocated :: nat
  pa_validation :: "(bytes \<times> nat set) option"
  pa_acknowledged :: "(nat \<times> nat) option"
  pa_adopted :: "(nat \<times> nat) option"
  pa_needs_stabilize :: bool
  pa_commit_in_progress :: bool
  pa_poisoned :: bool
  pa_trust_meta :: bool
  pa_floor_slot :: nat
  pa_pending :: "nat \<rightharpoonup> u64"
  pa_shrink_pending :: bool
  pa_shrink_pages :: nat
  pa_encrypted :: bool

definition MIN_FILE_PAGE :: nat where "MIN_FILE_PAGE = 256"
definition MAX_FILE_PAGE :: nat where "MAX_FILE_PAGE = 65536"

definition page_size_valid :: "nat \<Rightarrow> bool" where
  "page_size_valid ps \<longleftrightarrow> list_ex (\<lambda>k. ps = 2 ^ k) [0..<64] \<and> MIN_FILE_PAGE \<le> ps \<and> ps \<le> MAX_FILE_PAGE"

definition from_store :: "nat result \<Rightarrow> (nat \<Rightarrow> nat \<Rightarrow> bytes result) \<Rightarrow> pager result" where
  "from_store store_size read_at =
     res_bind store_size (\<lambda>size.
       if size < 12 then Inl (corrupt_page ''database file smaller than a meta header'')
       else res_bind (read_at 0 12) (\<lambda>header.
         let ps = u32_at header 8 in
         if \<not> page_size_valid ps then Inl (corrupt_page ''zero page size in meta header'')
         else Inr \<lparr> pa_read_at = read_at, pa_page_size = ps, pa_allocated = size div ps mod 2 ^ 32,
                    pa_validation = None, pa_acknowledged = None, pa_adopted = None,
                    pa_needs_stabilize = False, pa_commit_in_progress = False, pa_poisoned = False,
                    pa_trust_meta = False, pa_floor_slot = 0, pa_pending = Map.empty,
                    pa_shrink_pending = False, pa_shrink_pages = 0, pa_encrypted = False \<rparr>))"

definition read_page_block :: "pager \<Rightarrow> nat \<Rightarrow> bytes result" where
  "read_page_block pa index = pa_read_at pa (index * pa_page_size pa) (pa_page_size pa)"

definition cached_validation :: "pager \<Rightarrow> bytes \<Rightarrow> nat set option" where
  "cached_validation pa meta =
     (case pa_validation pa of
        Some (bytes, pages) \<Rightarrow> if bytes = meta then Some pages else None
      | None \<Rightarrow> None)"

definition cache_validation :: "bytes \<Rightarrow> nat set \<Rightarrow> pager \<Rightarrow> pager" where
  "cache_validation meta pages pa = pa\<lparr> pa_validation := Some (meta, pages) \<rparr>"

definition adopt_generation :: "nat \<Rightarrow> nat \<Rightarrow> bool \<Rightarrow> nat \<Rightarrow> pager \<Rightarrow> pager" where
  "adopt_generation txid crc descriptor floor_slot pa =
     (let generation = Some (txid, crc)
      in if pa_adopted pa \<noteq> generation
         then pa\<lparr> pa_adopted := generation,
                  pa_needs_stabilize := descriptor \<and> pa_acknowledged pa \<noteq> generation,
                  pa_floor_slot := floor_slot, pa_pending := Map.empty \<rparr>
         else pa)"

section \<open>The tag of an encrypted slot\<close>

type_synonym aead_open = "bytes \<Rightarrow> bytes \<Rightarrow> bytes \<Rightarrow> bool"

definition ROLE_META :: u8 where "ROLE_META = 2"

definition ad_prefix :: "u8 \<Rightarrow> nat \<Rightarrow> bytes" where
  "ad_prefix role position = [0x4A, 0x45, 0x44, 0x42, SUITE_XAES, role] @ be_bytes 4 (int position)"

definition meta_aad :: "nat \<Rightarrow> bytes \<Rightarrow> (nat \<times> bytes) list \<Rightarrow> bytes" where
  "meta_aad slot zeroed manifest =
     ad_prefix ROLE_META slot @ zeroed @ concat (map (\<lambda>(pid, page). be_bytes 4 (int pid) @ page) manifest)"

definition verify_meta :: "aead_open \<Rightarrow> nat \<Rightarrow> bytes \<Rightarrow> (nat \<times> bytes) list \<Rightarrow> unit result" where
  "verify_meta open_tag slot stored manifest =
     (let ps = length stored;
          nonce = get_slice (ps - RESERVE) (RESERVE - TAG_LEN) stored;
          tag = get_slice (ps - TAG_LEN) TAG_LEN stored;
          zeroed = put_slice (ps - RESERVE) (replicate RESERVE 0) (put_slice 32 [0, 0, 0, 0] stored)
      in if open_tag nonce (meta_aad slot zeroed manifest) tag then Inr ()
         else Inl (corrupt_page ''meta page fails authentication''))"

section \<open>The choice of the slot\<close>

text \<open>The pages a slot protects when it may be adopted; \<open>None\<close> is a slot to pass over.\<close>

definition slot_pages :: "pager \<Rightarrow> bytes \<Rightarrow> nat set option result" where
  "slot_pages pa bytes =
     (if pa_trust_meta pa then Inr (Some {})
      else case cached_validation pa bytes of
             Some pages \<Rightarrow> Inr (Some pages)
           | None \<Rightarrow> validate_manifest bytes (pa_allocated pa) (read_page_block pa))"

definition authenticate :: "aead_open option \<Rightarrow> pager \<Rightarrow> nat \<Rightarrow> bytes \<Rightarrow> unit result" where
  "authenticate codec pa slot bytes =
     (case codec of
        None \<Rightarrow> Inr ()
      | Some open_tag \<Rightarrow>
          res_bind (chain_pages bytes (read_page_block pa)) (\<lambda>chain.
            case verify_meta open_tag slot bytes chain of
              Inr _ \<Rightarrow> Inr ()
            | Inl e \<Rightarrow> if pa_trust_meta pa then verify_meta open_tag (slot XOR 1) bytes chain else Inl e))"

fun adopt_loop :: "aead_open option \<Rightarrow> bool \<Rightarrow> pager \<Rightarrow> (meta \<times> bytes \<times> nat) list \<Rightarrow> (meta \<times> pager) result" where
  "adopt_loop codec same_txid pa [] = Inl (corrupt_page ''no complete valid meta page'')"
| "adopt_loop codec same_txid pa ((m, bytes, slot) # cands) =
     (if (mt_suite m \<noteq> 0) \<noteq> (\<not> Option.is_none codec) then adopt_loop codec same_txid pa cands
      else res_bind (slot_pages pa bytes) (\<lambda>r.
        case r of
          None \<Rightarrow> adopt_loop codec same_txid pa cands
        | Some protected \<Rightarrow>
            res_bind (authenticate codec pa slot bytes) (\<lambda>_.
              let floor_slot = (if same_txid then mt_txid m mod 2 else slot)
              in Inr (m\<lparr> mt_protected := protected \<rparr>,
                      adopt_generation (mt_txid m) (u32_at bytes 32) (get_slice 40 4 bytes \<noteq> [0, 0, 0, 0])
                        floor_slot (cache_validation bytes protected pa)))))"

text \<open>\<open>given\<close> is the version a backup's walk names; an ordinary open names none.\<close>

definition select_generation :: "meta option \<Rightarrow> aead_open option \<Rightarrow> pager \<Rightarrow> (meta \<times> pager) result" where
  "select_generation given codec pa =
     (if \<not> page_size_valid (pa_page_size pa) then Inl (corrupt_page ''invalid page size'')
      else case given of
        Some m \<Rightarrow> Inr (m, pa)
      | None \<Rightarrow>
          res_bind (read_page_block pa 0) (\<lambda>b0.
          res_bind (read_page_block pa 1) (\<lambda>b1.
            let candidates = sort_key (\<lambda>(m, _, _). - int (mt_txid m))
                  (List.map_filter (\<lambda>(slot, b). map_option (\<lambda>m. (m, b, slot)) (parse_meta b)) [(0, b0), (1, b1)]);
                same_txid = (case candidates of [(m, _), (n, _)] \<Rightarrow> mt_txid m = mt_txid n | _ \<Rightarrow> False)
            in adopt_loop codec same_txid pa candidates)))"

section \<open>Slots that may be adopted\<close>

text \<open>
  A slot is complete when its block is a meta of the file's variant whose manifest validates; it is
  authentic when the pager's codec accepts its tag. The cache of the last validation is sound when the
  slot it names still validates.
\<close>

definition slot_complete :: "bool \<Rightarrow> pager \<Rightarrow> nat \<Rightarrow> meta \<Rightarrow> bool" where
  "slot_complete en pa s m \<longleftrightarrow>
     (\<exists>b m0 prot. read_page_block pa s = Inr b \<and> parse_meta b = Some m0 \<and> (mt_suite m0 \<noteq> 0) = en
        \<and> validate_manifest b (pa_allocated pa) (read_page_block pa) = Inr (Some prot)
        \<and> m = m0\<lparr> mt_protected := prot \<rparr>)"

definition slot_authentic :: "aead_open option \<Rightarrow> pager \<Rightarrow> nat \<Rightarrow> bool" where
  "slot_authentic codec pa s \<longleftrightarrow> (\<exists>b. read_page_block pa s = Inr b \<and> authenticate codec pa s b = Inr ())"

definition cache_sound :: "pager \<Rightarrow> bool" where
  "cache_sound pa \<longleftrightarrow>
     (\<forall>b prot. pa_validation pa = Some (b, prot)
        \<longrightarrow> validate_manifest b (pa_allocated pa) (read_page_block pa) = Inr (Some prot))"

abbreviation encrypted_by :: "aead_open option \<Rightarrow> bool" where
  "encrypted_by codec \<equiv> \<not> Option.is_none codec"

lemma from_store_sound: "from_store store_size read_at = Inr pa \<Longrightarrow> cache_sound pa \<and> \<not> pa_trust_meta pa \<and> page_size_valid (pa_page_size pa)"
  by (auto simp: from_store_def cache_sound_def Let_def split: if_splits)

lemma slot_complete_unique: "slot_complete en pa s m \<Longrightarrow> slot_complete en pa s m' \<Longrightarrow> m = m'"
  unfolding slot_complete_def by auto

lemma slot_pages_sound:
  assumes "\<not> pa_trust_meta pa" "cache_sound pa"
  shows "slot_pages pa b = validate_manifest b (pa_allocated pa) (read_page_block pa)"
  using assms by (auto simp: slot_pages_def cached_validation_def cache_sound_def split: option.splits)

text \<open>What a slot offers to an open: nothing, its completed meta, or the error that ends the open.\<close>

definition offer :: "aead_open option \<Rightarrow> pager \<Rightarrow> nat \<Rightarrow> bytes \<Rightarrow> meta \<Rightarrow> meta option result" where
  "offer codec pa s b m0 =
     (if (mt_suite m0 \<noteq> 0) \<noteq> encrypted_by codec then Inr None
      else res_bind (validate_manifest b (pa_allocated pa) (read_page_block pa)) (\<lambda>r.
        case r of
          None \<Rightarrow> Inr None
        | Some prot \<Rightarrow> res_bind (authenticate codec pa s b) (\<lambda>_. Inr (Some (m0\<lparr> mt_protected := prot \<rparr>)))))"

definition adopted :: "bool \<Rightarrow> pager \<Rightarrow> nat \<Rightarrow> bytes \<Rightarrow> meta \<Rightarrow> pager" where
  "adopted same_txid pa s b m =
     adopt_generation (mt_txid m) (u32_at b 32) (get_slice 40 4 b \<noteq> [0, 0, 0, 0])
       (if same_txid then mt_txid m mod 2 else s) (cache_validation b (mt_protected m) pa)"

lemma adopt_loop_offer:
  assumes "\<not> pa_trust_meta pa" "cache_sound pa"
  shows "adopt_loop codec same pa ((m0, b, s) # cands) =
    res_bind (offer codec pa s b m0) (\<lambda>r. case r of
       None \<Rightarrow> adopt_loop codec same pa cands
     | Some m \<Rightarrow> Inr (m, adopted same pa s b m))"
proof -
  let ?v = "validate_manifest b (pa_allocated pa) (read_page_block pa)"
  show ?thesis
  proof (cases ?v)
    case (Inr r)
    then show ?thesis
      by (cases r; cases "authenticate codec pa s b")
        (simp_all add: slot_pages_sound [OF assms] offer_def adopted_def Let_def)
  qed (simp add: slot_pages_sound [OF assms] offer_def)
qed

declare adopt_loop.simps(2) [simp del]

text \<open>An offer, read off the slot.\<close>

lemma offer_Some_iff:
  "offer codec pa s b m0 = Inr (Some m) \<longleftrightarrow> (mt_suite m0 \<noteq> 0) = encrypted_by codec
     \<and> (\<exists>prot. validate_manifest b (pa_allocated pa) (read_page_block pa) = Inr (Some prot)
          \<and> authenticate codec pa s b = Inr () \<and> m = m0\<lparr> mt_protected := prot \<rparr>)"
  unfolding offer_def
  by (cases "validate_manifest b (pa_allocated pa) (read_page_block pa)"; cases "authenticate codec pa s b")
    (simp_all add: eq_commute [of m] split: option.split)

lemma offer_None_iff:
  "offer codec pa s b m0 = Inr None \<longleftrightarrow> (mt_suite m0 \<noteq> 0) \<noteq> encrypted_by codec
     \<or> validate_manifest b (pa_allocated pa) (read_page_block pa) = Inr None"
  unfolding offer_def
  by (cases "validate_manifest b (pa_allocated pa) (read_page_block pa)"; cases "authenticate codec pa s b")
    (simp_all split: option.split)

lemma offer_Inl_iff:
  "offer codec pa s b m0 = Inl e \<longleftrightarrow> (mt_suite m0 \<noteq> 0) = encrypted_by codec
     \<and> (validate_manifest b (pa_allocated pa) (read_page_block pa) = Inl e
        \<or> (\<exists>prot. validate_manifest b (pa_allocated pa) (read_page_block pa) = Inr (Some prot))
            \<and> authenticate codec pa s b = Inl e)"
  unfolding offer_def
  by (cases "validate_manifest b (pa_allocated pa) (read_page_block pa)"; cases "authenticate codec pa s b")
    (simp_all split: option.split)

lemma slot_complete_iff:
  assumes "read_page_block pa s = Inr b" "parse_meta b = Some m0"
  shows "slot_complete en pa s m \<longleftrightarrow> (mt_suite m0 \<noteq> 0) = en
     \<and> (\<exists>prot. validate_manifest b (pa_allocated pa) (read_page_block pa) = Inr (Some prot)
          \<and> m = m0\<lparr> mt_protected := prot \<rparr>)"
  unfolding slot_complete_def assms(1) using assms(2) by simp

text \<open>The chain of a slot that validates is readable, so only its tag can refuse it.\<close>

lemma chain_loop_total:
  "check_chain read meta en first pc k n st = Inr st' \<Longrightarrow> \<exists>pages. chain_loop read (ch_next st) n = Inr pages"
proof (induction n arbitrary: k st)
  case (Suc n)
  from Suc.prems obtain page p s where s: "chain_step read meta en first pc k st page p s"
    and c: "check_chain read meta en first pc (Suc k) n s = Inr st'" unfolding check_chain_Suc by blast
  then show ?case using Suc.IH [OF c] by (auto simp: chain_step_def)
qed simp

lemma authenticate_error:
  assumes "validate_manifest b physical (read_page_block pa) = Inr (Some prot)" "authenticate codec pa s b = Inl e"
  shows "fst e = DataCorrupted"
proof -
  obtain lo hi where a: "inline_area (length b) (b ! 6 \<noteq> 0) = (lo, hi)" by fastforce
  from assms(1) obtain en first pc l p r st where
    "check_chain (read_page_block pa) b en first pc 0 (u32_at b 44) \<lparr> ch_next = u32_at b 36, ch_last = l,
          ch_protected = p, ch_remaining = r, ch_digest = 0 \<rparr> = Inr st"
    by (auto simp: validate_manifest_Some validate_inner_def Let_def a split: if_splits)
  from chain_loop_total [OF this] obtain pages where "chain_pages b (read_page_block pa) = Inr pages"
    by (auto simp: chain_pages_def)
  then show ?thesis using assms(2)
    by (auto simp: authenticate_def verify_meta_def corrupt_page_def Let_def split: option.splits if_splits)
qed

lemma offer_outcome:
  assumes "read_page_block pa s = Inr b" "parse_meta b = Some m0"
  shows "offer codec pa s b m0 = Inr (Some m)
      \<Longrightarrow> slot_complete (encrypted_by codec) pa s m \<and> slot_authentic codec pa s \<and> mt_txid m = mt_txid m0"
    "offer codec pa s b m0 = Inr None \<Longrightarrow> \<not> slot_complete (encrypted_by codec) pa s n"
    "offer codec pa s b m0 = Inl e
      \<Longrightarrow> (\<exists>i<pa_allocated pa. read_page_block pa i = Inl e)
        \<or> (\<exists>m. slot_complete (encrypted_by codec) pa s m \<and> mt_txid m = mt_txid m0)
            \<and> \<not> slot_authentic codec pa s \<and> fst e = DataCorrupted"
  using assms(1) validate_error [of b "pa_allocated pa" "read_page_block pa" e]
    authenticate_error [of b "pa_allocated pa" pa _ codec s e]
  unfolding slot_complete_iff [OF assms] slot_authentic_def offer_Some_iff offer_None_iff offer_Inl_iff
  by auto

section \<open>The outcome of the choice\<close>

text \<open>No complete slot of \<open>S\<close> is newer than \<open>k\<close>.\<close>

definition newest :: "bool \<Rightarrow> pager \<Rightarrow> nat set \<Rightarrow> nat \<Rightarrow> bool" where
  "newest en pa S k \<longleftrightarrow> (\<forall>s\<in>S. \<forall>n. slot_complete en pa s n \<longrightarrow> mt_txid n \<le> k)"

definition candidate :: "pager \<Rightarrow> meta \<times> bytes \<times> nat \<Rightarrow> bool" where
  "candidate pa c \<longleftrightarrow> (case c of (m0, b, s) \<Rightarrow> read_page_block pa s = Inr b \<and> parse_meta b = Some m0)"

abbreviation slot_of :: "meta \<times> bytes \<times> nat \<Rightarrow> nat" where "slot_of c \<equiv> snd (snd c)"

lemma complete_txid: "candidate pa (m0, b, s) \<Longrightarrow> slot_complete en pa s n \<Longrightarrow> mt_txid n = mt_txid m0"
  by (auto simp: candidate_def slot_complete_def)

text \<open>The three ways the loop ends.\<close>

definition adopts :: "aead_open option \<Rightarrow> pager \<Rightarrow> nat set \<Rightarrow> bool \<Rightarrow> meta \<Rightarrow> pager \<Rightarrow> bool" where
  "adopts codec pa S same m pa' \<longleftrightarrow>
     (\<exists>s\<in>S. \<exists>b. read_page_block pa s = Inr b \<and> slot_complete (encrypted_by codec) pa s m \<and> slot_authentic codec pa s
        \<and> pa' = adopted same pa s b m)
     \<and> newest (encrypted_by codec) pa S (mt_txid m)"

definition refused :: "aead_open option \<Rightarrow> pager \<Rightarrow> nat set \<Rightarrow> bool" where
  "refused codec pa S \<longleftrightarrow>
     (\<exists>s\<in>S. \<exists>m. slot_complete (encrypted_by codec) pa s m \<and> \<not> slot_authentic codec pa s
        \<and> newest (encrypted_by codec) pa S (mt_txid m))"

definition host_failed :: "pager \<Rightarrow> engine_error \<Rightarrow> bool" where
  "host_failed pa e \<longleftrightarrow> (\<exists>i < max 2 (pa_allocated pa). read_page_block pa i = Inl e)"

lemma newest_insert:
  "newest en pa (insert s S) k \<longleftrightarrow> newest en pa {s} k \<and> newest en pa S k" by (auto simp: newest_def)

lemma newest_rest:
  assumes "\<forall>c\<in>set cands. candidate pa c \<and> mt_txid (fst c) \<le> k"
  shows "newest en pa (slot_of ` set cands) k"
proof -
  have "mt_txid n \<le> k" if "c \<in> set cands" "slot_complete en pa (slot_of c) n" for c n
  proof -
    obtain m0 b s where c: "c = (m0, b, s)" by (cases c)
    then have "candidate pa (m0, b, s)" "mt_txid m0 \<le> k" using assms that(1) by auto
    then show ?thesis using complete_txid that(2) c by fastforce
  qed
  then show ?thesis by (auto simp: newest_def)
qed

lemma adopt_loop_outcome:
  assumes trust: "\<not> pa_trust_meta pa" "cache_sound pa"
    and "\<forall>c\<in>set cands. candidate pa c" "sorted_wrt (\<lambda>c d. mt_txid (fst d) \<le> mt_txid (fst c)) cands"
  shows "case adopt_loop codec same pa cands of
      Inr (m, pa') \<Rightarrow> adopts codec pa (slot_of ` set cands) same m pa'
    | Inl e \<Rightarrow> host_failed pa e
        \<or> refused codec pa (slot_of ` set cands) \<and> fst e = DataCorrupted
        \<or> e = corrupt_page ''no complete valid meta page''
            \<and> (\<forall>s\<in>slot_of ` set cands. \<forall>n. \<not> slot_complete (encrypted_by codec) pa s n)"
  using assms(3,4)
proof (induction cands)
  case (Cons c cands)
  obtain m0 b s where c: "c = (m0, b, s)" by (cases c)
  have cand: "candidate pa (m0, b, s)" and rd: "read_page_block pa s = Inr b" "parse_meta b = Some m0"
    using Cons.prems c by (auto simp: candidate_def)
  let ?en = "encrypted_by codec"
  have rest: "newest ?en pa (slot_of ` set cands) (mt_txid m0)"
    using Cons.prems c by (intro newest_rest) auto
  have own: "newest ?en pa {s} (mt_txid m0)"
    using complete_txid [OF cand] by (auto simp: newest_def)
  have top: "newest ?en pa (slot_of ` set (c # cands)) (mt_txid m0)"
    using own rest newest_insert [of ?en pa s "slot_of ` set cands"] by (simp add: c)
  note o = offer_outcome [OF rd, of codec]
  show ?case
  proof (cases "offer codec pa s b m0")
    case (Inl e)
    then have "adopt_loop codec same pa (c # cands) = Inl e" by (simp add: c adopt_loop_offer [OF trust])
    moreover have "host_failed pa e \<or> refused codec pa (slot_of ` set (c # cands)) \<and> fst e = DataCorrupted"
    proof -
      consider "\<exists>i<pa_allocated pa. read_page_block pa i = Inl e"
        | m where "slot_complete ?en pa s m" "mt_txid m = mt_txid m0" "\<not> slot_authentic codec pa s"
            "fst e = DataCorrupted"
        using o(3) [OF Inl] by blast
      then show ?thesis
      proof cases
        case 1
        then show ?thesis by (auto simp: host_failed_def less_max_iff_disj)
      next
        case 2
        then have "refused codec pa (slot_of ` set (c # cands))"
          unfolding refused_def using top c by (intro bexI [of _ s] exI [of _ m]) auto
        then show ?thesis using 2 by blast
      qed
    qed
    ultimately show ?thesis by auto
  next
    case (Inr r)
    show ?thesis
    proof (cases r)
      case (Some m)
      then have "adopt_loop codec same pa (c # cands) = Inr (m, adopted same pa s b m)"
        using Inr by (simp add: c adopt_loop_offer [OF trust])
      moreover have "adopts codec pa (slot_of ` set (c # cands)) same m (adopted same pa s b m)"
        using o(1) [of m] Inr Some top rd(1) c by (auto simp: adopts_def)
      ultimately show ?thesis by simp
    next
      case None
      then have l: "adopt_loop codec same pa (c # cands) = adopt_loop codec same pa cands"
        using Inr by (simp add: c adopt_loop_offer [OF trust])
      have no: "\<not> slot_complete ?en pa s n" for n using o(2) Inr None by simp
      then have n: "newest ?en pa (slot_of ` set (c # cands)) k \<longleftrightarrow> newest ?en pa (slot_of ` set cands) k" for k
        using newest_insert [of ?en pa s "slot_of ` set cands"] by (simp add: c newest_def)
      show ?thesis
      proof (cases "adopt_loop codec same pa cands")
        case (Inl e)
        then show ?thesis using Cons no unfolding l refused_def n by (auto simp: c)
      next
        case (Inr x)
        then show ?thesis using Cons unfolding l adopts_def n by (cases x) (auto simp: adopts_def)
      qed
    qed
  qed
qed simp

text \<open>The candidates of an open are the slots that parse, newest first.\<close>

definition candidates :: "bytes \<Rightarrow> bytes \<Rightarrow> (meta \<times> bytes \<times> nat) list" where
  "candidates b0 b1 = sort_key (\<lambda>(m, _, _). - int (mt_txid m))
     (List.map_filter (\<lambda>(slot, b). map_option (\<lambda>m. (m, b, slot)) (parse_meta b)) [(0, b0), (1, b1)])"

lemma candidates_ok:
  assumes "read_page_block pa 0 = Inr b0" "read_page_block pa 1 = Inr b1"
  shows "\<forall>c\<in>set (candidates b0 b1). candidate pa c"
    "sorted_wrt (\<lambda>c d. mt_txid (fst d) \<le> mt_txid (fst c)) (candidates b0 b1)"
    "slot_complete en pa s n \<Longrightarrow> s \<in> {0, 1} \<Longrightarrow> s \<in> slot_of ` set (candidates b0 b1)"
    "slot_of ` set (candidates b0 b1) \<subseteq> {0, 1}"
proof -
  have mem: "(m0, b, t) \<in> set (candidates b0 b1)
      \<longleftrightarrow> t = 0 \<and> b = b0 \<and> parse_meta b0 = Some m0 \<or> t = 1 \<and> b = b1 \<and> parse_meta b1 = Some m0" for m0 b t
    by (auto simp: candidates_def List.map_filter_def)
  show "\<forall>c\<in>set (candidates b0 b1). candidate pa c"
    using assms mem by (auto simp: candidate_def)
  show "slot_of ` set (candidates b0 b1) \<subseteq> {0, 1}" using mem by auto
  have "sorted (map (\<lambda>(m, _, _). - int (mt_txid m)) (candidates b0 b1))"
    unfolding candidates_def by (rule sorted_sort_key)
  then show "sorted_wrt (\<lambda>c d. mt_txid (fst d) \<le> mt_txid (fst c)) (candidates b0 b1)"
    by (simp add: sorted_map case_prod_unfold)
  assume c: "slot_complete en pa s n" "s \<in> {0, 1}"
  then obtain m0 where "(m0, if s = 0 then b0 else b1, s) \<in> set (candidates b0 b1)"
    using assms mem by (fastforce simp: slot_complete_def)
  then show "s \<in> slot_of ` set (candidates b0 b1)" by force
qed

lemma select_outcome:
  assumes "page_size_valid (pa_page_size pa)" and trust: "\<not> pa_trust_meta pa" "cache_sound pa"
  shows "case select_generation None codec pa of
      Inr (m, pa') \<Rightarrow> \<exists>same. adopts codec pa {0, 1} same m pa'
    | Inl e \<Rightarrow> host_failed pa e
        \<or> refused codec pa {0, 1} \<and> fst e = DataCorrupted
        \<or> e = corrupt_page ''no complete valid meta page''
            \<and> (\<forall>s\<in>{0, 1}. \<forall>n. \<not> slot_complete (encrypted_by codec) pa s n)"
proof (cases "read_page_block pa 0")
  case (Inl e)
  then show ?thesis using assms(1) by (auto simp: select_generation_def host_failed_def)
next
  case b0: (Inr b0)
  show ?thesis
  proof (cases "read_page_block pa 1")
    case (Inl e)
    then show ?thesis using assms(1) b0 by (auto simp: select_generation_def host_failed_def)
  next
    case b1: (Inr b1)
    let ?cs = "candidates b0 b1" and ?en = "encrypted_by codec"
    note ok = candidates_ok [OF b0 b1]
    have "\<exists>same. select_generation None codec pa = adopt_loop codec same pa ?cs"
      by (rule exI) (simp only: select_generation_def candidates_def assms(1) b0 b1 res_bind.simps Let_def
        not_True_eq_False if_False option.case)
    then obtain same where sel: "select_generation None codec pa = adopt_loop codec same pa ?cs" by blast
    have new: "newest ?en pa (slot_of ` set ?cs) k \<longleftrightarrow> newest ?en pa {0, 1} k" for k
      using ok(3,4) unfolding newest_def by blast
    have ref: "refused codec pa (slot_of ` set ?cs) \<Longrightarrow> refused codec pa {0, 1}"
      using ok(4) unfolding refused_def new by blast
    have ad: "adopts codec pa (slot_of ` set ?cs) same m pa' \<Longrightarrow> adopts codec pa {0, 1} same m pa'" for m pa'
      using ok(4) unfolding adopts_def new by blast
    have none: "(\<forall>s\<in>slot_of ` set ?cs. \<forall>n. \<not> slot_complete ?en pa s n) \<Longrightarrow> (\<forall>s\<in>{0, 1}. \<forall>n. \<not> slot_complete ?en pa s n)"
      using ok(3) by blast
    note o = adopt_loop_outcome [OF trust ok(1,2), of codec same]
    show ?thesis
    proof (cases "select_generation None codec pa")
      case (Inl e)
      from o show ?thesis using ref none unfolding sel [symmetric] Inl sum.case by blast
    next
      case (Inr x)
      obtain m pa' where x: "x = (m, pa')" by (cases x)
      from o show ?thesis using ad unfolding sel [symmetric] Inr x sum.case prod.case by blast
    qed
  qed
qed

text \<open>What adopting leaves in the pager.\<close>

lemma adopted_pager:
  "pa_adopted (adopted same pa s b m) = Some (mt_txid m, u32_at b 32)"
  "pa_validation (adopted same pa s b m) = Some (b, mt_protected m)"
  "read_page_block (adopted same pa s b m) = read_page_block pa"
  "pa_allocated (adopted same pa s b m) = pa_allocated pa"
  by (auto simp: adopted_def adopt_generation_def cache_validation_def read_page_block_def fun_eq_iff Let_def)

lemma adopted_sound:
  assumes "read_page_block pa s = Inr b" "slot_complete en pa s m"
  shows "cache_sound (adopted same pa s b m)"
  using assms unfolding cache_sound_def adopted_pager slot_complete_def by auto

section \<open>After a crash\<close>

lemma slot_complete_frame:
  assumes "slot_complete en pa s m" "pa_allocated pa \<le> pa_allocated pa'"
    and "\<And>i. i \<in> insert s (mt_protected m) \<Longrightarrow> read_page_block pa' i = read_page_block pa i"
  shows "slot_complete en pa' s m"
proof -
  obtain b m0 prot where c: "read_page_block pa s = Inr b" "parse_meta b = Some m0" "(mt_suite m0 \<noteq> 0) = en"
    "m = m0\<lparr> mt_protected := prot \<rparr>" and v: "validate_inner b (pa_allocated pa) (read_page_block pa) = Inr prot"
    using assms(1) by (auto simp: slot_complete_def validate_manifest_Some)
  have "validate_inner b (pa_allocated pa') (read_page_block pa') = Inr prot"
    using assms(2,3) c(4) by (intro validate_inner_frame [OF v]) auto
  then show ?thesis using c assms(3) [of s] by (auto simp: slot_complete_def validate_manifest_Some)
qed

lemma slot_authentic_frame:
  assumes "slot_complete en pa s m" "slot_authentic codec pa s" "\<not> pa_trust_meta pa" "\<not> pa_trust_meta pa'"
    and "\<And>i. i \<in> insert s (mt_protected m) \<Longrightarrow> read_page_block pa' i = read_page_block pa i"
  shows "slot_authentic codec pa' s"
proof -
  obtain b where c: "read_page_block pa s = Inr b"
      "validate_inner b (pa_allocated pa) (read_page_block pa) = Inr (mt_protected m)"
    using assms(1) by (auto simp: slot_complete_def validate_manifest_Some)
  have "chain_pages b (read_page_block pa') = chain_pages b (read_page_block pa)"
    using chain_pages_frame [OF c(2), of "read_page_block pa'"] assms(5) by blast
  then have "authenticate codec pa' s b = authenticate codec pa s b"
    using assms(3,4) by (cases codec) (simp_all add: authenticate_def cong del: sum.case_cong_weak)
  then show ?thesis using assms(2) assms(5) [of s] c(1) by (auto simp: slot_authentic_def)
qed

end
