(* ===== verification/Commit_Safety.thy ===== *)
theory Commit_Safety
  imports Commit_Write Crc64_Laws Slot_Adoption
begin

text \<open>
  The properties of the commit format: a written commit is accepted, an open adopts the newest complete
  slot, an interrupted commit never loses the generation it started from, a damaged page is noticed,
  and the integrity audit agrees with the validation.
\<close>

section \<open>A damaged page\<close>




section \<open>The audit\<close>

lemma audit_entries_ok:
  assumes "list_all (entry_ok read en first pc) es" "pc \<le> physical"
  shows "audit_entries read first physical es prot bad = Inr (prot \<union> fst ` set es, bad)"
  using assms
proof (induction es arbitrary: prot)
  case (Cons e es)
  obtain i h where e: "e = (i, h)" by (cases e)
  obtain page where "read i = Inr page" "unat (crc64_extend 0 page) = h" "first \<le> i" "i < pc"
    using Cons.prems e by (auto simp: entry_ok_def check_identity_def split: if_splits)
  then show ?case using Cons e by simp
qed simp

lemma audit_chain_ok:
  "check_chain read meta en first pc k n st = Inr st' \<Longrightarrow> pc \<le> physical
   \<Longrightarrow> audit_chain read meta first physical n (ch_next st) (ch_remaining st) (ch_digest st) (ch_protected st) bad
     = Inr (ch_protected st', bad, ch_digest st', True)"
proof (induction n arbitrary: k st)
  case (Suc n)
  from Suc.prems(1) obtain pg p s where s: "chain_step read meta en first pc k st pg p s"
    and c: "check_chain read meta en first pc (Suc k) n s = Inr st'" unfolding check_chain_Suc by blast
  let ?es = "manifest_entries (chain_number meta st) (drop OVERFLOW_HEADER pg)"
  have l: "list_all (entry_ok read en first pc) ?es"
      "ch_protected s = insert (ch_next st) (ch_protected st) \<union> fst ` set ?es"
    using s by (auto simp: chain_step_def check_listed_iff)
  have a: "audit_entries read first physical ?es (insert (ch_next st) (ch_protected st)) bad
      = Inr (ch_protected s, bad)"
    using audit_entries_ok [OF l(1) Suc.prems(2)] l(2) by simp
  show ?case
    using s a Suc.IH [OF c Suc.prems(2)] Suc.prems(2)
    by (simp add: chain_step_def bad_overflow_def Let_def chain_number_def [symmetric])
qed simp

section \<open>A complete commit\<close>

lemma commit_ok:
  assumes base: "meta_page (cap_plain ps) ps txid root pc free live = Some base"
    and enc: "encode_manifest base (cap_plain ps) entries ids = Some (slot, pages)"
    and ps: "64 \<le> ps" "ps < 2 ^ 32" "txid < 2 ^ 64" "pc < 2 ^ 32" "pc \<le> physical" "live \<le> pc - 2"
    and dist: "distinct (map fst entries @ ids)" "set (map fst entries @ ids) \<subseteq> {2..<pc}"
    and roots: "pr_page root \<in> fst ` set entries" "pr_page free = 0 \<or> pr_page free \<in> fst ` set entries"
    and room: "overflow_needed ps (cap_plain ps) (length entries) \<le> length ids"
    and st: "stored read entries" "\<forall>(i, page)\<in>set pages. read i = Inr page"
  shows "parse_meta slot = Some \<lparr> mt_suite = 0, mt_txid = txid, mt_root_page = pr_page root, mt_root_tag = NO_TAG,
      mt_free_list_tag = NO_TAG, mt_page_count = pc, mt_free_list_head = pr_page free, mt_live_pages = live,
      mt_protected = {} \<rparr>
    \<and> validate_manifest slot physical read = Inr (Some (fst ` set entries \<union> set ids))"
    "length slot = ps"
proof -
  have r: "2 \<le> pr_page root" "pr_page root < pc" using roots(1) dist(2) by auto
  have f: "pr_page free \<noteq> 0 \<Longrightarrow> 2 \<le> pr_page free \<and> pr_page free < pc" using roots(2) dist(2) by auto
  have b: "pr_page root < 2 ^ 32" "pr_page free < 2 ^ 32" "live < 2 ^ 32"
    using r f ps by (cases "pr_page free = 0"; simp)+
  note pm = meta_page_plain [OF base ps(1-3) b(1) ps(4) b(2,3)]
  note v = commit_validates [OF pm enc ps(1,2,4,5) dist roots room st]
  show "parse_meta slot = Some \<lparr> mt_suite = 0, mt_txid = txid, mt_root_page = pr_page root, mt_root_tag = NO_TAG,
      mt_free_list_tag = NO_TAG, mt_page_count = pc, mt_free_list_head = pr_page free, mt_live_pages = live,
      mt_protected = {} \<rparr>
    \<and> validate_manifest slot physical read = Inr (Some (fst ` set entries \<union> set ids))"
    using v(1) parse_plain_meta [OF v(2) ps(1,3) v(3) r f ps(6)] by (simp add: validate_manifest_Some)
  show "length slot = ps" using v(2) by (simp add: plain_meta_def)
qed

section \<open>A sample commit\<close>

definition sample_page :: bytes where "sample_page = the (make_page 256 2 0 0 [])"

definition sample_base :: bytes where
  "sample_base = the (meta_page (cap_plain 256) 256 1 \<lparr> pr_page = 2, pr_tag = NO_TAG \<rparr> 3 \<lparr> pr_page = 0, pr_tag = NO_TAG \<rparr> 1)"

definition sample_slot :: bytes where
  "sample_slot = fst (the (encode_manifest sample_base (cap_plain 256) [(2, crc64_extend 0 sample_page)] []))"

definition sample_meta :: meta where
  "sample_meta = \<lparr> mt_suite = 0, mt_txid = 1, mt_root_page = 2, mt_root_tag = NO_TAG, mt_free_list_tag = NO_TAG,
     mt_page_count = 3, mt_free_list_head = 0, mt_live_pages = 1, mt_protected = {2} \<rparr>"

lemma sample_commit_written:
  "make_page 256 2 0 0 [] = Some sample_page"
  "meta_page (cap_plain 256) 256 1 \<lparr> pr_page = 2, pr_tag = NO_TAG \<rparr> 3 \<lparr> pr_page = 0, pr_tag = NO_TAG \<rparr> 1
    = Some sample_base"
  "encode_manifest sample_base (cap_plain 256) [(2, crc64_extend 0 sample_page)] [] = Some (sample_slot, [])"
proof -
  show "make_page 256 2 0 0 [] = Some sample_page"
    using make_page_ok [of "[]" 256] by (auto simp: sample_page_def)
  show "meta_page (cap_plain 256) 256 1 \<lparr> pr_page = 2, pr_tag = NO_TAG \<rparr> 3 \<lparr> pr_page = 0, pr_tag = NO_TAG \<rparr> 1
    = Some sample_base"
    by (simp add: sample_base_def meta_page_def cap_plain_def encrypted_variant_def Let_def)
  have "\<exists>sl. encode_manifest sample_base (cap_plain 256) [(2, crc64_extend 0 sample_page)] [] = Some (sl, [])"
    by (simp add: encode_manifest_def Let_def split: prod.split)
  then show "encode_manifest sample_base (cap_plain 256) [(2, crc64_extend 0 sample_page)] [] = Some (sample_slot, [])"
    by (auto simp: sample_slot_def)
qed

lemmas sample_page_bytes = make_page_bytes [OF sample_commit_written(1), simplified]

lemma sample_stored:
  "typed_page False sample_page = Inr True"
  "stored (\<lambda>_. Inr sample_page) [(2, crc64_extend 0 sample_page)]"
proof -
  show "typed_page False sample_page = Inr True" by (simp add: typed_page_def sample_page_bytes)
  then show "stored (\<lambda>_. Inr sample_page) [(2, crc64_extend 0 sample_page)]" by (simp add: stored_def)
qed

lemma sample_room: "overflow_needed 256 (cap_plain 256) (length [(2 :: nat, crc64_extend 0 sample_page)]) \<le> length ([] :: nat list)"
  by (simp add: overflow_needed_def capacities_def inline_area_def cap_plain_def encrypted_variant_def HEADER_def
      OVERFLOW_HEADER_def ENTRY_def)

lemma sample_commit_ok:
  assumes "stored read [(2, crc64_extend 0 sample_page)]" "3 \<le> physical"
  shows "parse_meta sample_slot = Some (sample_meta\<lparr> mt_protected := {} \<rparr>)"
    "validate_manifest sample_slot physical read = Inr (Some {2})" "length sample_slot = 256"
  using commit_ok [OF sample_commit_written(2,3) _ _ _ _ assms(2) _ _ _ _ _ sample_room assms(1)]
  by (simp_all add: sample_meta_def)

lemmas sample_slot_length = sample_commit_ok(3) [OF sample_stored(2) order_refl]

text \<open>A file in memory, and the pager of a fresh open of it.\<close>

definition memory_pager :: "bytes \<Rightarrow> pager" where
  "memory_pager disk = \<lparr> pa_read_at = (\<lambda>off len. Inr (get_slice off len disk)), pa_page_size = 256,
     pa_allocated = length disk div 256, pa_validation = None, pa_acknowledged = None, pa_adopted = None,
     pa_needs_stabilize = False, pa_commit_in_progress = False, pa_poisoned = False, pa_trust_meta = False,
     pa_floor_slot = 0, pa_pending = Map.empty, pa_shrink_pending = False, pa_shrink_pages = 0,
     pa_encrypted = False \<rparr>"

lemma memory_pager_simps [simp]:
  "read_page_block (memory_pager disk) i = Inr (get_slice (i * 256) 256 disk)"
  "pa_allocated (memory_pager disk) = length disk div 256" "\<not> pa_trust_meta (memory_pager disk)"
  "cache_sound (memory_pager disk)" "page_size_valid (pa_page_size (memory_pager disk))"
proof -
  have "\<exists>k\<in>set [0..<64]. (256 :: nat) = 2 ^ k" by (rule bexI [of _ 8]) simp_all
  then have "page_size_valid 256" by (simp add: page_size_valid_def list_ex_iff MIN_FILE_PAGE_def MAX_FILE_PAGE_def)
  moreover have "pa_page_size (memory_pager disk) = 256" by (simp add: memory_pager_def)
  ultimately show "page_size_valid (pa_page_size (memory_pager disk))" by (simp only:)
qed (simp_all add: memory_pager_def read_page_block_def cache_sound_def)

lemma sample_disk:
  assumes "length other = 256"
  shows "slot_complete False (memory_pager (sample_slot @ other @ sample_page @ rest)) 0 sample_meta"
proof -
  let ?disk = "sample_slot @ other @ sample_page @ rest"
  have b: "get_slice 0 256 ?disk = sample_slot" "get_slice 512 256 ?disk = sample_page"
    using assms sample_slot_length sample_page_bytes(1) by (simp_all add: get_slice_def)
  have len: "3 \<le> length ?disk div 256"
    using assms sample_slot_length sample_page_bytes(1) by simp
  have "stored (read_page_block (memory_pager ?disk)) [(2, crc64_extend 0 sample_page)]"
    using sample_stored b(2) by (simp add: stored_def)
  note ok = sample_commit_ok [OF this len]
  show ?thesis unfolding slot_complete_def
    using ok b(1) by (intro exI [of _ sample_slot] exI [of _ "sample_meta\<lparr> mt_protected := {} \<rparr>"] exI [of _ "{2}"])
      (simp add: sample_meta_def)
qed

lemma plain_authentic [simp]:
  "slot_authentic None pa s \<longleftrightarrow> (\<exists>b. read_page_block pa s = Inr b)"
  by (simp add: slot_authentic_def authenticate_def)

section \<open>Properties\<close>

text \<open>
  C5. An interrupted commit never loses the generation it started from. Let a slot be complete and, in an
  encrypted file, authentic; let a crash leave any bytes in the other slot and in the pages outside that
  generation, in a file that may have grown. Then the slot selection of the next open succeeds, on that
  generation or on a complete one that is not older, and on that very one unless the other slot is
  complete. The open is one that validates what it adopts (not a page client's, which trusts its owner),
  the host reads every allocated page, and in an encrypted file a complete slot is authentic: a forged
  one ends the open.
\<close>

theorem crash_keeps_generation:
  assumes before: "slot_complete (encrypted_by codec) pa s m" "slot_authentic codec pa s" "s < 2" "\<not> pa_trust_meta pa"
    and after: "page_size_valid (pa_page_size pa')" "\<not> pa_trust_meta pa'" "cache_sound pa'"
      "pa_allocated pa \<le> pa_allocated pa'"
      "\<And>i. i < max 2 (pa_allocated pa') \<Longrightarrow> \<exists>b. read_page_block pa' i = Inr b"
    and same: "\<And>i. i \<in> insert s (mt_protected m) \<Longrightarrow> read_page_block pa' i = read_page_block pa i"
    and other: "\<And>n. slot_complete (encrypted_by codec) pa' (1 - s) n \<Longrightarrow> slot_authentic codec pa' (1 - s)"
  shows "\<exists>m' pa''. select_generation None codec pa' = Inr (m', pa'') \<and> mt_txid m \<le> mt_txid m'
    \<and> (m' = m \<or> slot_complete (encrypted_by codec) pa' (1 - s) m')"
proof -
  let ?en = "encrypted_by codec"
  have s: "{0, 1} = {s, 1 - s}" using before(3) by auto
  have c: "slot_complete ?en pa' s m" by (rule slot_complete_frame [OF before(1) after(4) same])
  have a: "slot_authentic codec pa' s"
    by (rule slot_authentic_frame [OF before(1,2,4) after(2) same])
  have "\<not> host_failed pa' e" for e using after(5) unfolding host_failed_def by (metis sum.distinct(1))
  moreover have "\<not> refused codec pa' {0, 1}" using a other unfolding refused_def s by auto
  moreover have "\<exists>t\<in>{0, 1}. \<exists>n. slot_complete ?en pa' t n" using c unfolding s by blast
  ultimately obtain m' pa'' same_txid where sel: "select_generation None codec pa' = Inr (m', pa'')"
    and ad: "adopts codec pa' {0, 1} same_txid m' pa''"
    using select_outcome [OF after(1-3), of codec]
    by (cases "select_generation None codec pa'") (auto split: prod.splits)
  then obtain t where t: "t \<in> {s, 1 - s}" "slot_complete ?en pa' t m'" and new: "newest ?en pa' {0, 1} (mt_txid m')"
    unfolding adopts_def s by blast
  have "mt_txid m \<le> mt_txid m'" using new c unfolding newest_def s by blast
  moreover have "m' = m \<or> slot_complete ?en pa' (1 - s) m'" using t c slot_complete_unique by blast
  ultimately show ?thesis using sel by blast
qed

theorem crash_keeps_generation_witness:
  "\<exists>m' pa'. select_generation None None (memory_pager (sample_slot @ replicate 256 255 @ sample_page @ replicate 256 9))
      = Inr (m', pa') \<and> 1 \<le> mt_txid m'"
proof -
  let ?disk = "sample_slot @ replicate 256 0 @ sample_page @ []"
  let ?torn = "sample_slot @ replicate 256 255 @ sample_page @ replicate 256 9"
  have "get_slice (i * 256) 256 ?torn = get_slice (i * 256) 256 ?disk" if "i \<in> insert 0 (mt_protected sample_meta)" for i
    using that sample_slot_length sample_page_bytes(1) by (auto simp: sample_meta_def get_slice_def)
  then have "\<exists>m' pa'. select_generation None None (memory_pager ?torn) = Inr (m', pa') \<and> mt_txid sample_meta \<le> mt_txid m'
      \<and> (m' = sample_meta \<or> slot_complete (encrypted_by None) (memory_pager ?torn) (1 - 0) m')"
    using sample_slot_length sample_page_bytes(1) sample_disk [of "replicate 256 0" "[]"]
    by (intro crash_keeps_generation [of None "memory_pager ?disk" 0 sample_meta "memory_pager ?torn"]) auto
  then show ?thesis by (auto simp: sample_meta_def)
qed


text \<open>
  C14. An open adopts the newest complete slot, or says why it does not. On a pager that validates what it
  adopts, with a sound cache: a meta is adopted only from a complete slot, authentic if the file is
  encrypted, no complete slot has a greater transaction id, and the pager then carries that generation
  with a sound cache; and the choice fails only when a read of the host fails, when no slot is complete,
  or when the newest complete slot fails its authentication, for which there is no fallback: corruption.
\<close>

theorem open_adopts_newest:
  assumes "page_size_valid (pa_page_size pa)" "\<not> pa_trust_meta pa" "cache_sound pa"
  shows "case select_generation None codec pa of
      Inr (m, pa') \<Rightarrow>
        (\<exists>s\<in>{0, 1}. \<exists>b. read_page_block pa s = Inr b \<and> slot_complete (encrypted_by codec) pa s m
           \<and> slot_authentic codec pa s \<and> pa_adopted pa' = Some (mt_txid m, u32_at b 32))
        \<and> newest (encrypted_by codec) pa {0, 1} (mt_txid m) \<and> cache_sound pa'
    | Inl e \<Rightarrow> host_failed pa e
        \<or> fst e = DataCorrupted
          \<and> (refused codec pa {0, 1} \<or> (\<forall>s\<in>{0, 1}. \<forall>n. \<not> slot_complete (encrypted_by codec) pa s n))"
proof (cases "select_generation None codec pa")
  case (Inl e)
  then show ?thesis using select_outcome [OF assms, of codec] by (auto simp: corrupt_page_def)
next
  case (Inr x)
  obtain m pa' where x: "x = (m, pa')" by (cases x)
  then obtain same where ad: "adopts codec pa {0, 1} same m pa'"
    using select_outcome [OF assms, of codec] Inr by auto
  then obtain s b where s: "s \<in> {0, 1}" "read_page_block pa s = Inr b" "slot_complete (encrypted_by codec) pa s m"
    "slot_authentic codec pa s" and pa': "pa' = adopted same pa s b m" unfolding adopts_def by blast
  have "pa_adopted pa' = Some (mt_txid m, u32_at b 32)" by (simp only: pa' adopted_pager)
  moreover have "cache_sound pa'" using adopted_sound [OF s(2,3)] pa' by simp
  ultimately show ?thesis using Inr x s ad unfolding adopts_def by auto
qed

theorem open_adopts_newest_witness:
  "\<exists>m pa'. select_generation None None (memory_pager (sample_slot @ replicate 256 255 @ sample_page @ replicate 256 9))
      = Inr (m, pa') \<and> 1 \<le> mt_txid m \<and> cache_sound pa'"
proof -
  let ?torn = "sample_slot @ replicate 256 255 @ sample_page @ replicate 256 9"
  let ?pa = "memory_pager ?torn"
  have c: "slot_complete (encrypted_by None) ?pa 0 sample_meta" using sample_disk by simp
  have "\<not> host_failed ?pa e" "\<not> refused None ?pa {0, 1}" for e by (auto simp: host_failed_def refused_def)
  then obtain m pa' where "select_generation None None ?pa = Inr (m, pa')"
      "newest (encrypted_by None) ?pa {0, 1} (mt_txid m)" "cache_sound pa'"
    using open_adopts_newest [of ?pa None] c by (auto split: sum.splits prod.splits)
  moreover from this(2) have "mt_txid sample_meta \<le> mt_txid m" using c unfolding newest_def by blast
  ultimately show ?thesis by (auto simp: sample_meta_def)
qed

text \<open>
  C7. A commit that was written completely opens. For a plaintext file, the meta slot and manifest
  pages produced for the pages of a commit parse back to the values they were made from, and the
  manifest validates against storage that holds those pages, protecting exactly the listed pages and
  the manifest's own.
\<close>

theorem commit_accepted:
  assumes base: "meta_page (cap_plain ps) ps txid root pc free live = Some base"
    and enc: "encode_manifest base (cap_plain ps) entries ids = Some (slot, pages)"
    and ps: "64 \<le> ps" "ps < 2 ^ 32" "txid < 2 ^ 64" "pc < 2 ^ 32" "pc \<le> physical" "live \<le> pc - 2"
    and dist: "distinct (map fst entries @ ids)" "set (map fst entries @ ids) \<subseteq> {2..<pc}"
    and roots: "pr_page root \<in> fst ` set entries" "pr_page free = 0 \<or> pr_page free \<in> fst ` set entries"
    and room: "overflow_needed ps (cap_plain ps) (length entries) \<le> length ids"
    and st: "stored read entries" "\<forall>(i, page)\<in>set pages. read i = Inr page"
  shows "parse_meta slot = Some \<lparr> mt_suite = 0, mt_txid = txid, mt_root_page = pr_page root, mt_root_tag = NO_TAG,
      mt_free_list_tag = NO_TAG, mt_page_count = pc, mt_free_list_head = pr_page free, mt_live_pages = live,
      mt_protected = {} \<rparr>
    \<and> validate_manifest slot physical read = Inr (Some (fst ` set entries \<union> set ids))"
  by (rule commit_ok(1) [OF assms])

theorem commit_accepted_witness:
  "validate_manifest sample_slot 3 (\<lambda>_. Inr sample_page) = Inr (Some {2})
   \<and> parse_meta sample_slot = Some (sample_meta\<lparr> mt_protected := {} \<rparr>)"
  using commit_accepted [OF sample_commit_written(2,3) _ _ _ _ _ _ _ _ _ _ sample_room sample_stored(2), of 3]
  by (simp add: sample_meta_def)





text \<open>
  C26. The audit of the integrity check agrees with the validation: on a slot that validates it reports
  no page, and the same protected pages.
\<close>

theorem audit_agrees:
  assumes "validate_manifest slot physical read = Inr (Some prot)"
  shows "audit_manifest slot physical read = Inr (prot, [])"
proof -
  obtain lo hi where a: "inline_area (length slot) (slot ! 6 \<noteq> 0) = (lo, hi)" by fastforce
  let ?en = "slot ! 6 \<noteq> 0" and ?pc = "u32_at slot 24" and ?n = "u32_at slot 44"
  let ?first = "first_body (cap_of (length slot) ?en)"
  let ?inline = "min (u32_at slot 40) ((hi - lo) div ENTRY)"
  let ?es = "manifest_entries ?inline (get_slice lo (hi - lo) slot)"
  from assms obtain l p st where h: "\<not> bad_header slot physical"
    and c: "check_inline read ?en ?first ?pc ?es 1 {} = Inr (l, p)"
      "check_chain read slot ?en ?first ?pc 0 ?n \<lparr> ch_next = u32_at slot 36, ch_last = l, ch_protected = p,
          ch_remaining = u32_at slot 40 - ?inline, ch_digest = 0 \<rparr> = Inr st"
    and e: "\<not> bad_end slot st" "ch_protected st = prot"
    by (auto simp: validate_manifest_Some validate_inner_def Let_def a split: if_splits)
  have pc: "?pc \<le> physical" using h by (simp add: bad_header_def Let_def)
  have i: "audit_entries read ?first physical ?es {} [] = Inr (p, [])"
    using c(1) audit_entries_ok [OF _ pc, of read ?en ?first ?es "{}" "[]"] by (simp add: check_inline_iff)
  have ch: "audit_chain read slot ?first physical ?n (u32_at slot 36) (u32_at slot 40 - ?inline) 0 p []
      = Inr (prot, [], ch_digest st, True)"
    using audit_chain_ok [OF c(2) pc, of "[]"] e(2) by simp
  show ?thesis using i ch e(1) by (simp add: audit_manifest_def Let_def a bad_end_def)
qed

theorem audit_agrees_witness:
  "audit_manifest sample_slot 3 (\<lambda>_. Inr sample_page) = Inr ({2}, [])"
  using sample_commit_ok(2) [OF sample_stored(2), of 3] by (intro audit_agrees) simp


end
