(* ===== verification/Free_List.thy ===== *)
theory Free_List
  imports Commit_Safety
begin

text \<open>
  The persisted free list of \<open>format.rs\<close> (\<open>serialize_free_list\<close>, \<open>read_free_list\<close>, \<open>trailing_run\<close>,
  \<open>reclaim_due\<close>) of a plaintext file, whose sealer is \<open>make_page\<close>, and what a commit relies on: no page is
  lost or listed twice, the list does not name its own pages, and an open reads back what was written.
\<close>

definition PAGE_FREELIST :: u8 where "PAGE_FREELIST = 7"

section \<open>Trailing pages\<close>

text \<open>The loop of \<open>trailing_run\<close>, over the list from its end.\<close>

fun trailing_loop :: "nat list \<Rightarrow> nat \<Rightarrow> nat list \<times> nat" where
  "trailing_loop [] k = ([], k)"
| "trailing_loop (p # rest) k = (if p = k - 1 then trailing_loop rest (k - 1) else (p # rest, k))"

definition trailing_run :: "nat list \<Rightarrow> nat \<Rightarrow> nat list \<times> nat" where
  "trailing_run safe high = (let (below, k) = trailing_loop (rev safe) high in (rev below, k))"

definition COMPACT_MIN_PAGES :: nat where "COMPACT_MIN_PAGES = 16"
definition COMPACT_GROWTH :: nat where "COMPACT_GROWTH = 2"

definition reclaim_due :: "nat \<Rightarrow> nat \<Rightarrow> nat \<Rightarrow> bool" where
  "reclaim_due page_count free live_at_compaction =
     (let unlisted = page_count - free
      in unlisted > COMPACT_MIN_PAGES \<and> unlisted > COMPACT_GROWTH * live_at_compaction)"

section \<open>Writing\<close>

definition page_limit :: engine_error where
  "page_limit = (ProgramLimitExceeded, ''database page limit exceeded'')"

text \<open>
  The pages drawn for the chain: their numbers, how many came from \<open>safe\<close>, and the new high-water.
  \<open>content\<close> is what remains to be held.
\<close>

function draw_pages :: "nat \<Rightarrow> nat \<Rightarrow> nat list \<Rightarrow> nat list \<Rightarrow> nat \<Rightarrow> nat \<Rightarrow> (nat list \<times> nat \<times> nat) result" where
  "draw_pages per content safe ids drawn hw =
     (if (content + per - 1) div per \<le> length ids then Inr (ids, drawn, hw)
      else case safe of
             p # safe \<Rightarrow> draw_pages per (content - 1) safe (ids @ [p]) (Suc drawn) hw
           | [] \<Rightarrow>
               if hw + 1 \<ge> 2 ^ 32 then Inl page_limit
               else draw_pages per content [] (ids @ [hw]) drawn (hw + 1))"
  by pat_completeness auto

termination
  by (relation "measures [\<lambda>(per, content, safe, ids, drawn, hw). length safe,
      \<lambda>(per, content, safe, ids, drawn, hw). (content + per - 1) div per - length ids]") auto

declare draw_pages.simps [simp del]

definition id_bytes :: "nat list \<Rightarrow> bytes" where
  "id_bytes ids = concat (map (\<lambda>e. be_bytes 4 (int e)) ids)"

text \<open>The chain, last page first: its pages in chain order and its head. \<open>ci\<close> counts from the head.\<close>

fun build_chain :: "nat \<Rightarrow> nat \<Rightarrow> nat list \<Rightarrow> nat \<Rightarrow> nat list \<Rightarrow> ((nat \<times> bytes) list \<times> nat) option" where
  "build_chain ps per persisted ci [] = Some ([], 0)"
| "build_chain ps per persisted ci (page_no # ids) =
     (case build_chain ps per persisted (Suc ci) ids of
        None \<Rightarrow> None
      | Some (pages, next_page) \<Rightarrow>
          let chunk = take per (drop (ci * per) persisted)
          in case make_page ps PAGE_FREELIST (length chunk) next_page (id_bytes chunk) of
               None \<Rightarrow> None
             | Some bytes \<Rightarrow> Some ((page_no, bytes) # pages, page_no))"

definition serialize_free_list ::
    "nat \<Rightarrow> nat list \<Rightarrow> nat list \<Rightarrow> nat \<Rightarrow> ((nat \<times> bytes) list \<times> nat \<times> nat list \<times> nat) io" where
  "serialize_free_list ps persist safe next =
     (if length persist < 2 then Some (Inr ([], 0, persist, next))
      else
        let per = max (page_payload ps div 4) 1
        in case draw_pages per (length persist) safe [] 0 next of
             Inl e \<Rightarrow> Some (Inl e)
           | Inr (ids, drawn, hw) \<Rightarrow>
               let persisted = filter (\<lambda>p. p \<notin> set (take drawn ids)) persist
               in map_option (\<lambda>(pages, head). Inr (pages, head, persisted, hw)) (build_chain ps per persisted 0 ids))"

section \<open>Reading\<close>

text \<open>The entries of one page; \<open>pos\<close> is the bytes that remain.\<close>

fun read_free_entries ::
    "nat \<Rightarrow> nat \<Rightarrow> nat set \<Rightarrow> nat \<Rightarrow> bytes \<Rightarrow> nat list \<Rightarrow> nat list result" where
  "read_free_entries first page_count protected 0 pos free = Inr free"
| "read_free_entries first page_count protected (Suc n) pos free =
     (if length pos < 4 then Inl (corrupt_page ''unexpected end of page data'')
      else
        let pid = u32_at pos 0
        in if pid < first \<or> pid \<ge> page_count \<or> (free \<noteq> [] \<and> pid \<le> last free) \<or> pid \<in> protected
           then Inl (corrupt_page ''invalid free-list entry'')
           else read_free_entries first page_count protected n (drop 4 pos) (free @ [pid]))"

lemma fresh_page_measure:
  fixes p pc :: nat
  assumes "\<not> (p < first \<or> p \<ge> pc \<or> p \<in> chain)"
  shows "card ({..<pc} - insert p chain) < card ({..<pc} - chain)"
proof -
  have "p \<in> {..<pc} - chain" using assms by simp
  then have "card ({..<pc} - chain - {p}) < card ({..<pc} - chain)" by (intro card_Diff1_less) simp_all
  then show ?thesis by (subst Diff_insert)
qed

function read_free_chain ::
    "reads \<Rightarrow> nat \<Rightarrow> nat \<Rightarrow> nat set \<Rightarrow> nat \<Rightarrow> nat set \<Rightarrow> nat list \<Rightarrow> (nat set \<times> nat list) result" where
  "read_free_chain read first page_count protected p chain free =
     (if p = 0 then Inr (chain, free)
      else if p < first \<or> p \<ge> page_count \<or> p \<in> chain then Inl (corrupt_page ''invalid free-list chain'')
      else res_bind (read p) (\<lambda>block.
           res_bind (parse_page block) (\<lambda>page.
             if pg_type page \<noteq> PAGE_FREELIST then Inl (corrupt_page ''expected a free-list page'')
             else res_bind (read_free_entries first page_count protected (pg_item_count page) (pg_payload page) free) (\<lambda>free.
                    read_free_chain read first page_count protected (pg_next page) (insert p chain) free))))"
  by pat_completeness auto

termination
  by (relation "measure (\<lambda>(read, first, page_count, protected, p, chain, free). card ({..<page_count} - chain))")
    (simp, simp only: in_measure split_conv fresh_page_measure)

declare read_free_chain.simps [simp del]

definition read_free_list :: "reads \<Rightarrow> nat \<Rightarrow> nat \<Rightarrow> nat \<Rightarrow> nat set \<Rightarrow> nat list result" where
  "read_free_list read first head page_count protected =
     res_bind (read_free_chain read first page_count protected head {} []) (\<lambda>(chain, free).
       if \<exists>p\<in>set free. p \<in> chain then Inl (corrupt_page ''free list contains its own chain'') else Inr free)"

section \<open>Trailing pages, exactly\<close>

lemma trailing_loop_run:
  "trailing_loop xs k = (ys, k') \<Longrightarrow> 0 \<notin> set xs \<Longrightarrow> length xs < k
   \<Longrightarrow> k' \<le> k \<and> xs = rev [k'..<k] @ ys \<and> (ys = [] \<or> hd ys \<noteq> k' - 1)"
proof (induction xs arbitrary: k)
  case (Cons p xs)
  show ?case
  proof (cases "p = k - 1")
    case True
    with Cons.prems have "trailing_loop xs (k - 1) = (ys, k')" "0 \<notin> set xs" "length xs < k - 1" by auto
    from Cons.IH [OF this] have *: "k' \<le> k - 1" "xs = rev [k'..<k - 1] @ ys" "ys = [] \<or> hd ys \<noteq> k' - 1" by auto
    have "[k'..<k] = [k'..<k - 1] @ [k - 1]"
      using *(1) Cons.prems(3) by (metis Suc_diff_1 gr_zeroI not_less0 upt_Suc_append)
    then show ?thesis using * True by auto
  next
    case False
    then show ?thesis using Cons.prems by auto
  qed
qed auto

section \<open>Drawing pages\<close>

lemma draw_pages_spec:
  "draw_pages per content safe ids drawn hw = Inr (ids', drawn', hw') \<Longrightarrow> 0 < per
   \<Longrightarrow> \<exists>j. drawn' = drawn + j \<and> j \<le> length safe \<and> hw \<le> hw' \<and> ids' = ids @ take j safe @ [hw..<hw']
      \<and> (hw < 2 ^ 32 \<longrightarrow> hw' < 2 ^ 32) \<and> (content - j + per - 1) div per \<le> length ids'"
proof (induction per content safe ids drawn hw rule: draw_pages.induct)
  case (1 per content safe ids drawn hw)
  note D = draw_pages.simps [of per content safe ids drawn hw]
  show ?case
  proof (cases "(content + per - 1) div per \<le> length ids")
    case True
    then show ?thesis using "1.prems" D by (intro exI [of _ 0]) auto
  next
    case False
    show ?thesis
    proof (cases safe)
      case Nil
      then have l: "\<not> hw + 1 \<ge> 2 ^ 32" and r: "draw_pages per content [] (ids @ [hw]) drawn (hw + 1) = Inr (ids', drawn', hw')"
        using False "1.prems"(1) unfolding D by (auto split: if_splits)
      from "1.IH"(1) [OF False Nil l r "1.prems"(2)]
      obtain j where "drawn' = drawn + j" "j \<le> 0" "hw + 1 \<le> hw'" "ids' = ids @ [hw] @ [hw + 1..<hw']"
        "hw' < 2 ^ 32" "(content - j + per - 1) div per \<le> length ids'" using l by auto
      moreover have "[hw..<hw'] = hw # [hw + 1..<hw']" using \<open>hw + 1 \<le> hw'\<close> by (simp add: upt_conv_Cons)
      ultimately show ?thesis using Nil by (intro exI [of _ 0]) auto
    next
      case (Cons p rest)
      then have "draw_pages per (content - 1) rest (ids @ [p]) (Suc drawn) hw = Inr (ids', drawn', hw')"
        using False "1.prems"(1) unfolding D by simp
      from "1.IH"(2) [OF False Cons this "1.prems"(2)]
      obtain j where "drawn' = Suc drawn + j" "j \<le> length rest" "hw \<le> hw'" "ids' = ids @ p # take j rest @ [hw..<hw']"
        "hw < 2 ^ 32 \<longrightarrow> hw' < 2 ^ 32" "(content - 1 - j + per - 1) div per \<le> length ids'" by auto
      then show ?thesis using Cons by (intro exI [of _ "Suc j"]) auto
    qed
  qed
qed

lemma draw_pages_error: "draw_pages per content safe ids drawn hw = Inl e \<Longrightarrow> e = page_limit"
proof (induction per content safe ids drawn hw rule: draw_pages.induct)
  case (1 per content safe ids drawn hw)
  note D = draw_pages.simps [of per content safe ids drawn hw]
  show ?case using "1.IH" "1.prems" unfolding D by (auto split: if_splits list.splits)
qed

section \<open>Reading what was written\<close>

lemma length_id_bytes [simp]: "length (id_bytes ids) = 4 * length ids"
  by (induction ids) (simp_all add: id_bytes_def)

lemma u32_at_front: "p < 2 ^ 32 \<Longrightarrow> u32_at (be_bytes 4 (int p) @ b) 0 = p"
  by (simp add: u32_at_def get_slice_def nat_be_bytes)

lemma read_entries_written:
  "sorted_wrt (<) (free @ chunk) \<Longrightarrow> set chunk \<subseteq> {first..<pc} \<Longrightarrow> pc < 2 ^ 32 \<Longrightarrow> set chunk \<inter> prot = {}
   \<Longrightarrow> read_free_entries first pc prot (length chunk) (id_bytes chunk @ z) free = Inr (free @ chunk)"
proof (induction chunk arbitrary: free)
  case (Cons p chunk)
  have b: "id_bytes (p # chunk) @ z = be_bytes 4 (int p) @ (id_bytes chunk @ z)" by (simp add: id_bytes_def)
  have p: "p < 2 ^ 32" "first \<le> p" "p < pc" "p \<notin> prot" using Cons.prems by auto
  have "free = [] \<or> last free < p" using Cons.prems(1) by (cases free rule: rev_cases) (auto simp: sorted_wrt_append)
  moreover have "read_free_entries first pc prot (length chunk) (id_bytes chunk @ z) (free @ [p]) = Inr (free @ p # chunk)"
    using Cons by simp
  ultimately show ?case unfolding b using p by (auto simp: u32_at_front Let_def)
qed simp

lemma ids_head_simps [simp]: "ids_head [] = 0" "ids_head (p # ids) = p"
  by (simp_all add: ids_head_def)

lemma build_chain_total: "16 + 4 * per \<le> ps \<Longrightarrow> \<exists>pages. build_chain ps per persisted ci ids = Some (pages, ids_head ids)"
proof (induction ids arbitrary: ci)
  case (Cons p ids)
  let ?chunk = "take per (drop (ci * per) persisted)"
  obtain pages where b: "build_chain ps per persisted (Suc ci) ids = Some (pages, ids_head ids)" using Cons by blast
  have "16 + length (id_bytes ?chunk) \<le> ps" using Cons.prems by simp
  then obtain page where "make_page ps PAGE_FREELIST (length ?chunk) (ids_head ids) (id_bytes ?chunk) = Some page"
    using make_page_ok by blast
  with b show ?case by (simp add: Let_def del: length_take)
qed simp

lemma build_chain_ids: "build_chain ps per persisted ci ids = Some (pages, h) \<Longrightarrow> map fst pages = ids \<and> h = ids_head ids"
  by (induction ids arbitrary: ci pages h) (auto simp: Let_def split: option.splits)

lemma read_chain_written:
  assumes ps: "16 + 4 * per \<le> ps" "ps < 2 ^ 32" and pc: "pc < 2 ^ 32"
    and persisted: "sorted_wrt (<) persisted" "set persisted \<subseteq> {2..<pc}" "set persisted \<inter> prot = {}"
  shows "build_chain ps per persisted ci ids = Some (pages, h) \<Longrightarrow> \<forall>(i, b)\<in>set pages. read i = Inr b
    \<Longrightarrow> distinct ids \<Longrightarrow> set ids \<inter> chain = {} \<Longrightarrow> set ids \<subseteq> {2..<pc}
    \<Longrightarrow> read_free_chain read 2 pc prot h chain (take (ci * per) persisted)
      = Inr (chain \<union> set ids, take ((ci + length ids) * per) persisted)"
proof (induction ids arbitrary: ci pages h chain)
  case Nil
  then have "h = 0" by simp
  then show ?case by (subst read_free_chain.simps) simp
next
  case (Cons p ids)
  let ?chunk = "take per (drop (ci * per) persisted)"
  obtain rest nxt where b: "build_chain ps per persisted (Suc ci) ids = Some (rest, nxt)"
    using Cons.prems(1) by (cases "build_chain ps per persisted (Suc ci) ids") fastforce+
  obtain bytes where mk: "make_page ps PAGE_FREELIST (length ?chunk) nxt (id_bytes ?chunk) = Some bytes"
    using Cons.prems(1) b
    by (cases "make_page ps PAGE_FREELIST (length ?chunk) nxt (id_bytes ?chunk)") (simp_all add: Let_def del: length_take)
  have pages: "pages = (p, bytes) # rest" "h = p"
    using Cons.prems(1) b mk by (auto simp: Let_def simp del: length_take)
  have nxt: "nxt < 2 ^ 32"
  proof -
    have "ids_head ids < 2 ^ 32" using Cons.prems(5) pc by (cases ids) simp_all
    then show ?thesis using build_chain_ids [OF b] by simp
  qed
  have "length ?chunk < 2 ^ 32" using ps by simp
  note P = make_page_bytes [OF mk this nxt]
  have sp: "take (ci * per) persisted @ ?chunk = take (Suc ci * per) persisted"
    by (simp add: take_add [symmetric] add.commute)
  have so: "sorted_wrt (<) (take (ci * per) persisted @ ?chunk)"
    unfolding sp using persisted(1) by (rule sorted_wrt_take)
  have sub: "set ?chunk \<subseteq> set persisted" by (meson in_set_takeD in_set_dropD subsetI)
  have e: "read_free_entries 2 pc prot (length ?chunk) (drop 16 bytes) (take (ci * per) persisted)
      = Inr (take (Suc ci * per) persisted)"
    unfolding P(5) sp [symmetric] using sub persisted(2,3) pc by (intro read_entries_written [OF so]) auto
  have r: "read_free_chain read 2 pc prot nxt (insert p chain) (take (Suc ci * per) persisted)
      = Inr (insert p chain \<union> set ids, take ((Suc ci + length ids) * per) persisted)"
    using Cons.prems pages by (intro Cons.IH [OF b]) auto
  have "read p = Inr bytes" "2 \<le> p" "p < pc" "p \<notin> chain" using Cons.prems pages by auto
  then show ?case
    unfolding pages(2) using P(3) e r by (subst read_free_chain.simps) simp
qed

lemma trailing_run_exact:
  assumes "trailing_run safe high = (below, k)" "0 \<notin> set safe" "length safe < high"
  shows "k \<le> high" "safe = below @ [k..<high]" "below = [] \<or> last below \<noteq> k - 1"
proof -
  obtain ys where t: "trailing_loop (rev safe) high = (ys, k)" "below = rev ys"
    using assms(1) by (auto simp: trailing_run_def split: prod.splits)
  have r: "k \<le> high" "rev safe = rev [k..<high] @ ys" "ys = [] \<or> hd ys \<noteq> k - 1"
    using trailing_loop_run [OF t(1)] assms(2,3) by auto
  show "k \<le> high" by (fact r(1))
  have "safe = rev (rev [k..<high] @ ys)" using r(2) by (metis rev_rev_ident)
  then show "safe = below @ [k..<high]" by (simp add: t(2))
  show "below = [] \<or> last below \<noteq> k - 1" using r(3) by (simp add: t(2) last_rev)
qed

lemma serialize_unfold:
  assumes "\<not> length persist < 2" "per = max (page_payload ps div 4) 1"
  shows "serialize_free_list ps persist safe next =
    (case draw_pages per (length persist) safe [] 0 next of
       Inl e \<Rightarrow> Some (Inl e)
     | Inr (ids, drawn, hw) \<Rightarrow>
         map_option (\<lambda>(pages, head). Inr (pages, head, filter (\<lambda>p. p \<notin> set (take drawn ids)) persist, hw))
           (build_chain ps per (filter (\<lambda>p. p \<notin> set (take drawn ids)) persist) 0 ids))"
  unfolding serialize_free_list_def Let_def if_not_P [OF assms(1)] assms(2) ..

section \<open>Properties\<close>

text \<open>
  C11. The free list and its chain. Serializing never panics and fails only at the page limit; each free
  page is then in the list that stays in memory or carries the chain, no page is both, and the chain takes
  its pages from the pages that are safe to overwrite and then from the high-water on, without a hole.
  An open that reads the written pages gets back exactly the list, in order, when there were two free
  pages or more. A list of fewer than two is not written, as the code documents: an open then reads an
  empty list, and the page of a list of one is not found again.
\<close>

theorem free_list_written:
  assumes ps: "64 \<le> ps" "ps < 2 ^ 32" and persist: "sorted_wrt (<) persist" "set persist \<subseteq> {2..<hw}"
    and safe: "distinct safe" "set safe \<subseteq> set persist" and hw: "2 \<le> hw" "hw < 2 ^ 32"
  shows "\<exists>r. serialize_free_list ps persist safe hw = Some r \<and> (case r of
      Inl e \<Rightarrow> fst e = ProgramLimitExceeded
    | Inr (pages, head, persisted, hw') \<Rightarrow>
        set persist \<subseteq> set persisted \<union> fst ` set pages \<and> set persisted \<inter> fst ` set pages = {}
        \<and> set persisted \<subseteq> set persist
        \<and> fst ` set pages \<subseteq> set safe \<union> {hw..<hw'} \<and> {hw..<hw'} \<subseteq> fst ` set pages
        \<and> (\<forall>read pc prot. hw' \<le> pc \<longrightarrow> pc < 2 ^ 32 \<longrightarrow> prot \<inter> set persist = {} \<longrightarrow> (\<forall>(i, b)\<in>set pages. read i = Inr b)
             \<longrightarrow> read_free_list read 2 head pc prot = Inr (if length persist < 2 then [] else persisted)))"
proof (cases "length persist < 2")
  case True
  have "set persist \<subseteq> set persist" by simp
  then show ?thesis using True
    by (simp add: serialize_free_list_def read_free_list_def read_free_chain.simps [of _ _ _ _ 0])
next
  case False
  define per where "per = max (page_payload ps div 4) 1"
  have per: "0 < per" "16 + 4 * per \<le> ps" using ps(1) by (auto simp: per_def page_payload_def PAGE_HEADER_def)
  show ?thesis
  proof (cases "draw_pages per (length persist) safe [] 0 hw")
    case (Inl e)
    then show ?thesis using draw_pages_error [OF Inl] serialize_unfold [OF False per_def, of safe hw]
      by (simp add: page_limit_def)
  next
    case (Inr r)
    obtain ids drawn hw' where r: "r = (ids, drawn, hw')" by (metis prod_cases3)
    obtain j where j: "drawn = j" "j \<le> length safe" "hw \<le> hw'" "ids = take j safe @ [hw..<hw']" "hw' < 2 ^ 32"
      and enough: "(length persist - j + per - 1) div per \<le> length ids"
      using draw_pages_spec [OF Inr [unfolded r] per(1)] hw(2) by auto
    define persisted where "persisted = filter (\<lambda>p. p \<notin> set (take j safe)) persist"
    have tk: "take drawn ids = take j safe" using j by simp
    obtain pages where b: "build_chain ps per persisted 0 ids = Some (pages, ids_head ids)"
      using build_chain_total [OF per(2)] by blast
    have s: "serialize_free_list ps persist safe hw = Some (Inr (pages, ids_head ids, persisted, hw'))"
      using Inr b serialize_unfold [OF False per_def, of safe hw] by (simp add: r tk persisted_def)
    have fst: "fst ` set pages = set (take j safe) \<union> {hw..<hw'}"
      using build_chain_ids [OF b] j(4) by (metis atLeastLessThan_upt list.set_map set_append)
    have tj: "set (take j safe) \<subseteq> set safe" by (rule set_take_subset)
    have dp: "distinct persist" using persist(1) by (simp add: strict_sorted_iff)
    have len: "length persisted = length persist - j"
    proof -
      have "length persisted = card (set persist - set (take j safe))"
        using dp by (simp add: persisted_def distinct_card [symmetric] set_diff_eq)
      also have "\<dots> = card (set persist) - card (set (take j safe))"
        using tj safe(2) by (intro card_Diff_subset) auto
      finally show ?thesis using dp safe(1) j(2) by (simp add: distinct_card)
    qed
    have all: "take ((0 + length ids) * per) persisted = persisted"
      using div_ceil_le [OF enough per(1)] len by (simp add: mult.commute)
    have so: "sorted_wrt (<) persisted" using persist(1) by (simp add: persisted_def sorted_wrt_filter)
    have sub: "set persisted \<subseteq> set persist" by (simp add: persisted_def)
    have di: "distinct ids" "set ids \<subseteq> {2..<hw'}" "set persisted \<inter> set ids = {}"
    proof -
      have "set (take j safe) \<subseteq> {2..<hw}" using tj safe(2) persist(2) by (meson subset_trans)
      moreover have "distinct (take j safe)" using safe(1) by simp
      ultimately show "distinct ids" "set ids \<subseteq> {2..<hw'}" using j(3,4) hw(1) by fastforce+
      show "set persisted \<inter> set ids = {}" using persist(2) by (auto simp: persisted_def j(4))
    qed
    have rd: "read_free_list read 2 (ids_head ids) pc prot = Inr persisted"
      if pc: "hw' \<le> pc" "pc < 2 ^ 32" and prot: "prot \<inter> set persist = {}"
        and pages: "\<forall>(i, b)\<in>set pages. read i = Inr b" for read pc prot
    proof -
      have w: "set persisted \<subseteq> {2..<pc}" "set persisted \<inter> prot = {}" "set ids \<subseteq> {2..<pc}"
        using sub persist(2) pc(1) j(3) prot di(2) by fastforce+
      have "read_free_chain read 2 pc prot (ids_head ids) {} (take (0 * per) persisted)
          = Inr ({} \<union> set ids, take ((0 + length ids) * per) persisted)"
        by (rule read_chain_written [OF per(2) ps(2) pc(2) so w(1,2) b pages di(1) _ w(3)]) simp
      then show ?thesis unfolding all using di(3) by (auto simp: read_free_list_def)
    qed
    have "set persist \<subseteq> set persisted \<union> fst ` set pages" by (auto simp: fst persisted_def)
    moreover have "set persisted \<inter> fst ` set pages = {}" using di(3) j(4) by (simp add: fst)
    ultimately show ?thesis using s rd sub tj False by (auto simp: fst)
  qed
qed

theorem free_list_written_witness:
  "\<exists>pages. serialize_free_list 128 [3, 5, 8] [5] 9 = Some (Inr (pages, 5, [3, 8], 9)) \<and> fst ` set pages = {5}"
proof -
  have d: "draw_pages 28 (length [3, 5, 8 :: nat]) [5] [] 0 9 = Inr ([5], 1, 9)" by (simp add: draw_pages.simps)
  obtain pages where "build_chain 128 28 [3, 8] 0 [5] = Some (pages, ids_head [5])"
    using build_chain_total [of 28 128 "[3, 8]" 0 "[5]"] by (simp del: build_chain.simps) blast
  then have s: "serialize_free_list 128 [3, 5, 8] [5] 9 = Some (Inr (pages, 5, [3, 8], 9))"
    using serialize_unfold [of "[3, 5, 8]" 28 128 "[5]" 9] d by (simp add: page_payload_def PAGE_HEADER_def)
  have "\<exists>r. serialize_free_list 128 [3, 5, 8] [5] 9 = Some r \<and> (case r of
      Inl e \<Rightarrow> True | Inr (pages, _) \<Rightarrow> {3, 5, 8} \<subseteq> {3, 8} \<union> fst ` set pages \<and> fst ` set pages \<subseteq> {5})"
    using free_list_written [of 128 "[3, 5, 8]" 9 "[5]"] s by auto
  then show ?thesis using s by auto
qed

text \<open>
  Trailing truncation is exact: the safe pages that run up to the high-water, and no others, are
  given back, and the high-water starts right below them.
\<close>

theorem trailing_run_maximal:
  assumes "sorted_wrt (<) safe" "set safe \<subseteq> {2..<high}" "2 \<le> high"
  shows "case trailing_run safe high of (below, k) \<Rightarrow>
    k \<le> high \<and> safe = below @ [k..<high] \<and> (below \<noteq> [] \<longrightarrow> last below < k - 1)"
proof -
  obtain below k where t: "trailing_run safe high = (below, k)" by fastforce
  have "distinct safe" using assms(1) by (simp add: strict_sorted_iff)
  then have "length safe \<le> high - 2" by (rule pages_in_range [OF _ assms(2)])
  then have l: "length safe < high" "0 \<notin> set safe" using assms(2,3) by auto
  note e = trailing_run_exact [OF t l(2,1)]
  have "last below < k - 1" if "below \<noteq> []"
  proof -
    have "last below < k"
    proof (cases "k < high")
      case True
      then have "k \<in> set [k..<high]" by simp
      then show ?thesis using assms(1) that unfolding e(2) sorted_wrt_append by (meson last_in_set)
    next
      case False
      have "set below \<subseteq> {2..<high}" using assms(2) unfolding e(2) by simp
      from subsetD [OF this last_in_set [OF that]] show ?thesis using False by simp
    qed
    then show ?thesis using e(3) that by auto
  qed
  then show ?thesis using t e by simp
qed

theorem trailing_run_maximal_witness:
  "trailing_run [3, 4, 7, 8] 9 = ([3, 4], 7) \<and> last [3, 4] < 7 - (1 :: nat)"
proof -
  have "trailing_run [3, 4, 7, 8] 9 = ([3, 4], 7)" by code_simp
  then show ?thesis using trailing_run_maximal [of "[3, 4, 7, 8]" 9] by simp
qed

end
