(* ===== verification/Timezone.thy ===== *)
theory Timezone
  imports Calendar Datetime
begin

text \<open>
  Time zones (\<open>timezone.rs\<close>): the zone tables, the POSIX rule of their footer, the offset at an
  instant, fixed and numeric zones, and the conversions between instants and local readings. Text
  is its bytes as characters. \<open>Tzif\<close> models the parser of the compiled tables; the bundle codec and the
  registry of loaded zones are not modelled.
\<close>

section \<open>Zone tables\<close>

definition tz_corrupt :: "string \<Rightarrow> engine_error" where
  "tz_corrupt msg = (DataCorrupted, msg)"

record local_time_type =
  lt_utoff :: int
  lt_is_dst :: bool
  lt_abbrev :: string

record tz_offset =
  os_utoff :: int
  os_abbrev :: string
  os_is_dst :: bool

datatype posix_rule = MonthWeekDay (pr_m: int) (pr_w: int) (pr_d: int)

record posix_dst =
  pd_abbr :: string
  pd_utoff :: int
  pd_start :: posix_rule
  pd_start_time :: int
  pd_end :: posix_rule
  pd_end_time :: int

record posix_tz =
  pz_std_abbr :: string
  pz_std_utoff :: int
  pz_dst :: "posix_dst option"

record tz_data =
  tz_trans :: "int list"
  tz_trans_type :: "nat list"
  tz_types :: "local_time_type list"
  tz_footer :: "posix_tz option"

section \<open>POSIX rule text\<close>

fun parse_uint_loop :: "int \<Rightarrow> int \<Rightarrow> string \<Rightarrow> (int \<times> string) option" where
  "parse_uint_loop mx v [] = Some (v, [])"
| "parse_uint_loop mx v (c # s) =
     (if is_digit c then
        let v = v * 10 + digit_val c
        in if v > mx then None else parse_uint_loop mx v s
      else Some (v, c # s))"

definition parse_uint_max :: "int \<Rightarrow> string \<Rightarrow> (int \<times> string) option" where
  "parse_uint_max mx s =
     (case parse_uint_loop mx 0 s of
        None \<Rightarrow> None
      | Some (v, r) \<Rightarrow> if length r = length s then None else Some (v, r))"

definition is_alphabetic :: "char \<Rightarrow> bool" where
  "is_alphabetic c \<longleftrightarrow>
     (65 :: nat) \<le> of_char c \<and> of_char c \<le> (90 :: nat) \<or> (97 :: nat) \<le> of_char c \<and> of_char c \<le> (122 :: nat)"

definition parse_posix_abbr :: "string \<Rightarrow> (string \<times> string) option" where
  "parse_posix_abbr s =
     (case s of
        CHR ''<'' # r \<Rightarrow>
          (case dropWhile (\<lambda>c. c \<noteq> CHR ''>'') r of
             [] \<Rightarrow> None
           | _ # rest \<Rightarrow>
               let name = takeWhile (\<lambda>c. c \<noteq> CHR ''>'') r
               in if name = [] then None else Some (name, rest))
      | _ \<Rightarrow>
          let name = takeWhile is_alphabetic s
          in if name = [] then None else Some (name, dropWhile is_alphabetic s))"

text \<open>An optional sign.\<close>

definition posix_sign :: "string \<Rightarrow> bool \<times> string" where
  "posix_sign s =
     (case s of
        CHR ''-'' # r \<Rightarrow> (True, r)
      | CHR ''+'' # r \<Rightarrow> (False, r)
      | _ \<Rightarrow> (False, s))"

definition parse_posix_offset :: "string \<Rightarrow> (int \<times> string) option" where
  "parse_posix_offset s =
     (let (ng, r) = posix_sign s
      in Option.bind (parse_uint_max 167 r) (\<lambda>(hh, r).
           map_option (\<lambda>(secs, r). (if ng then - secs else secs, r))
             (case r of
                CHR '':'' # r \<Rightarrow>
                  Option.bind (parse_uint_max 59 r) (\<lambda>(mm, r).
                    let secs = hh * 3600 + mm * 60
                    in case r of
                         CHR '':'' # r \<Rightarrow>
                           map_option (\<lambda>(ss, r). (secs + ss, r)) (parse_uint_max 60 r)
                       | _ \<Rightarrow> Some (secs, r))
              | _ \<Rightarrow> Some (hh * 3600, r))))"

text \<open>\<open>ok_or\<close>, and the two separator tests.\<close>

definition ok_or :: "'a option \<Rightarrow> string \<Rightarrow> string + 'a" where
  "ok_or x e = (case x of None \<Rightarrow> Inl e | Some a \<Rightarrow> Inr a)"

definition separator :: "char \<Rightarrow> string \<Rightarrow> string \<Rightarrow> string + string" where
  "separator c e s = (case s of d # r \<Rightarrow> if d = c then Inr r else Inl e | [] \<Rightarrow> Inl e)"

definition parse_posix_rule :: "string \<Rightarrow> string + ((posix_rule \<times> int) \<times> string)" where
  "parse_posix_rule s =
     (case s of
        CHR ''M'' # r \<Rightarrow>
          res_bind (ok_or (parse_uint_max 12 r) ''posix: bad month'') (\<lambda>(m, r).
          res_bind (separator CHR ''.'' ''posix: expected '.' after month'' r) (\<lambda>r.
          res_bind (ok_or (parse_uint_max 5 r) ''posix: bad week'') (\<lambda>(w, r).
          res_bind (separator CHR ''.'' ''posix: expected '.' after week'' r) (\<lambda>r.
          res_bind (ok_or (parse_uint_max 6 r) ''posix: bad day'') (\<lambda>(d, r).
            if \<not> (1 \<le> m \<and> m \<le> 12) \<or> \<not> (1 \<le> w \<and> w \<le> 5) \<or> d > 6
            then Inl ''posix: Mm.w.d out of range''
            else (case r of
                    CHR ''/'' # r \<Rightarrow>
                      res_bind (ok_or (parse_posix_offset r) ''posix: bad transition time'') (\<lambda>(t, r).
                        Inr ((MonthWeekDay m w d, t), r))
                  | _ \<Rightarrow> Inr ((MonthWeekDay m w d, 7200), r)))))))
      | _ # _ \<Rightarrow> Inl ''posix: Jn/n julian-day transition rules are not yet supported''
      | [] \<Rightarrow> Inl ''posix: missing transition rule'')"

definition parse_posix_tz :: "string \<Rightarrow> string + posix_tz" where
  "parse_posix_tz s =
     res_bind (ok_or (parse_posix_abbr s) ''posix: missing std abbreviation'') (\<lambda>(std_abbr, r).
     res_bind (ok_or (parse_posix_offset r) ''posix: missing std offset'') (\<lambda>(std_posix, r).
       let std_utoff = - std_posix
       in if r = [] then
            Inr \<lparr> pz_std_abbr = std_abbr, pz_std_utoff = std_utoff, pz_dst = None \<rparr>
          else
            res_bind (ok_or (parse_posix_abbr r) ''posix: malformed dst abbreviation'') (\<lambda>(abbr, r).
            res_bind (if r \<noteq> [] \<and> hd r \<noteq> CHR '',''
                      then res_bind (ok_or (parse_posix_offset r) ''posix: malformed dst offset'')
                             (\<lambda>(p, r). Inr (- p, r))
                      else Inr (std_utoff + 3600, r)) (\<lambda>(dst_utoff, r).
            res_bind (separator CHR '','' ''posix: dst without transition rules'' r) (\<lambda>r.
            res_bind (parse_posix_rule r) (\<lambda>((start, start_time), r).
            res_bind (separator CHR '','' ''posix: missing dst end rule'' r) (\<lambda>r.
            res_bind (parse_posix_rule r) (\<lambda>((end, end_time), r).
              Inr \<lparr> pz_std_abbr = std_abbr, pz_std_utoff = std_utoff,
                    pz_dst = Some \<lparr> pd_abbr = abbr, pd_utoff = dst_utoff, pd_start = start,
                                    pd_start_time = start_time, pd_end = end,
                                    pd_end_time = end_time \<rparr> \<rparr>))))))))"

section \<open>The offset at an instant\<close>

definition mwd_day :: "int \<Rightarrow> int \<Rightarrow> int \<Rightarrow> int \<Rightarrow> int" where
  "mwd_day year m w d =
     (let first = days_from_civil year m 1;
          first_dow = (first + 4) mod 7;
          offset = (d - first_dow) mod 7;
          day = 1 + offset + (w - 1) * 7;
          next = (if m = 12 then days_from_civil (year + 1) 1 1 else days_from_civil year (m + 1) 1);
          dim = next - first
      in if day > dim then day - 7 else day)"

definition rule_instant :: "posix_rule \<Rightarrow> int \<Rightarrow> int \<Rightarrow> int \<Rightarrow> int" where
  "rule_instant rule local_time year utoff_before =
     (case rule of MonthWeekDay m w d \<Rightarrow>
        let day = mwd_day year m w d;
            local_epoch = days_from_civil year m day * SECS_PER_DAY + local_time
        in local_epoch - utoff_before)"

definition eval_posix :: "posix_tz \<Rightarrow> int \<Rightarrow> tz_offset" where
  "eval_posix tz instant_secs =
     (let std = \<lparr> os_utoff = pz_std_utoff tz, os_abbrev = pz_std_abbr tz, os_is_dst = False \<rparr>
      in case pz_dst tz of
           None \<Rightarrow> std
         | Some dst \<Rightarrow>
             let (year, _, _) = civil_from_days (instant_secs div SECS_PER_DAY);
                 start_ut = rule_instant (pd_start dst) (pd_start_time dst) year (pz_std_utoff tz);
                 end_ut = rule_instant (pd_end dst) (pd_end_time dst) year (pd_utoff dst);
                 in_dst = (if start_ut < end_ut
                           then instant_secs \<ge> start_ut \<and> instant_secs < end_ut
                           else instant_secs \<ge> start_ut \<or> instant_secs < end_ut)
             in if in_dst
                then \<lparr> os_utoff = pd_utoff dst, os_abbrev = pd_abbr dst, os_is_dst = True \<rparr>
                else std)"

definition offset_of_type :: "local_time_type \<Rightarrow> tz_offset" where
  "offset_of_type t = \<lparr> os_utoff = lt_utoff t, os_abbrev = lt_abbrev t, os_is_dst = lt_is_dst t \<rparr>"

definition first_std_offset :: "tz_data \<Rightarrow> tz_offset" where
  "first_std_offset data =
     (case find (\<lambda>t. \<not> lt_is_dst t) (tz_types data) of
        Some t \<Rightarrow> offset_of_type t
      | None \<Rightarrow>
          (case tz_types data of
             t # _ \<Rightarrow> offset_of_type t
           | [] \<Rightarrow> \<lparr> os_utoff = 0, os_abbrev = [], os_is_dst = False \<rparr>))"

text \<open>The lookup in the tables; \<open>None\<close> is an index out of range.\<close>

definition table_offset :: "tz_data \<Rightarrow> int \<Rightarrow> tz_offset option" where
  "table_offset data instant_secs =
     (let i = int (partition_point (\<lambda>t. t \<le> instant_secs) (tz_trans data)) - 1
      in if i < 0 then None
         else Option.bind (nth_opt (tz_trans_type data) (nat i)) (\<lambda>ty.
                map_option offset_of_type (nth_opt (tz_types data) ty)))"

definition offset_at :: "tz_data \<Rightarrow> int \<Rightarrow> tz_offset option" where
  "offset_at data instant_secs =
     (let n = length (tz_trans data)
      in if n = 0 then
           Some (case tz_footer data of
                   Some f \<Rightarrow> eval_posix f instant_secs
                 | None \<Rightarrow> first_std_offset data)
         else if instant_secs < tz_trans data ! 0 then Some (first_std_offset data)
         else (case tz_footer data of
                 Some f \<Rightarrow> if instant_secs \<ge> tz_trans data ! (n - 1)
                           then Some (eval_posix f instant_secs)
                           else table_offset data instant_secs
               | None \<Rightarrow> table_offset data instant_secs))"

section \<open>Fixed offsets\<close>

definition parse_fixed_offset :: "string \<Rightarrow> int option" where
  "parse_fixed_offset name =
     (if name = [] \<or> (hd name \<noteq> CHR ''+'' \<and> hd name \<noteq> CHR ''-'') then None
      else Option.bind (parse_posix_offset name) (\<lambda>(posix, r).
             if r \<noteq> [] then None else Some (- posix)))"

definition fixed_abbrev :: "int \<Rightarrow> string" where
  "fixed_abbrev utoff =
     (if utoff = 0 then ''UTC''
      else
        let sign = (if utoff < 0 then CHR ''-'' else CHR ''+'');
            a = \<bar>utoff\<bar>;
            h = a div 3600; m = (a mod 3600) div 60; s = a mod 60
        in if s = 0 then sign # pad 2 h @ '':'' @ pad 2 m
           else sign # pad 2 h @ '':'' @ pad 2 m @ '':'' @ pad 2 s)"

datatype zone_ref = Fixed int | Zone tz_data

definition fold_zone_name :: "string \<Rightarrow> string" where
  "fold_zone_name name = to_ascii_lowercase name"

definition builtin_zone :: "string \<Rightarrow> zone_ref option" where
  "builtin_zone name =
     (if fold_zone_name name = ''utc'' then Some (Fixed 0)
      else map_option Fixed (parse_fixed_offset name))"

definition offset_at_ref :: "zone_ref \<Rightarrow> int \<Rightarrow> tz_offset option" where
  "offset_at_ref zr instant_secs =
     (case zr of
        Fixed off \<Rightarrow> Some \<lparr> os_utoff = off, os_abbrev = fixed_abbrev off, os_is_dst = False \<rparr>
      | Zone data \<Rightarrow> offset_at data instant_secs)"

section \<open>Numeric zones\<close>

datatype numeric_zone = NumericOffset int | BadFormat | NumericOverflow

definition strtoint_space :: "char \<Rightarrow> bool" where
  "strtoint_space c \<longleftrightarrow> c \<in> {CHR '' '', CHR 0x09, CHR 0x0A, CHR 0x0D, CHR 0x0B, CHR 0x0C}"

fun strtoint_loop :: "int \<Rightarrow> string \<Rightarrow> (int \<times> string) option" where
  "strtoint_loop v [] = Some (v, [])"
| "strtoint_loop v (c # s) =
     (if is_digit c then
        let v = v * 10 + digit_val c
        in if v > 2147483648 then None else strtoint_loop v s
      else Some (v, c # s))"

definition read_strtoint :: "string \<Rightarrow> (int \<times> string) option" where
  "read_strtoint s =
     (let (ng, r) = posix_sign (dropWhile strtoint_space s)
      in Option.bind (strtoint_loop 0 r) (\<lambda>(v, r).
           let v = (if ng then - v else v)
           in if v > 2147483647 then None else Some (v, r)))"

definition decode_numeric_zone :: "string \<Rightarrow> numeric_zone" where
  "decode_numeric_zone name =
     (if name = [] \<or> (hd name \<noteq> CHR ''+'' \<and> hd name \<noteq> CHR ''-'') then BadFormat
      else case read_strtoint (tl name) of
        None \<Rightarrow> NumericOverflow
      | Some (hr, r) \<Rightarrow>
          (let fields =
             (case r of
                CHR '':'' # r \<Rightarrow>
                  Option.bind (read_strtoint r) (\<lambda>(m, r).
                    case r of
                      CHR '':'' # r \<Rightarrow> map_option (\<lambda>(s, r). (hr, m, s, r)) (read_strtoint r)
                    | _ \<Rightarrow> Some (hr, m, 0, r))
              | _ \<Rightarrow> if r = [] \<and> length name > 3 then Some (hr sdiv 100, hr smod 100, 0, r)
                     else Some (hr, 0, 0, r))
           in case fields of
                None \<Rightarrow> NumericOverflow
              | Some (hr, mi, sec, r) \<Rightarrow>
                  if \<not> (0 \<le> hr \<and> hr \<le> 15) \<or> \<not> (0 \<le> mi \<and> mi \<le> 59) \<or> \<not> (0 \<le> sec \<and> sec \<le> 59)
                  then NumericOverflow
                  else if r \<noteq> [] then BadFormat
                  else let tz = (hr * 60 + mi) * 60 + sec
                       in NumericOffset (if hd name = CHR ''-'' then - tz else tz)))"

section \<open>Instants and local readings\<close>

definition finite_shift :: "int option \<Rightarrow> int option" where
  "finite_shift micros =
     (case micros of
        Some m \<Rightarrow> if m \<noteq> NEG_INFINITY \<and> m \<noteq> POS_INFINITY then Some m else None
      | None \<Rightarrow> None)"

text \<open>An outer \<open>None\<close> is a panic of the offset lookup.\<close>

definition instant_to_local_micros :: "zone_ref \<Rightarrow> int \<Rightarrow> int option option" where
  "instant_to_local_micros zr instant_micros =
     map_option (\<lambda>off. finite_shift (i64_opt (instant_micros + os_utoff off * 1000000)))
       (offset_at_ref zr (instant_micros div 1000000))"

text \<open>The search for the boundary: the least instant in the window with another offset.\<close>

function boundary_loop :: "(int \<Rightarrow> int option) \<Rightarrow> int \<Rightarrow> int \<Rightarrow> int \<Rightarrow> int option" where
  "boundary_loop off off_lo lo hi =
     (if lo < hi then
        let mid = lo + (hi - lo) div 2
        in case off mid of
             None \<Rightarrow> None
           | Some o' \<Rightarrow> if o' = off_lo then boundary_loop off off_lo (mid + 1) hi
                       else boundary_loop off off_lo lo mid
      else Some lo)"
  by pat_completeness auto

termination
  by (relation "measure (\<lambda>(off, off_lo, lo, hi). nat (hi - lo))") auto

declare boundary_loop.simps [simp del]

definition DAY :: int where "DAY = 86400"

text \<open>The choice between the two offsets once the boundary is known.\<close>

definition choose_offset :: "int \<Rightarrow> int \<Rightarrow> int \<Rightarrow> int \<Rightarrow> int" where
  "choose_offset wall_secs off_lo off_hi boundary =
     (let beforetime = wall_secs - off_lo;
          aftertime = wall_secs - off_hi;
          before_side = beforetime < boundary;
          after_side = aftertime < boundary
      in if before_side = after_side then (if before_side then off_lo else off_hi)
         else if beforetime > aftertime then off_lo
         else off_hi)"

definition utoff_at :: "zone_ref \<Rightarrow> int \<Rightarrow> int option" where
  "utoff_at zr t = map_option os_utoff (offset_at_ref zr t)"

definition determine_local_offset :: "zone_ref \<Rightarrow> int \<Rightarrow> int option" where
  "determine_local_offset zr wall_secs =
     Option.bind (utoff_at zr (wall_secs - DAY)) (\<lambda>off_lo.
     Option.bind (utoff_at zr (wall_secs + DAY)) (\<lambda>off_hi.
       if off_lo = off_hi then Some off_lo
       else map_option (choose_offset wall_secs off_lo off_hi)
              (boundary_loop (utoff_at zr) off_lo (wall_secs - DAY) (wall_secs + DAY))))"

definition local_to_instant_micros :: "zone_ref \<Rightarrow> int \<Rightarrow> int option option" where
  "local_to_instant_micros zr wall_micros =
     map_option (\<lambda>chosen. finite_shift (i64_opt (wall_micros - chosen * 1000000)))
       (determine_local_offset zr (wall_micros div 1000000))"

end
