(* ===== verification/Tzif.thy ===== *)
theory Tzif
  imports Timezone
begin

text \<open>
  The parser of compiled zone tables (\<open>parse_tzif\<close>, RFC 8536) with its byte reader, and what it
  promises for arbitrary bytes. A reader is the bytes that remain. The replacement of malformed UTF-8
  in a designation is not modelled: the designation keeps its bytes as characters.
\<close>

section \<open>The reader\<close>

definition reader_take :: "nat \<Rightarrow> bytes \<Rightarrow> (bytes \<times> bytes) result" where
  "reader_take n b =
     (if n > length b then Inl (tz_corrupt ''tz: unexpected end of input'')
      else Inr (take n b, drop n b))"

definition reader_skip :: "nat \<Rightarrow> bytes \<Rightarrow> bytes result" where
  "reader_skip n b = res_bind (reader_take n b) (\<lambda>(_, b). Inr b)"

definition reader_u8 :: "bytes \<Rightarrow> (nat \<times> bytes) result" where
  "reader_u8 b = res_bind (reader_take 1 b) (\<lambda>(s, b). Inr (unat (s ! 0), b))"

definition reader_u32 :: "bytes \<Rightarrow> (nat \<times> bytes) result" where
  "reader_u32 b = res_bind (reader_take 4 b) (\<lambda>(s, b). Inr (nat (be_val s), b))"

definition signed_be :: "nat \<Rightarrow> bytes \<Rightarrow> int" where
  "signed_be w s = (let v = be_val s in if v < 2 ^ (8 * w - 1) then v else v - 2 ^ (8 * w))"

definition reader_i32 :: "bytes \<Rightarrow> (int \<times> bytes) result" where
  "reader_i32 b = res_bind (reader_take 4 b) (\<lambda>(s, b). Inr (signed_be 4 s, b))"

definition reader_i64 :: "bytes \<Rightarrow> (int \<times> bytes) result" where
  "reader_i64 b = res_bind (reader_take 8 b) (\<lambda>(s, b). Inr (signed_be 8 s, b))"

text \<open>A counted loop of one read.\<close>

fun read_many :: "nat \<Rightarrow> (bytes \<Rightarrow> ('a \<times> bytes) result) \<Rightarrow> bytes \<Rightarrow> ('a list \<times> bytes) result" where
  "read_many 0 rd b = Inr ([], b)"
| "read_many (Suc n) rd b =
     res_bind (rd b) (\<lambda>(x, b). res_bind (read_many n rd b) (\<lambda>(xs, b). Inr (x # xs, b)))"

section \<open>Header and data block\<close>

record counts =
  isutcnt :: nat
  isstdcnt :: nat
  leapcnt :: nat
  timecnt :: nat
  typecnt :: nat
  charcnt :: nat

definition text_of :: "bytes \<Rightarrow> string" where
  "text_of bs = map (\<lambda>b. char_of (unat b)) bs"

definition read_header :: "bytes \<Rightarrow> ((nat \<times> counts) \<times> bytes) result" where
  "read_header b =
     res_bind (reader_take 4 b) (\<lambda>(magic, b).
       if text_of magic \<noteq> ''TZif'' then Inl (tz_corrupt ''tzif: bad magic'')
       else
         res_bind (reader_u8 b) (\<lambda>(version, b).
         res_bind (reader_skip 15 b) (\<lambda>b.
         res_bind (reader_u32 b) (\<lambda>(isut, b).
         res_bind (reader_u32 b) (\<lambda>(isstd, b).
         res_bind (reader_u32 b) (\<lambda>(leap, b).
         res_bind (reader_u32 b) (\<lambda>(time, b).
         res_bind (reader_u32 b) (\<lambda>(typ, b).
         res_bind (reader_u32 b) (\<lambda>(chars, b).
           Inr ((version, \<lparr> isutcnt = isut, isstdcnt = isstd, leapcnt = leap, timecnt = time,
                            typecnt = typ, charcnt = chars \<rparr>), b))))))))))"

definition block_size :: "counts \<Rightarrow> nat \<Rightarrow> nat" where
  "block_size c time_size =
     timecnt c * time_size + timecnt c + typecnt c * 6 + charcnt c
     + leapcnt c * (time_size + 4) + isstdcnt c + isutcnt c"

definition abbrev_at :: "bytes \<Rightarrow> nat \<Rightarrow> string result" where
  "abbrev_at desig idx =
     (if idx > length desig then Inl (tz_corrupt ''tzif: designation index out of range'')
      else Inr (text_of (takeWhile (\<lambda>b. b \<noteq> 0) (drop idx desig))))"

definition read_type :: "bytes \<Rightarrow> ((int \<times> bool \<times> nat) \<times> bytes) result" where
  "read_type b =
     res_bind (reader_i32 b) (\<lambda>(utoff, b).
     res_bind (reader_u8 b) (\<lambda>(dst, b).
     res_bind (reader_u8 b) (\<lambda>(idx, b). Inr ((utoff, dst \<noteq> 0, idx), b))))"

fun named_types :: "bytes \<Rightarrow> (int \<times> bool \<times> nat) list \<Rightarrow> local_time_type list result" where
  "named_types desig [] = Inr []"
| "named_types desig ((utoff, is_dst, idx) # raw) =
     res_bind (abbrev_at desig idx) (\<lambda>name.
     res_bind (named_types desig raw) (\<lambda>tys.
       Inr (\<lparr> lt_utoff = utoff, lt_is_dst = is_dst, lt_abbrev = name \<rparr> # tys)))"

definition read_block :: "nat \<Rightarrow> counts \<Rightarrow> bytes \<Rightarrow> (tz_data \<times> bytes) result" where
  "read_block time_size c b =
     res_bind (read_many (timecnt c) (if time_size = 8 then reader_i64 else reader_i32) b) (\<lambda>(tr, b).
     res_bind (read_many (timecnt c) reader_u8 b) (\<lambda>(trans_type, b).
     res_bind (read_many (typecnt c) read_type b) (\<lambda>(raw_types, b).
     res_bind (reader_take (charcnt c) b) (\<lambda>(desig, b).
     res_bind (reader_skip (leapcnt c * (time_size + 4)) b) (\<lambda>b.
     res_bind (reader_skip (isstdcnt c) b) (\<lambda>b.
     res_bind (reader_skip (isutcnt c) b) (\<lambda>b.
     res_bind (named_types desig raw_types) (\<lambda>types.
       if types = [] then Inl (tz_corrupt ''tzif: no local time types'')
       else if list_ex (\<lambda>t. t \<ge> length types) trans_type
       then Inl (tz_corrupt ''tzif: transition type index out of range'')
       else Inr (\<lparr> tz_trans = tr, tz_trans_type = trans_type, tz_types = types, tz_footer = None \<rparr>, b)))))))))"

section \<open>Footer and file\<close>

text \<open>\<open>str::from_utf8\<close> as a test.\<close>

definition cont :: "u8 \<Rightarrow> bool" where "cont b \<longleftrightarrow> 0x80 \<le> b \<and> b \<le> 0xBF"

fun valid_utf8 :: "bytes \<Rightarrow> bool" where
  "valid_utf8 [] = True"
| "valid_utf8 (a # s) =
     (if a < 0x80 then valid_utf8 s
      else case s of
        [] \<Rightarrow> False
      | b # s \<Rightarrow>
          if 0xC2 \<le> a \<and> a \<le> 0xDF then cont b \<and> valid_utf8 s
          else case s of
            [] \<Rightarrow> False
          | c # s \<Rightarrow>
              if 0xE0 \<le> a \<and> a \<le> 0xEF
              then (if a = 0xE0 then 0xA0 \<le> b \<and> b \<le> 0xBF
                    else if a = 0xED then 0x80 \<le> b \<and> b \<le> 0x9F else cont b)
                   \<and> cont c \<and> valid_utf8 s
              else case s of
                [] \<Rightarrow> False
              | d # s \<Rightarrow>
                  0xF0 \<le> a \<and> a \<le> 0xF4
                  \<and> (if a = 0xF0 then 0x90 \<le> b \<and> b \<le> 0xBF
                     else if a = 0xF4 then 0x80 \<le> b \<and> b \<le> 0x8F else cont b)
                  \<and> cont c \<and> cont d \<and> valid_utf8 s)"

definition trim_newlines :: "string \<Rightarrow> string" where
  "trim_newlines s =
     rev (dropWhile (\<lambda>c. c = CHR 0x0A) (rev (dropWhile (\<lambda>c. c = CHR 0x0A) s)))"

definition read_footer :: "bytes \<Rightarrow> posix_tz option result" where
  "read_footer rest =
     (if \<not> valid_utf8 rest then Inl (tz_corrupt ''tzif: non-UTF-8 footer'')
      else
        let s = trim_newlines (text_of rest)
        in if s = [] then Inr None
           else case parse_posix_tz s of
                  Inl e \<Rightarrow> Inl (tz_corrupt e)
                | Inr tz \<Rightarrow> Inr (Some tz))"

definition parse_tzif :: "bytes \<Rightarrow> tz_data result" where
  "parse_tzif bytes =
     res_bind (read_header bytes) (\<lambda>((version, c1), b).
       if version = 0 then res_bind (read_block 4 c1 b) (\<lambda>(data, _). Inr data)
       else
         res_bind (reader_skip (block_size c1 4) b) (\<lambda>b.
         res_bind (read_header b) (\<lambda>((_, c2), b).
         res_bind (read_block 8 c2 b) (\<lambda>(data, b).
         res_bind (read_footer b) (\<lambda>footer.
           Inr (data\<lparr> tz_footer := footer \<rparr>))))))"

section \<open>What the parser promises\<close>

definition tz_ok :: "tz_data \<Rightarrow> bool" where
  "tz_ok data \<longleftrightarrow> tz_types data \<noteq> [] \<and> length (tz_trans_type data) = length (tz_trans data)
     \<and> (\<forall>t\<in>set (tz_trans_type data). t < length (tz_types data))"

text \<open>An error of the reader is data corruption.\<close>

definition corrupt_only :: "'a result \<Rightarrow> bool" where
  "corrupt_only r \<longleftrightarrow> (case r of Inl e \<Rightarrow> fst e = DataCorrupted | Inr _ \<Rightarrow> True)"

named_theorems corruption \<open>functions whose errors are data corruption\<close>

lemma corrupt_only_simps [simp]:
  "corrupt_only (Inl (tz_corrupt m))" "corrupt_only (Inr a)"
  by (simp_all add: corrupt_only_def tz_corrupt_def)

lemma corrupt_only_bind [corruption]:
  "corrupt_only r \<Longrightarrow> (\<And>a. corrupt_only (f a)) \<Longrightarrow> corrupt_only (res_bind r f)"
  by (cases r) (auto simp: corrupt_only_def)

lemma corrupt_only_read [corruption]:
  "corrupt_only (reader_take n b)" "corrupt_only (reader_skip n b)" "corrupt_only (reader_u8 b)"
  "corrupt_only (reader_u32 b)" "corrupt_only (reader_i32 b)" "corrupt_only (reader_i64 b)"
  by (auto simp: reader_take_def reader_skip_def reader_u8_def reader_u32_def reader_i32_def reader_i64_def)

lemma corrupt_only_case [corruption]:
  "(\<And>a b. p = (a, b) \<Longrightarrow> corrupt_only (f a b)) \<Longrightarrow> corrupt_only (case p of (a, b) \<Rightarrow> f a b)"
  by (cases p) simp

lemma corrupt_only_case_app [corruption]:
  "(\<And>a b. p = (a, b) \<Longrightarrow> corrupt_only (f a b c)) \<Longrightarrow> corrupt_only ((case p of (a, b) \<Rightarrow> f a b) c)"
  by (cases p) simp

lemma corrupt_only_if_app [corruption]:
  "corrupt_only (f x) \<Longrightarrow> corrupt_only (g x) \<Longrightarrow> corrupt_only ((if c then f else g) x)"
  by simp

lemma corrupt_only_if [corruption]:
  "corrupt_only x \<Longrightarrow> corrupt_only y \<Longrightarrow> corrupt_only (if c then x else y)"
  by simp

lemma corrupt_only_type [corruption]: "corrupt_only (read_type b)"
  unfolding read_type_def by (intro corruption corrupt_only_simps)

lemma corrupt_only_many [corruption]:
  "(\<And>b. corrupt_only (rd b)) \<Longrightarrow> corrupt_only (read_many n rd b)"
  by (induction n arbitrary: b) (auto intro!: corruption)

lemma corrupt_only_header [corruption]: "corrupt_only (read_header b)"
  unfolding read_header_def
  by (intro corruption corrupt_only_simps)

lemma corrupt_only_named [corruption]: "corrupt_only (named_types desig raw)"
proof (induction raw)
  case (Cons t raw)
  then show ?case
    by (cases t) (auto simp: abbrev_at_def intro!: corruption)
qed simp

lemma corrupt_only_block [corruption]: "corrupt_only (read_block w c b)"
  unfolding read_block_def
  by (intro corruption corrupt_only_simps)

lemma corrupt_only_footer [corruption]: "corrupt_only (read_footer b)"
  by (auto simp: read_footer_def Let_def split: sum.splits)

lemma parse_corrupt_only: "corrupt_only (parse_tzif b)"
  unfolding parse_tzif_def
  by (intro corruption corrupt_only_simps)

end
