(* ===== verification/Zone_Laws.thy ===== *)
theory Zone_Laws
  imports Tzif
begin

text \<open>
  What the zone conversions promise: the search finds the boundary, the offset chosen for a local
  reading is that of an instant which reads as it (the later of two), the rule day is the weekday
  asked for, and the table lookup takes the last transition that is not later.
\<close>

section \<open>The boundary search\<close>

lemma boundary_loop_finds:
  assumes "lo \<le> B" "B \<le> hi"
    and "\<And>t. lo \<le> t \<Longrightarrow> t < B \<Longrightarrow> off t = Some a"
    and "\<And>t. B \<le> t \<Longrightarrow> t < hi \<Longrightarrow> \<exists>b. off t = Some b \<and> b \<noteq> a"
  shows "boundary_loop off a lo hi = Some B"
  using assms
proof (induction off a lo hi rule: boundary_loop.induct)
  case (1 off a lo hi)
  show ?case
  proof (cases "lo < hi")
    case False
    then show ?thesis using "1.prems"(1,2) by (subst boundary_loop.simps) simp
  next
    case True
    define mid where "mid = lo + (hi - lo) div 2"
    have m: "lo \<le> mid" "mid < hi" using True by (auto simp: mid_def)
    show ?thesis
    proof (cases "mid < B")
      case True
      then have o: "off mid = Some a" using "1.prems"(3) m by blast
      have "boundary_loop off a (mid + 1) hi = Some B"
        using "1.IH"(1) [OF \<open>lo < hi\<close> mid_def o refl] True m "1.prems" by simp
      then show ?thesis using \<open>lo < hi\<close> o by (subst boundary_loop.simps) (simp add: mid_def)
    next
      case False
      then obtain b where o: "off mid = Some b" "b \<noteq> a" using "1.prems"(4) [of mid] m by auto
      have "boundary_loop off a lo mid = Some B"
        using "1.IH"(2) [OF \<open>lo < hi\<close> mid_def o] False m "1.prems" by simp
      then show ?thesis using \<open>lo < hi\<close> o by (subst boundary_loop.simps) (simp add: mid_def)
    qed
  qed
qed

section \<open>One boundary near a local reading\<close>

text \<open>
  Within a day of the reading, the offset is \<open>a\<close> before the instant \<open>B\<close> and \<open>b\<close> from it on.
\<close>

definition one_boundary :: "zone_ref \<Rightarrow> int \<Rightarrow> int \<Rightarrow> int \<Rightarrow> int \<Rightarrow> bool" where
  "one_boundary zr wall B a b \<longleftrightarrow>
     wall - DAY < B \<and> B \<le> wall + DAY \<and> \<bar>a\<bar> \<le> DAY \<and> \<bar>b\<bar> \<le> DAY
     \<and> (\<forall>t. wall - DAY \<le> t \<and> t < B \<longrightarrow> utoff_at zr t = Some a)
     \<and> (\<forall>t. B \<le> t \<and> t \<le> wall + DAY \<longrightarrow> utoff_at zr t = Some b)"

lemma determine_one_boundary:
  assumes "one_boundary zr wall B a b"
  shows "determine_local_offset zr wall = Some (if a = b then a else choose_offset wall a b B)"
proof -
  note ob = assms [unfolded one_boundary_def]
  have ends: "utoff_at zr (wall - DAY) = Some a" "utoff_at zr (wall + DAY) = Some b"
    using ob by (auto simp: DAY_def)
  show ?thesis
  proof (cases "a = b")
    case True
    then show ?thesis using ends by (simp add: determine_local_offset_def)
  next
    case False
    have "boundary_loop (utoff_at zr) a (wall - DAY) (wall + DAY) = Some B"
      using ob False by (intro boundary_loop_finds) auto
    then show ?thesis using ends False by (simp add: determine_local_offset_def)
  qed
qed

text \<open>The instants whose local reading is \<open>wall\<close>.\<close>

definition reads_as :: "zone_ref \<Rightarrow> int \<Rightarrow> int \<Rightarrow> bool" where
  "reads_as zr wall t \<longleftrightarrow> (\<exists>u. utoff_at zr t = Some u \<and> t + u = wall)"

lemma reads_as_one_boundary:
  assumes "one_boundary zr wall B a b" "\<bar>t - wall\<bar> \<le> DAY"
  shows "reads_as zr wall t \<longleftrightarrow> (if t < B then t = wall - a else t = wall - b)"
  using assms by (auto simp: reads_as_def one_boundary_def)

lemma choose_offset_latest:
  assumes ob: "one_boundary zr wall B a b" and "a \<noteq> b" and "\<bar>t - wall\<bar> \<le> DAY" "reads_as zr wall t"
  shows "reads_as zr wall (wall - choose_offset wall a b B) \<and> t \<le> wall - choose_offset wall a b B"
proof -
  have w: "\<bar>wall - a - wall\<bar> \<le> DAY" "\<bar>wall - b - wall\<bar> \<le> DAY" using ob by (auto simp: one_boundary_def)
  note r = reads_as_one_boundary [OF ob]
  show ?thesis using assms(2,4) unfolding r [OF assms(3)]
    by (auto simp: choose_offset_def Let_def r [OF w(1)] r [OF w(2)] split: if_splits)
qed

lemma choose_offset_gap:
  assumes ob: "one_boundary zr wall B a b" and "a \<noteq> b"
    and none: "\<And>t. \<bar>t - wall\<bar> \<le> DAY \<Longrightarrow> \<not> reads_as zr wall t"
  shows "choose_offset wall a b B = a"
proof -
  have w: "\<bar>wall - a - wall\<bar> \<le> DAY" "\<bar>wall - b - wall\<bar> \<le> DAY" using ob by (auto simp: one_boundary_def)
  note r = reads_as_one_boundary [OF ob]
  have "\<not> wall - a < B" "wall - b < B"
    using none [OF w(1)] none [OF w(2)] unfolding r [OF w(1)] r [OF w(2)]
    by (auto split: if_splits)
  then show ?thesis by (simp add: choose_offset_def Let_def)
qed

lemma offset_at_ref_utoff:
  "utoff_at zr t = Some u \<Longrightarrow> \<exists>o'. offset_at_ref zr t = Some o' \<and> os_utoff o' = u"
  by (auto simp: utoff_at_def)

lemma instant_to_local_shift:
  assumes "utoff_at zr (i div 1000000) = Some u"
  shows "instant_to_local_micros zr i = Some (finite_shift (i64_opt (i + u * 1000000)))"
  using offset_at_ref_utoff [OF assms] by (auto simp: instant_to_local_micros_def)

lemma finite_shift_Some:
  "finite_shift (i64_opt m) = Some k \<longleftrightarrow> k = m \<and> NEG_INFINITY < m \<and> m < POS_INFINITY"
  by (auto simp: finite_shift_def i64_opt_def NEG_INFINITY_def POS_INFINITY_def)

text \<open>What the chosen offset is, with or without a change of offset near the reading.\<close>

lemma determine_latest:
  assumes ob: "one_boundary zr wall B a b"
  obtains u where "determine_local_offset zr wall = Some u" "\<bar>u\<bar> \<le> DAY"
    and "\<And>t. \<bar>t - wall\<bar> \<le> DAY \<Longrightarrow> reads_as zr wall t \<Longrightarrow> reads_as zr wall (wall - u) \<and> t \<le> wall - u"
    and "(\<And>t. \<bar>t - wall\<bar> \<le> DAY \<Longrightarrow> \<not> reads_as zr wall t) \<Longrightarrow> u = a"
proof (cases "a = b")
  case True
  have "reads_as zr wall (wall - a) \<and> t \<le> wall - a" if "\<bar>t - wall\<bar> \<le> DAY" "reads_as zr wall t" for t
    using reads_as_one_boundary [OF ob that(1)] that(2) True by (auto split: if_splits)
  then show thesis
    using that [of a] ob determine_one_boundary [OF ob] True by (auto simp: one_boundary_def)
next
  case False
  let ?u = "choose_offset wall a b B"
  have "\<bar>?u\<bar> \<le> DAY" using ob by (auto simp: choose_offset_def one_boundary_def Let_def)
  then show thesis
    using that [of ?u] determine_one_boundary [OF ob] False choose_offset_latest [OF ob False]
      choose_offset_gap [OF ob False] by simp
qed

lemma instant_reads:
  assumes "NEG_INFINITY < w" "w < POS_INFINITY"
  shows "instant_to_local_micros zr j = Some (Some w)
    \<longleftrightarrow> reads_as zr (w div 1000000) (j div 1000000) \<and> j mod 1000000 = w mod 1000000"
proof (cases "utoff_at zr (j div 1000000)")
  case None
  then show ?thesis by (simp add: reads_as_def instant_to_local_micros_def utoff_at_def)
next
  case (Some u)
  have "w = j + u * 1000000 \<longleftrightarrow> j div 1000000 + u = w div 1000000 \<and> j mod 1000000 = w mod 1000000"
    (is "?l = ?r")
  proof
    assume ?r
    then have "w div 1000000 * 1000000 + w mod 1000000 = (j div 1000000 * 1000000 + j mod 1000000) + u * 1000000"
      by (simp add: algebra_simps flip: \<open>?r\<close> [THEN conjunct1])
    then show ?l by simp
  qed simp
  then show ?thesis using Some assms
    by (auto simp: instant_to_local_shift [OF Some] finite_shift_Some reads_as_def)
qed

lemma read_instant:
  assumes "reads_as zr (w div 1000000) t"
  shows "(t * 1000000 + w mod 1000000) div 1000000 = t"
    and "(t * 1000000 + w mod 1000000) mod 1000000 = w mod (1000000 :: int)"
  by simp_all

section \<open>The days of a rule\<close>

lemma month_end:
  assumes "1 \<le> m" "m \<le> 12"
  shows "(if m = 12 then days_from_civil (y + 1) 1 1 else days_from_civil y (m + 1) 1)
    = days_from_civil y m 1 + days_in_month y m"
proof -
  have v: "valid_date (y, m, days_in_month y m)"
    using assms days_in_month_range [OF assms, of y] by (simp add: valid_date_def)
  have "days_from_civil y m (days_in_month y m) = days_from_civil y m 1 + days_in_month y m - 1"
    using assms by (simp add: days_from_civil_closed)
  then show ?thesis using days_next_day [OF v] assms by (auto simp: next_day_def split: if_splits)
qed

lemma days_within_month:
  "1 \<le> m \<Longrightarrow> m \<le> 12 \<Longrightarrow> days_from_civil y m d = days_from_civil y m 1 + (d - 1)"
  by (simp add: days_from_civil_closed)

section \<open>The table lookup\<close>

lemma partition_point_at:
  fixes xs :: "int list"
  assumes "sorted_wrt (<) xs" "i < length xs" "xs ! i \<le> t" "Suc i < length xs \<Longrightarrow> t < xs ! Suc i"
  shows "partition_point (\<lambda>x. x \<le> t) xs = Suc i"
proof -
  have "takeWhile (\<lambda>x. x \<le> t) xs = take (Suc i) xs"
  proof (rule takeWhile_eq_take_P_nth)
    fix k assume "k < Suc i" "k < length xs"
    then have "xs ! k \<le> xs ! i"
      using assms(1,2) by (cases "k = i") (auto simp: sorted_wrt_iff_nth_less intro: less_imp_le)
    then show "xs ! k \<le> t" using assms(3) by simp
  qed (use assms(4) in auto)
  then show ?thesis using assms(2) by (simp add: partition_point_def)
qed

section \<open>What a parsed table holds\<close>

lemma read_many_length: "read_many n rd b = Inr (xs, b') \<Longrightarrow> length xs = n"
  by (induction n arbitrary: b xs) auto

lemma named_types_length: "named_types desig raw = Inr tys \<Longrightarrow> length tys = length raw"
  by (induction desig raw arbitrary: tys rule: named_types.induct) auto

lemma read_block_ok: "read_block w c b = Inr (data, b') \<Longrightarrow> tz_ok data"
  by (auto simp: read_block_def tz_ok_def list_ex_iff not_le split: if_splits dest!: read_many_length)

lemma parse_tzif_ok: "parse_tzif b = Inr data \<Longrightarrow> tz_ok data"
  by (auto simp: parse_tzif_def tz_ok_def split: if_splits dest!: read_block_ok [unfolded tz_ok_def])

text \<open>The answer of the lookup, by the part of the time line the instant is in.\<close>

definition in_force :: "tz_data \<Rightarrow> int \<Rightarrow> tz_offset \<Rightarrow> bool" where
  "in_force data t out \<longleftrightarrow>
     (let tr = tz_trans data; n = length tr
      in (tr \<noteq> [] \<and> t < hd tr \<longrightarrow> out = first_std_offset data)
       \<and> (tr = [] \<and> tz_footer data = None \<longrightarrow> out = first_std_offset data)
       \<and> (\<forall>f. tz_footer data = Some f \<and> (tr = [] \<or> last tr \<le> t) \<longrightarrow> out = eval_posix f t)
       \<and> (\<forall>i<n. tr ! i \<le> t \<and> (Suc i < n \<longrightarrow> t < tr ! Suc i) \<and> (Suc i = n \<longrightarrow> tz_footer data = None)
              \<longrightarrow> out = offset_of_type (tz_types data ! (tz_trans_type data ! i))))"

lemma offset_at_table:
  assumes ok: "tz_ok data" and i: "i < length (tz_trans data)"
    and f: "\<not> t < tz_trans data ! 0" "partition_point (\<lambda>x. x \<le> t) (tz_trans data) = Suc i"
    and ft: "tz_footer data = None \<or> \<not> t \<ge> tz_trans data ! (length (tz_trans data) - 1)"
  shows "offset_at data t = Some (offset_of_type (tz_types data ! (tz_trans_type data ! i)))"
proof -
  have "tz_trans_type data ! i < length (tz_types data)" "i < length (tz_trans_type data)"
    using ok i by (simp_all add: tz_ok_def)
  moreover have "tz_trans data \<noteq> []" using i by auto
  ultimately show ?thesis
    using f ft by (cases "tz_footer data") (auto simp: offset_at_def table_offset_def)
qed

lemma offset_at_defined:
  assumes "tz_ok data"
  shows "\<exists>out. offset_at data t = Some out"
proof (cases "tz_trans data = [] \<or> t < tz_trans data ! 0
    \<or> (tz_footer data \<noteq> None \<and> t \<ge> tz_trans data ! (length (tz_trans data) - 1))")
  case True
  then show ?thesis by (cases "tz_footer data") (auto simp: offset_at_def)
next
  case False
  let ?p = "partition_point (\<lambda>x. x \<le> t) (tz_trans data)"
  have "?p \<le> length (tz_trans data)" by (simp add: partition_point_def length_takeWhile_le)
  moreover have "0 < ?p" using False by (cases "tz_trans data") (auto simp: partition_point_def)
  ultimately obtain k where "k < length (tz_trans data)" "?p = Suc k" by (cases ?p) auto
  then show ?thesis using False offset_at_table [OF assms, of k t] by auto
qed

lemma offset_at_in_force:
  assumes ok: "tz_ok data" and so: "sorted_wrt (<) (tz_trans data)" and out: "offset_at data t = Some out"
  shows "in_force data t out"
proof -
  let ?tr = "tz_trans data" let ?n = "length ?tr"
  have first: "?tr ! 0 \<le> ?tr ! i" if "i < ?n" for i
    using so that by (cases i) (auto simp: sorted_wrt_iff_nth_less intro: less_imp_le)
  have last: "?tr ! i \<le> ?tr ! (?n - 1)" if "i < ?n" for i
    using so that by (cases "i = ?n - 1") (auto simp: sorted_wrt_iff_nth_less intro: less_imp_le)
  have "out = offset_of_type (tz_types data ! (tz_trans_type data ! i))"
    if i: "i < ?n" "?tr ! i \<le> t" "Suc i < ?n \<longrightarrow> t < ?tr ! Suc i" "Suc i = ?n \<longrightarrow> tz_footer data = None" for i
  proof -
    have nl: "\<not> t < ?tr ! 0" using first [OF i(1)] i(2) by simp
    have ft: "tz_footer data = None \<or> \<not> t \<ge> ?tr ! (?n - 1)"
    proof (cases "Suc i = ?n")
      case False
      then show ?thesis using last [of "Suc i"] i(1,3) by auto
    qed (use i in simp)
    have pp: "partition_point (\<lambda>x. x \<le> t) ?tr = Suc i"
      using i by (intro partition_point_at [OF so]) auto
    show ?thesis using out offset_at_table [OF ok i(1) nl pp ft] by simp
  qed
  then show ?thesis
    using out last [of 0]
    by (auto simp: in_force_def offset_at_def Let_def hd_conv_nth last_conv_nth split: if_splits)
qed

section \<open>Properties\<close>

text \<open>
  C15. A local reading becomes an instant that reads back as it. Near the reading (within a day, where
  the zone changes its offset at most once) some instants may read as it: then one of them is
  returned, the latest; when none does, as in the gap of a spring-forward change, the offset in force
  before the change is used.
\<close>

theorem local_to_instant_latest:
  assumes ob: "one_boundary zr (w div 1000000) B a b"
    and w: "NEG_INFINITY + 86400000000 < w" "w < POS_INFINITY - 86400000000"
  defines "readings \<equiv> {j. \<bar>j div 1000000 - w div 1000000\<bar> \<le> DAY \<and> instant_to_local_micros zr j = Some (Some w)}"
  shows "if readings = {} then local_to_instant_micros zr w = Some (Some (w - a * 1000000))
    else \<exists>i\<in>readings. local_to_instant_micros zr w = Some (Some i) \<and> (\<forall>j\<in>readings. j \<le> i)"
proof -
  let ?wall = "w div 1000000"
  obtain u where u: "determine_local_offset zr ?wall = Some u" "\<bar>u\<bar> \<le> DAY"
    and latest: "\<And>t. \<bar>t - ?wall\<bar> \<le> DAY \<Longrightarrow> reads_as zr ?wall t
        \<Longrightarrow> reads_as zr ?wall (?wall - u) \<and> t \<le> ?wall - u"
    and gap: "(\<And>t. \<bar>t - ?wall\<bar> \<le> DAY \<Longrightarrow> \<not> reads_as zr ?wall t) \<Longrightarrow> u = a"
    by (rule determine_latest [OF ob]) blast
  have fin: "NEG_INFINITY < w" "w < POS_INFINITY" using w by simp_all
  have lti: "local_to_instant_micros zr w = Some (Some (w - u * 1000000))"
    using u w by (simp add: local_to_instant_micros_def finite_shift_Some DAY_def abs_le_iff)
  have parts: "(w - u * 1000000) div 1000000 = ?wall - u" "(w - u * 1000000) mod 1000000 = w mod 1000000"
    using div_mult_self1 [of 1000000 w "- u"] mod_mult_self1 [of w "- u" 1000000] by simp_all
  have mem: "j \<in> readings \<longleftrightarrow> \<bar>j div 1000000 - ?wall\<bar> \<le> DAY
      \<and> reads_as zr ?wall (j div 1000000) \<and> j mod 1000000 = w mod 1000000" for j
    unfolding readings_def by (simp add: instant_reads [OF fin])
  show ?thesis
  proof (cases "readings = {}")
    case True
    have "\<not> reads_as zr ?wall t" if "\<bar>t - ?wall\<bar> \<le> DAY" for t
      using mem [of "t * 1000000 + w mod 1000000"] that True by simp
    then show ?thesis using True gap lti by simp
  next
    case False
    then obtain j where "j \<in> readings" by blast
    then have "reads_as zr ?wall (?wall - u)" using latest unfolding mem by blast
    then have "w - u * 1000000 \<in> readings" using u unfolding mem parts by simp
    moreover have "j \<le> w - u * 1000000" if "j \<in> readings" for j
    proof -
      have "j div 1000000 \<le> ?wall - u" "j mod 1000000 = w mod 1000000"
        using latest that unfolding mem by blast+
      then show ?thesis
        using parts div_mult_mod_eq [of j 1000000] div_mult_mod_eq [of "w - u * 1000000" 1000000] by linarith
    qed
    ultimately show ?thesis using False lti by auto
  qed
qed

definition sample_zone :: zone_ref where
  "sample_zone = Zone \<lparr> tz_trans = [100000000, 200000000], tz_trans_type = [1, 0],
     tz_types = [\<lparr> lt_utoff = -18000, lt_is_dst = False, lt_abbrev = ''EST'' \<rparr>,
                 \<lparr> lt_utoff = -14400, lt_is_dst = True, lt_abbrev = ''EDT'' \<rparr>],
     tz_footer = None \<rparr>"

theorem local_to_instant_latest_witness:
  "one_boundary sample_zone 199983000 200000000 (-14400) (-18000)
   \<and> instant_to_local_micros sample_zone 199997400000000 = Some (Some 199983000000000)
   \<and> (\<exists>i \<ge> 199997400000000. local_to_instant_micros sample_zone 199983000000000 = Some (Some i)
        \<and> instant_to_local_micros sample_zone i = Some (Some 199983000000000))
   \<and> local_to_instant_micros sample_zone 199983000000000 = Some (Some 200001000000000)"
proof -
  have ob: "one_boundary sample_zone (199983000000000 div 1000000) 200000000 (-14400) (-18000)"
    by (auto simp: one_boundary_def DAY_def utoff_at_def offset_at_ref_def offset_at_def sample_zone_def table_offset_def
        partition_point_def offset_of_type_def nth_opt_def)
  have j: "instant_to_local_micros sample_zone 199997400000000 = Some (Some 199983000000000)"
    "local_to_instant_micros sample_zone 199983000000000 = Some (Some 200001000000000)"
    by code_simp+
  have w: "NEG_INFINITY + 86400000000 < 199983000000000" "199983000000000 < POS_INFINITY - 86400000000"
    by code_simp+
  note latest = local_to_instant_latest [OF ob w]
  have "(199997400000000 :: int) \<in> {j. \<bar>j div 1000000 - 199983000000000 div 1000000\<bar> \<le> DAY
      \<and> instant_to_local_micros sample_zone j = Some (Some 199983000000000)}"
    using j by (simp add: DAY_def)
  with latest have "\<exists>i \<ge> 199997400000000. local_to_instant_micros sample_zone 199983000000000 = Some (Some i)
        \<and> instant_to_local_micros sample_zone i = Some (Some 199983000000000)"
    by (smt (verit) empty_iff mem_Collect_eq)
  then show ?thesis using ob j by simp
qed

text \<open>
  C24. Loading a compiled zone never panics: malformed input is data corruption, and a table that loads
  answers every instant. Where its transitions ascend, which the loader does not check, the answer is the
  type in force: that of the last transition not later than the instant, the first standard type before
  all of them, and after the last one the footer rule when the table has one.
\<close>

theorem parse_tzif_safe:
  "case parse_tzif bytes of
     Inl e \<Rightarrow> fst e = DataCorrupted
   | Inr data \<Rightarrow> \<forall>t. \<exists>out. offset_at data t = Some out
       \<and> (sorted_wrt (<) (tz_trans data) \<longrightarrow> in_force data t out)"
proof (cases "parse_tzif bytes")
  case (Inl e)
  then show ?thesis using parse_corrupt_only [of bytes] by (simp add: corrupt_only_def)
next
  case (Inr data)
  note ok = parse_tzif_ok [OF Inr]
  show ?thesis using Inr offset_at_defined [OF ok] offset_at_in_force [OF ok] by fastforce
qed

definition sample_tzif :: bytes where
  "sample_tzif = [84, 90, 105, 102, 0] @ replicate 15 0
     @ [0, 0, 0, 0, 0, 0, 0, 0, 0, 0, 0, 0, 0, 0, 0, 2, 0, 0, 0, 2, 0, 0, 0, 8]
     @ [255, 255, 255, 246, 0, 0, 0, 20] @ [1, 0]
     @ [0, 0, 0, 60, 1, 0] @ [255, 255, 255, 196, 0, 4] @ [65, 66, 67, 0, 88, 89, 90, 0]"

theorem parse_tzif_safe_witness:
  "\<exists>data out. parse_tzif sample_tzif = Inr data \<and> tz_trans data = [-10, 20] \<and> offset_at data 3 = Some out
     \<and> in_force data 3 out"
proof -
  have "map_option tz_trans (case parse_tzif sample_tzif of Inr data \<Rightarrow> Some data | Inl _ \<Rightarrow> None) = Some [-10, 20]"
    by code_simp
  then obtain data where "parse_tzif sample_tzif = Inr data" "tz_trans data = [-10, 20]"
    by (auto split: sum.splits)
  then show ?thesis using parse_tzif_safe [of sample_tzif] by auto
qed

text \<open>
  The day of a footer rule is the one the rule names: a day of the month, on the weekday asked
  for, in the given week of seven days from the month's first, or the last such day for week 5.
\<close>

theorem mwd_day_weekday:
  assumes "1 \<le> m" "m \<le> 12" "1 \<le> w" "w \<le> 5" "0 \<le> d" "d \<le> 6"
  shows "valid_date (y, m, mwd_day y m w d)
    \<and> (days_from_civil y m (mwd_day y m w d) + 4) mod 7 = d
    \<and> (w \<le> 4 \<longrightarrow> (mwd_day y m w d - 1) div 7 = w - 1)
    \<and> (w = 5 \<longrightarrow> days_in_month y m < mwd_day y m w d + 7)"
proof -
  define first where "first = days_from_civil y m 1"
  define ofs where "ofs = (d - (first + 4) mod 7) mod 7"
  define day where "day = 1 + ofs + (w - 1) * 7"
  have dim: "28 \<le> days_in_month y m" "days_in_month y m \<le> 31"
    using days_in_month_range [OF assms(1,2)] by auto
  have r: "mwd_day y m w d = (if day > days_in_month y m then day - 7 else day)"
    unfolding mwd_day_def Let_def month_end [OF assms(1,2)] by (simp add: day_def ofs_def first_def)
  have o: "0 \<le> ofs" "ofs \<le> 6" by (simp_all add: ofs_def)
  have dow: "(first + ofs + 4) mod 7 = d"
  proof -
    have "(x + (d - x mod 7) mod 7) mod 7 = d mod 7" for x by presburger
    from this [of "first + 4"] show ?thesis using assms(5,6) by (simp add: ofs_def algebra_simps)
  qed
  have "(first + (ofs + (k - 1) * 7) + 4) mod 7 = d" for k
    using dow by (metis (no_types, opaque_lifting) add.assoc add.commute mod_mult_self1)
  from this [of w] this [of "w - 1"] show ?thesis
    unfolding r days_within_month [OF assms(1,2), of y, folded first_def] valid_date_def
    using assms(1-4) o dim by (auto simp: day_def)
qed

theorem mwd_day_weekday_witness:
  "mwd_day 2024 3 2 0 = 10 \<and> (days_from_civil 2024 3 (mwd_day 2024 3 2 0) + 4) mod 7 = 0"
  using mwd_day_weekday [of 3 2 0 2024] by (simp add: mwd_day_def) code_simp

end
